(* ===== verification/Prelude.thy ===== *)
theory Prelude
  imports Main "HOL-Library.Word" "HOL-Library.Monad_Syntax"
begin

text \<open>
  Shared vocabulary of the development: machine integers of the C code, bounds-checked
  array access, error codes, and the generic arithmetic and list lemmas that several
  components use.

  Conventions.  A C array is a list.  Every access that the C code makes through a pointer
  goes through \<open>rd\<close> or \<open>wr\<close>, which return \<open>None\<close> when the index is outside the list: a
  \<open>None\<close> of the model is an out-of-bounds access (undefined behaviour) of the program, so
  that a theorem whose conclusion is \<open>Some ...\<close> also states memory safety.  An \<open>int32_t\<close>
  that is only used as an index or a count is an \<open>int\<close>; unsigned bytes and UTF-16 code
  units are words of their width.
\<close>

unbundle bit_operations_syntax

type_synonym u8 = "8 word"
type_synonym u16 = "16 word"
type_synonym u32 = "32 word"
type_synonym UChar32 = int

named_theorems bit_arith
named_theorems rd_simps

datatype UErrorCode =
    U_ZERO_ERROR
  | U_ILLEGAL_ARGUMENT_ERROR
  | U_INDEX_OUTOFBOUNDS_ERROR
  | U_MEMORY_ALLOCATION_ERROR
  | U_INVALID_CHAR_FOUND
  | U_TRUNCATED_CHAR_FOUND
  | U_ILLEGAL_CHAR_FOUND
  | U_BUFFER_OVERFLOW_ERROR
  | U_INTERNAL_PROGRAM_ERROR
  | U_UNSUPPORTED_ERROR
  | U_NO_WRITE_PERMISSION
  | U_INVALID_STATE_ERROR
  | U_USING_DEFAULT_WARNING
  | U_STRING_NOT_TERMINATED_WARNING

definition U_FAILURE :: "UErrorCode \<Rightarrow> bool" where
  "U_FAILURE e \<longleftrightarrow>
     e \<notin> {U_ZERO_ERROR, U_USING_DEFAULT_WARNING, U_STRING_NOT_TERMINATED_WARNING}"

definition U_SUCCESS :: "UErrorCode \<Rightarrow> bool" where
  "U_SUCCESS e \<longleftrightarrow> \<not> U_FAILURE e"

lemma U_FAILURE_simps [simp]:
  "\<not> U_FAILURE U_ZERO_ERROR" "U_FAILURE U_ILLEGAL_ARGUMENT_ERROR"
  "U_FAILURE U_MEMORY_ALLOCATION_ERROR" "U_FAILURE U_INDEX_OUTOFBOUNDS_ERROR"
  "U_FAILURE U_NO_WRITE_PERMISSION" "U_FAILURE U_BUFFER_OVERFLOW_ERROR"
  "U_FAILURE U_INTERNAL_PROGRAM_ERROR" "U_FAILURE U_UNSUPPORTED_ERROR"
  "U_FAILURE U_INVALID_CHAR_FOUND" "U_FAILURE U_INVALID_STATE_ERROR"
  by (simp_all add: U_FAILURE_def)

section \<open>Bounds-checked access\<close>

definition rd :: "'a list \<Rightarrow> int \<Rightarrow> 'a option" where
  "rd s i = (if 0 \<le> i \<and> i < int (length s) then Some (s ! nat i) else None)"

definition wr :: "'a list \<Rightarrow> int \<Rightarrow> 'a \<Rightarrow> 'a list option" where
  "wr s i x = (if 0 \<le> i \<and> i < int (length s) then Some (s[nat i := x]) else None)"

lemma rd_in [simp]: "0 \<le> i \<Longrightarrow> i < int (length s) \<Longrightarrow> rd s i = Some (s ! nat i)"
  by (simp add: rd_def)

lemma rd_Some_iff: "rd s i = Some x \<longleftrightarrow> 0 \<le> i \<and> i < int (length s) \<and> s ! nat i = x"
  by (auto simp: rd_def)

lemma rd_None_iff: "rd s i = None \<longleftrightarrow> i < 0 \<or> int (length s) \<le> i"
  by (auto simp: rd_def)

lemma rd_nat [simp]: "n < length s \<Longrightarrow> rd s (int n) = Some (s ! n)"
  by (simp add: rd_def)

lemma wr_in [simp]: "0 \<le> i \<Longrightarrow> i < int (length s) \<Longrightarrow> wr s i x = Some (s[nat i := x])"
  by (simp add: wr_def)

lemma wr_Some_iff:
  "wr s i x = Some t \<longleftrightarrow> 0 \<le> i \<and> i < int (length s) \<and> t = s[nat i := x]"
  by (auto simp: wr_def)

lemma wr_length: "wr s i x = Some t \<Longrightarrow> length t = length s"
  by (auto simp: wr_Some_iff)

lemma rd_append [rd_simps]:
  "0 \<le> i \<Longrightarrow> rd (xs @ ys) (int (length xs) + i) = rd ys i"
  by (auto simp: rd_def nth_append nat_add_distrib)

lemma rd_Cons0 [rd_simps]: "rd (x # xs) 0 = Some x"
  by (simp add: rd_def)

lemma bind_Some_iff:
  "Option.bind m f = Some y \<longleftrightarrow> (\<exists>x. m = Some x \<and> f x = Some y)"
  by (cases m) auto

text \<open>The items of \<open>s\<close> at the offsets \<open>i\<close>, \<open>i + 1\<close>, ..., \<open>j - 1\<close>.\<close>

definition seg :: "'a list \<Rightarrow> int \<Rightarrow> int \<Rightarrow> 'a list" where
  "seg s i j = take (nat (j - i)) (drop (nat i) s)"

lemma seg_empty [simp]: "j \<le> i \<Longrightarrow> seg s i j = []"
  by (simp add: seg_def)

lemma seg_step:
  assumes "0 \<le> i" "i < j" "i < int (length s)"
  shows "seg s i j = s ! nat i # seg s (i + 1) j"
proof -
  have "drop (nat i) s = s ! nat i # drop (Suc (nat i)) s"
    using assms by (simp add: Cons_nth_drop_Suc)
  moreover have "Suc (nat i) = nat (i + 1)" using assms(1) by simp
  moreover have "nat (j - i) = Suc (nat (j - (i + 1)))" using assms by simp
  ultimately show ?thesis by (simp add: seg_def)
qed

lemma seg_append: "seg (xs @ ys @ zs) (int (length xs)) (int (length xs) + int (length ys)) = ys"
  by (simp add: seg_def)

lemma length_seg: "0 \<le> i \<Longrightarrow> j \<le> int (length s) \<Longrightarrow> length (seg s i j) = nat (j - i)"
  by (simp add: seg_def)

text \<open>Overwriting the items of \<open>s\<close> from offset \<open>i\<close> on with \<open>t\<close>.\<close>

definition overwrite :: "'a list \<Rightarrow> int \<Rightarrow> 'a list \<Rightarrow> 'a list" where
  "overwrite s i t = take (nat i) s @ t @ drop (nat i + length t) s"

lemma overwrite_Nil [simp]: "overwrite s i [] = s"
  by (simp add: overwrite_def)

lemma overwrite_length: "0 \<le> i \<Longrightarrow> i + int (length t) \<le> int (length s) \<Longrightarrow> length (overwrite s i t) = length s"
  by (simp add: overwrite_def)

lemma overwrite_Cons:
  assumes "0 \<le> i" "i + 1 + int (length t) \<le> int (length s)"
  shows "overwrite (s[nat i := x]) (i + 1) t = overwrite s i (x # t)"
proof -
  have "nat (i + 1) = Suc (nat i)" "nat i < length s" using assms by linarith+
  then show ?thesis
    by (simp add: overwrite_def take_Suc_conv_app_nth)
qed

lemma seg_overwrite:
  assumes "0 \<le> i" "i + int (length t) \<le> int (length s)"
  shows "seg (overwrite s i t) i (i + int (length t)) = t"
  using assms by (simp add: seg_def overwrite_def)

section \<open>Bit arithmetic\<close>

lemma int_or_push_bit [bit_arith]:
  fixes x t :: int
  assumes "0 \<le> t" "t < 2 ^ n"
  shows "push_bit n x OR t = x * 2 ^ n + t"
proof -
  have "push_bit n x AND t = 0"
  proof (rule bit_eqI)
    fix m
    have "\<not> bit t m" if "n \<le> m"
    proof -
      have "t < 2 ^ m" using assms(2) that
        by (meson less_le_trans one_le_numeral power_increasing)
      then show ?thesis using assms(1)
        by (simp add: bit_iff_odd)
    qed
    then show "bit (push_bit n x AND t) m = bit (0::int) m"
      by (auto simp: bit_and_iff bit_push_bit_iff)
  qed
  then have "push_bit n x OR t = push_bit n x + t"
    by (simp add: disjunctive_add_eq_or)
  then show ?thesis by (simp add: push_bit_eq_mult)
qed

lemma int_and_mask [bit_arith]: "(x::int) AND (2 ^ n - 1) = x mod 2 ^ n"
  by (simp add: take_bit_eq_mask mask_eq_exp_minus_1 flip: take_bit_eq_mod)

lemma int_and_lows [bit_arith]:
  "(x::int) AND 1 = x mod 2" "(x::int) AND 3 = x mod 4" "(x::int) AND 7 = x mod 8"
  "(x::int) AND 15 = x mod 16" "(x::int) AND 31 = x mod 32" "(x::int) AND 63 = x mod 64"
  "(x::int) AND 127 = x mod 128" "(x::int) AND 255 = x mod 256"
  "(x::int) AND 1023 = x mod 1024" "(x::int) AND 65535 = x mod 65536"
proof -
  note m = int_and_mask [of x]
  show "x AND 1 = x mod 2" using m [of 1] by simp
  show "x AND 3 = x mod 4" using m [of 2] by simp
  show "x AND 7 = x mod 8" using m [of 3] by simp
  show "x AND 15 = x mod 16" using m [of 4] by simp
  show "x AND 31 = x mod 32" using m [of 5] by simp
  show "x AND 63 = x mod 64" using m [of 6] by simp
  show "x AND 127 = x mod 128" using m [of 7] by simp
  show "x AND 255 = x mod 256" using m [of 8] by simp
  show "x AND 1023 = x mod 1024" using m [of 10] by simp
  show "x AND 65535 = x mod 65536" using m [of 16] by simp
qed

lemma int_block_iff:
  fixes x k q :: int
  assumes "0 < k"
  shows "x - x mod k = q * k \<longleftrightarrow> q * k \<le> x \<and> x < q * k + k"
proof
  assume "x - x mod k = q * k"
  moreover have "0 \<le> x mod k" "x mod k < k" using assms by simp_all
  ultimately show "q * k \<le> x \<and> x < q * k + k" by linarith
next
  assume *: "q * k \<le> x \<and> x < q * k + k"
  have "x mod k = (x - q * k) mod k"
    by (metis mod_mult_self3 diff_add_cancel add.commute)
  also have "\<dots> = x - q * k" using * by (intro mod_pos_pos_trivial) auto
  finally show "x - x mod k = q * k" by simp
qed

lemma int_mod_block:
  fixes x k q :: int
  assumes "q * k \<le> x" "x < q * k + k"
  shows "x mod k = x - q * k"
proof -
  have "0 < k" using assms by linarith
  then show ?thesis using int_block_iff [of k x q] assms by linarith
qed

lemma digit64:
  "0 \<le> t \<Longrightarrow> t \<le> 63 \<Longrightarrow> (x * 64 + t) div 64 = (x::int)"
  "0 \<le> t \<Longrightarrow> t \<le> 63 \<Longrightarrow> (x * 64 + t) mod 64 = (t::int)"
  by (simp_all add: div_add1_eq)

lemma int_and_not_mask: "(x::int) AND NOT (mask n) = x - x mod 2 ^ n"
proof -
  have "x AND NOT (mask n) = push_bit n (drop_bit n x)"
    by (rule bit_eqI) (auto simp: bit_simps)
  then show ?thesis
    by (simp add: push_bit_eq_mult drop_bit_eq_div minus_mod_eq_div_mult)
qed
lemma int_and_high:
  fixes x :: int
  assumes "0 \<le> x" "x < 2 ^ m" "k = mask m AND NOT (mask n)"
  shows "x AND k = x - x mod 2 ^ n"
proof -
  have "x AND mask m = x"
    using assms(1,2) by (simp flip: take_bit_eq_mask add: take_bit_eq_mod)
  then have "x AND k = x AND NOT (mask n)"
    using assms(3) by (simp flip: and.assoc)
  then show ?thesis by (simp add: int_and_not_mask)
qed

lemma int_and_numerals [bit_arith]:
  "0 \<le> x \<Longrightarrow> x < 256 \<Longrightarrow> (x::int) AND 0xc0 = x - x mod 64"
  "0 \<le> x \<Longrightarrow> x < 65536 \<Longrightarrow> (x::int) AND 0xffe0 = x - x mod 32"
  "0 \<le> x \<Longrightarrow> x < 4294967296 \<Longrightarrow> (x::int) AND 0xfffff800 = x - x mod 2048"
  "0 \<le> x \<Longrightarrow> x < 4294967296 \<Longrightarrow> (x::int) AND 0xfffffc00 = x - x mod 1024"
  using int_and_high [of x 8 "0xc0" 6] int_and_high [of x 16 "0xffe0" 5]
    int_and_high [of x 32 "0xfffff800" 11] int_and_high [of x 32 "0xfffffc00" 10]
  by (simp_all add: mask_eq_exp_minus_1)

lemma uint_u8_bounds: "0 \<le> uint (b::u8)" "uint (b::u8) < 256"
  using uint_lt2p [of b] by simp_all

lemma uint_u16_bounds: "0 \<le> uint (b::u16)" "uint (b::u16) < 65536"
  using uint_lt2p [of b] by simp_all

lemma uint_u32_bounds: "0 \<le> uint (b::u32)" "uint (b::u32) < 4294967296"
  using uint_lt2p [of b] by simp_all

lemma uint_u8_of_int: "uint (word_of_int n :: u8) = n mod 256"
  by (simp add: uint_word_of_int)

lemma uint_u16_of_int: "uint (word_of_int n :: u16) = n mod 65536"
  by (simp add: uint_word_of_int)

lemma u8_eq_iff: "(a::u8) = b \<longleftrightarrow> uint a = uint b"
  by (simp add: word_uint_eq_iff)

lemma mod256_sub: "0 \<le> x \<Longrightarrow> x < 256 \<Longrightarrow> 0 \<le> k \<Longrightarrow> k < 256 \<Longrightarrow>
   (x - k) mod 256 = (if x < k then x - k + 256 else x - (k::int))"
proof (cases "x < k")
  case True
  assume "0 \<le> x" "x < 256" "0 \<le> k" "k < 256"
  then have "(x - k + 256) mod 256 = x - k + 256" 
    by (intro mod_pos_pos_trivial) (use True in simp_all)
  then show ?thesis using True by (simp only: mod_add_self2 if_True)
qed simp

text \<open>A statement about one byte is decided by evaluating it at all 256 of them.\<close>

definition u8_forall :: "(u8 \<Rightarrow> bool) \<Rightarrow> bool" where
  "u8_forall P = list_all (\<lambda>n. P (word_of_int n)) [0..255]"
lemma u8_forallD: "u8_forall P \<Longrightarrow> P b"
proof -
  assume "u8_forall P"
  moreover have "uint b \<in> set [0..255]" using uint_u8_bounds [of b] by simp
  ultimately have "P (word_of_int (uint b))"
    unfolding u8_forall_def list_all_iff by blast
  then show ?thesis by simp
qed

end
