(* ===== verification/Utf8.thy ===== *)
theory Utf8
  imports Prelude
begin

text \<open>
  UTF-8 access functions: \<^verbatim>\<open>src/common/utf_impl.c\<close> and the macros of
  \<^verbatim>\<open>src/common/unicode/utf8.h\<close> and \<^verbatim>\<open>utf.h\<close> that it uses or that call it.

  A byte string is a list of 8-bit words, an offset is an \<open>int\<close>, a code point
  (\<open>UChar32\<close>, an \<open>int32_t\<close>) is an \<open>int\<close>.  No operation here overflows: a lead byte is
  masked before it is shifted.  The results are \<open>(offset, code point)\<close> pairs for the
  C functions that write \<open>*pi\<close> and return a value.  \<open>None\<close> is a read or a write outside
  the buffer.
\<close>

section \<open>Macros of utf.h and utf8.h\<close>

definition U_SENTINEL :: UChar32 where
  "U_SENTINEL = -1"

definition uint32 :: "int \<Rightarrow> int" where
  "uint32 c = c mod 2 ^ 32"

definition U_IS_SURROGATE :: "UChar32 \<Rightarrow> bool" where
  "U_IS_SURROGATE c \<longleftrightarrow> uint32 c AND 0xfffff800 = 0xd800"

definition U_IS_UNICODE_NONCHAR :: "UChar32 \<Rightarrow> bool" where
  "U_IS_UNICODE_NONCHAR c \<longleftrightarrow>
     0xfdd0 \<le> c \<and> (uint32 c \<le> 0xfdef \<or> c AND 0xfffe = 0xfffe) \<and> uint32 c \<le> 0x10ffff"

definition U8_COUNT_TRAIL_BYTES :: "u8 \<Rightarrow> int" where
  "U8_COUNT_TRAIL_BYTES b =
     (if b < 0xf0 then of_bool (b \<ge> 0xc0) + of_bool (b \<ge> 0xe0)
      else if b < 0xfe then 3 + of_bool (b \<ge> 0xf8) + of_bool (b \<ge> 0xfc) else 0)"

definition U8_MASK_LEAD_BYTE :: "int \<Rightarrow> int \<Rightarrow> int" where
  "U8_MASK_LEAD_BYTE c count = c AND (push_bit (nat (6 - count)) 1 - 1)"

definition U8_IS_TRAIL :: "u8 \<Rightarrow> bool" where
  "U8_IS_TRAIL b \<longleftrightarrow> b AND 0xc0 = 0x80"

definition U8_IS_LEAD :: "u8 \<Rightarrow> bool" where
  "U8_IS_LEAD b \<longleftrightarrow> b - 0xc0 < 0x3e"

section \<open>Tables and error values of utf_impl.c\<close>

definition utf8_countTrailBytes :: "int list" where
  "utf8_countTrailBytes =
     replicate 128 0 @ replicate 64 0 @ replicate 32 1 @ replicate 16 2 @
     [3, 3, 3, 3, 3, 3, 3, 3, 4, 4, 4, 4, 5, 5, 0, 0]"

definition utf8_minLegal :: "UChar32 list" where
  "utf8_minLegal = [0, 0x80, 0x800, 0x10000]"

definition utf8_errorValue :: "UChar32 list" where
  "utf8_errorValue = [0x15, 0x9f, 0xffff, 0x10ffff, 0x3ffffff, 0x7fffffff]"

definition errorValue :: "int \<Rightarrow> int \<Rightarrow> UChar32 option" where
  "errorValue count strict =
     (if strict \<ge> 0 then rd utf8_errorValue count
      else if strict = -3 then Some 0xfffd
      else Some U_SENTINEL)"

section \<open>utf8\_nextCharSafeBody\<close>

text \<open>
  The \<open>switch\<close> falls through from 3 to 2 to 1; each label is one definition.  The result is
  \<open>Some (Some (i, c))\<close> for the \<open>return c\<close> of label 1 and \<open>Some None\<close> for a \<open>break\<close>.
\<close>

definition next_case1 :: "u8 list \<Rightarrow> int \<Rightarrow> int \<Rightarrow> int \<Rightarrow> int \<Rightarrow> (int \<times> UChar32) option option" where
  "next_case1 s i c count strict =
     do {
       b \<leftarrow> rd s i;
       let trail = b - 0x80;
       let c = push_bit 6 c OR uint trail;
       if trail > 0x3f then Some None
       else do {
         m \<leftarrow> rd utf8_minLegal count;
         Some (if c \<ge> m \<and> (strict \<le> 0 \<or> \<not> U_IS_UNICODE_NONCHAR c)
               then Some (i + 1, c) else None)
       }
     }"

definition next_case2 :: "u8 list \<Rightarrow> int \<Rightarrow> int \<Rightarrow> int \<Rightarrow> int \<Rightarrow> (int \<times> UChar32) option option" where
  "next_case2 s i c count strict =
     do {
       b \<leftarrow> rd s i;
       let trail = b - 0x80;
       let c = push_bit 6 c OR uint trail;
       if (c AND 0xffe0 = 0x360 \<and> strict \<noteq> -2) \<or> trail > 0x3f then Some None
       else next_case1 s (i + 1) c count strict
     }"

definition next_case3 :: "u8 list \<Rightarrow> int \<Rightarrow> int \<Rightarrow> int \<Rightarrow> int \<Rightarrow> (int \<times> UChar32) option option" where
  "next_case3 s i c count strict =
     do {
       b \<leftarrow> rd s i;
       let trail = b - 0x80;
       let c = push_bit 6 c OR uint trail;
       if c \<ge> 0x110 \<or> trail > 0x3f then Some None
       else next_case2 s (i + 1) c count strict
     }"

definition next_switch :: "u8 list \<Rightarrow> int \<Rightarrow> int \<Rightarrow> int \<Rightarrow> int \<Rightarrow> (int \<times> UChar32) option option" where
  "next_switch s i c count strict =
     (if count = 3 then next_case3 s i c count strict
      else if count = 2 then next_case2 s i c count strict
      else if count = 1 then next_case1 s i c count strict
      else Some None)"

text \<open>The error loop \<open>while(count>0 && U8_IS_TRAIL(s[i]))\<close>; \<open>count\<close> is a \<open>uint8_t\<close>.\<close>

fun skip_trail :: "u8 list \<Rightarrow> int \<Rightarrow> nat \<Rightarrow> int option" where
  "skip_trail s i 0 = Some i"
| "skip_trail s i (Suc count) =
     do { b \<leftarrow> rd s i; if U8_IS_TRAIL b then skip_trail s (i + 1) count else Some i }"

definition next_error :: "u8 list \<Rightarrow> int \<Rightarrow> int \<Rightarrow> int \<Rightarrow> (int \<times> UChar32) option" where
  "next_error s i0 count strict =
     do {
       i \<leftarrow> skip_trail s i0 (nat count);
       c \<leftarrow> errorValue (i - i0) strict;
       Some (i, c)
     }"

definition utf8_nextCharSafeBody ::
  "u8 list \<Rightarrow> int \<Rightarrow> int \<Rightarrow> UChar32 \<Rightarrow> int \<Rightarrow> (int \<times> UChar32) option" where
  "utf8_nextCharSafeBody s i0 len c strict =
     (let count = U8_COUNT_TRAIL_BYTES (word_of_int c) in
      if i0 + count \<le> len \<or> len < 0 then
        do {
          r \<leftarrow> next_switch s i0 (U8_MASK_LEAD_BYTE c count) count strict;
          case r of Some res \<Rightarrow> Some res | None \<Rightarrow> next_error s i0 count strict
        }
      else next_error s i0 ((len - i0) mod 256) strict)"

text \<open>\<open>U8_NEXT\<close> inlines two common cases and calls the function for the others.\<close>

definition U8_NEXT :: "u8 list \<Rightarrow> int \<Rightarrow> int \<Rightarrow> (int \<times> UChar32) option" where
  "U8_NEXT s i len =
     do {
       b \<leftarrow> rd s i;
       let c = uint b;
       let i = i + 1;
       if c < 0x80 then Some (i, c)
       else do {
         fast \<leftarrow>
           (if 0xe0 < c \<and> c \<le> 0xec \<and> (i + 1 < len \<or> len < 0) then do {
              b1 \<leftarrow> rd s i;
              if b1 - 0x80 \<le> 0x3f then do {
                b2 \<leftarrow> rd s (i + 1);
                if b2 - 0x80 \<le> 0x3f
                then Some (Some (i + 2, (push_bit 12 c OR push_bit 6 (uint (b1 - 0x80))
                                         OR uint (b2 - 0x80)) mod 2 ^ 16))
                else Some None
              } else Some None
            } else Some None);
         fast2 \<leftarrow>
           (case fast of Some r \<Rightarrow> Some (Some r)
            | None \<Rightarrow>
              if c < 0xe0 \<and> c \<ge> 0xc2 \<and> i \<noteq> len then do {
                b1 \<leftarrow> rd s i;
                if b1 - 0x80 \<le> 0x3f
                then Some (Some (i + 1, push_bit 6 (c AND 0x1f) OR uint (b1 - 0x80)))
                else Some None
              } else Some None);
         case fast2 of Some r \<Rightarrow> Some r
         | None \<Rightarrow> utf8_nextCharSafeBody s i len c (-1)
       }
     }"

section \<open>utf8\_appendCharSafeBody\<close>

definition put2 :: "u8 list \<Rightarrow> int \<Rightarrow> UChar32 \<Rightarrow> (u8 list \<times> int) option" where
  "put2 s i c =
     do {
       s \<leftarrow> wr s i (word_of_int (drop_bit 6 c OR 0xc0));
       s \<leftarrow> wr s (i + 1) (word_of_int (c AND 0x3f OR 0x80));
       Some (s, i + 2)
     }"

definition put3 :: "u8 list \<Rightarrow> int \<Rightarrow> UChar32 \<Rightarrow> (u8 list \<times> int) option" where
  "put3 s i c =
     do {
       s \<leftarrow> wr s i (word_of_int (drop_bit 12 c OR 0xe0));
       s \<leftarrow> wr s (i + 1) (word_of_int (drop_bit 6 c AND 0x3f OR 0x80));
       s \<leftarrow> wr s (i + 2) (word_of_int (c AND 0x3f OR 0x80));
       Some (s, i + 3)
     }"

definition put4 :: "u8 list \<Rightarrow> int \<Rightarrow> UChar32 \<Rightarrow> (u8 list \<times> int) option" where
  "put4 s i c =
     do {
       s \<leftarrow> wr s i (word_of_int (drop_bit 18 c OR 0xf0));
       s \<leftarrow> wr s (i + 1) (word_of_int (drop_bit 12 c AND 0x3f OR 0x80));
       s \<leftarrow> wr s (i + 2) (word_of_int (drop_bit 6 c AND 0x3f OR 0x80));
       s \<leftarrow> wr s (i + 3) (word_of_int (c AND 0x3f OR 0x80));
       Some (s, i + 4)
     }"

definition UTF8_APPEND_CHAR_UNSAFE :: "u8 list \<Rightarrow> int \<Rightarrow> UChar32 \<Rightarrow> (u8 list \<times> int) option" where
  "UTF8_APPEND_CHAR_UNSAFE s i c =
     (if uint32 c \<le> 0x7f then do { s \<leftarrow> wr s i (word_of_int c); Some (s, i + 1) }
      else if uint32 c \<le> 0x7ff then put2 s i c
      else if uint32 c \<le> 0xffff then put3 s i c
      else put4 s i c)"

text \<open>
  The result is the buffer, the new offset and the error flag: \<open>Some e\<close> when the caller passed
  a pointer to the flag \<open>e\<close>, \<open>None\<close> when it passed \<open>NULL\<close>.
\<close>

definition append_error ::
  "u8 list \<Rightarrow> int \<Rightarrow> int \<Rightarrow> bool option \<Rightarrow> (u8 list \<times> int \<times> bool option) option" where
  "append_error s i len isError =
     (case isError of
        Some _ \<Rightarrow> Some (s, i, Some True)
      | None \<Rightarrow>
          (let len = len - i in
           if len > 0 then do {
             let len = (if len > 3 then 3 else len);
             c \<leftarrow> rd utf8_errorValue (len - 1);
             (s, i) \<leftarrow> UTF8_APPEND_CHAR_UNSAFE s i c;
             Some (s, i, None)
           } else Some (s, i, None)))"

definition utf8_appendCharSafeBody ::
  "u8 list \<Rightarrow> int \<Rightarrow> int \<Rightarrow> UChar32 \<Rightarrow> bool option
     \<Rightarrow> (u8 list \<times> int \<times> bool option) option" where
  "utf8_appendCharSafeBody s i len c isError =
     (let done = (\<lambda>r. map_option (\<lambda>(s, i). (s, i, isError)) r) in
      if uint32 c \<le> 0x7ff then
        (if i + 1 < len then done (put2 s i c) else append_error s i len isError)
      else if uint32 c \<le> 0xffff then
        (if i + 2 < len \<and> \<not> U_IS_SURROGATE c then done (put3 s i c)
         else append_error s i len isError)
      else if uint32 c \<le> 0x10ffff then
        (if i + 3 < len then done (put4 s i c) else append_error s i len isError)
      else append_error s i len isError)"

text \<open>The macro \<open>U8_APPEND\<close>; its error flag is always passed.\<close>

definition U8_APPEND ::
  "u8 list \<Rightarrow> int \<Rightarrow> int \<Rightarrow> UChar32 \<Rightarrow> bool \<Rightarrow> (u8 list \<times> int \<times> bool) option" where
  "U8_APPEND s i capacity c isError =
     (let done = (\<lambda>r. map_option (\<lambda>(s, i). (s, i, isError)) r) in
      if uint32 c \<le> 0x7f then done (map_option (\<lambda>s. (s, i + 1)) (wr s i (word_of_int c)))
      else if uint32 c \<le> 0x7ff \<and> i + 1 < capacity then done (put2 s i c)
      else if uint32 c \<le> 0xd7ff \<and> i + 2 < capacity then done (put3 s i c)
      else map_option (\<lambda>(s, i, e). (s, i, e = Some True))
             (utf8_appendCharSafeBody s i capacity c (Some isError)))"

section \<open>utf8\_prevCharSafeBody and utf8\_back1SafeBody\<close>

text \<open>
  The \<open>for(;;)\<close> loop of \<open>utf8_prevCharSafeBody\<close>.  \<open>i0\<close> is the value of \<open>*pi\<close> at the call,
  which stays in \<open>*pi\<close> unless a branch assigns it.
\<close>

definition prev_lead ::
  "int \<Rightarrow> int \<Rightarrow> u8 \<Rightarrow> UChar32 \<Rightarrow> int \<Rightarrow> nat \<Rightarrow> int \<Rightarrow> (int \<times> UChar32) option" where
  "prev_lead i0 i b c cnt shift strict =
     (let shouldCount = U8_COUNT_TRAIL_BYTES b in
      if cnt = shouldCount then
        (let c = c OR push_bit shift (U8_MASK_LEAD_BYTE (uint b) cnt) in
         do {
           bad \<leftarrow> (if cnt \<ge> 4 \<or> c > 0x10ffff then Some True
                  else do {
                    m \<leftarrow> rd utf8_minLegal cnt;
                    Some (c < m \<or> (U_IS_SURROGATE c \<and> strict \<noteq> -2) \<or>
                          (strict > 0 \<and> U_IS_UNICODE_NONCHAR c))
                  });
           if bad then map_option (\<lambda>e. (i, e)) (errorValue (if cnt \<ge> 4 then 3 else cnt) strict)
           else Some (i, c)
         })
      else if cnt < shouldCount then map_option (\<lambda>e. (i, e)) (errorValue cnt strict)
      else map_option (\<lambda>e. (i0, e)) (errorValue 0 strict))"

function prev_loop ::
  "u8 list \<Rightarrow> int \<Rightarrow> int \<Rightarrow> int \<Rightarrow> UChar32 \<Rightarrow> int \<Rightarrow> nat \<Rightarrow> int \<Rightarrow> (int \<times> UChar32) option" where
  "prev_loop s start i0 i c cnt shift strict =
     (if i \<le> start then map_option (\<lambda>e. (i0, e)) (errorValue 0 strict)
      else do {
        b \<leftarrow> rd s (i - 1);
        if b - 0x80 < 0x7e then
          (if b AND 0x40 \<noteq> 0 then prev_lead i0 (i - 1) b c cnt shift strict
           else if cnt < 5 then
             prev_loop s start i0 (i - 1) (c OR push_bit shift (uint b AND 0x3f))
               (cnt + 1) (shift + 6) strict
           else map_option (\<lambda>e. (i0, e)) (errorValue 0 strict))
        else map_option (\<lambda>e. (i0, e)) (errorValue 0 strict)
      })"
  by pat_completeness auto
termination
  by (relation "measure (\<lambda>(s, start, i0, i, c, cnt, shift, strict). nat (5 - cnt))") auto

declare prev_loop.simps [simp del]

definition utf8_prevCharSafeBody ::
  "u8 list \<Rightarrow> int \<Rightarrow> int \<Rightarrow> UChar32 \<Rightarrow> int \<Rightarrow> (int \<times> UChar32) option" where
  "utf8_prevCharSafeBody s start i c strict =
     (if \<not> U8_IS_TRAIL (word_of_int c) then map_option (\<lambda>e. (i, e)) (errorValue 0 strict)
      else prev_loop s start i i (c AND 0x3f) 1 6 strict)"

definition U8_PREV :: "u8 list \<Rightarrow> int \<Rightarrow> int \<Rightarrow> (int \<times> UChar32) option" where
  "U8_PREV s start i =
     do {
       b \<leftarrow> rd s (i - 1);
       if uint b \<ge> 0x80 then utf8_prevCharSafeBody s start (i - 1) (uint b) (-1)
       else Some (i - 1, uint b)
     }"

text \<open>The \<open>do ... while(Z<=--I)\<close> loop of \<open>utf8_back1SafeBody\<close>.\<close>

function back1_loop :: "u8 list \<Rightarrow> int \<Rightarrow> int \<Rightarrow> int \<Rightarrow> int option" where
  "back1_loop s i Z I =
     do {
       b \<leftarrow> rd s I;
       if b - 0x80 \<ge> 0x7e then Some i
       else if b \<ge> 0xc0 then (if U8_COUNT_TRAIL_BYTES b \<ge> i - I then Some I else Some i)
       else if Z \<le> I - 1 then back1_loop s i Z (I - 1)
       else Some i
     }"
  by pat_completeness auto
termination
  by (relation "measure (\<lambda>(s, i, Z, I). nat (I - Z + 1))") auto

declare back1_loop.simps [simp del]

definition utf8_back1SafeBody :: "u8 list \<Rightarrow> int \<Rightarrow> int \<Rightarrow> int option" where
  "utf8_back1SafeBody s start i =
     back1_loop s i (if i - 5 > start then i - 5 else start) i"

definition U8_SET_CP_START :: "u8 list \<Rightarrow> int \<Rightarrow> int \<Rightarrow> int option" where
  "U8_SET_CP_START s start i =
     do { b \<leftarrow> rd s i; if U8_IS_TRAIL b then utf8_back1SafeBody s start i else Some i }"

section \<open>Byte arithmetic\<close>

lemma U8_IS_TRAIL_iff: "U8_IS_TRAIL b \<longleftrightarrow> 128 \<le> uint b \<and> uint b \<le> 191"
proof -
  have "U8_IS_TRAIL b \<longleftrightarrow> uint b AND 0xc0 = 128"
    by (simp add: U8_IS_TRAIL_def word_uint_eq_iff uint_and)
  also have "\<dots> \<longleftrightarrow> uint b - uint b mod 64 = 128"
    using uint_u8_bounds [of b] by (simp add: int_and_numerals)
  also have "\<dots> \<longleftrightarrow> 128 \<le> uint b \<and> uint b \<le> 191"
    using int_block_iff [of 64 "uint b" 2] by auto
  finally show ?thesis .
qed

lemma uint_sub_128: "uint (b - 0x80 :: u8) = (if uint b < 128 then uint b + 128 else uint b - 128)"
  using uint_u8_bounds [of b] by (simp add: uint_word_ariths mod256_sub)

lemma trail_test [simp]: "b - 0x80 > (0x3f::u8) \<longleftrightarrow> \<not> U8_IS_TRAIL b"
  using uint_u8_bounds [of b] unfolding U8_IS_TRAIL_iff word_less_def uint_sub_128
  by (auto simp: add_pos_nonneg)

lemma trail_test_le [simp]: "b - 0x80 \<le> (0x3f::u8) \<longleftrightarrow> U8_IS_TRAIL b"
  using trail_test [of b] by (simp add: not_less [symmetric] del: trail_test)

lemma trail_val: "U8_IS_TRAIL b \<Longrightarrow> uint (b - 0x80) = uint b - 128"
  using uint_u8_bounds [of b] by (simp add: U8_IS_TRAIL_iff uint_sub_128)

lemma shift_trail: "U8_IS_TRAIL b \<Longrightarrow> push_bit 6 c OR uint (b - 0x80) = c * 64 + (uint b - 128)"
  by (subst int_or_push_bit) (auto simp: trail_val U8_IS_TRAIL_iff)

lemma trail_and_3f: "U8_IS_TRAIL b \<Longrightarrow> uint b AND 0x3f = uint b - 128"
  unfolding U8_IS_TRAIL_iff int_and_lows by presburger

lemma U8_COUNT_TRAIL_BYTES_eq:
  "U8_COUNT_TRAIL_BYTES b =
     (if uint b < 192 then 0 else if uint b < 224 then 1 else if uint b < 240 then 2
      else if uint b < 248 then 3 else if uint b < 252 then 4 else if uint b < 254 then 5 else 0)"
  by (simp add: U8_COUNT_TRAIL_BYTES_def word_less_def word_le_def)

lemma U8_COUNT_TRAIL_BYTES_bounds: "0 \<le> U8_COUNT_TRAIL_BYTES b" "U8_COUNT_TRAIL_BYTES b \<le> 5"
  by (simp_all add: U8_COUNT_TRAIL_BYTES_eq)

lemma U8_MASK_LEAD_BYTE_eq: "U8_MASK_LEAD_BYTE c cnt = c mod 2 ^ nat (6 - cnt)"
  by (simp add: U8_MASK_LEAD_BYTE_def push_bit_eq_mult int_and_mask)

lemma U_IS_SURROGATE_iff:
  "0 \<le> c \<Longrightarrow> c < 2 ^ 31 \<Longrightarrow> U_IS_SURROGATE c \<longleftrightarrow> 0xd800 \<le> c \<and> c \<le> 0xdfff"
proof -
  assume "0 \<le> c" "c < 2 ^ 31"
  then have "U_IS_SURROGATE c \<longleftrightarrow> c - c mod 2048 = 0xd800"
    by (simp add: U_IS_SURROGATE_def uint32_def int_and_numerals)
  also have "\<dots> \<longleftrightarrow> 0xd800 \<le> c \<and> c \<le> 0xdfff"
    using int_block_iff [of 2048 c 27] by auto
  finally show ?thesis .
qed

section \<open>The reference encoding\<close>

definition is_scalar :: "UChar32 \<Rightarrow> bool" where
  "is_scalar c \<longleftrightarrow> 0 \<le> c \<and> c \<le> 0x10ffff \<and> \<not> (0xd800 \<le> c \<and> c \<le> 0xdfff)"

definition utf8_encode :: "UChar32 \<Rightarrow> u8 list" where
  "utf8_encode c = map word_of_int
     (if c < 0x80 then [c]
      else if c < 0x800 then [0xc0 + c div 64, 0x80 + c mod 64]
      else if c < 0x10000 then [0xe0 + c div 64 div 64, 0x80 + c div 64 mod 64, 0x80 + c mod 64]
      else [0xf0 + c div 64 div 64 div 64, 0x80 + c div 64 div 64 mod 64,
            0x80 + c div 64 mod 64, 0x80 + c mod 64])"

text \<open>The code points that the decoder accepts under each value of \<open>strict\<close>.\<close>

definition u8_accepts :: "int \<Rightarrow> UChar32 \<Rightarrow> bool" where
  "u8_accepts strict c \<longleftrightarrow> 0 \<le> c \<and> c \<le> 0x10ffff \<and>
     (0xd800 \<le> c \<and> c \<le> 0xdfff \<longrightarrow> strict = -2) \<and> (strict > 0 \<longrightarrow> \<not> U_IS_UNICODE_NONCHAR c)"

section \<open>Characterisation of the switch\<close>

lemma next_case1_eq:
  "next_case1 s i c cnt strict =
     do { b \<leftarrow> rd s i;
          if U8_IS_TRAIL b then do {
            m \<leftarrow> rd utf8_minLegal cnt;
            let c' = c * 64 + (uint b - 128);
            Some (if c' \<ge> m \<and> (strict \<le> 0 \<or> \<not> U_IS_UNICODE_NONCHAR c') then Some (i + 1, c') else None) }
          else Some None }"
  unfolding next_case1_def Let_def
  by (rule Option.bind_cong [OF refl]) (simp add: shift_trail cong: if_cong)

lemma next_case2_eq:
  assumes "0 \<le> c" "c < 1023"
  shows "next_case2 s i c cnt strict =
     do { b \<leftarrow> rd s i;
          if U8_IS_TRAIL b then do {
            let c' = c * 64 + (uint b - 128);
            if 0x360 \<le> c' \<and> c' \<le> 0x37f \<and> strict \<noteq> -2 then Some None
            else next_case1 s (i + 1) c' cnt strict }
          else Some None }"
proof -
  have "(c * 64 + (uint b - 128)) AND 0xffe0 = 0x360 \<longleftrightarrow>
      0x360 \<le> c * 64 + (uint b - 128) \<and> c * 64 + (uint b - 128) \<le> 0x37f" if "U8_IS_TRAIL b" for b
  proof -
    define x where "x = c * 64 + (uint b - 128)"
    have "0 \<le> x" "x < 65536" using that assms by (auto simp: x_def U8_IS_TRAIL_iff)
    then have "x AND 0xffe0 = 0x360 \<longleftrightarrow> x - x mod 32 = 0x360"
      by (simp add: int_and_numerals)
    also have "\<dots> \<longleftrightarrow> 0x360 \<le> x \<and> x \<le> 0x37f"
      using int_block_iff [of 32 x 27] by auto
    finally show ?thesis by (simp add: x_def)
  qed
  then show ?thesis
    unfolding next_case2_def Let_def
    by (intro Option.bind_cong [OF refl]) (auto simp: shift_trail)
qed

lemma next_case3_eq:
  "next_case3 s i c cnt strict =
     do { b \<leftarrow> rd s i;
          if U8_IS_TRAIL b then do {
            let c' = c * 64 + (uint b - 128);
            if c' \<ge> 0x110 then Some None
            else next_case2 s (i + 1) c' cnt strict }
          else Some None }"
  unfolding next_case3_def Let_def
  by (rule Option.bind_cong [OF refl]) (auto simp: shift_trail)
section \<open>Decoding is exact\<close>

lemma next_case1_Some:
  "next_case1 s i x cnt strict = Some (Some (i', c)) \<longleftrightarrow>
     (\<exists>b m. rd s i = Some b \<and> U8_IS_TRAIL b \<and> rd utf8_minLegal cnt = Some m \<and>
        c = x * 64 + (uint b - 128) \<and> i' = i + 1 \<and> m \<le> c \<and>
        (strict \<le> 0 \<or> \<not> U_IS_UNICODE_NONCHAR c))"
  by (auto simp: next_case1_eq bind_Some_iff Let_def split: if_splits)

lemma next_case2_Some:
  assumes "0 \<le> x" "x < 1023"
  shows "next_case2 s i x cnt strict = Some (Some r) \<longleftrightarrow>
     (\<exists>b. rd s i = Some b \<and> U8_IS_TRAIL b \<and>
        \<not> (0x360 \<le> x * 64 + (uint b - 128) \<and> x * 64 + (uint b - 128) \<le> 0x37f \<and> strict \<noteq> -2) \<and>
        next_case1 s (i + 1) (x * 64 + (uint b - 128)) cnt strict = Some (Some r))"
  by (cases "rd s i") (auto simp: next_case2_eq [OF assms] Let_def)

lemma next_case3_Some:
  "next_case3 s i x cnt strict = Some (Some r) \<longleftrightarrow>
     (\<exists>b. rd s i = Some b \<and> U8_IS_TRAIL b \<and> x * 64 + (uint b - 128) < 0x110 \<and>
        next_case2 s (i + 1) (x * 64 + (uint b - 128)) cnt strict = Some (Some r))"
  by (cases "rd s i") (auto simp: next_case3_eq Let_def)

lemma lead_masked:
  "192 \<le> x \<Longrightarrow> x \<le> 223 \<Longrightarrow> U8_MASK_LEAD_BYTE x 1 = x - 192"
  "224 \<le> x \<Longrightarrow> x \<le> 239 \<Longrightarrow> U8_MASK_LEAD_BYTE x 2 = x - 224"
  "240 \<le> x \<Longrightarrow> x \<le> 247 \<Longrightarrow> U8_MASK_LEAD_BYTE x 3 = x - 240"
  using int_mod_block [of 6 32 x] int_mod_block [of 14 16 x] int_mod_block [of 30 8 x]
  by (simp_all add: U8_MASK_LEAD_BYTE_eq)

lemma lead_cases:
  assumes "U8_COUNT_TRAIL_BYTES b = n" "n \<in> {1, 2, 3}"
  obtains "n = 1" "192 \<le> uint b" "uint b \<le> 223" | "n = 2" "224 \<le> uint b" "uint b \<le> 239"
    | "n = 3" "240 \<le> uint b" "uint b \<le> 247"
  using assms by (auto simp: U8_COUNT_TRAIL_BYTES_eq split: if_splits)

lemma rd_utf8_minLegal [simp]:
  "rd utf8_minLegal 1 = Some 0x80" "rd utf8_minLegal 2 = Some 0x800"
  "rd utf8_minLegal 3 = Some 0x10000"
  by (simp_all add: utf8_minLegal_def rd_def)

lemma trailD: "U8_IS_TRAIL b \<Longrightarrow> 0 \<le> uint b - 128" "U8_IS_TRAIL b \<Longrightarrow> uint b - 128 \<le> 63"
  by (auto simp: U8_IS_TRAIL_iff)

lemma next_switch_sound:
  assumes "next_switch s i (U8_MASK_LEAD_BYTE (uint b) n) n strict = Some (Some (i', c))"
    and n: "n = U8_COUNT_TRAIL_BYTES b"
  shows "u8_accepts strict c \<and> 0x80 \<le> c \<and> i' = i + n \<and> 0 \<le> i \<and> i' \<le> int (length s) \<and>
         b # seg s i i' = utf8_encode c"
proof -
  have "n \<in> {1, 2, 3}" using assms(1) by (auto simp: next_switch_def split: if_splits)
  from n [symmetric] this show ?thesis
  proof (cases rule: lead_cases)
    case 1
    obtain b1 where b1: "rd s i = Some b1" "U8_IS_TRAIL b1" 
      and c: "c = (uint b - 192) * 64 + (uint b1 - 128)" "i' = i + 1" "0x80 \<le> c"
      and ok: "strict \<le> 0 \<or> \<not> U_IS_UNICODE_NONCHAR c"
      using assms(1) 1
      by (auto simp: next_switch_def next_case1_Some lead_masked rd_utf8_minLegal)
    note d = digit64 [OF trailD [OF b1(2)], of "uint b - 192", folded c(1)]
    have "c < 0x800" using c 1 trailD [OF b1(2)] by simp
    then show ?thesis using 1 b1 c ok d
      by (auto simp: u8_accepts_def utf8_encode_def rd_Some_iff seg_step)
  next
    case 2
    obtain b1 b2 x where b1: "rd s i = Some b1" "U8_IS_TRAIL b1" 
      and b2: "rd s (i + 1) = Some b2" "U8_IS_TRAIL b2" 
      and x: "x = (uint b - 224) * 64 + (uint b1 - 128)" 
        "\<not> (0x360 \<le> x \<and> x \<le> 0x37f \<and> strict \<noteq> -2)"
      and c: "c = x * 64 + (uint b2 - 128)" "i' = i + 1 + 1" "0x800 \<le> c"
      and ok: "strict \<le> 0 \<or> \<not> U_IS_UNICODE_NONCHAR c"
      using assms(1) 2
      by (auto simp: next_switch_def next_case2_Some next_case1_Some lead_masked rd_utf8_minLegal)
    note d = digit64 [OF trailD [OF b1(2)], of "uint b - 224", folded x(1)]
      digit64 [OF trailD [OF b2(2)], of x, folded c(1)]
    have "c < 0x10000" using c(1) x(1) 2 trailD [OF b1(2)] trailD [OF b2(2)] by simp
    moreover have "\<not> (0xd800 \<le> c \<and> c \<le> 0xdfff) \<or> strict = -2"
    proof (rule disjCI)
      assume "\<not> strict = -2"
      then consider "x \<le> 0x35f" | "0x380 \<le> x" using x(2) by fastforce
      then show "\<not> (0xd800 \<le> c \<and> c \<le> 0xdfff)"
        using c(1) trailD [OF b2(2)] by cases auto
    qed
    ultimately show ?thesis using 2 b1 b2 c ok d
      by (auto simp: u8_accepts_def utf8_encode_def rd_Some_iff seg_step)
  next
    case 3
    define x where "x = uint b - 240"
    obtain b1 where b1: "rd s i = Some b1" "U8_IS_TRAIL b1"
      and y0: "x * 64 + (uint b1 - 128) < 0x110"
      and c2: "next_case2 s (i + 1) (x * 64 + (uint b1 - 128)) 3 strict = Some (Some (i', c))"
      using assms(1) 3 by (auto simp: next_switch_def next_case3_Some lead_masked x_def)
    define y where y: "y = x * 64 + (uint b1 - 128)"
    have y_range: "0 \<le> y" "y < 0x110"
      using trailD [OF b1(2)] 3 y0 by (simp_all add: x_def y)
    obtain b2 where b2: "rd s (i + 1) = Some b2" "U8_IS_TRAIL b2"
      and c1: "next_case1 s (i + 1 + 1) (y * 64 + (uint b2 - 128)) 3 strict = Some (Some (i', c))"
      using c2 y_range unfolding y [symmetric] by (auto simp: next_case2_Some)
    define z where z: "z = y * 64 + (uint b2 - 128)"
    obtain b3 where b3: "rd s (i + 1 + 1) = Some b3" "U8_IS_TRAIL b3"
      and c: "c = z * 64 + (uint b3 - 128)" "i' = i + 1 + 1 + 1" "0x10000 \<le> c"
      and ok: "strict \<le> 0 \<or> \<not> U_IS_UNICODE_NONCHAR c"
      using c1 unfolding z [symmetric] by (auto simp: next_case1_Some)
    note t = trailD [OF b1(2)] trailD [OF b2(2)] trailD [OF b3(2)]
    note d = digit64 [OF t(1,2), of x, folded y] digit64 [OF t(3,4), of y, folded z]
      digit64 [OF t(5,6), of z, folded c(1)]
    have "c \<le> 0x10ffff" using c(1) y_range z t by simp
    then have acc: "u8_accepts strict c"
      using c(3) ok by (auto simp: u8_accepts_def)
    have enc: "utf8_encode c = [b, b1, b2, b3]"
      using c(3) by (simp add: utf8_encode_def d x_def)
    have "seg s i i' = [b1, b2, b3]"
      using b1(1) b2(1) b3(1) c(2) by (simp add: rd_Some_iff seg_step)
    with acc enc show ?thesis using 3(1) b1(1) b3(1) c(2,3) by (simp add: rd_Some_iff)
  qed
qed


lemma uint_byte: "0 \<le> n \<Longrightarrow> n < 256 \<Longrightarrow> uint (word_of_int n :: u8) = n"
  by (simp add: uint_u8_of_int)

lemma trail_digit [simp]:
  assumes "0 \<le> d" "d \<le> 63"
  shows "uint (word_of_int (128 + d) :: u8) = 128 + d" "U8_IS_TRAIL (word_of_int (128 + d))"
proof -
  show "uint (word_of_int (128 + d) :: u8) = 128 + d"
    using assms by (intro uint_byte) simp_all
  then show "U8_IS_TRAIL (word_of_int (128 + d))"
    using assms by (simp only: U8_IS_TRAIL_iff) simp
qed

lemma digits_obtain:
  assumes "0 \<le> (c::int)"
  obtains q d where "c = q * 64 + d" "0 \<le> q" "0 \<le> d" "d \<le> 63"
proof
  show "c = (c div 64) * 64 + c mod 64" by simp
  have "c mod 64 < 64" by simp
  then show "c mod 64 \<le> 63" by linarith
qed (use assms in simp_all)

lemma next_switch_complete:
  assumes "u8_accepts strict c" "0x80 \<le> c" "utf8_encode c = b # t"
    and "0 \<le> i" "i + int (length t) \<le> int (length s)" "seg s i (i + int (length t)) = t"
  shows "U8_COUNT_TRAIL_BYTES b = int (length t) \<and>
    next_switch s i (U8_MASK_LEAD_BYTE (uint b) (int (length t))) (int (length t)) strict =
      Some (Some (i + int (length t), c))"
proof -
  have range: "0 \<le> c" "c \<le> 0x10ffff" and sur: "0xd800 \<le> c \<and> c \<le> 0xdfff \<longrightarrow> strict = -2"
    and non: "strict \<le> 0 \<or> \<not> U_IS_UNICODE_NONCHAR c"
    using assms(1) by (auto simp: u8_accepts_def)
  obtain q d where c: "c = q * 64 + d" "0 \<le> q" "0 \<le> d" "d \<le> 63"
    using range(1) by (rule digits_obtain)
  obtain p e where q: "q = p * 64 + e" "0 \<le> p" "0 \<le> e" "e \<le> 63"
    using c(2) by (rule digits_obtain)
  obtain l f where p: "p = l * 64 + f" "0 \<le> l" "0 \<le> f" "f \<le> 63"
    using q(2) by (rule digits_obtain)
  have dv: "c div 64 = q" "c mod 64 = d" "q div 64 = p" "q mod 64 = e" "p div 64 = l" "p mod 64 = f"
    unfolding c(1) q(1) p(1) using digit64 c(3,4) q(3,4) p(3,4) by blast+
  note enc = assms(3) [unfolded utf8_encode_def dv]
  consider "c < 0x800" | "0x800 \<le> c" "c < 0x10000" | "0x10000 \<le> c" by linarith
  then show ?thesis
  proof cases
    case 1
    have t: "t = [word_of_int (128 + d)]" and b: "b = word_of_int (192 + q)"
      using enc assms(2) 1 by (simp_all del: of_int_add)
    have "q \<le> 31" using 1 c by simp
    then have ub: "uint b = 192 + q" unfolding b using c(2) by (intro uint_byte) simp_all
    have "rd s i = Some (word_of_int (128 + d))"
      using assms(4-6) t by (simp add: rd_Some_iff seg_step del: of_int_add)
    then show ?thesis
      using ub t assms(2) non c \<open>q \<le> 31\<close>
      by (simp add: U8_COUNT_TRAIL_BYTES_eq next_switch_def next_case1_Some lead_masked
          del: of_int_add)
  next
    case 2
    have t: "t = [word_of_int (128 + e), word_of_int (128 + d)]" and b: "b = word_of_int (224 + p)"
      using enc assms(2) 2 by (simp_all del: of_int_add)
    have "p \<le> 15" using 2 c q by simp
    then have ub: "uint b = 224 + p" unfolding b using q(2) by (intro uint_byte) simp_all
    have r: "rd s i = Some (word_of_int (128 + e))" "rd s (i + 1) = Some (word_of_int (128 + d))"
      using assms(4-6) t by (auto simp add: rd_Some_iff seg_step simp del: of_int_add)
    have sx: "0x360 \<le> q \<and> q \<le> 0x37f \<longrightarrow> strict = -2" using sur c by auto
    have "next_case1 s (i + 1) q 2 strict = Some (Some (i + 1 + 1, c))"
      using r(2) c non 2(1) by (simp add: next_case1_Some del: of_int_add)
    then have "next_case2 s i p 2 strict = Some (Some (i + 1 + 1, c))"
      using r(1) q sx \<open>p \<le> 15\<close> by (subst next_case2_Some) (simp_all del: of_int_add)
    then show ?thesis
      using ub t q(2) \<open>p \<le> 15\<close>
      by (simp add: U8_COUNT_TRAIL_BYTES_eq next_switch_def lead_masked)
  next
    case 3
    have t: "t = [word_of_int (128 + f), word_of_int (128 + e), word_of_int (128 + d)]"
      and b: "b = word_of_int (240 + l)"
      using enc assms(2) 3 by (simp_all del: of_int_add)
    have "l \<le> 4" "p < 0x110" using range(2) c q p by simp_all
    then have ub: "uint b = 240 + l" unfolding b using p(2) by (intro uint_byte) simp_all
    have r: "rd s i = Some (word_of_int (128 + f))" "rd s (i + 1) = Some (word_of_int (128 + e))"
       "rd s (i + 1 + 1) = Some (word_of_int (128 + d))"
      using assms(4-6) t by (auto simp add: rd_Some_iff seg_step simp del: of_int_add)
    have sx: "0x360 \<le> q \<and> q \<le> 0x37f \<longrightarrow> strict = -2" using 3 c by auto
    have "next_case1 s (i + 1 + 1) q 3 strict = Some (Some (i + 1 + 1 + 1, c))"
      using r(3) c non 3(1) by (simp add: next_case1_Some del: of_int_add)
    then have "next_case2 s (i + 1) p 3 strict = Some (Some (i + 1 + 1 + 1, c))"
      using r(2) q sx \<open>p < 0x110\<close> by (subst next_case2_Some) (simp_all del: of_int_add)
    then have "next_case3 s i l 3 strict = Some (Some (i + 1 + 1 + 1, c))"
      using r(1) p \<open>p < 0x110\<close> by (subst next_case3_Some) (simp del: of_int_add)
    then show ?thesis
      using ub t p(2) \<open>l \<le> 4\<close>
      by (simp add: U8_COUNT_TRAIL_BYTES_eq next_switch_def lead_masked)
  qed
qed

section \<open>Memory safety and progress of the decoder\<close>

text \<open>
  The two ways a caller bounds the text: \<open>L\<close> is the given length, or, when the length is
  negative, the offset of a \<open>NUL\<close> at or after the current offset.
\<close>

definition text_limit :: "u8 list \<Rightarrow> int \<Rightarrow> int \<Rightarrow> int \<Rightarrow> bool" where
  "text_limit s i len L \<longleftrightarrow> 0 \<le> i \<and> i \<le> L \<and>
     (if 0 \<le> len then L = len \<and> len \<le> int (length s) else rd s L = Some 0)"

lemma nul_not_trail [simp]: "\<not> U8_IS_TRAIL 0"
  by (simp add: U8_IS_TRAIL_iff)

text \<open>\<open>n\<close> more trail bytes may be read at \<open>i\<close>.\<close>

definition can_read :: "u8 list \<Rightarrow> int \<Rightarrow> int \<Rightarrow> int \<Rightarrow> bool" where
  "can_read s i n L \<longleftrightarrow> 0 \<le> i \<and> i \<le> L \<and> L \<le> int (length s) \<and> (i + n \<le> L \<or> rd s L = Some 0)"

lemma can_read_rd:
  assumes "can_read s i n L" "0 < n"
  obtains b where "rd s i = Some b" "U8_IS_TRAIL b \<Longrightarrow> can_read s (i + 1) (n - 1) L"
proof (cases "i < L")
  case True
  with assms that [of "s ! nat i"] show ?thesis by (auto simp: can_read_def)
next
  case False
  with assms have "rd s i = Some 0" by (auto simp: can_read_def)
  with that show ?thesis by simp
qed

lemma can_read_mono: "can_read s i n L \<Longrightarrow> m \<le> n \<Longrightarrow> can_read s i m L"
  by (auto simp: can_read_def)

lemma trail_mod64: "U8_IS_TRAIL (word_of_int (0x80 + c mod 64))"
proof -
  have "c mod 64 < 64" by simp
  then show ?thesis by (intro trail_digit(2)) simp_all
qed

lemma tl_encode_trail: "0x80 \<le> c \<Longrightarrow> b \<in> set (tl (utf8_encode c)) \<Longrightarrow> U8_IS_TRAIL b"
  by (auto simp: utf8_encode_def trail_mod64 simp del: of_int_add split: if_splits)

lemma skip_trail_safe:
  "can_read s i (int n) L \<Longrightarrow> \<exists>j. skip_trail s i n = Some j \<and> i \<le> j \<and> j \<le> L \<and> j \<le> i + int n"
proof (induction s i n rule: skip_trail.induct)
  case (1 s i)
  then show ?case by (simp add: can_read_def)
next
  case (2 s i n)
  obtain b where b: "rd s i = Some b" "U8_IS_TRAIL b \<Longrightarrow> can_read s (i + 1) (int (Suc n) - 1) L"
    using can_read_rd [OF "2.prems"] by auto
  show ?case
  proof (cases "U8_IS_TRAIL b")
    case True
    with b "2.IH" show ?thesis by fastforce
  next
    case False
    with b "2.prems" show ?thesis by (simp add: can_read_def)
  qed
qed

lemma next_case1_safe:
  "can_read s i 1 L \<Longrightarrow> cnt \<in> {1, 2, 3} \<Longrightarrow> \<exists>r. next_case1 s i x cnt strict = Some r"
  by (erule can_read_rd) (auto simp: next_case1_eq Let_def)

lemma next_case2_safe:
  assumes "can_read s i 2 L" "cnt \<in> {1, 2, 3}"
  shows "\<exists>r. next_case2 s i x cnt strict = Some r"
proof -
  obtain b where "rd s i = Some b" "U8_IS_TRAIL b \<Longrightarrow> can_read s (i + 1) 1 L"
    using can_read_rd [OF assms(1)] by auto
  then show ?thesis using assms(2) by (auto simp: next_case2_def Let_def intro: next_case1_safe)
qed

lemma next_case3_safe:
  assumes "can_read s i 3 L" "cnt \<in> {1, 2, 3}"
  shows "\<exists>r. next_case3 s i x cnt strict = Some r"
proof -
  obtain b where "rd s i = Some b" "U8_IS_TRAIL b \<Longrightarrow> can_read s (i + 1) 2 L"
    using can_read_rd [OF assms(1)] by auto
  then show ?thesis using assms(2) by (auto simp: next_case3_def Let_def intro: next_case2_safe)
qed

lemma next_switch_safe:
  "can_read s i n L \<Longrightarrow> \<exists>r. next_switch s i x n strict = Some r"
  by (auto simp: next_switch_def intro: next_case1_safe next_case2_safe next_case3_safe)

lemma errorValue_safe: "0 \<le> n \<Longrightarrow> n \<le> 5 \<Longrightarrow> \<exists>e. errorValue n strict = Some e"
  by (auto simp: errorValue_def utf8_errorValue_def)

lemma text_limit_can_read:
  "text_limit s i len L \<Longrightarrow> i + n \<le> len \<or> len < 0 \<Longrightarrow> can_read s i n L"
  by (auto simp: text_limit_def can_read_def rd_Some_iff split: if_splits)

lemma next_error_safe:
  assumes "can_read s i n L" "0 \<le> n" "n \<le> 5"
  shows "\<exists>i' c. next_error s i n strict = Some (i', c) \<and> i \<le> i' \<and> i' \<le> L \<and>
    errorValue (i' - i) strict = Some c \<and> i' - i \<le> 5"
proof -
  obtain j where j: "skip_trail s i (nat n) = Some j" "i \<le> j" "j \<le> L" "j \<le> i + n"
    using skip_trail_safe [of s i "nat n" L] assms by auto
  then obtain e where "errorValue (j - i) strict = Some e"
    using errorValue_safe [of "j - i" strict] assms(3) by auto
  with j assms show ?thesis by (simp add: next_error_def)
qed

text \<open>
  Every result of the decoder is either a code point whose encoding stands at \<open>i - 1\<close>, or the
  error value for the number of trail bytes that were skipped.
\<close>

lemma utf8_next_cases:
  assumes "text_limit s i len L" "rd s (i - 1) = Some b" "1 \<le> i"
  obtains (good) c i' where "utf8_nextCharSafeBody s i len (uint b) strict = Some (i', c)"
      "u8_accepts strict c" "0x80 \<le> c" "seg s (i - 1) i' = utf8_encode c"
      "i' = i - 1 + int (length (utf8_encode c))" "i' \<le> L"
    | (bad) e i' where "utf8_nextCharSafeBody s i len (uint b) strict = Some (i', e)"
      "errorValue (i' - i) strict = Some e" "i \<le> i'" "i' \<le> L" "i' - i \<le> 5"
proof -
  let ?n = "U8_COUNT_TRAIL_BYTES b"
  show ?thesis
  proof (cases "i + ?n \<le> len \<or> len < 0")
    case True
    then have cr: "can_read s i ?n L" using assms(1) by (auto intro: text_limit_can_read)
    obtain r where r: "next_switch s i (U8_MASK_LEAD_BYTE (uint b) ?n) ?n strict = Some r"
      using next_switch_safe [OF cr] by blast
    show ?thesis
    proof (cases r)
      case None
      then have "utf8_nextCharSafeBody s i len (uint b) strict = next_error s i ?n strict"
        using True r by (simp add: utf8_nextCharSafeBody_def)
      then show ?thesis
        using next_error_safe [OF cr] U8_COUNT_TRAIL_BYTES_bounds [of b] bad by metis
    next
      case (Some res)
      obtain i' c where res: "res = (i', c)" by (cases res)
      have N: "utf8_nextCharSafeBody s i len (uint b) strict = Some (i', c)"
        using True r Some res by (simp add: utf8_nextCharSafeBody_def)
      have S: "u8_accepts strict c" "0x80 \<le> c" "i' = i + ?n" "i' \<le> int (length s)"
         "b # seg s i i' = utf8_encode c"
        using next_switch_sound [OF r [unfolded Some res] refl] by auto
      have nn: "0 \<le> ?n" by (rule U8_COUNT_TRAIL_BYTES_bounds)
      then have sg: "seg s (i - 1) i' = utf8_encode c"
        using S(3,5) assms(2,3) by (auto simp: seg_step rd_Some_iff)
      have "length (seg s i i') = nat ?n"
        using S(3,4) assms(3) nn by (simp add: seg_def)
      then have "length (utf8_encode c) = Suc (nat ?n)" using S(5) by (metis length_Cons)
      then have len: "i' = i - 1 + int (length (utf8_encode c))" using nn S(3) by simp
      have "i' \<le> L"
      proof (rule ccontr)
        assume "\<not> i' \<le> L"
        then have L: "i \<le> L" "L < i'" "rd s L = Some 0"
          using True assms(1) S(3) by (auto simp: text_limit_def split: if_splits)
        have "seg s i i' ! nat (L - i) = 0"
          using L S(4) assms(3) by (simp add: seg_def rd_Some_iff nat_add_distrib [symmetric])
        then have "0 \<in> set (tl (utf8_encode c))"
          using nth_mem [of "nat (L - i)" "seg s i i'"] L \<open>length (seg s i i') = nat ?n\<close> S(3)
          by (simp add: S(5) [symmetric])
        then show False using tl_encode_trail [OF S(2), of 0] by simp
      qed
      with good N S sg len show ?thesis by blast
    qed
  next
    case False
    then have cr: "can_read s i (len - i) L" using assms(1)
      by (auto intro: text_limit_can_read)
    have "0 \<le> len - i" "len - i \<le> 5"
      using False assms(1) U8_COUNT_TRAIL_BYTES_bounds [of b] by (auto simp: text_limit_def)
    moreover from this have "utf8_nextCharSafeBody s i len (uint b) strict = next_error s i (len - i) strict"
      using False by (simp add: utf8_nextCharSafeBody_def)
    ultimately show ?thesis
      using next_error_safe [OF cr] bad by metis
  qed
qed


text \<open>
  C1: Reading safety of \<open>utf8_nextCharSafeBody\<close>. Whenever the text is limited at \<open>L\<close>
  (by a length, or by a terminating NUL) and the lead byte lies before \<open>i\<close>, the function returns,
  reads no byte past the limit, and moves the index forward by at most five bytes, whatever the
  bytes are and whatever the mode is.
\<close>
theorem utf8_next_safe:
  assumes "text_limit s i len L" "rd s (i - 1) = Some b" "1 \<le> i"
  shows "\<exists>i' c. utf8_nextCharSafeBody s i len (uint b) strict = Some (i', c) \<and> i \<le> i' \<and> i' \<le> L \<and> i' - i \<le> 5"
  using assms
proof (cases rule: utf8_next_cases [where strict = strict])
  case (good c i')
  have "1 \<le> length (utf8_encode c)" "length (utf8_encode c) \<le> 4" by (simp_all add: utf8_encode_def)
  with good show ?thesis by auto
qed blast

theorem utf8_next_safe_witness:
  "\<exists>i' c. utf8_nextCharSafeBody [0xe4, 0xb8] 1 2 0xe4 (-1) = Some (i', c) \<and> i' \<le> 2"
proof -
  have "text_limit [0xe4, 0xb8] 1 2 2" "rd [0xe4, 0xb8 :: u8] (1 - 1) = Some 0xe4" "(1::int) \<le> 1"
    by (simp_all add: text_limit_def rd_def)
  from utf8_next_safe [OF this, of "-1"] show ?thesis by auto
qed

lemma nextCharSafe_iff:
  assumes "text_limit s i len L" "rd s (i - 1) = Some b" "1 \<le> i" "0x80 \<le> uint b"
    and "strict = -1 \<or> strict = -2" "0 \<le> c"
  shows "utf8_nextCharSafeBody s i len (uint b) strict = Some (i', c) \<longleftrightarrow>
     u8_accepts strict c \<and> i' = i - 1 + int (length (utf8_encode c)) \<and> i' \<le> L \<and>
     seg s (i - 1) i' = utf8_encode c" (is "?l \<longleftrightarrow> ?r")
proof
  assume ?l
  from assms(1-3) show ?r
    by (cases rule: utf8_next_cases [where strict = strict])
      (use \<open>?l\<close> assms(5,6) in \<open>auto simp: errorValue_def U_SENTINEL_def\<close>)
next
  assume r: ?r
  have "1 \<le> length (utf8_encode c)" by (simp add: utf8_encode_def)
  then have "i - 1 < i'" using r by linarith
  then have "seg s (i - 1) i' = b # seg s i i'"
    using seg_step [of "i - 1" i' s] assms(2,3) by (simp add: rd_Some_iff)
  then have t: "utf8_encode c = b # seg s i i'" using r by metis
  have ge: "0x80 \<le> c"
  proof (rule ccontr)
    assume "\<not> 0x80 \<le> c"
    then have "uint b = c" using t assms(6) by (auto simp: utf8_encode_def uint_byte)
    then show False using assms(4) \<open>\<not> 0x80 \<le> c\<close> by simp
  qed
  have "length (utf8_encode c) = Suc (length (seg s i i'))" by (subst t) simp
  then have i': "i' = i + int (length (seg s i i'))" using r by linarith
  define u where "u = seg s i i'"
  have u: "utf8_encode c = b # u" "i' = i + int (length u)" "seg s i (i + int (length u)) = u"
    using t i' by (simp_all add: u_def)
  have "i' \<le> L" "u8_accepts strict c" using r by auto
  moreover have L: "L \<le> int (length s)" "0 \<le> len \<longrightarrow> L = len"
    using assms(1) by (auto simp: text_limit_def rd_Some_iff split: if_splits)
  ultimately have "U8_COUNT_TRAIL_BYTES b = int (length u) \<and>
      next_switch s i (U8_MASK_LEAD_BYTE (uint b) (int (length u))) (int (length u)) strict = Some (Some (i', c))"
    using next_switch_complete [OF _ ge u(1) _ _ u(3), of strict] assms(3) u(2) by simp
  moreover have "i + int (length u) \<le> len \<or> len < 0" using \<open>i' \<le> L\<close> L(2) u(2) by linarith
  ultimately show ?l by (simp add: utf8_nextCharSafeBody_def)
qed

text \<open>The length of the obsolete one to six byte forms.\<close>

definition utf8_iso_length :: "UChar32 \<Rightarrow> int" where
  "utf8_iso_length c =
     (if c \<le> 0x7f then 1 else if c \<le> 0x7ff then 2 else if c \<le> 0xffff then 3
      else if c \<le> 0x1fffff then 4 else if c \<le> 0x3ffffff then 5 else 6)"

text \<open>
  In the error-value modes the number of bytes consumed equals the length that the
  obsolete macros computed for the returned value, also for the error values.
\<close>
theorem utf8_next_obsolete_length:
  assumes "text_limit s i len L" "rd s (i - 1) = Some b" "1 \<le> i" "0 \<le> strict"
    "utf8_nextCharSafeBody s i len (uint b) strict = Some (i', c)"
  shows "i' - (i - 1) = utf8_iso_length c"
  using assms(1-3)
proof (cases rule: utf8_next_cases [where strict = strict])
  case (good c0 j)
  then show ?thesis using assms(5)
    by (auto simp: utf8_encode_def utf8_iso_length_def u8_accepts_def)
next
  case (bad e j)
  then have "j - i \<in> {0,1,2,3,4,5}" by auto
  with bad assms(4,5) show ?thesis
    by (auto simp: errorValue_def utf8_errorValue_def utf8_iso_length_def rd_def)
qed

theorem utf8_next_obsolete_length_witness:
  "utf8_nextCharSafeBody [0xfc, 0x84, 0x80, 0x80, 0x80, 0x80] 1 6 0xfc 0 = Some (6, 0x7fffffff) \<and>
   utf8_iso_length 0x7fffffff = 6"
proof -
  have "text_limit [0xfc, 0x84, 0x80, 0x80, 0x80, 0x80] 1 6 6"
    "rd [0xfc, 0x84, 0x80, 0x80, 0x80, 0x80 :: u8] (1 - 1) = Some 0xfc"
    by (simp_all add: text_limit_def rd_def)
  moreover have c: "utf8_nextCharSafeBody [0xfc, 0x84, 0x80, 0x80, 0x80, 0x80] 1 6 (uint (0xfc :: u8)) 0 =
      Some (6, 0x7fffffff)"
    by code_simp
  ultimately have "6 - (1 - 1) = utf8_iso_length 0x7fffffff"
    using utf8_next_obsolete_length [where strict = 0] by fastforce
  with c show ?thesis by simp
qed

section \<open>Encoding\<close>

lemma or_marks:
  "0 \<le> t \<Longrightarrow> t \<le> 63 \<Longrightarrow> t OR 0x80 = 0x80 + (t::int)"
  "0 \<le> t \<Longrightarrow> t \<le> 31 \<Longrightarrow> t OR 0xc0 = 0xc0 + (t::int)"
  "0 \<le> t \<Longrightarrow> t \<le> 15 \<Longrightarrow> t OR 0xe0 = 0xe0 + (t::int)"
  "0 \<le> t \<Longrightarrow> t \<le> 7 \<Longrightarrow> t OR 0xf0 = 0xf0 + (t::int)"
  using int_or_push_bit [of t 7 1] int_or_push_bit [of t 6 3] int_or_push_bit [of t 5 7]
    int_or_push_bit [of t 4 15]
  by (simp_all add: or.commute push_bit_eq_mult)

lemma drop_bits: "drop_bit 6 (c::int) = c div 64" "drop_bit 12 (c::int) = c div 64 div 64"
  "drop_bit 18 (c::int) = c div 64 div 64 div 64"
  by (simp_all add: drop_bit_eq_div zdiv_zmult2_eq [symmetric])

lemma mod64_mark: "c mod 64 OR 0x80 = 0x80 + (c::int) mod 64"
proof -
  have "c mod 64 < 64" by simp
  then show ?thesis by (intro or_marks) simp_all
qed

lemma put_encode:
  "0x80 \<le> c \<Longrightarrow> c \<le> 0x7ff \<Longrightarrow> 0 \<le> i \<Longrightarrow> i + 2 \<le> int (length s) \<Longrightarrow>
    put2 s i c = Some (overwrite s i (utf8_encode c), i + 2)"
  "0x800 \<le> c \<Longrightarrow> c \<le> 0xffff \<Longrightarrow> 0 \<le> i \<Longrightarrow> i + 3 \<le> int (length s) \<Longrightarrow>
    put3 s i c = Some (overwrite s i (utf8_encode c), i + 3)"
  "0x10000 \<le> c \<Longrightarrow> c \<le> 0x10ffff \<Longrightarrow> 0 \<le> i \<Longrightarrow> i + 4 \<le> int (length s) \<Longrightarrow>
    put4 s i c = Some (overwrite s i (utf8_encode c), i + 4)"
proof -
  note simps = or_marks drop_bits mod64_mark int_and_lows utf8_encode_def
  assume i: "0 \<le> i"
  { assume "0x80 \<le> c" "c \<le> 0x7ff" "i + 2 \<le> int (length s)"
    then show "put2 s i c = Some (overwrite s i (utf8_encode c), i + 2)"
      using i by (simp add: put2_def simps overwrite_Cons [symmetric] del: of_int_add) }
  { assume "0x800 \<le> c" "c \<le> 0xffff" "i + 3 \<le> int (length s)"
    then show "put3 s i c = Some (overwrite s i (utf8_encode c), i + 3)"
      using i by (simp add: put3_def simps overwrite_Cons [symmetric] add.assoc del: of_int_add) }
  { assume "0x10000 \<le> c" "c \<le> 0x10ffff" "i + 4 \<le> int (length s)"
    then show "put4 s i c = Some (overwrite s i (utf8_encode c), i + 4)"
      using i by (simp add: put4_def simps overwrite_Cons [symmetric] add.assoc del: of_int_add) }
qed

lemma uint32_id: "0 \<le> c \<Longrightarrow> c < 2 ^ 32 \<Longrightarrow> uint32 c = c"
  by (simp add: uint32_def)

lemma is_scalar_iff: "is_scalar c \<longleftrightarrow> 0 \<le> c \<and> c \<le> 0x10ffff \<and> (c \<le> 0xd7ff \<or> 0xe000 \<le> c)"
  by (auto simp: is_scalar_def)

lemma utf8_encode_length:
  "length (utf8_encode c) = (if c < 0x80 then 1 else if c < 0x800 then 2 else if c < 0x10000 then 3 else 4)"
  by (simp add: utf8_encode_def)

lemma overwrite_single: "0 \<le> i \<Longrightarrow> i < int (length s) \<Longrightarrow> overwrite s i [x] = s[nat i := x]"
  by (simp add: overwrite_def upd_conv_take_nth_drop)

lemma U8_APPEND_eq:
  assumes "0 \<le> i" "i < cap" "cap \<le> int (length s)" "- (2 ^ 31) \<le> c" "c < 2 ^ 31"
  shows "U8_APPEND s i cap c e =
    (if is_scalar c \<and> i + int (length (utf8_encode c)) \<le> cap
     then Some (overwrite s i (utf8_encode c), i + int (length (utf8_encode c)), e)
     else Some (s, i, True))"
proof (cases "0 \<le> c \<and> c \<le> 0x10ffff")
  case False
  have "0x10ffff < uint32 c"
  proof (cases "0 \<le> c")
    case True
    then show ?thesis using False assms by (simp add: uint32_id)
  next
    case neg: False
    have "c mod 2 ^ 32 = (c + 2 ^ 32) mod 2 ^ 32" by simp
    also have "\<dots> = c + 2 ^ 32" using assms(4) neg by (intro mod_pos_pos_trivial) auto
    finally show ?thesis using assms(4) by (simp add: uint32_def)
  qed
  then show ?thesis using False
    by (auto simp: U8_APPEND_def utf8_appendCharSafeBody_def append_error_def is_scalar_def)
next
  case True
  then have c: "uint32 c = c" by (simp add: uint32_id)
  have sur: "U_IS_SURROGATE c \<longleftrightarrow> 0xd800 \<le> c \<and> c \<le> 0xdfff"
    using True by (intro U_IS_SURROGATE_iff) auto
  consider "c < 0x80" | "0x80 \<le> c" "c \<le> 0x7ff" | "0x800 \<le> c" "c \<le> 0xffff" | "0x10000 \<le> c"
    by linarith
  then show ?thesis
  proof cases
    case 1
    then show ?thesis using True assms c
      by (simp add: U8_APPEND_def is_scalar_iff utf8_encode_length overwrite_single utf8_encode_def)
  next
    case 2
    then show ?thesis using True assms c
      by (simp add: U8_APPEND_def utf8_appendCharSafeBody_def append_error_def is_scalar_iff
          utf8_encode_length put_encode)
  next
    case 3
    then show ?thesis using True assms c sur
      by (simp add: U8_APPEND_def utf8_appendCharSafeBody_def append_error_def is_scalar_iff
          utf8_encode_length put_encode)
  next
    case 4
    then show ?thesis using True assms c
      by (simp add: U8_APPEND_def utf8_appendCharSafeBody_def append_error_def is_scalar_iff
          utf8_encode_length put_encode)
  qed
qed

section \<open>The inlined macro\<close>

lemma fast3_value:
  assumes "225 \<le> x" "x \<le> 236" "0 \<le> t1" "t1 \<le> 63" "0 \<le> t2" "t2 \<le> 63"
  shows "(push_bit 12 x OR push_bit 6 t1 OR t2) mod 2 ^ 16 = (x - 224) * 4096 + t1 * 64 + (t2::int)"
proof -
  have "push_bit 6 t1 OR t2 = t1 * 64 + t2"
    using assms int_or_push_bit [of t2 6 t1] by simp
  then have "push_bit 12 x OR (push_bit 6 t1 OR t2) = x * 4096 + (t1 * 64 + t2)"
    using assms int_or_push_bit [of "t1 * 64 + t2" 12 x] by simp
  then have "push_bit 12 x OR push_bit 6 t1 OR t2 = x * 4096 + (t1 * 64 + t2)"
    by (simp add: or.assoc)
  moreover have "(x * 4096 + (t1 * 64 + t2)) mod 65536 = (x * 4096 + (t1 * 64 + t2)) - 14 * 65536"
    using assms by (intro int_mod_block) auto
  ultimately show ?thesis by simp
qed

lemma fast2_value:
  assumes "194 \<le> x" "x \<le> 223" "0 \<le> t" "t \<le> 63"
  shows "push_bit 6 (x AND 0x1f) OR t = (x - 192) * 64 + (t::int)"
proof -
  have "x AND 0x1f = x - 6 * 32"
    unfolding int_and_lows using assms by (intro int_mod_block) auto
  then show ?thesis using int_or_push_bit [of t 6 "x - 192"] assms by simp
qed

lemma body_two:
  fixes b :: u8
  assumes "225 \<le> uint b" "uint b \<le> 236" "i + 2 \<le> len \<or> len < 0"
    and "rd s i = Some b1" "U8_IS_TRAIL b1" "rd s (i + 1) = Some b2" "U8_IS_TRAIL b2"
  shows "utf8_nextCharSafeBody s i len (uint b) (-1) =
    Some (i + 2, (uint b - 224) * 4096 + (uint b1 - 128) * 64 + (uint b2 - 128))"
proof -
  note t = trailD [OF assms(5)] trailD [OF assms(7)]
  let ?x = "(uint b - 224) * 64 + (uint b1 - 128)"
  have "next_case1 s (i + 1) ?x 2 (-1) = Some (Some (i + 2, ?x * 64 + (uint b2 - 128)))"
    using assms t by (auto simp: next_case1_Some)
  then have "next_case2 s i (uint b - 224) 2 (-1) = Some (Some (i + 2, ?x * 64 + (uint b2 - 128)))"
    using assms t by (auto simp: next_case2_Some)
  then show ?thesis
    using assms by (simp add: utf8_nextCharSafeBody_def U8_COUNT_TRAIL_BYTES_eq next_switch_def lead_masked)
qed

lemma body_one:
  fixes b :: u8
  assumes "194 \<le> uint b" "uint b \<le> 223" "i + 1 \<le> len \<or> len < 0"
    and "rd s i = Some b1" "U8_IS_TRAIL b1"
  shows "utf8_nextCharSafeBody s i len (uint b) (-1) =
    Some (i + 1, (uint b - 192) * 64 + (uint b1 - 128))"
proof -
  note t = trailD [OF assms(5)]
  have "next_case1 s i (uint b - 192) 1 (-1) = Some (Some (i + 1, (uint b - 192) * 64 + (uint b1 - 128)))"
    using assms t by (auto simp: next_case1_Some)
  then show ?thesis
    using assms by (simp add: utf8_nextCharSafeBody_def U8_COUNT_TRAIL_BYTES_eq next_switch_def lead_masked)
qed

lemma U8_NEXT_body:
  assumes "text_limit s (i + 1) len L" "rd s i = Some b"
  shows "U8_NEXT s i len =
    (if uint b < 0x80 then Some (i + 1, uint b)
     else utf8_nextCharSafeBody s (i + 1) len (uint b) (-1))"
proof -
  consider (ascii) "uint b < 0x80"
    | (three) "225 \<le> uint b" "uint b \<le> 236" "i + 1 + 1 < len \<or> len < 0"
    | (two) "194 \<le> uint b" "uint b \<le> 223" "i + 1 \<noteq> len"
    | (other) "0x80 \<le> uint b" "\<not> (225 \<le> uint b \<and> uint b \<le> 236 \<and> (i + 1 + 1 < len \<or> len < 0))"
       "\<not> (194 \<le> uint b \<and> uint b \<le> 223 \<and> i + 1 \<noteq> len)"
    by linarith
  then show ?thesis
  proof cases
    case ascii
    then show ?thesis using assms(2) by (simp add: U8_NEXT_def)
  next
    case three
    have "can_read s (i + 1) 2 L" using three by (intro text_limit_can_read [OF assms(1)]) auto
    then obtain b1 where b1: "rd s (i + 1) = Some b1" "U8_IS_TRAIL b1 \<Longrightarrow> can_read s (i + 1 + 1) 1 L"
      using can_read_rd [of s "i + 1" 2 L] by auto
    show ?thesis
    proof (cases "U8_IS_TRAIL b1")
      case False
      then show ?thesis using three b1 assms(2)
        by (simp add: U8_NEXT_def Let_def)
    next
      case True
      then obtain b2 where b2: "rd s (i + 1 + 1) = Some b2" using b1(2) can_read_rd by (metis zero_less_one)
      show ?thesis
      proof (cases "U8_IS_TRAIL b2")
        case f: False
        then show ?thesis using three b1 b2 True assms(2)
          by (simp add: U8_NEXT_def Let_def)
      next
        case t: True
        have "utf8_nextCharSafeBody s (i + 1) len (uint b) (-1) =
            Some (i + 1 + 2, (uint b - 224) * 4096 + (uint b1 - 128) * 64 + (uint b2 - 128))"
          by (rule body_two) (use three b1 b2 True t in auto)
        moreover have "U8_NEXT s i len = Some (i + 1 + 2, (push_bit 12 (uint b) OR push_bit 6 (uint (b1 - 0x80))
             OR uint (b2 - 0x80)) mod 2 ^ 16)"
          using three b1(1) b2 True t assms(2) unfolding U8_NEXT_def Let_def by simp
        ultimately show ?thesis
          using three True t trailD [of b1] trailD [of b2] by (simp only: trail_val fast3_value) simp
      qed
    qed
  next
    case two
    then have lim: "i + 1 + 1 \<le> len \<or> len < 0"
      using assms(1) by (auto simp: text_limit_def)
    have "can_read s (i + 1) 1 L" using lim by (intro text_limit_can_read [OF assms(1)]) auto
    then obtain b1 where b1: "rd s (i + 1) = Some b1" using can_read_rd by (metis zero_less_one)
    show ?thesis
    proof (cases "U8_IS_TRAIL b1")
      case False
      then show ?thesis using two b1 assms(2)
        by (simp add: U8_NEXT_def Let_def)
    next
      case True
      have "utf8_nextCharSafeBody s (i + 1) len (uint b) (-1) =
          Some (i + 1 + 1, (uint b - 192) * 64 + (uint b1 - 128))"
        by (rule body_one) (use two b1 True lim in auto)
      moreover have "U8_NEXT s i len = Some (i + 1 + 1, push_bit 6 (uint b AND 0x1f) OR uint (b1 - 0x80))"
        using two b1(1) True assms(2) unfolding U8_NEXT_def Let_def by simp
      ultimately show ?thesis
        using two True trailD [of b1] by (simp only: trail_val fast2_value) simp
    qed
  next
    case other
    then show ?thesis using assms(2) by (auto simp: U8_NEXT_def Let_def)
  qed
qed
text \<open>
  C26: Appending a scalar value and reading it back at the same index gives the value and
  the index after it.
\<close>
theorem U8_roundtrip:
  assumes "is_scalar c" "0 \<le> i" "i + int (length (utf8_encode c)) \<le> cap" "cap \<le> int (length s)"
  shows "\<exists>s' j. U8_APPEND s i cap c e = Some (s', j, e) \<and> U8_NEXT s' i cap = Some (j, c)"
proof -
  let ?t = "utf8_encode c" and ?j = "i + int (length (utf8_encode c))"
  let ?s = "overwrite s i ?t"
  have len: "1 \<le> length ?t" by (simp add: utf8_encode_length)
  have c: "0 \<le> c" "c \<le> 0x10ffff" using assms(1) by (simp_all add: is_scalar_def)
  have A: "U8_APPEND s i cap c e = Some (?s, ?j, e)"
    using assms len c by (subst U8_APPEND_eq) auto
  have ls: "length ?s = length s" using assms by (intro overwrite_length) auto
  have sg: "seg ?s i ?j = ?t" using assms by (intro seg_overwrite) auto
  obtain b u where t: "?t = b # u" using len by (cases ?t) auto
  have "seg ?s i ?j = ?s ! nat i # seg ?s (i + 1) ?j"
    using assms ls len by (intro seg_step) auto
  then have rd: "rd ?s i = Some b" using sg t assms ls len by (simp add: rd_Some_iff)
  have lim: "text_limit ?s (i + 1) cap cap"
    using assms ls len by (auto simp: text_limit_def)
  have "U8_NEXT ?s i cap = Some (?j, c)"
  proof (cases "c < 0x80")
    case True
    then have "b = word_of_int c" "?j = i + 1" using t by (simp_all add: utf8_encode_def)
    then show ?thesis using True c by (simp add: U8_NEXT_body [OF lim rd] uint_byte)
  next
    case False
    have "0x80 \<le> uint b"
      using False t c by (auto simp: utf8_encode_def uint_byte div_less_iff_less_mult simp del: of_int_add split: if_splits)
    moreover have "utf8_nextCharSafeBody ?s (i + 1) cap (uint b) (-1) = Some (?j, c)"
      using sg assms(1,3) c False rd \<open>0x80 \<le> uint b\<close> assms(2)
      by (subst nextCharSafe_iff [OF lim]) (auto simp: u8_accepts_def is_scalar_def)
    ultimately show ?thesis by (simp add: U8_NEXT_body [OF lim rd])
  qed
  with A show ?thesis by blast
qed

theorem U8_roundtrip_witness:
  "\<exists>s' j. U8_APPEND [0, 0, 0, 0] 0 4 0x1f600 False = Some (s', j, False) \<and> U8_NEXT s' 0 4 = Some (j, 0x1f600)"
  using U8_roundtrip [of "0x1f600" 0 4 "[0, 0, 0, 0]" False]
  by (simp add: is_scalar_def utf8_encode_def)

section \<open>Backward iteration\<close>

lemma and_40: "128 \<le> uint (b::u8) \<Longrightarrow> b AND 0x40 \<noteq> 0 \<longleftrightarrow> 192 \<le> uint b"
proof -
  assume ge: "128 \<le> uint b"
  have "b AND 0x40 = 0 \<longleftrightarrow> uint b AND 2 ^ 6 = 0"
    by (simp add: word_uint_eq_iff uint_and)
  also have "\<dots> \<longleftrightarrow> even (uint b div 64)"
    using and_exp_eq_0_iff_not_bit [of "uint b" 6] by (simp add: bit_iff_odd)
  also have "\<dots> \<longleftrightarrow> uint b < 192"
  proof (cases "uint b < 192")
    case True
    then have "uint b div 64 = 2" using ge by (intro int_div_pos_eq [of _ _ _ "uint b - 128"]) auto
    then show ?thesis using True by simp
  next
    case False
    then have "uint b div 64 = 3"
      using uint_u8_bounds [of b] by (intro int_div_pos_eq [of _ _ _ "uint b - 192"]) auto
    then show ?thesis using False by simp
  qed
  finally show ?thesis by auto
qed

lemma lead_range: "b - 0x80 < (0x7e::u8) \<longleftrightarrow> 128 \<le> uint b \<and> uint b < 254"
  unfolding word_less_def uint_sub_128
  by (simp split: if_split) (use uint_u8_bounds [of b] in linarith)

lemma join_bits:
  "0 \<le> c \<Longrightarrow> c < 2 ^ n \<Longrightarrow> c OR push_bit n x = x * 2 ^ n + (c::int)"
  by (subst or.commute) (rule int_or_push_bit)

text \<open>One step of the backward loop on a trail byte and on a lead byte.\<close>

lemma prev_loop_trail:
  assumes "start < i" "rd s (i - 1) = Some b" "U8_IS_TRAIL b" "cnt < 5" "0 \<le> c" "c < 2 ^ sh"
  shows "prev_loop s start i0 i c cnt sh strict =
    prev_loop s start i0 (i - 1) ((uint b - 128) * 2 ^ sh + c) (cnt + 1) (sh + 6) strict"
  using assms
  by (subst prev_loop.simps)
    (auto simp: lead_range and_40 U8_IS_TRAIL_iff trail_and_3f join_bits)

lemma prev_loop_lead:
  assumes "start < i" "rd s (i - 1) = Some b" "192 \<le> uint b" "uint b < 254"
  shows "prev_loop s start i0 i c cnt sh strict = prev_lead i0 (i - 1) b c cnt sh strict"
  using assms by (subst prev_loop.simps) (simp add: lead_range and_40)

lemma prev_lead_good:
  assumes "U8_COUNT_TRAIL_BYTES b = cnt" "cnt \<in> {1, 2, 3}" "0 \<le> c" "c < 2 ^ sh"
    and "r = U8_MASK_LEAD_BYTE (uint b) cnt * 2 ^ sh + c" "u8_accepts strict r"
    and "rd utf8_minLegal cnt = Some m" "m \<le> r"
  shows "prev_lead i0 i b c cnt sh strict = Some (i, r)"
proof -
  have "U_IS_SURROGATE r \<longrightarrow> strict = -2" "r \<le> 0x10ffff" "strict > 0 \<longrightarrow> \<not> U_IS_UNICODE_NONCHAR r"
    using assms(6) U_IS_SURROGATE_iff [of r] by (auto simp: u8_accepts_def)
  then show ?thesis
    using assms by (auto simp: prev_lead_def Let_def join_bits)
qed

lemma prev_lead_goodD:
  assumes "prev_lead i0 i b c cnt sh strict = Some (j, r)" "0 \<le> r" "strict = -1 \<or> strict = -2"
    and "0 \<le> c" "c < 2 ^ sh" "1 \<le> cnt" 
  shows "U8_COUNT_TRAIL_BYTES b = cnt \<and> cnt \<in> {1, 2, 3} \<and> j = i \<and>
    r = U8_MASK_LEAD_BYTE (uint b) cnt * 2 ^ sh + c \<and> u8_accepts strict r \<and>
    (\<exists>m. rd utf8_minLegal cnt = Some m \<and> m \<le> r)"
proof -
  have e: "errorValue n strict = Some (-1)" for n
    using assms(3) by (auto simp: errorValue_def U_SENTINEL_def)
  show ?thesis
    using assms U_IS_SURROGATE_iff [of r]
    by (auto simp: prev_lead_def Let_def join_bits e u8_accepts_def rd_def split: if_splits)
qed

lemma encode_digits:
  "0 \<le> d \<Longrightarrow> d \<le> 63 \<Longrightarrow> 0x80 \<le> q * 64 + d \<Longrightarrow> q \<le> 31 \<Longrightarrow>
     utf8_encode (q * 64 + d) = [word_of_int (192 + q), word_of_int (128 + d)]"
  "0 \<le> d \<Longrightarrow> d \<le> 63 \<Longrightarrow> 0 \<le> e \<Longrightarrow> e \<le> 63 \<Longrightarrow> 0x800 \<le> (p * 64 + e) * 64 + d \<Longrightarrow> p \<le> 15 \<Longrightarrow>
     utf8_encode ((p * 64 + e) * 64 + d) =
       [word_of_int (224 + p), word_of_int (128 + e), word_of_int (128 + d)]"
  "0 \<le> d \<Longrightarrow> d \<le> 63 \<Longrightarrow> 0 \<le> e \<Longrightarrow> e \<le> 63 \<Longrightarrow> 0 \<le> f \<Longrightarrow> f \<le> 63 \<Longrightarrow>
     0x10000 \<le> ((l * 64 + f) * 64 + e) * 64 + d \<Longrightarrow>
     utf8_encode (((l * 64 + f) * 64 + e) * 64 + d) =
       [word_of_int (240 + l), word_of_int (128 + f), word_of_int (128 + e), word_of_int (128 + d)]"
proof -
  assume d: "0 \<le> d" "d \<le> 63"
  { assume q: "0x80 \<le> q * 64 + d" "q \<le> 31"
    then have "q * 64 + d < 0x800" using d by linarith
    then show "utf8_encode (q * 64 + d) = [word_of_int (192 + q), word_of_int (128 + d)]"
      using q d by (simp add: utf8_encode_def digit64 del: of_int_add) }
  assume e: "0 \<le> e" "e \<le> 63"
  { assume p: "0x800 \<le> (p * 64 + e) * 64 + d" "p \<le> 15"
    then have "(p * 64 + e) * 64 + d < 0x10000" using d e by simp
    then show "utf8_encode ((p * 64 + e) * 64 + d) =
       [word_of_int (224 + p), word_of_int (128 + e), word_of_int (128 + d)]"
      using p d e unfolding utf8_encode_def digit64 [OF d] digit64 [OF e] by simp }
  assume f: "0 \<le> f" "f \<le> 63"
  assume l: "0x10000 \<le> ((l * 64 + f) * 64 + e) * 64 + d"
  then show "utf8_encode (((l * 64 + f) * 64 + e) * 64 + d) =
       [word_of_int (240 + l), word_of_int (128 + f), word_of_int (128 + e), word_of_int (128 + d)]"
    unfolding utf8_encode_def digit64 [OF d] digit64 [OF e] digit64 [OF f] by simp
qed

text \<open>The shape of a multi-byte encoding, as lead byte and digits.\<close>

lemma encode_cases:
  assumes "0x80 \<le> c" "c \<le> 0x10ffff"
  obtains (two) q d where "c = q * 64 + d" "2 \<le> q" "q \<le> 31" "0 \<le> d" "d \<le> 63"
      "utf8_encode c = [word_of_int (192 + q), word_of_int (128 + d)]"
    | (three) p e d where "c = (p * 64 + e) * 64 + d" "0 \<le> p" "p \<le> 15" "0 \<le> e" "e \<le> 63"
      "0 \<le> d" "d \<le> 63" "0x800 \<le> c"
      "utf8_encode c = [word_of_int (224 + p), word_of_int (128 + e), word_of_int (128 + d)]"
    | (four) l f e d where "c = ((l * 64 + f) * 64 + e) * 64 + d" "0 \<le> l" "l \<le> 4" "0 \<le> f" "f \<le> 63"
      "0 \<le> e" "e \<le> 63" "0 \<le> d" "d \<le> 63" "0x10000 \<le> c"
      "utf8_encode c = [word_of_int (240 + l), word_of_int (128 + f), word_of_int (128 + e),
         word_of_int (128 + d)]"
proof -
  obtain q d where c: "c = q * 64 + d" "0 \<le> q" "0 \<le> d" "d \<le> 63"
    using assms(1) digits_obtain [of c] by auto
  obtain p e where q: "q = p * 64 + e" "0 \<le> p" "0 \<le> e" "e \<le> 63"
    using c(2) by (rule digits_obtain)
  obtain l f where p: "p = l * 64 + f" "0 \<le> l" "0 \<le> f" "f \<le> 63"
    using q(2) by (rule digits_obtain)
  consider "c < 0x800" | "0x800 \<le> c" "c < 0x10000" | "0x10000 \<le> c" by linarith
  then show thesis
  proof cases
    case 1
    then have "2 \<le> q" "q \<le> 31" using c assms by simp_all
    then show thesis using two [OF c(1)] c assms(1) encode_digits(1) [of d q] by simp
  next
    case 2
    then have "p \<le> 15" using c q by simp
    have "c = (p * 64 + e) * 64 + d" using c q by simp
    then show thesis
      using three [of p e d] encode_digits(2) [OF c(3,4) q(3,4), of p] q c 2 \<open>p \<le> 15\<close> by blast
  next
    case 3
    have "c = ((l * 64 + f) * 64 + e) * 64 + d" using c q p by simp
    moreover have "l \<le> 4" using assms c q p by simp
    ultimately show thesis
      using four [of l f e d] encode_digits(3) [OF c(3,4) q(3,4) p(3,4), of l] p q c 3 by blast
  qed
qed


lemma digit_and_3f: "0 \<le> d \<Longrightarrow> d \<le> 63 \<Longrightarrow> (128 + d) AND 63 = (d::int)"
  unfolding int_and_lows using int_mod_block [of 2 64 "128 + d"] by simp

lemma prev_complete:
  assumes "u8_accepts strict c" "0x80 \<le> c" "start \<le> j" "0 \<le> j"
    and "j + int (length (utf8_encode c)) \<le> int (length s)"
    and "seg s j (j + int (length (utf8_encode c))) = utf8_encode c"
    and "i + 1 = j + int (length (utf8_encode c))" "rd s i = Some b"
  shows "utf8_prevCharSafeBody s start i (uint b) strict = Some (j, c)"
proof -
  have "c \<le> 0x10ffff" using assms(1) by (simp add: u8_accepts_def)
  from assms(2) this show ?thesis
  proof (cases rule: encode_cases)
    case (two q d)
    have i: "i = j + 1" using assms(7) two(6) by simp
    have r: "rd s j = Some (word_of_int (192 + q))" "rd s (j + 1) = Some (word_of_int (128 + d))"
      using assms(4-6) two(6) by (auto simp: rd_Some_iff seg_step simp del: of_int_add)
    then have b: "b = word_of_int (128 + d)" using assms(8) i by simp
    have u: "uint (word_of_int (192 + q) :: u8) = 192 + q" using two by (intro uint_byte) auto
    have "prev_lead i j (word_of_int (192 + q)) d 1 6 strict = Some (j, c)"
      by (rule prev_lead_good [where m = "0x80"])
        (use two u assms(1,2) in \<open>auto simp: U8_COUNT_TRAIL_BYTES_eq lead_masked simp del: of_int_add\<close>)
    then have "prev_loop s start i i d 1 6 strict = Some (j, c)"
      using prev_loop_lead [of start i s "word_of_int (192 + q)" i d 1 6 strict] r u i two assms(3)
      by (simp add: add.commute [of 1 j] add.commute [of 2 j] del: of_int_add)
    then show ?thesis using two b
      by (simp add: utf8_prevCharSafeBody_def digit_and_3f del: of_int_add)
  next
    case (three p e d)
    have i: "i = j + 2" using assms(7) three(9) by simp
    have r: "rd s j = Some (word_of_int (224 + p))" "rd s (j + 1) = Some (word_of_int (128 + e))"
       "rd s (j + 2) = Some (word_of_int (128 + d))"
      using assms(4-6) three(9) by (auto simp: rd_Some_iff seg_step add.assoc simp del: of_int_add)
    then have b: "b = word_of_int (128 + d)" using assms(8) i by simp
    have u: "uint (word_of_int (224 + p) :: u8) = 224 + p" using three by (intro uint_byte) auto
    have "prev_lead i j (word_of_int (224 + p)) (e * 64 + d) 2 12 strict = Some (j, c)"
      by (rule prev_lead_good [where m = "0x800"])
        (use three u assms(1,2) in \<open>auto simp: U8_COUNT_TRAIL_BYTES_eq lead_masked simp del: of_int_add\<close>)
    then have "prev_loop s start i (i - 1) (e * 64 + d) 2 12 strict = Some (j, c)"
      using prev_loop_lead [of start "i - 1" s "word_of_int (224 + p)" i _ 2 12 strict] r u i three assms(3)
      by (simp add: add.commute [of 1 j] add.commute [of 2 j] del: of_int_add)
    then have "prev_loop s start i i d 1 6 strict = Some (j, c)"
      using prev_loop_trail [of start i s "word_of_int (128 + e)" 1 d 6 i strict] r i three assms(3)
      by (simp add: add.commute [of 1 j] add.commute [of 2 j] del: of_int_add)
    then show ?thesis using three b
      by (simp add: utf8_prevCharSafeBody_def digit_and_3f del: of_int_add)
  next
    case (four l f e d)
    have i: "i = j + 3" using assms(7) four(11) by simp
    have r: "rd s j = Some (word_of_int (240 + l))" "rd s (j + 1) = Some (word_of_int (128 + f))"
       "rd s (j + 2) = Some (word_of_int (128 + e))" "rd s (j + 3) = Some (word_of_int (128 + d))"
      using assms(4-6) four(11) by (auto simp: rd_Some_iff seg_step add.assoc simp del: of_int_add)
    then have b: "b = word_of_int (128 + d)" using assms(8) i by simp
    have u: "uint (word_of_int (240 + l) :: u8) = 240 + l" using four by (intro uint_byte) auto
    have "prev_lead i j (word_of_int (240 + l)) (f * 4096 + (e * 64 + d)) 3 18 strict = Some (j, c)"
      by (rule prev_lead_good [where m = "0x10000"])
        (use four u assms(1,2) in \<open>auto simp: U8_COUNT_TRAIL_BYTES_eq lead_masked simp del: of_int_add\<close>)
    then have "prev_loop s start i (i - 1 - 1) (f * 4096 + (e * 64 + d)) 3 18 strict = Some (j, c)"
      using prev_loop_lead [of start "i - 1 - 1" s "word_of_int (240 + l)" i _ 3 18 strict] r u i four assms(3)
      by (simp add: add.commute [of 1 j] add.commute [of 2 j] del: of_int_add)
    then have "prev_loop s start i (i - 1) (e * 64 + d) 2 12 strict = Some (j, c)"
      using prev_loop_trail [of start "i - 1" s "word_of_int (128 + f)" 2 "e * 64 + d" 12 i strict] r i four assms(3)
      by (simp add: add.commute [of 1 j] add.commute [of 2 j] del: of_int_add)
    then have "prev_loop s start i i d 1 6 strict = Some (j, c)"
      using prev_loop_trail [of start i s "word_of_int (128 + e)" 1 d 6 i strict] r i four assms(3)
      by (simp add: add.commute [of 1 j] add.commute [of 2 j] del: of_int_add)
    then show ?thesis using four b
      by (simp add: utf8_prevCharSafeBody_def digit_and_3f del: of_int_add)
  qed
qed

lemma prev_loop_goodD:
  assumes "prev_loop s start i0 i c cnt sh strict = Some (j, r)" "0 \<le> r" "strict = -1 \<or> strict = -2"
    and "0 \<le> c" "c < 2 ^ sh"
  shows "start < i \<and> (\<exists>b. rd s (i - 1) = Some b \<and>
    (192 \<le> uint b \<and> prev_lead i0 (i - 1) b c cnt sh strict = Some (j, r) \<or>
     U8_IS_TRAIL b \<and> cnt < 5 \<and> prev_loop s start i0 (i - 1) ((uint b - 128) * 2 ^ sh + c) (cnt + 1) (sh + 6) strict
        = Some (j, r)))"
proof -
  have e: "errorValue n strict = Some (-1)" for n
    using assms(3) by (auto simp: errorValue_def U_SENTINEL_def)
  have i: "start < i"
    using assms(1,2) e by (subst (asm) prev_loop.simps) (auto split: if_splits)
  then obtain b where b: "rd s (i - 1) = Some b"
    using assms(1) by (subst (asm) prev_loop.simps) (auto simp: bind_Some_iff)
  have "128 \<le> uint b"
    using assms(1,2) i b e by (subst (asm) prev_loop.simps) (auto simp: lead_range split: if_splits)
  then consider "192 \<le> uint b" | "U8_IS_TRAIL b" by (force simp: U8_IS_TRAIL_iff)
  then show ?thesis
  proof cases
    case 1
    then have "prev_lead i0 (i - 1) b c cnt sh strict = Some (j, r)"
      using assms(1,2) i b e by (subst (asm) prev_loop.simps) (auto simp: lead_range and_40 split: if_splits)
    with i b 1 show ?thesis by blast
  next
    case 2
    then have "cnt < 5 \<and> prev_loop s start i0 (i - 1) ((uint b - 128) * 2 ^ sh + c) (cnt + 1) (sh + 6) strict = Some (j, r)"
      using assms i b e prev_loop_trail [OF i b 2, of cnt c sh i0 strict]
      by (cases "cnt < 5") (auto simp: prev_loop.simps [of s start i0 i] lead_range and_40 U8_IS_TRAIL_iff)
    with i b 2 show ?thesis by blast
  qed
qed


lemma shift_bound:
  "U8_IS_TRAIL b \<Longrightarrow> 0 \<le> c \<Longrightarrow> c < 2 ^ n \<Longrightarrow> 0 \<le> (uint b - 128) * 2 ^ n + c"
  "U8_IS_TRAIL b \<Longrightarrow> 0 \<le> c \<Longrightarrow> c < 2 ^ n \<Longrightarrow> (uint b - 128) * 2 ^ n + c < 2 ^ (n + 6)"
proof -
  assume b: "U8_IS_TRAIL b" and c: "0 \<le> c" "c < 2 ^ n"
  show "0 \<le> (uint b - 128) * 2 ^ n + c" using trailD [OF b] c by simp
  have "(uint b - 128) * 2 ^ n \<le> 63 * 2 ^ n" using trailD [OF b] by (intro mult_right_mono) auto
  then have "(uint b - 128) * 2 ^ n + c < 63 * 2 ^ n + 2 ^ n" using c(2) by linarith
  then show "(uint b - 128) * 2 ^ n + c < 2 ^ (n + 6)" by (simp add: power_add)
qed

lemma prev_loop_too_long:
  assumes "prev_loop s start i0 i c cnt sh strict = Some (j, r)" "0 \<le> r" "strict = -1 \<or> strict = -2"
    and "0 \<le> c" "c < 2 ^ sh" "4 \<le> cnt"
  shows False
  using assms
proof (induction "nat (6 - cnt)" arbitrary: i c cnt sh)
  case 0
  then show ?case using prev_loop_goodD [OF 0(2-6)] prev_lead_goodD [OF _ 0(3,4,5,6)] by fastforce
next
  case (Suc n)
  obtain b where b: "192 \<le> uint b \<and> prev_lead i0 (i - 1) b c cnt sh strict = Some (j, r) \<or>
     U8_IS_TRAIL b \<and> cnt < 5 \<and>
       prev_loop s start i0 (i - 1) ((uint b - 128) * 2 ^ sh + c) (cnt + 1) (sh + 6) strict = Some (j, r)"
    using prev_loop_goodD [OF Suc.prems(1-5)] by blast
  then show ?case
  proof
    assume "192 \<le> uint b \<and> prev_lead i0 (i - 1) b c cnt sh strict = Some (j, r)"
    then show False using prev_lead_goodD [OF _ Suc.prems(2-5)] Suc.prems(6) by fastforce
  next
    assume t: "U8_IS_TRAIL b \<and> cnt < 5 \<and>
       prev_loop s start i0 (i - 1) ((uint b - 128) * 2 ^ sh + c) (cnt + 1) (sh + 6) strict = Some (j, r)"
    show False
      by (rule Suc.hyps(1) [of "cnt + 1" "i - 1" "(uint b - 128) * 2 ^ sh + c" "sh + 6"])
        (use t Suc.hyps(2) Suc.prems shift_bound [of b c sh] in auto)
  qed
qed

lemma prev_sound:
  assumes "utf8_prevCharSafeBody s start i (uint b) strict = Some (j, r)" "0 \<le> r"
    and "strict = -1 \<or> strict = -2" "rd s i = Some b" "0 \<le> start"
  shows "u8_accepts strict r \<and> start \<le> j \<and> seg s j (i + 1) = utf8_encode r"
proof -
  have e: "errorValue n strict = Some (-1)" for n
    using assms(3) by (auto simp: errorValue_def U_SENTINEL_def)
  have b: "U8_IS_TRAIL b" using assms(1,2) e by (auto simp: utf8_prevCharSafeBody_def split: if_splits)
  define d where "d = uint b - 128"
  have d: "0 \<le> d" "d \<le> 63" using trailD [OF b] by (simp_all add: d_def)
  have L: "prev_loop s start i i d 1 6 strict = Some (j, r)"
    using assms(1) b by (simp add: utf8_prevCharSafeBody_def trail_and_3f d_def)
  obtain b1 where i1: "start < i" and r1: "rd s (i - 1) = Some b1"
    and c1: "192 \<le> uint b1 \<and> prev_lead i (i - 1) b1 d 1 6 strict = Some (j, r) \<or>
      U8_IS_TRAIL b1 \<and> prev_loop s start i (i - 1) ((uint b1 - 128) * 2 ^ 6 + d) 2 12 strict = Some (j, r)"
    using prev_loop_goodD [OF L assms(2,3)] d by fastforce
  from c1 show ?thesis
  proof
    assume "192 \<le> uint b1 \<and> prev_lead i (i - 1) b1 d 1 6 strict = Some (j, r)"
    then have g: "U8_COUNT_TRAIL_BYTES b1 = 1" "j = i - 1" "r = U8_MASK_LEAD_BYTE (uint b1) 1 * 2 ^ 6 + d"
       "u8_accepts strict r" "0x80 \<le> r"
      using prev_lead_goodD [of i "i - 1" b1 d 1 6 strict j r] assms(2,3) d by auto
    then have "192 \<le> uint b1" "uint b1 \<le> 223" by (auto simp: U8_COUNT_TRAIL_BYTES_eq split: if_splits)
    then have "r = (uint b1 - 192) * 64 + d" using g(3) by (simp add: lead_masked)
    then have "utf8_encode r = [b1, b]"
      using encode_digits(1) [of d "uint b1 - 192"] d g(5) \<open>uint b1 \<le> 223\<close> by (simp add: d_def)
    then show ?thesis using g i1 r1 assms(4,5) by (auto simp: rd_Some_iff seg_step)
  next
    assume t1: "U8_IS_TRAIL b1 \<and> prev_loop s start i (i - 1) ((uint b1 - 128) * 2 ^ 6 + d) 2 12 strict = Some (j, r)"
    define e where "e = uint b1 - 128"
    have e': "0 \<le> e" "e \<le> 63" using trailD [of b1] t1 by (simp_all add: e_def)
    have L2: "prev_loop s start i (i - 1) (e * 64 + d) 2 12 strict = Some (j, r)" using t1 by (simp add: e_def)
    obtain b2 where i2: "start < i - 1" and r2: "rd s (i - 1 - 1) = Some b2"
      and c2: "192 \<le> uint b2 \<and> prev_lead i (i - 1 - 1) b2 (e * 64 + d) 2 12 strict = Some (j, r) \<or>
        U8_IS_TRAIL b2 \<and> prev_loop s start i (i - 1 - 1) ((uint b2 - 128) * 2 ^ 12 + (e * 64 + d)) 3 18 strict = Some (j, r)"
      using prev_loop_goodD [OF L2 assms(2,3)] d e' by fastforce
    from c2 show ?thesis
    proof
      assume "192 \<le> uint b2 \<and> prev_lead i (i - 1 - 1) b2 (e * 64 + d) 2 12 strict = Some (j, r)"
      then have g: "U8_COUNT_TRAIL_BYTES b2 = 2" "j = i - 1 - 1" "r = U8_MASK_LEAD_BYTE (uint b2) 2 * 2 ^ 12 + (e * 64 + d)"
         "u8_accepts strict r" "0x800 \<le> r"
        using prev_lead_goodD [of i "i - 1 - 1" b2 "e * 64 + d" 2 12 strict j r] assms(2,3) d e' by auto
      then have "224 \<le> uint b2" "uint b2 \<le> 239" by (auto simp: U8_COUNT_TRAIL_BYTES_eq split: if_splits)
      then have "r = ((uint b2 - 224) * 64 + e) * 64 + d" using g(3) by (simp add: lead_masked)
      then have "utf8_encode r = [b2, b1, b]"
        using encode_digits(2) [of d e "uint b2 - 224"] d e' g(5) \<open>uint b2 \<le> 239\<close> by (simp add: d_def e_def)
      then show ?thesis using g i1 i2 r1 r2 assms(4,5) by (auto simp: rd_Some_iff seg_step)
    next
      assume t2: "U8_IS_TRAIL b2 \<and> prev_loop s start i (i - 1 - 1) ((uint b2 - 128) * 2 ^ 12 + (e * 64 + d)) 3 18 strict = Some (j, r)"
      define f where "f = uint b2 - 128"
      have f': "0 \<le> f" "f \<le> 63" using trailD [of b2] t2 by (simp_all add: f_def)
      have L3: "prev_loop s start i (i - 1 - 1) (f * 4096 + (e * 64 + d)) 3 18 strict = Some (j, r)"
        using t2 by (simp add: f_def)
      obtain b3 where i3: "start < i - 1 - 1" and r3: "rd s (i - 1 - 1 - 1) = Some b3"
        and c3: "192 \<le> uint b3 \<and> prev_lead i (i - 1 - 1 - 1) b3 (f * 4096 + (e * 64 + d)) 3 18 strict = Some (j, r) \<or>
          U8_IS_TRAIL b3 \<and> prev_loop s start i (i - 1 - 1 - 1) ((uint b3 - 128) * 2 ^ 18 + (f * 4096 + (e * 64 + d))) 4 24 strict = Some (j, r)"
        using prev_loop_goodD [OF L3 assms(2,3)] d e' f' by fastforce
      have b18: "0 \<le> f * 4096 + (e * 64 + d)" "f * 4096 + (e * 64 + d) < 2 ^ 18" using d e' f' by simp_all
      have "\<not> (U8_IS_TRAIL b3 \<and> prev_loop s start i (i - 1 - 1 - 1) ((uint b3 - 128) * 2 ^ 18 + (f * 4096 + (e * 64 + d))) 4 24 strict = Some (j, r))"
        using prev_loop_too_long [OF _ assms(2,3)] shift_bound [OF _ b18, of b3] by force
      with c3 have "prev_lead i (i - 1 - 1 - 1) b3 (f * 4096 + (e * 64 + d)) 3 18 strict = Some (j, r)" by blast
      then have g: "U8_COUNT_TRAIL_BYTES b3 = 3" "j = i - 1 - 1 - 1" "r = U8_MASK_LEAD_BYTE (uint b3) 3 * 2 ^ 18 + (f * 4096 + (e * 64 + d))"
         "u8_accepts strict r" "0x10000 \<le> r"
        using prev_lead_goodD [of i "i - 1 - 1 - 1" b3 "f * 4096 + (e * 64 + d)" 3 18 strict j r] assms(2,3) b18 by auto
      then have "240 \<le> uint b3" "uint b3 \<le> 247" by (auto simp: U8_COUNT_TRAIL_BYTES_eq split: if_splits)
      then have "r = (((uint b3 - 240) * 64 + f) * 64 + e) * 64 + d" using g(3) by (simp add: lead_masked)
      then have "utf8_encode r = [b3, b2, b1, b]"
        using encode_digits(3) [of d e f "uint b3 - 240"] d e' f' g(5) by (simp add: d_def e_def f_def)
      then show ?thesis using g i1 i2 i3 r1 r2 r3 assms(4,5) by (auto simp: rd_Some_iff seg_step)
    qed
  qed
qed

lemma utf8_encode_nonempty [simp]: "utf8_encode c \<noteq> []"
  by (simp add: utf8_encode_def)

lemma encode_lead:
  assumes "0x80 \<le> c" "c \<le> 0x10ffff" "utf8_encode c = b # t"
  shows "192 \<le> uint b" "uint b < 254" "U8_COUNT_TRAIL_BYTES b = int (length t)"
  using assms(1,2)
  by (rule encode_cases;
      use assms(3) in \<open>auto simp: uint_byte U8_COUNT_TRAIL_BYTES_eq simp del: of_int_add\<close>)+

lemma encode_below_80: "c < 0x80 \<Longrightarrow> utf8_encode c = [word_of_int c]"
  by (simp add: utf8_encode_def)

lemma prevCharSafe_iff:
  assumes "0 \<le> start" "rd s i = Some b" "0x80 \<le> uint b" "strict = -1 \<or> strict = -2" "0 \<le> c"
  shows "utf8_prevCharSafeBody s start i (uint b) strict = Some (j, c) \<longleftrightarrow>
    u8_accepts strict c \<and> start \<le> j \<and> i + 1 = j + int (length (utf8_encode c)) \<and>
    seg s j (i + 1) = utf8_encode c" (is "?l \<longleftrightarrow> ?r")
proof
  assume l: ?l
  then have P: "u8_accepts strict c" "start \<le> j" "seg s j (i + 1) = utf8_encode c"
    using prev_sound [OF l assms(5,4,2,1)] by auto
  have "utf8_encode c \<noteq> []" by (simp add: utf8_encode_def)
  then have "j < i + 1" using P(3) by (metis linorder_not_less seg_empty)
  then have "length (seg s j (i + 1)) = nat (i + 1 - j)"
    using P(2) assms(1,2) by (intro length_seg) (auto simp: rd_Some_iff)
  then show ?r using P \<open>j < i + 1\<close> by auto
next
  assume r: ?r
  have "0x80 \<le> c"
  proof (rule ccontr)
    assume "\<not> 0x80 \<le> c"
    then have "utf8_encode c = [word_of_int c]" by (simp add: encode_below_80)
    then have "rd s i = Some (word_of_int c)"
      using r assms(1,2) by (auto simp: seg_step rd_Some_iff)
    then show False using assms(2,3,5) \<open>\<not> 0x80 \<le> c\<close> by (simp add: uint_byte)
  qed
  then show ?l
    using r assms(1,2) by (intro prev_complete) (auto simp: rd_Some_iff)
qed

text \<open>
  C28: Where \<open>U8_NEXT\<close> returns a code point and an index, \<open>U8_PREV\<close> from that index returns
  the same code point and the index where reading began.
\<close>
theorem U8_PREV_undoes_NEXT:
  assumes "text_limit s (i + 1) len L" "0 \<le> start" "start \<le> i"
    and "U8_NEXT s i len = Some (j, c)" "0 \<le> c"
  shows "U8_PREV s start j = Some (i, c)"
proof -
  obtain b where b: "rd s i = Some b" using assms(4) by (auto simp: U8_NEXT_def bind_Some_iff)
  have L: "L \<le> int (length s)" using assms(1) by (auto simp: text_limit_def rd_Some_iff split: if_splits)
  note N = assms(4) [unfolded U8_NEXT_body [OF assms(1) b]]
  show ?thesis
  proof (cases "uint b < 0x80")
    case True
    then show ?thesis using N b by (auto simp: U8_PREV_def)
  next
    case False
    then have E: "utf8_nextCharSafeBody s (i + 1) len (uint b) (-1) = Some (j, c)" using N by simp
    have P: "u8_accepts (-1) c" "j = i + int (length (utf8_encode c))" "j \<le> L"
      "seg s i j = utf8_encode c"
      using nextCharSafe_iff [OF assms(1), of b "-1" c j] E b False assms(2,3,5) by auto
    obtain u where u: "utf8_encode c = b # u"
    proof -
      have "utf8_encode c \<noteq> []" by (simp add: utf8_encode_def)
      then have "i < j" using P(2) by simp
      then have "seg s i j = s ! nat i # seg s (i + 1) j" using assms(2,3) b by (intro seg_step) (auto simp: rd_Some_iff)
      then show thesis using that b P(4) by (auto simp: rd_Some_iff)
    qed
    have "0x80 \<le> c"
      using u False assms(5) encode_below_80 [of c] by (cases "c < 0x80") (auto simp: uint_byte)
    moreover have "c \<le> 0x10ffff" using P(1) by (simp add: u8_accepts_def)
    ultimately obtain u' x where x: "utf8_encode c = u' @ [x]" "0x80 \<le> uint x"
    proof (rule_tac that [of "butlast (utf8_encode c)" "last (utf8_encode c)"])
      show "utf8_encode c = butlast (utf8_encode c) @ [last (utf8_encode c)]" using u by simp
      assume c: "0x80 \<le> c" "c \<le> 0x10ffff"
      show "0x80 \<le> uint (last (utf8_encode c))"
        using c by (rule encode_cases) (simp_all del: of_int_add)
    qed
    have "seg s i j ! length u' = x" using x P(4) by simp
    then have "s ! nat (i + int (length u')) = x"
      using P(2,3) L x assms(2,3) by (simp add: seg_def nat_add_distrib)
    then have rx: "rd s (j - 1) = Some x" using P(2,3) L x assms(2,3) by (simp add: rd_Some_iff)
    have "utf8_prevCharSafeBody s start (j - 1) (uint x) (-1) = Some (i, c)"
      using prevCharSafe_iff [OF assms(2) rx x(2), of "-1" c i] P assms(3,5) by simp
    then show ?thesis using rx x(2) by (simp add: U8_PREV_def)
  qed
qed

theorem U8_PREV_undoes_NEXT_witness:
  "U8_NEXT [0x41, 0xc3, 0xa9] 1 3 = Some (3, 0xe9) \<and> U8_PREV [0x41, 0xc3, 0xa9] 0 3 = Some (1, 0xe9)"
proof -
  have "U8_NEXT [0x41, 0xc3, 0xa9] 1 3 = Some (3, 0xe9)" by code_simp
  with U8_PREV_undoes_NEXT [of "[0x41, 0xc3, 0xa9]" 1 3 3 0 3 "0xe9"] show ?thesis
    by (simp add: text_limit_def)
qed


lemma back1_tests:
  "b - 0x80 \<ge> (0x7e::u8) \<longleftrightarrow> \<not> (128 \<le> uint b \<and> uint b < 254)"
  "b \<ge> (0xc0::u8) \<longleftrightarrow> 192 \<le> uint b"
  using lead_range [of b] by (auto simp: word_le_def not_le [symmetric])

lemma back1_loop_range:
  assumes "0 \<le> Z" "Z \<le> I" "I \<le> i" "I < int (length s)"
  shows "\<exists>k. back1_loop s i Z I = Some k \<and> Z \<le> k \<and> k \<le> i"
  using assms
proof (induction "nat (I - Z)" arbitrary: I rule: less_induct)
  case less
  have r: "rd s I = Some (s ! nat I)" using less.prems by simp
  show ?case
  proof (cases "Z \<le> I - 1")
    case True
    then obtain k where "back1_loop s i Z (I - 1) = Some k" "Z \<le> k" "k \<le> i"
      using less.hyps [of "I - 1"] less.prems by auto
    then show ?thesis using less.prems r by (subst back1_loop.simps) auto
  next
    case False
    then show ?thesis using less.prems r by (subst back1_loop.simps) auto
  qed
qed

lemma back1_loop_lead:
  assumes "0 \<le> j" "Z \<le> j" "j \<le> I" "I \<le> i" "rd s j = Some b" "192 \<le> uint b" "uint b < 254"
    and "i - j \<le> U8_COUNT_TRAIL_BYTES b" "\<And>k. j < k \<Longrightarrow> k \<le> i \<Longrightarrow> \<exists>x. rd s k = Some x \<and> U8_IS_TRAIL x"
  shows "back1_loop s i Z I = Some j"
  using assms(3,4)
proof (induction "nat (I - j)" arbitrary: I rule: less_induct)
  case less
  show ?case
  proof (cases "I = j")
    case True
    then show ?thesis using assms by (subst back1_loop.simps) (simp add: back1_tests)
  next
    case False
    then have "j < I" using less.prems by simp
    then obtain x where "rd s I = Some x" "U8_IS_TRAIL x" using assms(9) [of I] less.prems by blast
    moreover have "back1_loop s i Z (I - 1) = Some j"
      using less.hyps [of "I - 1"] less.prems False by auto
    ultimately show ?thesis using False less.prems assms(2)
      by (subst back1_loop.simps) (auto simp: back1_tests U8_IS_TRAIL_iff)
  qed
qed

text \<open>
  \<open>U8_SET_CP_START\<close> always returns an index at most five bytes back and not before
  \<open>start\<close>; inside the encoding of a code point that index is the first byte of the encoding.
\<close>
lemma U8_SET_CP_START_boundary:
  assumes "0 \<le> start" "start \<le> i" "i < int (length s)"
  shows "\<exists>k. U8_SET_CP_START s start i = Some k \<and> start \<le> k \<and> i - 5 \<le> k \<and> k \<le> i \<and>
    (\<forall>c j. 0 \<le> c \<and> c \<le> 0x10ffff \<and> start \<le> j \<and> j \<le> i \<and> i < j + int (length (utf8_encode c)) \<and>
       j + int (length (utf8_encode c)) \<le> int (length s) \<and>
       seg s j (j + int (length (utf8_encode c))) = utf8_encode c \<longrightarrow> k = j)"
proof -
  define Z where "Z = (if i - 5 > start then i - 5 else start)"
  have Z: "start \<le> Z" "i - 5 \<le> Z" "Z \<le> i" and Zj: "\<And>j. start \<le> j \<Longrightarrow> i - 5 \<le> j \<Longrightarrow> Z \<le> j"
    using assms by (auto simp: Z_def)
  have sb: "utf8_back1SafeBody s start i = back1_loop s i Z i"
    by (simp add: utf8_back1SafeBody_def Z_def)
  obtain k0 where k0: "back1_loop s i Z i = Some k0" "Z \<le> k0" "k0 \<le> i"
    using back1_loop_range [of Z i i s] assms Z by auto
  define k where "k = (if U8_IS_TRAIL (s ! nat i) then k0 else i)"
  have k: "U8_SET_CP_START s start i = Some k" "Z \<le> k" "k \<le> i"
    using assms k0 Z by (simp_all add: k_def U8_SET_CP_START_def sb)
  have "k = j" if c: "0 \<le> c" "c \<le> 0x10ffff" and j: "start \<le> j" "j \<le> i"
    and n: "i < j + int (length (utf8_encode c))" "j + int (length (utf8_encode c)) \<le> int (length s)"
    and sg: "seg s j (j + int (length (utf8_encode c))) = utf8_encode c" for c j
  proof -
    have at: "rd s (j + int m) = Some (utf8_encode c ! m)" if "m < length (utf8_encode c)" for m
    proof -
      have "seg s j (j + int (length (utf8_encode c))) ! m = s ! (nat j + m)"
        using that n(2) j(1) assms(1) by (simp add: seg_def)
      then show ?thesis using that n(2) j(1) assms(1) sg by (simp add: rd_Some_iff nat_add_distrib)
    qed
    show ?thesis
    proof (cases "c < 0x80")
      case True
      then have "i = j" "rd s i = Some (word_of_int c)" using at [of 0] n j by (simp_all add: encode_below_80)
      then show ?thesis using k(1) True c by (simp add: U8_SET_CP_START_def U8_IS_TRAIL_iff uint_byte)
    next
      case False
      have tr: "\<exists>x. rd s l = Some x \<and> U8_IS_TRAIL x" if "j < l" "l \<le> i" for l
      proof -
        have "rd s l = Some (utf8_encode c ! nat (l - j))" "nat (l - j) < length (utf8_encode c)"
          using at [of "nat (l - j)"] that n by auto
        moreover from this that have "utf8_encode c ! nat (l - j) \<in> set (tl (utf8_encode c))"
          by (cases "nat (l - j)") (auto simp: nth_tl [symmetric] intro!: nth_mem)
        ultimately show ?thesis using tl_encode_trail [of c] False by auto
      qed
      obtain b u where u: "utf8_encode c = b # u" by (cases "utf8_encode c") simp_all
      have b: "192 \<le> uint b" "uint b < 254" "U8_COUNT_TRAIL_BYTES b = int (length u)"
        using encode_lead [OF _ c(2) u] False by simp_all
      have rb: "rd s j = Some b" using at [of 0] u by simp
      have "back1_loop s i Z i = Some j"
        by (rule back1_loop_lead [OF _ _ _ _ rb b(1,2)])
          (use j n u b tr assms Zj [of j] utf8_encode_length [of c] in \<open>auto split: if_splits\<close>)
      moreover have "U8_IS_TRAIL (s ! nat i) \<or> i = j" using tr [of i] j by (auto simp: rd_Some_iff)
      ultimately show ?thesis using k(1) rb b(1) assms
        by (auto simp: U8_SET_CP_START_def sb U8_IS_TRAIL_iff)
    qed
  qed
  then show ?thesis using Z k by (intro exI [of _ k]) auto
qed

lemma U8_SET_CP_START_boundary_witness:
  "U8_SET_CP_START [0x41, 0xe4, 0xb8, 0xad] 0 3 = Some 1"
proof -
  have "seg [0x41, 0xe4, 0xb8, 0xad] 1 4 = utf8_encode 0x4e2d"
    by (simp add: utf8_encode_def seg_def)
  moreover have "length (utf8_encode 0x4e2d) = 3" by (simp add: utf8_encode_def)
  moreover obtain k where "U8_SET_CP_START [0x41, 0xe4, 0xb8, 0xad] 0 3 = Some k"
    "\<forall>c j. 0 \<le> c \<and> c \<le> 0x10ffff \<and> 0 \<le> j \<and> j \<le> 3 \<and> 3 < j + int (length (utf8_encode c)) \<and>
       j + int (length (utf8_encode c)) \<le> int (length [0x41, 0xe4, 0xb8, 0xad :: u8]) \<and>
       seg [0x41, 0xe4, 0xb8, 0xad] j (j + int (length (utf8_encode c))) = utf8_encode c \<longrightarrow> k = j"
    using U8_SET_CP_START_boundary [of 0 3 "[0x41, 0xe4, 0xb8, 0xad]"] by auto
  ultimately show ?thesis by (fastforce dest: spec2 [of _ "0x4e2d" 1])
qed

text \<open>
  The table of trail byte counts and the comparison chain of \<open>U8_COUNT_TRAIL_BYTES\<close>
  agree on all 256 bytes.
\<close>
theorem utf8_countTrailBytes_macro:
  "rd utf8_countTrailBytes (uint b) = Some (U8_COUNT_TRAIL_BYTES b)"
  by (rule u8_forallD [of "\<lambda>b. rd utf8_countTrailBytes (uint b) = Some (U8_COUNT_TRAIL_BYTES b)"])
    code_simp


section \<open>Properties restated from the lemmas above\<close>

text \<open>
  C2: In the strict-free and surrogate modes (\<open>strict\<close> -1 and -2) the decoder returns the
  code point \<open>c\<close> at index \<open>i'\<close> exactly when the bytes from the lead byte on are the UTF-8 encoding
  of an acceptable \<open>c\<close>: no overlong, surrogate or out-of-range sequence is accepted, and every
  well-formed one is.
\<close>
theorem utf8_next_exact:
  assumes "text_limit s i len L" "rd s (i - 1) = Some b" "1 \<le> i" "0x80 \<le> uint b"
    and "strict = -1 \<or> strict = -2" "0 \<le> c"
  shows "utf8_nextCharSafeBody s i len (uint b) strict = Some (i', c) \<longleftrightarrow>
     u8_accepts strict c \<and> i' = i - 1 + int (length (utf8_encode c)) \<and> i' \<le> L \<and>
     seg s (i - 1) i' = utf8_encode c"
  using assms by (rule nextCharSafe_iff)

theorem utf8_next_exact_witness:
  "utf8_nextCharSafeBody [0xe4, 0xb8, 0xad] 1 3 0xe4 (-1) = Some (3, 0x4e2d)"
  using utf8_next_exact [of "[0xe4, 0xb8, 0xad]" 1 3 3 "0xe4" "-1" "0x4e2d" 3]
  by (simp add: text_limit_def rd_def u8_accepts_def utf8_encode_def seg_def)

text \<open>
  C25: \<open>U8_APPEND\<close> writes exactly the UTF-8 encoding of a scalar value that fits before the
  capacity; in every other case it leaves the buffer and the index alone and sets the error flag.
\<close>
theorem U8_APPEND_correct:
  assumes "0 \<le> i" "i < cap" "cap \<le> int (length s)" "- (2 ^ 31) \<le> c" "c < 2 ^ 31"
  shows "U8_APPEND s i cap c e =
    (if is_scalar c \<and> i + int (length (utf8_encode c)) \<le> cap
     then Some (overwrite s i (utf8_encode c), i + int (length (utf8_encode c)), e)
     else Some (s, i, True))"
  using assms by (rule U8_APPEND_eq)

theorem U8_APPEND_correct_witness:
  "U8_APPEND [0, 0, 0, 0] 0 4 0x4e2d False = Some ([0xe4, 0xb8, 0xad, 0], 3, False)"
  using U8_APPEND_correct [of 0 4 "[0, 0, 0, 0]" "0x4e2d" False]
  by (simp add: is_scalar_def utf8_encode_def overwrite_def)

text \<open>
  The inlined fast paths of the macro \<open>U8_NEXT\<close> agree with the out-of-line function
  on every text, well-formed or not.
\<close>
lemma U8_NEXT_eq_body:
  assumes "text_limit s (i + 1) len L" "rd s i = Some b"
  shows "U8_NEXT s i len =
    (if uint b < 0x80 then Some (i + 1, uint b)
     else utf8_nextCharSafeBody s (i + 1) len (uint b) (-1))"
  using assms by (rule U8_NEXT_body)

lemma U8_NEXT_eq_body_witness:
  "U8_NEXT [0xe4, 0xb8, 0xad, 0] 0 (-1) = utf8_nextCharSafeBody [0xe4, 0xb8, 0xad, 0] 1 (-1) 0xe4 (-1)"
  using U8_NEXT_eq_body [of "[0xe4, 0xb8, 0xad, 0]" 0 "-1" 3 "0xe4"]
  by (simp add: text_limit_def rd_def)

text \<open>
  C27: Backward decoding returns \<open>c\<close> at \<open>j\<close> exactly when the bytes from \<open>j\<close> up to the given
  trail byte are the encoding of an acceptable \<open>c\<close> that does not begin before \<open>start\<close>.
\<close>
theorem utf8_prev_exact:
  assumes "0 \<le> start" "rd s i = Some b" "0x80 \<le> uint b" "strict = -1 \<or> strict = -2" "0 \<le> c"
  shows "utf8_prevCharSafeBody s start i (uint b) strict = Some (j, c) \<longleftrightarrow>
    u8_accepts strict c \<and> start \<le> j \<and> i + 1 = j + int (length (utf8_encode c)) \<and>
    seg s j (i + 1) = utf8_encode c"
  using assms by (rule prevCharSafe_iff)

theorem utf8_prev_exact_witness:
  "utf8_prevCharSafeBody [0x41, 0xe4, 0xb8, 0xad] 0 3 0xad (-1) = Some (1, 0x4e2d)"
  using utf8_prev_exact [of 0 "[0x41, 0xe4, 0xb8, 0xad]" 3 "0xad" "-1" "0x4e2d" 1]
  by (simp add: rd_def u8_accepts_def utf8_encode_def seg_def)

end
