(* ===== verification/ArraySort.thy ===== *)
theory ArraySort
  imports Prelude "HOL-Library.Multiset"
begin

text \<open>
  Array sorting and searching: \<^verbatim>\<open>src/common/uarrsort.c\<close>.

  The array is a list of items (the C code sees it as bytes and an item size); a pointer
  \<open>array+off*itemSize\<close> is the list with the offset \<open>off\<close>.  The comparator \<open>cmp\<close> is the C
  callback with its context applied.  Every read and write is bounds-checked, so that \<open>None\<close> is
  an access outside the array; \<open>None\<close> of \<open>subQuickSort\<close> is also what a comparator that never
  lets it stop gives.
\<close>

section \<open>Comparators\<close>

definition uprv_uint16Comparator :: "u16 \<Rightarrow> u16 \<Rightarrow> int" where
  "uprv_uint16Comparator l r = uint l - uint r"

text \<open>The difference of two \<open>int32_t\<close> values, as the hardware computes it.\<close>

definition uprv_int32Comparator :: "u32 \<Rightarrow> u32 \<Rightarrow> int" where
  "uprv_int32Comparator l r = sint (l - r)"

definition uprv_uint32Comparator :: "u32 \<Rightarrow> u32 \<Rightarrow> int" where
  "uprv_uint32Comparator l r = (if l < r then -1 else if l = r then 0 else 1)"

section \<open>Binary search\<close>

definition MIN_QSORT :: int where
  "MIN_QSORT = 9"

definition STACK_ITEM_SIZE :: int where
  "STACK_ITEM_SIZE = 200"

function bsearch_halve ::
  "('a \<Rightarrow> 'a \<Rightarrow> int) \<Rightarrow> 'a list \<Rightarrow> int \<Rightarrow> 'a \<Rightarrow> int \<Rightarrow> int \<Rightarrow> bool \<Rightarrow> (int \<times> int \<times> bool) option" where
  "bsearch_halve cmp array off item start limit found =
     (if limit - start \<ge> MIN_QSORT then do {
        let i = (start + limit) div 2;
        x \<leftarrow> rd array (off + i);
        let diff = cmp item x;
        if diff = 0 then bsearch_halve cmp array off item (i + 1) limit True
        else if diff < 0 then bsearch_halve cmp array off item start i found
        else bsearch_halve cmp array off item i limit found
      } else Some (start, limit, found))"
  by pat_completeness auto
termination
  by (relation "measure (\<lambda>(cmp, array, off, item, start, limit, found). nat (limit - start))")
    (auto simp: MIN_QSORT_def)

declare bsearch_halve.simps [simp del]

function bsearch_linear ::
  "('a \<Rightarrow> 'a \<Rightarrow> int) \<Rightarrow> 'a list \<Rightarrow> int \<Rightarrow> 'a \<Rightarrow> int \<Rightarrow> int \<Rightarrow> bool \<Rightarrow> (int \<times> bool) option" where
  "bsearch_linear cmp array off item start limit found =
     (if start < limit then do {
        x \<leftarrow> rd array (off + start);
        let diff = cmp item x;
        if diff = 0 then bsearch_linear cmp array off item (start + 1) limit True
        else if diff < 0 then Some (start, found)
        else bsearch_linear cmp array off item (start + 1) limit found
      } else Some (start, found))"
  by pat_completeness auto
termination
  by (relation "measure (\<lambda>(cmp, array, off, item, start, limit, found). nat (limit - start))") auto

declare bsearch_linear.simps [simp del]

definition uprv_stableBinarySearch ::
  "('a \<Rightarrow> 'a \<Rightarrow> int) \<Rightarrow> 'a list \<Rightarrow> int \<Rightarrow> int \<Rightarrow> 'a \<Rightarrow> int option" where
  "uprv_stableBinarySearch cmp array off limit item =
     do {
       (start, limit, found) \<leftarrow> bsearch_halve cmp array off item 0 limit False;
       (start, found) \<leftarrow> bsearch_linear cmp array off item start limit found;
       Some (if found then start - 1 else NOT start)
     }"

section \<open>Insertion sort\<close>

text \<open>\<open>uprv_memmove\<close> of \<open>n\<close> items inside one array.\<close>

definition memmove :: "'a list \<Rightarrow> int \<Rightarrow> int \<Rightarrow> int \<Rightarrow> 'a list option" where
  "memmove a dest src n =
     (if 0 \<le> n \<and> 0 \<le> src \<and> 0 \<le> dest \<and> src + n \<le> int (length a) \<and> dest + n \<le> int (length a)
      then Some (overwrite a dest (seg a src (src + n))) else None)"

definition insertion_step ::
  "('a \<Rightarrow> 'a \<Rightarrow> int) \<Rightarrow> 'a list \<Rightarrow> int \<Rightarrow> int \<Rightarrow> 'a list option" where
  "insertion_step cmp array off j =
     do {
       item \<leftarrow> rd array (off + j);
       insertionPoint \<leftarrow> uprv_stableBinarySearch cmp array off j item;
       let insertionPoint =
         (if insertionPoint < 0 then NOT insertionPoint else insertionPoint + 1);
       if insertionPoint < j then do {
         array \<leftarrow> memmove array (off + insertionPoint + 1) (off + insertionPoint) (j - insertionPoint);
         wr array (off + insertionPoint) item
       } else Some array
     }"

function insertion_loop ::
  "('a \<Rightarrow> 'a \<Rightarrow> int) \<Rightarrow> 'a list \<Rightarrow> int \<Rightarrow> int \<Rightarrow> int \<Rightarrow> 'a list option" where
  "insertion_loop cmp array off len j =
     (if j < len then do {
        array \<leftarrow> insertion_step cmp array off j;
        insertion_loop cmp array off len (j + 1)
      } else Some array)"
  by pat_completeness auto
termination
  by (relation "measure (\<lambda>(cmp, array, off, len, j). nat (len - j))") auto

declare insertion_loop.simps [simp del]

definition doInsertionSort ::
  "('a \<Rightarrow> 'a \<Rightarrow> int) \<Rightarrow> 'a list \<Rightarrow> int \<Rightarrow> int \<Rightarrow> 'a list option" where
  "doInsertionSort cmp array off len = insertion_loop cmp array off len 1"

text \<open>
  \<open>malloc n\<close> says whether an allocation of \<open>n\<close> bytes succeeds.  The result is the array and the
  error code.
\<close>

definition insertionSort ::
  "(int \<Rightarrow> bool) \<Rightarrow> ('a \<Rightarrow> 'a \<Rightarrow> int) \<Rightarrow> 'a list \<Rightarrow> int \<Rightarrow> int \<Rightarrow> UErrorCode
     \<Rightarrow> ('a list \<times> UErrorCode) option" where
  "insertionSort malloc cmp array len itemSize errorCode =
     (if itemSize > STACK_ITEM_SIZE \<and> \<not> malloc itemSize
      then Some (array, U_MEMORY_ALLOCATION_ERROR)
      else map_option (\<lambda>a. (a, errorCode)) (doInsertionSort cmp array 0 len))"

section \<open>Quicksort\<close>

function scan_left :: "('a \<Rightarrow> 'a \<Rightarrow> int) \<Rightarrow> 'a list \<Rightarrow> 'a \<Rightarrow> int \<Rightarrow> int option" where
  "scan_left cmp array x left =
     do { y \<leftarrow> rd array left; if cmp y x < 0 then scan_left cmp array x (left + 1) else Some left }"
  by pat_completeness auto
termination
  by (relation "measure (\<lambda>(cmp, array, x, left). nat (int (length array) - left))")
    (auto simp: rd_Some_iff)

declare scan_left.simps [simp del]

function scan_right :: "('a \<Rightarrow> 'a \<Rightarrow> int) \<Rightarrow> 'a list \<Rightarrow> 'a \<Rightarrow> int \<Rightarrow> int option" where
  "scan_right cmp array x right =
     do { y \<leftarrow> rd array (right - 1);
          if cmp x y < 0 then scan_right cmp array x (right - 1) else Some right }"
  by pat_completeness auto
termination
  by (relation "measure (\<lambda>(cmp, array, x, right). nat right)") (auto simp: rd_Some_iff)

declare scan_right.simps [simp del]

text \<open>The body of the partitioning loop, from the two scans to \<open>++left\<close>.\<close>

definition partition_step ::
  "('a \<Rightarrow> 'a \<Rightarrow> int) \<Rightarrow> 'a list \<Rightarrow> 'a \<Rightarrow> int \<Rightarrow> int \<Rightarrow> ('a list \<times> int \<times> int) option" where
  "partition_step cmp array x left right =
     do {
       left \<leftarrow> scan_left cmp array x left;
       right \<leftarrow> scan_right cmp array x right;
       if left < right then do {
         let right = right - 1;
         array \<leftarrow> (if left < right then do {
                     w \<leftarrow> rd array left;
                     y \<leftarrow> rd array right;
                     array \<leftarrow> wr array left y;
                     wr array right w
                   } else Some array);
         Some (array, left + 1, right)
       } else Some (array, left, right)
     }"

lemma scan_left_mono: "scan_left cmp a x l = Some l' \<Longrightarrow> l \<le> l'"
proof (induction cmp a x l rule: scan_left.induct)
  case (1 cmp a x l)
  from 1(2) show ?case
    by (subst (asm) scan_left.simps) (auto simp: bind_Some_iff split: if_splits dest!: 1(1))
qed

lemma scan_right_mono: "scan_right cmp a x r = Some r' \<Longrightarrow> r' \<le> r"
proof (induction cmp a x r rule: scan_right.induct)
  case (1 cmp a x r)
  from 1(2) show ?case
    by (subst (asm) scan_right.simps) (auto simp: bind_Some_iff split: if_splits dest!: 1(1))
qed

lemma partition_step_decreases:
  assumes "partition_step cmp a x l r = Some (a', l', r')" "l' < r'"
  shows "r' - l' < r - l"
proof -
  obtain l1 r1 where s: "scan_left cmp a x l = Some l1" "scan_right cmp a x r = Some r1"
    using assms(1) by (auto simp: partition_step_def bind_Some_iff)
  then show ?thesis
    using assms scan_left_mono [OF s(1)] scan_right_mono [OF s(2)]
    by (auto simp: partition_step_def bind_Some_iff Let_def split: if_splits)
qed

function partition_loop ::
  "('a \<Rightarrow> 'a \<Rightarrow> int) \<Rightarrow> 'a list \<Rightarrow> 'a \<Rightarrow> int \<Rightarrow> int \<Rightarrow> ('a list \<times> int \<times> int) option" where
  "partition_loop cmp array x left right =
     (case partition_step cmp array x left right of
        None \<Rightarrow> None
      | Some (array', left', right') \<Rightarrow>
          if left' < right' then partition_loop cmp array' x left' right'
          else Some (array', left', right'))"
  by pat_completeness auto
termination
  by (relation "measure (\<lambda>(cmp, array, x, left, right). nat (right - left))")
    (auto dest: partition_step_decreases)

declare partition_loop.simps [simp del]

partial_function (option) subQuickSort ::
  "('a \<Rightarrow> 'a \<Rightarrow> int) \<Rightarrow> 'a list \<Rightarrow> int \<Rightarrow> int \<Rightarrow> 'a list option" where
  "subQuickSort cmp array start limit =
     (if start + MIN_QSORT \<ge> limit then doInsertionSort cmp array start (limit - start)
      else do {
        x \<leftarrow> rd array ((start + limit) div 2);
        (array, left, right) \<leftarrow> partition_loop cmp array x start limit;
        if right - start < limit - left then do {
          array \<leftarrow> (if start < right - 1 then subQuickSort cmp array start right else Some array);
          if left < limit - 1 then subQuickSort cmp array left limit else Some array
        } else do {
          array \<leftarrow> (if left < limit - 1 then subQuickSort cmp array left limit else Some array);
          if start < right - 1 then subQuickSort cmp array start right else Some array
        }
      })"

definition quickSort ::
  "(int \<Rightarrow> bool) \<Rightarrow> ('a \<Rightarrow> 'a \<Rightarrow> int) \<Rightarrow> 'a list \<Rightarrow> int \<Rightarrow> int \<Rightarrow> UErrorCode
     \<Rightarrow> ('a list \<times> UErrorCode) option" where
  "quickSort malloc cmp array len itemSize errorCode =
     (if itemSize > STACK_ITEM_SIZE \<and> \<not> malloc (2 * itemSize)
      then Some (array, U_MEMORY_ALLOCATION_ERROR)
      else map_option (\<lambda>a. (a, errorCode)) (subQuickSort cmp array 0 len))"

text \<open>The API function; \<open>None\<close> for \<open>array\<close> or \<open>cmp\<close> is a \<open>NULL\<close> pointer.\<close>

definition uprv_sortArray ::
  "(int \<Rightarrow> bool) \<Rightarrow> 'a list option \<Rightarrow> int \<Rightarrow> int \<Rightarrow> ('a \<Rightarrow> 'a \<Rightarrow> int) option \<Rightarrow> bool \<Rightarrow> UErrorCode
     \<Rightarrow> ('a list option \<times> UErrorCode) option" where
  "uprv_sortArray malloc array len itemSize cmp sortStable errorCode =
     (if U_FAILURE errorCode then Some (array, errorCode)
      else if (len > 0 \<and> array = None) \<or> len < 0 \<or> itemSize \<le> 0 \<or> cmp = None
      then Some (array, U_ILLEGAL_ARGUMENT_ERROR)
      else if len \<le> 1 then Some (array, errorCode)
      else case (array, cmp) of
        (Some a, Some c) \<Rightarrow>
          map_option (\<lambda>(a, e). (Some a, e))
            (if len < MIN_QSORT \<or> sortStable then insertionSort malloc c a len itemSize errorCode
             else quickSort malloc c a len itemSize errorCode)
      | _ \<Rightarrow> None)"

section \<open>The comparator contract\<close>

locale comparator =
  fixes cmp :: "'a \<Rightarrow> 'a \<Rightarrow> int"
  assumes cmp_sym: "cmp x y < 0 \<longleftrightarrow> 0 < cmp y x"
    and cmp_trans: "cmp x y \<le> 0 \<Longrightarrow> cmp y z \<le> 0 \<Longrightarrow> cmp x z \<le> 0"
begin

lemma cmp_refl [simp]: "cmp x x = 0"
  using cmp_sym [of x x] by linarith

lemma cmp_eq_sym: "cmp x y = 0 \<Longrightarrow> cmp y x = 0"
  using cmp_sym [of x y] cmp_sym [of y x] by linarith

lemma cmp_less_trans: "cmp x y \<le> 0 \<Longrightarrow> cmp y z < 0 \<Longrightarrow> cmp x z < 0"
  using cmp_sym [of y z] cmp_sym [of x z] cmp_sym [of z x] cmp_trans [of z x y] cmp_sym [of z y] by linarith

lemma cmp_less_trans2: "cmp x y < 0 \<Longrightarrow> cmp y z \<le> 0 \<Longrightarrow> cmp x z < 0"
  using cmp_sym [of x y] cmp_sym [of x z] cmp_sym [of z x] cmp_trans [of y z x] cmp_sym [of y x] by linarith

lemma cmp_flip: "cmp x y \<le> 0 \<longleftrightarrow> 0 \<le> cmp y x"
  using cmp_sym [of x y] cmp_sym [of y x] by linarith

end

definition item_at :: "'a list \<Rightarrow> int \<Rightarrow> int \<Rightarrow> 'a" where
  "item_at a off k = a ! nat (off + k)"

text \<open>What a search has established when the items before \<open>start\<close> and from \<open>lim\<close> on are decided.\<close>

definition search_inv ::
  "('a \<Rightarrow> 'a \<Rightarrow> int) \<Rightarrow> 'a list \<Rightarrow> int \<Rightarrow> 'a \<Rightarrow> int \<Rightarrow> int \<Rightarrow> int \<Rightarrow> bool \<Rightarrow> bool" where
  "search_inv cmp a off item n start lim found \<longleftrightarrow>
     0 \<le> start \<and> start \<le> lim \<and> lim \<le> n \<and>
     (\<forall>k. 0 \<le> k \<and> k < start \<longrightarrow> cmp (item_at a off k) item \<le> 0) \<and>
     (\<forall>k. lim \<le> k \<and> k < n \<longrightarrow> cmp item (item_at a off k) < 0) \<and>
     (if found then 1 \<le> start \<and> cmp item (item_at a off (start - 1)) = 0
      else \<forall>k. 0 \<le> k \<and> k < start \<longrightarrow> cmp (item_at a off k) item < 0)"

definition sorted_items :: "('a \<Rightarrow> 'a \<Rightarrow> int) \<Rightarrow> 'a list \<Rightarrow> int \<Rightarrow> int \<Rightarrow> bool" where
  "sorted_items cmp a i j \<longleftrightarrow> (\<forall>k l. i \<le> k \<and> k \<le> l \<and> l < j \<longrightarrow> cmp (a ! nat k) (a ! nat l) \<le> 0)"

context comparator
begin

lemma search_inv_step:
  assumes "search_inv cmp a off item n start lim found" "start \<le> i" "i < lim"
    and "sorted_items cmp a off (off + n)" "0 \<le> off"
  shows "cmp item (item_at a off i) = 0 \<Longrightarrow> search_inv cmp a off item n (i + 1) lim True"
    "cmp item (item_at a off i) < 0 \<Longrightarrow> search_inv cmp a off item n start i found"
    "0 < cmp item (item_at a off i) \<Longrightarrow> search_inv cmp a off item n (i + 1) lim found \<and> search_inv cmp a off item n i lim found"
proof -
  have srt: "cmp (item_at a off k) (item_at a off l) \<le> 0" if "0 \<le> k" "k \<le> l" "l < n" for k l
    using assms(4) that by (auto simp: sorted_items_def item_at_def)
  have i: "0 \<le> i" "i < n" using assms(1-3) by (auto simp: search_inv_def)
  have below: "cmp (item_at a off k) (item_at a off i) \<le> 0" if "0 \<le> k" "k \<le> i" for k
    using srt [OF that] i by simp
  have above: "cmp (item_at a off i) (item_at a off k) \<le> 0" if "i \<le> k" "k < n" for k
    using srt [of i k] i that by simp
  { assume eq: "cmp item (item_at a off i) = 0"
    then have "cmp (item_at a off k) item \<le> 0" if "0 \<le> k" "k \<le> i" for k
      using cmp_trans [OF below [OF that]] cmp_eq_sym [OF eq] by simp
    then show "search_inv cmp a off item n (i + 1) lim True"
      using assms(1-3) eq i by (auto simp: search_inv_def) }
  { assume lt: "cmp item (item_at a off i) < 0"
    then have "cmp item (item_at a off k) < 0" if "i \<le> k" "k < n" for k
      using cmp_less_trans2 [OF lt above [OF that]] by simp
    then show "search_inv cmp a off item n start i found"
      using assms(1-3) i by (auto simp: search_inv_def) }
  { assume gt: "0 < cmp item (item_at a off i)"
    then have lt: "cmp (item_at a off i) item < 0" using cmp_sym by simp
    have all: "cmp (item_at a off k) item < 0" if "0 \<le> k" "k \<le> i" for k
      using cmp_less_trans [OF below [OF that] lt] .
    have "\<not> found"
    proof
      assume found
      then have "1 \<le> start" "cmp item (item_at a off (start - 1)) = 0"
        using assms(1) by (auto simp: search_inv_def)
      moreover have "cmp (item_at a off (start - 1)) item < 0"
        using all [of "start - 1"] \<open>1 \<le> start\<close> assms(2) by simp
      ultimately show False using cmp_eq_sym by fastforce
    qed
    then show "search_inv cmp a off item n (i + 1) lim found \<and> search_inv cmp a off item n i lim found"
      using assms(1-3) i all by (force simp: search_inv_def intro: less_imp_le) }
qed

lemma bsearch_halve_correct:
  assumes "search_inv cmp a off item n start lim found" "sorted_items cmp a off (off + n)"
    "0 \<le> off" "off + n \<le> int (length a)"
  shows "\<exists>s l f. bsearch_halve cmp a off item start lim found = Some (s, l, f) \<and>
    search_inv cmp a off item n s l f"
  using assms(1)
proof (induction "nat (lim - start)" arbitrary: start lim found rule: less_induct)
  case less
  show ?case
  proof (cases "lim - start \<ge> MIN_QSORT")
    case False
    then show ?thesis using less.prems by (simp add: bsearch_halve.simps)
  next
    case True
    let ?i = "(start + lim) div 2"
    have i: "start < ?i" "?i < lim" using True by (auto simp: MIN_QSORT_def)
    have rd: "rd a (off + ?i) = Some (item_at a off ?i)"
      using i less.prems assms(3,4) by (auto simp: search_inv_def item_at_def)
    note step = search_inv_step [OF less.prems _ i(2) assms(2,3)]
    consider "cmp item (item_at a off ?i) = 0" | "cmp item (item_at a off ?i) < 0"
      | "0 < cmp item (item_at a off ?i)" by linarith
    then show ?thesis
    proof cases
      case 1
      then show ?thesis using less.hyps [of lim "?i + 1" True] step(1) True i rd
        by (subst bsearch_halve.simps) (auto simp: Let_def)
    next
      case 2
      then show ?thesis using less.hyps [of ?i start found] step(2) True i rd
        by (subst bsearch_halve.simps) (auto simp: Let_def)
    next
      case 3
      then show ?thesis using less.hyps [of lim ?i found] step(3) True i rd
        by (subst bsearch_halve.simps) (auto simp: Let_def)
    qed
  qed
qed

lemma bsearch_linear_correct:
  assumes "search_inv cmp a off item n start lim found" "sorted_items cmp a off (off + n)"
    "0 \<le> off" "off + n \<le> int (length a)"
  shows "\<exists>s f. bsearch_linear cmp a off item start lim found = Some (s, f) \<and>
    search_inv cmp a off item n s s f"
  using assms(1)
proof (induction "nat (lim - start)" arbitrary: start found rule: less_induct)
  case less
  show ?case
  proof (cases "start < lim")
    case False
    then have "start = lim" using less.prems by (auto simp: search_inv_def)
    then show ?thesis using less.prems by (simp add: bsearch_linear.simps)
  next
    case True
    have rd: "rd a (off + start) = Some (item_at a off start)"
      using True less.prems assms(3,4) by (auto simp: search_inv_def item_at_def)
    note step = search_inv_step [OF less.prems order_refl True assms(2,3)]
    consider "cmp item (item_at a off start) = 0" | "cmp item (item_at a off start) < 0"
      | "0 < cmp item (item_at a off start)" by linarith
    then show ?thesis
    proof cases
      case 1
      then show ?thesis using less.hyps [of "start + 1" True] step(1) True rd
        by (subst bsearch_linear.simps) (auto simp: Let_def)
    next
      case 2
      then show ?thesis using step(2) True rd
        by (subst bsearch_linear.simps) (auto simp: Let_def)
    next
      case 3
      then show ?thesis using less.hyps [of "start + 1" found] step(3) True rd
        by (subst bsearch_linear.simps) (auto simp: Let_def)
    qed
  qed
qed

lemma stableBinarySearch_correct:
  assumes "sorted_items cmp a off (off + n)" "0 \<le> off" "0 \<le> n" "off + n \<le> int (length a)"
  shows "\<exists>r p. uprv_stableBinarySearch cmp a off n item = Some r \<and> 0 \<le> p \<and> p \<le> n \<and>
    (\<forall>k. 0 \<le> k \<and> k < p \<longrightarrow> cmp (item_at a off k) item \<le> 0) \<and>
    (\<forall>k. p \<le> k \<and> k < n \<longrightarrow> cmp item (item_at a off k) < 0) \<and>
    (if 0 \<le> r then r = p - 1 \<and> cmp item (item_at a off r) = 0
     else NOT r = p \<and> (\<forall>k. 0 \<le> k \<and> k < n \<longrightarrow> cmp item (item_at a off k) \<noteq> 0))"
proof -
  have "search_inv cmp a off item n 0 n False" using assms(3) by (simp add: search_inv_def)
  then obtain s l f where h: "bsearch_halve cmp a off item 0 n False = Some (s, l, f)"
    "search_inv cmp a off item n s l f"
    using bsearch_halve_correct assms by blast
  then obtain p g where l: "bsearch_linear cmp a off item s l f = Some (p, g)"
    "search_inv cmp a off item n p p g"
    using bsearch_linear_correct assms by blast
  have none: "\<forall>k. 0 \<le> k \<and> k < n \<longrightarrow> cmp item (item_at a off k) \<noteq> 0" if "\<not> g"
  proof (intro allI impI)
    fix k assume "0 \<le> k \<and> k < n"
    then consider "0 \<le> k \<and> k < p" | "p \<le> k \<and> k < n" by linarith
    then show "cmp item (item_at a off k) \<noteq> 0"
    proof cases
      case 1
      then have "cmp (item_at a off k) item < 0" using l(2) that by (simp add: search_inv_def)
      then show ?thesis using cmp_eq_sym by fastforce
    next
      case 2
      then have "cmp item (item_at a off k) < 0" using l(2) by (simp add: search_inv_def)
      then show ?thesis by simp
    qed
  qed
  have S: "uprv_stableBinarySearch cmp a off n item = Some (if g then p - 1 else NOT p)"
    using h(1) l(1) by (simp add: uprv_stableBinarySearch_def)
  have P: "0 \<le> p" "p \<le> n" "\<forall>k. 0 \<le> k \<and> k < p \<longrightarrow> cmp (item_at a off k) item \<le> 0"
    "\<forall>k. p \<le> k \<and> k < n \<longrightarrow> cmp item (item_at a off k) < 0"
    using l(2) unfolding search_inv_def by blast+
  show ?thesis
  proof (cases g)
    case True
    then have "1 \<le> p" "cmp item (item_at a off (p - 1)) = 0"
      using l(2) by (simp_all add: search_inv_def)
    then show ?thesis using S P True by (intro exI [of _ "p - 1"] exI [of _ p] conjI) simp_all
  next
    case False
    have "\<not> 0 \<le> NOT p" "NOT (NOT p) = p" using P(1) by (simp_all add: not_int_def)
    then show ?thesis using S P False none by (intro exI [of _ "NOT p"] exI [of _ p] conjI) simp_all
  qed
qed

end

section \<open>Insertion sort\<close>

text \<open>The abstract specification: insert each item after the items that are not greater.\<close>

definition insert_after :: "('a \<Rightarrow> 'a \<Rightarrow> int) \<Rightarrow> 'a \<Rightarrow> 'a list \<Rightarrow> 'a list" where
  "insert_after cmp x ys =
     takeWhile (\<lambda>y. cmp y x \<le> 0) ys @ x # dropWhile (\<lambda>y. cmp y x \<le> 0) ys"

definition stable_sort :: "('a \<Rightarrow> 'a \<Rightarrow> int) \<Rightarrow> 'a list \<Rightarrow> 'a list" where
  "stable_sort cmp xs = foldl (\<lambda>ys x. insert_after cmp x ys) [] xs"

abbreviation cmp_sorted :: "('a \<Rightarrow> 'a \<Rightarrow> int) \<Rightarrow> 'a list \<Rightarrow> bool" where
  "cmp_sorted cmp \<equiv> sorted_wrt (\<lambda>x y. cmp x y \<le> 0)"

lemma mset_insert_after: "mset (insert_after cmp x ys) = {#x#} + mset ys"
proof -
  have "mset (takeWhile (\<lambda>y. cmp y x \<le> 0) ys) + mset (dropWhile (\<lambda>y. cmp y x \<le> 0) ys) = mset ys"
    by (metis mset_append takeWhile_dropWhile_id)
  then show ?thesis by (simp add: insert_after_def)
qed

lemma mset_stable_sort: "mset (stable_sort cmp xs) = mset xs"
proof -
  have "mset (foldl (\<lambda>ys x. insert_after cmp x ys) ys xs) = mset ys + mset xs" for ys
    by (induction xs arbitrary: ys) (simp_all add: mset_insert_after)
  then show ?thesis by (simp add: stable_sort_def)
qed

lemma length_stable_sort [simp]: "length (stable_sort cmp xs) = length xs"
  by (metis mset_stable_sort size_mset)

lemma take_eq_takeWhile:
  assumes "p \<le> length ys" "\<forall>k < p. P (ys ! k)" "\<forall>k. p \<le> k \<and> k < length ys \<longrightarrow> \<not> P (ys ! k)"
  shows "takeWhile P ys = take p ys" "dropWhile P ys = drop p ys"
proof -
  show t: "takeWhile P ys = take p ys"
    by (rule takeWhile_eq_take_P_nth) (use assms in auto)
  have "takeWhile P ys @ dropWhile P ys = take p ys @ drop p ys" by simp
  then show "dropWhile P ys = drop p ys" unfolding t by (simp only: same_append_eq)
qed

context comparator
begin

lemma sorted_items_segment:
  assumes "cmp_sorted cmp ys"
  shows "sorted_items cmp (P @ ys @ Q) (int (length P)) (int (length P) + int (length ys))"
  unfolding sorted_items_def
proof (intro allI impI)
  fix k l assume kl: "int (length P) \<le> k \<and> k \<le> l \<and> l < int (length P) + int (length ys)"
  define m n where "m = nat k - length P" and "n = nat l - length P"
  have e: "(P @ ys @ Q) ! nat k = ys ! m" "(P @ ys @ Q) ! nat l = ys ! n" "m \<le> n" "n < length ys"
    using kl by (auto simp: m_def n_def nth_append)
  show "cmp ((P @ ys @ Q) ! nat k) ((P @ ys @ Q) ! nat l) \<le> 0"
  proof (cases "m = n")
    case False
    then have "m < n" using e by simp
    then show ?thesis using assms e by (simp add: sorted_wrt_iff_nth_less)
  qed (simp add: e)
qed

lemma insertion_step_correct:
  assumes "cmp_sorted cmp ys"
  shows "insertion_step cmp (P @ ys @ x # Q) (int (length P)) (int (length ys)) =
    Some (P @ insert_after cmp x ys @ Q)"
proof -
  let ?a = "P @ ys @ x # Q" and ?off = "int (length P)" and ?n = "int (length ys)"
  have rd: "rd ?a (?off + ?n) = Some x"
    by (simp add: rd_Some_iff nth_append nat_add_distrib)
  obtain r p where r: "uprv_stableBinarySearch cmp ?a ?off ?n x = Some r"
    and p: "0 \<le> p" "p \<le> ?n"
      "\<forall>k. 0 \<le> k \<and> k < p \<longrightarrow> cmp (item_at ?a ?off k) x \<le> 0"
      "\<forall>k. p \<le> k \<and> k < ?n \<longrightarrow> cmp x (item_at ?a ?off k) < 0"
    and rp: "if 0 \<le> r then r = p - 1 \<and> cmp x (item_at ?a ?off r) = 0
       else NOT r = p \<and> (\<forall>k. 0 \<le> k \<and> k < ?n \<longrightarrow> cmp x (item_at ?a ?off k) \<noteq> 0)"
    using stableBinarySearch_correct [OF sorted_items_segment [OF assms], of P "x # Q" x] by auto
  have ip: "(if r < 0 then NOT r else r + 1) = p" using rp by (auto split: if_splits)
  define q where "q = nat p"
  have q: "p = int q" "q \<le> length ys" using p(1,2) by (simp_all add: q_def)
  have nth: "item_at ?a ?off (int k) = ys ! k" if "k < length ys" for k
    using that by (simp add: item_at_def nth_append nat_add_distrib)
  have le: "cmp (ys ! k) x \<le> 0" if "k < q" for k
    using p(3) [rule_format, of "int k"] nth [of k] that q by simp
  have gt: "\<not> cmp (ys ! k) x \<le> 0" if "q \<le> k" "k < length ys" for k
    using p(4) [rule_format, of "int k"] nth [of k] that q cmp_flip [of "ys ! k" x] by simp
  have ia: "insert_after cmp x ys = take q ys @ x # drop q ys"
    using take_eq_takeWhile [of q ys "\<lambda>y. cmp y x \<le> 0"] q(2) le gt by (simp add: insert_after_def)
  show ?thesis
  proof (cases "q < length ys")
    case False
    then show ?thesis using rd r ip q ia by (simp add: insertion_step_def)
  next
    case True
    obtain ys1 y ys2 where ys: "ys = ys1 @ y # ys2" "length ys1 = q"
      using True id_take_nth_drop [of q ys] by (metis length_take min.absorb4)
    have sg: "seg ?a (?off + p) (?off + p + (?n - p)) = y # ys2"
      using ys q by (simp add: seg_def nat_add_distrib)
    have mv: "memmove ?a (?off + p + 1) (?off + p) (?n - p) = Some (P @ ys1 @ y # y # ys2 @ Q)"
      using ys q sg by (simp add: memmove_def overwrite_def nat_add_distrib)
    have "wr (P @ ys1 @ y # y # ys2 @ Q) (?off + p) x = Some (P @ ys1 @ x # y # ys2 @ Q)"
      using ys q by (simp add: wr_Some_iff list_update_append nat_add_distrib)
    then show ?thesis using rd r ip True q ia ys mv
      by (simp add: insertion_step_def Let_def)
  qed
qed

lemma dropWhile_sorted_ge:
  "z \<in> set (dropWhile P ys) \<Longrightarrow> cmp_sorted cmp ys \<Longrightarrow> \<exists>w. \<not> P w \<and> cmp w z \<le> 0"
  by (induction ys) (auto split: if_splits intro: exI)

lemma cmp_sorted_insert_after:
  assumes "cmp_sorted cmp ys"
  shows "cmp_sorted cmp (insert_after cmp x ys)"
proof -
  let ?t = "takeWhile (\<lambda>y. cmp y x \<le> 0) ys" and ?d = "dropWhile (\<lambda>y. cmp y x \<le> 0) ys"
  have d: "cmp x z \<le> 0" if z: "z \<in> set ?d" for z
  proof -
    obtain w where "\<not> cmp w x \<le> 0" "cmp w z \<le> 0"
      using dropWhile_sorted_ge [OF z assms] by blast
    then show ?thesis using cmp_trans [of x w z] cmp_flip [of x w] by simp
  qed
  have t: "cmp y x \<le> 0" if "y \<in> set ?t" for y
    using that by (rule set_takeWhileD [THEN conjunct2])
  have "cmp_sorted cmp (?t @ ?d)" using assms by simp
  then have td: "cmp_sorted cmp ?t" "cmp_sorted cmp ?d" "\<forall>y\<in>set ?t. \<forall>z\<in>set ?d. cmp y z \<le> 0"
    unfolding sorted_wrt_append by blast+
  have "cmp_sorted cmp (x # ?d)" unfolding sorted_wrt.simps using d td(2) by blast
  then show ?thesis
    unfolding insert_after_def sorted_wrt_append list.set using td t by blast
qed

lemma insertion_loop_correct:
  "cmp_sorted cmp ys \<Longrightarrow>
   insertion_loop cmp (P @ ys @ zs @ Q) (int (length P)) (int (length ys) + int (length zs)) (int (length ys)) =
     Some (P @ foldl (\<lambda>ys x. insert_after cmp x ys) ys zs @ Q)"
proof (induction zs arbitrary: ys)
  case Nil
  then show ?case by (simp add: insertion_loop.simps)
next
  case (Cons z zs)
  have len: "length (insert_after cmp z ys) = Suc (length ys)"
    using arg_cong [OF mset_insert_after [of cmp z ys], of size] by simp
  then show ?case
    using Cons.IH [OF cmp_sorted_insert_after [OF Cons.prems], of z] insertion_step_correct [OF Cons.prems, of P z "zs @ Q"]
    by (subst insertion_loop.simps) (simp add: algebra_simps)
qed

lemma doInsertionSort_correct:
  "doInsertionSort cmp (P @ xs @ Q) (int (length P)) (int (length xs)) = Some (P @ stable_sort cmp xs @ Q)"
proof (cases xs)
  case Nil
  then show ?thesis by (simp add: doInsertionSort_def insertion_loop.simps stable_sort_def)
next
  case (Cons x zs)
  then show ?thesis
    using insertion_loop_correct [of "[x]" P zs Q]
    by (simp add: doInsertionSort_def stable_sort_def insert_after_def add.commute)
qed

lemma cmp_sorted_stable_sort: "cmp_sorted cmp (stable_sort cmp xs)"
proof -
  have "cmp_sorted cmp ys \<Longrightarrow> cmp_sorted cmp (foldl (\<lambda>ys x. insert_after cmp x ys) ys xs)" for ys
    by (induction xs arbitrary: ys) (simp_all add: cmp_sorted_insert_after)
  then show ?thesis by (simp add: stable_sort_def)
qed

text \<open>Stability: the items equal to \<open>x\<close> keep their order.\<close>

lemma insert_after_filter:
  assumes "cmp_sorted cmp ys"
  shows "filter (\<lambda>y. cmp x y = 0) (insert_after cmp z ys) =
    filter (\<lambda>y. cmp x y = 0) ys @ (if cmp x z = 0 then [z] else [])"
proof (cases "cmp x z = 0")
  case False
  have "filter (\<lambda>y. cmp x y = 0) (takeWhile (\<lambda>y. cmp y z \<le> 0) ys) @
      filter (\<lambda>y. cmp x y = 0) (dropWhile (\<lambda>y. cmp y z \<le> 0) ys) = filter (\<lambda>y. cmp x y = 0) ys"
    by (metis filter_append takeWhile_dropWhile_id)
  then show ?thesis using False by (simp add: insert_after_def)
next
  case True
  have "cmp x y \<noteq> 0" if y: "y \<in> set (dropWhile (\<lambda>y. cmp y z \<le> 0) ys)" for y
  proof
    assume "cmp x y = 0"
    then have yz: "cmp y z \<le> 0" using True cmp_trans [of y x z] cmp_eq_sym by auto
    obtain w where "\<not> cmp w z \<le> 0" "cmp w y \<le> 0"
      using dropWhile_sorted_ge [OF y assms] by blast
    then show False using yz cmp_trans by blast
  qed
  then have "filter (\<lambda>y. cmp x y = 0) (dropWhile (\<lambda>y. cmp y z \<le> 0) ys) = []"
    by (simp add: filter_empty_conv)
  moreover have "filter (\<lambda>y. cmp x y = 0) (takeWhile (\<lambda>y. cmp y z \<le> 0) ys) @
      filter (\<lambda>y. cmp x y = 0) (dropWhile (\<lambda>y. cmp y z \<le> 0) ys) = filter (\<lambda>y. cmp x y = 0) ys"
    by (metis filter_append takeWhile_dropWhile_id)
  ultimately show ?thesis using True by (simp add: insert_after_def)
qed

lemma stable_sort_stable: "filter (\<lambda>y. cmp x y = 0) (stable_sort cmp xs) = filter (\<lambda>y. cmp x y = 0) xs"
proof -
  have "cmp_sorted cmp ys \<Longrightarrow> filter (\<lambda>y. cmp x y = 0) (foldl (\<lambda>ys x. insert_after cmp x ys) ys xs) =
      filter (\<lambda>y. cmp x y = 0) ys @ filter (\<lambda>y. cmp x y = 0) xs" for ys
    by (induction xs arbitrary: ys) (simp_all add: insert_after_filter cmp_sorted_insert_after)
  then show ?thesis by (simp add: stable_sort_def)
qed

end

section \<open>Quicksort\<close>

text \<open>\<open>b\<close> is \<open>a\<close> with the items at the offsets \<open>i\<close>, ..., \<open>j - 1\<close> permuted.\<close>

definition seg_perm :: "'a list \<Rightarrow> 'a list \<Rightarrow> int \<Rightarrow> int \<Rightarrow> bool" where
  "seg_perm a b i j \<longleftrightarrow> length a = length b \<and> mset a = mset b \<and>
     (\<forall>k. 0 \<le> k \<and> k < int (length a) \<and> (k < i \<or> j \<le> k) \<longrightarrow> a ! nat k = b ! nat k)"

lemma seg_perm_refl [simp]: "seg_perm a a i j"
  by (simp add: seg_perm_def)

lemma seg_perm_trans: "seg_perm a b i j \<Longrightarrow> seg_perm b c i j \<Longrightarrow> seg_perm a c i j"
  by (simp add: seg_perm_def)

lemma seg_perm_mono: "seg_perm a b i j \<Longrightarrow> i' \<le> i \<Longrightarrow> j \<le> j' \<Longrightarrow> seg_perm a b i' j'"
  by (auto simp: seg_perm_def)

lemma seg_perm_length: "seg_perm a b i j \<Longrightarrow> length b = length a"
  by (simp add: seg_perm_def)

lemma seg_perm_outside:
  "seg_perm a b i j \<Longrightarrow> 0 \<le> k \<Longrightarrow> k < int (length a) \<Longrightarrow> k < i \<or> j \<le> k \<Longrightarrow> b ! nat k = a ! nat k"
  by (simp add: seg_perm_def)

lemma split_seg:
  assumes "0 \<le> i" "i \<le> j" "j \<le> int (length a)"
  shows "a = take (nat i) a @ seg a i j @ drop (nat j) a"
proof -
  have "drop (nat i) a = take (nat (j - i)) (drop (nat i) a) @ drop (nat (j - i)) (drop (nat i) a)"
    by (simp only: append_take_drop_id)
  also have "drop (nat (j - i)) (drop (nat i) a) = drop (nat j) a"
    using assms by (simp add: nat_diff_distrib)
  finally show ?thesis by (metis append_take_drop_id seg_def)
qed

lemma seg_perm_mset:
  assumes "seg_perm a b i j" "0 \<le> i" "i \<le> j" "j \<le> int (length a)"
  shows "mset (seg a i j) = mset (seg b i j)"
proof -
  have len: "length b = length a" using assms(1) by (simp add: seg_perm_length)
  have t: "take (nat i) a = take (nat i) b"
  proof (rule nth_equalityI)
    fix k assume "k < length (take (nat i) a)"
    then show "take (nat i) a ! k = take (nat i) b ! k"
      using seg_perm_outside [OF assms(1), of "int k"] by (simp add: zless_nat_eq_int_zless)
  qed (simp add: len)
  have d: "drop (nat j) a = drop (nat j) b"
  proof (rule nth_equalityI)
    fix k assume "k < length (drop (nat j) a)"
    then show "drop (nat j) a ! k = drop (nat j) b ! k"
      using seg_perm_outside [OF assms(1), of "int (nat j + k)"] assms len
      by (simp add: nat_add_distrib less_diff_conv add.commute zless_nat_conj)
  qed (simp add: len)
  have "mset a = mset (take (nat i) a) + mset (seg a i j) + mset (drop (nat j) a)"
    using split_seg [of i j a] assms by (metis mset_append add.assoc)
  moreover have "mset b = mset (take (nat i) b) + mset (seg b i j) + mset (drop (nat j) b)"
    using split_seg [of i j b] assms len by (metis mset_append add.assoc)
  moreover have "mset a = mset b" using assms(1) by (simp add: seg_perm_def)
  ultimately show ?thesis using t d by simp
qed

lemma set_seg:
  assumes "0 \<le> i" "j \<le> int (length a)"
  shows "set (seg a i j) = {a ! nat k | k. i \<le> k \<and> k < j}"
proof -
  have "set (seg a i j) = {seg a i j ! m | m. m < nat (j - i)}"
    using length_seg [OF assms] by (simp add: set_conv_nth)
  also have "\<dots> = {a ! nat k | k. i \<le> k \<and> k < j}"
  proof (intro set_eqI iffI; clarify)
    fix m assume "m < nat (j - i)"
    then show "\<exists>k. seg a i j ! m = a ! nat k \<and> i \<le> k \<and> k < j"
      using assms by (intro exI [of _ "i + int m"]) (simp add: seg_def nat_add_distrib)
  next
    fix k assume "i \<le> k" "k < j"
    then show "\<exists>m. a ! nat k = seg a i j ! m \<and> m < nat (j - i)"
      using assms by (intro exI [of _ "nat (k - i)"]) (simp add: seg_def nat_diff_distrib)
  qed
  finally show ?thesis .
qed

lemma seg_perm_all:
  assumes "seg_perm a b i j" "0 \<le> i" "j \<le> int (length a)" "\<forall>k. i \<le> k \<and> k < j \<longrightarrow> P (a ! nat k)"
    "i \<le> k" "k < j"
  shows "P (b ! nat k)"
proof -
  have "set (seg a i j) = set (seg b i j)"
    using arg_cong [OF seg_perm_mset [OF assms(1,2) _ assms(3)], of set_mset] assms(5,6) by simp
  moreover have "b ! nat k \<in> set (seg b i j)"
    using set_seg [of i j b] assms seg_perm_length [OF assms(1)] by auto
  ultimately have "b ! nat k \<in> set (seg a i j)" by simp
  then have "b ! nat k \<in> {a ! nat m | m. i \<le> m \<and> m < j}"
    by (simp only: set_seg [OF assms(2,3)])
  then obtain m where "b ! nat k = a ! nat m" "i \<le> m" "m < j" by blast
  then show ?thesis using assms(4) by simp
qed

lemma seg_perm_swap:
  assumes "i \<le> l" "l < j" "i \<le> r" "r < j" "0 \<le> i" "j \<le> int (length a)"
  shows "seg_perm a (a[nat l := a ! nat r, nat r := a ! nat l]) i j"
  using assms mset_swap [of "nat r" a "nat l"]
  by (auto simp: seg_perm_def nth_list_update)

context comparator
begin

lemma scan_left_correct:
  assumes "0 \<le> l" "l \<le> k" "k < int (length a)" "0 \<le> cmp (a ! nat k) x"
  shows "\<exists>l'. scan_left cmp a x l = Some l' \<and> l \<le> l' \<and> l' \<le> k \<and> 0 \<le> cmp (a ! nat l') x \<and>
    (\<forall>m. l \<le> m \<and> m < l' \<longrightarrow> cmp (a ! nat m) x < 0)"
  using assms(1,2)
proof (induction "nat (k - l)" arbitrary: l rule: less_induct)
  case less
  have rd: "rd a l = Some (a ! nat l)" using less.prems assms(3) by simp
  show ?case
  proof (cases "cmp (a ! nat l) x < 0")
    case True
    then have "l \<noteq> k" using assms(4) by auto
    then obtain l' where l': "scan_left cmp a x (l + 1) = Some l'" "l + 1 \<le> l'" "l' \<le> k" "0 \<le> cmp (a ! nat l') x"
      "\<forall>m. l + 1 \<le> m \<and> m < l' \<longrightarrow> cmp (a ! nat m) x < 0"
      using less.hyps [of "l + 1"] less.prems by auto
    have "cmp (a ! nat m) x < 0" if "l \<le> m" "m < l'" for m
      using l'(5) that True by (cases "m = l") auto
    then show ?thesis using l' True rd by (subst scan_left.simps) auto
  next
    case False
    then show ?thesis using rd less.prems by (subst scan_left.simps) auto
  qed
qed

lemma scan_right_correct:
  assumes "0 \<le> k" "k < r" "r \<le> int (length a)" "0 \<le> cmp x (a ! nat k)"
  shows "\<exists>r'. scan_right cmp a x r = Some r' \<and> k < r' \<and> r' \<le> r \<and> 0 \<le> cmp x (a ! nat (r' - 1)) \<and>
    (\<forall>m. r' \<le> m \<and> m < r \<longrightarrow> cmp x (a ! nat m) < 0)"
  using assms(2,3)
proof (induction "nat (r - k)" arbitrary: r rule: less_induct)
  case less
  have rd: "rd a (r - 1) = Some (a ! nat (r - 1))" using less.prems assms(1) by simp
  show ?case
  proof (cases "cmp x (a ! nat (r - 1)) < 0")
    case True
    then have "r - 1 \<noteq> k" using assms(4) by auto
    then obtain r' where r': "scan_right cmp a x (r - 1) = Some r'" "k < r'" "r' \<le> r - 1" "0 \<le> cmp x (a ! nat (r' - 1))"
      "\<forall>m. r' \<le> m \<and> m < r - 1 \<longrightarrow> cmp x (a ! nat m) < 0"
      using less.hyps [of "r - 1"] less.prems by auto
    have "cmp x (a ! nat m) < 0" if "r' \<le> m" "m < r" for m
      using r'(5) that True by (cases "m = r - 1") auto
    then show ?thesis using r' True rd by (subst scan_right.simps) auto
  next
    case False
    then show ?thesis using rd less.prems by (subst scan_right.simps) auto
  qed
qed

end

text \<open>
  The state of the partitioning loop over the items \<open>lo\<close>, ..., \<open>hi - 1\<close>: what is left of \<open>left\<close>
  is at most \<open>x\<close>, what is right of \<open>right\<close> is at least \<open>x\<close>, and each scan has a sentinel.
\<close>

definition parted :: "('a \<Rightarrow> 'a \<Rightarrow> int) \<Rightarrow> 'a list \<Rightarrow> 'a \<Rightarrow> int \<Rightarrow> int \<Rightarrow> int \<Rightarrow> int \<Rightarrow> bool" where
  "parted cmp a x lo hi left right \<longleftrightarrow>
     0 \<le> lo \<and> lo \<le> left \<and> left \<le> hi \<and> lo \<le> right \<and> right \<le> hi \<and> hi \<le> int (length a) \<and>
     (\<forall>k. lo \<le> k \<and> k < left \<longrightarrow> cmp (a ! nat k) x \<le> 0) \<and>
     (\<forall>k. right \<le> k \<and> k < hi \<longrightarrow> cmp x (a ! nat k) \<le> 0)"

definition sentinels :: "('a \<Rightarrow> 'a \<Rightarrow> int) \<Rightarrow> 'a list \<Rightarrow> 'a \<Rightarrow> int \<Rightarrow> int \<Rightarrow> int \<Rightarrow> int \<Rightarrow> bool" where
  "sentinels cmp a x lo hi left right \<longleftrightarrow>
     (\<exists>k. left \<le> k \<and> k < hi \<and> 0 \<le> cmp (a ! nat k) x) \<and>
     (\<exists>k. lo \<le> k \<and> k < right \<and> 0 \<le> cmp x (a ! nat k))"

context comparator
begin

lemma partition_step_correct:
  assumes inv: "parted cmp a x lo hi left right" "sentinels cmp a x lo hi left right" "left < right"
  shows "\<exists>a' l r. partition_step cmp a x left right = Some (a', l, r) \<and> seg_perm a a' lo hi \<and>
    left \<le> l \<and> r \<le> right \<and> parted cmp a' x lo hi l r \<and> (l < r \<longrightarrow> sentinels cmp a' x lo hi l r) \<and>
    ((\<exists>p. left \<le> p \<and> p < right \<and> cmp (a ! nat p) x = 0) \<longrightarrow> left < l \<and> r < right)"
proof -
  note P = inv(1) [unfolded parted_def]
  obtain k1 where k1: "left \<le> k1" "k1 < hi" "0 \<le> cmp (a ! nat k1) x"
    using inv(2) by (auto simp: sentinels_def)
  obtain k2 where k2: "lo \<le> k2" "k2 < right" "0 \<le> cmp x (a ! nat k2)"
    using inv(2) by (auto simp: sentinels_def)
  obtain l where l: "scan_left cmp a x left = Some l" "left \<le> l" "l \<le> k1" "0 \<le> cmp (a ! nat l) x"
    "\<forall>m. left \<le> m \<and> m < l \<longrightarrow> cmp (a ! nat m) x < 0"
    using scan_left_correct [of left k1 a x] k1 P by auto
  obtain r where r: "scan_right cmp a x right = Some r" "k2 < r" "r \<le> right" "0 \<le> cmp x (a ! nat (r - 1))"
    "\<forall>m. r \<le> m \<and> m < right \<longrightarrow> cmp x (a ! nat m) < 0"
    using scan_right_correct [of k2 right a x] k2 P by auto
  have below: "cmp (a ! nat m) x \<le> 0" if "lo \<le> m" "m < l" for m
    using P l(5) that by (cases "m < left") (auto simp: less_imp_le)
  have above: "cmp x (a ! nat m) \<le> 0" if "r \<le> m" "m < hi" for m
    using P r(5) that by (cases "right \<le> m") (auto simp: less_imp_le)
  have piv: "l < r" if "left \<le> p" "p < right" "cmp (a ! nat p) x = 0" for p
  proof -
    have "l \<le> p" using l(5) that by (metis not_less less_irrefl)
    moreover have "\<not> r \<le> p" using r(5) that cmp_eq_sym [OF that(3)] by force
    ultimately show ?thesis by simp
  qed
  show ?thesis
  proof (cases "l < r")
    case False
    have "partition_step cmp a x left right = Some (a, l, r)"
      using l(1) r(1) False by (simp add: partition_step_def)
    moreover have "parted cmp a x lo hi l r"
      using P l r k1 k2 below above by (simp add: parted_def)
    ultimately show ?thesis using l r piv False by fastforce
  next
    case True
    define a' where "a' = a[nat l := a ! nat (r - 1), nat (r - 1) := a ! nat l]"
    have rng: "0 \<le> l" "l < int (length a)" "0 \<le> r - 1" "r - 1 < int (length a)" "lo \<le> l" "l < hi"
      "lo \<le> r - 1" "r - 1 < hi"
      using P l r True by linarith+
    have step: "partition_step cmp a x left right = Some (a', l + 1, r - 1)"
    proof (cases "l < r - 1")
      case True
      then show ?thesis using l(1) r(1) rng by (simp add: partition_step_def a'_def Let_def)
    next
      case False
      then have "l = r - 1" using \<open>l < r\<close> by simp
      then have "a' = a" by (simp add: a'_def)
      then show ?thesis using l(1) r(1) rng \<open>l < r\<close> False by (simp add: partition_step_def Let_def)
    qed
    have len: "length a' = length a" by (simp add: a'_def)
    have nth: "a' ! nat m = (if m = r - 1 then a ! nat l else if m = l then a ! nat (r - 1) else a ! nat m)"
      if "0 \<le> m" for m
      using rng that by (auto simp: a'_def nth_list_update)
    have al: "cmp (a' ! nat l) x \<le> 0"
    proof (cases "l = r - 1")
      case True
      then show ?thesis using nth [of l] rng r(4) cmp_flip [of "a ! nat l" x] by simp
    qed (use nth [of l] rng r(4) cmp_flip in simp)
    have ar: "cmp x (a' ! nat (r - 1)) \<le> 0"
      using nth [of "r - 1"] rng l(4) cmp_flip [of x "a ! nat l"] by simp
    have le: "cmp (a' ! nat m) x \<le> 0" if "lo \<le> m" "m < l + 1" for m
    proof (cases "m = l")
      case False
      then have "m < l" "m < r - 1" using that True by auto
      then show ?thesis using nth [of m] P that below by auto
    qed (use al in simp)
    have ge: "cmp x (a' ! nat m) \<le> 0" if "r - 1 \<le> m" "m < hi" for m
    proof (cases "m = r - 1")
      case False
      then have "r \<le> m" "m \<noteq> l" using that True by auto
      then show ?thesis using nth [of m] P that above rng by auto
    qed (use ar in simp)
    have "parted cmp a' x lo hi (l + 1) (r - 1)"
      using P rng le ge len by (simp add: parted_def)
    moreover have "sentinels cmp a' x lo hi (l + 1) (r - 1)" if "l + 1 < r - 1"
      unfolding sentinels_def
      using that rng al ar cmp_flip [of x "a' ! nat (r - 1)"] cmp_flip [of "a' ! nat l" x]
      by (intro conjI exI [of _ "r - 1"] exI [of _ l]) auto
    moreover have "seg_perm a a' lo hi"
      unfolding a'_def using rng P by (intro seg_perm_swap) auto
    ultimately show ?thesis using step l(2) r(3) by auto
  qed
qed

lemma partition_loop_correct:
  assumes "parted cmp a x lo hi left right" "sentinels cmp a x lo hi left right" "left < right"
  shows "\<exists>a' l r. partition_loop cmp a x left right = Some (a', l, r) \<and> seg_perm a a' lo hi \<and>
    r \<le> l \<and> left \<le> l \<and> r \<le> right \<and> parted cmp a' x lo hi l r \<and>
    ((\<exists>p. left \<le> p \<and> p < right \<and> cmp (a ! nat p) x = 0) \<longrightarrow> left < l \<and> r < right)"
  using assms
proof (induction "nat (right - left)" arbitrary: a left right rule: less_induct)
  case less
  obtain a1 l1 r1 where s: "partition_step cmp a x left right = Some (a1, l1, r1)" "seg_perm a a1 lo hi"
    "left \<le> l1" "r1 \<le> right" "parted cmp a1 x lo hi l1 r1" "l1 < r1 \<longrightarrow> sentinels cmp a1 x lo hi l1 r1"
    "(\<exists>p. left \<le> p \<and> p < right \<and> cmp (a ! nat p) x = 0) \<longrightarrow> left < l1 \<and> r1 < right"
    using partition_step_correct [OF less.prems] by blast
  show ?case
  proof (cases "l1 < r1")
    case False
    then show ?thesis using s by (subst partition_loop.simps) auto
  next
    case True
    then have "nat (r1 - l1) < nat (right - left)"
      using partition_step_decreases [OF s(1) True] by simp
    then obtain a2 l2 r2 where t: "partition_loop cmp a1 x l1 r1 = Some (a2, l2, r2)" "seg_perm a1 a2 lo hi"
      "r2 \<le> l2" "l1 \<le> l2" "r2 \<le> r1" "parted cmp a2 x lo hi l2 r2"
      using less.hyps [of r1 l1 a1] s True by blast
    have "partition_loop cmp a x left right = Some (a2, l2, r2)"
      using s(1) t(1) True by (subst partition_loop.simps) simp
    moreover have "seg_perm a a2 lo hi" using s(2) t(2) by (rule seg_perm_trans)
    ultimately show ?thesis using s t by fastforce
  qed
qed

lemma sorted_items_le1: "j \<le> i + 1 \<Longrightarrow> sorted_items cmp a i j"
proof -
  assume "j \<le> i + 1"
  then have "k = l" if "i \<le> k" "k \<le> l" "l < j" for k l using that by linarith
  then show ?thesis unfolding sorted_items_def using cmp_refl by (metis order_refl)
qed

lemma sorted_items_cong:
  assumes "sorted_items cmp a i j" "\<And>k. i \<le> k \<Longrightarrow> k < j \<Longrightarrow> b ! nat k = a ! nat k"
  shows "sorted_items cmp b i j"
  using assms by (auto simp: sorted_items_def)

text \<open>Two sorted parts around a pivot make a sorted whole.\<close>

lemma sorted_items_join:
  assumes "sorted_items cmp a lo r" "sorted_items cmp a l hi" "parted cmp a x lo hi l r" "r \<le> l"
  shows "sorted_items cmp a lo hi"
  unfolding sorted_items_def
proof (intro allI impI)
  fix k m assume km: "lo \<le> k \<and> k \<le> m \<and> m < hi"
  note P = assms(3) [unfolded parted_def]
  consider "m < r" | "l \<le> k" | "k < l" "r \<le> m" using assms(4) by linarith
  then show "cmp (a ! nat k) (a ! nat m) \<le> 0"
  proof cases
    case 1
    then show ?thesis using assms(1) km by (simp add: sorted_items_def)
  next
    case 2
    then show ?thesis using assms(2) km by (simp add: sorted_items_def)
  next
    case 3
    then have "cmp (a ! nat k) x \<le> 0" "cmp x (a ! nat m) \<le> 0" using P km by auto
    then show ?thesis by (rule cmp_trans)
  qed
qed

lemma doInsertionSort_segment:
  assumes "0 \<le> i" "i \<le> j" "j \<le> int (length a)"
  shows "\<exists>b. doInsertionSort cmp a i (j - i) = Some b \<and> seg_perm a b i j \<and> sorted_items cmp b i j"
proof -
  let ?P = "take (nat i) a" and ?Q = "drop (nat j) a" and ?x = "seg a i j"
  have a: "a = ?P @ ?x @ ?Q" using split_seg [OF assms] .
  have len: "length ?P = nat i" "length ?x = nat (j - i)" using assms length_seg [of i j a] by auto
  let ?b = "?P @ stable_sort cmp ?x @ ?Q"
  have "doInsertionSort cmp (?P @ ?x @ ?Q) i (j - i) = Some ?b"
    using doInsertionSort_correct [of ?P ?x ?Q] len assms by simp
  then have D: "doInsertionSort cmp a i (j - i) = Some ?b" using a by simp
  have "a ! nat k = ?b ! nat k" if "0 \<le> k" "k < i \<or> j \<le> k" for k
  proof -
    have "(?P @ ?x @ ?Q) ! nat k = ?b ! nat k"
      using that len assms by (auto simp: nth_append)
    then show ?thesis using a by simp
  qed
  moreover have "mset a = mset ?b" "length a = length ?b"
    using a mset_stable_sort [of cmp ?x] length_stable_sort [of cmp ?x]
    by (metis mset_append, metis length_append)
  ultimately have "seg_perm a ?b i j" unfolding seg_perm_def by blast
  moreover have "sorted_items cmp ?b i j"
    using sorted_items_segment [OF cmp_sorted_stable_sort [of ?x], of ?P ?Q] len assms by simp
  ultimately show ?thesis using D by blast
qed

lemma parted_perm:
  assumes "parted cmp a x lo hi l r" "r \<le> l" "seg_perm a b lo r \<or> seg_perm a b l hi"
  shows "parted cmp b x lo hi l r"
proof -
  note P = assms(1) [unfolded parted_def]
  have len: "length b = length a" using assms(3) by (auto simp: seg_perm_length)
  show ?thesis
  proof (cases "seg_perm a b lo r")
    case True
    have "cmp (b ! nat k) x \<le> 0" if "lo \<le> k" "k < l" for k
    proof (cases "k < r")
      case True
      then show ?thesis
        using seg_perm_all [OF \<open>seg_perm a b lo r\<close>, of "\<lambda>y. cmp y x \<le> 0" k] P that assms(2) by auto
    next
      case False
      then show ?thesis using seg_perm_outside [OF \<open>seg_perm a b lo r\<close>, of k] P that by auto
    qed
    moreover have "cmp x (b ! nat k) \<le> 0" if "r \<le> k" "k < hi" for k
      using seg_perm_outside [OF \<open>seg_perm a b lo r\<close>, of k] P that by auto
    ultimately show ?thesis using P len by (simp add: parted_def)
  next
    case False
    then have s: "seg_perm a b l hi" using assms(3) by simp
    have "cmp x (b ! nat k) \<le> 0" if "r \<le> k" "k < hi" for k
    proof (cases "l \<le> k")
      case True
      then show ?thesis
        using seg_perm_all [OF s, of "\<lambda>y. cmp x y \<le> 0" k] P that assms(2) by auto
    next
      case False
      then show ?thesis using seg_perm_outside [OF s, of k] P that by auto
    qed
    moreover have "cmp (b ! nat k) x \<le> 0" if "lo \<le> k" "k < l" for k
      using seg_perm_outside [OF s, of k] P that by auto
    ultimately show ?thesis using P len by (simp add: parted_def)
  qed
qed


lemma subQuickSort_correct:
  assumes "0 \<le> start" "start \<le> limit" "limit \<le> int (length a)"
  shows "\<exists>b. subQuickSort cmp a start limit = Some b \<and> seg_perm a b start limit \<and>
    sorted_items cmp b start limit"
  using assms
proof (induction "nat (limit - start)" arbitrary: a start limit rule: less_induct)
  case less
  show ?case
  proof (cases "start + MIN_QSORT \<ge> limit")
    case True
    then show ?thesis
      using doInsertionSort_segment [OF less.prems] by (subst subQuickSort.simps) simp
  next
    case big: False
    define mid where "mid = (start + limit) div 2"
    define x where "x = a ! nat mid"
    have mid: "start \<le> mid" "mid < limit" using big by (auto simp: mid_def MIN_QSORT_def)
    have rd: "rd a mid = Some x" using mid less.prems by (simp add: x_def)
    have "parted cmp a x start limit start limit" using less.prems by (simp add: parted_def)
    moreover have "sentinels cmp a x start limit start limit"
      unfolding sentinels_def using mid by (auto simp: x_def intro!: exI [of _ mid])
    ultimately obtain a1 l r where p: "partition_loop cmp a x start limit = Some (a1, l, r)"
      "seg_perm a a1 start limit" "r \<le> l" "start < l" "r < limit" "parted cmp a1 x start limit l r"
      using partition_loop_correct [of a x start limit start limit] mid big
      by (auto simp: MIN_QSORT_def x_def)
    have len1: "length a1 = length a" using p(2) by (simp add: seg_perm_length)
    have rng: "start \<le> r" "l \<le> limit" using p(6) by (simp_all add: parted_def)
    have left: "\<exists>b. (if start < r - 1 then subQuickSort cmp c start r else Some c) = Some b \<and>
        seg_perm c b start r \<and> sorted_items cmp b start r" if "length c = length a" for c
      using less.hyps [of r start c] that less.prems p(5) rng sorted_items_le1 [of r start c]
      by (cases "start < r - 1") auto
    have right: "\<exists>b. (if l < limit - 1 then subQuickSort cmp c l limit else Some c) = Some b \<and>
        seg_perm c b l limit \<and> sorted_items cmp b l limit" if "length c = length a" for c
      using less.hyps [of limit l c] that less.prems p(4) rng sorted_items_le1 [of limit l c]
      by (cases "l < limit - 1") auto
    show ?thesis
    proof (cases "r - start < limit - l")
      case True
      obtain b where b: "(if start < r - 1 then subQuickSort cmp a1 start r else Some a1) = Some b"
        "seg_perm a1 b start r" "sorted_items cmp b start r" using left [OF len1] by blast
      have lenb: "length b = length a" using b(2) len1 by (simp add: seg_perm_length)
      obtain c where c: "(if l < limit - 1 then subQuickSort cmp b l limit else Some b) = Some c"
        "seg_perm b c l limit" "sorted_items cmp c l limit" using right [OF lenb] by blast
      have "parted cmp c x start limit l r"
        using parted_perm [OF parted_perm [OF p(6,3) disjI1 [OF b(2)]] p(3) disjI2 [OF c(2)]] .
      moreover have "sorted_items cmp c start r"
        using sorted_items_cong [OF b(3)] seg_perm_outside [OF c(2)] p(3) less.prems lenb p(5) by fastforce
      ultimately have "sorted_items cmp c start limit"
        using sorted_items_join [of c start r l limit x] c(3) p(3) by blast
      moreover have "seg_perm a c start limit"
        using p(2) seg_perm_mono [OF b(2), of start limit] seg_perm_mono [OF c(2), of start limit] rng p(4,5)
        by (meson order_less_imp_le order_refl seg_perm_trans)
      moreover have "subQuickSort cmp a start limit = Some c"
        using big rd p(1) b(1) c(1) True by (subst subQuickSort.simps) (simp add: mid_def)
      ultimately show ?thesis by blast
    next
      case False
      obtain b where b: "(if l < limit - 1 then subQuickSort cmp a1 l limit else Some a1) = Some b"
        "seg_perm a1 b l limit" "sorted_items cmp b l limit" using right [OF len1] by blast
      have lenb: "length b = length a" using b(2) len1 by (simp add: seg_perm_length)
      obtain c where c: "(if start < r - 1 then subQuickSort cmp b start r else Some b) = Some c"
        "seg_perm b c start r" "sorted_items cmp c start r" using left [OF lenb] by blast
      have "parted cmp c x start limit l r"
        using parted_perm [OF parted_perm [OF p(6,3) disjI2 [OF b(2)]] p(3) disjI1 [OF c(2)]] .
      moreover have "sorted_items cmp c l limit"
        using sorted_items_cong [OF b(3)] seg_perm_outside [OF c(2)] p(3,4) less.prems lenb by fastforce
      ultimately have "sorted_items cmp c start limit"
        using sorted_items_join [of c start r l limit x] c(3) p(3) by blast
      moreover have "seg_perm a c start limit"
        using p(2) seg_perm_mono [OF b(2), of start limit] seg_perm_mono [OF c(2), of start limit] rng p(4,5)
        by (meson order_less_imp_le order_refl seg_perm_trans)
      moreover have "subQuickSort cmp a start limit = Some c"
        using big rd p(1) b(1) c(1) False by (subst subQuickSort.simps) (simp add: mid_def)
      ultimately show ?thesis by blast
    qed
  qed
qed

lemma sorted_items_list: "sorted_items cmp a 0 (int (length a)) \<Longrightarrow> cmp_sorted cmp a"
  unfolding sorted_wrt_iff_nth_less
proof (intro allI impI)
  fix i j assume s: "sorted_items cmp a 0 (int (length a))" and ij: "i < j" "j < length a"
  show "cmp (a ! i) (a ! j) \<le> 0"
    using s [unfolded sorted_items_def, rule_format, of "int i" "int j"] ij by simp
qed

text \<open>Sorting succeeds when the memory for the items that it keeps aside is there.\<close>

lemma sortArray_success:
  assumes "0 < itemSize" "\<not> U_FAILURE e"
    "1 < length a \<Longrightarrow> itemSize \<le> STACK_ITEM_SIZE \<or> malloc (if int (length a) < MIN_QSORT \<or> sortStable then itemSize else 2 * itemSize)"
  shows "\<exists>b. uprv_sortArray malloc (Some a) (int (length a)) itemSize (Some cmp) sortStable e =
      Some (Some b, e) \<and> cmp_sorted cmp b \<and> mset b = mset a \<and>
      (sortStable \<longrightarrow> b = stable_sort cmp a)"
proof -
  consider "length a \<le> 1" | "1 < length a" "int (length a) < MIN_QSORT \<or> sortStable"
    | "1 < length a" "\<not> (int (length a) < MIN_QSORT \<or> sortStable)" by linarith
  then show ?thesis
  proof cases
    case 1
    then have "stable_sort cmp a = a" "cmp_sorted cmp a"
      by (cases a; simp add: stable_sort_def insert_after_def)+
    then show ?thesis using assms(1,2) 1 by (simp add: uprv_sortArray_def)
  next
    case 2
    have "doInsertionSort cmp a 0 (int (length a)) = Some (stable_sort cmp a)"
      using doInsertionSort_correct [of "[]" a "[]"] by simp
    then show ?thesis
      using assms 2 cmp_sorted_stable_sort [of a] mset_stable_sort [of cmp a]
      by (auto simp: uprv_sortArray_def insertionSort_def)
  next
    case 3
    obtain b where b: "subQuickSort cmp a 0 (int (length a)) = Some b" "seg_perm a b 0 (int (length a))"
      "sorted_items cmp b 0 (int (length a))"
      using subQuickSort_correct [of 0 "int (length a)" a] by auto
    then show ?thesis
      using assms 3 sorted_items_list [of b]
      by (auto simp: uprv_sortArray_def quickSort_def seg_perm_def)
  qed
qed

lemma sortArray_sorts:
  assumes "0 < itemSize" "\<And>n. malloc n"
  shows "\<exists>b. uprv_sortArray malloc (Some a) (int (length a)) itemSize (Some cmp) sortStable U_ZERO_ERROR =
      Some (Some b, U_ZERO_ERROR) \<and> cmp_sorted cmp b \<and> mset b = mset a \<and>
      (sortStable \<longrightarrow> b = stable_sort cmp a)"
  using assms by (intro sortArray_success) simp_all

end

section \<open>The comparators of the file\<close>

interpretation uint16: comparator uprv_uint16Comparator
  by unfold_locales (auto simp: uprv_uint16Comparator_def)

interpretation uint32: comparator uprv_uint32Comparator
  by unfold_locales (auto simp: uprv_uint32Comparator_def split: if_splits)

section \<open>Properties\<close>

text \<open>
  C3: with a comparator that is a total preorder, \<open>uprv_sortArray\<close> returns (both sorts
  terminate and stay inside the array), the result is sorted, a permutation of the input, and
  with \<open>sortStable\<close> equal items keep their order.
\<close>
theorem uprv_sortArray_sorts:
  assumes "comparator cmp" "0 < itemSize" "\<And>n. malloc n"
  shows "\<exists>b. uprv_sortArray malloc (Some a) (int (length a)) itemSize (Some cmp) sortStable U_ZERO_ERROR =
      Some (Some b, U_ZERO_ERROR) \<and> cmp_sorted cmp b \<and> mset b = mset a \<and>
      (sortStable \<longrightarrow> (\<forall>x. filter (\<lambda>y. cmp x y = 0) b = filter (\<lambda>y. cmp x y = 0) a))"
proof -
  obtain b where b: "uprv_sortArray malloc (Some a) (int (length a)) itemSize (Some cmp) sortStable
        U_ZERO_ERROR = Some (Some b, U_ZERO_ERROR)"
    "cmp_sorted cmp b" "mset b = mset a" "sortStable \<longrightarrow> b = stable_sort cmp a"
    using comparator.sortArray_sorts [where malloc = malloc and a = a and sortStable = sortStable,
      OF assms(1,2)] assms(3) by blast
  have "sortStable \<longrightarrow> (\<forall>x. filter (\<lambda>y. cmp x y = 0) b = filter (\<lambda>y. cmp x y = 0) a)"
    using b(4) comparator.stable_sort_stable [OF assms(1)] by simp
  with b(1-3) show ?thesis by blast
qed

theorem uprv_sortArray_sorts_witness:
  "\<exists>b. uprv_sortArray (\<lambda>n. True) (Some [7, 3, 9, 1, 8, 2, 6, 4, 5, 0, 11, 10]) 12 4
      (Some uprv_uint32Comparator) False U_ZERO_ERROR = Some (Some b, U_ZERO_ERROR) \<and>
    cmp_sorted uprv_uint32Comparator b \<and> mset b = mset [7, 3, 9, 1, 8, 2, 6, 4, 5, 0, 11, 10]"
proof -
  let ?a = "[7, 3, 9, 1, 8, 2, 6, 4, 5, 0, 11, 10] :: u32 list"
  have len: "int (length ?a) = 12" by simp
  obtain b where "uprv_sortArray (\<lambda>n. True) (Some ?a) (int (length ?a)) 4 (Some uprv_uint32Comparator)
      False U_ZERO_ERROR = Some (Some b, U_ZERO_ERROR)"
    "cmp_sorted uprv_uint32Comparator b" "mset b = mset ?a"
    using uprv_sortArray_sorts [OF uint32.comparator_axioms, of 4 "\<lambda>n. True" ?a False]
    by (elim exE conjE meta_impE) (rule zero_less_numeral TrueI | blast)+
  then show ?thesis unfolding len by blast
qed

text \<open>C21: The search, over a sorted array, always returns: the index of the last item equal to the
  one sought when there is one, and otherwise the bitwise complement of the number of smaller items,
  which is the insertion point.\<close>
theorem uprv_stableBinarySearch_finds:
  assumes "comparator cmp" "cmp_sorted cmp ys"
  shows "\<exists>r. uprv_stableBinarySearch cmp ys 0 (int (length ys)) item = Some r \<and>
    (if 0 \<le> r then nat r < length ys \<and> cmp item (ys ! nat r) = 0 \<and>
         (\<forall>k < length ys. nat r < k \<longrightarrow> cmp item (ys ! k) < 0)
     else NOT r = int (length (takeWhile (\<lambda>y. cmp y item < 0) ys)) \<and>
         (\<forall>y \<in> set ys. cmp item y \<noteq> 0))"
proof -
  let ?n = "int (length ys)"
  have "sorted_items cmp ys 0 (0 + ?n)"
    using comparator.sorted_items_segment [OF assms, of "[]" "[]"] by simp
  then obtain r p where r: "uprv_stableBinarySearch cmp ys 0 ?n item = Some r" and p: "0 \<le> p" "p \<le> ?n"
    and le: "\<forall>k. 0 \<le> k \<and> k < p \<longrightarrow> cmp (item_at ys 0 k) item \<le> 0"
    and gt: "\<forall>k. p \<le> k \<and> k < ?n \<longrightarrow> cmp item (item_at ys 0 k) < 0"
    and rp: "if 0 \<le> r then r = p - 1 \<and> cmp item (item_at ys 0 r) = 0
       else NOT r = p \<and> (\<forall>k. 0 \<le> k \<and> k < ?n \<longrightarrow> cmp item (item_at ys 0 k) \<noteq> 0)"
    using comparator.stableBinarySearch_correct [OF assms(1), of ys 0 ?n item] by auto
  show ?thesis
  proof (cases "0 \<le> r")
    case True
    have "cmp item (ys ! k) < 0" if "k < length ys" "nat r < k" for k
      using gt [rule_format, of "int k"] that rp True by (simp add: item_at_def)
    then show ?thesis using r True rp p by (auto simp: item_at_def)
  next
    case False
    then have none: "cmp item (ys ! k) \<noteq> 0" if "k < length ys" for k
      using rp [unfolded item_at_def] that by (auto dest!: spec [of _ "int k"])
    have lt: "cmp (ys ! k) item < 0" if "k < nat p" for k
    proof -
      have "cmp (ys ! k) item \<le> 0" "k < length ys"
        using le [rule_format, of "int k"] that p by (auto simp: item_at_def)
      then show ?thesis using none [of k] comparator.cmp_eq_sym [OF assms(1), of "ys ! k" item] by fastforce
    qed
    have nlt: "\<not> cmp (ys ! k) item < 0" if k: "nat p \<le> k" "k < length ys" for k
    proof -
      have "cmp item (ys ! k) < 0"
        using gt [rule_format, of "int k"] k p by (simp add: item_at_def)
      then have "0 < cmp (ys ! k) item" by (simp only: comparator.cmp_sym [OF assms(1)])
      then show ?thesis by simp
    qed
    have "length (takeWhile (\<lambda>y. cmp y item < 0) ys) = nat p"
      using take_eq_takeWhile(1) [of "nat p" ys "\<lambda>y. cmp y item < 0"] lt nlt p by simp
    then show ?thesis using r False rp p none by (auto simp: in_set_conv_nth)
  qed
qed

theorem uprv_stableBinarySearch_finds_witness:
  "\<exists>r. uprv_stableBinarySearch uprv_uint32Comparator [1, 3, 3, 7] 0 4 3 = Some r \<and> r = 2"
proof -
  have "cmp_sorted uprv_uint32Comparator [1, 3, 3, 7]" by (simp add: uprv_uint32Comparator_def)
  from uprv_stableBinarySearch_finds [OF uint32.comparator_axioms this, of 3]
  obtain r where r: "uprv_stableBinarySearch uprv_uint32Comparator [1, 3, 3, 7] 0 4 3 = Some r"
    "if 0 \<le> r then nat r < 4 \<and> uprv_uint32Comparator 3 ([1, 3, 3, 7] ! nat r) = 0 \<and>
       (\<forall>k < 4. nat r < k \<longrightarrow> uprv_uint32Comparator 3 ([1, 3, 3, 7] ! k) < 0)
     else (\<forall>y \<in> set [1, 3, 3, 7]. uprv_uint32Comparator 3 y \<noteq> 0)" by (auto split: if_splits)
  have "r = 2" 
    using r by (simp add: uprv_stableBinarySearch_def bsearch_halve.simps bsearch_linear.simps
      MIN_QSORT_def rd_def uprv_uint32Comparator_def)
  with r(1) show ?thesis by blast
qed

text \<open>Without the memory for an item the array stays as it is.\<close>

lemma sortArray_no_memory:
  assumes "\<not> U_FAILURE e" "1 < len" "STACK_ITEM_SIZE < itemSize"
    "\<not> malloc (if len < MIN_QSORT \<or> sortStable then itemSize else 2 * itemSize)"
  shows "uprv_sortArray malloc (Some a) len itemSize (Some cmp) sortStable e = Some (Some a, U_MEMORY_ALLOCATION_ERROR)"
  using assms by (auto simp: uprv_sortArray_def insertionSort_def quickSort_def STACK_ITEM_SIZE_def)

text \<open>
  C22: The outcome of \<open>uprv_sortArray\<close> for all arguments and all outcomes of \<open>malloc\<close>. It always returns. After an earlier
  error nothing happens. Otherwise there is an illegal argument error exactly for an array that is missing, a negative
  length, an item size that is not positive or a missing comparator; a memory error exactly when there are two items or more
  that are larger than the buffer on the stack and \<open>malloc\<close> fails for one item (insertion sort) or two (quicksort);
  no other error; and any error leaves the array alone. Without an error the array is sorted, also when some error code that is
  only a warning is passed in, which then stays.
\<close>
theorem uprv_sortArray_error:
  fixes array :: "'a list option" and cmp :: "('a \<Rightarrow> 'a \<Rightarrow> int) option" and len itemSize :: int
    and malloc :: "int \<Rightarrow> bool" and sortStable :: bool and e :: UErrorCode
  assumes "\<And>c. cmp = Some c \<Longrightarrow> comparator c" "\<And>a. array = Some a \<Longrightarrow> 0 \<le> len \<Longrightarrow> len = int (length a)"
  defines "illegal \<equiv> 0 < len \<and> array = None \<or> len < 0 \<or> itemSize \<le> 0 \<or> cmp = None"
    and "no_memory \<equiv> 1 < len \<and> STACK_ITEM_SIZE < itemSize \<and> \<not> malloc (if len < MIN_QSORT \<or> sortStable then itemSize else 2 * itemSize)"
  shows "\<exists>array' e'. uprv_sortArray malloc array len itemSize cmp sortStable e = Some (array', e') \<and>
    e' = (if U_FAILURE e then e else if illegal then U_ILLEGAL_ARGUMENT_ERROR else if no_memory then U_MEMORY_ALLOCATION_ERROR else e) \<and>
    (if U_FAILURE e' then array' = array
     else case array of None \<Rightarrow> array' = None
       | Some a \<Rightarrow> \<exists>b. array' = Some b \<and> cmp_sorted (the cmp) b \<and> mset b = mset a \<and>
           (sortStable \<longrightarrow> (\<forall>x. filter (\<lambda>y. the cmp x y = 0) b = filter (\<lambda>y. the cmp x y = 0) a)))"
proof -
  consider "U_FAILURE e \<or> illegal" | (empty) "\<not> U_FAILURE e" "\<not> illegal" "array = None"
    | (array) a c where "\<not> U_FAILURE e" "\<not> illegal" "array = Some a" "cmp = Some c"
    by (cases array; cases cmp) (auto simp: illegal_def)
  then show ?thesis
  proof cases
    case 1
    then show ?thesis by (auto simp: uprv_sortArray_def illegal_def)
  next
    case empty
    then show ?thesis by (auto simp: uprv_sortArray_def illegal_def no_memory_def)
  next
    case array
    then have len: "len = int (length a)" and size: "0 < itemSize" and c: "comparator c" using assms(1,2) by (auto simp: illegal_def)
    show ?thesis
    proof (cases no_memory)
      case True
      then show ?thesis using sortArray_no_memory [of e len itemSize malloc sortStable a c] array by (simp add: no_memory_def)
    next
      case False
      then obtain b where b: "uprv_sortArray malloc array len itemSize cmp sortStable e = Some (Some b, e)"
        "cmp_sorted c b" "mset b = mset a" "sortStable \<longrightarrow> b = stable_sort c a"
        using comparator.sortArray_success [OF c size array(1), of a malloc sortStable] array(3,4)
        unfolding no_memory_def len by (auto simp: not_less)
      then show ?thesis using array False comparator.stable_sort_stable [OF c] by auto
    qed
  qed
qed

theorem uprv_sortArray_error_witness:
  "uprv_sortArray (\<lambda>n. n < 400) (Some [2, 1]) 2 201 (Some uprv_uint32Comparator) True U_ZERO_ERROR = Some (Some [1, 2], U_ZERO_ERROR) \<and>
   uprv_sortArray (\<lambda>n. False) (Some [2, 1]) 2 201 (Some uprv_uint32Comparator) True U_ZERO_ERROR = Some (Some [2, 1], U_MEMORY_ALLOCATION_ERROR)"
proof -
  have two: "b = [1, 2]" if "mset b = mset [2, 1 :: u32]" "cmp_sorted uprv_uint32Comparator b" for b
  proof -
    have "length b = 2" "set b = {1, 2}" using that(1) mset_eq_length mset_eq_setD by fastforce+
    then obtain x y where "b = [x, y]" "{x, y} = {1, 2}" by (auto simp: length_Suc_conv numeral_2_eq_2)
    then show ?thesis using that(2) by (auto simp: uprv_uint32Comparator_def doubleton_eq_iff)
  qed
  have ok: "\<And>c. Some uprv_uint32Comparator = Some c \<Longrightarrow> comparator c" using uint32.comparator_axioms by simp
  from uprv_sortArray_error [where cmp = "Some uprv_uint32Comparator" and array = "Some [2, 1]" and len = 2 and itemSize = 201 and malloc = "\<lambda>n. n < 400" and sortStable = True and e = U_ZERO_ERROR, OF ok]
    uprv_sortArray_error [where cmp = "Some uprv_uint32Comparator" and array = "Some [2, 1]" and len = 2 and itemSize = 201 and malloc = "\<lambda>n. False" and sortStable = True and e = U_ZERO_ERROR, OF ok]
  show ?thesis using two by (auto simp: STACK_ITEM_SIZE_def MIN_QSORT_def)
qed

text \<open>
  \<open>uprv_int32Comparator\<close> computes the true difference exactly when the difference fits
  an \<open>int32_t\<close>.
\<close>
theorem uprv_int32Comparator_exact:
  "uprv_int32Comparator l r = sint l - sint r \<longleftrightarrow>
     - (2 ^ 31) \<le> sint l - sint r \<and> sint l - sint r < 2 ^ 31"
proof -
  have eq: "uprv_int32Comparator l r = signed_take_bit 31 (sint l - sint r)"
    by (simp add: uprv_int32Comparator_def sint_word_diff)
  have ge: "- (2 ^ 31) \<le> uprv_int32Comparator l r" and lt: "uprv_int32Comparator l r < 2 ^ 31"
    using sint_ge [of "l - r"] sint_lt [of "l - r"] by (simp_all add: uprv_int32Comparator_def)
  show ?thesis
  proof
    assume "uprv_int32Comparator l r = sint l - sint r"
    with ge lt show "- (2 ^ 31) \<le> sint l - sint r \<and> sint l - sint r < 2 ^ 31" by simp
  next
    assume "- (2 ^ 31) \<le> sint l - sint r \<and> sint l - sint r < 2 ^ 31"
    then show "uprv_int32Comparator l r = sint l - sint r"
      unfolding eq by (intro signed_take_bit_int_eq_self) auto
  qed
qed

text \<open>so it is not a total preorder on all values of the type.\<close>
lemma uprv_int32Comparator_not_order: "\<not> comparator uprv_int32Comparator"
proof
  assume c: "comparator uprv_int32Comparator"
  have pos: "uprv_int32Comparator 0x80000000 1 = 0x7fffffff"
    by (simp add: uprv_int32Comparator_def)
  have "uprv_int32Comparator 0x80000000 0 \<le> 0" "uprv_int32Comparator 0 1 \<le> 0"
    by (simp_all add: uprv_int32Comparator_def)
  from comparator.cmp_trans [OF c this] pos show False by simp
qed

end
