(* ===== verification/Uhash.thy ===== *)
theory Uhash
  imports Utf8
begin

text \<open>
  The hash table of \<open>uhash.c\<close>: open addressing with a secondary hash, deleted-slot markers,
  prime table sizes and growth and shrinking at the water marks. A token (\<open>UHashTok\<close>, the
  union of a pointer and an \<open>int32_t\<close>) is the 64-bit word that the union occupies: the pointer
  is the whole word, the integer its low half; storing an integer clears the high half.
  NULL is 0. The array of elements is a list, empty for the NULL pointer (an allocated array
  has at least 13 slots). A hash code in the table is the \<open>int32_t\<close> value as an \<open>int\<close>.
  A pointer to a slot is its index, the NULL pointer \<open>None\<close>; each operation returns \<open>None\<close> where
  the code would read outside the array, dereference NULL or not return.
  The deleters are modelled by the list of the objects that they were called on, in order.
\<close>

section \<open>Data\<close>

type_synonym UHashTok = "64 word"

definition tok_integer :: "UHashTok \<Rightarrow> u32" where
  "tok_integer t = ucast t"

definition integer_tok :: "u32 \<Rightarrow> UHashTok" where
  "integer_tok i = ucast i"

record UHashElement =
  el_hashcode :: int
  el_value :: UHashTok
  el_key :: UHashTok

datatype UHashResizePolicy = U_GROW | U_GROW_AND_SHRINK | U_FIXED

datatype deletion = Deleted_key UHashTok | Deleted_value UHashTok

text \<open>The ratios are \<open>float\<close> values, given as multiples of \<open>2 ^ -27\<close>.\<close>

record UHashtable =
  elements :: "UHashElement list"
  keyHasher :: "UHashTok \<Rightarrow> u32"
  keyComparator :: "UHashTok \<Rightarrow> UHashTok \<Rightarrow> bool"
  valueComparator :: "(UHashTok \<Rightarrow> UHashTok \<Rightarrow> bool) option"
  keyDeleter :: bool
  valueDeleter :: bool
  ht_count :: int
  ht_length :: int
  highWaterMark :: int
  lowWaterMark :: int
  highWaterRatio :: int
  lowWaterRatio :: int
  primeIndex :: int
  allocated :: bool
  deletions :: "deletion list"

definition PRIMES :: "int list" where
  "PRIMES = [13, 31, 61, 127, 251, 509, 1021, 2039, 4093, 8191, 16381, 32749,
     65521, 131071, 262139, 524287, 1048573, 2097143, 4194301, 8388593,
     16777213, 33554393, 67108859, 134217689, 268435399, 536870909,
     1073741789, 2147483647]"

definition PRIMES_LENGTH :: int where "PRIMES_LENGTH = 28"

definition DEFAULT_PRIME_INDEX :: int where "DEFAULT_PRIME_INDEX = 3"

text \<open>\<open>0.1F\<close> is 13421773 times \<open>2 ^ -27\<close>.\<close>

definition RESIZE_POLICY_RATIO_TABLE :: "int list" where
  "RESIZE_POLICY_RATIO_TABLE = [0, 2 ^ 26, 13421773, 2 ^ 26, 0, 2 ^ 27]"

definition HASH_DELETED :: int where "HASH_DELETED = - (2 ^ 31)"

definition HASH_EMPTY :: int where "HASH_EMPTY = HASH_DELETED + 1"

definition IS_EMPTY_OR_DELETED :: "int \<Rightarrow> bool" where
  "IS_EMPTY_OR_DELETED x \<longleftrightarrow> x < 0"

definition HINT_KEY_POINTER :: int where "HINT_KEY_POINTER = 1"

definition HINT_VALUE_POINTER :: int where "HINT_VALUE_POINTER = 2"

text \<open>Rounding of a non-negative integer to the 24 significant bits of a \<open>float\<close>, ties to even.\<close>

function float_round :: "int \<Rightarrow> int" where
  "float_round x =
     (if x < 2 ^ 24 then x
      else if x < 2 ^ 25
      then (let h = x div 2 in if x mod 2 = 0 then x else if h mod 2 = 0 then 2 * h else 2 * (h + 1))
      else 2 * float_round (x div 2 OR (x mod 2)))"
  by pat_completeness auto

termination
proof (relation "measure nat")
  fix x :: int
  assume "\<not> x < 2 ^ 24" "\<not> x < 2 ^ 25"
  moreover have "x div 2 OR (x mod 2) \<le> x div 2 + 1"
  proof -
    have "x div 2 OR 1 \<le> x div 2 + 1"
      using or_one_eq [of "x div 2"] by (auto simp: of_bool_def)
    moreover have "x mod 2 = 0 \<or> x mod 2 = 1" by auto
    ultimately show ?thesis by (elim disjE) auto
  qed
  ultimately show "(x div 2 OR (x mod 2), x) \<in> measure nat" by auto
qed simp

text \<open>\<open>(int32_t)(length * ratio)\<close>: two roundings, then the cast truncates.\<close>

definition water_mark :: "int \<Rightarrow> int \<Rightarrow> int" where
  "water_mark len ratio = float_round (float_round len * ratio) div 2 ^ 27"

section \<open>Operations\<close>

definition uhash_setElement ::
  "UHashtable \<Rightarrow> int \<Rightarrow> int \<Rightarrow> UHashTok \<Rightarrow> UHashTok \<Rightarrow> int \<Rightarrow> (UHashtable \<times> UHashTok) option" where
  "uhash_setElement hash e hashcode key val hint = do {
     el \<leftarrow> rd (elements hash) e;
     let oldValue = el_value el;
     let log1 = (if keyDeleter hash \<and> el_key el \<noteq> 0 \<and> el_key el \<noteq> key then [Deleted_key (el_key el)] else []);
     let log2 = (if valueDeleter hash \<and> oldValue \<noteq> 0 \<and> oldValue \<noteq> val then [Deleted_value oldValue] else []);
     let oldValue = (if valueDeleter hash then 0 else oldValue);
     els \<leftarrow> wr (elements hash) e \<lparr>el_hashcode = hashcode, el_value = val, el_key = key\<rparr>;
     Some (hash\<lparr>elements := els, deletions := deletions hash @ log1 @ log2\<rparr>, oldValue) }"

definition uhash_internalRemoveElement :: "UHashtable \<Rightarrow> int \<Rightarrow> (UHashtable \<times> UHashTok) option" where
  "uhash_internalRemoveElement hash e =
     uhash_setElement (hash\<lparr>ht_count := ht_count hash - 1\<rparr>) e HASH_DELETED 0 0 0"

fun policy_index :: "UHashResizePolicy \<Rightarrow> int" where
  "policy_index U_GROW = 0"
| "policy_index U_GROW_AND_SHRINK = 1"
| "policy_index U_FIXED = 2"

definition uhash_internalSetResizePolicy :: "UHashtable \<Rightarrow> UHashResizePolicy \<Rightarrow> UHashtable option" where
  "uhash_internalSetResizePolicy hash policy = do {
     lo \<leftarrow> rd RESIZE_POLICY_RATIO_TABLE (policy_index policy * 2);
     hi \<leftarrow> rd RESIZE_POLICY_RATIO_TABLE (policy_index policy * 2 + 1);
     Some (hash\<lparr>lowWaterRatio := lo, highWaterRatio := hi\<rparr>) }"

definition empty_element :: UHashElement where
  "empty_element = \<lparr>el_hashcode = HASH_EMPTY, el_value = 0, el_key = 0\<rparr>"

text \<open>\<open>malloc n\<close> says whether \<open>uprv_malloc\<close> can give \<open>n\<close> bytes; an element has 24 bytes.\<close>

definition uhash_allocate ::
  "(int \<Rightarrow> bool) \<Rightarrow> UHashtable \<Rightarrow> int \<Rightarrow> UErrorCode \<Rightarrow> (UHashtable \<times> UErrorCode) option" where
  "uhash_allocate malloc hash primeIdx status =
     (if U_FAILURE status then Some (hash, status)
      else do {
        len \<leftarrow> rd PRIMES primeIdx;
        let hash = hash\<lparr>primeIndex := primeIdx, ht_length := len\<rparr>;
        if \<not> malloc (24 * len) then Some (hash\<lparr>elements := []\<rparr>, U_MEMORY_ALLOCATION_ERROR)
        else Some (hash\<lparr>elements := replicate (nat len) empty_element,
                        ht_count := 0,
                        lowWaterMark := water_mark len (lowWaterRatio hash),
                        highWaterMark := water_mark len (highWaterRatio hash)\<rparr>, status) })"

text \<open>The record that \<open>_uhash_init\<close> fills in before it allocates.\<close>

definition init_table ::
  "(UHashTok \<Rightarrow> u32) \<Rightarrow> (UHashTok \<Rightarrow> UHashTok \<Rightarrow> bool) \<Rightarrow> (UHashTok \<Rightarrow> UHashTok \<Rightarrow> bool) option \<Rightarrow> UHashtable" where
  "init_table keyHash keyComp valueComp =
     \<lparr>elements = [], keyHasher = keyHash, keyComparator = keyComp, valueComparator = valueComp,
      keyDeleter = False, valueDeleter = False, ht_count = 0, ht_length = 0,
      highWaterMark = 0, lowWaterMark = 0, highWaterRatio = 0, lowWaterRatio = 0,
      primeIndex = 0, allocated = False, deletions = []\<rparr>"

definition uhash_init_at ::
  "(int \<Rightarrow> bool) \<Rightarrow> (UHashTok \<Rightarrow> u32) \<Rightarrow> (UHashTok \<Rightarrow> UHashTok \<Rightarrow> bool) \<Rightarrow>
   (UHashTok \<Rightarrow> UHashTok \<Rightarrow> bool) option \<Rightarrow> int \<Rightarrow> UErrorCode \<Rightarrow> (UHashtable option \<times> UErrorCode) option" where
  "uhash_init_at malloc keyHash keyComp valueComp primeIdx status =
     (if U_FAILURE status then Some (None, status)
      else do {
        hash \<leftarrow> uhash_internalSetResizePolicy (init_table keyHash keyComp valueComp) U_GROW;
        (hash, status) \<leftarrow> uhash_allocate malloc hash primeIdx status;
        Some (if U_FAILURE status then None else Some hash, status) })"

text \<open>\<open>sizeof(UHashtable)\<close> is 80 bytes on a 64-bit platform.\<close>

definition uhash_create ::
  "(int \<Rightarrow> bool) \<Rightarrow> (UHashTok \<Rightarrow> u32) \<Rightarrow> (UHashTok \<Rightarrow> UHashTok \<Rightarrow> bool) \<Rightarrow>
   (UHashTok \<Rightarrow> UHashTok \<Rightarrow> bool) option \<Rightarrow> int \<Rightarrow> UErrorCode \<Rightarrow> (UHashtable option \<times> UErrorCode) option" where
  "uhash_create malloc keyHash keyComp valueComp primeIdx status =
     (if U_FAILURE status then Some (None, status)
      else if \<not> malloc 80 then Some (None, U_MEMORY_ALLOCATION_ERROR)
      else do {
        (r, status) \<leftarrow> uhash_init_at malloc keyHash keyComp valueComp primeIdx status;
        Some (map_option (\<lambda>hash. hash\<lparr>allocated := True\<rparr>) r, status) })"

text \<open>
  The probing loop of \<open>_uhash_find\<close>. It ends at a slot with the key (\<open>Inl\<close>), or with the
  index, the hash code last seen and the first deleted slot (\<open>Inr\<close>).
\<close>

partial_function (option) find_loop ::
  "UHashtable \<Rightarrow> UHashTok \<Rightarrow> int \<Rightarrow> int \<Rightarrow> int \<Rightarrow> int \<Rightarrow> int \<Rightarrow> (int + int \<times> int \<times> int) option" where
  "find_loop hash key hashcode startIndex jump theIndex firstDeleted =
     Option.bind (rd (elements hash) theIndex) (\<lambda>el.
       if el_hashcode el = hashcode \<and> keyComparator hash key (el_key el) then Some (Inl theIndex)
       else if el_hashcode el \<noteq> hashcode \<and> el_hashcode el = HASH_EMPTY
       then Some (Inr (theIndex, el_hashcode el, firstDeleted))
       else
         let firstDeleted' = (if el_hashcode el \<noteq> hashcode \<and> IS_EMPTY_OR_DELETED (el_hashcode el) \<and> firstDeleted < 0
                              then theIndex else firstDeleted);
             jump' = (if jump = 0 then hashcode mod (ht_length hash - 1) + 1 else jump);
             theIndex' = (theIndex + jump') mod ht_length hash
         in if theIndex' \<noteq> startIndex
            then find_loop hash key hashcode startIndex jump' theIndex' firstDeleted'
            else Some (Inr (theIndex', el_hashcode el, firstDeleted')))"

text \<open>The pointer to the slot: \<open>Some None\<close> for NULL.\<close>

definition uhash_find_slot :: "UHashtable \<Rightarrow> UHashTok \<Rightarrow> u32 \<Rightarrow> int option option" where
  "uhash_find_slot hash key hashcode =
     (let hashcode = uint (hashcode AND 0x7FFFFFFF);
          startIndex = (hashcode XOR 0x4000000) mod ht_length hash
      in Option.bind (find_loop hash key hashcode startIndex 0 startIndex (-1)) (\<lambda>r.
           Some (case r of
               Inl i \<Rightarrow> Some i
             | Inr (theIndex, tableHash, firstDeleted) \<Rightarrow>
                 if 0 \<le> firstDeleted then Some firstDeleted
                 else if tableHash \<noteq> HASH_EMPTY then None
                 else Some theIndex)))"

text \<open>The loop of \<open>_uhash_rehash\<close> over the old array, from the index \<open>n - 1\<close> down to 0.\<close>

fun rehash_loop :: "UHashElement list \<Rightarrow> UHashtable \<Rightarrow> nat \<Rightarrow> UHashtable option" where
  "rehash_loop old hash 0 = Some hash"
| "rehash_loop old hash (Suc i) = do {
     o' \<leftarrow> rd old (int i);
     if IS_EMPTY_OR_DELETED (el_hashcode o') then rehash_loop old hash i
     else do {
       p \<leftarrow> uhash_find_slot hash (el_key o') (word_of_int (el_hashcode o'));
       e \<leftarrow> p;
       els \<leftarrow> wr (elements hash) e o';
       rehash_loop old (hash\<lparr>elements := els, ht_count := ht_count hash + 1\<rparr>) i } }"

definition uhash_rehash ::
  "(int \<Rightarrow> bool) \<Rightarrow> UHashtable \<Rightarrow> UErrorCode \<Rightarrow> (UHashtable \<times> UErrorCode) option" where
  "uhash_rehash malloc hash status =
     (let old = elements hash;
          oldLength = ht_length hash;
          newPrimeIndex = (if ht_count hash > highWaterMark hash then primeIndex hash + 1
                           else primeIndex hash - 1)
      in if ht_count hash > highWaterMark hash \<and> newPrimeIndex \<ge> PRIMES_LENGTH
            \<or> \<not> ht_count hash > highWaterMark hash \<and> (\<not> ht_count hash < lowWaterMark hash \<or> newPrimeIndex < 0)
         then Some (hash, status)
         else do {
           (hash, status) \<leftarrow> uhash_allocate malloc hash newPrimeIndex status;
           if U_FAILURE status then Some (hash\<lparr>elements := old, ht_length := oldLength\<rparr>, status)
           else do {
             hash \<leftarrow> rehash_loop old hash (nat oldLength);
             Some (hash, status) } })"

definition uhash_remove_tok :: "(int \<Rightarrow> bool) \<Rightarrow> UHashtable \<Rightarrow> UHashTok \<Rightarrow> (UHashtable \<times> UHashTok) option" where
  "uhash_remove_tok malloc hash key = do {
     p \<leftarrow> uhash_find_slot hash key (keyHasher hash key);
     e \<leftarrow> p;
     el \<leftarrow> rd (elements hash) e;
     if IS_EMPTY_OR_DELETED (el_hashcode el) then Some (hash, 0)
     else do {
       (hash, result) \<leftarrow> uhash_internalRemoveElement hash e;
       if ht_count hash < lowWaterMark hash then do {
         (hash, status) \<leftarrow> uhash_rehash malloc hash U_ZERO_ERROR;
         Some (hash, result) }
       else Some (hash, result) } }"

text \<open>The exit \<open>err\<close> of \<open>_uhash_put\<close> deletes the adopted key and value.\<close>

definition put_err :: "UHashtable \<Rightarrow> UHashTok \<Rightarrow> UHashTok \<Rightarrow> UErrorCode \<Rightarrow> (UHashtable \<times> UHashTok \<times> UErrorCode) option" where
  "put_err hash key val status =
     Some (hash\<lparr>deletions := deletions hash
             @ (if keyDeleter hash \<and> key \<noteq> 0 then [Deleted_key key] else [])
             @ (if valueDeleter hash \<and> val \<noteq> 0 then [Deleted_value val] else [])\<rparr>, 0, status)"

definition uhash_put_tok ::
  "(int \<Rightarrow> bool) \<Rightarrow> UHashtable \<Rightarrow> UHashTok \<Rightarrow> UHashTok \<Rightarrow> int \<Rightarrow> UErrorCode \<Rightarrow>
   (UHashtable \<times> UHashTok \<times> UErrorCode) option" where
  "uhash_put_tok malloc hash key val hint status =
     (if U_FAILURE status then put_err hash key val status
      else if hint AND HINT_VALUE_POINTER \<noteq> 0 \<and> val = 0
      then do { (hash, old) \<leftarrow> uhash_remove_tok malloc hash key; Some (hash, old, status) }
      else do {
        (hash, status) \<leftarrow> (if ht_count hash > highWaterMark hash then uhash_rehash malloc hash status
                            else Some (hash, status));
        if U_FAILURE status then put_err hash key val status
        else do {
          let hashcode = keyHasher hash key;
          p \<leftarrow> uhash_find_slot hash key hashcode;
          e \<leftarrow> p;
          el \<leftarrow> rd (elements hash) e;
          if IS_EMPTY_OR_DELETED (el_hashcode el) \<and> ht_count hash + 1 = ht_length hash
          then put_err hash key val U_MEMORY_ALLOCATION_ERROR
          else do {
            let hash = (if IS_EMPTY_OR_DELETED (el_hashcode el) then hash\<lparr>ht_count := ht_count hash + 1\<rparr> else hash);
            (hash, old) \<leftarrow> uhash_setElement hash e (uint (hashcode AND 0x7FFFFFFF)) key val hint;
            Some (hash, old, status) } } })"

section \<open>Public functions\<close>

definition uhash_open where
  "uhash_open malloc keyHash keyComp valueComp status =
     uhash_create malloc keyHash keyComp valueComp DEFAULT_PRIME_INDEX status"

text \<open>The search for the smallest index whose prime is at least the size.\<close>

function openSize_index :: "int \<Rightarrow> int \<Rightarrow> int option" where
  "openSize_index sz i =
     (if i < PRIMES_LENGTH - 1
      then do { p \<leftarrow> rd PRIMES i; if p < sz then openSize_index sz (i + 1) else Some i }
      else Some i)"
  by pat_completeness auto
termination by (relation "measure (\<lambda>(sz, i). nat (PRIMES_LENGTH - i))") auto

definition uhash_openSize where
  "uhash_openSize malloc keyHash keyComp valueComp sz status = do {
     i \<leftarrow> openSize_index sz 0;
     uhash_create malloc keyHash keyComp valueComp i status }"

definition uhash_init where
  "uhash_init malloc keyHash keyComp valueComp status =
     uhash_init_at malloc keyHash keyComp valueComp DEFAULT_PRIME_INDEX status"

definition uhash_setKeyHasher :: "UHashtable \<Rightarrow> (UHashTok \<Rightarrow> u32) \<Rightarrow> UHashtable \<times> (UHashTok \<Rightarrow> u32)" where
  "uhash_setKeyHasher hash fn = (hash\<lparr>keyHasher := fn\<rparr>, keyHasher hash)"

definition uhash_setKeyComparator ::
  "UHashtable \<Rightarrow> (UHashTok \<Rightarrow> UHashTok \<Rightarrow> bool) \<Rightarrow> UHashtable \<times> (UHashTok \<Rightarrow> UHashTok \<Rightarrow> bool)" where
  "uhash_setKeyComparator hash fn = (hash\<lparr>keyComparator := fn\<rparr>, keyComparator hash)"

definition uhash_setValueComparator ::
  "UHashtable \<Rightarrow> (UHashTok \<Rightarrow> UHashTok \<Rightarrow> bool) option \<Rightarrow> UHashtable \<times> (UHashTok \<Rightarrow> UHashTok \<Rightarrow> bool) option" where
  "uhash_setValueComparator hash fn = (hash\<lparr>valueComparator := fn\<rparr>, valueComparator hash)"

definition uhash_setKeyDeleter :: "UHashtable \<Rightarrow> bool \<Rightarrow> UHashtable \<times> bool" where
  "uhash_setKeyDeleter hash fn = (hash\<lparr>keyDeleter := fn\<rparr>, keyDeleter hash)"

definition uhash_setValueDeleter :: "UHashtable \<Rightarrow> bool \<Rightarrow> UHashtable \<times> bool" where
  "uhash_setValueDeleter hash fn = (hash\<lparr>valueDeleter := fn\<rparr>, valueDeleter hash)"

definition uhash_setResizePolicy :: "(int \<Rightarrow> bool) \<Rightarrow> UHashtable \<Rightarrow> UHashResizePolicy \<Rightarrow> UHashtable option" where
  "uhash_setResizePolicy malloc hash policy = do {
     hash \<leftarrow> uhash_internalSetResizePolicy hash policy;
     let hash = hash\<lparr>lowWaterMark := water_mark (ht_length hash) (lowWaterRatio hash),
                     highWaterMark := water_mark (ht_length hash) (highWaterRatio hash)\<rparr>;
     (hash, status) \<leftarrow> uhash_rehash malloc hash U_ZERO_ERROR;
     Some hash }"

definition uhash_count :: "UHashtable \<Rightarrow> int" where
  "uhash_count hash = ht_count hash"

text \<open>The value in the slot that \<open>_uhash_find\<close> returns, shared by the four getters.\<close>

definition uhash_get_tok :: "UHashtable \<Rightarrow> UHashTok \<Rightarrow> UHashTok option" where
  "uhash_get_tok hash key = do {
     p \<leftarrow> uhash_find_slot hash key (keyHasher hash key);
     e \<leftarrow> p;
     el \<leftarrow> rd (elements hash) e;
     Some (el_value el) }"

definition uhash_get :: "UHashtable \<Rightarrow> UHashTok \<Rightarrow> UHashTok option" where
  "uhash_get hash key = uhash_get_tok hash key"

definition uhash_iget :: "UHashtable \<Rightarrow> u32 \<Rightarrow> UHashTok option" where
  "uhash_iget hash key = uhash_get_tok hash (integer_tok key)"

definition uhash_geti :: "UHashtable \<Rightarrow> UHashTok \<Rightarrow> u32 option" where
  "uhash_geti hash key = map_option tok_integer (uhash_get_tok hash key)"

definition uhash_igeti :: "UHashtable \<Rightarrow> u32 \<Rightarrow> u32 option" where
  "uhash_igeti hash key = map_option tok_integer (uhash_get_tok hash (integer_tok key))"

definition uhash_put where
  "uhash_put malloc hash key val status =
     uhash_put_tok malloc hash key val (HINT_KEY_POINTER OR HINT_VALUE_POINTER) status"

definition uhash_iput where
  "uhash_iput malloc hash key val status =
     uhash_put_tok malloc hash (integer_tok key) val HINT_VALUE_POINTER status"

definition uhash_puti where
  "uhash_puti malloc hash key val status = do {
     (hash, old, status) \<leftarrow> uhash_put_tok malloc hash key (integer_tok val) HINT_KEY_POINTER status;
     Some (hash, tok_integer old, status) }"

definition uhash_iputi where
  "uhash_iputi malloc hash key val status = do {
     (hash, old, status) \<leftarrow> uhash_put_tok malloc hash (integer_tok key) (integer_tok val) 0 status;
     Some (hash, tok_integer old, status) }"

definition uhash_remove where
  "uhash_remove malloc hash key = uhash_remove_tok malloc hash key"

definition uhash_iremove where
  "uhash_iremove malloc hash key = uhash_remove_tok malloc hash (integer_tok key)"

definition uhash_removei where
  "uhash_removei malloc hash key = do {
     (hash, old) \<leftarrow> uhash_remove_tok malloc hash key; Some (hash, tok_integer old) }"

definition uhash_iremovei where
  "uhash_iremovei malloc hash key = do {
     (hash, old) \<leftarrow> uhash_remove_tok malloc hash (integer_tok key); Some (hash, tok_integer old) }"

definition uhash_find :: "UHashtable \<Rightarrow> UHashTok \<Rightarrow> UHashElement option option" where
  "uhash_find hash key = do {
     p \<leftarrow> uhash_find_slot hash key (keyHasher hash key);
     e \<leftarrow> p;
     el \<leftarrow> rd (elements hash) e;
     Some (if IS_EMPTY_OR_DELETED (el_hashcode el) then None else Some el) }"

text \<open>
  \<open>uhash_nextElement\<close>: the loop from \<open>*pos + 1\<close>; the new position and slot are the same index,
  and \<open>None\<close> is the end (position unchanged).
\<close>

function next_from :: "UHashtable \<Rightarrow> int \<Rightarrow> int option option" where
  "next_from hash i =
     (if i < ht_length hash
      then do {
        el \<leftarrow> rd (elements hash) i;
        if IS_EMPTY_OR_DELETED (el_hashcode el) then next_from hash (i + 1) else Some (Some i) }
      else Some None)"
  by pat_completeness auto
termination by (relation "measure (\<lambda>(hash, i). nat (ht_length hash - i))") auto

declare float_round.simps [simp del] openSize_index.simps [simp del] next_from.simps [simp del]

definition uhash_nextElement :: "UHashtable \<Rightarrow> int \<Rightarrow> int option option" where
  "uhash_nextElement hash pos = next_from hash (pos + 1)"

definition UHASH_FIRST :: int where "UHASH_FIRST = -1"

definition uhash_removeElement :: "UHashtable \<Rightarrow> int \<Rightarrow> (UHashtable \<times> UHashTok) option" where
  "uhash_removeElement hash e = do {
     el \<leftarrow> rd (elements hash) e;
     if IS_EMPTY_OR_DELETED (el_hashcode el) then Some (hash, 0)
     else uhash_internalRemoveElement hash e }"

partial_function (option) removeAll_loop :: "UHashtable \<Rightarrow> int \<Rightarrow> UHashtable option" where
  "removeAll_loop hash pos =
     Option.bind (uhash_nextElement hash pos) (\<lambda>p.
       case p of
         None \<Rightarrow> Some hash
       | Some e \<Rightarrow> Option.bind (uhash_removeElement hash e) (\<lambda>(hash', v). removeAll_loop hash' e))"

definition uhash_removeAll :: "UHashtable \<Rightarrow> UHashtable option" where
  "uhash_removeAll hash = (if ht_count hash \<noteq> 0 then removeAll_loop hash UHASH_FIRST else Some hash)"

text \<open>
  \<open>uhash_close\<close> returns the objects that the deleters are called on; the table itself is freed.
\<close>

partial_function (option) close_loop :: "UHashtable \<Rightarrow> int \<Rightarrow> deletion list \<Rightarrow> deletion list option" where
  "close_loop hash pos log =
     Option.bind (uhash_nextElement hash pos) (\<lambda>p.
       case p of
         None \<Rightarrow> Some log
       | Some e \<Rightarrow> Option.bind (rd (elements hash) e) (\<lambda>el.
           close_loop hash e (log
             @ (if keyDeleter hash \<and> el_key el \<noteq> 0 then [Deleted_key (el_key el)] else [])
             @ (if valueDeleter hash \<and> el_value el \<noteq> 0 then [Deleted_value (el_value el)] else []))))"

definition uhash_close :: "UHashtable \<Rightarrow> deletion list option" where
  "uhash_close hash =
     (if elements hash \<noteq> [] \<and> (keyDeleter hash \<or> valueDeleter hash)
      then close_loop hash UHASH_FIRST (deletions hash) else Some (deletions hash))"

text \<open>
  \<open>uhash_equals\<close>. Function pointers are compared as functions; \<open>same\<close> says that the two
  pointers are the same table, \<open>None\<close> is the NULL table.
\<close>

fun equals_loop ::
  "UHashtable \<Rightarrow> UHashtable \<Rightarrow> (UHashTok \<Rightarrow> UHashTok \<Rightarrow> bool) \<Rightarrow> nat \<Rightarrow> int \<Rightarrow> bool option" where
  "equals_loop hash1 hash2 cmp 0 pos = Some True"
| "equals_loop hash1 hash2 cmp (Suc n) pos = do {
     p \<leftarrow> uhash_nextElement hash1 pos;
     pos \<leftarrow> p;
     elem1 \<leftarrow> rd (elements hash1) pos;
     p2 \<leftarrow> uhash_find_slot hash2 (el_key elem1) (keyHasher hash2 (el_key elem1));
     e2 \<leftarrow> p2;
     elem2 \<leftarrow> rd (elements hash2) e2;
     if \<not> cmp (el_value elem1) (el_value elem2) then Some False
     else equals_loop hash1 hash2 cmp n pos }"

definition uhash_equals :: "bool \<Rightarrow> UHashtable option \<Rightarrow> UHashtable option \<Rightarrow> bool option" where
  "uhash_equals same hash1 hash2 =
     (if same then Some True
      else case (hash1, hash2) of
        (Some hash1, Some hash2) \<Rightarrow>
          (case valueComparator hash1 of
             None \<Rightarrow> Some False
           | Some cmp \<Rightarrow>
             if keyComparator hash1 \<noteq> keyComparator hash2 \<or> valueComparator hash1 \<noteq> valueComparator hash2
             then Some False
             else if uhash_count hash1 \<noteq> uhash_count hash2 then Some False
             else equals_loop hash1 hash2 cmp (nat (uhash_count hash1)) UHASH_FIRST)
      | _ \<Rightarrow> Some False)"

section \<open>Integer keys\<close>

definition uhash_hashLong :: "UHashTok \<Rightarrow> u32" where
  "uhash_hashLong key = tok_integer key"

definition uhash_compareLong :: "UHashTok \<Rightarrow> UHashTok \<Rightarrow> bool" where
  "uhash_compareLong key1 key2 \<longleftrightarrow> tok_integer key1 = tok_integer key2"

end
