(* ===== verification/UhashMap.thy ===== *)
theory UhashMap
  imports Uhash
begin

text \<open>
  Correctness of the hash table of \<open>Uhash\<close>: the probing loop is a scan over a permutation of
  the slots, the table invariant, and the refinement of the table operations to a finite map.
\<close>

section \<open>Probe sequences\<close>

definition prime_size :: "int \<Rightarrow> bool" where
  "prime_size n \<longleftrightarrow> 2 < n \<and> (\<forall>d. 1 < d \<and> d < n \<longrightarrow> \<not> d dvd n)"

lemma prime_size_coprime:
  assumes "prime_size n" "0 < j" "j < n"
  shows "coprime j n"
proof -
  have g: "gcd j n dvd n" "gcd j n \<le> j" "0 < gcd j n"
    using assms by (auto intro: zdvd_imp_le)
  have "gcd j n = 1"
  proof (rule ccontr)
    assume "gcd j n \<noteq> 1"
    then have "1 < gcd j n" "gcd j n < n" using g assms(3) by linarith+
    then show False using assms(1) g(1) unfolding prime_size_def by blast
  qed
  then show ?thesis by (simp add: coprime_iff_gcd_eq_1)
qed

text \<open>The slots that \<open>_uhash_find\<close> visits for a masked hash code, in order.\<close>

definition hash_start :: "int \<Rightarrow> int \<Rightarrow> int" where
  "hash_start L h = (h XOR 0x4000000) mod L"

definition hash_jump :: "int \<Rightarrow> int \<Rightarrow> int" where
  "hash_jump L h = h mod (L - 1) + 1"

definition probe :: "int \<Rightarrow> int \<Rightarrow> nat \<Rightarrow> int" where
  "probe L h n = (hash_start L h + int n * hash_jump L h) mod L"

definition probes :: "int \<Rightarrow> int \<Rightarrow> int list" where
  "probes L h = map (probe L h) [0..<nat L]"

lemma hash_jump_range: "2 < L \<Longrightarrow> 0 < hash_jump L h \<and> hash_jump L h < L"
  unfolding hash_jump_def using pos_mod_bound [of "L - 1" h] pos_mod_sign [of "L - 1" h] by linarith

lemma probe_range: "2 < L \<Longrightarrow> 0 \<le> probe L h n \<and> probe L h n < L"
  by (simp add: probe_def)

lemma probe_0: "2 < L \<Longrightarrow> probe L h 0 = hash_start L h"
  by (simp add: probe_def hash_start_def)

lemma probe_Suc: "probe L h (Suc n) = (probe L h n + hash_jump L h) mod L"
  by (simp add: probe_def mod_simps algebra_simps)

lemma probe_inj:
  assumes p: "prime_size L" and "m < n" "n < nat L"
  shows "probe L h m \<noteq> probe L h n"
proof
  assume "probe L h m = probe L h n"
  then have "L dvd (hash_start L h + int n * hash_jump L h) - (hash_start L h + int m * hash_jump L h)"
    by (simp add: probe_def mod_eq_dvd_iff) (metis mod_eq_dvd_iff)
  then have "L dvd (int n - int m) * hash_jump L h" by (simp add: algebra_simps)
  moreover have "coprime L (hash_jump L h)"
    using prime_size_coprime [OF p, of "hash_jump L h"] hash_jump_range [of L h] p
    by (simp add: prime_size_def coprime_commute)
  ultimately have "L dvd int n - int m" by (simp add: coprime_dvd_mult_left_iff)
  then show False using assms(2,3) zdvd_imp_le [of L "int n - int m"] by auto
qed

lemma probe_wrap: "2 < L \<Longrightarrow> probe L h (nat L) = hash_start L h"
  by (simp add: probe_def hash_start_def)

lemma distinct_probes: "prime_size L \<Longrightarrow> distinct (probes L h)"
  unfolding probes_def distinct_map
  by (auto intro!: inj_onI) (metis linorder_neqE_nat probe_inj zless_nat_eq_int_zless)

lemma set_probes:
  assumes "prime_size L"
  shows "set (probes L h) = {0..<L}"
proof (rule card_subset_eq)
  show "set (probes L h) \<subseteq> {0..<L}"
    using assms probe_range [of L h] by (auto simp: probes_def prime_size_def)
  show "card (set (probes L h)) = card {0..<L}"
    using distinct_card [OF distinct_probes [OF assms, of h]] by (simp add: probes_def)
qed simp

section \<open>The search as a scan over the probe sequence\<close>

definition occupied :: "UHashElement \<Rightarrow> bool" where
  "occupied el \<longleftrightarrow> \<not> IS_EMPTY_OR_DELETED (el_hashcode el)"

lemma hash_marks: "HASH_EMPTY < 0" "HASH_DELETED < 0" "HASH_EMPTY \<noteq> HASH_DELETED"
  by (simp_all add: HASH_EMPTY_def HASH_DELETED_def)

fun scan :: "(int \<Rightarrow> bool) \<Rightarrow> (int \<Rightarrow> bool) \<Rightarrow> (int \<Rightarrow> bool) \<Rightarrow> int list \<Rightarrow> int \<Rightarrow> int option" where
  "scan P E D [] fd = (if 0 \<le> fd then Some fd else None)"
| "scan P E D (i # is) fd =
     (if P i then Some i
      else if E i then Some (if 0 \<le> fd then fd else i)
      else scan P E D is (if D i \<and> fd < 0 then i else fd))"

abbreviation at :: "UHashtable \<Rightarrow> int \<Rightarrow> UHashElement" where
  "at hash i \<equiv> elements hash ! nat i"

definition matches :: "UHashtable \<Rightarrow> UHashTok \<Rightarrow> int \<Rightarrow> int \<Rightarrow> bool" where
  "matches hash key h i \<longleftrightarrow> el_hashcode (at hash i) = h \<and> keyComparator hash key (el_key (at hash i))"

definition is_empty :: "UHashtable \<Rightarrow> int \<Rightarrow> bool" where
  "is_empty hash i \<longleftrightarrow> el_hashcode (at hash i) = HASH_EMPTY"

definition is_deleted :: "UHashtable \<Rightarrow> int \<Rightarrow> bool" where
  "is_deleted hash i \<longleftrightarrow> el_hashcode (at hash i) < 0 \<and> el_hashcode (at hash i) \<noteq> HASH_EMPTY"

definition find_result :: "int + int \<times> int \<times> int \<Rightarrow> int option" where
  "find_result r = (case r of
       Inl i \<Rightarrow> Some i
     | Inr (theIndex, tableHash, firstDeleted) \<Rightarrow>
         if 0 \<le> firstDeleted then Some firstDeleted
         else if tableHash \<noteq> HASH_EMPTY then None
         else Some theIndex)"

definition mask_hash :: "u32 \<Rightarrow> int" where
  "mask_hash h = uint (h AND 0x7FFFFFFF)"

lemma mask_hash_range: "0 \<le> mask_hash h" "mask_hash h < 2 ^ 31"
proof -
  have "mask_hash h = uint h mod 2 ^ 31"
    using int_and_mask [of "uint h" 31] by (simp add: mask_hash_def uint_and)
  then show "0 \<le> mask_hash h" "mask_hash h < 2 ^ 31" by simp_all
qed

lemma find_loop_scan:
  assumes p: "prime_size (ht_length hash)" and len: "int (length (elements hash)) = ht_length hash"
    and h: "0 \<le> h" and n: "n < nat (ht_length hash)"
  shows "map_option find_result (find_loop hash key h (hash_start (ht_length hash) h)
           (if n = 0 then 0 else hash_jump (ht_length hash) h) (probe (ht_length hash) h n) fd) =
         Some (scan (matches hash key h) (is_empty hash) (is_deleted hash) (drop n (probes (ht_length hash) h)) fd)"
  using n
proof (induction "nat (ht_length hash) - n" arbitrary: n fd)
  case 0
  then show ?case by simp
next
  case (Suc d)
  let ?L = "ht_length hash"
  have L: "2 < ?L" using p by (simp add: prime_size_def)
  let ?i = "probe ?L h n"
  have i: "0 \<le> ?i" "?i < ?L" using probe_range [OF L] by auto
  then have r: "rd (elements hash) ?i = Some (at hash ?i)" using len by simp
  have dr: "drop n (probes ?L h) = ?i # drop (Suc n) (probes ?L h)"
    using Suc.prems by (simp add: probes_def Cons_nth_drop_Suc [symmetric])
  let ?fd = "if is_deleted hash ?i \<and> fd < 0 then ?i else fd"
  have jump: "(if (if n = 0 then 0 else hash_jump ?L h) = 0 then h mod (?L - 1) + 1
      else if n = 0 then 0 else hash_jump ?L h) = hash_jump ?L h"
    using hash_jump_range [OF L, of h] by (auto simp: hash_jump_def)
  have nx: "(?i + hash_jump ?L h) mod ?L = probe ?L h (Suc n)" by (simp add: probe_Suc)
  show ?case
  proof (cases "matches hash key h ?i \<or> is_empty hash ?i")
    case True
    then show ?thesis using h hash_marks
      by (subst find_loop.simps) (auto simp: r dr matches_def is_empty_def find_result_def)
  next
    case False
    then have loop: "find_loop hash key h (hash_start ?L h) (if n = 0 then 0 else hash_jump ?L h) ?i fd =
        (if probe ?L h (Suc n) \<noteq> hash_start ?L h
         then find_loop hash key h (hash_start ?L h) (hash_jump ?L h) (probe ?L h (Suc n)) ?fd
         else Some (Inr (probe ?L h (Suc n), el_hashcode (at hash ?i), ?fd)))"
      using h hash_marks unfolding nx [symmetric]
      by (subst find_loop.simps, subst jump)
        (auto simp: r matches_def is_empty_def is_deleted_def IS_EMPTY_OR_DELETED_def Let_def)
    show ?thesis
    proof (cases "Suc n = nat ?L")
      case True
      then have "probe ?L h (Suc n) = hash_start ?L h" using probe_wrap [OF L] by simp
      moreover have "drop (Suc n) (probes ?L h) = []" using True by (simp add: probes_def)
      ultimately show ?thesis using False loop
        by (auto simp: dr find_result_def is_empty_def)
    next
      case False': False
      then have n': "Suc n < nat ?L" using Suc.prems by simp
      then have "probe ?L h 0 \<noteq> probe ?L h (Suc n)" by (intro probe_inj [OF p]) auto
      then have "probe ?L h (Suc n) \<noteq> hash_start ?L h" using probe_0 [OF L] by simp
      then show ?thesis
        using Suc.hyps(1) [of "Suc n" ?fd] Suc.hyps(2) n' False loop by (simp add: dr)
    qed
  qed
qed

lemma uhash_find_slot_scan:
  assumes "prime_size (ht_length hash)" "int (length (elements hash)) = ht_length hash"
  shows "uhash_find_slot hash key hc =
    Some (scan (matches hash key (mask_hash hc)) (is_empty hash) (is_deleted hash)
      (probes (ht_length hash) (mask_hash hc)) (-1))"
proof -
  have L: "2 < ht_length hash" using assms by (simp add: prime_size_def)
  show ?thesis
    using find_loop_scan [OF assms mask_hash_range(1) [of hc], of 0 key "-1"] L
    by (simp add: uhash_find_slot_def Let_def mask_hash_def [symmetric] hash_start_def [symmetric]
        probe_0 find_result_def [symmetric] map_conv_bind_option comp_def)
qed
lemma scan_found:
  assumes "i \<in> set (takeWhile (\<lambda>k. \<not> E k) xs)" "P i" "\<And>k. P k \<Longrightarrow> k = i" "\<not> E i"
  shows "scan P E D xs fd = Some i"
  using assms(1)
proof (induction xs arbitrary: fd)
  case (Cons x xs)
  show ?case
  proof (cases "x = i")
    case True
    then show ?thesis using assms(2) by simp
  next
    case False
    then have "\<not> P x" "\<not> E x" using Cons.prems assms(3) by (auto split: if_splits)
    then show ?thesis using Cons False by simp
  qed
qed simp

lemma scan_first_deleted:
  assumes "\<forall>k \<in> set (takeWhile (\<lambda>k. \<not> E k) xs). \<not> P k" "\<And>k. E k \<Longrightarrow> \<not> P k" "0 \<le> fd"
  shows "scan P E D xs fd = Some fd"
  using assms(1)
proof (induction xs)
  case (Cons x xs)
  then show ?case using assms(2) [of x] assms(3) by (cases "E x") simp_all
qed (simp add: assms(3))

lemma scan_absent:
  assumes "\<forall>k \<in> set (takeWhile (\<lambda>k. \<not> E k) xs). \<not> P k" "\<And>k. E k \<Longrightarrow> \<not> P k" "\<forall>k \<in> set xs. 0 \<le> k"
    "fd < 0" "\<exists>k \<in> set xs. D k \<or> E k"
  shows "\<exists>i. scan P E D xs fd = Some i \<and> (D i \<or> E i) \<and> i \<in> set (takeWhile (\<lambda>k. \<not> E k \<or> k = i) xs)"
  using assms(1,3,5)
proof (induction xs)
  case (Cons x xs)
  have P: "\<not> P x" using Cons.prems(1) assms(2) [of x] by (cases "E x") simp_all
  show ?case
  proof (cases "D x \<or> E x")
    case True
    have "scan P E D (x # xs) fd = Some x"
    proof (cases "E x")
      case True
      then show ?thesis using P assms(4) by simp
    next
      case False
      then have "scan P E D xs x = Some x"
        using Cons.prems(1,2) assms(2) by (intro scan_first_deleted) simp_all
      then show ?thesis using P False True \<open>D x \<or> E x\<close> assms(4) by simp
    qed
    with True show ?thesis by (intro exI [of _ x]) simp
  next
    case False
    then obtain i where "scan P E D xs fd = Some i" "D i \<or> E i" "i \<in> set (takeWhile (\<lambda>k. \<not> E k \<or> k = i) xs)"
      using Cons by auto
    with False P show ?thesis by (intro exI [of _ i]) simp
  qed
qed simp

section \<open>The interface of keys\<close>

text \<open>What the table needs of a hash function and a key comparator.\<close>

locale hash_key =
  fixes hasher :: "UHashTok \<Rightarrow> u32"
    and cmp :: "UHashTok \<Rightarrow> UHashTok \<Rightarrow> bool"
  assumes cmp_refl: "cmp a a"
    and cmp_sym: "cmp a b \<Longrightarrow> cmp b a"
    and cmp_trans: "cmp a b \<Longrightarrow> cmp b c \<Longrightarrow> cmp a c"
    and cmp_hash: "cmp a b \<Longrightarrow> hasher a = hasher b"

section \<open>The table invariant and the abstraction\<close>

definition slot_ok :: "UHashtable \<Rightarrow> nat \<Rightarrow> bool" where
  "slot_ok ht i \<longleftrightarrow>
     el_hashcode (elements ht ! i) = mask_hash (keyHasher ht (el_key (elements ht ! i))) \<and>
     int i \<in> set (takeWhile (\<lambda>k. \<not> is_empty ht k) (probes (ht_length ht) (el_hashcode (elements ht ! i))))"

definition holds :: "UHashtable \<Rightarrow> UHashTok \<Rightarrow> nat \<Rightarrow> bool" where
  "holds ht k i \<longleftrightarrow> i < length (elements ht) \<and> occupied (elements ht ! i) \<and>
     keyComparator ht k (el_key (elements ht ! i))"

definition table_ok :: "UHashtable \<Rightarrow> bool" where
  "table_ok ht \<longleftrightarrow> prime_size (ht_length ht) \<and> int (length (elements ht)) = ht_length ht \<and>
     ht_count ht = int (length (filter occupied (elements ht))) \<and> ht_count ht < ht_length ht \<and>
     (\<forall>i < length (elements ht). occupied (elements ht ! i) \<longrightarrow> slot_ok ht i) \<and>
     (\<forall>k i j. holds ht k i \<and> holds ht k j \<longrightarrow> i = j) \<and>
     (\<forall>el \<in> set (elements ht). \<not> occupied el \<longrightarrow> el_value el = 0)"

text \<open>The map that a table stands for.\<close>

definition lookup :: "UHashtable \<Rightarrow> UHashTok \<Rightarrow> UHashTok option" where
  "lookup ht k = map_option el_value
     (List.find (\<lambda>el. occupied el \<and> keyComparator ht k (el_key el)) (elements ht))"

lemma lookup_None: "lookup ht k = None \<longleftrightarrow> (\<forall>i. \<not> holds ht k i)"
  by (auto simp: lookup_def find_None_iff holds_def in_set_conv_nth)

lemma lookup_Some:
  assumes "table_ok ht" "holds ht k i"
  shows "lookup ht k = Some (el_value (elements ht ! i))"
proof -
  have "\<not> holds ht k j" if "j < i" for j using assms that unfolding table_ok_def by blast
  then show ?thesis using assms(2) unfolding lookup_def holds_def
    by (auto simp: find_Some_iff intro!: exI [of _ i])
qed

lemma find_slot_holds:
  assumes ok: "table_ok ht" and hk: "hash_key (keyHasher ht) (keyComparator ht)" and i: "holds ht k i"
  shows "uhash_find_slot ht k (keyHasher ht k) = Some (Some (int i))"
proof -
  let ?h = "mask_hash (keyHasher ht k)"
  have L: "prime_size (ht_length ht)" "int (length (elements ht)) = ht_length ht"
    using ok by (simp_all add: table_ok_def)
  have s: "slot_ok ht i" using ok i by (simp add: table_ok_def holds_def)
  have h: "el_hashcode (elements ht ! i) = ?h"
    using s i hash_key.cmp_hash [OF hk] by (auto simp: slot_ok_def holds_def)
  have neg: "HASH_EMPTY \<noteq> ?h" using mask_hash_range(1) hash_marks(1) by (metis not_le)
  have uniq: "n = int i \<and> \<not> is_empty ht n" if "matches ht k ?h n" "n \<in> {0..<ht_length ht}" for n
  proof -
    have "holds ht k (nat n)"
      using that L(2) mask_hash_range(1) [of "keyHasher ht k"]
      by (auto simp: matches_def holds_def occupied_def IS_EMPTY_OR_DELETED_def)
    then have "nat n = i" using ok i by (auto simp: table_ok_def)
    then show ?thesis using that neg by (auto simp: matches_def is_empty_def)
  qed
  let ?P = "\<lambda>n. matches ht k ?h n \<and> n \<in> {0..<ht_length ht}"
  have "scan ?P (is_empty ht) (is_deleted ht) (probes (ht_length ht) ?h) (-1) = Some (int i)"
    by (rule scan_found) (use s h uniq i L(2) in \<open>auto simp: slot_ok_def holds_def matches_def\<close>)
  moreover have "scan (matches ht k ?h) (is_empty ht) (is_deleted ht) xs fd =
      scan ?P (is_empty ht) (is_deleted ht) xs fd" if "set xs \<subseteq> {0..<ht_length ht}" for xs fd
    using that by (induction xs arbitrary: fd) auto
  ultimately show ?thesis
    using uhash_find_slot_scan [OF L] set_probes [OF L(1)] by simp
qed

definition free_for :: "UHashtable \<Rightarrow> int \<Rightarrow> int \<Rightarrow> bool" where
  "free_for ht h i \<longleftrightarrow> 0 \<le> i \<and> i < ht_length ht \<and> \<not> occupied (at ht i) \<and>
     i \<in> set (takeWhile (\<lambda>k. \<not> is_empty ht k \<or> k = i) (probes (ht_length ht) h))"

lemma find_slot_absent:
  assumes ok: "table_ok ht" and none: "\<forall>i. \<not> holds ht k i"
  shows "\<exists>i. uhash_find_slot ht k hc = Some (Some i) \<and> free_for ht (mask_hash hc) i"
proof -
  let ?h = "mask_hash hc" and ?L = "ht_length ht"
  have L: "prime_size ?L" "int (length (elements ht)) = ?L"
    using ok by (simp_all add: table_ok_def)
  have neg: "HASH_EMPTY \<noteq> ?h" using mask_hash_range(1) hash_marks(1) by (metis not_le)
  have nomatch: "\<not> matches ht k ?h n" if "n \<in> {0..<?L}" for n
  proof
    assume "matches ht k ?h n"
    then have "holds ht k (nat n)"
      using that L(2) mask_hash_range(1) [of hc]
      by (auto simp: matches_def holds_def occupied_def IS_EMPTY_OR_DELETED_def)
    then show False using none by blast
  qed
  have "\<exists>el \<in> set (elements ht). \<not> occupied el"
  proof (rule ccontr)
    assume "\<not> ?thesis"
    then have "filter occupied (elements ht) = elements ht" by (simp add: filter_id_conv)
    then have "ht_count ht = ht_length ht" using ok unfolding table_ok_def by metis
    then show False using ok by (simp add: table_ok_def)
  qed
  then obtain n where n: "n < length (elements ht)" "\<not> occupied (elements ht ! n)"
    by (auto simp: in_set_conv_nth)
  have "\<exists>i. scan (matches ht k ?h) (is_empty ht) (is_deleted ht) (probes ?L ?h) (-1) = Some i \<and>
      (is_deleted ht i \<or> is_empty ht i) \<and> i \<in> set (takeWhile (\<lambda>k. \<not> is_empty ht k \<or> k = i) (probes ?L ?h))"
  proof (rule scan_absent)
    show "\<forall>n \<in> set (takeWhile (\<lambda>k. \<not> is_empty ht k) (probes ?L ?h)). \<not> matches ht k ?h n"
      using nomatch set_probes [OF L(1)] by (auto dest: set_takeWhileD)
    show "\<And>n. is_empty ht n \<Longrightarrow> \<not> matches ht k ?h n"
      using neg by (auto simp: matches_def is_empty_def)
    show "\<forall>n \<in> set (probes ?L ?h). 0 \<le> n" using set_probes [OF L(1)] by auto
    have "int n \<in> set (probes ?L ?h)" using set_probes [OF L(1)] n L(2) by auto
    then show "\<exists>n \<in> set (probes ?L ?h). is_deleted ht n \<or> is_empty ht n"
      using n(2) by (intro bexI [of _ "int n"]) (auto simp: occupied_def is_deleted_def is_empty_def IS_EMPTY_OR_DELETED_def)
  qed simp
  then obtain i where i: "uhash_find_slot ht k hc = Some (Some i)" "is_deleted ht i \<or> is_empty ht i"
      "i \<in> set (takeWhile (\<lambda>k. \<not> is_empty ht k \<or> k = i) (probes ?L ?h))"
    using uhash_find_slot_scan [OF L] by auto
  have "i \<in> {0..<?L}" using i(3) set_probes [OF L(1)] by (blast dest: set_takeWhileD)
  then have "free_for ht ?h i" using i(2,3) hash_marks(1)
    by (auto simp: free_for_def occupied_def is_deleted_def is_empty_def IS_EMPTY_OR_DELETED_def)
  with i(1) show ?thesis by blast
qed

section \<open>Changing a slot\<close>

lemma filter_update_count:
  assumes "i < length xs"
  shows "int (length (filter P (xs[i := x]))) =
    int (length (filter P xs)) - (if P (xs ! i) then 1 else 0) + (if P x then 1 else 0)"
proof -
  have "filter P xs = filter P (take i xs @ xs ! i # drop (Suc i) xs)"
    by (rule arg_cong [OF id_take_nth_drop [OF assms]])
  also have "\<dots> = filter P (take i xs) @ (if P (xs ! i) then [xs ! i] else []) @ filter P (drop (Suc i) xs)"
    by simp
  finally have "filter P xs = filter P (take i xs) @ (if P (xs ! i) then [xs ! i] else []) @ filter P (drop (Suc i) xs)" .
  moreover have "filter P (xs[i := x]) = filter P (take i xs) @ (if P x then [x] else []) @ filter P (drop (Suc i) xs)"
    using assms by (simp add: upd_conv_take_nth_drop)
  ultimately show ?thesis by simp
qed

lemma takeWhile_mono:
  assumes "x \<in> set (takeWhile P xs)" "\<And>y. y \<in> set xs \<Longrightarrow> P y \<Longrightarrow> Q y"
  shows "x \<in> set (takeWhile Q xs)"
  using assms by (induction xs) (auto split: if_splits)

text \<open>
  \<open>changed ht ht' i el\<close>: \<open>ht'\<close> is \<open>ht\<close> with the slot \<open>i\<close> replaced by \<open>el\<close> and the count adjusted;
  the invariant does not depend on the remaining fields.
\<close>

definition changed :: "UHashtable \<Rightarrow> UHashtable \<Rightarrow> nat \<Rightarrow> UHashElement \<Rightarrow> bool" where
  "changed ht ht' i el \<longleftrightarrow> i < length (elements ht) \<and> elements ht' = (elements ht)[i := el] \<and>
     keyHasher ht' = keyHasher ht \<and> keyComparator ht' = keyComparator ht \<and> ht_length ht' = ht_length ht \<and>
     ht_count ht' = ht_count ht - (if occupied (elements ht ! i) then 1 else 0) + (if occupied el then 1 else 0)"

lemma changed_holds:
  "changed ht ht' i el \<Longrightarrow>
    holds ht' q j \<longleftrightarrow> (if j = i then occupied el \<and> keyComparator ht q (el_key el) else holds ht q j)"
  by (auto simp: changed_def holds_def nth_list_update)

lemma changed_empty:
  assumes "changed ht ht' i el" "prime_size (ht_length ht)" "int (length (elements ht)) = ht_length ht"
    and "k \<in> set (probes (ht_length ht) h)"
  shows "is_empty ht' k \<longleftrightarrow> (if k = int i then el_hashcode el = HASH_EMPTY else is_empty ht k)"
proof -
  have "0 \<le> k" "k < ht_length ht" using assms(4) set_probes [OF assms(2)] by auto
  then show ?thesis using assms(1,3) by (auto simp: changed_def is_empty_def nth_list_update)
qed

lemma changed_slot_ok:
  assumes c: "changed ht ht' i el" and ok: "table_ok ht" and ne: "el_hashcode el \<noteq> HASH_EMPTY"
    and j: "j < length (elements ht)" "j \<noteq> i" "slot_ok ht j"
  shows "slot_ok ht' j"
proof -
  have L: "prime_size (ht_length ht)" "int (length (elements ht)) = ht_length ht"
    using ok by (simp_all add: table_ok_def)
  have e: "elements ht' ! j = elements ht ! j" using c j(2) by (simp add: changed_def)
  have "int j \<in> set (takeWhile (\<lambda>k. \<not> is_empty ht' k) (probes (ht_length ht) (el_hashcode (elements ht ! j))))"
    using j(3) changed_empty [OF c L] ne unfolding slot_ok_def
    by (elim conjE takeWhile_mono) auto
  then show ?thesis using j(3) c e by (simp add: slot_ok_def changed_def)
qed

text \<open>Storing an element under a key: over the element with the key, or in the free slot.\<close>

lemma table_ok_store:
  assumes ok: "table_ok ht" and hk: "hash_key (keyHasher ht) (keyComparator ht)"
    and c: "changed ht ht' i el" and lt: "ht_count ht' < ht_length ht"
    and el: "el_hashcode el = mask_hash (keyHasher ht (el_key el))"
    and i: "holds ht (el_key el) i \<or>
      (\<forall>j. \<not> holds ht (el_key el) j) \<and> free_for ht (mask_hash (keyHasher ht (el_key el))) (int i)"
  shows "table_ok ht'"
    and "lookup ht' = (\<lambda>q. if keyComparator ht q (el_key el) then Some (el_value el) else lookup ht q)"
proof -
  have L: "prime_size (ht_length ht)" "int (length (elements ht)) = ht_length ht"
    and cnt: "ht_count ht = int (length (filter occupied (elements ht)))"
    and so: "\<And>j. j < length (elements ht) \<Longrightarrow> occupied (elements ht ! j) \<Longrightarrow> slot_ok ht j"
    and un: "\<And>k i j. holds ht k i \<Longrightarrow> holds ht k j \<Longrightarrow> i = j"
    and vz: "\<forall>x \<in> set (elements ht). \<not> occupied x \<longrightarrow> el_value x = 0"
    using ok unfolding table_ok_def by blast+
  have il: "i < length (elements ht)" using c by (simp add: changed_def)
  have occ: "occupied el" and ne: "el_hashcode el \<noteq> HASH_EMPTY"
    using el mask_hash_range(1) [of "keyHasher ht (el_key el)"] hash_marks(1)
    by (auto simp: occupied_def IS_EMPTY_OR_DELETED_def)
  note H = changed_holds [OF c]
  have nothere: "\<not> holds ht q i" if "\<not> keyComparator ht q (el_key el)" for q
    using i
  proof
    assume "holds ht (el_key el) i"
    then show ?thesis using that hash_key.cmp_trans [OF hk] hash_key.cmp_sym [OF hk]
      unfolding holds_def by blast
  next
    assume "(\<forall>j. \<not> holds ht (el_key el) j) \<and> free_for ht (mask_hash (keyHasher ht (el_key el))) (int i)"
    then show ?thesis by (simp add: free_for_def holds_def)
  qed
  have elsewhere: "\<not> holds ht q j" if q: "keyComparator ht q (el_key el)" "j \<noteq> i" for q j
  proof
    assume h: "holds ht q j"
    then have "holds ht (el_key el) j"
      using q(1) hash_key.cmp_trans [OF hk] hash_key.cmp_sym [OF hk] unfolding holds_def by blast
    then show False using i un [of "el_key el" i j] q(2) by blast
  qed
  have oki: "slot_ok ht' i"
  proof -
    let ?h = "mask_hash (keyHasher ht (el_key el))"
    have "int i \<in> set (takeWhile (\<lambda>k. \<not> is_empty ht' k) (probes (ht_length ht) ?h))"
      using i
    proof
      assume h: "holds ht (el_key el) i"
      then have "slot_ok ht i" using so by (simp add: holds_def)
      moreover have "keyHasher ht (el_key (elements ht ! i)) = keyHasher ht (el_key el)"
        using h hash_key.cmp_hash [OF hk] by (metis holds_def)
      ultimately have "int i \<in> set (takeWhile (\<lambda>k. \<not> is_empty ht k) (probes (ht_length ht) ?h))"
        unfolding slot_ok_def by metis
      then show ?thesis using changed_empty [OF c L] ne by (elim takeWhile_mono) auto
    next
      assume "(\<forall>j. \<not> holds ht (el_key el) j) \<and> free_for ht ?h (int i)"
      then have "int i \<in> set (takeWhile (\<lambda>k. \<not> is_empty ht k \<or> k = int i) (probes (ht_length ht) ?h))"
        by (simp add: free_for_def)
      then show ?thesis using changed_empty [OF c L] ne by (elim takeWhile_mono) auto
    qed
    then show ?thesis using c el il by (simp add: slot_ok_def changed_def)
  qed
  have cnt': "ht_count ht' = int (length (filter occupied (elements ht')))"
    using c cnt filter_update_count [OF il, of occupied el] by (simp add: changed_def)
  have "slot_ok ht' j" if "j < length (elements ht')" "occupied (elements ht' ! j)" for j
  proof (cases "j = i")
    case False
    then show ?thesis using changed_slot_ok [OF c ok ne, of j] so [of j] that c by (simp add: changed_def)
  qed (simp add: oki)
  moreover have "a = b" if "holds ht' k a" "holds ht' k b" for k a b
    using that un [of k a b] elsewhere [of k a] elsewhere [of k b] unfolding H by (auto split: if_splits)
  moreover have "\<forall>x \<in> set (elements ht'). \<not> occupied x \<longrightarrow> el_value x = 0"
    using vz occ c set_update_subset_insert [of "elements ht" i el] by (auto simp: changed_def)
  ultimately show ok': "table_ok ht'"
    using c L cnt' lt unfolding table_ok_def by (auto simp: changed_def)
  show "lookup ht' = (\<lambda>q. if keyComparator ht q (el_key el) then Some (el_value el) else lookup ht q)"
  proof
    fix q
    show "lookup ht' q = (if keyComparator ht q (el_key el) then Some (el_value el) else lookup ht q)"
    proof (cases "keyComparator ht q (el_key el)")
      case True
      then have "holds ht' q i" using occ by (simp add: H)
      from lookup_Some [OF ok' this] True c show ?thesis by (simp add: changed_def)
    next
      case False
      then have H': "holds ht' q j \<longleftrightarrow> holds ht q j" for j using nothere [OF False] H by auto
      show ?thesis
      proof (cases "\<exists>j. holds ht q j")
        case True
        then obtain j where j: "holds ht q j" by blast
        then have "j \<noteq> i" using nothere [OF False] by blast
        then show ?thesis using False j lookup_Some [OF ok j] lookup_Some [OF ok', of q j] H' c
          by (simp add: changed_def)
      next
        case none: False
        then have "lookup ht q = None" "lookup ht' q = None" using lookup_None H' by auto
        then show ?thesis using False by simp
      qed
    qed
  qed
qed

lemma table_ok_delete:
  assumes ok: "table_ok ht" and hk: "hash_key (keyHasher ht) (keyComparator ht)"
    and c: "changed ht ht' i el" and el: "el_hashcode el = HASH_DELETED" "el_value el = 0" and i: "holds ht key i"
  shows "table_ok ht'" and "lookup ht' = (\<lambda>q. if keyComparator ht q key then None else lookup ht q)"
proof -
  have L: "prime_size (ht_length ht)" "int (length (elements ht)) = ht_length ht"
    and cnt: "ht_count ht = int (length (filter occupied (elements ht)))" "ht_count ht < ht_length ht"
    and so: "\<And>j. j < length (elements ht) \<Longrightarrow> occupied (elements ht ! j) \<Longrightarrow> slot_ok ht j"
    and un: "\<And>k i j. holds ht k i \<Longrightarrow> holds ht k j \<Longrightarrow> i = j"
    and vz: "\<forall>x \<in> set (elements ht). \<not> occupied x \<longrightarrow> el_value x = 0"
    using ok unfolding table_ok_def by blast+
  have il: "i < length (elements ht)" using c by (simp add: changed_def)
  have occ: "\<not> occupied el" and ne: "el_hashcode el \<noteq> HASH_EMPTY"
    using el hash_marks by (auto simp: occupied_def IS_EMPTY_OR_DELETED_def)
  have H: "holds ht' q j \<longleftrightarrow> j \<noteq> i \<and> holds ht q j" for q j using changed_holds [OF c] occ by simp
  have cnt': "ht_count ht' = int (length (filter occupied (elements ht')))" "ht_count ht' < ht_length ht"
    using c cnt occ filter_update_count [OF il, of occupied el] by (simp_all add: changed_def)
  have "slot_ok ht' j" if "j < length (elements ht')" "occupied (elements ht' ! j)" for j
  proof -
    have "j \<noteq> i" using that occ c by (auto simp: changed_def)
    then show ?thesis using changed_slot_ok [OF c ok ne, of j] so [of j] that c by (simp add: changed_def)
  qed
  moreover have "a = b" if "holds ht' k a" "holds ht' k b" for k a b
    using that un [of k a b] unfolding H by blast
  moreover have "\<forall>x \<in> set (elements ht'). \<not> occupied x \<longrightarrow> el_value x = 0"
    using vz occ c el(2) set_update_subset_insert [of "elements ht" i el] by (auto simp: changed_def)
  ultimately show ok': "table_ok ht'"
    using c L cnt' unfolding table_ok_def by (auto simp: changed_def)
  show "lookup ht' = (\<lambda>q. if keyComparator ht q key then None else lookup ht q)"
  proof
    fix q
    have iq: "holds ht q i \<longleftrightarrow> keyComparator ht q key"
      using i hash_key.cmp_trans [OF hk] hash_key.cmp_sym [OF hk] unfolding holds_def by blast
    show "lookup ht' q = (if keyComparator ht q key then None else lookup ht q)"
    proof (cases "\<exists>j. holds ht' q j")
      case True
      then obtain j where j: "j \<noteq> i" "holds ht q j" "holds ht' q j" using H by blast
      then have "\<not> keyComparator ht q key" using un iq by blast
      then show ?thesis using lookup_Some [OF ok j(2)] lookup_Some [OF ok' j(3)] j(1) c
        by (simp add: changed_def)
    next
      case False
      then have "lookup ht' q = None" using lookup_None by auto
      moreover have "lookup ht q = None" if "\<not> keyComparator ht q key"
        using False that iq H lookup_None by (metis)
      ultimately show ?thesis by auto
    qed
  qed
qed

section \<open>The table sizes are prime\<close>

text \<open>Trial division by the odd numbers from \<open>d\<close> on.\<close>

function trial :: "int \<Rightarrow> int \<Rightarrow> bool" where
  "trial n d = (if d \<le> 0 then False else if n < d * d then True else if n mod d = 0 then False else trial n (d + 2))"
  by pat_completeness auto
termination
proof (relation "measure (\<lambda>(n, d). nat (n - d + 2))")
  fix n d :: int
  assume "\<not> d \<le> 0" "\<not> n < d * d"
  moreover have "d \<le> d * d" using \<open>\<not> d \<le> 0\<close> mult_left_mono [of 1 d d] by simp
  ultimately have "d \<le> n" by linarith
  then show "((n, d + 2), n, d) \<in> measure (\<lambda>(n, d). nat (n - d + 2))" by auto
qed simp

declare trial.simps [simp del]

lemma trial_sound:
  assumes "trial n d" "odd n" "odd d" "\<And>k. 1 < k \<Longrightarrow> k < d \<Longrightarrow> \<not> k dvd n"
    and "1 < k" "k * k \<le> n"
  shows "\<not> k dvd n"
  using assms
proof (induction n d arbitrary: k rule: trial.induct)
  case (1 n d)
  have d: "0 < d" "n < d * d \<or> \<not> d dvd n \<and> trial n (d + 2)"
    using 1(2) by (subst (asm) trial.simps; auto split: if_splits simp: dvd_eq_mod_eq_0)+
  show ?case
  proof (cases "n < d * d")
    case True
    then have "k < d" using d(1) 1(6,7) mult_mono [of d k d k] by (cases "k < d") auto
    then show ?thesis using 1(5) [of k] 1(6) by simp
  next
    case False
    then have nd: "\<not> d dvd n" and t: "trial n (d + 2)" using d by auto
    have "\<not> m dvd n" if m: "1 < m" "m < d + 2" for m
    proof (cases "m = d + 1")
      case True
      then have "2 dvd m" using 1(4) by simp
      then show ?thesis using 1(3) dvd_trans by blast
    next
      case False
      then show ?thesis using nd 1(5) [of m] m by (cases "m = d") auto
    qed
    moreover have "\<not> d \<le> 0" "n mod d \<noteq> 0" using d(1) nd by (auto simp: dvd_eq_mod_eq_0)
    ultimately show ?thesis using 1(1) [of k] 1(3,4,6,7) False t by simp
  qed
qed

lemma trial_prime:
  assumes "trial n 3" "odd n" "2 < n"
  shows "prime_size n"
  unfolding prime_size_def
proof (intro conjI allI impI notI)
  fix d assume d: "1 < d \<and> d < n" "d dvd n"
  then obtain e where e: "n = d * e" by (auto elim: dvdE)
  have e1: "1 < e"
  proof (rule ccontr)
    assume "\<not> 1 < e"
    then have "d * e \<le> d * 1" using d by (intro mult_left_mono) auto
    then have "n \<le> d" unfolding e by (simp only: mult_1_right)
    then show False using d by simp
  qed
  have small: "\<not> k dvd n" if "1 < k" "k * k \<le> n" for k
  proof (rule trial_sound [OF assms(1,2) _ _ that])
    fix m :: int assume "1 < m" "m < 3"
    then have "m = 2" by simp
    then show "\<not> m dvd n" using assms(2) by simp
  qed simp
  have "d * d \<le> n \<or> e * e \<le> n"
    using mult_left_mono [of d e d] mult_right_mono [of e d e] d e1 e by (cases "d \<le> e") auto
  then show False using small [of d] small [of e] d e e1 by auto
qed (use assms in simp)

lemma PRIMES_prime:
  assumes "i < 17"
  shows "prime_size (PRIMES ! i)"
proof -
  have "list_all (\<lambda>n. trial n 3 \<and> odd n \<and> 2 < n) (take 17 PRIMES)" by code_simp
  moreover have "i < length (take 17 PRIMES)" using assms by (simp add: PRIMES_def)
  ultimately have "trial (take 17 PRIMES ! i) 3 \<and> odd (take 17 PRIMES ! i) \<and> 2 < take 17 PRIMES ! i"
    by (simp add: list_all_length)
  then show ?thesis using assms trial_prime by simp
qed

section \<open>Rehashing\<close>

lemma mask_hash_again: "mask_hash (word_of_int (mask_hash h)) = mask_hash h"
  by (simp add: mask_hash_def)

lemma rehash_loop_ok:
  assumes old: "table_ok old" "hash_key (keyHasher old) (keyComparator old)"
    and "table_ok ht" "keyHasher ht = keyHasher old" "keyComparator ht = keyComparator old"
    and "n \<le> length (elements old)"
    and "\<And>q. lookup ht q = (if \<exists>j\<ge>n. holds old q j then lookup old q else None)"
    and "ht_count ht = int (length (filter occupied (drop n (elements old))))"
    and "ht_count old < ht_length ht"
  shows "\<exists>els. rehash_loop (elements old) ht n = Some (ht\<lparr>elements := els, ht_count := ht_count old\<rparr>) \<and>
     table_ok (ht\<lparr>elements := els, ht_count := ht_count old\<rparr>) \<and>
     lookup (ht\<lparr>elements := els, ht_count := ht_count old\<rparr>) = lookup old"
  using assms(3-9)
proof (induction n arbitrary: ht)
  case 0
  have c: "ht_count ht = ht_count old" using 0(6) old(1) by (simp add: table_ok_def)
  have "lookup ht q = lookup old q" for q
    using 0(5) lookup_None [of old q] by auto
  then show ?case using 0(1) c by (intro exI [of _ "elements ht"]) (simp flip: c add: fun_eq_iff)
next
  case (Suc i)
  let ?o = "elements old ! i"
  have i: "i < length (elements old)" using Suc.prems(4) by simp
  have dr: "drop i (elements old) = ?o # drop (Suc i) (elements old)"
    using i by (simp add: Cons_nth_drop_Suc)
  show ?case
  proof (cases "occupied ?o")
    case False
    then have "(\<exists>j\<ge>Suc i. holds old q j) \<longleftrightarrow> (\<exists>j\<ge>i. holds old q j)" for q
      by (metis holds_def Suc_leD not_less_eq_eq le_antisym)
    then show ?thesis using Suc.IH [of ht] Suc.prems False i dr
      by (simp add: occupied_def)
  next
    case True
    have hk: "hash_key (keyHasher ht) (keyComparator ht)" using old(2) Suc.prems(2,3) by simp
    have hi: "holds old (el_key ?o) i"
      using True i hash_key.cmp_refl [OF old(2)] by (simp add: holds_def)
    have un: "\<And>k i j. holds old k i \<Longrightarrow> holds old k j \<Longrightarrow> i = j" using old(1) by (simp add: table_ok_def)
    have none: "\<forall>j. \<not> holds ht (el_key ?o) j"
      using Suc.prems(5) [of "el_key ?o"] un [OF hi] lookup_None [of ht] by (metis Suc_n_not_le_n)
    have h: "el_hashcode ?o = mask_hash (keyHasher ht (el_key ?o))"
      using old(1) i True Suc.prems(2) by (simp add: table_ok_def slot_ok_def)
    from find_slot_absent [OF Suc.prems(1) none, of "word_of_int (el_hashcode ?o)"]
    obtain e where e: "uhash_find_slot ht (el_key ?o) (word_of_int (el_hashcode ?o)) = Some (Some e)"
      "free_for ht (el_hashcode ?o) e"
      by (metis h mask_hash_again)
    have L: "int (length (elements ht)) = ht_length ht" using Suc.prems(1) by (simp add: table_ok_def)
    have er: "0 \<le> e" "e < int (length (elements ht))" "\<not> occupied (elements ht ! nat e)"
      using e(2) L by (simp_all add: free_for_def)
    define ht1 where "ht1 = ht\<lparr>elements := (elements ht)[nat e := ?o], ht_count := ht_count ht + 1\<rparr>"
    have ch: "changed ht ht1 (nat e) ?o" using er True by (simp add: changed_def ht1_def)
    have "filter occupied (elements old) = filter occupied (take i (elements old)) @ filter occupied (drop i (elements old))"
      by (metis append_take_drop_id filter_append)
    then have "ht_count ht + 1 \<le> ht_count old"
      using old(1) Suc.prems(6) True by (simp add: table_ok_def dr)
    then have lt: "ht_count ht1 < ht_length ht" using Suc.prems(7) by (simp add: ht1_def)
    note st = table_ok_store [OF Suc.prems(1) hk ch lt h, unfolded]
    have fr: "holds ht (el_key ?o) (nat e) \<or>
      (\<forall>j. \<not> holds ht (el_key ?o) j) \<and> free_for ht (mask_hash (keyHasher ht (el_key ?o))) (int (nat e))"
      using none e(2) er h by simp
    have run: "rehash_loop (elements old) ht (Suc i) = rehash_loop (elements old) ht1 i"
      using True e(1) er i by (simp add: occupied_def ht1_def)
    have lk: "lookup ht1 q = (if \<exists>j\<ge>i. holds old q j then lookup old q else None)" for q
    proof (cases "keyComparator old q (el_key ?o)")
      case True
      then have hq: "holds old q i" using hi by (simp add: holds_def)
      then have "lookup old q = Some (el_value ?o)" by (rule lookup_Some [OF old(1)])
      moreover have "lookup ht1 q = Some (el_value ?o)"
        using st(2) [OF fr] True Suc.prems(3) by simp
      ultimately show ?thesis using hq by auto
    next
      case False
      then have "\<not> holds old q i" by (simp add: holds_def)
      then have "(\<exists>j\<ge>Suc i. holds old q j) \<longleftrightarrow> (\<exists>j\<ge>i. holds old q j)"
        by (metis Suc_leD not_less_eq_eq le_antisym)
      then show ?thesis using st(2) [OF fr] False Suc.prems(3,5) by simp
    qed
    have "\<exists>els. rehash_loop (elements old) ht1 i = Some (ht1\<lparr>elements := els, ht_count := ht_count old\<rparr>) \<and>
       table_ok (ht1\<lparr>elements := els, ht_count := ht_count old\<rparr>) \<and>
       lookup (ht1\<lparr>elements := els, ht_count := ht_count old\<rparr>) = lookup old"
      using st(1) [OF fr] Suc.prems i lk True
      by (intro Suc.IH) (simp_all add: ht1_def dr)
    then show ?thesis unfolding run by (simp add: ht1_def)
  qed
qed

lemma rd_PRIMES: "0 \<le> i \<Longrightarrow> i < 28 \<Longrightarrow> rd PRIMES i = Some (PRIMES ! nat i)"
  by (simp add: rd_def PRIMES_def)

text \<open>The table that \<open>_uhash_allocate\<close> leaves behind.\<close>

definition fresh :: "UHashtable \<Rightarrow> int \<Rightarrow> UHashtable" where
  "fresh ht i = (let len = PRIMES ! nat i in
     ht\<lparr>primeIndex := i, ht_length := len, elements := replicate (nat len) empty_element, ht_count := 0,
        lowWaterMark := water_mark len (lowWaterRatio ht), highWaterMark := water_mark len (highWaterRatio ht)\<rparr>)"

lemma uhash_allocate_eq:
  assumes "\<not> U_FAILURE status" "0 \<le> i" "i < 28"
  shows "uhash_allocate malloc ht i status =
    (if malloc (24 * PRIMES ! nat i) then Some (fresh ht i, status)
     else Some (ht\<lparr>primeIndex := i, ht_length := PRIMES ! nat i, elements := []\<rparr>, U_MEMORY_ALLOCATION_ERROR))"
  using assms by (simp add: uhash_allocate_def rd_PRIMES fresh_def Let_def)

lemma fresh_ok:
  assumes "prime_size (PRIMES ! nat i)"
  shows "table_ok (fresh ht i)" "lookup (fresh ht i) = (\<lambda>q. None)"
proof -
  have un: "\<not> occupied empty_element"
    using hash_marks by (simp add: occupied_def empty_element_def IS_EMPTY_OR_DELETED_def)
  have nh: "\<not> holds (fresh ht i) k j" for k j
    using un by (auto simp: holds_def fresh_def Let_def)
  show "lookup (fresh ht i) = (\<lambda>q. None)" using nh lookup_None by auto
  have "2 < PRIMES ! nat i" using assms by (simp add: prime_size_def)
  then show "table_ok (fresh ht i)"
    using assms nh un by (simp add: table_ok_def fresh_def Let_def empty_element_def)
qed

definition size_ok :: "UHashtable \<Rightarrow> bool" where
  "size_ok ht \<longleftrightarrow> 0 \<le> primeIndex ht \<and> primeIndex ht < 28 \<and> ht_length ht \<le> PRIMES ! nat (primeIndex ht) \<and>
     lowWaterMark ht \<le> PRIMES ! nat (primeIndex ht - 1) \<and>
     lowWaterRatio ht \<in> {0, 13421773}"

lemma PRIMES_mono: "0 \<le> i \<Longrightarrow> i < 27 \<Longrightarrow> PRIMES ! nat i < PRIMES ! nat (i + 1)"
proof -
  assume "0 \<le> i" "i < 27"
  then have "nat i < 27" "nat (i + 1) = Suc (nat i)" by simp_all
  moreover have "\<forall>n < 27. PRIMES ! n < PRIMES ! Suc n" unfolding PRIMES_def by code_simp
  ultimately show ?thesis by simp
qed

lemma low_water_fits:
  assumes "0 < i" "i < 28" "r \<in> {0, 13421773}"
  shows "water_mark (PRIMES ! nat i) r \<le> PRIMES ! nat (i - 1)"
proof -
  have "list_all (\<lambda>n. water_mark (PRIMES ! Suc n) 0 \<le> PRIMES ! n \<and> water_mark (PRIMES ! Suc n) 13421773 \<le> PRIMES ! n) [0..<27]"
    by code_simp
  moreover have "nat (i - 1) < 27" "nat i = Suc (nat (i - 1))" using assms by simp_all
  ultimately show ?thesis using assms(3) by (auto simp: list_all_iff)
qed

lemma size_ok_fresh:
  assumes "0 \<le> i" "i < 28" "lowWaterRatio ht \<in> {0, 13421773}"
  shows "size_ok (fresh ht i)"
proof -
  have "water_mark (PRIMES ! 0) (lowWaterRatio ht) \<le> PRIMES ! 0"
  proof -
    have "water_mark (PRIMES ! 0) 0 \<le> PRIMES ! 0 \<and> water_mark (PRIMES ! 0) 13421773 \<le> PRIMES ! 0"
      by code_simp
    then show ?thesis using assms(3) by auto
  qed
  then show ?thesis
    using assms low_water_fits [of i "lowWaterRatio ht"]
    by (cases "i = 0") (auto simp: size_ok_def fresh_def Let_def)
qed

text \<open>The rehash that the water marks ask for, and the index of its new size.\<close>

definition rehash_index :: "UHashtable \<Rightarrow> int option" where
  "rehash_index ht =
     (if ht_count ht > highWaterMark ht
      then (if primeIndex ht + 1 \<ge> 28 then None else Some (primeIndex ht + 1))
      else if ht_count ht < lowWaterMark ht \<and> 0 < primeIndex ht then Some (primeIndex ht - 1)
      else None)"

lemma uhash_rehash_ok:
  assumes ok: "table_ok ht" "hash_key (keyHasher ht) (keyComparator ht)" and sz: "size_ok ht"
    and st: "\<not> U_FAILURE status"
    and pr: "\<And>i. rehash_index ht = Some i \<Longrightarrow> prime_size (PRIMES ! nat i)"
  shows "\<exists>ht' status'. uhash_rehash malloc ht status = Some (ht', status') \<and> table_ok ht' \<and>
    lookup ht' = lookup ht \<and> ht_count ht' = ht_count ht \<and> deletions ht' = deletions ht \<and>
    keyHasher ht' = keyHasher ht \<and> keyComparator ht' = keyComparator ht \<and>
    keyDeleter ht' = keyDeleter ht \<and> valueDeleter ht' = valueDeleter ht \<and>
    (case rehash_index ht of
       None \<Rightarrow> ht' = ht \<and> status' = status
     | Some i \<Rightarrow>
         if malloc (24 * PRIMES ! nat i)
         then size_ok ht' \<and> status' = status \<and> primeIndex ht' = i \<and> ht_length ht' = PRIMES ! nat i
         else ht' = ht\<lparr>primeIndex := i\<rparr> \<and> status' = U_MEMORY_ALLOCATION_ERROR)"
proof (cases "rehash_index ht")
  case None
  then have "uhash_rehash malloc ht status = Some (ht, status)"
    using sz by (auto simp: uhash_rehash_def rehash_index_def PRIMES_LENGTH_def size_ok_def split: if_splits)
  with None ok show ?thesis by simp
next
  case (Some i)
  have i: "0 \<le> i" "i < 28"
    using Some sz by (auto simp: rehash_index_def size_ok_def split: if_splits)
  have run: "uhash_rehash malloc ht status = do {
       (hash, st') \<leftarrow> uhash_allocate malloc ht i status;
       if U_FAILURE st' then Some (hash\<lparr>elements := elements ht, ht_length := ht_length ht\<rparr>, st')
       else do { hash \<leftarrow> rehash_loop (elements ht) hash (nat (ht_length ht)); Some (hash, st') } }"
    using Some sz by (auto simp: uhash_rehash_def rehash_index_def PRIMES_LENGTH_def size_ok_def Let_def split: if_splits)
  have lenPi: "ht_count ht < PRIMES ! nat i"
  proof (cases "ht_count ht > highWaterMark ht")
    case True
    then have "i = primeIndex ht + 1" using Some by (simp add: rehash_index_def split: if_splits)
    then have "PRIMES ! nat (primeIndex ht) < PRIMES ! nat i"
      using i(2) sz by (simp add: PRIMES_mono size_ok_def)
    then show ?thesis using sz ok(1) by (simp add: size_ok_def table_ok_def)
  next
    case False
    then have "i = primeIndex ht - 1" "0 < primeIndex ht" "ht_count ht < lowWaterMark ht"
      using Some by (auto simp: rehash_index_def split: if_splits)
    then show ?thesis using sz by (simp add: size_ok_def)
  qed
  show ?thesis
  proof (cases "malloc (24 * PRIMES ! nat i)")
    case False
    let ?f = "ht\<lparr>primeIndex := i\<rparr>"
    have "uhash_rehash malloc ht status = Some (?f, U_MEMORY_ALLOCATION_ERROR)"
      unfolding run using False i st by (simp add: uhash_allocate_eq)
    moreover have "holds ?f = holds ht" "slot_ok ?f = slot_ok ht" "lookup ?f = lookup ht"
      by (simp_all add: fun_eq_iff holds_def slot_ok_def is_empty_def lookup_def)
    then have "table_ok ?f" "lookup ?f = lookup ht" using ok(1) by (simp_all add: table_ok_def)
    ultimately show ?thesis using Some False by simp
  next
    case True
    let ?n = "fresh ht i"
    have p: "prime_size (PRIMES ! nat i)" using pr Some by simp
    have len: "nat (ht_length ht) = length (elements ht)" using ok(1) by (metis nat_int table_ok_def)
    have none: "\<not> holds ht q j" if "j \<ge> length (elements ht)" for q j using that by (simp add: holds_def)
    have "\<exists>els. rehash_loop (elements ht) ?n (length (elements ht)) = Some (?n\<lparr>elements := els, ht_count := ht_count ht\<rparr>) \<and>
       table_ok (?n\<lparr>elements := els, ht_count := ht_count ht\<rparr>) \<and>
       lookup (?n\<lparr>elements := els, ht_count := ht_count ht\<rparr>) = lookup ht"
      by (rule rehash_loop_ok [OF ok fresh_ok(1) [OF p]])
        (use fresh_ok(2) [OF p] none lenPi in \<open>auto simp: fresh_def Let_def\<close>)
    then obtain els where els: "rehash_loop (elements ht) ?n (length (elements ht)) = Some (?n\<lparr>elements := els, ht_count := ht_count ht\<rparr>)"
      "table_ok (?n\<lparr>elements := els, ht_count := ht_count ht\<rparr>)"
      "lookup (?n\<lparr>elements := els, ht_count := ht_count ht\<rparr>) = lookup ht"
      by blast
    have "uhash_rehash malloc ht status = Some (?n\<lparr>elements := els, ht_count := ht_count ht\<rparr>, status)"
      unfolding run using True i st els(1) len by (simp add: uhash_allocate_eq)
    moreover have "size_ok (?n\<lparr>elements := els, ht_count := ht_count ht\<rparr>)"
      using size_ok_fresh [OF i, of ht] sz by (simp add: size_ok_def)
    ultimately show ?thesis
      using Some True els by (simp add: fresh_def Let_def)
  qed
qed

section \<open>The operations refine the map\<close>

lemma uhash_get_tok_lookup:
  assumes ok: "table_ok ht" "hash_key (keyHasher ht) (keyComparator ht)"
  shows "uhash_get_tok ht key = Some (case lookup ht key of None \<Rightarrow> 0 | Some v \<Rightarrow> v)"
proof (cases "\<exists>i. holds ht key i")
  case True
  then obtain i where i: "holds ht key i" by blast
  then show ?thesis using find_slot_holds [OF ok i] lookup_Some [OF ok(1) i]
    by (simp add: uhash_get_tok_def holds_def)
next
  case False
  then obtain i where i: "uhash_find_slot ht key (keyHasher ht key) = Some (Some i)"
      "free_for ht (mask_hash (keyHasher ht key)) i"
    using find_slot_absent [OF ok(1)] by blast
  have "lookup ht key = None" using False lookup_None by auto
  moreover have "rd (elements ht) i = Some (at ht i)" "el_value (at ht i) = 0"
    using i(2) ok(1) by (auto simp: free_for_def table_ok_def)
  ultimately show ?thesis using i(1) by (simp add: uhash_get_tok_def)
qed

text \<open>What \<open>_uhash_setElement\<close> deletes and leaves behind.\<close>

definition displaced :: "UHashtable \<Rightarrow> UHashElement \<Rightarrow> UHashElement \<Rightarrow> deletion list" where
  "displaced ht old new =
     (if keyDeleter ht \<and> el_key old \<noteq> 0 \<and> el_key old \<noteq> el_key new then [Deleted_key (el_key old)] else []) @
     (if valueDeleter ht \<and> el_value old \<noteq> 0 \<and> el_value old \<noteq> el_value new then [Deleted_value (el_value old)] else [])"

definition stored :: "UHashtable \<Rightarrow> nat \<Rightarrow> UHashElement \<Rightarrow> UHashtable" where
  "stored ht e new =
     (let old = elements ht ! e in
      ht\<lparr>ht_count := ht_count ht - (if occupied old then 1 else 0) + (if occupied new then 1 else 0),
         elements := (elements ht)[e := new], deletions := deletions ht @ displaced ht old new\<rparr>)"

lemma stored_simps [simp]:
  "keyHasher (stored ht e new) = keyHasher ht" "keyComparator (stored ht e new) = keyComparator ht"
  "keyDeleter (stored ht e new) = keyDeleter ht" "valueDeleter (stored ht e new) = valueDeleter ht"
  "ht_length (stored ht e new) = ht_length ht" "primeIndex (stored ht e new) = primeIndex ht"
  "lowWaterMark (stored ht e new) = lowWaterMark ht" "highWaterMark (stored ht e new) = highWaterMark ht"
  "size_ok (stored ht e new) = size_ok ht"
  by (simp_all add: stored_def Let_def size_ok_def)

lemma changed_stored: "e < length (elements ht) \<Longrightarrow> changed ht (stored ht e new) e new"
  by (simp add: changed_def stored_def Let_def)

lemma setElement_stored:
  assumes "e < length (elements ht)"
    "c = ht_count ht - (if occupied (elements ht ! e) then 1 else 0) + (if 0 \<le> hc then 1 else 0)"
  shows "uhash_setElement (ht\<lparr>ht_count := c\<rparr>) (int e) hc key val hint =
    Some (stored ht e \<lparr>el_hashcode = hc, el_value = val, el_key = key\<rparr>,
      if valueDeleter ht then 0 else el_value (elements ht ! e))"
  using assms
  by (simp add: uhash_setElement_def stored_def displaced_def occupied_def IS_EMPTY_OR_DELETED_def Let_def)

lemma uhash_internalRemoveElement_stored:
  assumes "e < length (elements ht)" "occupied (elements ht ! e)"
  shows "uhash_internalRemoveElement ht (int e) =
    Some (stored ht e \<lparr>el_hashcode = HASH_DELETED, el_value = 0, el_key = 0\<rparr>,
      if valueDeleter ht then 0 else el_value (elements ht ! e))"
  unfolding uhash_internalRemoveElement_def
  using assms hash_marks by (intro setElement_stored) auto

lemma size_ok_grown:
  assumes "size_ok ht" "primeIndex ht < 27"
  shows "size_ok (ht\<lparr>primeIndex := primeIndex ht + 1\<rparr>)"
proof -
  have "PRIMES ! nat (primeIndex ht) < PRIMES ! nat (primeIndex ht + 1)"
    using assms by (intro PRIMES_mono) (auto simp: size_ok_def)
  moreover have "PRIMES ! nat (primeIndex ht - 1) \<le> PRIMES ! nat (primeIndex ht)"
    using assms PRIMES_mono [of "primeIndex ht - 1"] by (cases "primeIndex ht = 0") (auto simp: size_ok_def)
  ultimately show ?thesis using assms by (auto simp: size_ok_def)
qed

text \<open>The value that an operation hands back for a displaced entry.\<close>

definition handed_back :: "UHashtable \<Rightarrow> UHashTok \<Rightarrow> UHashTok" where
  "handed_back ht key = (if valueDeleter ht then 0 else case lookup ht key of None \<Rightarrow> 0 | Some v \<Rightarrow> v)"

lemma uhash_remove_tok_ok:
  assumes ok: "table_ok ht" "hash_key (keyHasher ht) (keyComparator ht)" and sz: "size_ok ht"
    and pi: "primeIndex ht < 16"
  shows "\<exists>ht'. uhash_remove_tok malloc ht key = Some (ht', handed_back ht key) \<and> table_ok ht' \<and>
    lookup ht' = (\<lambda>q. if keyComparator ht q key then None else lookup ht q) \<and>
    keyHasher ht' = keyHasher ht \<and> keyComparator ht' = keyComparator ht \<and>
    ((\<forall>n. malloc n) \<longrightarrow> size_ok ht')"
proof (cases "\<exists>i. holds ht key i")
  case False
  then obtain i where i: "uhash_find_slot ht key (keyHasher ht key) = Some (Some i)"
      "free_for ht (mask_hash (keyHasher ht key)) i"
    using find_slot_absent [OF ok(1)] by blast
  have none: "lookup ht key = None" using False lookup_None by auto
  have "lookup ht q = None" if "keyComparator ht q key" for q
    using False that hash_key.cmp_trans [OF ok(2)] hash_key.cmp_sym [OF ok(2)] lookup_None [of ht q]
    unfolding holds_def by blast
  then have "lookup ht = (\<lambda>q. if keyComparator ht q key then None else lookup ht q)" by auto
  moreover have "uhash_remove_tok malloc ht key = Some (ht, 0)"
    using i ok(1) by (auto simp: uhash_remove_tok_def free_for_def occupied_def table_ok_def)
  ultimately show ?thesis using ok sz none by (simp add: handed_back_def)
next
  case True
  then obtain i where i: "holds ht key i" by blast
  then have il: "i < length (elements ht)" "occupied (elements ht ! i)" by (simp_all add: holds_def)
  let ?new = "\<lparr>el_hashcode = HASH_DELETED, el_value = 0, el_key = 0\<rparr>"
  let ?s = "stored ht i ?new"
  have val: "(if valueDeleter ht then 0 else el_value (elements ht ! i)) = handed_back ht key"
    using lookup_Some [OF ok(1) i] by (simp add: handed_back_def)
  have del: "table_ok ?s" "lookup ?s = (\<lambda>q. if keyComparator ht q key then None else lookup ht q)"
    using table_ok_delete [OF ok changed_stored [OF il(1)], of ?new key] i by simp_all
  have run: "uhash_remove_tok malloc ht key =
      (if ht_count ?s < lowWaterMark ?s
       then do { (hash, status) \<leftarrow> uhash_rehash malloc ?s U_ZERO_ERROR; Some (hash, handed_back ht key) }
       else Some (?s, handed_back ht key))"
    using find_slot_holds [OF ok i] il uhash_internalRemoveElement_stored [OF il]
    by (simp add: uhash_remove_tok_def occupied_def val)
  have pr: "prime_size (PRIMES ! nat j)" if "rehash_index ?s = Some j" for j
    using that pi by (intro PRIMES_prime) (auto simp: rehash_index_def split: if_splits)
  have hk: "hash_key (keyHasher ?s) (keyComparator ?s)" using ok(2) by simp
  obtain ht' st' where r: "uhash_rehash malloc ?s U_ZERO_ERROR = Some (ht', st')" "table_ok ht'"
      "lookup ht' = lookup ?s" "keyHasher ht' = keyHasher ?s" "keyComparator ht' = keyComparator ?s"
      "case rehash_index ?s of None \<Rightarrow> ht' = ?s \<and> st' = U_ZERO_ERROR
       | Some i \<Rightarrow> if malloc (24 * PRIMES ! nat i)
           then size_ok ht' \<and> st' = U_ZERO_ERROR \<and> primeIndex ht' = i \<and> ht_length ht' = PRIMES ! nat i
           else ht' = ?s\<lparr>primeIndex := i\<rparr> \<and> st' = U_MEMORY_ALLOCATION_ERROR"
    using uhash_rehash_ok [OF del(1) hk, of U_ZERO_ERROR malloc] sz pr by auto
  have "size_ok ht'" if "\<forall>n. malloc n" using r(6) sz that by (auto split: option.splits)
  then show ?thesis using run del r sz by auto
qed

text \<open>The part of \<open>_uhash_put\<close> after the rehash.\<close>

definition put_entry ::
  "UHashtable \<Rightarrow> UHashTok \<Rightarrow> UHashTok \<Rightarrow> int \<Rightarrow> UErrorCode \<Rightarrow> (UHashtable \<times> UHashTok \<times> UErrorCode) option" where
  "put_entry hash key val hint status = do {
     let hashcode = keyHasher hash key;
     p \<leftarrow> uhash_find_slot hash key hashcode;
     e \<leftarrow> p;
     el \<leftarrow> rd (elements hash) e;
     if IS_EMPTY_OR_DELETED (el_hashcode el) \<and> ht_count hash + 1 = ht_length hash
     then put_err hash key val U_MEMORY_ALLOCATION_ERROR
     else do {
       let hash = (if IS_EMPTY_OR_DELETED (el_hashcode el) then hash\<lparr>ht_count := ht_count hash + 1\<rparr> else hash);
       (hash, old) \<leftarrow> uhash_setElement hash e (uint (hashcode AND 0x7FFFFFFF)) key val hint;
       Some (hash, old, status) } }"

lemma put_entry_ok:
  assumes ok: "table_ok ht" "hash_key (keyHasher ht) (keyComparator ht)" and sz: "size_ok ht"
    and st: "\<not> U_FAILURE status"
  shows "\<exists>ht' old st'. put_entry ht key val hint status = Some (ht', old, st') \<and> table_ok ht' \<and> size_ok ht' \<and>
    keyHasher ht' = keyHasher ht \<and> keyComparator ht' = keyComparator ht \<and>
    (if U_FAILURE st' then st' = U_MEMORY_ALLOCATION_ERROR \<and> lookup ht' = lookup ht \<and> old = 0 \<and>
         ht_count ht + 1 = ht_length ht \<and> lookup ht key = None
     else st' = status \<and> lookup ht' = (\<lambda>q. if keyComparator ht q key then Some val else lookup ht q) \<and>
       old = handed_back ht key)"
proof -
  let ?h = "mask_hash (keyHasher ht key)"
  let ?new = "\<lparr>el_hashcode = ?h, el_value = val, el_key = key\<rparr>"
  have store: "table_ok (stored ht i ?new) \<and>
      lookup (stored ht i ?new) = (\<lambda>q. if keyComparator ht q key then Some val else lookup ht q)"
    if "i < length (elements ht)" "ht_count (stored ht i ?new) < ht_length ht"
      "holds ht key i \<or> (\<forall>j. \<not> holds ht key j) \<and> free_for ht ?h (int i)" for i
    using table_ok_store [OF ok changed_stored [OF that(1)], of ?new] that(2,3) by (simp cong: if_cong)
  have occ: "occupied ?new" using mask_hash_range(1) [of "keyHasher ht key"] by (simp add: occupied_def IS_EMPTY_OR_DELETED_def)
  show ?thesis
  proof (cases "\<exists>i. holds ht key i")
    case True
    then obtain i where i: "holds ht key i" by blast
    then have il: "i < length (elements ht)" "occupied (elements ht ! i)" by (simp_all add: holds_def)
    have "ht_count (stored ht i ?new) = ht_count ht" using il occ by (simp add: stored_def Let_def)
    then have s: "table_ok (stored ht i ?new)"
        "lookup (stored ht i ?new) = (\<lambda>q. if keyComparator ht q key then Some val else lookup ht q)"
      using store [OF il(1)] i ok(1) by (auto simp: table_ok_def)
    have "uhash_setElement (ht\<lparr>ht_count := ht_count ht\<rparr>) (int i) ?h key val hint =
        Some (stored ht i ?new, if valueDeleter ht then 0 else el_value (elements ht ! i))"
      using il mask_hash_range(1) by (intro setElement_stored) auto
    then have "put_entry ht key val hint status = Some (stored ht i ?new, handed_back ht key, status)"
      using find_slot_holds [OF ok i] il lookup_Some [OF ok(1) i]
      by (simp add: put_entry_def occupied_def mask_hash_def [symmetric] handed_back_def)
    then show ?thesis using s sz st by simp
  next
    case False
    then obtain e where e: "uhash_find_slot ht key (keyHasher ht key) = Some (Some e)" "free_for ht ?h e"
      using find_slot_absent [OF ok(1)] by blast
    then obtain i where i: "e = int i" by (metis free_for_def nonneg_int_cases)
    have L: "int (length (elements ht)) = ht_length ht" using ok(1) by (simp add: table_ok_def)
    have il: "i < length (elements ht)" "\<not> occupied (elements ht ! i)"
      using e(2) i L by (auto simp: free_for_def)
    have none: "lookup ht key = None" using False lookup_None by auto
    show ?thesis
    proof (cases "ht_count ht + 1 = ht_length ht")
      case True
      let ?f = "ht\<lparr>deletions := deletions ht @ (if keyDeleter ht \<and> key \<noteq> 0 then [Deleted_key key] else [])
             @ (if valueDeleter ht \<and> val \<noteq> 0 then [Deleted_value val] else [])\<rparr>"
      have "holds ?f = holds ht" "slot_ok ?f = slot_ok ht" "lookup ?f = lookup ht"
        by (simp_all add: fun_eq_iff holds_def slot_ok_def is_empty_def lookup_def)
      then have "table_ok ?f" "lookup ?f = lookup ht" "size_ok ?f"
        using ok(1) sz by (simp_all add: table_ok_def size_ok_def)
      moreover have "put_entry ht key val hint status = Some (?f, 0, U_MEMORY_ALLOCATION_ERROR)"
        using e i il True by (simp add: put_entry_def occupied_def put_err_def)
      ultimately show ?thesis using True none by simp
    next
      case False': False
      have c: "ht_count (stored ht i ?new) = ht_count ht + 1" using il occ by (simp add: stored_def Let_def)
      have "ht_count ht < ht_length ht" using ok(1) by (simp add: table_ok_def)
      then have s: "table_ok (stored ht i ?new)"
          "lookup (stored ht i ?new) = (\<lambda>q. if keyComparator ht q key then Some val else lookup ht q)"
        using store [OF il(1)] False False' e(2) i c by auto
      have "uhash_setElement (ht\<lparr>ht_count := ht_count ht + 1\<rparr>) (int i) ?h key val hint =
          Some (stored ht i ?new, if valueDeleter ht then 0 else el_value (elements ht ! i))"
        using il mask_hash_range(1) by (intro setElement_stored) auto
      moreover have "el_value (elements ht ! i) = 0"
        using ok(1) il by (auto simp: table_ok_def)
      ultimately have "put_entry ht key val hint status = Some (stored ht i ?new, handed_back ht key, status)"
        using e i il False' none
        by (simp add: put_entry_def occupied_def mask_hash_def [symmetric] handed_back_def)
      then show ?thesis using s sz st by simp
    qed
  qed
qed

lemma uhash_put_tok_ok:
  assumes ok: "table_ok ht" "hash_key (keyHasher ht) (keyComparator ht)" and sz: "size_ok ht"
    and pi: "primeIndex ht < 16" and st: "\<not> U_FAILURE status"
    and hint: "hint AND HINT_VALUE_POINTER = 0 \<or> val \<noteq> 0"
  shows "\<exists>ht' old st'. uhash_put_tok malloc ht key val hint status = Some (ht', old, st') \<and> table_ok ht' \<and> size_ok ht' \<and>
    keyHasher ht' = keyHasher ht \<and> keyComparator ht' = keyComparator ht \<and>
    (if U_FAILURE st' then st' = U_MEMORY_ALLOCATION_ERROR \<and> lookup ht' = lookup ht \<and> old = 0
     else st' = status \<and> lookup ht' = (\<lambda>q. if keyComparator ht q key then Some val else lookup ht q) \<and>
       old = handed_back ht key)"
proof -
  have nh: "\<not> (hint AND HINT_VALUE_POINTER \<noteq> 0 \<and> val = 0)" using hint by blast
  have run: "uhash_put_tok malloc ht key val hint status = do {
      (hash, status) \<leftarrow> (if ht_count ht > highWaterMark ht then uhash_rehash malloc ht status
                          else Some (ht, status));
      if U_FAILURE status then put_err hash key val status else put_entry hash key val hint status }"
    unfolding uhash_put_tok_def put_entry_def by (simp only: st nh if_False)
  show ?thesis
  proof (cases "ht_count ht > highWaterMark ht")
    case False
    then show ?thesis using put_entry_ok [OF ok sz st, of key val hint] st unfolding run by force
  next
    case True
    have pr: "prime_size (PRIMES ! nat j)" if "rehash_index ht = Some j" for j
      using that pi by (intro PRIMES_prime) (auto simp: rehash_index_def split: if_splits)
    have ri: "rehash_index ht = Some (primeIndex ht + 1)" using True pi by (simp add: rehash_index_def)
    obtain h1 s1 where r: "uhash_rehash malloc ht status = Some (h1, s1)" "table_ok h1" "lookup h1 = lookup ht"
        "keyHasher h1 = keyHasher ht" "keyComparator h1 = keyComparator ht" "valueDeleter h1 = valueDeleter ht"
        "if malloc (24 * PRIMES ! nat (primeIndex ht + 1))
         then size_ok h1 \<and> s1 = status
         else h1 = ht\<lparr>primeIndex := primeIndex ht + 1\<rparr> \<and> s1 = U_MEMORY_ALLOCATION_ERROR"
      using uhash_rehash_ok [OF ok sz st, of malloc] pr ri by auto
    show ?thesis
    proof (cases "U_FAILURE s1")
      case True': True
      let ?f = "h1\<lparr>deletions := deletions h1 @ (if keyDeleter h1 \<and> key \<noteq> 0 then [Deleted_key key] else [])
             @ (if valueDeleter h1 \<and> val \<noteq> 0 then [Deleted_value val] else [])\<rparr>"
      have h1: "h1 = ht\<lparr>primeIndex := primeIndex ht + 1\<rparr>" "s1 = U_MEMORY_ALLOCATION_ERROR"
        using r(7) True' st by (auto split: if_splits)
      have "size_ok h1" using size_ok_grown [OF sz] pi h1 by simp
      then have "size_ok ?f" by (simp add: size_ok_def)
      moreover have "holds ?f = holds h1" "slot_ok ?f = slot_ok h1" "lookup ?f = lookup h1"
        by (simp_all add: fun_eq_iff holds_def slot_ok_def is_empty_def lookup_def)
      then have "table_ok ?f" "lookup ?f = lookup ht"
        using r(2,3) by (simp_all add: table_ok_def)
      moreover have "uhash_put_tok malloc ht key val hint status = Some (?f, 0, U_MEMORY_ALLOCATION_ERROR)"
        using run True r(1) True' h1(2) by (simp add: put_err_def)
      ultimately show ?thesis using r by simp
    next
      case False
      then have "size_ok h1" "s1 = status" using r(7) by (auto split: if_splits)
      moreover have hb: "handed_back h1 key = handed_back ht key" using r by (simp add: handed_back_def)
      moreover have hk: "hash_key (keyHasher h1) (keyComparator h1)" using r ok(2) by simp
      ultimately obtain ht' old st' where P: "put_entry h1 key val hint status = Some (ht', old, st')"
          "table_ok ht'" "size_ok ht'" "keyHasher ht' = keyHasher h1" "keyComparator ht' = keyComparator h1"
          "if U_FAILURE st' then st' = U_MEMORY_ALLOCATION_ERROR \<and> lookup ht' = lookup h1 \<and> old = 0
           else st' = status \<and> lookup ht' = (\<lambda>q. if keyComparator h1 q key then Some val else lookup h1 q) \<and>
             old = handed_back h1 key"
        using put_entry_ok [OF r(2) hk _ st, of key val hint] by (auto split: if_splits)
      have "uhash_put_tok malloc ht key val hint status = Some (ht', old, st')"
        using run True r(1) \<open>s1 = status\<close> st P(1) by simp
      then show ?thesis using P(2-6) unfolding r(3-5) hb by blast
    qed
  qed
qed

section \<open>Iteration\<close>

text \<open>The indices of the occupied slots from \<open>i\<close> on, in the order of \<open>uhash_nextElement\<close>.\<close>

definition occ_from :: "UHashtable \<Rightarrow> nat \<Rightarrow> nat list" where
  "occ_from ht i = filter (\<lambda>j. occupied (elements ht ! j)) [i..<length (elements ht)]"

lemma occ_from_step:
  "i < length (elements ht) \<Longrightarrow>
    occ_from ht i = (if occupied (elements ht ! i) then [i] else []) @ occ_from ht (Suc i)"
  by (simp add: occ_from_def upt_conv_Cons)

lemma occ_from_end: "length (elements ht) \<le> i \<Longrightarrow> occ_from ht i = []"
  by (simp add: occ_from_def)

lemma occ_from_tail: "occ_from ht i = j # js \<Longrightarrow> js = occ_from ht (Suc j) \<and> j < length (elements ht) \<and> i \<le> j \<and> occupied (elements ht ! j)"
proof (induction "length (elements ht) - i" arbitrary: i)
  case 0
  then show ?case by (simp add: occ_from_end)
next
  case (Suc n)
  then have "i < length (elements ht)" "n = length (elements ht) - Suc i" by simp_all
  then show ?case using Suc.hyps(1) [of "Suc i"] Suc.hyps(2) Suc.prems
    by (auto simp: occ_from_step split: if_splits)
qed

lemma next_from_occ:
  assumes "int (length (elements ht)) = ht_length ht"
  shows "next_from ht (int i) = Some (case occ_from ht i of [] \<Rightarrow> None | j # js \<Rightarrow> Some (int j))"
proof (induction "length (elements ht) - i" arbitrary: i)
  case 0
  then show ?case using assms by (subst next_from.simps) (simp add: occ_from_end)
next
  case (Suc n)
  have i: "i < length (elements ht)" and n: "n = length (elements ht) - Suc i" using Suc(2) by simp_all
  have step: "next_from ht (int i) =
      (if occupied (elements ht ! i) then Some (Some (int i)) else next_from ht (int (Suc i)))"
    using i assms by (subst next_from.simps) (simp add: occupied_def add.commute)
  show ?case unfolding step using Suc(1) [OF n] i by (simp add: occ_from_step)
qed

lemma length_occ_from: "length (occ_from ht 0) = length (filter occupied (elements ht))"
proof -
  have "filter occupied (elements ht) = map ((!) (elements ht)) (occ_from ht 0)"
    unfolding occ_from_def by (subst map_nth [symmetric]) (simp add: filter_map comp_def)
  then show ?thesis by simp
qed

section \<open>Equality of tables\<close>

definition value_or_null :: "UHashtable \<Rightarrow> UHashTok \<Rightarrow> UHashTok" where
  "value_or_null ht key = (case lookup ht key of None \<Rightarrow> 0 | Some v \<Rightarrow> v)"

lemma equals_loop_occ:
  assumes h1: "int (length (elements h1)) = ht_length h1"
    and h2: "table_ok h2" "hash_key (keyHasher h2) (keyComparator h2)"
  shows "equals_loop h1 h2 cmp (length (occ_from h1 i)) (int i - 1) =
    Some (list_all (\<lambda>j. cmp (el_value (elements h1 ! j)) (value_or_null h2 (el_key (elements h1 ! j)))) (occ_from h1 i))"
proof (induction "occ_from h1 i" arbitrary: i)
  case Nil
  then show ?case by (simp flip: Nil)
next
  case (Cons j js)
  have t: "js = occ_from h1 (Suc j)" "j < length (elements h1)" using occ_from_tail [of h1 i j js] Cons(2) by auto
  let ?k = "el_key (elements h1 ! j)"
  have n: "uhash_nextElement h1 (int i - 1) = Some (Some (int j))"
    using next_from_occ [OF h1, of i] Cons(2) [symmetric] by (simp add: uhash_nextElement_def)
  have g: "do { p2 \<leftarrow> uhash_find_slot h2 ?k (keyHasher h2 ?k); e2 \<leftarrow> p2; el \<leftarrow> rd (elements h2) e2; Some (el_value el) } =
      Some (value_or_null h2 ?k)"
    using uhash_get_tok_lookup [OF h2, of ?k] by (simp add: uhash_get_tok_def value_or_null_def)
  then obtain e2 el where e: "uhash_find_slot h2 ?k (keyHasher h2 ?k) = Some (Some e2)"
      "rd (elements h2) e2 = Some el" "el_value el = value_or_null h2 ?k"
    by (auto simp: bind_Some_iff)
  have "equals_loop h1 h2 cmp (length js) (int j) =
      Some (list_all (\<lambda>j. cmp (el_value (elements h1 ! j)) (value_or_null h2 (el_key (elements h1 ! j)))) js)"
    using Cons(1) [of "Suc j"] t(1) by simp
  then show ?case using n e t(2) by (simp flip: Cons(2))
qed

lemma uhash_equals_eq:
  assumes ok: "table_ok h1" "table_ok h2" "hash_key (keyHasher h2) (keyComparator h2)"
    and same: "keyComparator h1 = keyComparator h2" "valueComparator h1 = Some cmp" "valueComparator h2 = Some cmp"
  shows "uhash_equals False (Some h1) (Some h2) = Some
    (ht_count h1 = ht_count h2 \<and>
     (\<forall>el \<in> set (elements h1). occupied el \<longrightarrow> cmp (el_value el) (value_or_null h2 (el_key el))))"
proof -
  have L: "int (length (elements h1)) = ht_length h1" and c: "nat (ht_count h1) = length (occ_from h1 0)"
    using ok(1) by (simp_all add: table_ok_def length_occ_from)
  have "list_all (\<lambda>j. cmp (el_value (elements h1 ! j)) (value_or_null h2 (el_key (elements h1 ! j)))) (occ_from h1 0) \<longleftrightarrow>
      (\<forall>el \<in> set (elements h1). occupied el \<longrightarrow> cmp (el_value el) (value_or_null h2 (el_key el)))"
    unfolding list_all_iff occ_from_def all_set_conv_all_nth [of "elements h1"] by auto
  moreover have "equals_loop h1 h2 cmp (nat (ht_count h1)) UHASH_FIRST =
      Some (list_all (\<lambda>j. cmp (el_value (elements h1 ! j)) (value_or_null h2 (el_key (elements h1 ! j)))) (occ_from h1 0))"
    using equals_loop_occ [OF L ok(2,3), of cmp 0] c by (simp add: UHASH_FIRST_def)
  ultimately show ?thesis using same by (auto simp: uhash_equals_def uhash_count_def)
qed

section \<open>Emptying a table\<close>

lemma removeElement_ok:
  assumes ok: "table_ok ht" "hash_key (keyHasher ht) (keyComparator ht)"
    and j: "j < length (elements ht)" "occupied (elements ht ! j)"
  shows "\<exists>ht'. uhash_removeElement ht (int j) = Some (ht', if valueDeleter ht then 0 else el_value (elements ht ! j)) \<and>
    table_ok ht' \<and> keyHasher ht' = keyHasher ht \<and> keyComparator ht' = keyComparator ht \<and> ht_length ht' = ht_length ht \<and>
    length (elements ht') = length (elements ht) \<and> occ_from ht' (Suc j) = occ_from ht (Suc j) \<and>
    (\<forall>i \<le> j. i < length (elements ht) \<longrightarrow> occupied (elements ht' ! i) \<longleftrightarrow> i \<noteq> j \<and> occupied (elements ht ! i))"
proof -
  let ?new = "\<lparr>el_hashcode = HASH_DELETED, el_value = 0, el_key = 0\<rparr>"
  have "holds ht (el_key (elements ht ! j)) j" using j hash_key.cmp_refl [OF ok(2)] by (simp add: holds_def)
  then have "table_ok (stored ht j ?new)"
    using table_ok_delete(1) [OF ok changed_stored [OF j(1)], of ?new "el_key (elements ht ! j)"] by simp
  moreover have "uhash_removeElement ht (int j) =
      Some (stored ht j ?new, if valueDeleter ht then 0 else el_value (elements ht ! j))"
    using uhash_internalRemoveElement_stored [OF j] j by (simp add: uhash_removeElement_def occupied_def)
  moreover have "\<not> occupied ?new" using hash_marks by (simp add: occupied_def IS_EMPTY_OR_DELETED_def)
  moreover have "occ_from (stored ht j ?new) (Suc j) = occ_from ht (Suc j)"
    by (auto simp: occ_from_def stored_def Let_def intro!: filter_cong)
  ultimately show ?thesis using j by (auto simp: stored_def Let_def nth_list_update)
qed

lemma removeAll_loop_ok:
  assumes "table_ok ht" "hash_key (keyHasher ht) (keyComparator ht)"
    and "\<forall>j < i. j < length (elements ht) \<longrightarrow> \<not> occupied (elements ht ! j)"
  shows "\<exists>ht'. removeAll_loop ht (int i - 1) = Some ht' \<and> table_ok ht' \<and> ht_length ht' = ht_length ht \<and>
    keyHasher ht' = keyHasher ht \<and> keyComparator ht' = keyComparator ht \<and>
    (\<forall>j < length (elements ht'). \<not> occupied (elements ht' ! j))"
  using assms
proof (induction "length (occ_from ht i)" arbitrary: i ht)
  case 0
  have L: "int (length (elements ht)) = ht_length ht" using 0(2) by (simp add: table_ok_def)
  have e: "occ_from ht i = []" using 0(1) by simp
  then have "\<not> occupied (elements ht ! j)" if "j < length (elements ht)" for j
    using 0(4) that by (cases "j < i") (auto simp: occ_from_def filter_empty_conv)
  then show ?case using 0(2) next_from_occ [OF L, of i] e
    by (subst removeAll_loop.simps) (simp add: uhash_nextElement_def)
next
  case (Suc n)
  have L: "int (length (elements ht)) = ht_length ht" using Suc(3) by (simp add: table_ok_def)
  obtain j js where e: "occ_from ht i = j # js" using Suc(2) by (cases "occ_from ht i") auto
  note t = occ_from_tail [OF e]
  obtain ht1 v where r: "uhash_removeElement ht (int j) = Some (ht1, v)" "table_ok ht1"
      "keyHasher ht1 = keyHasher ht" "keyComparator ht1 = keyComparator ht" "ht_length ht1 = ht_length ht"
      "length (elements ht1) = length (elements ht)" "occ_from ht1 (Suc j) = occ_from ht (Suc j)"
      "\<forall>i \<le> j. i < length (elements ht) \<longrightarrow> occupied (elements ht1 ! i) \<longleftrightarrow> i \<noteq> j \<and> occupied (elements ht ! i)"
    using removeElement_ok [OF Suc(3,4), of j] t by blast
  have before: "\<not> occupied (elements ht ! k)" if "k < j" for k
  proof (cases "k < i")
    case False
    have "sorted (occ_from ht i)" by (simp add: occ_from_def sorted_wrt_filter)
    then have "k \<notin> set (occ_from ht i)" using e that by auto
    then show ?thesis using False that t by (auto simp: occ_from_def)
  qed (use Suc(5) that t in auto)
  have "length (occ_from ht1 (Suc j)) = n" using Suc(2) e t r(7) by simp
  moreover have "\<forall>k < Suc j. k < length (elements ht1) \<longrightarrow> \<not> occupied (elements ht1 ! k)"
    using r(6,8) before by (auto simp: less_Suc_eq_le)
  ultimately obtain ht' where "removeAll_loop ht1 (int (Suc j) - 1) = Some ht' \<and> table_ok ht' \<and> ht_length ht' = ht_length ht1 \<and>
      keyHasher ht' = keyHasher ht1 \<and> keyComparator ht' = keyComparator ht1 \<and>
      (\<forall>j < length (elements ht'). \<not> occupied (elements ht' ! j))"
    using Suc(1) [of ht1 "Suc j"] r(2-4) Suc(4) by auto
  then show ?case using r next_from_occ [OF L, of i] e
    by (subst removeAll_loop.simps) (simp add: uhash_nextElement_def)
qed

lemma uhash_removeAll_ok:
  assumes ok: "table_ok ht" "hash_key (keyHasher ht) (keyComparator ht)"
  shows "\<exists>ht'. uhash_removeAll ht = Some ht' \<and> table_ok ht' \<and> ht_length ht' = ht_length ht \<and>
    uhash_count ht' = 0 \<and> lookup ht' = (\<lambda>q. None)"
proof (cases "ht_count ht = 0")
  case True
  then have "filter occupied (elements ht) = []" using ok(1) by (simp add: table_ok_def)
  then have "lookup ht q = None" for q using lookup_None by (auto simp: filter_empty_conv holds_def)
  then show ?thesis using True ok by (auto simp: uhash_removeAll_def uhash_count_def)
next
  case False
  obtain ht' where r: "removeAll_loop ht (int 0 - 1) = Some ht'" "table_ok ht'" "ht_length ht' = ht_length ht"
      "\<forall>j < length (elements ht'). \<not> occupied (elements ht' ! j)"
    using removeAll_loop_ok [OF ok, of 0] by auto
  then have "filter occupied (elements ht') = []" by (auto simp: filter_empty_conv in_set_conv_nth)
  then have "ht_count ht' = 0" using r(2) by (simp add: table_ok_def)
  moreover have "lookup ht' q = None" for q using r(4) lookup_None by (auto simp: holds_def)
  ultimately show ?thesis using r False by (auto simp: uhash_removeAll_def uhash_count_def UHASH_FIRST_def)
qed

section \<open>Opening a table, integer keys\<close>

lemma uhash_open_ok:
  assumes "\<forall>n. malloc n" "\<not> U_FAILURE status"
  shows "\<exists>ht. uhash_open malloc keyHash keyComp valueComp status = Some (Some ht, status) \<and>
    table_ok ht \<and> size_ok ht \<and> lookup ht = (\<lambda>q. None) \<and> primeIndex ht = 3 \<and>
    keyHasher ht = keyHash \<and> keyComparator ht = keyComp \<and> valueComparator ht = valueComp \<and>
    ht_count ht = 0 \<and> ht_length ht = 127 \<and> highWaterMark ht = 63"
proof -
  let ?t = "(init_table keyHash keyComp valueComp)\<lparr>lowWaterRatio := 0, highWaterRatio := 2 ^ 26\<rparr>"
  let ?h = "(fresh ?t 3)\<lparr>allocated := True\<rparr>"
  have p: "prime_size (PRIMES ! nat 3)" by (rule PRIMES_prime) simp
  have "uhash_internalSetResizePolicy (init_table keyHash keyComp valueComp) U_GROW = Some ?t"
    by (simp add: uhash_internalSetResizePolicy_def RESIZE_POLICY_RATIO_TABLE_def rd_def)
  then have "uhash_open malloc keyHash keyComp valueComp status = Some (Some ?h, status)"
    using assms by (simp add: uhash_open_def uhash_create_def uhash_init_at_def DEFAULT_PRIME_INDEX_def uhash_allocate_eq)
  moreover have "table_ok ?h" "lookup ?h = (\<lambda>q. None)"
  proof -
    have "holds ?h = holds (fresh ?t 3)" "slot_ok ?h = slot_ok (fresh ?t 3)" "lookup ?h = lookup (fresh ?t 3)"
      by (simp_all add: fun_eq_iff holds_def slot_ok_def is_empty_def lookup_def)
    then show "table_ok ?h" "lookup ?h = (\<lambda>q. None)"
      using fresh_ok [OF p, of ?t] by (simp_all add: table_ok_def)
  qed
  moreover have "size_ok ?h" using size_ok_fresh [of 3 ?t] by (simp add: size_ok_def)
  moreover have "water_mark 127 67108864 = 63" by code_simp
  moreover have "PRIMES ! 3 = 127" by (simp add: PRIMES_def)
  ultimately show ?thesis by (intro exI [of _ ?h]) (simp add: fresh_def Let_def init_table_def)
qed

interpretation long: hash_key uhash_hashLong uhash_compareLong
  by unfold_locales (auto simp: uhash_hashLong_def uhash_compareLong_def)

lemma tok_integer_tok [simp]: "tok_integer (integer_tok i) = i"
  unfolding tok_integer_def integer_tok_def by (rule bit_word_eqI) (simp add: bit_ucast_iff)

lemma compareLong_tok [simp]: "uhash_compareLong (integer_tok a) (integer_tok b) \<longleftrightarrow> a = b"
  by (simp add: uhash_compareLong_def)

text \<open>A table of 13 slots with one entry.\<close>

definition single :: "UHashTok \<Rightarrow> UHashTok \<Rightarrow> UHashtable" where
  "single k v = (let t = init_table uhash_hashLong uhash_compareLong (Some uhash_compareLong); h = mask_hash (uhash_hashLong k) in
     stored (fresh t 0) (nat (hash_start 13 h)) \<lparr>el_hashcode = h, el_value = v, el_key = k\<rparr>)"

lemma single_ok:
  "table_ok (single k v)" "lookup (single k v) = (\<lambda>q. if uhash_compareLong q k then Some v else None)"
  "ht_count (single k v) = 1" "keyHasher (single k v) = uhash_hashLong" "keyComparator (single k v) = uhash_compareLong"
  "valueComparator (single k v) = Some uhash_compareLong"
  "el \<in> set (elements (single k v)) \<Longrightarrow> occupied el \<Longrightarrow> el_key el = k \<and> el_value el = v"
proof -
  let ?t = "fresh (init_table uhash_hashLong uhash_compareLong (Some uhash_compareLong)) 0"
  let ?h = "mask_hash (uhash_hashLong k)" and ?i = "nat (hash_start 13 (mask_hash (uhash_hashLong k)))"
  let ?el = "\<lparr>el_hashcode = ?h, el_value = v, el_key = k\<rparr>"
  have P0: "PRIMES ! 0 = 13" by (simp add: PRIMES_def)
  have p: "prime_size (PRIMES ! nat 0)" by (rule PRIMES_prime) simp
  note ok = fresh_ok [OF p]
  have un: "\<not> occupied empty_element"
    using hash_marks by (simp add: occupied_def empty_element_def IS_EMPTY_OR_DELETED_def)
  have occ: "occupied ?el" using mask_hash_range(1) [of "uhash_hashLong k"]
    by (simp add: occupied_def IS_EMPTY_OR_DELETED_def)
  have f: "keyHasher ?t = uhash_hashLong" "keyComparator ?t = uhash_compareLong" "ht_length ?t = 13"
    "valueComparator ?t = Some uhash_compareLong" "ht_count ?t = 0" "elements ?t = replicate 13 empty_element"
    by (simp_all add: fresh_def Let_def init_table_def P0)
  have i: "0 \<le> hash_start 13 ?h" "hash_start 13 ?h < 13" by (simp_all add: hash_start_def)
  then have il: "?i < length (elements ?t)" "elements ?t ! ?i = empty_element" by (simp_all add: f)
  have S: "single k v = stored ?t ?i ?el" by (simp add: single_def Let_def)
  have "probes 13 ?h = hash_start 13 ?h # map (probe 13 ?h) [1..<13]"
    using probe_0 [of 13 ?h] by (simp add: probes_def upt_conv_Cons)
  then have "free_for ?t ?h (int ?i)" using i il un by (simp add: free_for_def f)
  moreover have "\<forall>j. \<not> holds ?t k j" using lookup_None [of ?t k] ok(2) by simp
  ultimately show "table_ok (single k v)" "lookup (single k v) = (\<lambda>q. if uhash_compareLong q k then Some v else None)"
    using table_ok_store [OF ok(1) _ changed_stored [OF il(1)], of ?el] long.hash_key_axioms occ un il ok(2)
    unfolding S by (simp_all add: f stored_def Let_def cong: if_cong)
  show "ht_count (single k v) = 1" using occ un il unfolding S by (simp add: stored_def Let_def f)
  show "keyHasher (single k v) = uhash_hashLong" "keyComparator (single k v) = uhash_compareLong"
    "valueComparator (single k v) = Some uhash_compareLong"
    unfolding S by (simp_all add: f) (simp add: stored_def Let_def f)
  assume "el \<in> set (elements (single k v))" "occupied el"
  moreover have "set (elements (single k v)) \<subseteq> {?el, empty_element}"
    unfolding S using set_update_subset_insert [of "elements ?t" ?i ?el] by (auto simp: stored_def Let_def f)
  ultimately show "el_key el = k \<and> el_value el = v" using un by auto
qed

section \<open>Properties\<close>

text \<open>
  C4: \<open>_uhash_put\<close> refines the update of a map. On a well-formed table it returns, keeps the
  table well-formed, and either stores the value under every key that the comparator identifies
  with the given one, handing back the old value, or fails for lack of memory with the contents
  unchanged. The value is not a NULL pointer here, and the table is below a million slots.
\<close>
theorem uhash_put_refines_map:
  assumes "table_ok ht" "hash_key (keyHasher ht) (keyComparator ht)" "size_ok ht"
    and "primeIndex ht < 16" "\<not> U_FAILURE status" "hint AND HINT_VALUE_POINTER = 0 \<or> val \<noteq> 0"
  shows "\<exists>ht' old st'. uhash_put_tok malloc ht key val hint status = Some (ht', old, st') \<and> table_ok ht' \<and> size_ok ht' \<and>
    keyHasher ht' = keyHasher ht \<and> keyComparator ht' = keyComparator ht \<and>
    (if U_FAILURE st' then st' = U_MEMORY_ALLOCATION_ERROR \<and> lookup ht' = lookup ht \<and> old = 0
     else st' = status \<and> lookup ht' = (\<lambda>q. if keyComparator ht q key then Some val else lookup ht q) \<and>
       old = handed_back ht key)"
  using assms by (rule uhash_put_tok_ok)

theorem uhash_put_refines_map_witness:
  "\<exists>ht ht' old st'. uhash_open (\<lambda>n. True) uhash_hashLong uhash_compareLong None U_ZERO_ERROR = Some (Some ht, U_ZERO_ERROR) \<and>
    uhash_put_tok (\<lambda>n. True) ht 5 7 HINT_VALUE_POINTER U_ZERO_ERROR = Some (ht', old, st') \<and> table_ok ht'"
proof -
  obtain ht where h: "uhash_open (\<lambda>n. True) uhash_hashLong uhash_compareLong None U_ZERO_ERROR = Some (Some ht, U_ZERO_ERROR)"
    "table_ok ht" "size_ok ht" "primeIndex ht = 3" "keyHasher ht = uhash_hashLong" "keyComparator ht = uhash_compareLong"
    using uhash_open_ok [of "\<lambda>n. True" U_ZERO_ERROR uhash_hashLong uhash_compareLong None] by auto
  have k: "hash_key (keyHasher ht) (keyComparator ht)" unfolding h(5,6) by (rule long.hash_key_axioms)
  from uhash_put_refines_map [OF h(2) k h(3), of U_ZERO_ERROR HINT_VALUE_POINTER 7 "\<lambda>n. True" 5] h(1,4)
  show ?thesis by fastforce
qed

text \<open>
  \<open>uhash_get\<close> returns the value that the table holds for the key, and NULL when it holds none.
\<close>
lemma uhash_get_refines_map:
  assumes "table_ok ht" "hash_key (keyHasher ht) (keyComparator ht)"
  shows "uhash_get ht key = Some (case lookup ht key of None \<Rightarrow> 0 | Some v \<Rightarrow> v)"
  using uhash_get_tok_lookup [OF assms] by (simp add: uhash_get_def)

lemma uhash_get_refines_map_witness:
  "\<exists>ht. uhash_open (\<lambda>n. True) uhash_hashLong uhash_compareLong None U_ZERO_ERROR = Some (Some ht, U_ZERO_ERROR) \<and>
    uhash_get ht 5 = Some 0"
proof -
  obtain ht where h: "uhash_open (\<lambda>n. True) uhash_hashLong uhash_compareLong None U_ZERO_ERROR = Some (Some ht, U_ZERO_ERROR)"
    "table_ok ht" "lookup ht = (\<lambda>q. None)" "keyHasher ht = uhash_hashLong" "keyComparator ht = uhash_compareLong"
    using uhash_open_ok [of "\<lambda>n. True" U_ZERO_ERROR uhash_hashLong uhash_compareLong None] by auto
  have k: "hash_key (keyHasher ht) (keyComparator ht)" unfolding h(4,5) by (rule long.hash_key_axioms)
  show ?thesis using uhash_get_refines_map [OF h(2) k, of 5] h(1,3) by auto
qed

text \<open>
  C5: \<open>_uhash_remove\<close> refines the removal from a map: afterwards no key that is equal to the
  given one is held, every other entry is unchanged (also when the removal shrinks the table),
  and the removed value is handed back.
\<close>
theorem uhash_remove_refines_map:
  assumes "table_ok ht" "hash_key (keyHasher ht) (keyComparator ht)" "size_ok ht" "primeIndex ht < 16"
  shows "\<exists>ht'. uhash_remove_tok malloc ht key = Some (ht', handed_back ht key) \<and> table_ok ht' \<and>
    lookup ht' = (\<lambda>q. if keyComparator ht q key then None else lookup ht q) \<and>
    keyHasher ht' = keyHasher ht \<and> keyComparator ht' = keyComparator ht \<and>
    ((\<forall>n. malloc n) \<longrightarrow> size_ok ht')"
  using assms by (rule uhash_remove_tok_ok)

theorem uhash_remove_refines_map_witness:
  "\<exists>ht ht'. uhash_open (\<lambda>n. True) uhash_hashLong uhash_compareLong None U_ZERO_ERROR = Some (Some ht, U_ZERO_ERROR) \<and>
    uhash_remove_tok (\<lambda>n. True) ht 5 = Some (ht', 0) \<and> size_ok ht'"
proof -
  obtain ht where h: "uhash_open (\<lambda>n. True) uhash_hashLong uhash_compareLong None U_ZERO_ERROR = Some (Some ht, U_ZERO_ERROR)"
    "table_ok ht" "size_ok ht" "lookup ht = (\<lambda>q. None)" "primeIndex ht = 3" "keyHasher ht = uhash_hashLong" "keyComparator ht = uhash_compareLong"
    using uhash_open_ok [of "\<lambda>n. True" U_ZERO_ERROR uhash_hashLong uhash_compareLong None] by auto
  have k: "hash_key (keyHasher ht) (keyComparator ht)" unfolding h(6,7) by (rule long.hash_key_axioms)
  have "handed_back ht 5 = 0" using h(4) by (simp add: handed_back_def)
  with uhash_remove_refines_map [OF h(2) k h(3), of "\<lambda>n. True" 5] h(1,5) show ?thesis by fastforce
qed

text \<open>
  C23: When the allocation of the new array fails, \<open>_uhash_rehash\<close> puts back the array and the
  length, but not the prime index: the table keeps its contents, while the index moves by one and
  no longer belongs to the length.
\<close>
theorem uhash_rehash_failure_index:
  assumes "ht_length ht = PRIMES ! nat (primeIndex ht)" "0 \<le> primeIndex ht" "primeIndex ht < 27"
    and "ht_count ht > highWaterMark ht" "\<not> malloc (24 * PRIMES ! nat (primeIndex ht + 1))" "\<not> U_FAILURE status"
  shows "uhash_rehash malloc ht status = Some (ht\<lparr>primeIndex := primeIndex ht + 1\<rparr>, U_MEMORY_ALLOCATION_ERROR) \<and>
    ht_length (ht\<lparr>primeIndex := primeIndex ht + 1\<rparr>) \<noteq> PRIMES ! nat (primeIndex (ht\<lparr>primeIndex := primeIndex ht + 1\<rparr>))"
  using assms PRIMES_mono [of "primeIndex ht"]
  by (simp add: uhash_rehash_def PRIMES_LENGTH_def uhash_allocate_eq)

theorem uhash_rehash_failure_index_witness:
  "primeIndex (fresh (init_table uhash_hashLong uhash_compareLong None) 0) = 0 \<and>
   (\<exists>ht. uhash_rehash (\<lambda>n. False) ((fresh (init_table uhash_hashLong uhash_compareLong None) 0)\<lparr>ht_count := 7\<rparr>) U_ZERO_ERROR =
      Some (ht, U_MEMORY_ALLOCATION_ERROR) \<and> ht_length ht = 13 \<and> primeIndex ht = 1)"
proof -
  let ?t = "(fresh (init_table uhash_hashLong uhash_compareLong None) 0)\<lparr>ht_count := 7\<rparr>"
  have "water_mark 13 0 = 0" by code_simp
  then have p: "ht_length ?t = PRIMES ! nat (primeIndex ?t)" "primeIndex ?t = 0" "highWaterMark ?t < ht_count ?t"
    "ht_length ?t = 13"
    by (simp_all add: fresh_def Let_def init_table_def PRIMES_def)
  show ?thesis using uhash_rehash_failure_index [OF p(1), of "\<lambda>n. False" U_ZERO_ERROR] p
    by (auto simp: fresh_def Let_def)
qed

text \<open>
  What \<open>uhash_equals\<close> decides for two tables with the same comparators: the counts agree and
  each value of the first table equals the value that the second one returns for its key, where
  a key that the second table does not hold at all counts as the value NULL or 0.
\<close>
lemma uhash_equals_characterised:
  assumes "table_ok h1" "table_ok h2" "hash_key (keyHasher h2) (keyComparator h2)"
    and "keyComparator h1 = keyComparator h2" "valueComparator h1 = Some cmp" "valueComparator h2 = Some cmp"
  shows "uhash_equals False (Some h1) (Some h2) = Some
    (uhash_count h1 = uhash_count h2 \<and>
     (\<forall>el \<in> set (elements h1). occupied el \<longrightarrow>
        cmp (el_value el) (case lookup h2 (el_key el) of None \<Rightarrow> 0 | Some v \<Rightarrow> v)))"
  using uhash_equals_eq [OF assms] by (simp add: value_or_null_def uhash_count_def)

text \<open>
  The tables \<open>{1 \<mapsto> 0}\<close> and \<open>{2 \<mapsto> 0}\<close> are reported as equal.
\<close>
lemma uhash_equals_characterised_witness:
  "\<exists>h1 h2. table_ok h1 \<and> table_ok h2 \<and> lookup h1 1 = Some 0 \<and> lookup h2 1 = None \<and> lookup h2 2 = Some 0 \<and>
    uhash_equals False (Some h1) (Some h2) = Some True"
proof -
  have c: "\<not> uhash_compareLong 1 2" "uhash_compareLong 1 1" "uhash_compareLong 2 2" "uhash_compareLong 0 0"
    by (simp_all add: uhash_compareLong_def tok_integer_def)
  have "uhash_equals False (Some (single 1 0)) (Some (single 2 0)) = Some True"
    by (subst uhash_equals_characterised [where cmp = uhash_compareLong])
      (use c single_ok(7) [of _ 1 0] in \<open>auto simp: single_ok long.hash_key_axioms uhash_count_def\<close>)
  then show ?thesis using c by (intro exI [of _ "single 1 0"] exI [of _ "single 2 0"]) (simp add: single_ok)
qed

text \<open>
  C24: \<open>uhash_removeAll\<close> returns and leaves a well-formed table of the same length without entries.
\<close>
theorem uhash_removeAll_empties:
  assumes "table_ok ht" "hash_key (keyHasher ht) (keyComparator ht)"
  shows "\<exists>ht'. uhash_removeAll ht = Some ht' \<and> table_ok ht' \<and> ht_length ht' = ht_length ht \<and>
    uhash_count ht' = 0 \<and> lookup ht' = (\<lambda>q. None)"
  using assms by (rule uhash_removeAll_ok)

theorem uhash_removeAll_empties_witness:
  "lookup (single 4 9) 4 = Some 9 \<and> (\<exists>ht'. uhash_removeAll (single 4 9) = Some ht' \<and> lookup ht' 4 = None)"
proof -
  have k: "hash_key (keyHasher (single 4 9)) (keyComparator (single 4 9))"
    unfolding single_ok by (rule long.hash_key_axioms)
  have "uhash_compareLong 4 4" by (simp add: uhash_compareLong_def)
  then show ?thesis using uhash_removeAll_empties [OF single_ok(1) k] by (auto simp: single_ok)
qed

text \<open>
  The integer interface. After a successful \<open>uhash_iputi\<close>, \<open>uhash_igeti\<close> returns the stored
  value for that key and what it returned before for every other key.
\<close>
theorem uhash_iputi_igeti:
  assumes "table_ok ht" "keyHasher ht = uhash_hashLong" "keyComparator ht = uhash_compareLong" "size_ok ht"
    and "primeIndex ht < 16" "uhash_iputi malloc ht key val U_ZERO_ERROR = Some (ht', old, U_ZERO_ERROR)"
  shows "uhash_igeti ht' k = (if k = key then Some val else uhash_igeti ht k)"
proof -
  have hk: "hash_key (keyHasher ht) (keyComparator ht)" unfolding assms(2,3) by (rule long.hash_key_axioms)
  obtain o' where p: "uhash_put_tok malloc ht (integer_tok key) (integer_tok val) 0 U_ZERO_ERROR = Some (ht', o', U_ZERO_ERROR)"
    using assms(6) by (auto simp: uhash_iputi_def bind_Some_iff)
  have t: "table_ok ht'" "keyHasher ht' = keyHasher ht" "keyComparator ht' = keyComparator ht"
    "lookup ht' = (\<lambda>q. if keyComparator ht q (integer_tok key) then Some (integer_tok val) else lookup ht q)"
    using uhash_put_tok_ok [OF assms(1) hk assms(4,5), of U_ZERO_ERROR 0 "integer_tok val" malloc "integer_tok key"] p by auto
  have hk': "hash_key (keyHasher ht') (keyComparator ht')" using hk t by simp
  have "lookup ht' (integer_tok k) = (if k = key then Some (integer_tok val) else lookup ht (integer_tok k))"
    using t(4) assms(3) by simp
  then show ?thesis
    using uhash_get_tok_lookup [OF assms(1) hk, of "integer_tok k"] uhash_get_tok_lookup [OF t(1) hk', of "integer_tok k"]
    by (simp add: uhash_igeti_def)
qed

theorem uhash_iputi_igeti_witness:
  "\<exists>ht ht' old. uhash_open (\<lambda>n. True) uhash_hashLong uhash_compareLong None U_ZERO_ERROR = Some (Some ht, U_ZERO_ERROR) \<and>
    uhash_iputi (\<lambda>n. True) ht 5 7 U_ZERO_ERROR = Some (ht', old, U_ZERO_ERROR) \<and> uhash_igeti ht' 5 = Some 7"
proof -
  obtain ht where h: "uhash_open (\<lambda>n. True) uhash_hashLong uhash_compareLong None U_ZERO_ERROR = Some (Some ht, U_ZERO_ERROR)"
    "table_ok ht" "size_ok ht" "lookup ht = (\<lambda>q. None)" "primeIndex ht = 3" "keyHasher ht = uhash_hashLong" "keyComparator ht = uhash_compareLong"
    "ht_count ht = 0" "ht_length ht = 127" "highWaterMark ht = 63"
    using uhash_open_ok [of "\<lambda>n. True" U_ZERO_ERROR uhash_hashLong uhash_compareLong None] by auto
  have hk: "hash_key (keyHasher ht) (keyComparator ht)" unfolding h(6,7) by (rule long.hash_key_axioms)
  have "uhash_put_tok (\<lambda>n. True) ht (integer_tok 5) (integer_tok 7) 0 U_ZERO_ERROR = put_entry ht (integer_tok 5) (integer_tok 7) 0 U_ZERO_ERROR"
    using h(8-10) by (simp add: uhash_put_tok_def put_entry_def)
  then obtain ht' old where p: "uhash_iputi (\<lambda>n. True) ht 5 7 U_ZERO_ERROR = Some (ht', old, U_ZERO_ERROR)"
    using put_entry_ok [OF h(2) hk h(3), of U_ZERO_ERROR "integer_tok 5" "integer_tok 7" 0] h(8-10)
    by (auto simp: uhash_iputi_def split: if_splits)
  show ?thesis using uhash_iputi_igeti [OF h(2,6,7,3) _ p, of 5] h(1,5) p by auto
qed
end
