(* ===== verification/CString.thy ===== *)
theory CString
  imports ArraySort
begin

text \<open>
  The string helpers of \<open>cstring.c\<close>, for the ASCII charset family: case mapping, conversion
  between integers and strings, comparison without regard to case, and copying. A \<open>char *\<close> is a
  byte array and an index; a string in memory ends with a NUL byte.
\<close>

section \<open>Case mapping\<close>

definition uprv_isASCIILetter :: "u8 \<Rightarrow> bool" where
  "uprv_isASCIILetter c \<longleftrightarrow> (0x61 \<le> c \<and> c \<le> 0x7a) \<or> (0x41 \<le> c \<and> c \<le> 0x5a)"

definition uprv_toupper :: "u8 \<Rightarrow> u8" where
  "uprv_toupper c = (if 0x61 \<le> c \<and> c \<le> 0x7a then c + (0x41 - 0x61) else c)"

definition uprv_asciitolower :: "u8 \<Rightarrow> u8" where
  "uprv_asciitolower c = (if 0x41 \<le> c \<and> c \<le> 0x5a then c + 0x20 else c)"

definition uprv_ebcdictolower :: "u8 \<Rightarrow> u8" where
  "uprv_ebcdictolower c =
     (if (0xc1 \<le> c \<and> c \<le> 0xc9) \<or> (0xd1 \<le> c \<and> c \<le> 0xd9) \<or> (0xe2 \<le> c \<and> c \<le> 0xe9)
      then c - 0x40 else c)"

abbreviation uprv_tolower :: "u8 \<Rightarrow> u8" where
  "uprv_tolower \<equiv> uprv_asciitolower"

text \<open>The loops \<open>do *str = f(*str); while (*(str++))\<close>.\<close>

function map_string :: "(u8 \<Rightarrow> u8) \<Rightarrow> u8 list \<Rightarrow> int \<Rightarrow> u8 list option" where
  "map_string f s i = do {
     c \<leftarrow> rd s i;
     s' \<leftarrow> wr s i (f c);
     if f c \<noteq> 0 then map_string f s' (i + 1) else Some s' }"
  by pat_completeness auto
termination
  by (relation "measure (\<lambda>(f, s, i). nat (int (length s) - i))") (auto simp: rd_Some_iff wr_Some_iff)

definition T_CString_toLowerCase :: "(u8 list \<times> int) option \<Rightarrow> (u8 list \<times> int) option option" where
  "T_CString_toLowerCase str =
     (case str of None \<Rightarrow> Some None
      | Some (s, i) \<Rightarrow> map_option (\<lambda>s. Some (s, i)) (map_string uprv_tolower s i))"

definition T_CString_toUpperCase :: "(u8 list \<times> int) option \<Rightarrow> (u8 list \<times> int) option option" where
  "T_CString_toUpperCase str =
     (case str of None \<Rightarrow> Some None
      | Some (s, i) \<Rightarrow> map_option (\<lambda>s. Some (s, i)) (map_string uprv_toupper s i))"

section \<open>Integers to strings\<close>

definition T_CString_itosOffset :: "int \<Rightarrow> u8" where
  "T_CString_itosOffset a = (if a \<le> 9 then word_of_int (0x30 + a) else word_of_int (0x41 + a - 10))"

text \<open>The loop that fills \<open>tbuf\<close> from the end; a write below \<open>tbuf[0]\<close> is out of bounds.\<close>

function itos_loop :: "u8 list \<Rightarrow> int \<Rightarrow> int \<Rightarrow> int \<Rightarrow> (u8 list \<times> int) option" where
  "itos_loop tbuf tbx uval radix = do {
     let digit = (uval mod radix) mod 256;
     tbuf' \<leftarrow> wr tbuf (tbx - 1) (T_CString_itosOffset digit);
     if uval div radix \<noteq> 0 then itos_loop tbuf' (tbx - 1) (uval div radix) radix
     else Some (tbuf', tbx - 1) }"
  by pat_completeness auto
termination
  by (relation "measure (\<lambda>(tbuf, tbx, uval, radix). nat tbx)") (auto simp: wr_Some_iff)

function strcpy :: "u8 list \<Rightarrow> int \<Rightarrow> u8 list \<Rightarrow> int \<Rightarrow> u8 list option" where
  "strcpy dst i src j = do {
     c \<leftarrow> rd src j;
     dst' \<leftarrow> wr dst i c;
     if c = 0 then Some dst' else strcpy dst' (i + 1) src (j + 1) }"
  by pat_completeness auto
termination
  by (relation "measure (\<lambda>(dst, i, src, j). nat (int (length src) - j))") (auto simp: rd_Some_iff)

declare map_string.simps [simp del] itos_loop.simps [simp del] strcpy.simps [simp del]

text \<open>
  Both conversions: \<open>neg\<close> is \<open>v < 0\<close>, \<open>uval\<close> the value as unsigned. \<open>tbuf0\<close> is the
  uninitialised local array of 30 bytes. The result is the buffer and the length.
\<close>

definition itos :: "u8 list \<Rightarrow> u8 list \<Rightarrow> int \<Rightarrow> bool \<Rightarrow> int \<Rightarrow> int \<Rightarrow> (u8 list \<times> int) option" where
  "itos tbuf0 buffer off neg uval radix = do {
     (buffer, len) \<leftarrow> (if neg then map_option (\<lambda>b. (b, 1)) (wr buffer off 0x2d) else Some (buffer, 0));
     tbuf \<leftarrow> wr tbuf0 29 0;
     (tbuf, tbx) \<leftarrow> itos_loop tbuf 29 uval radix;
     buffer \<leftarrow> strcpy buffer (off + len) tbuf tbx;
     Some (buffer, len + (30 - tbx - 1)) }"

definition T_CString_integerToString :: "u8 list \<Rightarrow> u8 list \<Rightarrow> int \<Rightarrow> u32 \<Rightarrow> int \<Rightarrow> (u8 list \<times> int) option" where
  "T_CString_integerToString tbuf0 buffer off v radix =
     (let neg = (sint v < 0 \<and> radix = 10) in
      itos tbuf0 buffer off neg (uint (if neg then - v else v)) radix)"

definition T_CString_int64ToString :: "u8 list \<Rightarrow> u8 list \<Rightarrow> int \<Rightarrow> 64 word \<Rightarrow> int \<Rightarrow> (u8 list \<times> int) option" where
  "T_CString_int64ToString tbuf0 buffer off v radix =
     (let neg = (sint v < 0 \<and> radix = 10) in
      itos tbuf0 buffer off neg (uint (if neg then - v else v)) radix)"

section \<open>Strings to integers\<close>

text \<open>The C library's \<open>strtoul\<close> on a 64-bit \<open>unsigned long\<close>.\<close>

definition c_isspace :: "u8 \<Rightarrow> bool" where
  "c_isspace c \<longleftrightarrow> c = 0x20 \<or> (9 \<le> c \<and> c \<le> 13)"

definition c_digit :: "u8 \<Rightarrow> int" where
  "c_digit c = (if 0x30 \<le> c \<and> c \<le> 0x39 then uint c - 0x30
     else if 0x41 \<le> c \<and> c \<le> 0x5a then uint c - 0x41 + 10
     else if 0x61 \<le> c \<and> c \<le> 0x7a then uint c - 0x61 + 10 else 99)"

function skip_spaces :: "u8 list \<Rightarrow> int \<Rightarrow> int option" where
  "skip_spaces s i = do { c \<leftarrow> rd s i; if c_isspace c then skip_spaces s (i + 1) else Some i }"
  by pat_completeness auto
termination by (relation "measure (\<lambda>(s, i). nat (int (length s) - i))") (auto simp: rd_Some_iff)

function strtoul_digits :: "u8 list \<Rightarrow> int \<Rightarrow> int \<Rightarrow> int \<Rightarrow> int option" where
  "strtoul_digits s i base acc = do {
     c \<leftarrow> rd s i;
     if c_digit c < base then strtoul_digits s (i + 1) base (acc * base + c_digit c) else Some acc }"
  by pat_completeness auto
termination by (relation "measure (\<lambda>(s, i, base, acc). nat (int (length s) - i))") (auto simp: rd_Some_iff)

declare skip_spaces.simps [simp del] strtoul_digits.simps [simp del]

definition strtoul :: "u8 list \<Rightarrow> int \<Rightarrow> int \<Rightarrow> 64 word option" where
  "strtoul s i base =
     (if base < 0 \<or> base = 1 \<or> base > 36 then Some 0
      else do {
        i \<leftarrow> skip_spaces s i;
        c \<leftarrow> rd s i;
        let neg = (c = 0x2d);
        let i = (if c = 0x2d \<or> c = 0x2b then i + 1 else i);
        d \<leftarrow> rd s i;
        hex \<leftarrow> (if d = 0x30 \<and> (base = 0 \<or> base = 16) then do {
                  x \<leftarrow> rd s (i + 1);
                  if x = 0x78 \<or> x = 0x58 then do { h \<leftarrow> rd s (i + 2); Some (c_digit h < 16) } else Some False }
               else Some False);
        let base = (if base = 0 then (if hex then 16 else if d = 0x30 then 8 else 10) else base);
        v \<leftarrow> strtoul_digits s (if hex then i + 2 else i) base 0;
        Some (if v \<ge> 2 ^ 64 then - 1 else if neg then - word_of_int v else word_of_int v) })"

definition T_CString_stringToInteger :: "u8 list \<Rightarrow> int \<Rightarrow> int \<Rightarrow> u32 option" where
  "T_CString_stringToInteger s i radix = map_option ucast (strtoul s i radix)"

section \<open>Comparison\<close>

function stricmp_loop :: "u8 list \<Rightarrow> int \<Rightarrow> u8 list \<Rightarrow> int \<Rightarrow> int option" where
  "stricmp_loop s1 i1 s2 i2 = do {
     c1 \<leftarrow> rd s1 i1;
     c2 \<leftarrow> rd s2 i2;
     if c1 = 0 then Some (if c2 = 0 then 0 else -1)
     else if c2 = 0 then Some 1
     else do {
       let rc = uint (uprv_tolower c1) - uint (uprv_tolower c2);
       if rc \<noteq> 0 then Some rc else stricmp_loop s1 (i1 + 1) s2 (i2 + 1) } }"
  by pat_completeness auto
termination by (relation "measure (\<lambda>(s1, i1, s2, i2). nat (int (length s1) - i1))") (auto simp: rd_Some_iff)

fun uprv_stricmp :: "(u8 list \<times> int) option \<Rightarrow> (u8 list \<times> int) option \<Rightarrow> int option" where
  "uprv_stricmp None None = Some 0"
| "uprv_stricmp None (Some b) = Some (-1)"
| "uprv_stricmp (Some a) None = Some 1"
| "uprv_stricmp (Some (s1, i1)) (Some (s2, i2)) = stricmp_loop s1 i1 s2 i2"

fun strnicmp_loop :: "u8 list \<Rightarrow> int \<Rightarrow> u8 list \<Rightarrow> int \<Rightarrow> nat \<Rightarrow> int option" where
  "strnicmp_loop s1 i1 s2 i2 0 = Some 0"
| "strnicmp_loop s1 i1 s2 i2 (Suc n) = do {
     c1 \<leftarrow> rd s1 i1;
     c2 \<leftarrow> rd s2 i2;
     if c1 = 0 then Some (if c2 = 0 then 0 else -1)
     else if c2 = 0 then Some 1
     else do {
       let rc = uint (uprv_tolower c1) - uint (uprv_tolower c2);
       if rc \<noteq> 0 then Some rc else strnicmp_loop s1 (i1 + 1) s2 (i2 + 1) n } }"

fun uprv_strnicmp :: "(u8 list \<times> int) option \<Rightarrow> (u8 list \<times> int) option \<Rightarrow> u32 \<Rightarrow> int option" where
  "uprv_strnicmp None None n = Some 0"
| "uprv_strnicmp None (Some b) n = Some (-1)"
| "uprv_strnicmp (Some a) None n = Some 1"
| "uprv_strnicmp (Some (s1, i1)) (Some (s2, i2)) n = strnicmp_loop s1 i1 s2 i2 (unat n)"

section \<open>Duplication\<close>

function strlen :: "u8 list \<Rightarrow> int \<Rightarrow> int option" where
  "strlen s i = do { c \<leftarrow> rd s i; if c = 0 then Some 0 else map_option (\<lambda>n. n + 1) (strlen s (i + 1)) }"
  by pat_completeness auto
termination by (relation "measure (\<lambda>(s, i). nat (int (length s) - i))") (auto simp: rd_Some_iff)

declare stricmp_loop.simps [simp del] strlen.simps [simp del]

definition memcpy_from :: "u8 list \<Rightarrow> int \<Rightarrow> int \<Rightarrow> u8 list option" where
  "memcpy_from s i n = (if 0 \<le> i \<and> 0 \<le> n \<and> i + n \<le> int (length s) then Some (seg s i (i + n)) else None)"

text \<open>The result is the new block, \<open>Some None\<close> when \<open>malloc\<close> fails.\<close>

definition uprv_strdup :: "(int \<Rightarrow> bool) \<Rightarrow> u8 list \<Rightarrow> int \<Rightarrow> u8 list option option" where
  "uprv_strdup malloc s i = do {
     n \<leftarrow> strlen s i;
     if malloc (n + 1) then map_option Some (memcpy_from s i (n + 1)) else Some None }"

definition uprv_strndup :: "(int \<Rightarrow> bool) \<Rightarrow> u8 list \<Rightarrow> int \<Rightarrow> int \<Rightarrow> u8 list option option" where
  "uprv_strndup malloc s i n =
     (if n < 0 then uprv_strdup malloc s i
      else if malloc (n + 1) then map_option (\<lambda>b. Some (b @ [0])) (memcpy_from s i n) else Some None)"

section \<open>Strings in memory\<close>

text \<open>The NUL-terminated string \<open>xs\<close> lies at index \<open>i\<close>.\<close>

definition str_at :: "u8 list \<Rightarrow> int \<Rightarrow> u8 list \<Rightarrow> bool" where
  "str_at s i xs \<longleftrightarrow> 0 \<le> i \<and> 0 \<notin> set xs \<and> (\<exists>rest. drop (nat i) s = xs @ 0 # rest)"

lemma str_at_Nil: "str_at s i [] \<longleftrightarrow> rd s i = Some 0"
proof
  assume "str_at s i []"
  then obtain rest where r: "0 \<le> i" "drop (nat i) s = 0 # rest" by (auto simp: str_at_def)
  then have "nat i < length s" by (metis drop_all leI list.distinct(1))
  then have "s ! nat i # drop (Suc (nat i)) s = 0 # rest" using r by (simp add: Cons_nth_drop_Suc)
  then show "rd s i = Some 0" using r \<open>nat i < length s\<close> by (simp add: rd_Some_iff)
next
  assume "rd s i = Some 0"
  then have "0 \<le> i" "nat i < length s" "s ! nat i = 0" by (auto simp: rd_Some_iff)
  then have "drop (nat i) s = 0 # drop (Suc (nat i)) s" by (metis Cons_nth_drop_Suc)
  with \<open>0 \<le> i\<close> show "str_at s i []" by (auto simp: str_at_def)
qed

lemma str_at_Cons: "str_at s i (x # xs) \<longleftrightarrow> x \<noteq> 0 \<and> rd s i = Some x \<and> str_at s (i + 1) xs"
proof
  assume "str_at s i (x # xs)"
  then obtain rest where r: "0 \<le> i" "x \<noteq> 0" "0 \<notin> set xs" "drop (nat i) s = x # xs @ 0 # rest"
    by (auto simp: str_at_def)
  then have l: "nat i < length s" by (metis drop_all leI list.distinct(1))
  then have "s ! nat i # drop (Suc (nat i)) s = x # xs @ 0 # rest" using r by (simp add: Cons_nth_drop_Suc)
  moreover have "nat (i + 1) = Suc (nat i)" using r by simp
  ultimately show "x \<noteq> 0 \<and> rd s i = Some x \<and> str_at s (i + 1) xs"
    using r l by (simp add: str_at_def rd_Some_iff)
next
  assume a: "x \<noteq> 0 \<and> rd s i = Some x \<and> str_at s (i + 1) xs"
  then obtain rest where r: "0 \<notin> set xs" "drop (nat (i + 1)) s = xs @ 0 # rest" by (auto simp: str_at_def)
  have i: "0 \<le> i" "nat i < length s" "s ! nat i = x" "nat (i + 1) = Suc (nat i)" using a by (auto simp: rd_Some_iff)
  then have "drop (nat i) s = x # xs @ 0 # rest" using r by (metis Cons_nth_drop_Suc)
  then show "str_at s i (x # xs)" using a r i by (auto simp: str_at_def)
qed

lemmas str_at_simps = str_at_Nil str_at_Cons

lemma str_at_overwrite:
  assumes "0 \<le> i" "0 \<notin> set xs" "i + int (length xs) < int (length s)"
  shows "str_at (overwrite s i (xs @ [0])) i xs"
proof -
  have "length (take (nat i) s) = nat i" using assms by simp
  then show ?thesis using assms by (auto simp: str_at_def overwrite_def)
qed

lemma strcpy_str:
  assumes "str_at src j xs" "0 \<le> i" "i + int (length xs) < int (length dst)"
  shows "strcpy dst i src j = Some (overwrite dst i (xs @ [0]))"
  using assms
proof (induction xs arbitrary: dst i j)
  case Nil
  then show ?case
    by (subst strcpy.simps) (simp add: str_at_simps overwrite_def upd_conv_take_nth_drop nat_add_distrib)
next
  case (Cons x xs)
  then have r: "rd src j = Some x" "x \<noteq> 0" "str_at src (j + 1) xs" by (simp_all add: str_at_simps)
  have "strcpy (dst[nat i := x]) (i + 1) src (j + 1) = Some (overwrite (dst[nat i := x]) (i + 1) (xs @ [0]))"
    using Cons r by simp
  also have "overwrite (dst[nat i := x]) (i + 1) (xs @ [0]) = overwrite dst i (x # xs @ [0])"
    using Cons.prems by (intro overwrite_Cons) auto
  finally show ?case using r Cons.prems by (subst strcpy.simps) simp
qed

section \<open>Digits\<close>

function digits :: "int \<Rightarrow> int \<Rightarrow> int list" where
  "digits r n = (if r < 2 \<or> n < r then [n] else digits r (n div r) @ [n mod r])"
  by pat_completeness auto
termination
proof (relation "measure (\<lambda>(r, n). nat n)")
  fix r n :: int
  assume a: "\<not> (r < 2 \<or> n < r)"
  then have "n div r < n" by (intro int_div_less_self) auto
  then show "((r, n div r), r, n) \<in> measure (\<lambda>(r, n). nat n)" using a by auto
qed simp

declare digits.simps [simp del]

lemma digits_nonempty [simp]: "digits r n \<noteq> []"
  by (subst digits.simps) simp

lemma digits_range: "2 \<le> r \<Longrightarrow> 0 \<le> n \<Longrightarrow> d \<in> set (digits r n) \<Longrightarrow> 0 \<le> d \<and> d < r"
proof (induction r n rule: digits.induct)
  case (1 r n)
  then show ?case
    by (subst (asm) (2) digits.simps) (auto simp: pos_imp_zdiv_nonneg_iff split: if_splits)
qed

lemma digits_value: "2 \<le> r \<Longrightarrow> 0 \<le> n \<Longrightarrow> foldl (\<lambda>a d. a * r + d) 0 (digits r n) = n"
proof (induction r n rule: digits.induct)
  case (1 r n)
  then show ?case by (subst digits.simps) (auto simp: pos_imp_zdiv_nonneg_iff)
qed

lemma digits_length: "2 \<le> r \<Longrightarrow> 0 \<le> n \<Longrightarrow> n < r ^ k \<Longrightarrow> 0 < k \<Longrightarrow> length (digits r n) \<le> k"
proof (induction k arbitrary: n)
  case (Suc k)
  show ?case
  proof (cases "n < r")
    case True
    then show ?thesis by (subst digits.simps) simp
  next
    case False
    have "n div r < r ^ k"
    proof (rule ccontr)
      assume "\<not> n div r < r ^ k"
      then have "r ^ k * r \<le> n div r * r" using Suc.prems(1) by (intro mult_right_mono) auto
      moreover have "n div r * r \<le> n" using Suc.prems(1) pos_mod_sign [of r n] div_mult_mod_eq [of n r] by linarith
      ultimately show False using Suc.prems(3) by (simp add: mult.commute)
    qed
    moreover have "0 < k" using Suc.prems False by (cases k) auto
    moreover have "0 \<le> n div r" using Suc.prems by (simp add: pos_imp_zdiv_nonneg_iff)
    ultimately have "length (digits r (n div r)) \<le> k" using Suc.IH [of "n div r"] Suc.prems by simp
    then show ?thesis using False Suc.prems by (subst digits.simps) simp
  qed
qed simp

lemma digits_length_ge: "2 \<le> r \<Longrightarrow> 0 \<le> n \<Longrightarrow> r ^ k \<le> n \<Longrightarrow> k < length (digits r n)"
proof (induction k arbitrary: n)
  case 0
  then show ?case by simp
next
  case (Suc k)
  have "r * 1 \<le> r * r ^ k" using Suc.prems(1) by (intro mult_left_mono one_le_power) auto
  then have "r \<le> n" using Suc.prems(3) unfolding power_Suc by linarith
  moreover have "r ^ k \<le> n div r" using zdiv_mono1 [of "r ^ k * r" n r] Suc.prems by (simp add: mult.commute)
  moreover have "0 \<le> n div r" using Suc.prems by (simp add: pos_imp_zdiv_nonneg_iff)
  ultimately show ?case using Suc.IH [of "n div r"] Suc.prems by (subst digits.simps) simp
qed

lemma overwrite_snoc:
  assumes "0 \<le> i" "i + int (length xs) < int (length s)"
  shows "overwrite (s[nat (i + int (length xs)) := x]) i xs = overwrite s i (xs @ [x])"
proof -
  have n: "nat (i + int (length xs)) = nat i + length xs" using assms by simp
  have "nat i + length xs < length s" using assms by simp
  then show ?thesis unfolding n overwrite_def
    by (simp add: Cons_nth_drop_Suc [symmetric] drop_update_cancel) 
qed

lemma itos_loop_eq:
  assumes "2 \<le> r" "r \<le> 16" "0 \<le> n" "int (length (digits r n)) \<le> tbx" "tbx \<le> int (length tbuf)"
  shows "itos_loop tbuf tbx n r =
    Some (overwrite tbuf (tbx - int (length (digits r n))) (map T_CString_itosOffset (digits r n)),
      tbx - int (length (digits r n)))"
  using assms
proof (induction r n arbitrary: tbuf tbx rule: digits.induct)
  case (1 r n)
  have m: "0 \<le> n mod r" "n mod r < r" using 1(2) by simp_all
  then have m8: "n mod r mod 256 = n mod r" using 1(3) by simp
  have "digits r n \<noteq> []" by simp
  then have t: "1 \<le> tbx" using 1(5) by (cases "digits r n") auto
  let ?x = "T_CString_itosOffset (n mod r)"
  have step: "itos_loop tbuf tbx n r =
      (if n div r \<noteq> 0 then itos_loop (tbuf[nat (tbx - 1) := ?x]) (tbx - 1) (n div r) r
       else Some (tbuf[nat (tbx - 1) := ?x], tbx - 1))"
    using t 1(6) m8 by (subst itos_loop.simps) simp
  show ?case
  proof (cases "n < r")
    case True
    then have d: "digits r n = [n]" by (subst digits.simps) simp
    have "n div r = 0" "n mod r = n" using True 1(4) by simp_all
    note d = d this
    then show ?thesis unfolding step using t 1(6) overwrite_snoc [of "tbx - 1" "[]" tbuf]
      by simp
  next
    case False
    let ?q = "n div r"
    have q: "0 \<le> ?q" "?q \<noteq> 0" using 1(2) False pos_imp_zdiv_pos_iff [of r n] by auto
    have d: "digits r n = digits r ?q @ [n mod r]" using False 1(2) by (subst digits.simps) simp
    have IH: "itos_loop (tbuf[nat (tbx - 1) := ?x]) (tbx - 1) ?q r =
      Some (overwrite (tbuf[nat (tbx - 1) := ?x]) (tbx - 1 - int (length (digits r ?q))) (map T_CString_itosOffset (digits r ?q)),
        tbx - 1 - int (length (digits r ?q)))"
      using 1(1) [of "tbx - 1" "tbuf[nat (tbx - 1) := ?x]"] 1(2,3,5,6) False q d by auto
    have "overwrite (tbuf[nat (tbx - 1) := ?x]) (tbx - 1 - int (length (digits r ?q))) (map T_CString_itosOffset (digits r ?q)) =
        overwrite tbuf (tbx - 1 - int (length (digits r ?q))) (map T_CString_itosOffset (digits r n))"
      using overwrite_snoc [of "tbx - 1 - int (length (digits r ?q))" "map T_CString_itosOffset (digits r ?q)" tbuf ?x] 1(5,6) d
      by simp
    then show ?thesis unfolding step using q IH d by (simp add: algebra_simps)
  qed
qed

lemma itos_loop_underflow:
  assumes "2 \<le> r" "0 \<le> n" "tbx < int (length (digits r n))"
  shows "itos_loop tbuf tbx n r = None"
  using assms
proof (induction r n arbitrary: tbuf tbx rule: digits.induct)
  case (1 r n)
  show ?case
  proof (cases "n < r")
    case True
    then have "digits r n = [n]" using 1(3) by (subst digits.simps) simp
    then show ?thesis using 1(4) by (subst itos_loop.simps) (simp add: wr_def)
  next
    case False
    then have q: "0 \<le> n div r" "n div r \<noteq> 0" using 1(2) False pos_imp_zdiv_pos_iff [of r n] by auto
    have d: "digits r n = digits r (n div r) @ [n mod r]" using False 1(2) by (subst digits.simps) simp
    have "itos_loop tbuf' (tbx - 1) (n div r) r = None" for tbuf'
      using 1(1) [of "tbx - 1" tbuf'] 1(2,4) False q d by auto
    then show ?thesis using q by (subst itos_loop.simps) (auto simp: wr_def)
  qed
qed

lemma itosOffset_digit:
  assumes "0 \<le> d" "d < 16"
  shows "T_CString_itosOffset d \<noteq> 0" "c_digit (T_CString_itosOffset d) = d" "\<not> c_isspace (T_CString_itosOffset d)"
    "T_CString_itosOffset d \<noteq> 0x2d" "T_CString_itosOffset d \<noteq> 0x2b" "T_CString_itosOffset d \<noteq> 0x78" "T_CString_itosOffset d \<noteq> 0x58"
proof -
  have "list_all (\<lambda>d. T_CString_itosOffset d \<noteq> 0 \<and> c_digit (T_CString_itosOffset d) = d \<and> \<not> c_isspace (T_CString_itosOffset d) \<and>
     T_CString_itosOffset d \<noteq> 0x2d \<and> T_CString_itosOffset d \<noteq> 0x2b \<and> T_CString_itosOffset d \<noteq> 0x78 \<and> T_CString_itosOffset d \<noteq> 0x58) [0..15]"
    by code_simp
  moreover have "d \<in> set [0..15]" using assms by simp
  ultimately show "T_CString_itosOffset d \<noteq> 0" "c_digit (T_CString_itosOffset d) = d" "\<not> c_isspace (T_CString_itosOffset d)"
    "T_CString_itosOffset d \<noteq> 0x2d" "T_CString_itosOffset d \<noteq> 0x2b" "T_CString_itosOffset d \<noteq> 0x78" "T_CString_itosOffset d \<noteq> 0x58"
    unfolding list_all_iff by blast+
qed

text \<open>The text of a number.\<close>

definition number_text :: "bool \<Rightarrow> int \<Rightarrow> int \<Rightarrow> u8 list" where
  "number_text neg n r = (if neg then [0x2d] else []) @ map T_CString_itosOffset (digits r n)"

lemma number_text_no_nul: "2 \<le> r \<Longrightarrow> r \<le> 16 \<Longrightarrow> 0 \<le> n \<Longrightarrow> 0 \<notin> set (map T_CString_itosOffset (digits r n))"
  using digits_range [of r n] itosOffset_digit(1) by force

lemma itos_ok:
  assumes r: "2 \<le> r" "r \<le> 16" "0 \<le> n" "length (digits r n) \<le> 29" and t: "length tbuf0 = 30"
    and b: "0 \<le> off" "off + int (length (number_text neg n r)) < int (length buffer)"
  shows "itos tbuf0 buffer off neg n r =
    Some (overwrite buffer off (number_text neg n r @ [0]), int (length (number_text neg n r)))"
proof -
  let ?ds = "map T_CString_itosOffset (digits r n)" and ?tbx = "29 - int (length (digits r n))"
  let ?t1 = "tbuf0[29 := 0]"
  let ?t2 = "overwrite ?t1 ?tbx ?ds"
  have l: "itos_loop ?t1 29 n r = Some (?t2, ?tbx)" using r t by (intro itos_loop_eq) auto
  have "?t2 = overwrite tbuf0 ?tbx (?ds @ [0])"
    using overwrite_snoc [of ?tbx ?ds tbuf0 0] r t by simp
  then have s: "str_at ?t2 ?tbx ?ds"
    using str_at_overwrite [of ?tbx ?ds tbuf0] number_text_no_nul [OF r(1-3)] r(4) t by simp
  show ?thesis
  proof (cases neg)
    case False
    then have "strcpy buffer off ?t2 ?tbx = Some (overwrite buffer off (?ds @ [0]))"
      using b s by (intro strcpy_str) (auto simp: number_text_def)
    then show ?thesis using False l t by (simp add: itos_def number_text_def)
  next
    case True
    have "strcpy (buffer[nat off := 0x2d]) (off + 1) ?t2 ?tbx = Some (overwrite (buffer[nat off := 0x2d]) (off + 1) (?ds @ [0]))"
      using b s True by (intro strcpy_str) (auto simp: number_text_def)
    moreover have "overwrite (buffer[nat off := 0x2d]) (off + 1) (?ds @ [0]) = overwrite buffer off (0x2d # ?ds @ [0])"
      using b True by (intro overwrite_Cons) (auto simp: number_text_def)
    ultimately show ?thesis using True l t b by (simp add: itos_def number_text_def)
  qed
qed

section \<open>Reading a number back\<close>

lemma strtoul_digits_str:
  assumes "str_at s i (map T_CString_itosOffset ds)" "\<And>d. d \<in> set ds \<Longrightarrow> 0 \<le> d \<and> d < r" "0 < r" "r \<le> 16"
  shows "strtoul_digits s i r acc = Some (foldl (\<lambda>a d. a * r + d) acc ds)"
  using assms(1,2)
proof (induction ds arbitrary: i acc)
  case Nil
  have "c_digit 0 = 99" by (simp add: c_digit_def)
  then show ?case using Nil assms(4) by (subst strtoul_digits.simps) (simp add: str_at_simps)
next
  case (Cons d ds)
  have d: "0 \<le> d" "d < r" using Cons.prems(2) by simp_all
  then have "c_digit (T_CString_itosOffset d) = d" using itosOffset_digit(2) assms(4) by simp
  then show ?case using Cons d by (subst strtoul_digits.simps) (simp add: str_at_simps)
qed

lemma strtoul_number:
  assumes r: "2 \<le> r" "r \<le> 16" and n: "0 \<le> n" "n < 2 ^ 64" and s: "str_at s i (number_text neg n r)"
  shows "strtoul s i r = Some (if neg then - word_of_int n else word_of_int n)"
proof -
  let ?ds = "digits r n"
  obtain d ds where ds: "?ds = d # ds" by (cases ?ds) simp
  have dr: "0 \<le> e" "e < 16" if "e \<in> set ?ds" for e using digits_range [of r n e] that r n by auto
  have d: "0 \<le> d" "d < 16" using dr [of d] ds by simp_all
  note D = itosOffset_digit [OF d]
  define j where "j = (if neg then i + 1 else i)"
  have sj: "str_at s j (map T_CString_itosOffset ?ds)" and rj: "rd s j = Some (T_CString_itosOffset d)"
    using s by (auto simp: j_def number_text_def str_at_simps ds split: if_splits)
  have sp: "skip_spaces s i = Some i" and ri: "rd s i = Some (if neg then 0x2d else T_CString_itosOffset d)"
    using s D by (auto simp: number_text_def str_at_simps ds skip_spaces.simps [of s i] c_isspace_def split: if_splits)
  obtain x where x: "rd s (j + 1) = Some x" "x \<noteq> 0x78" "x \<noteq> 0x58"
  proof (cases ds)
    case Nil
    then have "rd s (j + 1) = Some 0" using sj ds by (simp add: str_at_simps)
    then show ?thesis using that by simp
  next
    case (Cons e es)
    then have "rd s (j + 1) = Some (T_CString_itosOffset e)" using sj ds by (simp add: str_at_simps)
    moreover have "T_CString_itosOffset e \<noteq> 0x78" "T_CString_itosOffset e \<noteq> 0x58"
      using itosOffset_digit(6,7) [of e] dr [of e] ds Cons by auto
    ultimately show ?thesis using that by simp
  qed
  have v: "strtoul_digits s j r 0 = Some n"
    using strtoul_digits_str [OF sj, of r 0] digits_range [of r n] digits_value [of r n] r n by auto
  show ?thesis
  proof (cases neg)
    case True
    then show ?thesis using r n sp ri rj v x D by (cases "r = 16") (simp_all add: strtoul_def j_def Let_def add.commute)
  next
    case False
    then show ?thesis using r n sp ri rj v x D by (cases "r = 16") (simp_all add: strtoul_def j_def Let_def)
  qed
qed

lemma integerToString_ok:
  assumes r: "3 \<le> radix" "radix \<le> 16" and t: "length tbuf0 = 30"
    and tx: "tx = number_text (sint v < 0 \<and> radix = 10) (uint (if sint v < 0 \<and> radix = 10 then - v else v)) radix"
    and b: "0 \<le> off" "off + int (length tx) < int (length buffer)"
  shows "T_CString_integerToString tbuf0 buffer off v radix = Some (overwrite buffer off (tx @ [0]), int (length tx))"
proof -
  let ?n = "uint (if sint v < 0 \<and> radix = 10 then - v else v)"
  have n: "0 \<le> ?n" "?n < 2 ^ 32" using uint_lt2p [of "if sint v < 0 \<and> radix = 10 then - v else v"] by simp_all
  have "(2::int) ^ 32 \<le> 3 ^ 21" by simp
  also have "\<dots> \<le> radix ^ 21" using r by (intro power_mono) auto
  finally have "length (digits radix ?n) \<le> 21" using n r by (intro digits_length) auto
  then show ?thesis
    using itos_ok [of radix ?n tbuf0 off "sint v < 0 \<and> radix = 10" buffer] r t b n(1)
    unfolding T_CString_integerToString_def Let_def tx by simp
qed

lemma number_text_no_nul': "2 \<le> r \<Longrightarrow> r \<le> 16 \<Longrightarrow> 0 \<le> n \<Longrightarrow> 0 \<notin> set (number_text neg n r)"
  using number_text_no_nul [of r n] by (simp add: number_text_def)

text \<open>The sign is no digit.\<close>

lemma number_text_sign:
  assumes "2 \<le> r" "r \<le> 16" "0 \<le> n"
  shows "number_text neg n r \<noteq> []" "hd (number_text neg n r) = 0x2d \<longleftrightarrow> neg"
proof -
  obtain d ds where ds: "digits r n = d # ds" by (cases "digits r n") simp
  then have "0 \<le> d" "d < 16" using digits_range [of r n d] assms by auto
  then have "T_CString_itosOffset d \<noteq> 0x2d" using itosOffset_digit(4) by blast
  then show "number_text neg n r \<noteq> []" "hd (number_text neg n r) = 0x2d \<longleftrightarrow> neg" using ds by (simp_all add: number_text_def)
qed

section \<open>Comparison without case\<close>

text \<open>The lexicographic comparison of lowercased strings.\<close>

fun ci_cmp :: "u8 list \<Rightarrow> u8 list \<Rightarrow> int" where
  "ci_cmp [] [] = 0"
| "ci_cmp [] (y # ys) = -1"
| "ci_cmp (x # xs) [] = 1"
| "ci_cmp (x # xs) (y # ys) =
     (if uprv_tolower x = uprv_tolower y then ci_cmp xs ys else uint (uprv_tolower x) - uint (uprv_tolower y))"

lemma uint_eq_u8 [simp]: "uint (x :: u8) = uint y \<longleftrightarrow> x = y"
  by (simp add: word_uint_eq_iff)

lemma ci_cmp_eq_0: "ci_cmp xs ys = 0 \<longleftrightarrow> map uprv_tolower xs = map uprv_tolower ys"
  by (induction xs ys rule: ci_cmp.induct) auto

lemma stricmp_loop_str:
  assumes "str_at s i xs" "str_at t j ys"
  shows "stricmp_loop s i t j = Some (ci_cmp xs ys)"
  using assms
  by (induction xs ys arbitrary: i j rule: ci_cmp.induct)
    (subst stricmp_loop.simps, simp add: str_at_simps)+

lemma strnicmp_loop_str:
  assumes "str_at s i xs" "str_at t j ys"
  shows "strnicmp_loop s i t j n = Some (ci_cmp (take n xs) (take n ys))"
  using assms
proof (induction n arbitrary: i j xs ys)
  case (Suc n)
  then show ?case by (cases xs; cases ys) (simp_all add: str_at_simps)
qed simp

interpretation ci: comparator ci_cmp
proof unfold_locales
  show "ci_cmp x y < 0 \<longleftrightarrow> 0 < ci_cmp y x" for x y
    by (induction x y rule: ci_cmp.induct) auto
  show "ci_cmp x z \<le> 0" if "ci_cmp x y \<le> 0" "ci_cmp y z \<le> 0" for x y z
    using that
  proof (induction x y arbitrary: z rule: ci_cmp.induct)
    case (1 z)
    then show ?case by simp
  next
    case (2 y ys z)
    then show ?case by (cases z) simp_all
  next
    case (4 x xs y ys)
    then show ?case by (cases z) (auto split: if_splits)
  qed simp
qed

lemma ucast_word_of_int_64 [simp]: "(ucast (word_of_int x :: 64 word) :: u32) = word_of_int x"
  by (rule bit_word_eqI) (simp add: bit_ucast_iff bit_word_of_int_iff)

lemma ucast_minus_64 [simp]: "(ucast (- (word_of_int x :: 64 word)) :: u32) = - word_of_int x"
proof -
  have "- (word_of_int x :: 64 word) = word_of_int (- x)" by simp
  also have "(ucast \<dots> :: u32) = word_of_int (- x)" by (rule ucast_word_of_int_64)
  finally show ?thesis by simp
qed

lemma ucast_ucast_64 [simp]: "(ucast (ucast w :: 64 word) :: u32) = w"
  by (rule bit_word_eqI) (simp add: bit_ucast_iff)

lemma ucast_minus_ucast_64 [simp]: "(ucast (- (ucast w :: 64 word)) :: u32) = - w"
  using ucast_minus_64 [of "uint w"] by simp

section \<open>Properties\<close>

text \<open>Numbers of 32 bits have at most 21 digits in radix 3 and more, and at most 11 from radix 8 on.\<close>

lemma digits_bounds:
  assumes "3 \<le> r" "0 \<le> n" "n < 2 ^ 32"
  shows "length (digits r n) \<le> 21" "8 \<le> r \<Longrightarrow> length (digits r n) \<le> 11" "10 \<le> r \<Longrightarrow> length (digits r n) \<le> 10"
proof -
  have bound: "length (digits r n) \<le> k" if "b \<le> r" "2 ^ 32 \<le> b ^ k" "0 < k" "0 < b" for b k
  proof -
    have "b ^ k \<le> r ^ k" using that by (intro power_mono) auto
    then have "n < r ^ k" using assms(3) that(2) by linarith
    then show ?thesis using assms(1,2) that(3) by (intro digits_length) simp_all
  qed
  show "length (digits r n) \<le> 21" by (rule bound [of 3]) (use assms in simp_all)
  show "length (digits r n) \<le> 11" if "8 \<le> r" by (rule bound [OF that]) simp_all
  show "length (digits r n) \<le> 10" if "10 \<le> r" by (rule bound [OF that]) simp_all
qed

lemma number_text_length:
  assumes "3 \<le> r" "0 \<le> n" "n < 2 ^ 32" "neg \<Longrightarrow> r = 10"
  shows "length (number_text neg n r) \<le> 21" "8 \<le> r \<Longrightarrow> length (number_text neg n r) \<le> 11"
  using digits_bounds [OF assms(1-3)] assms(4) by (cases neg; simp add: number_text_def)+

text \<open>
  C31: In the radixes 3 to 16, \<open>T_CString_integerToString\<close> writes a NUL-terminated string of the
  returned length into a buffer with room for it, without leaving its local array, and
  \<open>T_CString_stringToInteger\<close> reads the same 32-bit value back, for every value. The string begins with a minus sign exactly
  for negative values in radix 10, also for the smallest one; in the other radixes a negative value is written as the unsigned
  value of its bits. It is never empty: the comment at the function says that negative values make an empty string, which the
  code does not do. It has at most 21 characters, and at most 11 from radix 8 on: the 12 characters with the NUL that the
  comment gives as the bound are kept only there, where a buffer of that size is enough.
\<close>
theorem integerToString_roundtrip:
  assumes "3 \<le> radix" "radix \<le> 16" "length tbuf0 = 30" "0 \<le> off" "off + (if 8 \<le> radix then 11 else 21) < int (length buffer)"
  shows "\<exists>buffer' tx. T_CString_integerToString tbuf0 buffer off v radix = Some (buffer', int (length tx)) \<and>
    tx \<noteq> [] \<and> (hd tx = 0x2d \<longleftrightarrow> sint v < 0 \<and> radix = 10) \<and>
    length tx \<le> 21 \<and> (8 \<le> radix \<longrightarrow> length tx \<le> 11) \<and> str_at buffer' off tx \<and> length buffer' = length buffer \<and>
    T_CString_stringToInteger buffer' off radix = Some v"
proof -
  let ?neg = "sint v < 0 \<and> radix = 10"
  let ?n = "uint (if ?neg then - v else v)"
  let ?t = "number_text ?neg ?n radix"
  have n: "0 \<le> ?n" "?n < 2 ^ 32" using uint_lt2p [of "if ?neg then - v else v"] by simp_all
  have l: "length ?t \<le> 21" "8 \<le> radix \<longrightarrow> length ?t \<le> 11"
    using number_text_length [OF assms(1) n, of ?neg] by blast+
  then have room: "off + int (length ?t) < int (length buffer)" using assms(5) by (cases "8 \<le> radix") auto
  have hd: "?t \<noteq> []" "hd ?t = 0x2d \<longleftrightarrow> ?neg" using number_text_sign [OF _ assms(2) n(1), of ?neg] assms(1) by linarith+
  have r: "T_CString_integerToString tbuf0 buffer off v radix = Some (overwrite buffer off (?t @ [0]), int (length ?t))"
    using assms(1-4) room by (intro integerToString_ok) auto
  have s: "str_at (overwrite buffer off (?t @ [0])) off ?t"
    using assms room n number_text_no_nul' [of radix ?n ?neg] by (intro str_at_overwrite) auto
  have "strtoul (overwrite buffer off (?t @ [0])) off radix = Some (if ?neg then - word_of_int ?n else word_of_int ?n)"
    using assms n by (intro strtoul_number [OF _ _ _ _ s]) auto
  then have "T_CString_stringToInteger (overwrite buffer off (?t @ [0])) off radix = Some v"
    by (cases ?neg) (auto simp: T_CString_stringToInteger_def)
  moreover have "length (overwrite buffer off (?t @ [0])) = length buffer"
    using assms(4) room by (intro overwrite_length) auto
  ultimately show ?thesis using r s l hd by blast
qed

theorem integerToString_roundtrip_witness:
  "\<exists>b tx. T_CString_integerToString (replicate 30 0xff) (replicate 12 0) 0 0x80000000 10 = Some (b, int (length tx)) \<and>
    hd tx = 0x2d \<and> length tx \<le> 11 \<and> str_at b 0 tx \<and> T_CString_stringToInteger b 0 10 = Some 0x80000000"
proof -
  let ?b = "replicate 12 0 :: u8 list" and ?t = "replicate 30 0xff :: u8 list"
  have "(3::int) \<le> 10" "(10::int) \<le> 16" "length ?t = 30" "(0::int) \<le> 0" "0 + (if 8 \<le> (10::int) then 11 else 21) < int (length ?b)" by simp_all
  from integerToString_roundtrip [OF this, of "0x80000000"] show ?thesis by auto
qed

text \<open>The length of 21 is reached, so the 12 characters of the comment do not suffice in radix 3.\<close>

lemma integerToString_long:
  "map_option snd (T_CString_integerToString (replicate 30 0) (replicate 22 0) 0 0xffffffff 3) = Some 21"
  "T_CString_integerToString (replicate 30 0) (replicate 12 0) 0 0xffffffff 3 = None"
  by code_simp+

text \<open>The function for 64 bits leaves its local array of 30 bytes up to radix 4.\<close>

lemma int64ToString_underflow:
  "T_CString_int64ToString (replicate 30 0) (replicate 64 0) 0 (- 1) 3 = None"
  "T_CString_int64ToString (replicate 30 0) (replicate 64 0) 0 (- 1) 4 = None"
  by code_simp+

text \<open>A negative value is not written as an empty string.\<close>

lemma integerToString_negative:
  "map_option snd (T_CString_integerToString (replicate 30 0) (replicate 12 0) 0 (- 1) 10) = Some 2"
  by code_simp

text \<open>
  C32: In radix 2, which the assertion of \<open>T_CString_integerToString\<close> admits, a value with 30 or
  more binary digits writes below the start of the local array of 30 bytes.
\<close>
theorem integerToString_radix2_underflow:
  assumes "2 ^ 29 \<le> uint v"
  shows "T_CString_integerToString tbuf0 buffer off v 2 = None"
proof -
  have "29 < length (digits 2 (uint v))" using digits_length_ge [of 2 "uint v" 29] assms by simp
  then have "itos_loop t 29 (uint v) 2 = None" for t by (intro itos_loop_underflow) auto
  then show ?thesis by (simp add: T_CString_integerToString_def itos_def)
qed

theorem integerToString_radix2_underflow_witness:
  "T_CString_integerToString (replicate 30 0) (replicate 64 0) 0 0x20000000 2 = None"
  by (rule integerToString_radix2_underflow) simp

text \<open>
  On two strings in memory, \<open>uprv_stricmp\<close> and \<open>uprv_strnicmp\<close> return, read no byte past the
  terminating NULs, and compute the lexicographic comparison of the strings (of their first \<open>n\<close>
  characters) with ASCII letters lowercased; it is 0 exactly for strings that are equal up to case.
\<close>
theorem uprv_stricmp_lexicographic:
  assumes "str_at s i xs" "str_at t j ys"
  shows "uprv_stricmp (Some (s, i)) (Some (t, j)) = Some (ci_cmp xs ys) \<and>
    uprv_strnicmp (Some (s, i)) (Some (t, j)) n = Some (ci_cmp (take (unat n) xs) (take (unat n) ys)) \<and>
    (ci_cmp xs ys = 0 \<longleftrightarrow> map uprv_tolower xs = map uprv_tolower ys)"
  using assms by (simp_all add: stricmp_loop_str strnicmp_loop_str ci_cmp_eq_0)

theorem uprv_stricmp_lexicographic_witness:
  "uprv_stricmp (Some ([0x41, 0x62, 0], 0)) (Some ([0x61, 0x42, 0], 0)) = Some 0"
proof -
  have s: "str_at [0x41, 0x62, 0] 0 [0x41, 0x62]" "str_at [0x61, 0x42, 0] 0 [0x61, 0x42]"
    by (simp_all add: str_at_simps rd_def)
  show ?thesis using uprv_stricmp_lexicographic [OF s]
    by (simp add: uprv_asciitolower_def)
qed
end
