(* ===== verification/Utf16.thy ===== *)
theory Utf16
  imports Prelude
begin

text \<open>
  UTF-16 (\<open>unicode/utf16.h\<close>): the macros that read, write and move over code points in an array of 16-bit units, and the
  meaning of such an array: the list of its code points, where a surrogate that is not part of a pair is a code point itself.
  A macro returns the index that it leaves in \<open>i\<close> and, where it has one, the code point \<open>c\<close>. The length may be negative for
  text that ends with a NUL.
\<close>

section \<open>Macros\<close>

definition U16_IS_LEAD :: "u16 \<Rightarrow> bool" where "U16_IS_LEAD c \<longleftrightarrow> c AND 0xfc00 = 0xd800"
definition U16_IS_TRAIL :: "u16 \<Rightarrow> bool" where "U16_IS_TRAIL c \<longleftrightarrow> c AND 0xfc00 = 0xdc00"
definition U16_IS_SURROGATE :: "u16 \<Rightarrow> bool" where "U16_IS_SURROGATE c \<longleftrightarrow> c AND 0xf800 = 0xd800"
definition U16_IS_SINGLE :: "u16 \<Rightarrow> bool" where "U16_IS_SINGLE c \<longleftrightarrow> \<not> U16_IS_SURROGATE c"
definition U16_IS_SURROGATE_LEAD :: "u16 \<Rightarrow> bool" where "U16_IS_SURROGATE_LEAD c \<longleftrightarrow> c AND 0x400 = 0"

definition U16_GET_SUPPLEMENTARY :: "u16 \<Rightarrow> u16 \<Rightarrow> UChar32" where
  "U16_GET_SUPPLEMENTARY lead trail =
     push_bit 10 (uint lead) + uint trail - (push_bit 10 0xd800 + 0xdc00 - 0x10000)"

definition U16_LEAD :: "UChar32 \<Rightarrow> u16" where
  "U16_LEAD c = word_of_int (drop_bit 10 c + 0xd7c0)"

definition U16_TRAIL :: "UChar32 \<Rightarrow> u16" where
  "U16_TRAIL c = word_of_int ((c AND 0x3ff) OR 0xdc00)"

definition U16_LENGTH :: "UChar32 \<Rightarrow> int" where
  "U16_LENGTH c = (if 0 \<le> c \<and> c \<le> 0xffff then 1 else 2)"

definition U16_GET :: "u16 list \<Rightarrow> int \<Rightarrow> int \<Rightarrow> int \<Rightarrow> UChar32 option" where
  "U16_GET s start i len = do {
     c \<leftarrow> rd s i;
     if U16_IS_SURROGATE c then
       if U16_IS_SURROGATE_LEAD c then
         if i + 1 \<noteq> len then do {
           c2 \<leftarrow> rd s (i + 1);
           Some (if U16_IS_TRAIL c2 then U16_GET_SUPPLEMENTARY c c2 else uint c) }
         else Some (uint c)
       else
         if i > start then do {
           c2 \<leftarrow> rd s (i - 1);
           Some (if U16_IS_LEAD c2 then U16_GET_SUPPLEMENTARY c2 c else uint c) }
         else Some (uint c)
     else Some (uint c) }"

definition U16_NEXT :: "u16 list \<Rightarrow> int \<Rightarrow> int \<Rightarrow> (int \<times> UChar32) option" where
  "U16_NEXT s i len = do {
     c \<leftarrow> rd s i;
     let i = i + 1;
     if U16_IS_LEAD c \<and> i \<noteq> len then do {
       c2 \<leftarrow> rd s i;
       Some (if U16_IS_TRAIL c2 then (i + 1, U16_GET_SUPPLEMENTARY c c2) else (i, uint c)) }
     else Some (i, uint c) }"

text \<open>The result has whether \<open>isError\<close> was set.\<close>

definition U16_APPEND :: "u16 list \<Rightarrow> int \<Rightarrow> int \<Rightarrow> UChar32 \<Rightarrow> (u16 list \<times> int \<times> bool) option" where
  "U16_APPEND s i capacity c =
     (if 0 \<le> c \<and> c \<le> 0xffff then do { s \<leftarrow> wr s i (word_of_int c); Some (s, i + 1, False) }
      else if 0 \<le> c \<and> c \<le> 0x10ffff \<and> i + 1 < capacity then do {
        s \<leftarrow> wr s i (U16_LEAD c); s \<leftarrow> wr s (i + 1) (U16_TRAIL c); Some (s, i + 2, False) }
      else Some (s, i, True))"

definition U16_FWD_1 :: "u16 list \<Rightarrow> int \<Rightarrow> int \<Rightarrow> int option" where
  "U16_FWD_1 s i len = do {
     c \<leftarrow> rd s i;
     if U16_IS_LEAD c \<and> i + 1 \<noteq> len then do { c2 \<leftarrow> rd s (i + 1); Some (if U16_IS_TRAIL c2 then i + 2 else i + 1) }
     else Some (i + 1) }"

fun U16_FWD_N :: "u16 list \<Rightarrow> int \<Rightarrow> int \<Rightarrow> nat \<Rightarrow> int option" where
  "U16_FWD_N s i len 0 = Some i"
| "U16_FWD_N s i len (Suc n) = do {
     go \<leftarrow> (if i < len then Some True else if len < 0 then map_option (\<lambda>c. c \<noteq> 0) (rd s i) else Some False);
     if go then do { i \<leftarrow> U16_FWD_1 s i len; U16_FWD_N s i len n } else Some i }"

definition U16_PREV :: "u16 list \<Rightarrow> int \<Rightarrow> int \<Rightarrow> (int \<times> UChar32) option" where
  "U16_PREV s start i = do {
     let i = i - 1;
     c \<leftarrow> rd s i;
     if U16_IS_TRAIL c \<and> i > start then do {
       c2 \<leftarrow> rd s (i - 1);
       Some (if U16_IS_LEAD c2 then (i - 1, U16_GET_SUPPLEMENTARY c2 c) else (i, uint c)) }
     else Some (i, uint c) }"

definition U16_BACK_1 :: "u16 list \<Rightarrow> int \<Rightarrow> int \<Rightarrow> int option" where
  "U16_BACK_1 s start i = do {
     c \<leftarrow> rd s (i - 1);
     if U16_IS_TRAIL c \<and> i - 1 > start then do { c2 \<leftarrow> rd s (i - 2); Some (if U16_IS_LEAD c2 then i - 2 else i - 1) }
     else Some (i - 1) }"

fun U16_BACK_N :: "u16 list \<Rightarrow> int \<Rightarrow> int \<Rightarrow> nat \<Rightarrow> int option" where
  "U16_BACK_N s start i 0 = Some i"
| "U16_BACK_N s start i (Suc n) =
     (if i > start then do { i \<leftarrow> U16_BACK_1 s start i; U16_BACK_N s start i n } else Some i)"

definition U16_SET_CP_START :: "u16 list \<Rightarrow> int \<Rightarrow> int \<Rightarrow> int option" where
  "U16_SET_CP_START s start i = do {
     c \<leftarrow> rd s i;
     if U16_IS_TRAIL c \<and> i > start then do { c2 \<leftarrow> rd s (i - 1); Some (if U16_IS_LEAD c2 then i - 1 else i) }
     else Some i }"

definition U16_SET_CP_LIMIT :: "u16 list \<Rightarrow> int \<Rightarrow> int \<Rightarrow> int \<Rightarrow> int option" where
  "U16_SET_CP_LIMIT s start i len =
     (if start < i \<and> (i < len \<or> len < 0) then do {
        c \<leftarrow> rd s (i - 1);
        if U16_IS_LEAD c then do { c2 \<leftarrow> rd s i; Some (if U16_IS_TRAIL c2 then i + 1 else i) } else Some i }
      else Some i)"

section \<open>Surrogates\<close>

lemma lead_iff:
  "U16_IS_LEAD c \<longleftrightarrow> 0xd800 \<le> uint c \<and> uint c < 0xdc00"
  "U16_IS_TRAIL c \<longleftrightarrow> 0xdc00 \<le> uint c \<and> uint c < 0xe000"
proof -
  have "uint (c AND 0xfc00) = uint c - uint c mod 1024"
    using int_and_high [of "uint c" 16 "0xfc00" 10] uint_u16_bounds [of c] by (simp add: uint_and mask_eq_exp_minus_1)
  then show "U16_IS_LEAD c \<longleftrightarrow> 0xd800 \<le> uint c \<and> uint c < 0xdc00" "U16_IS_TRAIL c \<longleftrightarrow> 0xdc00 \<le> uint c \<and> uint c < 0xe000"
    using int_block_iff [of 1024 "uint c" 54] int_block_iff [of 1024 "uint c" 55]
    by (simp_all add: U16_IS_LEAD_def U16_IS_TRAIL_def word_uint_eq_iff)
qed

lemma surrogate_iff: "U16_IS_SURROGATE c \<longleftrightarrow> 0xd800 \<le> uint c \<and> uint c < 0xe000"
proof -
  have "uint (c AND 0xf800) = uint c - uint c mod 2048"
    using int_and_high [of "uint c" 16 "0xf800" 11] uint_u16_bounds [of c] by (simp add: uint_and mask_eq_exp_minus_1)
  then show ?thesis using int_block_iff [of 2048 "uint c" 27] by (simp add: U16_IS_SURROGATE_def word_uint_eq_iff)
qed

lemma surrogate_lead:
  assumes "U16_IS_SURROGATE c"
  shows "U16_IS_SURROGATE_LEAD c = U16_IS_LEAD c" "U16_IS_LEAD c \<longleftrightarrow> \<not> U16_IS_TRAIL c"
proof -
  have c: "0xd800 \<le> uint c" "uint c < 0xe000" using assms by (simp_all add: surrogate_iff)
  have "uint (c AND 0x400) = uint c AND 0x400" by (simp add: uint_and)
  also have "\<dots> = uint c mod 2048 - uint c mod 1024"
  proof -
    have "uint c AND 0x7ff = uint c mod 2048" using int_and_mask [of "uint c" 11] by simp
    moreover have "uint c AND 0x400 = (uint c AND 0x7ff) AND NOT (mask 10)" by (simp add: and.assoc mask_eq_exp_minus_1)
    ultimately show ?thesis by (simp add: int_and_not_mask mod_mod_cancel)
  qed
  finally have *: "uint (c AND 0x400) = uint c mod 2048 - uint c mod 1024" .
  show "U16_IS_SURROGATE_LEAD c = U16_IS_LEAD c"
  proof (cases "uint c < 0xdc00")
    case True
    then have "uint c mod 2048 = uint c - 0xd800" "uint c mod 1024 = uint c - 0xd800"
      using int_mod_block [of 27 2048 "uint c"] int_mod_block [of 54 1024 "uint c"] c by simp_all
    then show ?thesis using * True c by (simp add: U16_IS_SURROGATE_LEAD_def word_uint_eq_iff lead_iff)
  next
    case False
    then have "uint c mod 2048 = uint c - 0xd800" "uint c mod 1024 = uint c - 0xdc00"
      using int_mod_block [of 27 2048 "uint c"] int_mod_block [of 55 1024 "uint c"] c by simp_all
    then show ?thesis using * False c by (simp add: U16_IS_SURROGATE_LEAD_def word_uint_eq_iff lead_iff)
  qed
  show "U16_IS_LEAD c \<longleftrightarrow> \<not> U16_IS_TRAIL c" using c by (auto simp: lead_iff)
qed

lemma not_lead_trail: "U16_IS_TRAIL u \<Longrightarrow> \<not> U16_IS_LEAD u"
  by (simp add: lead_iff)

lemma supplementary_bounds:
  "U16_IS_LEAD u \<Longrightarrow> U16_IS_TRAIL v \<Longrightarrow> 0x10000 \<le> U16_GET_SUPPLEMENTARY u v \<and> U16_GET_SUPPLEMENTARY u v < 0x110000"
  by (simp add: lead_iff U16_GET_SUPPLEMENTARY_def push_bit_eq_mult)

lemma lead_trail_of:
  assumes "0x10000 \<le> c" "c \<le> 0x10ffff"
  shows "uint (U16_LEAD c) = c div 1024 + 0xd7c0" "uint (U16_TRAIL c) = c mod 1024 + 0xdc00"
    "U16_IS_LEAD (U16_LEAD c)" "U16_IS_TRAIL (U16_TRAIL c)" "U16_GET_SUPPLEMENTARY (U16_LEAD c) (U16_TRAIL c) = c"
proof -
  have d: "0x40 \<le> c div 1024" "c div 1024 \<le> 0x43f" using assms by auto
  show l: "uint (U16_LEAD c) = c div 1024 + 0xd7c0" using d unfolding U16_LEAD_def uint_u16_of_int by (simp add: drop_bit_eq_div)
  have "(c AND 0x3ff) OR 0xdc00 = push_bit 10 55 OR c mod 1024" by (simp add: int_and_lows or.commute)
  also have "\<dots> = c mod 1024 + 0xdc00" using int_or_push_bit [of "c mod 1024" 10 55] by simp
  finally show t: "uint (U16_TRAIL c) = c mod 1024 + 0xdc00"
    unfolding U16_TRAIL_def uint_u16_of_int by simp
  show "U16_IS_LEAD (U16_LEAD c)" "U16_IS_TRAIL (U16_TRAIL c)" using l t d by (simp_all add: lead_iff)
  show "U16_GET_SUPPLEMENTARY (U16_LEAD c) (U16_TRAIL c) = c"
    using l t by (simp add: U16_GET_SUPPLEMENTARY_def push_bit_eq_mult)
qed

lemma lead_trail_get:
  assumes "U16_IS_LEAD u" "U16_IS_TRAIL v"
  shows "U16_LEAD (U16_GET_SUPPLEMENTARY u v) = u" "U16_TRAIL (U16_GET_SUPPLEMENTARY u v) = v"
proof -
  define c where "c = U16_GET_SUPPLEMENTARY u v"
  have c: "c = 1024 * (uint u - 0xd7c0) + (uint v - 0xdc00)" by (simp add: c_def U16_GET_SUPPLEMENTARY_def push_bit_eq_mult)
  have uv: "0 \<le> uint v - 0xdc00" "uint v - 0xdc00 < 1024" using assms by (simp_all add: lead_iff)
  then have m: "c mod 1024 = uint v - 0xdc00" using int_mod_block [of "uint u - 0xd7c0" 1024 c] c by simp
  have "1024 * (c div 1024) = 1024 * (uint u - 0xd7c0)" using m c mult_div_mod_eq [of 1024 c] by simp
  then have "c div 1024 = uint u - 0xd7c0" by simp
  moreover have "0x10000 \<le> c" "c \<le> 0x10ffff" using supplementary_bounds [OF assms] by (simp_all add: c_def)
  ultimately have "uint (U16_LEAD c) = uint u" "uint (U16_TRAIL c) = uint v" using m by (simp_all add: lead_trail_of)
  then show "U16_LEAD (U16_GET_SUPPLEMENTARY u v) = u" "U16_TRAIL (U16_GET_SUPPLEMENTARY u v) = v"
    by (simp_all add: c_def word_uint_eq_iff)
qed

text \<open>The same value as a test of the unit at hand alone.\<close>

lemma U16_GET_cases:
  "U16_GET s start i len = do {
     c \<leftarrow> rd s i;
     if U16_IS_LEAD c then
       if i + 1 \<noteq> len then do {
         c2 \<leftarrow> rd s (i + 1);
         Some (if U16_IS_TRAIL c2 then U16_GET_SUPPLEMENTARY c c2 else uint c) }
       else Some (uint c)
     else if U16_IS_TRAIL c then
       if i > start then do {
         c2 \<leftarrow> rd s (i - 1);
         Some (if U16_IS_LEAD c2 then U16_GET_SUPPLEMENTARY c2 c else uint c) }
       else Some (uint c)
     else Some (uint c) }"
proof (cases "rd s i")
  case (Some c)
  then show ?thesis
    using surrogate_lead [of c] by (cases "U16_IS_SURROGATE c") (auto simp: U16_GET_def surrogate_iff lead_iff)
qed (simp add: U16_GET_def)

section \<open>The code points of a text\<close>

fun code_points :: "u16 list \<Rightarrow> int list" where
  "code_points (u # v # text) =
     (if U16_IS_LEAD u \<and> U16_IS_TRAIL v then U16_GET_SUPPLEMENTARY u v # code_points text else uint u # code_points (v # text))"
| "code_points text = map uint text"

definition width16 :: "int \<Rightarrow> int" where
  "width16 c = (if c \<ge> 0x10000 then 2 else 1)"

definition widths :: "int list \<Rightarrow> int" where
  "widths cs = sum_list (map width16 cs)"

definition splits_pair :: "u16 list \<Rightarrow> u16 list \<Rightarrow> bool" where
  "splits_pair xs ys \<longleftrightarrow> xs \<noteq> [] \<and> ys \<noteq> [] \<and> U16_IS_LEAD (last xs) \<and> U16_IS_TRAIL (hd ys)"

lemma code_points_append: "\<not> splits_pair xs ys \<Longrightarrow> code_points (xs @ ys) = code_points xs @ code_points ys"
proof (induction xs rule: code_points.induct [case_names step none one])
  case (step a b str)
  then have "\<not> splits_pair str ys" "\<not> splits_pair (b # str) ys" by (auto simp: splits_pair_def)
  then show ?case using step by simp
next
  case (one a)
  then show ?case by (cases ys) (auto simp: splits_pair_def)
qed simp

lemma code_points_pair: "U16_IS_LEAD u \<Longrightarrow> U16_IS_TRAIL v \<Longrightarrow> code_points (xs @ [u, v]) = code_points xs @ [U16_GET_SUPPLEMENTARY u v]"
  using code_points_append [of xs "[u, v]"] not_lead_trail [of u] by (auto simp: splits_pair_def)

lemma code_points_single:
  "xs \<noteq> [] \<Longrightarrow> \<not> (U16_IS_LEAD (last xs) \<and> U16_IS_TRAIL u) \<Longrightarrow> code_points (xs @ [u]) = code_points xs @ [uint u]"
  by (subst code_points_append) (auto simp: splits_pair_def)

lemma code_points_bounds: "c \<in> set (code_points str) \<Longrightarrow> 0 \<le> c \<and> c < 0x110000"
proof (induction str rule: code_points.induct [case_names step none one])
  case (step a b str)
  then show ?case using supplementary_bounds [of a b] uint_u16_bounds [of a] by (auto split: if_splits)
next
  case (one a)
  then show ?case using uint_u16_bounds [of a] by auto
qed simp

lemma width16_pos: "0 < width16 c" "1 \<le> width16 c" "width16 c \<noteq> 0"
  by (simp_all add: width16_def)

lemma U16_LENGTH_width: "0 \<le> c \<Longrightarrow> U16_LENGTH c = width16 c"
  by (simp add: U16_LENGTH_def width16_def)

lemma seg_snoc: "0 \<le> i \<Longrightarrow> i < j \<Longrightarrow> j \<le> int (length s) \<Longrightarrow> seg s i j = seg s i (j - 1) @ [s ! nat (j - 1)]"
proof -
  assume a: "0 \<le> i" "i < j" "j \<le> int (length s)"
  have n: "nat (j - i) = Suc (nat (j - 1 - i))" "nat i + nat (j - 1 - i) = nat (j - 1)" "nat (j - 1 - i) < length (drop (nat i) s)"
    using a by (simp_all add: nat_diff_distrib)
  show ?thesis unfolding seg_def n(1) take_Suc_conv_app_nth [OF n(3)] using n(2) a by simp
qed

text \<open>One code point from the start and from the end of a text.\<close>

lemma U16_NEXT_ok:
  assumes i: "0 \<le> i" "i < limit" "limit \<le> int (length s)"
  obtains c where "U16_NEXT s i limit = Some (i + width16 c, c)" "i + width16 c \<le> limit"
    "code_points (seg s i limit) = c # code_points (seg s (i + width16 c) limit)"
proof -
  define u where "u = s ! nat i"
  have u: "rd s i = Some u" "seg s i limit = u # seg s (i + 1) limit" using i seg_step [of i limit s] by (simp_all add: u_def)
  show thesis
  proof (cases "U16_IS_LEAD u \<and> i + 1 < limit \<and> U16_IS_TRAIL (s ! nat (i + 1))")
    case True
    define v where "v = s ! nat (i + 1)"
    have v: "rd s (i + 1) = Some v" "seg s (i + 1) limit = v # seg s (i + 2) limit" "U16_IS_TRAIL v"
      using True i seg_step [of "i + 1" limit s] by (simp_all add: v_def add.assoc)
    note c = supplementary_bounds [OF conjunct1 [OF True] v(3)]
    show thesis using that [of "U16_GET_SUPPLEMENTARY u v"] True u v c by (simp add: U16_NEXT_def Let_def width16_def)
  next
    case False
    have "code_points (seg s i limit) = uint u # code_points (seg s (i + 1) limit)"
      using False u(2) i seg_step [of "i + 1" limit s] by (cases "i + 1 < limit") auto
    moreover have "U16_NEXT s i limit = Some (i + 1, uint u)"
      using False u(1) i by (cases "i + 1 = limit") (auto simp: U16_NEXT_def Let_def)
    ultimately show thesis using that [of "uint u"] uint_u16_bounds [of u] i by (simp add: width16_def)
  qed
qed

lemma U16_PREV_ok:
  assumes i: "0 \<le> start" "start < limit" "limit \<le> int (length s)"
  obtains c where "U16_PREV s start limit = Some (limit - width16 c, c)" "start \<le> limit - width16 c"
    "code_points (seg s start limit) = code_points (seg s start (limit - width16 c)) @ [c]"
proof -
  define u where "u = s ! nat (limit - 1)"
  have u: "rd s (limit - 1) = Some u" "seg s start limit = seg s start (limit - 1) @ [u]" using i seg_snoc [of start limit s]
    by (simp_all add: u_def)
  define v where "v = s ! nat (limit - 2)"
  have v: "rd s (limit - 2) = Some v" "seg s start (limit - 1) = seg s start (limit - 2) @ [v]" if "start < limit - 1"
    using i that seg_snoc [of start "limit - 1" s] by (simp_all add: v_def rd_Some_iff)
  show thesis
  proof (cases "U16_IS_TRAIL u \<and> start < limit - 1 \<and> U16_IS_LEAD v")
    case True
    note c = supplementary_bounds [of v u]
    have "code_points (seg s start limit) = code_points (seg s start (limit - 2)) @ [U16_GET_SUPPLEMENTARY v u]"
      using u(2) v(2) True code_points_pair [of v u] by simp
    then show thesis using that [of "U16_GET_SUPPLEMENTARY v u"] True u v c by (simp add: U16_PREV_def Let_def width16_def)
  next
    case False
    have "code_points (seg s start limit) = code_points (seg s start (limit - 1)) @ [uint u]"
    proof (cases "start < limit - 1")
      case True
      then show ?thesis unfolding u(2) by (intro code_points_single) (use v(2) False in auto)
    next
      case False
      then show ?thesis using u(2) by simp
    qed
    moreover have "U16_PREV s start limit = Some (limit - 1, uint u)"
      using False u(1) v(1) i by (cases "start < limit - 1") (auto simp: U16_PREV_def Let_def)
    ultimately show thesis using that [of "uint u"] uint_u16_bounds [of u] i by (simp add: width16_def)
  qed
qed

lemma U16_FWD_1_NEXT: "U16_FWD_1 s i len = map_option fst (U16_NEXT s i len)"
  by (cases "rd s i"; cases "rd s (i + 1)") (simp_all add: U16_FWD_1_def U16_NEXT_def Let_def)

lemma U16_BACK_1_PREV: "U16_BACK_1 s start i = map_option fst (U16_PREV s start i)"
  by (cases "rd s (i - 1)"; cases "rd s (i - 2)") (simp_all add: U16_BACK_1_def U16_PREV_def Let_def)

lemma U16_FWD_N_ok:
  "0 \<le> i \<Longrightarrow> i \<le> limit \<Longrightarrow> limit \<le> int (length s) \<Longrightarrow>
   U16_FWD_N s i limit n = Some (i + widths (take n (code_points (seg s i limit))))"
proof (induction n arbitrary: i)
  case (Suc n)
  show ?case
  proof (cases "i < limit")
    case True
    obtain c where c: "U16_NEXT s i limit = Some (i + width16 c, c)" "i + width16 c \<le> limit"
      "code_points (seg s i limit) = c # code_points (seg s (i + width16 c) limit)"
      by (rule U16_NEXT_ok [OF Suc.prems(1) True Suc.prems(3)])
    have "U16_FWD_N s i limit (Suc n) = U16_FWD_N s (i + width16 c) limit n" using True c(1) by (simp add: U16_FWD_1_NEXT)
    then show ?thesis using Suc.IH [of "i + width16 c"] Suc.prems c width16_pos(1) [of c] by (simp add: widths_def)
  qed (use Suc.prems in \<open>simp add: widths_def\<close>)
qed (simp add: widths_def)

lemma U16_BACK_N_ok:
  "0 \<le> start \<Longrightarrow> start \<le> i \<Longrightarrow> i \<le> int (length s) \<Longrightarrow>
   U16_BACK_N s start i n = Some (i - widths (take n (rev (code_points (seg s start i)))))"
proof (induction n arbitrary: i)
  case (Suc n)
  show ?case
  proof (cases "start < i")
    case True
    obtain c where c: "U16_PREV s start i = Some (i - width16 c, c)" "start \<le> i - width16 c"
      "code_points (seg s start i) = code_points (seg s start (i - width16 c)) @ [c]"
      by (rule U16_PREV_ok [OF Suc.prems(1) True Suc.prems(3)])
    have "U16_BACK_N s start i (Suc n) = U16_BACK_N s start (i - width16 c) n" using True c(1) by (simp add: U16_BACK_1_PREV)
    moreover have "i - width16 c \<le> int (length s)" using Suc.prems(3) width16_pos(1) [of c] by linarith
    ultimately show ?thesis using Suc.IH [of "i - width16 c"] Suc.prems c by (simp add: widths_def)
  qed (use Suc.prems in \<open>simp add: widths_def\<close>)
qed (simp add: widths_def)

section \<open>Boundaries\<close>

lemma seg_join: "0 \<le> a \<Longrightarrow> a \<le> b \<Longrightarrow> b \<le> c \<Longrightarrow> seg s a b @ seg s b c = seg s a c"
proof -
  assume a: "0 \<le> a" "a \<le> b" "b \<le> c"
  have "nat (c - a) = nat (b - a) + nat (c - b)" "nat b = nat (b - a) + nat a" using a by (simp_all add: nat_diff_distrib)
  then show ?thesis by (simp add: seg_def take_add)
qed

lemma seg_ends:
  assumes "0 \<le> a" "a < b" "b \<le> int (length s)"
  shows "seg s a b \<noteq> []" "hd (seg s a b) = s ! nat a" "last (seg s a b) = s ! nat (b - 1)"
  using assms by (simp add: seg_step, simp add: seg_step, simp add: seg_snoc)

lemma seg_none: "0 \<le> a \<Longrightarrow> b \<le> int (length s) \<Longrightarrow> seg s a b = [] \<longleftrightarrow> b \<le> a"
  using seg_ends(1) [of a b s] by (cases "a < b") auto

lemma splits_iff:
  assumes "0 \<le> start" "start \<le> i" "i \<le> len" "len \<le> int (length s)"
  shows "splits_pair (seg s start i) (seg s i len) \<longleftrightarrow>
    start < i \<and> i < len \<and> U16_IS_LEAD (s ! nat (i - 1)) \<and> U16_IS_TRAIL (s ! nat i)"
  using assms seg_ends [of start i s] seg_ends [of i len s] by (cases "start < i"; cases "i < len") (auto simp: splits_pair_def)

lemma boundary_ok:
  assumes "0 \<le> start" "start \<le> i" "i \<le> len" "len \<le> int (length s)"
    "\<not> (start < i \<and> i < len \<and> U16_IS_LEAD (s ! nat (i - 1)) \<and> U16_IS_TRAIL (s ! nat i))"
  shows "code_points (seg s start len) = code_points (seg s start i) @ code_points (seg s i len)"
  using code_points_append [of "seg s start i" "seg s i len"] splits_iff [OF assms(1-4)] assms seg_join [OF assms(1-3), of s] by simp

lemma U16_SET_CP_START_ok:
  assumes "0 \<le> start" "start \<le> i" "i < len" "len \<le> int (length s)"
  shows "\<exists>j c. U16_SET_CP_START s start i = Some j \<and> U16_GET s start i len = Some c \<and> start \<le> j \<and> j \<le> i \<and> i < j + width16 c \<and>
    code_points (seg s start len) = code_points (seg s start j) @ c # code_points (seg s (j + width16 c) len)"
proof -
  define u where "u = s ! nat i"
  define t where "t = s ! nat (i - 1)"
  have u: "rd s i = Some u" using assms by (simp add: u_def)
  have t: "rd s (i - 1) = Some t" if "start < i" using assms that by (simp add: t_def)
  define j where "j = (if start < i \<and> U16_IS_LEAD t \<and> U16_IS_TRAIL u then i - 1 else i)"
  have set: "U16_SET_CP_START s start i = Some j" using u t by (auto simp: U16_SET_CP_START_def j_def)
  have j: "0 \<le> j" "start \<le> j" "j \<le> i" "j < len" using assms by (auto simp: j_def)
  have "\<not> (start < j \<and> j < len \<and> U16_IS_LEAD (s ! nat (j - 1)) \<and> U16_IS_TRAIL (s ! nat j))"
    using not_lead_trail [of t] by (auto simp: j_def t_def u_def)
  then have split: "code_points (seg s start len) = code_points (seg s start j) @ code_points (seg s j len)"
    using boundary_ok [OF assms(1) j(2) _ assms(4)] j(4) by simp
  obtain c where c: "U16_NEXT s j len = Some (j + width16 c, c)" "code_points (seg s j len) = c # code_points (seg s (j + width16 c) len)"
    by (rule U16_NEXT_ok [OF j(1,4) assms(4)])
  have "U16_GET s start i len = Some c \<and> i < j + width16 c"
  proof (cases "start < i \<and> U16_IS_LEAD t \<and> U16_IS_TRAIL u")
    case True
    then have "U16_NEXT s j len = Some (i + 1, U16_GET_SUPPLEMENTARY t u)" using t u assms by (simp add: U16_NEXT_def j_def)
    with c(1) have "c = U16_GET_SUPPLEMENTARY t u" "j + width16 c = i + 1" by (simp_all only: option.inject prod.inject)
    then show ?thesis using True t u not_lead_trail [of u] by (simp add: U16_GET_cases)
  next
    case False
    then have "j = i" by (auto simp: j_def)
    have v: "rd s (i + 1) = Some (s ! nat (i + 1))" if "i + 1 \<noteq> len" using assms that by simp
    have "U16_GET s start i len = map_option snd (U16_NEXT s i len)"
      using False t u v by (cases "U16_IS_LEAD u"; cases "i + 1 = len") (auto simp: U16_GET_cases U16_NEXT_def Let_def)
    then show ?thesis using c(1) \<open>j = i\<close> by (simp add: width16_pos)
  qed
  then show ?thesis using set j split c(2) by auto
qed

lemma U16_SET_CP_LIMIT_ok:
  assumes "0 \<le> start" "start \<le> i" "i \<le> len" "len \<le> int (length s)"
  shows "\<exists>j. U16_SET_CP_LIMIT s start i len = Some j \<and> i \<le> j \<and> j \<le> i + 1 \<and> j \<le> len \<and>
    code_points (seg s start len) = code_points (seg s start j) @ code_points (seg s j len)"
proof (cases "start < i \<and> i < len \<and> U16_IS_LEAD (s ! nat (i - 1)) \<and> U16_IS_TRAIL (s ! nat i)")
  case True
  then have "U16_SET_CP_LIMIT s start i len = Some (i + 1)" using assms by (simp add: U16_SET_CP_LIMIT_def rd_Some_iff)
  moreover have "code_points (seg s start len) = code_points (seg s start (i + 1)) @ code_points (seg s (i + 1) len)"
    by (rule boundary_ok) (use assms True not_lead_trail in auto)
  ultimately show ?thesis using True by auto
next
  case False
  then have "U16_SET_CP_LIMIT s start i len = Some i" using assms by (cases "start < i \<and> i < len") (auto simp: U16_SET_CP_LIMIT_def)
  then show ?thesis using boundary_ok [OF assms False] assms by auto
qed

section \<open>Encoding\<close>

definition utf16_encode :: "int \<Rightarrow> u16 list" where
  "utf16_encode c = (if c < 0x10000 then [word_of_int c] else [U16_LEAD c, U16_TRAIL c])"

definition utf16 :: "int list \<Rightarrow> u16 list" where
  "utf16 cs = concat (map utf16_encode cs)"

definition scalar16 :: "int \<Rightarrow> bool" where
  "scalar16 c \<longleftrightarrow> 0 \<le> c \<and> c \<le> 0x10ffff \<and> \<not> (0xd800 \<le> c \<and> c < 0xe000)"

lemma utf16_simps [simp]: "utf16 [] = []" "utf16 (c # cs) = utf16_encode c @ utf16 cs" "utf16 (cs @ ds) = utf16 cs @ utf16 ds"
  by (simp_all add: utf16_def)

lemma utf16_encode_length [simp]: "0 \<le> c \<Longrightarrow> int (length (utf16_encode c)) = width16 c"
  by (simp add: utf16_encode_def width16_def)

lemma utf16_length: "\<forall>c \<in> set cs. 0 \<le> c \<Longrightarrow> int (length (utf16 cs)) = widths cs"
  by (induction cs) (simp_all add: widths_def)

lemma code_points_encode [simp]: "0 \<le> c \<Longrightarrow> c \<le> 0x10ffff \<Longrightarrow> code_points (utf16_encode c) = [c]"
  using lead_trail_of [of c] by (simp add: utf16_encode_def uint_u16_of_int)

lemma utf16_code_points: "utf16 (code_points str) = str"
proof (induction str rule: code_points.induct [case_names step none one])
  case (step a b str)
  then show ?case using supplementary_bounds [of a b] lead_trail_get [of a b] uint_u16_bounds [of a] by (auto simp: utf16_encode_def)
next
  case (one a)
  then show ?case using uint_u16_bounds [of a] by (simp add: utf16_encode_def)
qed simp

lemma scalar_ends: "scalar16 c \<Longrightarrow> \<not> U16_IS_LEAD (last (utf16_encode c)) \<and> \<not> U16_IS_TRAIL (hd (utf16_encode c)) \<and> utf16_encode c \<noteq> []"
  using lead_trail_of [of c] not_lead_trail by (auto simp: scalar16_def utf16_encode_def lead_iff uint_u16_of_int)

lemma code_points_utf16: "\<forall>c \<in> set cs. scalar16 c \<Longrightarrow> code_points (utf16 cs) = cs"
proof (induction cs)
  case (Cons c cs)
  then have "\<not> splits_pair (utf16_encode c) (utf16 cs)" using scalar_ends [of c] by (simp add: splits_pair_def)
  then show ?case using Cons code_points_append [of "utf16_encode c" "utf16 cs"] by (simp add: scalar16_def)
qed simp

lemma U16_APPEND_ok:
  assumes "0 \<le> c" "c \<le> 0x10ffff" "0 \<le> i" "i < capacity" "capacity \<le> int (length s)"
  shows "U16_APPEND s i capacity c =
    Some (if i + width16 c \<le> capacity then (overwrite s i (utf16_encode c), i + width16 c, False) else (s, i, True))"
  using assms overwrite_Cons [of i "[U16_TRAIL c]" s "U16_LEAD c"] overwrite_Cons [of "i + 1" "[]" "s[nat i := U16_LEAD c]" "U16_TRAIL c"]
    overwrite_Cons [of i "[]" s "word_of_int c"]
  by (auto simp: U16_APPEND_def width16_def utf16_encode_def)

section \<open>Properties\<close>

text \<open>
  C16: the macros move over the code points of a text from any boundary in it, with surrogate pairs taken together:
  \<open>U16_NEXT\<close> and \<open>U16_PREV\<close> return the next and the previous one, \<open>U16_FWD_N\<close> and \<open>U16_BACK_N\<close> pass over \<open>n\<close> of them or stop
  at the end, and \<open>U16_SET_CP_START\<close> finds the start of the one that \<open>U16_GET\<close> returns, from any unit of it.
\<close>

theorem U16_iteration_correct:
  assumes "0 \<le> start" "start \<le> i" "i < limit" "limit \<le> int (length s)"
  shows "(\<exists>c. U16_NEXT s i limit = Some (i + width16 c, c) \<and> code_points (seg s i limit) = c # code_points (seg s (i + width16 c) limit)) \<and>
    (\<exists>c. U16_PREV s start limit = Some (limit - width16 c, c) \<and>
       code_points (seg s start limit) = code_points (seg s start (limit - width16 c)) @ [c]) \<and>
    U16_FWD_N s i limit n = Some (i + widths (take n (code_points (seg s i limit)))) \<and>
    U16_BACK_N s start i n = Some (i - widths (take n (rev (code_points (seg s start i))))) \<and>
    (\<exists>j c. U16_SET_CP_START s start i = Some j \<and> U16_GET s start i limit = Some c \<and> j \<le> i \<and> i < j + width16 c \<and>
       code_points (seg s start limit) = code_points (seg s start j) @ c # code_points (seg s (j + width16 c) limit))"
proof -
  have "0 \<le> i" "start < limit" "i \<le> limit" "i \<le> int (length s)" using assms by simp_all
  then show ?thesis
    using U16_NEXT_ok [of i limit s] U16_PREV_ok [of start limit s] U16_FWD_N_ok [of i limit s n] U16_BACK_N_ok [of start i s n]
      U16_SET_CP_START_ok [of start i limit s] assms by metis
qed

theorem U16_iteration_correct_witness:
  "U16_FWD_N [0x41, 0xd83d, 0xde00, 0xd800] 1 4 1 = Some 3 \<and> U16_BACK_N [0x41, 0xd83d, 0xde00, 0xd800] 0 1 5 = Some 0"
  using U16_iteration_correct [of 0 1 4 "[0x41, 0xd83d, 0xde00, 0xd800]" 1] U16_iteration_correct [of 0 1 4 "[0x41, 0xd83d, 0xde00, 0xd800]" 5]
  by (simp add: seg_def U16_IS_LEAD_def U16_IS_TRAIL_def U16_GET_SUPPLEMENTARY_def push_bit_eq_mult widths_def width16_def)

end
