(* ===== verification/Ustring.thy ===== *)
theory Ustring
  imports Utf16
begin

text \<open>
  Helpers of \<open>ustring.cpp\<close> for strings of 16-bit units and of chars: the length of a string that ends with a NUL, the
  termination of an output string, and the hash of a string, which uses about 32 of its units.
\<close>

function strlen_from :: "u16 list \<Rightarrow> int \<Rightarrow> int option" where
  "strlen_from s t = do { c \<leftarrow> rd s t; if c \<noteq> 0 then strlen_from s (t + 1) else Some t }"
  by pat_completeness auto
termination by (relation "measure (\<lambda>(s, t). nat (int (length s) - t))") (auto simp: rd_Some_iff)

declare strlen_from.simps [simp del]

definition u_strlen :: "u16 list \<Rightarrow> int option" where
  "u_strlen s = strlen_from s 0"

definition u_terminateUChars :: "u16 list \<Rightarrow> int \<Rightarrow> int \<Rightarrow> UErrorCode \<Rightarrow> (u16 list \<times> int \<times> UErrorCode) option" where
  "u_terminateUChars dest destCapacity len err =
     (if U_SUCCESS err \<and> 0 \<le> len then
        if len < destCapacity then do {
          dest \<leftarrow> wr dest len 0;
          Some (dest, len, if err = U_STRING_NOT_TERMINATED_WARNING then U_ZERO_ERROR else err) }
        else if len = destCapacity then Some (dest, len, U_STRING_NOT_TERMINATED_WARNING)
        else Some (dest, len, U_BUFFER_OVERFLOW_ERROR)
      else Some (dest, len, err))"

text \<open>\<open>STRING_HASH\<close>: the parameter \<open>deref\<close> is what is added for a unit.\<close>

function hash_loop :: "('a \<Rightarrow> u32) \<Rightarrow> 'a list \<Rightarrow> int \<Rightarrow> int \<Rightarrow> int \<Rightarrow> u32 \<Rightarrow> u32 option" where
  "hash_loop deref s p limit inc hash =
     (if p < limit then
        if inc > 0 then do { c \<leftarrow> rd s p; hash_loop deref s (p + inc) limit inc (hash * 37 + deref c) } else None
      else Some hash)"
  by pat_completeness auto
termination by (relation "measure (\<lambda>(deref, s, p, limit, inc, hash). nat (limit - p))") auto

declare hash_loop.simps [simp del]

lemma strlen_from_ok:
  "0 \<le> t \<Longrightarrow> t \<le> j \<Longrightarrow> j < int (length s) \<Longrightarrow> \<forall>k. t \<le> k \<and> k < j \<longrightarrow> s ! nat k \<noteq> 0 \<Longrightarrow> s ! nat j = 0 \<Longrightarrow> strlen_from s t = Some j"
proof (induction "nat (j - t)" arbitrary: t rule: less_induct)
  case less
  show ?case
  proof (cases "t = j")
    case True
    then show ?thesis using less.prems by (subst strlen_from.simps) simp
  next
    case False
    then have "strlen_from s (t + 1) = Some j" using less.prems by (intro less.hyps) auto
    moreover have "rd s t = Some (s ! nat t)" "s ! nat t \<noteq> 0" using False less.prems by auto
    ultimately show ?thesis by (subst strlen_from.simps) simp
  qed
qed

lemma u_strlen_ok: "0 \<notin> set s \<Longrightarrow> u_strlen (s @ 0 # rest) = Some (int (length s))"
  unfolding u_strlen_def by (rule strlen_from_ok) (auto simp: nth_append nat_less_iff set_conv_nth)

text \<open>The units of a string in front of its NUL.\<close>

definition c_string :: "'a::len word list \<Rightarrow> 'a word list" where
  "c_string s = takeWhile (\<lambda>c. c \<noteq> 0) s"

lemma c_string_split: "0 \<in> set s \<Longrightarrow> \<exists>rest. s = c_string s @ 0 # rest \<and> 0 \<notin> set (c_string s)"
proof -
  assume "0 \<in> set s"
  then have "dropWhile (\<lambda>c. c \<noteq> 0) s \<noteq> []" by (simp add: dropWhile_eq_Nil_conv)
  then obtain x rest where x: "dropWhile (\<lambda>c. c \<noteq> 0) s = x # rest" by (meson neq_Nil_conv)
  then have "x = 0" using hd_dropWhile [of "\<lambda>c. c \<noteq> 0" s] by simp
  then have "s = c_string s @ 0 # rest" using takeWhile_dropWhile_id [of "\<lambda>c. c \<noteq> 0" s] x by (simp add: c_string_def)
  moreover have "0 \<notin> set (c_string s)" using set_takeWhileD unfolding c_string_def by fastforce
  ultimately show ?thesis by blast
qed

lemma u_strlen_string: "0 \<in> set s \<Longrightarrow> u_strlen s = Some (int (length (c_string s)))"
  using c_string_split [of s] u_strlen_ok by metis

lemma take_c_string: "take (length (c_string s)) s = c_string s"
  unfolding c_string_def by (rule takeWhile_eq_take [symmetric])

end
