(* ===== verification/UhashStr.thy ===== *)
theory UhashStr
  imports UhashMap CString Ustring "HOL-Library.Signed_Division"
begin

text \<open>
  Strings as keys of the hash table: the hash functions of \<open>ustring.cpp\<close> and the hashers and comparators of \<open>uhash.c\<close> for
  strings of 16-bit units, for char strings and for char strings without regard to case. A key is a pointer; the memory is a
  function from pointers to the units from there on.
\<close>

section \<open>Hashing\<close>

definition STRING_HASH :: "('a \<Rightarrow> u32) \<Rightarrow> 'a list option \<Rightarrow> int \<Rightarrow> u32 option" where
  "STRING_HASH deref str len =
     (case str of None \<Rightarrow> Some 0 | Some s \<Rightarrow> hash_loop deref s 0 len ((len - 32) sdiv 32 + 1) 0)"

definition ustr_hashUCharsN :: "u16 list option \<Rightarrow> int \<Rightarrow> u32 option" where
  "ustr_hashUCharsN str len = STRING_HASH ucast str len"

definition ustr_hashCharsN :: "u8 list option \<Rightarrow> int \<Rightarrow> u32 option" where
  "ustr_hashCharsN str len = STRING_HASH ucast str len"

definition ustr_hashICharsN :: "u8 list option \<Rightarrow> int \<Rightarrow> u32 option" where
  "ustr_hashICharsN str len = STRING_HASH (\<lambda>c. ucast (uprv_tolower c)) str len"

definition uhash_hashUChars :: "(UHashTok \<Rightarrow> u16 list) \<Rightarrow> UHashTok \<Rightarrow> u32 option" where
  "uhash_hashUChars mem key =
     (if key = 0 then Some 0 else do { len \<leftarrow> u_strlen (mem key); ustr_hashUCharsN (Some (mem key)) len })"

definition uhash_hashChars :: "(UHashTok \<Rightarrow> u8 list) \<Rightarrow> UHashTok \<Rightarrow> u32 option" where
  "uhash_hashChars mem key =
     (if key = 0 then Some 0 else do { len \<leftarrow> strlen (mem key) 0; ustr_hashCharsN (Some (mem key)) len })"

definition uhash_hashIChars :: "(UHashTok \<Rightarrow> u8 list) \<Rightarrow> UHashTok \<Rightarrow> u32 option" where
  "uhash_hashIChars mem key =
     (if key = 0 then Some 0 else do { len \<leftarrow> strlen (mem key) 0; ustr_hashICharsN (Some (mem key)) len })"

section \<open>Comparison\<close>

text \<open>The loop of the comparators and the result behind it; \<open>f\<close> is the case mapping of its condition.\<close>

function compare_units :: "('a::len word \<Rightarrow> 'a word) \<Rightarrow> 'a word list \<Rightarrow> 'a word list \<Rightarrow> int \<Rightarrow> bool option" where
  "compare_units f p1 p2 i = do {
     c1 \<leftarrow> rd p1 i;
     if c1 \<noteq> 0 then do {
       c2 \<leftarrow> rd p2 i;
       if f c1 = f c2 then compare_units f p1 p2 (i + 1) else Some (c1 = c2) }
     else do { c2 \<leftarrow> rd p2 i; Some (c1 = c2) } }"
  by pat_completeness auto
termination by (relation "measure (\<lambda>(f, p1, p2, i). nat (int (length p1) - i))") (auto simp: rd_Some_iff)

declare compare_units.simps [simp del]

definition uhash_compareUChars :: "(UHashTok \<Rightarrow> u16 list) \<Rightarrow> UHashTok \<Rightarrow> UHashTok \<Rightarrow> bool option" where
  "uhash_compareUChars mem key1 key2 =
     (if key1 = key2 then Some True
      else if key1 = 0 \<or> key2 = 0 then Some False
      else compare_units id (mem key1) (mem key2) 0)"

definition uhash_compareChars :: "(UHashTok \<Rightarrow> u8 list) \<Rightarrow> UHashTok \<Rightarrow> UHashTok \<Rightarrow> bool option" where
  "uhash_compareChars mem key1 key2 =
     (if key1 = key2 then Some True
      else if key1 = 0 \<or> key2 = 0 then Some False
      else compare_units id (mem key1) (mem key2) 0)"

definition uhash_compareIChars :: "(UHashTok \<Rightarrow> u8 list) \<Rightarrow> UHashTok \<Rightarrow> UHashTok \<Rightarrow> bool option" where
  "uhash_compareIChars mem key1 key2 =
     (if key1 = key2 then Some True
      else if key1 = 0 \<or> key2 = 0 then Some False
      else compare_units uprv_tolower (mem key1) (mem key2) 0)"

section \<open>Strings\<close>

text \<open>Every pointer but NULL is to a string with a NUL.\<close>

definition strings_ok :: "(UHashTok \<Rightarrow> 'a::len word list) \<Rightarrow> bool" where
  "strings_ok mem \<longleftrightarrow> (\<forall>k. k \<noteq> 0 \<longrightarrow> 0 \<in> set (mem k))"

text \<open>The string that a key stands for; all that the table can tell of it is its image under the case mapping.\<close>

definition key_string :: "('a::len word \<Rightarrow> 'a word) \<Rightarrow> (UHashTok \<Rightarrow> 'a word list) \<Rightarrow> UHashTok \<Rightarrow> 'a word list option" where
  "key_string f mem k = (if k = 0 then None else Some (map f (c_string (mem k))))"

lemma compare_units_ok:
  assumes f: "\<And>c. f c = 0 \<longleftrightarrow> c = 0"
  shows "length pre1 = length pre2 \<Longrightarrow> 0 \<notin> set xs \<Longrightarrow> 0 \<notin> set ys \<Longrightarrow>
    compare_units f (pre1 @ xs @ 0 # r1) (pre2 @ ys @ 0 # r2) (int (length pre1)) = Some (map f xs = map f ys)"
proof (induction xs arbitrary: pre1 pre2 ys)
  case Nil
  then have "rd (pre1 @ 0 # r1) (int (length pre1)) = Some 0" "rd (pre2 @ ys @ 0 # r2) (int (length pre1)) = Some (hd (ys @ [0]))"
    by (simp_all add: nth_append hd_append hd_conv_nth)
  moreover have "0 = hd (ys @ [0]) \<longleftrightarrow> ys = []" using Nil.prems(3) by (cases ys) auto
  ultimately show ?case by (subst compare_units.simps) simp
next
  case (Cons x xs)
  have r1: "rd (pre1 @ (x # xs) @ 0 # r1) (int (length pre1)) = Some x" "x \<noteq> 0" using Cons.prems(2) by auto
  show ?case
  proof (cases ys)
    case Nil
    then have "rd (pre2 @ ys @ 0 # r2) (int (length pre1)) = Some 0" using Cons.prems(1) by (simp add: nth_append)
    moreover have "f x \<noteq> f 0" using f r1(2) by metis
    ultimately show ?thesis using r1 Nil by (subst compare_units.simps) simp
  next
    case ys: (Cons y ys')
    then have "rd (pre2 @ ys @ 0 # r2) (int (length pre1)) = Some y" using Cons.prems(1) by (simp add: nth_append)
    moreover have "compare_units f ((pre1 @ [x]) @ xs @ 0 # r1) ((pre2 @ [y]) @ ys' @ 0 # r2) (int (length (pre1 @ [x]))) = Some (map f xs = map f ys')"
      using Cons.prems ys by (intro Cons.IH) auto
    ultimately show ?thesis using r1 ys by (subst compare_units.simps) (auto simp: add.commute)
  qed
qed

lemma compare_strings:
  assumes f: "\<And>c. f c = 0 \<longleftrightarrow> c = 0" and s: "0 \<in> set s" "0 \<in> set t"
  shows "compare_units f s t 0 = Some (map f (c_string s) = map f (c_string t))"
proof -
  obtain r1 r2 where st: "s = c_string s @ 0 # r1" "t = c_string t @ 0 # r2" "0 \<notin> set (c_string s)" "0 \<notin> set (c_string t)"
    using c_string_split [OF s(1)] c_string_split [OF s(2)] by blast
  have "compare_units f (c_string s @ 0 # r1) (c_string t @ 0 # r2) 0 = Some (map f (c_string s) = map f (c_string t))"
    using compare_units_ok [OF f, of "[]" "[]" "c_string s" "c_string t" r1 r2] st(3,4) by simp
  then show ?thesis using st(1,2) by simp
qed

text \<open>A hash depends on the values that are added for the units only, and is computed inside the string.\<close>

lemma hash_loop_ok:
  "0 \<le> p \<Longrightarrow> 0 < inc \<Longrightarrow> limit \<le> int (length s) \<Longrightarrow> limit \<le> int (length t) \<Longrightarrow>
   map deref (take (nat limit) s) = map deref' (take (nat limit) t) \<Longrightarrow>
   \<exists>v. hash_loop deref s p limit inc h = Some v \<and> hash_loop deref' t p limit inc h = Some v"
proof (induction "nat (limit - p)" arbitrary: p h rule: less_induct)
  case less
  show ?case
  proof (cases "p < limit")
    case False
    then show ?thesis by (subst (1 2) hash_loop.simps) simp
  next
    case True
    have r: "rd s p = Some (s ! nat p)" "rd t p = Some (t ! nat p)" using less.prems True by simp_all
    have "map deref (take (nat limit) s) ! nat p = map deref' (take (nat limit) t) ! nat p" using less.prems(5) by simp
    moreover have "nat p < nat limit" "nat limit \<le> length s" "nat limit \<le> length t" using less.prems(1,3,4) True by simp_all
    ultimately have "deref (s ! nat p) = deref' (t ! nat p)" by simp
    moreover obtain v where "hash_loop deref s (p + inc) limit inc (h * 37 + deref (s ! nat p)) = Some v"
      "hash_loop deref' t (p + inc) limit inc (h * 37 + deref (s ! nat p)) = Some v"
      using less.hyps [of "p + inc" "h * 37 + deref (s ! nat p)"] less.prems True by auto
    ultimately show ?thesis using True less.prems(2) r by (subst (1 2) hash_loop.simps) simp
  qed
qed

lemma string_hash_ok:
  assumes "map deref (take n s) = map deref' (take n t)" "n \<le> length s" "n \<le> length t"
  shows "\<exists>v. STRING_HASH deref (Some s) (int n) = Some v \<and> STRING_HASH deref' (Some t) (int n) = Some v"
proof (cases "n = 0")
  case True
  then show ?thesis by (simp add: STRING_HASH_def hash_loop.simps)
next
  case False
  have "0 < (int n - 32) sdiv 32 + 1"
  proof (cases "n < 32")
    case True
    then have "(32 - int n) div 32 = 0" using False by simp
    then show ?thesis using True by (simp add: signed_divide_int_def sgn_if)
  next
    case False
    then show ?thesis by (cases "n = 32") (simp_all add: signed_divide_int_def sgn_if pos_imp_zdiv_nonneg_iff add_nonneg_pos)
  qed
  then show ?thesis using hash_loop_ok [of 0 _ "int n" s t deref deref' 0] assms by (simp add: STRING_HASH_def)
qed

lemma strlen_from_string: "0 \<notin> set xs \<Longrightarrow> strlen (pre @ xs @ 0 # rest) (int (length pre)) = Some (int (length xs))"
proof (induction xs arbitrary: pre)
  case Nil
  then show ?case by (subst strlen.simps) (simp add: nth_append)
next
  case (Cons x xs)
  have "strlen (pre @ x # xs @ 0 # rest) (int (length pre) + 1) = Some (int (length xs))" using Cons.IH [of "pre @ [x]"] Cons.prems by (simp add: add.commute)
  then show ?case using Cons.prems by (subst strlen.simps) (auto simp: nth_append add.commute)
qed

lemma strlen_string: "0 \<in> set s \<Longrightarrow> strlen s 0 = Some (int (length (c_string s)))"
proof -
  assume "0 \<in> set s"
  then obtain rest where "s = [] @ c_string s @ 0 # rest" "0 \<notin> set (c_string s)" using c_string_split [of s] by auto
  then show ?thesis using strlen_from_string [of "c_string s" "[]" rest] by simp
qed

lemma tolower_zero: "uprv_tolower c = 0 \<longleftrightarrow> c = 0"
proof (cases "0x41 \<le> c \<and> c \<le> 0x5a")
  case True
  then have "0x41 \<le> uint c" "uint c \<le> 0x5a" by (simp_all add: word_le_def)
  then have "uint (c + 0x20) = uint c + 0x20" by (simp add: uint_word_ariths)
  then have "uint (c + 0x20) \<noteq> 0" "uint c \<noteq> 0" using \<open>0x41 \<le> uint c\<close> by linarith+
  then have "c + 0x20 \<noteq> 0" "c \<noteq> 0" by auto
  then show ?thesis using True by (simp add: uprv_asciitolower_def)
qed (auto simp: uprv_asciitolower_def)

text \<open>Equal strings have equal hashes; with the case mapping this needs that the hash is taken of the mapped units.\<close>

lemma hash_strings:
  assumes "0 \<in> set s" "0 \<in> set t" "map f (c_string s) = map f (c_string t)"
  shows "\<exists>v. STRING_HASH (\<lambda>c. g (f c)) (Some s) (int (length (c_string s))) = Some v \<and>
    STRING_HASH (\<lambda>c. g (f c)) (Some t) (int (length (c_string t))) = Some v"
proof -
  have len: "length (c_string s) = length (c_string t)" using assms(3) by (rule map_eq_imp_length_eq)
  have "map (\<lambda>c. g (f c)) (c_string s) = map g (map f (c_string s))" "map (\<lambda>c. g (f c)) (c_string t) = map g (map f (c_string t))" by simp_all
  then have "map (\<lambda>c. g (f c)) (take (length (c_string s)) s) = map (\<lambda>c. g (f c)) (take (length (c_string s)) t)"
    using assms(3) take_c_string [of s] take_c_string [of t] len by metis
  moreover have "length (c_string s) \<le> length s" "length (c_string t) \<le> length t" by (simp_all add: c_string_def length_takeWhile_le)
  ultimately show ?thesis using string_hash_ok [of "\<lambda>c. g (f c)" "length (c_string s)" s "\<lambda>c. g (f c)" t] len by metis
qed

section \<open>Properties\<close>

text \<open>
  C6: over a memory of strings, each comparator returns whether the keys stand for the same string, where \<open>uhash_compareIChars\<close>
  takes no regard of case, NULL being a string of its own, and each hasher returns the same for such keys: what the
  hash table needs of its keys.
\<close>

theorem uhash_strings_correct:
  assumes "strings_ok mem16" "strings_ok mem8"
  shows "uhash_compareUChars mem16 k1 k2 = Some (key_string id mem16 k1 = key_string id mem16 k2) \<and>
    uhash_compareChars mem8 k1 k2 = Some (key_string id mem8 k1 = key_string id mem8 k2) \<and>
    uhash_compareIChars mem8 k1 k2 = Some (key_string uprv_tolower mem8 k1 = key_string uprv_tolower mem8 k2) \<and>
    (key_string id mem16 k1 = key_string id mem16 k2 \<longrightarrow>
      (\<exists>h. uhash_hashUChars mem16 k1 = Some h \<and> uhash_hashUChars mem16 k2 = Some h)) \<and>
    (key_string id mem8 k1 = key_string id mem8 k2 \<longrightarrow>
      (\<exists>h. uhash_hashChars mem8 k1 = Some h \<and> uhash_hashChars mem8 k2 = Some h)) \<and>
    (key_string uprv_tolower mem8 k1 = key_string uprv_tolower mem8 k2 \<longrightarrow>
      (\<exists>h. uhash_hashIChars mem8 k1 = Some h \<and> uhash_hashIChars mem8 k2 = Some h))"
proof (intro conjI impI)
  have nul: "k \<noteq> 0 \<Longrightarrow> 0 \<in> set (mem16 k)" "k \<noteq> 0 \<Longrightarrow> 0 \<in> set (mem8 k)" for k using assms by (simp_all add: strings_ok_def)
  show "uhash_compareUChars mem16 k1 k2 = Some (key_string id mem16 k1 = key_string id mem16 k2)"
    using compare_strings [of id "mem16 k1" "mem16 k2"] nul by (auto simp: uhash_compareUChars_def key_string_def)
  show "uhash_compareChars mem8 k1 k2 = Some (key_string id mem8 k1 = key_string id mem8 k2)"
    using compare_strings [of id "mem8 k1" "mem8 k2"] nul by (auto simp: uhash_compareChars_def key_string_def)
  show "uhash_compareIChars mem8 k1 k2 = Some (key_string uprv_tolower mem8 k1 = key_string uprv_tolower mem8 k2)"
    using compare_strings [OF tolower_zero, of "mem8 k1" "mem8 k2"] nul by (auto simp: uhash_compareIChars_def key_string_def)
  show "\<exists>h. uhash_hashUChars mem16 k1 = Some h \<and> uhash_hashUChars mem16 k2 = Some h" if "key_string id mem16 k1 = key_string id mem16 k2"
    using that hash_strings [of "mem16 k1" "mem16 k2" id ucast] nul
    by (auto simp: uhash_hashUChars_def key_string_def u_strlen_string ustr_hashUCharsN_def split: if_splits)
  show "\<exists>h. uhash_hashChars mem8 k1 = Some h \<and> uhash_hashChars mem8 k2 = Some h" if "key_string id mem8 k1 = key_string id mem8 k2"
    using that hash_strings [of "mem8 k1" "mem8 k2" id ucast] nul
    by (auto simp: uhash_hashChars_def key_string_def strlen_string ustr_hashCharsN_def split: if_splits)
  show "\<exists>h. uhash_hashIChars mem8 k1 = Some h \<and> uhash_hashIChars mem8 k2 = Some h"
    if "key_string uprv_tolower mem8 k1 = key_string uprv_tolower mem8 k2"
    using that hash_strings [of "mem8 k1" "mem8 k2" uprv_tolower ucast] nul
    by (auto simp: uhash_hashIChars_def key_string_def strlen_string ustr_hashICharsN_def split: if_splits)
qed

text \<open>So a table whose keys are strings satisfies what the theorems on the hash table ask of its functions.\<close>

lemma string_keys:
  assumes "\<And>a b. cmp a b = Some (h a = h b)" "\<And>a b. h a = h b \<Longrightarrow> hash a = hash b"
  shows "hash_key (\<lambda>k. the (hash k)) (\<lambda>a b. the (cmp a b))"
proof
  show "the (hash a) = the (hash b)" if "the (cmp a b)" for a b
    using that assms(2) [of a b] unfolding assms(1) option.sel by metis
qed (simp_all only: assms(1) option.sel)

definition example_memory :: "UHashTok \<Rightarrow> 'a::len word list" where
  "example_memory k = (if k = 1 then [0x41, 0] else if k = 2 then [0x61, 0, 7] else [0])"

lemma example_memory_ok: "strings_ok example_memory"
  unfolding strings_ok_def by (intro allI impI, unfold example_memory_def) (simp only: list.set insert_iff split: if_split, simp)

theorem uhash_strings_correct_witness:
  "uhash_compareIChars example_memory 1 2 = Some True \<and> uhash_compareChars example_memory 1 2 = Some False \<and>
   (\<exists>h. uhash_hashIChars example_memory 1 = Some h \<and> uhash_hashIChars example_memory 2 = Some h)"
proof -
  note c = uhash_strings_correct [OF example_memory_ok example_memory_ok, of 1 2]
  moreover have "key_string uprv_tolower example_memory 1 = key_string uprv_tolower example_memory 2"
    "key_string id (example_memory :: UHashTok \<Rightarrow> u8 list) 1 \<noteq> key_string id example_memory 2"
    by (simp_all add: key_string_def example_memory_def c_string_def uprv_asciitolower_def)
  ultimately show ?thesis by simp
qed

end
