(* ===== verification/UscImpl.thy ===== *)
theory UscImpl
  imports Prelude
begin

text \<open>
  The script run iterator of \<open>usc_impl.c\<close>: the bounded stack of open brackets, the table of
  paired characters with its binary search, and \<open>uscript_nextRun\<close>. The script of a code point
  (\<open>uscript_getScript\<close>, which reads the Unicode character data) is the parameter \<open>getScript\<close>.
  \<open>None\<close> is an access outside the text, the stack or the table.
\<close>

section \<open>Data\<close>

definition PAREN_STACK_DEPTH :: int where "PAREN_STACK_DEPTH = 32"

text \<open>The remainder of C, which has the sign of the dividend.\<close>

definition MOD :: "int \<Rightarrow> int" where
  "MOD sp = (if sp < 0 then - ((- sp) mod PAREN_STACK_DEPTH) else sp mod PAREN_STACK_DEPTH)"

definition LIMIT_INC :: "int \<Rightarrow> int" where
  "LIMIT_INC sp = (if sp < PAREN_STACK_DEPTH then sp + 1 else PAREN_STACK_DEPTH)"

definition INC1 :: "int \<Rightarrow> int" where "INC1 sp = MOD (sp + 1)"

definition DEC :: "int \<Rightarrow> int \<Rightarrow> int" where "DEC sp cnt = MOD (sp + PAREN_STACK_DEPTH - cnt)"

definition DEC1 :: "int \<Rightarrow> int" where "DEC1 sp = DEC sp 1"

type_synonym UScriptCode = int

definition USCRIPT_INVALID_CODE :: UScriptCode where "USCRIPT_INVALID_CODE = -1"
definition USCRIPT_COMMON :: UScriptCode where "USCRIPT_COMMON = 0"
definition USCRIPT_INHERITED :: UScriptCode where "USCRIPT_INHERITED = 1"

record ParenStackEntry =
  pairIndex :: int
  pairScript :: UScriptCode

record UScriptRun =
  textLength :: int
  textArray :: "u16 list"
  scriptStart :: int
  scriptLimit :: int
  scriptCode :: UScriptCode
  parenStack :: "ParenStackEntry list"
  parenSP :: int
  pushCount :: int
  fixupCount :: int

definition STACK_IS_EMPTY :: "UScriptRun \<Rightarrow> bool" where
  "STACK_IS_EMPTY r \<longleftrightarrow> pushCount r \<le> 0"

definition pairedChars :: "UChar32 list" where
  "pairedChars = [
    0x0028, 0x0029, 0x003c, 0x003e, 0x005b, 0x005d, 0x007b, 0x007d, 0x00ab, 0x00bb,
    0x2018, 0x2019, 0x201c, 0x201d, 0x2039, 0x203a, 0x3008, 0x3009, 0x300a, 0x300b,
    0x300c, 0x300d, 0x300e, 0x300f, 0x3010, 0x3011, 0x3014, 0x3015, 0x3016, 0x3017,
    0x3018, 0x3019, 0x301a, 0x301b]"

section \<open>The stack\<close>

definition push :: "UScriptRun \<Rightarrow> int \<Rightarrow> UScriptCode \<Rightarrow> UScriptRun option" where
  "push r pi sc = do {
     let sp = INC1 (parenSP r);
     stk \<leftarrow> wr (parenStack r) sp \<lparr>pairIndex = pi, pairScript = sc\<rparr>;
     Some (r\<lparr>pushCount := LIMIT_INC (pushCount r), fixupCount := LIMIT_INC (fixupCount r),
             parenSP := sp, parenStack := stk\<rparr>) }"

definition pop :: "UScriptRun \<Rightarrow> UScriptRun" where
  "pop r = (if STACK_IS_EMPTY r then r
     else let r = (if fixupCount r > 0 then r\<lparr>fixupCount := fixupCount r - 1\<rparr> else r);
              r = r\<lparr>pushCount := pushCount r - 1, parenSP := DEC1 (parenSP r)\<rparr>
          in if STACK_IS_EMPTY r then r\<lparr>parenSP := -1\<rparr> else r)"

text \<open>\<open>while (fixupCount-- > 0)\<close> leaves the count at -1 (or one below where it was).\<close>

function fixup_loop :: "ParenStackEntry list \<Rightarrow> int \<Rightarrow> int \<Rightarrow> UScriptCode \<Rightarrow> (ParenStackEntry list \<times> int) option" where
  "fixup_loop stk fixupSP cnt sc =
     (if cnt > 0 then do {
        let sp = INC1 fixupSP;
        e \<leftarrow> rd stk sp;
        stk \<leftarrow> wr stk sp (e\<lparr>pairScript := sc\<rparr>);
        fixup_loop stk sp (cnt - 1) sc }
      else Some (stk, cnt - 1))"
  by pat_completeness auto
termination by (relation "measure (\<lambda>(stk, sp, cnt, sc). nat cnt)") auto

declare fixup_loop.simps [simp del]

definition fixup :: "UScriptRun \<Rightarrow> UScriptCode \<Rightarrow> UScriptRun option" where
  "fixup r sc = do {
     (stk, cnt) \<leftarrow> fixup_loop (parenStack r) (DEC (parenSP r) (fixupCount r)) (fixupCount r) sc;
     Some (r\<lparr>parenStack := stk, fixupCount := cnt\<rparr>) }"

section \<open>Paired characters\<close>

definition highBit :: "int \<Rightarrow> int" where
  "highBit val =
     (if val \<le> 0 then -32
      else let (val, bit) = (if val \<ge> 2 ^ 16 then (drop_bit 16 val, 16) else (val, 0));
               (val, bit) = (if val \<ge> 2 ^ 8 then (drop_bit 8 val, bit + 8) else (val, bit));
               (val, bit) = (if val \<ge> 2 ^ 4 then (drop_bit 4 val, bit + 4) else (val, bit));
               (val, bit) = (if val \<ge> 2 ^ 2 then (drop_bit 2 val, bit + 2) else (val, bit))
           in (if val \<ge> 2 ^ 1 then bit + 1 else bit))"

function pair_search :: "UChar32 \<Rightarrow> int \<Rightarrow> int \<Rightarrow> int option" where
  "pair_search ch prob pairIdx =
     (if prob > 1 then do {
        let prob = drop_bit 1 prob;
        c \<leftarrow> rd pairedChars (pairIdx + prob);
        pair_search ch prob (if ch \<ge> c then pairIdx + prob else pairIdx) }
      else Some pairIdx)"
  by pat_completeness auto
termination by (relation "measure (\<lambda>(ch, prob, pairIdx). nat prob)") (auto simp: drop_bit_eq_div)

declare pair_search.simps [simp del]

definition getPairIndex :: "UChar32 \<Rightarrow> int option" where
  "getPairIndex ch = do {
     let pairedCharCount = int (length pairedChars);
     let pairedCharPower = push_bit (nat (highBit pairedCharCount)) 1;
     let pairedCharExtra = pairedCharCount - pairedCharPower;
     c \<leftarrow> rd pairedChars pairedCharExtra;
     pairIdx \<leftarrow> pair_search ch pairedCharPower (if ch \<ge> c then pairedCharExtra else 0);
     c \<leftarrow> rd pairedChars pairIdx;
     Some (if c \<noteq> ch then -1 else pairIdx) }"

definition sameScript :: "UScriptCode \<Rightarrow> UScriptCode \<Rightarrow> bool" where
  "sameScript scriptOne scriptTwo \<longleftrightarrow>
     scriptOne \<le> USCRIPT_INHERITED \<or> scriptTwo \<le> USCRIPT_INHERITED \<or> scriptOne = scriptTwo"

section \<open>Opening a run iterator\<close>

text \<open>The text is \<open>None\<close> for NULL; \<open>malloc\<close> does not initialise the stack, given as \<open>stk0\<close>.\<close>

definition uscript_resetRun :: "UScriptRun option \<Rightarrow> UScriptRun option" where
  "uscript_resetRun run = map_option (\<lambda>r. r\<lparr>scriptStart := 0, scriptLimit := 0,
      scriptCode := USCRIPT_INVALID_CODE, parenSP := -1, pushCount := 0, fixupCount := 0\<rparr>) run"

definition uscript_setRunText ::
  "UScriptRun option \<Rightarrow> u16 list option \<Rightarrow> int \<Rightarrow> UErrorCode \<Rightarrow> UScriptRun option \<times> UErrorCode" where
  "uscript_setRunText run src len e =
     (if U_FAILURE e then (run, e)
      else if run = None \<or> len < 0 \<or> (src = None) \<noteq> (len = 0) then (run, U_ILLEGAL_ARGUMENT_ERROR)
      else (uscript_resetRun (map_option (\<lambda>r. r\<lparr>textArray := (case src of None \<Rightarrow> [] | Some s \<Rightarrow> s),
              textLength := len\<rparr>) run), e))"

definition uscript_openRun ::
  "bool \<Rightarrow> UScriptRun \<Rightarrow> u16 list option \<Rightarrow> int \<Rightarrow> UErrorCode \<Rightarrow> UScriptRun option \<times> UErrorCode" where
  "uscript_openRun malloc uninit src len e =
     (if U_FAILURE e then (None, e)
      else if \<not> malloc then (None, U_MEMORY_ALLOCATION_ERROR)
      else let (r, e) = uscript_setRunText (Some uninit) src len e in
           if U_FAILURE e then (None, e) else (r, e))"

section \<open>The next run\<close>

text \<open>The code point at \<open>scriptLimit\<close>, and the limit after its high surrogate.\<close>

definition run_char :: "UScriptRun \<Rightarrow> (UChar32 \<times> int) option" where
  "run_char r = do {
     high \<leftarrow> rd (textArray r) (scriptLimit r);
     if 0xD800 \<le> high \<and> high \<le> 0xDBFF \<and> scriptLimit r < textLength r - 1 then do {
       low \<leftarrow> rd (textArray r) (scriptLimit r + 1);
       Some (if 0xDC00 \<le> low \<and> low \<le> 0xDFFF
             then ((uint high - 0xD800) * 0x0400 + uint low - 0xDC00 + 0x10000, scriptLimit r + 1)
             else (uint high, scriptLimit r)) }
     else Some (uint high, scriptLimit r) }"

text \<open>The loop that pops the brackets above the matching open one.\<close>

function pop_to :: "UScriptRun \<Rightarrow> int \<Rightarrow> UScriptRun option" where
  "pop_to r pi =
     (if \<not> STACK_IS_EMPTY r then do {
        e \<leftarrow> rd (parenStack r) (parenSP r);
        if pairIndex e \<noteq> pi then pop_to (pop r) pi else Some r }
      else Some r)"
  by pat_completeness auto
termination
  by (relation "measure (\<lambda>(r, pi). nat (pushCount r))") (auto simp: pop_def STACK_IS_EMPTY_def Let_def)

declare pop_to.simps [simp del]

text \<open>Paired character handling: the new state and the script to use.\<close>

definition paired :: "UScriptRun \<Rightarrow> int \<Rightarrow> UScriptCode \<Rightarrow> (UScriptRun \<times> UScriptCode) option" where
  "paired r pi sc =
     (if pi \<ge> 0 then
        (if pi mod 2 = 0 then map_option (\<lambda>r. (r, sc)) (push r pi (scriptCode r))
         else do {
           r \<leftarrow> pop_to r (pi - 1);
           if \<not> STACK_IS_EMPTY r then do {
             e \<leftarrow> rd (parenStack r) (parenSP r);
             Some (r, pairScript e) }
           else Some (r, sc) })
      else Some (r, sc))"

text \<open>One iteration of the loop: \<open>Inl\<close> after \<open>break\<close>, \<open>Inr\<close> to go on.\<close>

definition run_step :: "(UChar32 \<Rightarrow> UScriptCode) \<Rightarrow> UScriptRun \<Rightarrow> (UScriptRun + UScriptRun) option" where
  "run_step getScript r = do {
     (ch, lim) \<leftarrow> run_char r;
     let r = r\<lparr>scriptLimit := lim\<rparr>;
     pi \<leftarrow> getPairIndex ch;
     (r, sc) \<leftarrow> paired r pi (getScript ch);
     if sameScript (scriptCode r) sc then do {
       r \<leftarrow> (if scriptCode r \<le> USCRIPT_INHERITED \<and> sc > USCRIPT_INHERITED
             then fixup (r\<lparr>scriptCode := sc\<rparr>) sc else Some r);
       let r = (if pi \<ge> 0 \<and> pi mod 2 \<noteq> 0 then pop r else r);
       Some (Inr (r\<lparr>scriptLimit := scriptLimit r + 1\<rparr>)) }
     else Some (Inl (if ch \<ge> 0x10000 then r\<lparr>scriptLimit := scriptLimit r - 1\<rparr> else r)) }"

partial_function (option) run_loop :: "(UChar32 \<Rightarrow> UScriptCode) \<Rightarrow> UScriptRun \<Rightarrow> UScriptRun option" where
  "run_loop getScript r =
     (if scriptLimit r < textLength r then
        Option.bind (run_step getScript r) (\<lambda>x. case x of Inl r' \<Rightarrow> Some r' | Inr r' \<Rightarrow> run_loop getScript r')
      else Some r)"

text \<open>
  The result is the state, and the start, limit and script of the run, or \<open>None\<close> for FALSE.
\<close>

definition uscript_nextRun ::
  "(UChar32 \<Rightarrow> UScriptCode) \<Rightarrow> UScriptRun option \<Rightarrow> (UScriptRun option \<times> (int \<times> int \<times> UScriptCode) option) option" where
  "uscript_nextRun getScript run =
     (case run of None \<Rightarrow> Some (None, None)
      | Some r \<Rightarrow>
        if scriptLimit r \<ge> textLength r then Some (run, None)
        else do {
          r \<leftarrow> run_loop getScript (r\<lparr>fixupCount := 0, scriptCode := USCRIPT_COMMON, scriptStart := scriptLimit r\<rparr>);
          Some (Some r, Some (scriptStart r, scriptLimit r, scriptCode r)) })"

section \<open>The stack stays within its array\<close>

definition run_ok :: "UScriptRun \<Rightarrow> bool" where
  "run_ok r \<longleftrightarrow> length (parenStack r) = 32 \<and> -1 \<le> parenSP r \<and> parenSP r < 32 \<and>
     0 \<le> pushCount r \<and> pushCount r \<le> 32 \<and> (0 < pushCount r \<longrightarrow> 0 \<le> parenSP r) \<and>
     fixupCount r \<le> 32 \<and>
     textLength r = int (length (textArray r)) \<and> 0 \<le> scriptLimit r"

text \<open>The fields that the stack operations leave alone.\<close>

definition same_text :: "UScriptRun \<Rightarrow> UScriptRun \<Rightarrow> bool" where
  "same_text r r' \<longleftrightarrow> textLength r' = textLength r \<and> textArray r' = textArray r \<and>
     scriptStart r' = scriptStart r \<and> scriptLimit r' = scriptLimit r \<and> scriptCode r' = scriptCode r"

lemma same_text_refl [simp]: "same_text r r"
  by (simp add: same_text_def)

lemma same_text_trans: "same_text a b \<Longrightarrow> same_text b c \<Longrightarrow> same_text a c"
  by (simp add: same_text_def)

lemma MOD_nonneg: "0 \<le> n \<Longrightarrow> 0 \<le> MOD n \<and> MOD n < 32"
  by (simp add: MOD_def PAREN_STACK_DEPTH_def)

lemma push_ok:
  assumes "run_ok r"
  shows "\<exists>r'. push r pi sc = Some r' \<and> run_ok r' \<and> same_text r r'"
proof -
  have "0 \<le> INC1 (parenSP r)" "INC1 (parenSP r) < 32"
    using MOD_nonneg [of "parenSP r + 1"] assms by (simp_all add: INC1_def run_ok_def)
  then show ?thesis using assms
    by (auto simp: push_def run_ok_def same_text_def LIMIT_INC_def PAREN_STACK_DEPTH_def Let_def)
qed

lemma pop_ok: "run_ok r \<Longrightarrow> run_ok (pop r) \<and> same_text r (pop r)"
  using MOD_nonneg [of "31 + parenSP r"]
  by (auto simp: pop_def run_ok_def same_text_def STACK_IS_EMPTY_def DEC1_def DEC_def PAREN_STACK_DEPTH_def Let_def)

lemma fixup_loop_ok:
  assumes "length stk = 32" "cnt \<le> 32" "- 1 \<le> sp"
  shows "\<exists>stk'. fixup_loop stk sp cnt sc = Some (stk', min cnt 0 - 1) \<and> length stk' = 32"
  using assms
proof (induction stk sp cnt sc rule: fixup_loop.induct)
  case (1 stk sp cnt sc)
  have i: "0 \<le> INC1 sp" "INC1 sp < 32" using MOD_nonneg [of "sp + 1"] 1(4) by (simp_all add: INC1_def)
  show ?case
  proof (cases "cnt > 0")
    case False
    then show ?thesis using 1(2) by (subst fixup_loop.simps) simp
  next
    case True
    let ?e = "(stk ! nat (INC1 sp))\<lparr>pairScript := sc\<rparr>"
    have "\<exists>stk'. fixup_loop (stk[nat (INC1 sp) := ?e]) (INC1 sp) (cnt - 1) sc = Some (stk', min (cnt - 1) 0 - 1) \<and> length stk' = 32"
      using i 1(2-4) True by (intro 1(1)) auto
    then show ?thesis using True i 1(2) by (subst fixup_loop.simps) (auto simp: Let_def)
  qed
qed

lemma fixup_ok:
  assumes "run_ok r"
  shows "\<exists>r'. fixup r sc = Some r' \<and> length (parenStack r') = 32 \<and> (\<exists>stk. r' = r\<lparr>parenStack := stk, fixupCount := min (fixupCount r) 0 - 1\<rparr>)"
proof -
  have "- 1 \<le> DEC (parenSP r) (fixupCount r)"
  proof (cases "parenSP r + 32 - fixupCount r < 0")
    case True
    then have "parenSP r + 32 - fixupCount r = - 1" using assms by (simp add: run_ok_def)
    then show ?thesis by (simp add: DEC_def MOD_def PAREN_STACK_DEPTH_def)
  next
    case False
    then show ?thesis using MOD_nonneg [of "parenSP r + 32 - fixupCount r"] by (simp add: DEC_def PAREN_STACK_DEPTH_def)
  qed
  then show ?thesis
    using fixup_loop_ok [of "parenStack r" "fixupCount r" "DEC (parenSP r) (fixupCount r)" sc] assms
    by (auto simp: fixup_def run_ok_def)
qed

lemma pop_to_ok:
  assumes "run_ok r"
  shows "\<exists>r'. pop_to r pi = Some r' \<and> run_ok r' \<and> same_text r r'"
  using assms
proof (induction r pi rule: pop_to.induct)
  case (1 r pi)
  show ?case
  proof (cases "STACK_IS_EMPTY r")
    case True
    then show ?thesis using 1(2) by (subst pop_to.simps) auto
  next
    case False
    then have e: "rd (parenStack r) (parenSP r) = Some (parenStack r ! nat (parenSP r))"
      using 1(2) by (simp add: run_ok_def STACK_IS_EMPTY_def)
    show ?thesis
    proof (cases "pairIndex (parenStack r ! nat (parenSP r)) = pi")
      case True
      then show ?thesis using False e 1(2) by (subst pop_to.simps) auto
    next
      case False': False
      then obtain r' where "pop_to (pop r) pi = Some r'" "run_ok r'" "same_text (pop r) r'"
        using 1(1) [OF False e False'] pop_ok [OF 1(2)] by blast
      then show ?thesis using False e False' pop_ok [OF 1(2)] same_text_trans
        by (subst pop_to.simps) auto
    qed
  qed
qed

section \<open>The table of paired characters\<close>

lemma pair_search_bounds:
  assumes "0 \<le> k" "1 \<le> prob" "k + prob \<le> 34"
  shows "\<exists>i. pair_search ch prob k = Some i \<and> 0 \<le> i \<and> i < 34"
  using assms
proof (induction ch prob k rule: pair_search.induct)
  case (1 ch prob k)
  show ?case
  proof (cases "prob > 1")
    case False
    then show ?thesis using 1(2-4) by (subst pair_search.simps) simp
  next
    case True
    let ?p = "drop_bit 1 prob"
    have p: "1 \<le> ?p" "2 * ?p \<le> prob" using True by (simp_all add: drop_bit_eq_div)
    have r: "rd pairedChars (k + ?p) = Some (pairedChars ! nat (k + ?p))"
      using 1(2,4) p by (intro rd_in) (simp_all add: pairedChars_def)
    have "\<exists>i. pair_search ch ?p (if ch \<ge> pairedChars ! nat (k + ?p) then k + ?p else k) = Some i \<and> 0 \<le> i \<and> i < 34"
      using 1(1) [OF True refl r] 1(2,4) p by auto
    then show ?thesis using True r by (subst pair_search.simps) (auto simp: Let_def split: if_splits)
  qed
qed

lemma getPairIndex_eq:
  "getPairIndex ch = do {
     k \<leftarrow> pair_search ch 32 (if ch \<ge> 0x3c then 2 else 0);
     c \<leftarrow> rd pairedChars k;
     Some (if c \<noteq> ch then -1 else k) }"
proof -
  have "int (length pairedChars) = 34" "highBit 34 = 5" "rd pairedChars 2 = Some 0x3c"
    by (simp_all add: pairedChars_def highBit_def rd_def)
  then show ?thesis by (simp add: getPairIndex_def)
qed

lemma getPairIndex_member:
  "list_all (\<lambda>k. getPairIndex (pairedChars ! k) = Some (int k)) [0..<34]"
  by code_simp

lemma getPairIndex_ok:
  "\<exists>i. getPairIndex ch = Some i \<and> -1 \<le> i \<and> i < 34 \<and> (0 \<le> i \<longrightarrow> pairedChars ! nat i = ch) \<and>
    (i = -1 \<longleftrightarrow> ch \<notin> set pairedChars)"
proof -
  have l: "length pairedChars = 34" by (simp add: pairedChars_def)
  obtain k where k: "pair_search ch 32 (if ch \<ge> 0x3c then 2 else 0) = Some k" "0 \<le> k" "k < 34"
    using pair_search_bounds [of "if ch \<ge> 0x3c then 2 else 0" 32 ch]
    by (cases "ch \<ge> 0x3c") auto
  then have e: "getPairIndex ch = Some (if pairedChars ! nat k \<noteq> ch then -1 else k)"
    by (simp add: getPairIndex_eq l)
  have "pairedChars ! nat k = ch" if m: "ch \<in> set pairedChars"
  proof -
    obtain j where j: "j < 34" "pairedChars ! j = ch" using m l by (auto simp: in_set_conv_nth)
    then have "getPairIndex ch = Some (int j)" using getPairIndex_member by (auto simp: list_all_iff)
    then show ?thesis using e j by (auto split: if_splits)
  qed
  moreover have "pairedChars ! nat k \<in> set pairedChars" using k l by simp
  ultimately show ?thesis using e k by auto
qed

section \<open>One step of the run loop\<close>

text \<open>The code point at an index of UTF-16 text, and the index after it.\<close>

definition char_at :: "u16 list \<Rightarrow> int \<Rightarrow> UChar32 \<times> int" where
  "char_at s i =
     (if 0xD800 \<le> s ! nat i \<and> s ! nat i \<le> 0xDBFF \<and> i + 1 < int (length s) \<and>
         0xDC00 \<le> s ! nat (i + 1) \<and> s ! nat (i + 1) \<le> 0xDFFF
      then (0x10000 + (uint (s ! nat i) - 0xD800) * 0x400 + (uint (s ! nat (i + 1)) - 0xDC00), i + 2)
      else (uint (s ! nat i), i + 1))"

lemma run_char_at:
  assumes "run_ok r" "scriptLimit r < textLength r"
  shows "run_char r = Some (fst (char_at (textArray r) (scriptLimit r)), snd (char_at (textArray r) (scriptLimit r)) - 1)"
  using assms by (auto simp: run_char_def run_ok_def char_at_def)

lemma char_at_next:
  assumes "0 \<le> i" "i < int (length s)"
  shows "i < snd (char_at s i)" "snd (char_at s i) \<le> int (length s)"
    "snd (char_at s i) = (if fst (char_at s i) \<ge> 0x10000 then i + 2 else i + 1)"
proof -
  have "uint (s ! nat i) < 65536" using uint_lt2p [of "s ! nat i"] by simp
  moreover have "0xD800 \<le> uint (s ! nat i)" if "0xD800 \<le> s ! nat i"
    using that by (simp add: word_le_def)
  moreover have "0xDC00 \<le> uint (s ! nat (i + 1))" if "0xDC00 \<le> s ! nat (i + 1)"
    using that by (simp add: word_le_def)
  ultimately show "i < snd (char_at s i)" "snd (char_at s i) \<le> int (length s)"
    "snd (char_at s i) = (if fst (char_at s i) \<ge> 0x10000 then i + 2 else i + 1)"
    using assms by (auto simp: char_at_def)
qed

text \<open>An index between the two halves of a surrogate pair.\<close>

definition splits_pair :: "u16 list \<Rightarrow> int \<Rightarrow> bool" where
  "splits_pair s i \<longleftrightarrow> 0 < i \<and> i < int (length s) \<and> 0xD800 \<le> s ! nat (i - 1) \<and> s ! nat (i - 1) \<le> 0xDBFF \<and>
     0xDC00 \<le> s ! nat i \<and> s ! nat i \<le> 0xDFFF"

lemma char_at_splits:
  assumes "0 \<le> i" "i < int (length s)"
  shows "\<not> splits_pair s (snd (char_at s i))"
proof -
  have "\<not> (x \<le> 0xDBFF \<and> 0xDC00 \<le> x)" for x :: u16 by (auto simp: word_le_def)
  then show ?thesis using assms by (auto simp: char_at_def splits_pair_def add.commute [of 1 i])
qed

definition unpaired :: "UChar32 \<Rightarrow> bool" where
  "unpaired ch \<longleftrightarrow> ch \<notin> set pairedChars"

lemma paired_ok:
  assumes "run_ok r"
  shows "\<exists>r' sc'. paired r pi sc = Some (r', sc') \<and> run_ok r' \<and> same_text r r' \<and> (pi < 0 \<longrightarrow> sc' = sc)"
proof -
  consider "pi < 0" | "0 \<le> pi" "pi mod 2 = 0" | "0 \<le> pi" "pi mod 2 \<noteq> 0" by linarith
  then show ?thesis
  proof cases
    case 1
    then show ?thesis using assms by (simp add: paired_def)
  next
    case 2
    then show ?thesis using push_ok [OF assms, of pi "scriptCode r"] by (auto simp: paired_def)
  next
    case 3
    obtain r' where r: "pop_to r (pi - 1) = Some r'" "run_ok r'" "same_text r r'"
      using pop_to_ok [OF assms] by blast
    show ?thesis
    proof (cases "STACK_IS_EMPTY r'")
      case True
      then show ?thesis using 3 r by (simp add: paired_def)
    next
      case False
      then have "rd (parenStack r') (parenSP r') = Some (parenStack r' ! nat (parenSP r'))"
        using r(2) by (simp add: run_ok_def STACK_IS_EMPTY_def)
      then show ?thesis using 3 r False by (simp add: paired_def)
    qed
  qed
qed

definition code_after :: "UScriptCode \<Rightarrow> UScriptCode \<Rightarrow> UScriptCode" where
  "code_after code sc = (if code \<le> 1 \<and> sc > 1 then sc else code)"

lemma run_step_ok:
  assumes ok: "run_ok r" and lt: "scriptLimit r < textLength r"
  defines "ch \<equiv> fst (char_at (textArray r) (scriptLimit r))"
    and "nxt \<equiv> snd (char_at (textArray r) (scriptLimit r))"
  shows "\<exists>sc x. run_step getScript r = Some x \<and> (unpaired ch \<longrightarrow> sc = getScript ch) \<and>
    (if sameScript (scriptCode r) sc
     then \<exists>r'. x = Inr r' \<and> run_ok r' \<and> scriptLimit r' = nxt \<and> scriptCode r' = code_after (scriptCode r) sc \<and>
       textArray r' = textArray r \<and> textLength r' = textLength r \<and> scriptStart r' = scriptStart r
     else \<exists>r'. x = Inl r' \<and> run_ok r' \<and> scriptLimit r' = scriptLimit r \<and> scriptCode r' = scriptCode r \<and>
       textArray r' = textArray r \<and> textLength r' = textLength r \<and> scriptStart r' = scriptStart r)"
proof -
  let ?r0 = "r\<lparr>scriptLimit := nxt - 1\<rparr>"
  have i: "0 \<le> scriptLimit r" "scriptLimit r < int (length (textArray r))" using ok lt by (simp_all add: run_ok_def)
  note N = char_at_next [OF i, folded nxt_def ch_def]
  have rc: "run_char r = Some (ch, nxt - 1)" using run_char_at [OF ok lt] by (simp add: ch_def nxt_def)
  have ok0: "run_ok ?r0" using ok N i by (simp add: run_ok_def)
  obtain pi where pi: "getPairIndex ch = Some pi" "-1 \<le> pi" "pi = -1 \<longleftrightarrow> unpaired ch"
    using getPairIndex_ok [of ch] by (auto simp: unpaired_def)
  obtain r1 sc where r1: "paired ?r0 pi (getScript ch) = Some (r1, sc)" "run_ok r1" "same_text ?r0 r1" "pi < 0 \<longrightarrow> sc = getScript ch"
    using paired_ok [OF ok0] by blast
  have T: "textLength r1 = textLength r" "textArray r1 = textArray r" "scriptStart r1 = scriptStart r"
    "scriptLimit r1 = nxt - 1" "scriptCode r1 = scriptCode r"
    using r1(3) by (simp_all add: same_text_def)
  have un: "unpaired ch \<longrightarrow> sc = getScript ch" using r1(4) pi(3) by auto
  show ?thesis
  proof (cases "sameScript (scriptCode r) sc")
    case False
    have "run_step getScript r = Some (Inl (if ch \<ge> 0x10000 then r1\<lparr>scriptLimit := scriptLimit r1 - 1\<rparr> else r1))"
      using rc pi(1) r1(1) False T(5) by (simp add: run_step_def Let_def)
    moreover have "run_ok (if ch \<ge> 0x10000 then r1\<lparr>scriptLimit := scriptLimit r1 - 1\<rparr> else r1)"
      using r1(2) N(3) T(4) i by (auto simp: run_ok_def)
    ultimately show ?thesis using False un T N(3) by (intro exI [of _ sc]) auto
  next
    case True
    obtain r2 where r2: "(if scriptCode r1 \<le> 1 \<and> sc > 1 then fixup (r1\<lparr>scriptCode := sc\<rparr>) sc else Some r1) = Some r2"
        "run_ok r2" "textLength r2 = textLength r" "textArray r2 = textArray r" "scriptStart r2 = scriptStart r"
        "scriptLimit r2 = nxt - 1" "scriptCode r2 = code_after (scriptCode r) sc"
    proof (cases "scriptCode r1 \<le> 1 \<and> sc > 1")
      case True
      have "run_ok (r1\<lparr>scriptCode := sc\<rparr>)" using r1(2) by (simp add: run_ok_def)
      from fixup_ok [OF this, of sc] obtain r' stk where f: "fixup (r1\<lparr>scriptCode := sc\<rparr>) sc = Some r'" "length (parenStack r') = 32"
        "r' = r1\<lparr>scriptCode := sc, parenStack := stk, fixupCount := min (fixupCount r1) 0 - 1\<rparr>"
        by auto
      then have "run_ok r'" using r1(2) by (simp add: run_ok_def)
      then show ?thesis using that [of r'] f T True by (simp add: code_after_def)
    next
      case False
      then show ?thesis using that [of r1] r1(2) T by (auto simp: code_after_def)
    qed
    let ?r3 = "if pi \<ge> 0 \<and> pi mod 2 \<noteq> 0 then pop r2 else r2"
    have r3: "run_ok ?r3" "same_text r2 ?r3" using pop_ok [OF r2(2)] r2(2) by auto
    have "run_step getScript r = Some (Inr (?r3\<lparr>scriptLimit := scriptLimit ?r3 + 1\<rparr>))"
      using rc pi(1) r1(1) True T(5) r2(1) by (simp add: run_step_def Let_def USCRIPT_INHERITED_def)
    moreover have "run_ok (?r3\<lparr>scriptLimit := scriptLimit ?r3 + 1\<rparr>)"
      using r3 r2 N(1) i by (simp add: run_ok_def same_text_def)
    ultimately show ?thesis using True un r2 r3(2) by (intro exI [of _ sc]) (simp add: same_text_def)
  qed
qed

section \<open>The whole run\<close>

text \<open>The code points of the text between two indices.\<close>

function chars_in :: "u16 list \<Rightarrow> int \<Rightarrow> int \<Rightarrow> UChar32 list" where
  "chars_in s i j = (if 0 \<le> i \<and> i < j \<and> j \<le> int (length s) then fst (char_at s i) # chars_in s (snd (char_at s i)) j else [])"
  by pat_completeness auto
termination
proof (relation "measure (\<lambda>(s, i, j). nat (j - i))")
  fix s i j assume "0 \<le> i \<and> i < j \<and> j \<le> int (length (s :: u16 list))"
  then show "((s, snd (char_at s i), j), s, i, j) \<in> measure (\<lambda>(s, i, j). nat (j - i))"
    using char_at_next(1) [of i s] by auto
qed simp

declare chars_in.simps [simp del]

lemma chars_in_refl [simp]: "chars_in s i i = []"
  by (subst chars_in.simps) simp

definition in_run :: "(UChar32 \<Rightarrow> UScriptCode) \<Rightarrow> UScriptCode \<Rightarrow> UChar32 \<Rightarrow> bool" where
  "in_run getScript code ch \<longleftrightarrow> unpaired ch \<longrightarrow> getScript ch \<le> 1 \<or> getScript ch = code"

lemma run_loop_ok:
  assumes "run_ok r" "scriptLimit r \<le> textLength r"
  shows "\<exists>r'. run_loop getScript r = Some r' \<and> run_ok r' \<and> textArray r' = textArray r \<and> textLength r' = textLength r \<and>
    scriptStart r' = scriptStart r \<and> scriptLimit r \<le> scriptLimit r' \<and> scriptLimit r' \<le> textLength r \<and>
    (scriptLimit r < textLength r \<and> scriptCode r \<le> 1 \<longrightarrow> scriptLimit r < scriptLimit r') \<and>
    (scriptCode r > 1 \<longrightarrow> scriptCode r' = scriptCode r) \<and>
    (scriptLimit r' = scriptLimit r \<or> \<not> splits_pair (textArray r) (scriptLimit r')) \<and>
    (\<forall>ch \<in> set (chars_in (textArray r) (scriptLimit r) (scriptLimit r')). in_run getScript (scriptCode r') ch) \<and>
    (scriptLimit r' < textLength r \<longrightarrow>
       (let ch = fst (char_at (textArray r) (scriptLimit r')) in
        unpaired ch \<longrightarrow> getScript ch > 1 \<and> getScript ch \<noteq> scriptCode r'))"
  using assms
proof (induction "nat (textLength r - scriptLimit r)" arbitrary: r rule: less_induct)
  case less
  let ?s = "textArray r" and ?i = "scriptLimit r"
  show ?case
  proof (cases "?i < textLength r")
    case False
    then show ?thesis using less.prems
      by (subst run_loop.simps) (simp)
  next
    case True
    have i: "0 \<le> ?i" "?i < int (length ?s)" using less.prems(1) True by (simp_all add: run_ok_def)
    let ?ch = "fst (char_at ?s ?i)" and ?n = "snd (char_at ?s ?i)"
    note N = char_at_next [OF i]
    obtain sc x where st: "run_step getScript r = Some x" "unpaired ?ch \<longrightarrow> sc = getScript ?ch"
      "if sameScript (scriptCode r) sc
       then \<exists>r'. x = Inr r' \<and> run_ok r' \<and> scriptLimit r' = ?n \<and> scriptCode r' = code_after (scriptCode r) sc \<and>
         textArray r' = ?s \<and> textLength r' = textLength r \<and> scriptStart r' = scriptStart r
       else \<exists>r'. x = Inl r' \<and> run_ok r' \<and> scriptLimit r' = ?i \<and> scriptCode r' = scriptCode r \<and>
         textArray r' = ?s \<and> textLength r' = textLength r \<and> scriptStart r' = scriptStart r"
      using run_step_ok [OF less.prems(1) True, of getScript] by blast
    show ?thesis
    proof (cases "sameScript (scriptCode r) sc")
      case False
      then obtain r' where r': "x = Inl r'" "run_ok r'" "scriptLimit r' = ?i" "scriptCode r' = scriptCode r"
         "textArray r' = ?s" "textLength r' = textLength r" "scriptStart r' = scriptStart r"
        using st(3) by auto
      have "run_loop getScript r = Some r'" using True st(1) r'(1) by (subst run_loop.simps) simp
      then show ?thesis using r' True False st(2)
        by (auto simp: sameScript_def USCRIPT_INHERITED_def Let_def)
    next
      case same: True
      then obtain r1 where r1: "x = Inr r1" "run_ok r1" "scriptLimit r1 = ?n" "scriptCode r1 = code_after (scriptCode r) sc"
         "textArray r1 = ?s" "textLength r1 = textLength r" "scriptStart r1 = scriptStart r"
        using st(3) by auto
      have le: "?n \<le> textLength r" using N(2) less.prems(1) by (simp add: run_ok_def)
      obtain r' where I: "run_loop getScript r1 = Some r'" "run_ok r'" "textArray r' = ?s" "textLength r' = textLength r"
          "scriptStart r' = scriptStart r" "?n \<le> scriptLimit r'" "scriptLimit r' \<le> textLength r"
          "scriptCode r1 > 1 \<longrightarrow> scriptCode r' = scriptCode r1"
          "scriptLimit r' = ?n \<or> \<not> splits_pair ?s (scriptLimit r')"
          "\<forall>ch \<in> set (chars_in ?s ?n (scriptLimit r')). in_run getScript (scriptCode r') ch"
          "scriptLimit r' < textLength r \<longrightarrow>
             (let ch = fst (char_at ?s (scriptLimit r')) in unpaired ch \<longrightarrow> getScript ch > 1 \<and> getScript ch \<noteq> scriptCode r')"
        using less.hyps [of r1] r1(2-7) True N(1) le by (auto simp: less.prems)
      have run: "run_loop getScript r = Some r'" using True st(1) r1(1) I(1) by (subst run_loop.simps) simp
      have "in_run getScript (scriptCode r') ?ch"
        using st(2) same I(8) r1(4) by (auto simp: in_run_def code_after_def sameScript_def USCRIPT_INHERITED_def split: if_splits)
      moreover have "chars_in ?s ?i (scriptLimit r') = ?ch # chars_in ?s ?n (scriptLimit r')"
        using i N(1) I(6,7) less.prems(1) by (subst chars_in.simps) (simp add: run_ok_def)
      moreover have "scriptCode r > 1 \<longrightarrow> scriptCode r' = scriptCode r"
        using I(8) r1(4) by (auto simp: code_after_def)
      moreover have "\<not> splits_pair ?s (scriptLimit r')" using I(9) char_at_splits [OF i] by auto
      ultimately show ?thesis using run I N(1) by simp
    qed
  qed
qed

lemma nextRun_ok:
  assumes "run_ok r" "scriptLimit r < textLength r"
  shows "\<exists>r' lim sc. uscript_nextRun getScript (Some r) = Some (Some r', Some (scriptLimit r, lim, sc)) \<and>
    run_ok r' \<and> textArray r' = textArray r \<and> textLength r' = textLength r \<and> scriptLimit r' = lim \<and>
    scriptLimit r < lim \<and> lim \<le> textLength r \<and> \<not> splits_pair (textArray r) lim \<and>
    (\<forall>ch \<in> set (chars_in (textArray r) (scriptLimit r) lim). in_run getScript sc ch) \<and>
    (lim < textLength r \<longrightarrow> (let ch = fst (char_at (textArray r) lim) in
        unpaired ch \<longrightarrow> getScript ch > 1 \<and> getScript ch \<noteq> sc))"
proof -
  let ?r = "r\<lparr>fixupCount := 0, scriptCode := USCRIPT_COMMON, scriptStart := scriptLimit r\<rparr>"
  have "run_ok ?r" using assms(1) by (simp add: run_ok_def)
  from run_loop_ok [OF this, of getScript] assms(2)
  obtain r' where "run_loop getScript ?r = Some r'" "run_ok r'" "textArray r' = textArray r" "textLength r' = textLength r"
      "scriptStart r' = scriptLimit r" "scriptLimit r < scriptLimit r'" "scriptLimit r' \<le> textLength r"
      "scriptLimit r' = scriptLimit r \<or> \<not> splits_pair (textArray r) (scriptLimit r')"
      "\<forall>ch \<in> set (chars_in (textArray r) (scriptLimit r) (scriptLimit r')). in_run getScript (scriptCode r') ch"
      "scriptLimit r' < textLength r \<longrightarrow> (let ch = fst (char_at (textArray r) (scriptLimit r')) in
        unpaired ch \<longrightarrow> getScript ch > 1 \<and> getScript ch \<noteq> scriptCode r')"
    by (auto simp: USCRIPT_COMMON_def)
  then show ?thesis using assms(2) by (simp add: uscript_nextRun_def)
qed

section \<open>Properties\<close>

text \<open>
  C30: \<open>uscript_nextRun\<close> on text that is not used up returns, never leaves the text, the table or
  its bracket stack, and reports a non-empty run that begins where the last one ended, ends inside
  the text and does not cut a surrogate pair. Every character of the run outside the table of
  paired characters is common, inherited, or of the script reported; and the run is maximal: such
  a character right after the run has another script.
\<close>
theorem uscript_nextRun_correct:
  assumes "run_ok r" "scriptLimit r < textLength r"
  shows "\<exists>r' lim sc. uscript_nextRun getScript (Some r) = Some (Some r', Some (scriptLimit r, lim, sc)) \<and>
    run_ok r' \<and> textArray r' = textArray r \<and> textLength r' = textLength r \<and> scriptLimit r' = lim \<and>
    scriptLimit r < lim \<and> lim \<le> textLength r \<and> \<not> splits_pair (textArray r) lim \<and>
    (\<forall>ch \<in> set (chars_in (textArray r) (scriptLimit r) lim). in_run getScript sc ch) \<and>
    (lim < textLength r \<longrightarrow> (let ch = fst (char_at (textArray r) lim) in
        unpaired ch \<longrightarrow> getScript ch > 1 \<and> getScript ch \<noteq> sc))"
  using assms by (rule nextRun_ok)

theorem uscript_nextRun_correct_witness:
  "\<exists>r' lim sc. uscript_nextRun (\<lambda>c. if c < 0x80 then 25 else 14)
     (Some \<lparr>textLength = 3, textArray = [0x61, 0x62, 0x3b1], scriptStart = 0, scriptLimit = 0, scriptCode = -1,
            parenStack = replicate 32 \<lparr>pairIndex = 0, pairScript = 0\<rparr>, parenSP = -1, pushCount = 0, fixupCount = 0\<rparr>) =
     Some (Some r', Some (0, lim, sc)) \<and> 0 < lim \<and> lim \<le> 3"
proof -
  let ?r = "\<lparr>textLength = 3, textArray = [0x61, 0x62, 0x3b1], scriptStart = 0, scriptLimit = 0, scriptCode = -1,
            parenStack = replicate 32 \<lparr>pairIndex = 0, pairScript = 0\<rparr>, parenSP = -1, pushCount = 0, fixupCount = 0\<rparr>"
  have "run_ok ?r" "scriptLimit ?r < textLength ?r" by (simp_all add: run_ok_def)
  from uscript_nextRun_correct [OF this, of "\<lambda>c. if c < 0x80 then 25 else 14"] show ?thesis by auto
qed

text \<open>
  The bisection of \<open>getPairIndex\<close> is a membership test: it returns the index of a character of
  the table, and -1 for every other code point, without reading outside the table.
\<close>
theorem getPairIndex_correct:
  "\<exists>i. getPairIndex ch = Some i \<and> -1 \<le> i \<and> i < int (length pairedChars) \<and>
    (0 \<le> i \<longrightarrow> pairedChars ! nat i = ch) \<and> (i = -1 \<longleftrightarrow> ch \<notin> set pairedChars)"
  using getPairIndex_ok [of ch] by (simp add: pairedChars_def)

theorem getPairIndex_correct_witness: "getPairIndex 0x29 = Some 1"
proof -
  have "0x29 \<in> set pairedChars" by (simp add: pairedChars_def)
  with getPairIndex_correct [of "0x29"] have "\<exists>i. getPairIndex 0x29 = Some i \<and> 0 \<le> i" by force
  moreover have "getPairIndex 0x29 = Some 1" by code_simp
  ultimately show ?thesis by simp
qed
end
