(* ===== verification/InvChars.thy ===== *)
theory InvChars
  imports CString
begin

text \<open>
  Invariant characters (\<open>uinvchar.c\<close>, ASCII charset family): the tables between ASCII and EBCDIC,
  the tests for invariant strings, the conversion functions that the data swapper uses, and the
  comparisons. Memory is one byte list and a pointer an address in it, \<open>None\<close> for NULL, so that
  the input and the output may be the same block. A message of \<open>udata_printError\<close> is not modelled.
\<close>

section \<open>Tables\<close>

definition asciiFromEbcdic :: "u8 list" where
  "asciiFromEbcdic =
    [0x00, 0x01, 0x02, 0x03, 0x00, 0x09, 0x00, 0x7f, 0x00, 0x00, 0x00, 0x0b, 0x0c, 0x0d, 0x0e, 0x0f,
     0x10, 0x11, 0x12, 0x13, 0x00, 0x0a, 0x08, 0x00, 0x18, 0x19, 0x00, 0x00, 0x1c, 0x1d, 0x1e, 0x1f,
     0x00, 0x00, 0x00, 0x00, 0x00, 0x0a, 0x17, 0x1b, 0x00, 0x00, 0x00, 0x00, 0x00, 0x05, 0x06, 0x07,
     0x00, 0x00, 0x16, 0x00, 0x00, 0x00, 0x00, 0x04, 0x00, 0x00, 0x00, 0x00, 0x14, 0x15, 0x00, 0x1a,
     0x20, 0x00, 0x00, 0x00, 0x00, 0x00, 0x00, 0x00, 0x00, 0x00, 0x00, 0x2e, 0x3c, 0x28, 0x2b, 0x7c,
     0x26, 0x00, 0x00, 0x00, 0x00, 0x00, 0x00, 0x00, 0x00, 0x00, 0x21, 0x24, 0x2a, 0x29, 0x3b, 0x5e,
     0x2d, 0x2f, 0x00, 0x00, 0x00, 0x00, 0x00, 0x00, 0x00, 0x00, 0x00, 0x2c, 0x25, 0x5f, 0x3e, 0x3f,
     0x00, 0x00, 0x00, 0x00, 0x00, 0x00, 0x00, 0x00, 0x00, 0x60, 0x3a, 0x23, 0x40, 0x27, 0x3d, 0x22,
     0x00, 0x61, 0x62, 0x63, 0x64, 0x65, 0x66, 0x67, 0x68, 0x69, 0x00, 0x00, 0x00, 0x00, 0x00, 0x00,
     0x00, 0x6a, 0x6b, 0x6c, 0x6d, 0x6e, 0x6f, 0x70, 0x71, 0x72, 0x00, 0x00, 0x00, 0x00, 0x00, 0x00,
     0x00, 0x7e, 0x73, 0x74, 0x75, 0x76, 0x77, 0x78, 0x79, 0x7a, 0x00, 0x00, 0x00, 0x5b, 0x00, 0x00,
     0x5e, 0x00, 0x00, 0x00, 0x00, 0x00, 0x00, 0x00, 0x00, 0x00, 0x5b, 0x5d, 0x00, 0x5d, 0x00, 0x00,
     0x7b, 0x41, 0x42, 0x43, 0x44, 0x45, 0x46, 0x47, 0x48, 0x49, 0x00, 0x00, 0x00, 0x00, 0x00, 0x00,
     0x7d, 0x4a, 0x4b, 0x4c, 0x4d, 0x4e, 0x4f, 0x50, 0x51, 0x52, 0x00, 0x00, 0x00, 0x00, 0x00, 0x00,
     0x5c, 0x00, 0x53, 0x54, 0x55, 0x56, 0x57, 0x58, 0x59, 0x5a, 0x00, 0x00, 0x00, 0x00, 0x00, 0x00,
     0x30, 0x31, 0x32, 0x33, 0x34, 0x35, 0x36, 0x37, 0x38, 0x39, 0x00, 0x00, 0x00, 0x00, 0x00, 0x00]"

definition ebcdicFromAscii :: "u8 list" where
  "ebcdicFromAscii =
    [0x00, 0x01, 0x02, 0x03, 0x37, 0x2d, 0x2e, 0x2f, 0x16, 0x05, 0x00, 0x0b, 0x0c, 0x0d, 0x0e, 0x0f,
     0x10, 0x11, 0x12, 0x13, 0x3c, 0x3d, 0x32, 0x26, 0x18, 0x19, 0x3f, 0x27, 0x1c, 0x1d, 0x1e, 0x1f,
     0x40, 0x00, 0x7f, 0x00, 0x00, 0x6c, 0x50, 0x7d, 0x4d, 0x5d, 0x5c, 0x4e, 0x6b, 0x60, 0x4b, 0x61,
     0xf0, 0xf1, 0xf2, 0xf3, 0xf4, 0xf5, 0xf6, 0xf7, 0xf8, 0xf9, 0x7a, 0x5e, 0x4c, 0x7e, 0x6e, 0x6f,
     0x00, 0xc1, 0xc2, 0xc3, 0xc4, 0xc5, 0xc6, 0xc7, 0xc8, 0xc9, 0xd1, 0xd2, 0xd3, 0xd4, 0xd5, 0xd6,
     0xd7, 0xd8, 0xd9, 0xe2, 0xe3, 0xe4, 0xe5, 0xe6, 0xe7, 0xe8, 0xe9, 0x00, 0x00, 0x00, 0x00, 0x6d,
     0x00, 0x81, 0x82, 0x83, 0x84, 0x85, 0x86, 0x87, 0x88, 0x89, 0x91, 0x92, 0x93, 0x94, 0x95, 0x96,
     0x97, 0x98, 0x99, 0xa2, 0xa3, 0xa4, 0xa5, 0xa6, 0xa7, 0xa8, 0xa9, 0x00, 0x00, 0x00, 0x00, 0x07,
     0x00, 0x00, 0x00, 0x00, 0x00, 0x00, 0x00, 0x00, 0x00, 0x00, 0x00, 0x00, 0x00, 0x00, 0x00, 0x00,
     0x00, 0x00, 0x00, 0x00, 0x00, 0x00, 0x00, 0x00, 0x00, 0x00, 0x00, 0x00, 0x00, 0x00, 0x00, 0x00,
     0x00, 0x00, 0x00, 0x00, 0x00, 0x00, 0x00, 0x00, 0x00, 0x00, 0x00, 0x00, 0x00, 0x00, 0x00, 0x00,
     0x00, 0x00, 0x00, 0x00, 0x00, 0x00, 0x00, 0x00, 0x00, 0x00, 0x00, 0x00, 0x00, 0x00, 0x00, 0x00,
     0x00, 0x00, 0x00, 0x00, 0x00, 0x00, 0x00, 0x00, 0x00, 0x00, 0x00, 0x00, 0x00, 0x00, 0x00, 0x00,
     0x00, 0x00, 0x00, 0x00, 0x00, 0x00, 0x00, 0x00, 0x00, 0x00, 0x00, 0x00, 0x00, 0x00, 0x00, 0x00,
     0x00, 0x00, 0x00, 0x00, 0x00, 0x00, 0x00, 0x00, 0x00, 0x00, 0x00, 0x00, 0x00, 0x00, 0x00, 0x00,
     0x00, 0x00, 0x00, 0x00, 0x00, 0x00, 0x00, 0x00, 0x00, 0x00, 0x00, 0x00, 0x00, 0x00, 0x00, 0x00]"

definition lowercaseAsciiFromEbcdic :: "u8 list" where
  "lowercaseAsciiFromEbcdic =
    [0x00, 0x01, 0x02, 0x03, 0x00, 0x09, 0x00, 0x7f, 0x00, 0x00, 0x00, 0x0b, 0x0c, 0x0d, 0x0e, 0x0f,
     0x10, 0x11, 0x12, 0x13, 0x00, 0x0a, 0x08, 0x00, 0x18, 0x19, 0x00, 0x00, 0x1c, 0x1d, 0x1e, 0x1f,
     0x00, 0x00, 0x00, 0x00, 0x00, 0x0a, 0x17, 0x1b, 0x00, 0x00, 0x00, 0x00, 0x00, 0x05, 0x06, 0x07,
     0x00, 0x00, 0x16, 0x00, 0x00, 0x00, 0x00, 0x04, 0x00, 0x00, 0x00, 0x00, 0x14, 0x15, 0x00, 0x1a,
     0x20, 0x00, 0x00, 0x00, 0x00, 0x00, 0x00, 0x00, 0x00, 0x00, 0x00, 0x2e, 0x3c, 0x28, 0x2b, 0x7c,
     0x26, 0x00, 0x00, 0x00, 0x00, 0x00, 0x00, 0x00, 0x00, 0x00, 0x21, 0x24, 0x2a, 0x29, 0x3b, 0x5e,
     0x2d, 0x2f, 0x00, 0x00, 0x00, 0x00, 0x00, 0x00, 0x00, 0x00, 0x00, 0x2c, 0x25, 0x5f, 0x3e, 0x3f,
     0x00, 0x00, 0x00, 0x00, 0x00, 0x00, 0x00, 0x00, 0x00, 0x60, 0x3a, 0x23, 0x40, 0x27, 0x3d, 0x22,
     0x00, 0x61, 0x62, 0x63, 0x64, 0x65, 0x66, 0x67, 0x68, 0x69, 0x00, 0x00, 0x00, 0x00, 0x00, 0x00,
     0x00, 0x6a, 0x6b, 0x6c, 0x6d, 0x6e, 0x6f, 0x70, 0x71, 0x72, 0x00, 0x00, 0x00, 0x00, 0x00, 0x00,
     0x00, 0x7e, 0x73, 0x74, 0x75, 0x76, 0x77, 0x78, 0x79, 0x7a, 0x00, 0x00, 0x00, 0x5b, 0x00, 0x00,
     0x5e, 0x00, 0x00, 0x00, 0x00, 0x00, 0x00, 0x00, 0x00, 0x00, 0x5b, 0x5d, 0x00, 0x5d, 0x00, 0x00,
     0x7b, 0x61, 0x62, 0x63, 0x64, 0x65, 0x66, 0x67, 0x68, 0x69, 0x00, 0x00, 0x00, 0x00, 0x00, 0x00,
     0x7d, 0x6a, 0x6b, 0x6c, 0x6d, 0x6e, 0x6f, 0x70, 0x71, 0x72, 0x00, 0x00, 0x00, 0x00, 0x00, 0x00,
     0x7c, 0x00, 0x73, 0x74, 0x75, 0x76, 0x77, 0x78, 0x79, 0x7a, 0x00, 0x00, 0x00, 0x00, 0x00, 0x00,
     0x30, 0x31, 0x32, 0x33, 0x34, 0x35, 0x36, 0x37, 0x38, 0x39, 0x00, 0x00, 0x00, 0x00, 0x00, 0x00]"

definition invariantChars :: "int list" where
  "invariantChars = [0xfffffbff, 0xffffffe5, 0x87fffffe, 0x87fffffe]"

text \<open>The argument is unsigned, or known to be non-negative.\<close>

definition UCHAR_IS_INVARIANT :: "int \<Rightarrow> bool" where
  "UCHAR_IS_INVARIANT c \<longleftrightarrow>
     c \<le> 0x7f \<and> (invariantChars ! nat (drop_bit 5 c)) AND push_bit (nat (c AND 0x1f)) 1 \<noteq> 0"

abbreviation inv_byte :: "u8 \<Rightarrow> bool" where
  "inv_byte b \<equiv> UCHAR_IS_INVARIANT (uint b)"

definition ebcdic_to_ascii :: "u8 \<Rightarrow> u8" where
  "ebcdic_to_ascii c = asciiFromEbcdic ! unat c"

definition ascii_to_ebcdic :: "u8 \<Rightarrow> u8" where
  "ascii_to_ebcdic c = ebcdicFromAscii ! unat c"

section \<open>Conversion to and from UTF-16\<close>

fun u_charsToUChars :: "u8 list \<Rightarrow> int \<Rightarrow> u16 list \<Rightarrow> int \<Rightarrow> nat \<Rightarrow> u16 list option" where
  "u_charsToUChars cs i us j 0 = Some us"
| "u_charsToUChars cs i us j (Suc n) = do {
     c \<leftarrow> rd cs i;
     us \<leftarrow> wr us j (ucast c);
     u_charsToUChars cs (i + 1) us (j + 1) n }"

fun u_UCharsToChars :: "u16 list \<Rightarrow> int \<Rightarrow> u8 list \<Rightarrow> int \<Rightarrow> nat \<Rightarrow> u8 list option" where
  "u_UCharsToChars us i cs j 0 = Some cs"
| "u_UCharsToChars us i cs j (Suc n) = do {
     u \<leftarrow> rd us i;
     cs \<leftarrow> wr cs j (ucast (if UCHAR_IS_INVARIANT (uint u) then u else 0));
     u_UCharsToChars us (i + 1) cs (j + 1) n }"

function uprv_isInvariantString :: "u8 list \<Rightarrow> int \<Rightarrow> int \<Rightarrow> bool option" where
  "uprv_isInvariantString s i len =
     (if len < 0 then do {
        c \<leftarrow> rd s i;
        if c = 0 then Some True
        else if \<not> inv_byte c then Some False
        else uprv_isInvariantString s (i + 1) len }
      else if len = 0 then Some True
      else do {
        c \<leftarrow> rd s i;
        if c = 0 then uprv_isInvariantString s (i + 1) (len - 1)
        else if \<not> inv_byte c then Some False
        else uprv_isInvariantString s (i + 1) (len - 1) })"
  by pat_completeness auto
termination
  by (relation "measure (\<lambda>(s, i, len). nat (int (length s) - i))") (auto simp: rd_Some_iff)

function uprv_isInvariantUString :: "u16 list \<Rightarrow> int \<Rightarrow> int \<Rightarrow> bool option" where
  "uprv_isInvariantUString s i len =
     (if len < 0 then do {
        c \<leftarrow> rd s i;
        if c = 0 then Some True
        else if \<not> UCHAR_IS_INVARIANT (uint c) then Some False
        else uprv_isInvariantUString s (i + 1) len }
      else if len = 0 then Some True
      else do {
        c \<leftarrow> rd s i;
        if \<not> UCHAR_IS_INVARIANT (uint c) then Some False
        else uprv_isInvariantUString s (i + 1) (len - 1) })"
  by pat_completeness auto
termination
  by (relation "measure (\<lambda>(s, i, len). nat (int (length s) - i))") (auto simp: rd_Some_iff)

declare uprv_isInvariantString.simps [simp del] uprv_isInvariantUString.simps [simp del]

section \<open>Swapping functions\<close>

text \<open>The result of a swapping function: the memory, the length returned, the error code.\<close>

type_synonym swap_result = "(u8 list \<times> int \<times> UErrorCode) option"

text \<open>\<open>memcpy\<close> is undefined on blocks that overlap.\<close>

definition memcpy :: "u8 list \<Rightarrow> int \<Rightarrow> int \<Rightarrow> int \<Rightarrow> u8 list option" where
  "memcpy mem dst src n =
     (if 0 \<le> n \<and> 0 \<le> src \<and> src + n \<le> int (length mem) \<and> 0 \<le> dst \<and> dst + n \<le> int (length mem) \<and>
         (src + n \<le> dst \<or> dst + n \<le> src)
      then Some (overwrite mem dst (seg mem src (src + n))) else None)"

text \<open>The argument checks that the four functions share; \<open>hasDs\<close> is \<open>ds!=NULL\<close>.\<close>

definition inv_args ::
  "bool \<Rightarrow> u8 list \<Rightarrow> int option \<Rightarrow> int \<Rightarrow> int option \<Rightarrow> UErrorCode \<Rightarrow> (int \<Rightarrow> int \<Rightarrow> swap_result) \<Rightarrow> swap_result" where
  "inv_args hasDs mem inData len outData e body =
     (if U_FAILURE e then Some (mem, 0, e)
      else if \<not> hasDs \<or> inData = None \<or> len < 0 \<or> (len > 0 \<and> outData = None)
      then Some (mem, 0, U_ILLEGAL_ARGUMENT_ERROR)
      else body (the inData) (case outData of None \<Rightarrow> 0 | Some q \<Rightarrow> q))"

text \<open>The converting loops; \<open>conv\<close> gives the byte to write, or \<open>None\<close> for a variant character.\<close>

fun convert_loop :: "(u8 \<Rightarrow> u8 option) \<Rightarrow> u8 list \<Rightarrow> int \<Rightarrow> int \<Rightarrow> nat \<Rightarrow> (u8 list \<times> bool) option" where
  "convert_loop conv mem s t 0 = Some (mem, True)"
| "convert_loop conv mem s t (Suc n) = do {
     c \<leftarrow> rd mem s;
     (case conv c of
        None \<Rightarrow> Some (mem, False)
      | Some d \<Rightarrow> do { mem \<leftarrow> wr mem t d; convert_loop conv mem (s + 1) (t + 1) n }) }"

fun check_loop :: "(u8 \<Rightarrow> u8 option) \<Rightarrow> u8 list \<Rightarrow> int \<Rightarrow> nat \<Rightarrow> bool option" where
  "check_loop conv mem s 0 = Some True"
| "check_loop conv mem s (Suc n) = do {
     c \<leftarrow> rd mem s;
     if conv c = None then Some False else check_loop conv mem (s + 1) n }"

definition conv_e2a :: "u8 \<Rightarrow> u8 option" where
  "conv_e2a c =
     (if c \<noteq> 0 \<and> (ebcdic_to_ascii c = 0 \<or> \<not> inv_byte (ebcdic_to_ascii c)) then None
      else Some (if c \<noteq> 0 then ebcdic_to_ascii c else 0))"

definition conv_a2e :: "u8 \<Rightarrow> u8 option" where
  "conv_a2e c = (if inv_byte c then Some (ascii_to_ebcdic c) else None)"

definition convert_swap ::
  "(u8 \<Rightarrow> u8 option) \<Rightarrow> bool \<Rightarrow> u8 list \<Rightarrow> int option \<Rightarrow> int \<Rightarrow> int option \<Rightarrow> UErrorCode \<Rightarrow> swap_result" where
  "convert_swap conv hasDs mem inData len outData e =
     inv_args hasDs mem inData len outData e (\<lambda>s t. do {
       (mem, good) \<leftarrow> convert_loop conv mem s t (nat len);
       Some (if good then (mem, len, e) else (mem, 0, U_INVALID_CHAR_FOUND)) })"

definition copy_swap ::
  "(u8 \<Rightarrow> u8 option) \<Rightarrow> bool \<Rightarrow> u8 list \<Rightarrow> int option \<Rightarrow> int \<Rightarrow> int option \<Rightarrow> UErrorCode \<Rightarrow> swap_result" where
  "copy_swap conv hasDs mem inData len outData e =
     inv_args hasDs mem inData len outData e (\<lambda>s t. do {
       good \<leftarrow> check_loop conv mem s (nat len);
       if \<not> good then Some (mem, 0, U_INVALID_CHAR_FOUND)
       else if len > 0 \<and> inData \<noteq> outData
       then do { mem \<leftarrow> memcpy mem t s len; Some (mem, len, e) }
       else Some (mem, len, e) })"

definition uprv_ebcdicFromAscii where
  "uprv_ebcdicFromAscii = convert_swap conv_a2e"

definition uprv_copyAscii where
  "uprv_copyAscii = copy_swap conv_a2e"

definition uprv_asciiFromEbcdic where
  "uprv_asciiFromEbcdic = convert_swap conv_e2a"

definition uprv_copyEbcdic where
  "uprv_copyEbcdic = copy_swap conv_e2a"

section \<open>Comparison\<close>

function u_strlen :: "u16 list \<Rightarrow> int \<Rightarrow> int option" where
  "u_strlen s i = do { c \<leftarrow> rd s i; if c = 0 then Some 0 else map_option (\<lambda>n. n + 1) (u_strlen s (i + 1)) }"
  by pat_completeness auto
termination by (relation "measure (\<lambda>(s, i). nat (int (length s) - i))") (auto simp: rd_Some_iff)

declare u_strlen.simps [simp del]

fun compare_loop :: "(u8 \<Rightarrow> int) \<Rightarrow> u8 list \<Rightarrow> int \<Rightarrow> u16 list \<Rightarrow> int \<Rightarrow> nat \<Rightarrow> int \<Rightarrow> int option" where
  "compare_loop val outS i local j 0 diff = Some diff"
| "compare_loop val outS i local j (Suc n) diff = do {
     c \<leftarrow> rd outS i;
     u \<leftarrow> rd local j;
     let c1 = val c;
     let c2 = (if UCHAR_IS_INVARIANT (uint u) then uint u else -2);
     if c1 - c2 \<noteq> 0 then Some (c1 - c2)
     else compare_loop val outS (i + 1) local (j + 1) n diff }"

definition compareInv ::
  "(u8 \<Rightarrow> int) \<Rightarrow> (u8 list \<times> int) option \<Rightarrow> int \<Rightarrow> (u16 list \<times> int) option \<Rightarrow> int \<Rightarrow> int option" where
  "compareInv val outString outLength localString localLength =
     (case (outString, localString) of
        (Some (s, i), Some (t, j)) \<Rightarrow>
          if outLength < -1 \<or> localLength < -1 then Some 0
          else do {
            outLen \<leftarrow> (if outLength < 0 then strlen s i else Some outLength);
            localLen \<leftarrow> (if localLength < 0 then u_strlen t j else Some localLength);
            compare_loop val s i t j (nat (if outLen < localLen then outLen else localLen)) (outLen - localLen) }
      | _ \<Rightarrow> Some 0)"

definition inv_ascii :: "u8 \<Rightarrow> int" where
  "inv_ascii c = (if inv_byte c then uint c else -1)"

definition inv_ebcdic :: "u8 \<Rightarrow> int" where
  "inv_ebcdic c =
     (if c = 0 then 0
      else if ebcdic_to_ascii c \<noteq> 0 \<and> inv_byte (ebcdic_to_ascii c) then uint (ebcdic_to_ascii c) else -1)"

definition uprv_compareInvAscii where
  "uprv_compareInvAscii = compareInv inv_ascii"

definition uprv_compareInvEbcdic where
  "uprv_compareInvEbcdic = compareInv inv_ebcdic"

definition ebcdic_rank :: "u8 \<Rightarrow> int" where
  "ebcdic_rank c =
     (if c \<noteq> 0 \<and> (ebcdic_to_ascii c = 0 \<or> \<not> inv_byte (ebcdic_to_ascii c)) then - uint c
      else if c \<noteq> 0 then uint (ebcdic_to_ascii c) else 0)"

function uprv_compareInvEbcdicAsAscii :: "u8 list \<Rightarrow> int \<Rightarrow> u8 list \<Rightarrow> int \<Rightarrow> int option" where
  "uprv_compareInvEbcdicAsAscii s1 i1 s2 i2 = do {
     c1 \<leftarrow> rd s1 i1;
     c2 \<leftarrow> rd s2 i2;
     if c1 \<noteq> c2 then Some (ebcdic_rank c1 - ebcdic_rank c2)
     else if c1 = 0 then Some 0
     else uprv_compareInvEbcdicAsAscii s1 (i1 + 1) s2 (i2 + 1) }"
  by pat_completeness auto
termination
  by (relation "measure (\<lambda>(s1, i1, s2, i2). nat (int (length s1) - i1))") (auto simp: rd_Some_iff)

declare uprv_compareInvEbcdicAsAscii.simps [simp del]

definition uprv_ebcdicToLowercaseAscii :: "u8 \<Rightarrow> u8" where
  "uprv_ebcdicToLowercaseAscii c = lowercaseAsciiFromEbcdic ! unat c"

section \<open>Bounded string copies with conversion\<close>

fun pad_loop :: "u8 list \<Rightarrow> int \<Rightarrow> nat \<Rightarrow> u8 list option" where
  "pad_loop dst j 0 = Some dst"
| "pad_loop dst j (Suc n) = do { dst \<leftarrow> wr dst j 0; pad_loop dst (j + 1) n }"

text \<open>\<open>while(*src && n>0)\<close> reads \<open>*src\<close> before it tests \<open>n\<close>.\<close>

fun strncpy_loop :: "(u8 \<Rightarrow> u8) \<Rightarrow> u8 list \<Rightarrow> int \<Rightarrow> u8 list \<Rightarrow> int \<Rightarrow> nat \<Rightarrow> u8 list option" where
  "strncpy_loop f dst j src i 0 = do { c \<leftarrow> rd src i; Some dst }"
| "strncpy_loop f dst j src i (Suc n) = do {
     c \<leftarrow> rd src i;
     if c \<noteq> 0 then do { dst \<leftarrow> wr dst j (f c); strncpy_loop f dst (j + 1) src (i + 1) n }
     else pad_loop dst j (Suc n) }"

definition uprv_aestrncpy :: "u8 list \<Rightarrow> int \<Rightarrow> u8 list \<Rightarrow> int \<Rightarrow> int \<Rightarrow> u8 list option" where
  "uprv_aestrncpy dst j src i n = do {
     n \<leftarrow> (if n = -1 then map_option (\<lambda>l. l + 1) (strlen src i) else Some n);
     strncpy_loop ebcdic_to_ascii dst j src i (nat n) }"

definition uprv_eastrncpy :: "u8 list \<Rightarrow> int \<Rightarrow> u8 list \<Rightarrow> int \<Rightarrow> int \<Rightarrow> u8 list option" where
  "uprv_eastrncpy dst j src i n = do {
     n \<leftarrow> (if n = -1 then map_option (\<lambda>l. l + 1) (strlen src i) else Some n);
     strncpy_loop (\<lambda>c. if ascii_to_ebcdic c = 0 then ascii_to_ebcdic 0x3f else ascii_to_ebcdic c)
       dst j src i (nat n) }"

section \<open>The tables\<close>

lemma inv_tables:
  "list_all (\<lambda>b. case conv_a2e (word_of_int b) of None \<Rightarrow> True | Some d \<Rightarrow> conv_e2a d = Some (word_of_int b)) [0..255]"
  by code_simp

lemma conv_roundtrip: "conv_a2e c = Some d \<Longrightarrow> conv_e2a d = Some c"
proof -
  assume c: "conv_a2e c = Some d"
  have "uint c \<in> set [0..255]" using uint_lt2p [of c] by simp
  then have "case conv_a2e (word_of_int (uint c)) of None \<Rightarrow> True | Some d \<Rightarrow> conv_e2a d = Some (word_of_int (uint c))"
    using inv_tables unfolding list_all_iff by blast
  then show "conv_e2a d = Some c" using c by simp
qed

lemma conv_a2e_inv: "conv_a2e c = None \<longleftrightarrow> \<not> inv_byte c"
  by (simp add: conv_a2e_def)

section \<open>The loops\<close>

lemma seg_update_outside:
  assumes "0 \<le> t" "0 \<le> i" "t < i \<or> j \<le> t"
  shows "seg (xs[nat t := x]) i j = seg xs i j"
proof (cases "t < i")
  case True
  then show ?thesis using assms by (simp add: seg_def)
next
  case False
  then show ?thesis using assms by (simp add: seg_def take_update_cancel drop_update_swap nat_diff_distrib)
qed

lemma convert_loop_eq:
  assumes "0 \<le> s" "0 \<le> t" "s + int n \<le> int (length mem)" "t + int n \<le> int (length mem)"
    and "t \<le> s \<or> s + int n \<le> t" and "\<forall>c \<in> set (seg mem s (s + int n)). conv c \<noteq> None"
  shows "convert_loop conv mem s t n = Some (overwrite mem t (map (\<lambda>c. the (conv c)) (seg mem s (s + int n))), True)"
  using assms
proof (induction n arbitrary: mem s t)
  case (Suc n)
  have sg: "seg mem s (s + int (Suc n)) = mem ! nat s # seg mem (s + 1) (s + 1 + int n)"
    using Suc.prems seg_step [of s "s + int (Suc n)" mem] by (simp add: algebra_simps)
  obtain d where d: "conv (mem ! nat s) = Some d" using Suc.prems(6) sg by auto
  let ?m = "mem[nat t := d]"
  have sg': "seg ?m (s + 1) (s + 1 + int n) = seg mem (s + 1) (s + 1 + int n)"
    using Suc.prems by (intro seg_update_outside) auto
  have "convert_loop conv ?m (s + 1) (t + 1) n =
      Some (overwrite ?m (t + 1) (map (\<lambda>c. the (conv c)) (seg ?m (s + 1) (s + 1 + int n))), True)"
    using Suc.prems sg sg' by (intro Suc.IH) auto
  moreover have "overwrite ?m (t + 1) (map (\<lambda>c. the (conv c)) (seg mem (s + 1) (s + 1 + int n))) =
      overwrite mem t (d # map (\<lambda>c. the (conv c)) (seg mem (s + 1) (s + 1 + int n)))"
    using Suc.prems by (intro overwrite_Cons) (auto simp: length_seg)
  ultimately show ?case using Suc.prems d sg sg' by simp
qed simp

lemma convert_loop_variant:
  assumes "0 \<le> s" "0 \<le> t" "s + int n \<le> int (length mem)" "t + int n \<le> int (length mem)"
    and "t \<le> s \<or> s + int n \<le> t" and "\<exists>c \<in> set (seg mem s (s + int n)). conv c = None"
  shows "\<exists>mem'. convert_loop conv mem s t n = Some (mem', False) \<and> length mem' = length mem"
  using assms
proof (induction n arbitrary: mem s t)
  case (Suc n)
  have sg: "seg mem s (s + int (Suc n)) = mem ! nat s # seg mem (s + 1) (s + 1 + int n)"
    using Suc.prems seg_step [of s "s + int (Suc n)" mem] by (simp add: algebra_simps)
  show ?case
  proof (cases "conv (mem ! nat s)")
    case None
    then show ?thesis using Suc.prems by simp
  next
    case (Some d)
    let ?m = "mem[nat t := d]"
    have sg': "seg ?m (s + 1) (s + 1 + int n) = seg mem (s + 1) (s + 1 + int n)"
      using Suc.prems by (intro seg_update_outside) auto
    have "\<exists>mem'. convert_loop conv ?m (s + 1) (t + 1) n = Some (mem', False) \<and> length mem' = length ?m"
      using Suc.prems sg sg' Some by (intro Suc.IH) auto
    then show ?thesis using Suc.prems Some by simp
  qed
qed simp

lemma seg_map_overwrite_same:
  assumes "0 \<le> s" "s \<le> j" "j \<le> int (length mem)"
  shows "overwrite mem s (seg mem s j) = mem"
proof -
  have "mem = take (nat s) mem @ take (nat (j - s)) (drop (nat s) mem) @ drop (nat (j - s)) (drop (nat s) mem)"
    by (simp only: append_take_drop_id)
  then show ?thesis using assms by (simp add: overwrite_def seg_def nat_diff_distrib add.commute min_def)
qed

section \<open>Properties\<close>

text \<open>
  C33: A block of invariant characters converted to EBCDIC in place and back again is unchanged, and
  both conversions return the length without an error. A block with a variant character is
  refused with \<open>U_INVALID_CHAR_FOUND\<close>.
\<close>
theorem uprv_swapInvChars_roundtrip:
  assumes "0 \<le> p" "0 \<le> len" "p + len \<le> int (length mem)" "\<not> U_FAILURE e"
  shows "if \<forall>c \<in> set (seg mem p (p + len)). inv_byte c
    then \<exists>mem'. uprv_ebcdicFromAscii True mem (Some p) len (Some p) e = Some (mem', len, e) \<and>
      length mem' = length mem \<and>
      uprv_asciiFromEbcdic True mem' (Some p) len (Some p) e = Some (mem, len, e)
    else \<exists>mem'. uprv_ebcdicFromAscii True mem (Some p) len (Some p) e = Some (mem', 0, U_INVALID_CHAR_FOUND)"
proof -
  let ?xs = "seg mem p (p + len)"
  have n: "p + int (nat len) = p + len" using assms(2) by simp
  have lx: "int (length ?xs) = len" using assms by (simp add: length_seg)
  show ?thesis
  proof (cases "\<forall>c \<in> set ?xs. inv_byte c")
    case False
    then have "\<exists>c \<in> set (seg mem p (p + int (nat len))). conv_a2e c = None" unfolding n by (auto simp: conv_a2e_inv)
    from convert_loop_variant [OF assms(1,1) _ _ _ this] assms
    obtain mem' where "convert_loop conv_a2e mem p p (nat len) = Some (mem', False)" by auto
    then show ?thesis using False assms by (auto simp: uprv_ebcdicFromAscii_def convert_swap_def inv_args_def)
  next
    case True
    let ?ys = "map (\<lambda>c. the (conv_a2e c)) ?xs"
    let ?m = "overwrite mem p ?ys"
    have c1: "convert_loop conv_a2e mem p p (nat len) = Some (?m, True)"
      using convert_loop_eq [of p p "nat len" mem conv_a2e] assms True unfolding n by (auto simp: conv_a2e_inv)
    have lm: "length ?m = length mem" using assms lx by (intro overwrite_length) auto
    have sy: "seg ?m p (p + len) = ?ys" using seg_overwrite [of p ?ys mem] assms lx by simp
    have bk: "conv_e2a (the (conv_a2e c)) = Some c" if "c \<in> set ?xs" for c
      using True that conv_roundtrip [of c "ascii_to_ebcdic c"] by (auto simp: conv_a2e_def)
    have ok: "\<forall>d \<in> set ?ys. conv_e2a d \<noteq> None"
      using bk by auto
    have "map (\<lambda>d. the (conv_e2a d)) ?ys = ?xs"
      unfolding map_map comp_def by (rule map_idI) (simp add: bk)
    moreover have "convert_loop conv_e2a ?m p p (nat len) = Some (overwrite ?m p (map (\<lambda>d. the (conv_e2a d)) ?ys), True)"
      using convert_loop_eq [of p p "nat len" ?m conv_e2a] assms ok lm sy unfolding n by auto
    moreover have "overwrite ?m p ?xs = mem"
    proof -
      have "overwrite ?m p ?xs = overwrite mem p ?xs"
        using assms lx by (simp add: overwrite_def)
      then show ?thesis using seg_map_overwrite_same [of p "p + len" mem] assms by simp
    qed
    ultimately have "convert_loop conv_e2a ?m p p (nat len) = Some (mem, True)" by simp
    then show ?thesis using True c1 assms lm
      by (auto simp: uprv_ebcdicFromAscii_def uprv_asciiFromEbcdic_def convert_swap_def inv_args_def)
  qed
qed

theorem uprv_swapInvChars_roundtrip_witness:
  "\<exists>mem'. uprv_ebcdicFromAscii True [0x41, 0x2e, 0] (Some 0) 2 (Some 0) U_ZERO_ERROR = Some (mem', 2, U_ZERO_ERROR) \<and>
    uprv_asciiFromEbcdic True mem' (Some 0) 2 (Some 0) U_ZERO_ERROR = Some ([0x41, 0x2e, 0], 2, U_ZERO_ERROR)"
proof -
  have s: "seg [0x41, 0x2e, 0 :: u8] 0 (0 + 2) = [0x41, 0x2e]" by (simp add: seg_def)
  have i: "inv_byte 0x41" "inv_byte 0x2e" by code_simp+
  show ?thesis using uprv_swapInvChars_roundtrip [of 0 2 "[0x41, 0x2e, 0]" U_ZERO_ERROR] i unfolding s by auto
qed

text \<open>
  The table for lowercase agrees with lowercasing the table for EBCDIC to ASCII everywhere
  except at the code of the backslash, which is no letter and is mapped to a vertical bar.
\<close>
theorem lowercaseAsciiFromEbcdic_table:
  "uprv_ebcdicToLowercaseAscii c = uprv_asciitolower (ebcdic_to_ascii c) \<longleftrightarrow> c \<noteq> 0xe0"
  by (rule u8_forallD [of "\<lambda>c. uprv_ebcdicToLowercaseAscii c = uprv_asciitolower (ebcdic_to_ascii c) \<longleftrightarrow> c \<noteq> 0xe0"])
    code_simp
end
