(* ===== verification/DataSwap.thy ===== *)
theory DataSwap
  imports InvChars
begin

text \<open>
  The data swapper of \<open>udataswp.c\<close>: arrays of 16, 32 and 64-bit integers of the other byte order,
  blocks of invariant strings, the data header, and the choice of the functions in
  \<open>udata_openSwapper\<close>. Memory is one byte list as in \<open>InvChars\<close>; the machine is little-endian, so
  that \<open>U_IS_BIG_ENDIAN\<close> is 0. Integers in memory are read and written through \<open>rd16\<close> and so on.
  \<open>printError\<close> is not modelled.
\<close>

section \<open>Integers in memory\<close>

definition join16 :: "u8 \<Rightarrow> u8 \<Rightarrow> u16" where
  "join16 b0 b1 = ucast b0 OR push_bit 8 (ucast b1)"

definition join32 :: "u8 \<Rightarrow> u8 \<Rightarrow> u8 \<Rightarrow> u8 \<Rightarrow> u32" where
  "join32 b0 b1 b2 b3 = ucast b0 OR push_bit 8 (ucast b1) OR push_bit 16 (ucast b2) OR push_bit 24 (ucast b3)"

definition join64 :: "u8 list \<Rightarrow> 64 word" where
  "join64 bs = fold (\<lambda>k x. x OR push_bit (8 * k) (ucast (bs ! k))) [0..<8] 0"

definition bytes16 :: "u16 \<Rightarrow> u8 list" where
  "bytes16 x = [ucast x, ucast (drop_bit 8 x)]"

definition bytes32 :: "u32 \<Rightarrow> u8 list" where
  "bytes32 x = [ucast x, ucast (drop_bit 8 x), ucast (drop_bit 16 x), ucast (drop_bit 24 x)]"

definition bytes64 :: "64 word \<Rightarrow> u8 list" where
  "bytes64 x = map (\<lambda>k. ucast (drop_bit (8 * k) x)) [0..<8]"

definition rd_block :: "u8 list \<Rightarrow> int \<Rightarrow> int \<Rightarrow> u8 list option" where
  "rd_block mem a n = (if 0 \<le> a \<and> a + n \<le> int (length mem) then Some (seg mem a (a + n)) else None)"

definition wr_block :: "u8 list \<Rightarrow> int \<Rightarrow> u8 list \<Rightarrow> u8 list option" where
  "wr_block mem a bs = (if 0 \<le> a \<and> a + int (length bs) \<le> int (length mem) then Some (overwrite mem a bs) else None)"

definition rd16 :: "u8 list \<Rightarrow> int \<Rightarrow> u16 option" where
  "rd16 mem a = map_option (\<lambda>b. join16 (b ! 0) (b ! 1)) (rd_block mem a 2)"

definition rd32 :: "u8 list \<Rightarrow> int \<Rightarrow> u32 option" where
  "rd32 mem a = map_option (\<lambda>b. join32 (b ! 0) (b ! 1) (b ! 2) (b ! 3)) (rd_block mem a 4)"

definition rd64 :: "u8 list \<Rightarrow> int \<Rightarrow> 64 word option" where
  "rd64 mem a = map_option join64 (rd_block mem a 8)"

section \<open>Swapping primitives\<close>

definition uprv_readSwapUInt16 :: "u16 \<Rightarrow> u16" where
  "uprv_readSwapUInt16 x = push_bit 8 x OR drop_bit 8 x"

definition uprv_readDirectUInt16 :: "u16 \<Rightarrow> u16" where
  "uprv_readDirectUInt16 x = x"

definition uprv_readSwapUInt32 :: "u32 \<Rightarrow> u32" where
  "uprv_readSwapUInt32 x =
     push_bit 24 x OR (push_bit 8 x AND 0xff0000) OR (drop_bit 8 x AND 0xff00) OR drop_bit 24 x"

definition uprv_readDirectUInt32 :: "u32 \<Rightarrow> u32" where
  "uprv_readDirectUInt32 x = x"

definition swap64 :: "64 word \<Rightarrow> 64 word" where
  "swap64 x =
     push_bit 56 x OR push_bit 40 (x AND 0xff00) OR push_bit 24 (x AND 0xff0000) OR push_bit 8 (x AND 0xff000000) OR
     (drop_bit 8 x AND 0xff000000) OR (drop_bit 24 x AND 0xff0000) OR (drop_bit 40 x AND 0xff00) OR drop_bit 56 x"

definition uprv_writeSwapUInt16 :: "u8 list \<Rightarrow> int \<Rightarrow> u16 \<Rightarrow> u8 list option" where
  "uprv_writeSwapUInt16 mem p x = wr_block mem p (bytes16 (push_bit 8 x OR drop_bit 8 x))"

definition uprv_writeDirectUInt16 :: "u8 list \<Rightarrow> int \<Rightarrow> u16 \<Rightarrow> u8 list option" where
  "uprv_writeDirectUInt16 mem p x = wr_block mem p (bytes16 x)"

definition uprv_writeSwapUInt32 :: "u8 list \<Rightarrow> int \<Rightarrow> u32 \<Rightarrow> u8 list option" where
  "uprv_writeSwapUInt32 mem p x = wr_block mem p (bytes32
     (push_bit 24 x OR (push_bit 8 x AND 0xff0000) OR (drop_bit 8 x AND 0xff00) OR drop_bit 24 x))"

definition uprv_writeDirectUInt32 :: "u8 list \<Rightarrow> int \<Rightarrow> u32 \<Rightarrow> u8 list option" where
  "uprv_writeDirectUInt32 mem p x = wr_block mem p (bytes32 x)"

type_synonym swap_fn = "bool \<Rightarrow> u8 list \<Rightarrow> int option \<Rightarrow> int \<Rightarrow> int option \<Rightarrow> UErrorCode \<Rightarrow> swap_result"

text \<open>The argument checks of the array functions; \<open>msk\<close> is 1, 3 or 7.\<close>

definition array_args ::
  "int \<Rightarrow> bool \<Rightarrow> u8 list \<Rightarrow> int option \<Rightarrow> int \<Rightarrow> int option \<Rightarrow> UErrorCode \<Rightarrow> (int \<Rightarrow> int \<Rightarrow> swap_result) \<Rightarrow> swap_result" where
  "array_args msk hasDs mem inData len outData e body =
     (if U_FAILURE e then Some (mem, 0, e)
      else if \<not> hasDs \<or> inData = None \<or> len < 0 \<or> len AND msk \<noteq> 0 \<or> outData = None
      then Some (mem, 0, U_ILLEGAL_ARGUMENT_ERROR)
      else body (the inData) (the outData))"

fun swap16_loop :: "u8 list \<Rightarrow> int \<Rightarrow> int \<Rightarrow> nat \<Rightarrow> u8 list option" where
  "swap16_loop mem p q 0 = Some mem"
| "swap16_loop mem p q (Suc n) = do {
     x \<leftarrow> rd16 mem p;
     mem \<leftarrow> wr_block mem q (bytes16 (push_bit 8 x OR drop_bit 8 x));
     swap16_loop mem (p + 2) (q + 2) n }"

fun swap32_loop :: "u8 list \<Rightarrow> int \<Rightarrow> int \<Rightarrow> nat \<Rightarrow> u8 list option" where
  "swap32_loop mem p q 0 = Some mem"
| "swap32_loop mem p q (Suc n) = do {
     x \<leftarrow> rd32 mem p;
     mem \<leftarrow> wr_block mem q (bytes32
       (push_bit 24 x OR (push_bit 8 x AND 0xff0000) OR (drop_bit 8 x AND 0xff00) OR drop_bit 24 x));
     swap32_loop mem (p + 4) (q + 4) n }"

fun swap64_loop :: "u8 list \<Rightarrow> int \<Rightarrow> int \<Rightarrow> nat \<Rightarrow> u8 list option" where
  "swap64_loop mem p q 0 = Some mem"
| "swap64_loop mem p q (Suc n) = do {
     x \<leftarrow> rd64 mem p;
     mem \<leftarrow> wr_block mem q (bytes64 (swap64 x));
     swap64_loop mem (p + 8) (q + 8) n }"

definition uprv_swapArray16 :: swap_fn where
  "uprv_swapArray16 hasDs mem inData len outData e =
     array_args 1 hasDs mem inData len outData e (\<lambda>p q. do {
       mem \<leftarrow> swap16_loop mem p q (nat (len div 2)); Some (mem, len, e) })"

definition uprv_swapArray32 :: swap_fn where
  "uprv_swapArray32 hasDs mem inData len outData e =
     array_args 3 hasDs mem inData len outData e (\<lambda>p q. do {
       mem \<leftarrow> swap32_loop mem p q (nat (len div 4)); Some (mem, len, e) })"

definition uprv_swapArray64 :: swap_fn where
  "uprv_swapArray64 hasDs mem inData len outData e =
     array_args 7 hasDs mem inData len outData e (\<lambda>p q. do {
       mem \<leftarrow> swap64_loop mem p q (nat (len div 8)); Some (mem, len, e) })"

definition copy_array :: "int \<Rightarrow> swap_fn" where
  "copy_array msk hasDs mem inData len outData e =
     array_args msk hasDs mem inData len outData e (\<lambda>p q.
       if len > 0 \<and> inData \<noteq> outData
       then do { mem \<leftarrow> memcpy mem q p len; Some (mem, len, e) }
       else Some (mem, len, e))"

definition uprv_copyArray16 :: swap_fn where
  "uprv_copyArray16 = copy_array 1"

definition uprv_copyArray32 :: swap_fn where
  "uprv_copyArray32 = copy_array 3"

definition uprv_copyArray64 :: swap_fn where
  "uprv_copyArray64 = copy_array 7"

section \<open>The swapper\<close>

record UDataSwapper =
  inIsBigEndian :: u8
  inCharset :: u8
  outIsBigEndian :: u8
  outCharset :: u8
  readUInt16 :: "u16 \<Rightarrow> u16"
  readUInt32 :: "u32 \<Rightarrow> u32"
  compareInvChars :: "(u8 list \<times> int) option \<Rightarrow> int \<Rightarrow> (u16 list \<times> int) option \<Rightarrow> int \<Rightarrow> int option"
  writeUInt16 :: "u8 list \<Rightarrow> int \<Rightarrow> u16 \<Rightarrow> u8 list option"
  writeUInt32 :: "u8 list \<Rightarrow> int \<Rightarrow> u32 \<Rightarrow> u8 list option"
  swapArray16 :: swap_fn
  swapArray32 :: swap_fn
  swapArray64 :: swap_fn
  swapInvChars :: swap_fn

definition U_ASCII_FAMILY :: u8 where "U_ASCII_FAMILY = 0"
definition U_EBCDIC_FAMILY :: u8 where "U_EBCDIC_FAMILY = 1"
definition U_IS_BIG_ENDIAN :: u8 where "U_IS_BIG_ENDIAN = 0"

definition udata_readInt16 :: "UDataSwapper \<Rightarrow> u16 \<Rightarrow> u16" where
  "udata_readInt16 ds x = readUInt16 ds x"

definition udata_readInt32 :: "UDataSwapper \<Rightarrow> u32 \<Rightarrow> u32" where
  "udata_readInt32 ds x = readUInt32 ds x"

text \<open>
  \<open>malloc\<close> says whether the swapper can be allocated. A \<open>UBool\<close> is the byte the code keeps: it is
  only compared, so that a flag of a file that is neither 0 nor 1 stays what it is.
\<close>

definition udata_openSwapper ::
  "bool \<Rightarrow> u8 \<Rightarrow> u8 \<Rightarrow> u8 \<Rightarrow> u8 \<Rightarrow> UErrorCode \<Rightarrow> UDataSwapper option \<times> UErrorCode" where
  "udata_openSwapper malloc inBig inCs outBig outCs e =
     (if U_FAILURE e then (None, e)
      else if inCs > U_EBCDIC_FAMILY \<or> outCs > U_EBCDIC_FAMILY then (None, U_ILLEGAL_ARGUMENT_ERROR)
      else if \<not> malloc then (None, U_MEMORY_ALLOCATION_ERROR)
      else (Some
        \<lparr>inIsBigEndian = inBig, inCharset = inCs, outIsBigEndian = outBig, outCharset = outCs,
         readUInt16 = (if inBig = U_IS_BIG_ENDIAN then uprv_readDirectUInt16 else uprv_readSwapUInt16),
         readUInt32 = (if inBig = U_IS_BIG_ENDIAN then uprv_readDirectUInt32 else uprv_readSwapUInt32),
         compareInvChars = (if outCs = U_ASCII_FAMILY then uprv_compareInvAscii else uprv_compareInvEbcdic),
         writeUInt16 = (if outBig = U_IS_BIG_ENDIAN then uprv_writeDirectUInt16 else uprv_writeSwapUInt16),
         writeUInt32 = (if outBig = U_IS_BIG_ENDIAN then uprv_writeDirectUInt32 else uprv_writeSwapUInt32),
         swapArray16 = (if inBig = outBig then uprv_copyArray16 else uprv_swapArray16),
         swapArray32 = (if inBig = outBig then uprv_copyArray32 else uprv_swapArray32),
         swapArray64 = (if inBig = outBig then uprv_copyArray64 else uprv_swapArray64),
         swapInvChars =
           (if inCs = U_ASCII_FAMILY
            then (if outCs = U_ASCII_FAMILY then uprv_copyAscii else uprv_ebcdicFromAscii)
            else (if outCs = U_EBCDIC_FAMILY then uprv_copyEbcdic else uprv_asciiFromEbcdic))\<rparr>, e))"

section \<open>Blocks of strings\<close>

function last_nul :: "u8 list \<Rightarrow> int \<Rightarrow> int \<Rightarrow> int option" where
  "last_nul mem p n =
     (if n > 0 then do { c \<leftarrow> rd mem (p + n - 1); if c \<noteq> 0 then last_nul mem p (n - 1) else Some n }
      else Some n)"
  by pat_completeness auto
termination by (relation "measure (\<lambda>(mem, p, n). nat n)") auto

declare last_nul.simps [simp del]

definition udata_swapInvStringBlock ::
  "UDataSwapper option \<Rightarrow> u8 list \<Rightarrow> int option \<Rightarrow> int \<Rightarrow> int option \<Rightarrow> UErrorCode \<Rightarrow> swap_result" where
  "udata_swapInvStringBlock ds mem inData len outData e =
     (if U_FAILURE e then Some (mem, 0, e)
      else case (ds, inData) of
        (Some ds, Some p) \<Rightarrow>
          if len < 0 \<or> (len > 0 \<and> outData = None) then Some (mem, 0, U_ILLEGAL_ARGUMENT_ERROR)
          else do {
            stringsLength \<leftarrow> last_nul mem p len;
            (mem, n, e) \<leftarrow> swapInvChars ds True mem inData stringsLength outData e;
            mem \<leftarrow> (if inData \<noteq> outData \<and> len > stringsLength
                     then memcpy mem (the outData + stringsLength) (p + stringsLength) (len - stringsLength)
                     else Some mem);
            Some (mem, if U_SUCCESS e then len else 0, e) }
      | _ \<Rightarrow> Some (mem, 0, U_ILLEGAL_ARGUMENT_ERROR))"

section \<open>The data header\<close>

text \<open>
  \<open>DataHeader\<close> is 24 bytes: \<open>headerSize\<close> (2), \<open>magic1\<close>, \<open>magic2\<close>, and \<open>UDataInfo\<close> at offset 4 with
  \<open>size\<close> (2), \<open>reservedWord\<close> (2), \<open>isBigEndian\<close>, \<open>charsetFamily\<close>, \<open>sizeofUChar\<close> and the rest.
\<close>

definition sizeof_MappedData :: int where "sizeof_MappedData = 4"
definition sizeof_UDataInfo :: int where "sizeof_UDataInfo = 20"
definition sizeof_DataHeader :: int where "sizeof_DataHeader = 24"

text \<open>The length and magic tests; the bytes are only read when the length allows it.\<close>

definition not_icu_data :: "u8 list \<Rightarrow> int \<Rightarrow> int \<Rightarrow> bool option" where
  "not_icu_data mem p len =
     (if 0 \<le> len \<and> len < sizeof_DataHeader then Some True
      else do {
        magic1 \<leftarrow> rd mem (p + 2);
        if magic1 \<noteq> 0xda then Some True
        else do {
          magic2 \<leftarrow> rd mem (p + 3);
          if magic2 \<noteq> 0x27 then Some True
          else do {
            sizeofUChar \<leftarrow> rd mem (p + 10);
            Some (sizeofUChar \<noteq> 2) } } })"

definition bad_header_size :: "int \<Rightarrow> int \<Rightarrow> int \<Rightarrow> bool" where
  "bad_header_size headerSize infoSize len \<longleftrightarrow>
     headerSize < sizeof_DataHeader \<or> infoSize < sizeof_UDataInfo \<or>
     headerSize < sizeof_MappedData + infoSize \<or> (0 \<le> len \<and> len < headerSize)"

function copyright_length :: "u8 list \<Rightarrow> int \<Rightarrow> int \<Rightarrow> int \<Rightarrow> int option" where
  "copyright_length mem s n maxLength =
     (if n < maxLength
      then do { c \<leftarrow> rd mem (s + n); if c \<noteq> 0 then copyright_length mem s (n + 1) maxLength else Some n }
      else Some n)"
  by pat_completeness auto
termination by (relation "measure (\<lambda>(mem, s, n, m). nat (m - n))") auto

declare copyright_length.simps [simp del]

text \<open>The part for \<open>length>0\<close>; \<open>p\<close> and \<open>q\<close> are the addresses of the two headers.\<close>

definition swap_header_fields ::
  "UDataSwapper \<Rightarrow> u8 list \<Rightarrow> int \<Rightarrow> int \<Rightarrow> int \<Rightarrow> int \<Rightarrow> UErrorCode \<Rightarrow> (u8 list \<times> UErrorCode) option" where
  "swap_header_fields ds mem p q headerSize infoSize e = do {
     mem \<leftarrow> (if p \<noteq> q then memcpy mem q p headerSize else Some mem);
     mem \<leftarrow> wr mem (q + 8) (outIsBigEndian ds);
     mem \<leftarrow> wr mem (q + 9) (outCharset ds);
     (mem, _, e) \<leftarrow> swapArray16 ds True mem (Some p) 2 (Some q) e;
     (mem, _, e) \<leftarrow> swapArray16 ds True mem (Some (p + 4)) 4 (Some (q + 4)) e;
     let infoSize = (infoSize + sizeof_MappedData) mod 2 ^ 16;
     let maxLength = headerSize - infoSize;
     len \<leftarrow> copyright_length mem (p + infoSize) 0 maxLength;
     (mem, _, e) \<leftarrow> swapInvChars ds True mem (Some (p + infoSize)) len (Some (q + infoSize)) e;
     Some (mem, e) }"

definition udata_swapDataHeader ::
  "UDataSwapper option \<Rightarrow> u8 list \<Rightarrow> int option \<Rightarrow> int \<Rightarrow> int option \<Rightarrow> UErrorCode \<Rightarrow> swap_result" where
  "udata_swapDataHeader ds mem inData len outData e =
     (if U_FAILURE e then Some (mem, 0, e)
      else case (ds, inData) of
        (Some ds, Some p) \<Rightarrow>
          if len < -1 \<or> (len > 0 \<and> outData = None) then Some (mem, 0, U_ILLEGAL_ARGUMENT_ERROR)
          else do {
            bad \<leftarrow> not_icu_data mem p len;
            if bad then Some (mem, 0, U_UNSUPPORTED_ERROR)
            else do {
              h \<leftarrow> rd16 mem p;
              i \<leftarrow> rd16 mem (p + 4);
              let headerSize = uint (readUInt16 ds h);
              let infoSize = uint (readUInt16 ds i);
              if bad_header_size headerSize infoSize len then Some (mem, 0, U_INDEX_OUTOFBOUNDS_ERROR)
              else if len > 0 then do {
                (mem, e) \<leftarrow> swap_header_fields ds mem p (the outData) headerSize infoSize e;
                Some (mem, headerSize, e) }
              else Some (mem, headerSize, e) } }
      | _ \<Rightarrow> Some (mem, 0, U_ILLEGAL_ARGUMENT_ERROR))"

definition udata_openSwapperForInputData ::
  "bool \<Rightarrow> u8 list \<Rightarrow> int option \<Rightarrow> int \<Rightarrow> u8 \<Rightarrow> u8 \<Rightarrow> UErrorCode \<Rightarrow> (UDataSwapper option \<times> UErrorCode) option" where
  "udata_openSwapperForInputData malloc mem data len outBig outCs e =
     (if U_FAILURE e then Some (None, e)
      else case data of
        None \<Rightarrow> Some (None, U_ILLEGAL_ARGUMENT_ERROR)
      | Some p \<Rightarrow>
          if (0 \<le> len \<and> len < sizeof_DataHeader) \<or> outCs > U_EBCDIC_FAMILY
          then Some (None, U_ILLEGAL_ARGUMENT_ERROR)
          else do {
            bad \<leftarrow> not_icu_data mem p len;
            if bad then Some (None, U_UNSUPPORTED_ERROR)
            else do {
              inBig \<leftarrow> rd mem (p + 8);
              inCs \<leftarrow> rd mem (p + 9);
              h \<leftarrow> rd16 mem p;
              i \<leftarrow> rd16 mem (p + 4);
              let rdsize = (if inBig = U_IS_BIG_ENDIAN then (\<lambda>x. x) else uprv_readSwapUInt16);
              if bad_header_size (uint (rdsize h)) (uint (rdsize i)) len then Some (None, U_UNSUPPORTED_ERROR)
              else Some (udata_openSwapper malloc inBig inCs outBig outCs e) } })"

section \<open>Swapping reverses the bytes of every unit\<close>

lemma bit_255: "bit (255 :: int) n \<longleftrightarrow> n < 8"
  using bit_mask_iff [where 'a = int, of 8 n] by (simp add: mask_eq_exp_minus_1)

lemma bit_int_mask_bytes:
  "bit (0xff00 :: int) n \<longleftrightarrow> 8 \<le> n \<and> n < 16"
  "bit (0xff0000 :: int) n \<longleftrightarrow> 16 \<le> n \<and> n < 24"
  "bit (0xff000000 :: int) n \<longleftrightarrow> 24 \<le> n \<and> n < 32"
proof -
  have m: "(0xff00::int) = push_bit 8 (mask 8)" "(0xff0000::int) = push_bit 16 (mask 8)" "(0xff000000::int) = push_bit 24 (mask 8)"
    by (simp_all add: mask_eq_exp_minus_1 push_bit_eq_mult)
  show "bit (0xff00 :: int) n \<longleftrightarrow> 8 \<le> n \<and> n < 16" unfolding m by (auto simp: bit_simps)
  show "bit (0xff0000 :: int) n \<longleftrightarrow> 16 \<le> n \<and> n < 24" unfolding m by (auto simp: bit_simps)
  show "bit (0xff000000 :: int) n \<longleftrightarrow> 24 \<le> n \<and> n < 32" unfolding m by (auto simp: bit_simps)
qed

lemma bit_u8_high: "8 \<le> n \<Longrightarrow> \<not> bit (a :: u8) n"
  using bit_imp_le_length [of a n] by auto

lemma u8_eq_bits: "(a :: u8) = b \<longleftrightarrow> (\<forall>n < 8. bit a n = bit b n)"
proof
  assume "\<forall>n < 8. bit a n = bit b n"
  then show "a = b" by (intro bit_word_eqI) simp
qed simp

lemmas byte_bits = u8_eq_bits bit_simps bit_int_mask_bytes bit_255 bit_u8_high

lemma bytes16_swap: "bytes16 (push_bit 8 (join16 a b) OR drop_bit 8 (join16 a b)) = [b, a]"
  by (auto simp: bytes16_def join16_def byte_bits)

lemma bytes16_join16: "bytes16 (join16 a b) = [a, b]"
  by (auto simp: bytes16_def join16_def byte_bits)

lemma bytes32_swap:
  "bytes32 (push_bit 24 x OR (push_bit 8 x AND 0xff0000) OR (drop_bit 8 x AND 0xff00) OR drop_bit 24 x) = rev (bytes32 x)"
  by (auto simp: bytes32_def byte_bits)

lemma bytes32_join32: "bytes32 (join32 a b c d) = [a, b, c, d]"
  by (auto simp: bytes32_def join32_def byte_bits)

lemma bit_u64_high: "64 \<le> n \<Longrightarrow> \<not> bit (a :: 64 word) n"
  using bit_imp_le_length [of a n] by auto

lemma bit_swap64_iff:
  fixes x :: "64 word"
  shows "bit (push_bit k (x AND c)) n \<longleftrightarrow> n < 64 \<and> k \<le> n \<and> bit x (n - k) \<and> bit c (n - k)"
    "bit (drop_bit k x AND c) n \<longleftrightarrow> bit x (k + n) \<and> bit c n"
  by (auto simp: bit_simps)

lemma bit_swap64:
  assumes "i < 8"
  shows "bit (swap64 x) i = bit x (56 + i)"
   "bit (swap64 x) (8 + i) = bit x (48 + i)"
   "bit (swap64 x) (16 + i) = bit x (40 + i)"
   "bit (swap64 x) (24 + i) = bit x (32 + i)"
   "bit (swap64 x) (32 + i) = bit x (24 + i)"
   "bit (swap64 x) (40 + i) = bit x (16 + i)"
   "bit (swap64 x) (48 + i) = bit x (8 + i)"
   "bit (swap64 x) (56 + i) = bit x i"
  using assms unfolding swap64_def bit_or_iff bit_swap64_iff
  by (simp_all add: bit_push_bit_iff bit_drop_bit_eq bit_numeral_word_iff bit_int_mask_bytes bit_255 bit_u64_high)

lemma bytes64_list:
  "bytes64 x = [ucast x, ucast (drop_bit 8 x), ucast (drop_bit 16 x), ucast (drop_bit 24 x),
     ucast (drop_bit 32 x), ucast (drop_bit 40 x), ucast (drop_bit 48 x), ucast (drop_bit 56 x)]"
  by (simp add: bytes64_def upt_rec)

lemma ucast_drop_bit_eq_iff:
  fixes x :: "64 word"
  shows "ucast (drop_bit k x) = (b :: u8) \<longleftrightarrow> (\<forall>n < 8. bit x (k + n) = bit b n)"
    "ucast x = (b :: u8) \<longleftrightarrow> (\<forall>n < 8. bit x n = bit b n)"
  by (auto simp: u8_eq_bits bit_simps)

lemma bit_ucast_u64: "bit (ucast (y :: 64 word) :: u8) n \<longleftrightarrow> n < 8 \<and> bit y n"
  by (simp add: bit_simps)

lemma bytes64_swap: "bytes64 (swap64 x) = rev (bytes64 x)"
  unfolding bytes64_list by (simp add: ucast_drop_bit_eq_iff bit_swap64 bit_ucast_u64 bit_drop_bit_eq)

lemma join64_list:
  "join64 [a, b, c, d, e, f, g, h] = ucast a OR push_bit 8 (ucast b) OR push_bit 16 (ucast c) OR
      push_bit 24 (ucast d) OR push_bit 32 (ucast e) OR push_bit 40 (ucast f) OR push_bit 48 (ucast g) OR push_bit 56 (ucast h)"
  by (simp add: join64_def upt_rec or.assoc)

lemma bit_ucast_u8: "bit (ucast (a :: u8) :: 64 word) n \<longleftrightarrow> n < 8 \<and> bit a n"
  using bit_u8_high [of n a] by (cases "n < 8") (auto simp: bit_simps)

lemma bytes64_join64: "bytes64 (join64 [a, b, c, d, e, f, g, h]) = [a, b, c, d, e, f, g, h]"
  unfolding bytes64_list join64_list
  by (simp add: ucast_drop_bit_eq_iff bit_or_iff bit_push_bit_iff bit_ucast_u8 bit_drop_bit_eq comp_def)

fun swap_units :: "nat \<Rightarrow> u8 list \<Rightarrow> int \<Rightarrow> int \<Rightarrow> nat \<Rightarrow> u8 list option" where
  "swap_units w mem p q 0 = Some mem"
| "swap_units w mem p q (Suc n) = do {
     bs \<leftarrow> rd_block mem p (int w);
     mem \<leftarrow> wr_block mem q (rev bs);
     swap_units w mem (p + int w) (q + int w) n }"

text \<open>The bytes of each of \<open>n\<close> units of \<open>w\<close> bytes in reverse order.\<close>

fun rev_units :: "nat \<Rightarrow> nat \<Rightarrow> 'a list \<Rightarrow> 'a list" where
  "rev_units w 0 xs = []"
| "rev_units w (Suc n) xs = rev (take w xs) @ rev_units w n (drop w xs)"

lemma rev_units_length: "length xs = w * n \<Longrightarrow> length (rev_units w n xs) = w * n"
  by (induction n arbitrary: xs) auto

lemma rev_units_rev_units: "length xs = w * n \<Longrightarrow> rev_units w n (rev_units w n xs) = xs"
  by (induction n arbitrary: xs) auto

lemma rd_block_length: "rd_block mem a n = Some bs \<Longrightarrow> 0 \<le> n \<Longrightarrow> length bs = nat n"
  by (auto simp: rd_block_def length_seg split: if_splits)

lemma length_2E: "length xs = 2 \<Longrightarrow> (\<And>a b. xs = [a, b] \<Longrightarrow> P) \<Longrightarrow> P"
  by (auto simp: length_Suc_conv numeral_2_eq_2)

lemma length_4E: "length xs = 4 \<Longrightarrow> (\<And>a b c d. xs = [a, b, c, d] \<Longrightarrow> P) \<Longrightarrow> P"
  by (auto simp: length_Suc_conv numeral_eq_Suc)

lemma length_8E: "length xs = 8 \<Longrightarrow> (\<And>a b c d e f g h. xs = [a, b, c, d, e, f, g, h] \<Longrightarrow> P) \<Longrightarrow> P"
  by (auto simp: length_Suc_conv numeral_eq_Suc)

lemma swap16_loop_units: "swap16_loop mem p q n = swap_units 2 mem p q n"
proof (induction n arbitrary: mem p q)
  case (Suc n)
  have "bytes16 (push_bit 8 (join16 (b ! 0) (b ! 1)) OR drop_bit 8 (join16 (b ! 0) (b ! 1))) = rev b"
    if "rd_block mem p 2 = Some b" for b
    using rd_block_length [OF that] by (auto elim!: length_2E simp: bytes16_swap)
  then show ?case using Suc.IH by (cases "rd_block mem p 2") (auto simp: rd16_def)
qed simp

lemma swap32_loop_units: "swap32_loop mem p q n = swap_units 4 mem p q n"
proof (induction n arbitrary: mem p q)
  case (Suc n)
  have "rev (bytes32 (join32 (b ! 0) (b ! 1) (b ! 2) (b ! 3))) = rev b"
    if "rd_block mem p 4 = Some b" for b
    using rd_block_length [OF that] by (auto elim!: length_4E simp: bytes32_join32)
  then show ?case using Suc.IH by (cases "rd_block mem p 4") (auto simp: rd32_def bytes32_swap)
qed simp

lemma swap64_loop_units: "swap64_loop mem p q n = swap_units 8 mem p q n"
proof (induction n arbitrary: mem p q)
  case (Suc n)
  have "rev (bytes64 (join64 b)) = rev b" if "rd_block mem p 8 = Some b" for b
    using rd_block_length [OF that] by (auto elim!: length_8E simp: bytes64_join64)
  then show ?case using Suc.IH by (cases "rd_block mem p 8") (auto simp: rd64_def bytes64_swap)
qed simp

lemma overwrite_append:
  assumes "0 \<le> i" "i + int (length a) + int (length b) \<le> int (length s)"
  shows "overwrite s i (a @ b) = overwrite (overwrite s i a) (i + int (length a)) b"
proof -
  have "nat (i + int (length a)) = nat i + length a" using assms by simp
  then show ?thesis using assms by (simp add: overwrite_def add_ac)
qed

lemma seg_split: "0 \<le> i \<Longrightarrow> i \<le> j \<Longrightarrow> j \<le> k \<Longrightarrow> seg s i k = seg s i j @ seg s j k"
proof -
  assume *: "0 \<le> i" "i \<le> j" "j \<le> k"
  then have "nat (k - i) = nat (j - i) + nat (k - j)" "nat j = nat (j - i) + nat i" by simp_all
  then show "seg s i k = seg s i j @ seg s j k" by (simp add: seg_def take_add)
qed

lemma seg_overwrite_outside:
  assumes "0 \<le> q" "0 \<le> i" "q + int (length t) \<le> int (length s)" "q + int (length t) \<le> i \<or> j \<le> q"
  shows "seg (overwrite s q t) i j = seg s i j"
proof (cases "j \<le> q")
  case True
  then have "nat (j - i) \<le> nat q - nat i" "nat q \<le> length s" using assms by auto
  then show ?thesis using assms by (simp add: seg_def overwrite_def drop_take)
next
  case False
  then have "nat q + length t \<le> nat i" using assms by linarith
  then show ?thesis using assms by (simp add: seg_def overwrite_def)
qed

lemma swap_units_eq:
  assumes "0 \<le> p" "0 \<le> q" "p + int (w * n) \<le> int (length mem)" "q + int (w * n) \<le> int (length mem)"
    and "q \<le> p \<or> p + int (w * n) \<le> q"
  shows "swap_units w mem p q n = Some (overwrite mem q (rev_units w n (seg mem p (p + int (w * n)))))"
  using assms
proof (induction n arbitrary: mem p q)
  case (Suc n)
  define k where "k = int (w * n)"
  let ?b = "seg mem p (p + int w)" and ?m = "overwrite mem q (rev (seg mem p (p + int w)))"
  let ?r = "seg mem (p + int w) (p + int w + k)"
  have wn: "int (w * Suc n) = int w + k" by (simp add: k_def)
  have "0 \<le> k" by (simp add: k_def)
  note pr = Suc.prems [unfolded wn] this
  have lb: "length ?b = w" using pr by (subst length_seg) auto
  have lm: "length ?m = length mem" using pr lb by (intro overwrite_length) auto
  have r: "seg ?m (p + int w) (p + int w + k) = ?r"
    using pr lb by (intro seg_overwrite_outside) auto
  have "length ?r = nat k" using pr by (subst length_seg) auto
  then have lr: "length (rev_units w n ?r) = nat k"
    using rev_units_length [of ?r w n] by (simp add: k_def nat_mult_distrib)
  have "swap_units w ?m (p + int w) (q + int w) n = Some (overwrite ?m (q + int w) (rev_units w n ?r))"
    unfolding r [symmetric] unfolding k_def using pr lm by (intro Suc.IH) (auto simp: k_def)
  also have "overwrite ?m (q + int w) (rev_units w n ?r) = overwrite mem q (rev ?b @ rev_units w n ?r)"
    using pr lb lr overwrite_append [of q "rev ?b" "rev_units w n ?r" mem] by auto
  also have "rev ?b @ rev_units w n ?r = rev_units w (Suc n) (?b @ ?r)" using lb by simp
  also have "?b @ ?r = seg mem p (p + int (w * Suc n))"
    unfolding wn using pr seg_split [of p "p + int w" "p + int w + k" mem] by (simp add: add.assoc)
  finally have "swap_units w ?m (p + int w) (q + int w) n = Some (overwrite mem q (rev_units w (Suc n) (seg mem p (p + int (w * Suc n)))))" .
  then show ?case using pr lb by (simp add: rd_block_def wr_block_def del: rev_units.simps)
qed simp

definition swap_array :: "nat \<Rightarrow> swap_fn" where
  "swap_array w = (if w = 2 then uprv_swapArray16 else if w = 4 then uprv_swapArray32 else uprv_swapArray64)"

lemma swap_array_units:
  assumes "w \<in> {2, 4, 8}" "len mod int w = 0" "0 \<le> len" "\<not> U_FAILURE e"
  shows "swap_array w True mem (Some p) len (Some q) e =
    map_option (\<lambda>mem. (mem, len, e)) (swap_units w mem p q (nat (len div int w)))"
proof -
  have b: "do { m \<leftarrow> x; Some (m, len, e) } = map_option (\<lambda>m. (m, len, e)) x" for x :: "u8 list option"
    by (cases x) auto
  consider "w = 2" | "w = 4" | "w = 8" using assms(1) by auto
  then show ?thesis
  proof cases
    case 1
    then show ?thesis using assms(2-)
      by (simp add: swap_array_def uprv_swapArray16_def array_args_def int_and_lows swap16_loop_units b)
  next
    case 2
    then show ?thesis using assms(2-)
      by (simp add: swap_array_def uprv_swapArray32_def array_args_def int_and_lows swap32_loop_units b)
  next
    case 3
    then show ?thesis using assms(2-)
      by (simp add: swap_array_def uprv_swapArray64_def array_args_def int_and_lows swap64_loop_units b)
  qed
qed

section \<open>The contract of the swapping functions\<close>

text \<open>\<open>mem'\<close> differs from \<open>mem\<close> only at the addresses from \<open>a\<close> up to \<open>b\<close>.\<close>

definition writes_within :: "'a list \<Rightarrow> 'a list \<Rightarrow> int \<Rightarrow> int \<Rightarrow> bool" where
  "writes_within mem mem' a b \<longleftrightarrow>
     length mem' = length mem \<and> (\<forall>i < length mem. int i < a \<or> b \<le> int i \<longrightarrow> mem' ! i = mem ! i)"

lemma writes_within_refl [simp]: "writes_within mem mem a b"
  by (simp add: writes_within_def)

lemma writes_within_trans:
  "writes_within m1 m2 a b \<Longrightarrow> writes_within m2 m3 a b \<Longrightarrow> writes_within m1 m3 a b"
  by (simp add: writes_within_def)

lemma writes_within_mono:
  "writes_within m1 m2 a b \<Longrightarrow> a' \<le> a \<Longrightarrow> b \<le> b' \<Longrightarrow> writes_within m1 m2 a' b'"
  by (fastforce simp: writes_within_def)

lemma writes_within_overwrite:
  "0 \<le> q \<Longrightarrow> q + int (length t) \<le> int (length mem) \<Longrightarrow> writes_within mem (overwrite mem q t) q (q + int (length t))"
  by (auto simp: writes_within_def overwrite_def nth_append)

lemma writes_within_update:
  "a \<le> q \<Longrightarrow> 0 \<le> q \<Longrightarrow> q < b \<Longrightarrow> writes_within mem (mem[nat q := x]) a b"
  by (auto simp: writes_within_def nth_list_update)

definition swap_regions :: "'a list \<Rightarrow> int \<Rightarrow> int \<Rightarrow> int \<Rightarrow> bool" where
  "swap_regions mem p len q \<longleftrightarrow>
     0 \<le> p \<and> 0 \<le> q \<and> 0 \<le> len \<and> p + len \<le> int (length mem) \<and> q + len \<le> int (length mem) \<and>
     (p = q \<or> p + len \<le> q \<or> q + len \<le> p)"

definition swap_contract :: "int \<Rightarrow> swap_fn \<Rightarrow> bool" where
  "swap_contract w f \<longleftrightarrow>
     (\<forall>mem p len q e. swap_regions mem p len q \<longrightarrow> len mod w = 0 \<longrightarrow>
       (\<exists>mem' n e'. f True mem (Some p) len (Some q) e = Some (mem', n, e') \<and> writes_within mem mem' q (q + len)))"

lemma memcpy_within:
  assumes "swap_regions mem p len q" "p \<noteq> q" "0 < len"
  shows "memcpy mem q p len = Some (overwrite mem q (seg mem p (p + len)))"
    "writes_within mem (overwrite mem q (seg mem p (p + len))) q (q + len)"
proof -
  show "memcpy mem q p len = Some (overwrite mem q (seg mem p (p + len)))"
    using assms by (auto simp: memcpy_def swap_regions_def)
  show "writes_within mem (overwrite mem q (seg mem p (p + len))) q (q + len)"
    using assms writes_within_overwrite [of q "seg mem p (p + len)" mem]
    by (auto simp: swap_regions_def length_seg)
qed

lemma swap_array_contract: "w \<in> {2, 4, 8} \<Longrightarrow> swap_contract (int w) (swap_array w)"
  unfolding swap_contract_def
proof (intro allI impI)
  fix mem :: "u8 list" and p len q e
  assume w: "w \<in> {2, 4, 8}" and r: "swap_regions mem p len q" and d: "len mod int w = 0"
  show "\<exists>mem' n e'. swap_array w True mem (Some p) len (Some q) e = Some (mem', n, e') \<and> writes_within mem mem' q (q + len)"
  proof (cases "U_FAILURE e")
    case True
    then show ?thesis
      by (simp add: swap_array_def uprv_swapArray16_def uprv_swapArray32_def uprv_swapArray64_def array_args_def)
  next
    case False
    let ?n = "nat (len div int w)" and ?u = "rev_units w (nat (len div int w)) (seg mem p (p + len))"
    have n: "int (w * ?n) = len" using w r d by (auto simp: swap_regions_def)
    have "length (seg mem p (p + len)) = nat len" using r by (simp add: swap_regions_def length_seg)
    also have "nat len = w * ?n" using n by (metis nat_int)
    finally have l: "length ?u = w * ?n" by (rule rev_units_length)
    have "swap_units w mem p q ?n = Some (overwrite mem q ?u)"
      using swap_units_eq [of p q w ?n mem] r unfolding n by (auto simp: swap_regions_def)
    then have "swap_array w True mem (Some p) len (Some q) e = Some (overwrite mem q ?u, len, e)"
      using swap_array_units [OF w d] r False by (simp add: swap_regions_def)
    moreover have "writes_within mem (overwrite mem q ?u) q (q + len)"
      using writes_within_overwrite [of q ?u mem] r l n by (simp add: swap_regions_def)
    ultimately show ?thesis by blast
  qed
qed

lemma copy_array_contract: "swap_contract 1 (copy_array msk)"
  unfolding swap_contract_def
proof (intro allI impI)
  fix mem :: "u8 list" and p len q e
  assume r: "swap_regions mem p len q"
  show "\<exists>mem' n e'. copy_array msk True mem (Some p) len (Some q) e = Some (mem', n, e') \<and> writes_within mem mem' q (q + len)"
    using memcpy_within [OF r] by (simp add: copy_array_def array_args_def)
qed

lemma convert_loop_within:
  assumes "0 \<le> s" "0 \<le> t" "s + int n \<le> int (length mem)" "t + int n \<le> int (length mem)"
  shows "\<exists>mem' good. convert_loop conv mem s t n = Some (mem', good) \<and> writes_within mem mem' t (t + int n)"
  using assms
proof (induction n arbitrary: mem s t)
  case (Suc n)
  show ?case
  proof (cases "conv (mem ! nat s)")
    case None
    then have "convert_loop conv mem s t (Suc n) = Some (mem, False)" using Suc.prems by simp
    then show ?thesis using writes_within_refl by blast
  next
    case (Some d)
    let ?m = "mem[nat t := d]"
    obtain mem' good where m: "convert_loop conv ?m (s + 1) (t + 1) n = Some (mem', good)"
        "writes_within ?m mem' (t + 1) (t + 1 + int n)"
      using Suc.IH [of "s + 1" "t + 1" ?m] Suc.prems by auto
    have "writes_within mem mem' t (t + int (Suc n))"
      using writes_within_update [of t t "t + int (Suc n)" mem d] Suc.prems
        writes_within_mono [OF m(2), of t "t + int (Suc n)"] writes_within_trans by force
    then show ?thesis using Suc.prems Some m by simp
  qed
qed (use writes_within_refl in auto)

lemma check_loop_total:
  "0 \<le> s \<Longrightarrow> s + int n \<le> int (length mem) \<Longrightarrow> \<exists>b. check_loop conv mem s n = Some b"
  by (induction n arbitrary: s) auto

lemma convert_swap_contract: "swap_contract 1 (convert_swap conv)"
  unfolding swap_contract_def
proof (intro allI impI)
  fix mem :: "u8 list" and p len q e
  assume r: "swap_regions mem p len q"
  have "\<exists>mem' good. convert_loop conv mem p q (nat len) = Some (mem', good) \<and> writes_within mem mem' q (q + len)"
    using convert_loop_within [of p q "nat len" mem conv] r by (simp add: swap_regions_def)
  then show "\<exists>mem' n e'. convert_swap conv True mem (Some p) len (Some q) e = Some (mem', n, e') \<and> writes_within mem mem' q (q + len)"
    by (auto simp: convert_swap_def inv_args_def)
qed

lemma copy_swap_contract: "swap_contract 1 (copy_swap conv)"
  unfolding swap_contract_def
proof (intro allI impI)
  fix mem :: "u8 list" and p len q e
  assume r: "swap_regions mem p len q"
  obtain b where "check_loop conv mem p (nat len) = Some b"
    using check_loop_total [of p "nat len" mem conv] r by (auto simp: swap_regions_def)
  then show "\<exists>mem' n e'. copy_swap conv True mem (Some p) len (Some q) e = Some (mem', n, e') \<and> writes_within mem mem' q (q + len)"
    using memcpy_within [OF r] by (simp add: copy_swap_def inv_args_def)
qed

lemma swap_contract_1: "swap_contract 1 f \<Longrightarrow> swap_contract w f"
  by (simp add: swap_contract_def)

text \<open>
  What the header code relies on: the functions of a swapper stay inside their blocks, and read
  nothing outside.
\<close>

locale data_swapper =
  fixes ds :: UDataSwapper
  assumes sw16: "swap_contract 2 (swapArray16 ds)"
    and swInv: "swap_contract 1 (swapInvChars ds)"
begin

lemma sw16_step:
  assumes "swap_regions mem p len q" "len mod 2 = 0"
  obtains mem' n e' where "swapArray16 ds True mem (Some p) len (Some q) e = Some (mem', n, e')"
    "writes_within mem mem' q (q + len)"
  using assms sw16 that unfolding swap_contract_def by metis

lemma swInv_step:
  assumes "swap_regions mem p len q"
  obtains mem' n e' where "swapInvChars ds True mem (Some p) len (Some q) e = Some (mem', n, e')"
    "writes_within mem mem' q (q + len)"
  using assms swInv that unfolding swap_contract_def by (metis mod_by_1)

lemma swap_header_fields_frame:
  assumes r: "swap_regions mem p h q" and h: "h \<le> 0xffff" "20 \<le> i" "4 + i \<le> h"
  shows "\<exists>mem' e'. swap_header_fields ds mem p q h i e = Some (mem', e') \<and> writes_within mem mem' q (q + h)"
proof -
  note R = swap_regions_def
  obtain m1 where m1: "(if p \<noteq> q then memcpy mem q p h else Some mem) = Some m1" "writes_within mem m1 q (q + h)"
    using memcpy_within [OF r] h by (cases "p = q") auto
  have l1: "length m1 = length mem" using m1(2) by (simp add: writes_within_def)
  let ?m2 = "m1[nat (q + 8) := outIsBigEndian ds]"
  let ?m3 = "?m2[nat (q + 9) := outCharset ds]"
  have w3: "writes_within m1 ?m3 q (q + h)"
    using r h by (intro writes_within_trans [OF writes_within_update writes_within_update]) (auto simp: R)
  have "swap_regions ?m3 p 2 q" using r h l1 by (auto simp: R)
  from sw16_step [OF this, of e] obtain m4 n4 e4
    where m4: "swapArray16 ds True ?m3 (Some p) 2 (Some q) e = Some (m4, n4, e4)" "writes_within ?m3 m4 q (q + 2)"
    by auto
  have l4: "length m4 = length mem" using m4(2) l1 by (simp add: writes_within_def)
  have "swap_regions m4 (p + 4) 4 (q + 4)" using r h l4 by (auto simp: R)
  from sw16_step [OF this, of e4] obtain m5 n5 e5
    where m5: "swapArray16 ds True m4 (Some (p + 4)) 4 (Some (q + 4)) e4 = Some (m5, n5, e5)" "writes_within m4 m5 (q + 4) (q + 4 + 4)"
    by auto
  have l5: "length m5 = length mem" using m5(2) l4 by (simp add: writes_within_def)
  have i: "(i + sizeof_MappedData) mod 65536 = i + 4" using h by (simp add: sizeof_MappedData_def)
  have cl: "\<exists>k. copyright_length m5 s n k' = Some k \<and> n \<le> k \<and> k \<le> k'"
    if "0 \<le> s + n" "s + k' \<le> int (length m5)" "n \<le> k'" for s n k'
    using that
  proof (induction m5 s n k' rule: copyright_length.induct)
    case (1 mm s n k')
    show ?case
      using 1 by (subst copyright_length.simps) (force simp: )
  qed
  obtain k where k: "copyright_length m5 (p + (i + 4)) 0 (h - (i + 4)) = Some k" "0 \<le> k" "k \<le> h - (i + 4)"
    using cl [of "p + (i + 4)" 0 "h - (i + 4)"] r h l5 by (auto simp: R)
  have "swap_regions m5 (p + (i + 4)) k (q + (i + 4))" using r h l5 k by (auto simp: R)
  from swInv_step [OF this, of e5] obtain m6 n6 e6
    where m6: "swapInvChars ds True m5 (Some (p + (i + 4))) k (Some (q + (i + 4))) e5 = Some (m6, n6, e6)"
      "writes_within m5 m6 (q + (i + 4)) (q + (i + 4) + k)"
    by auto
  have "writes_within mem m6 q (q + h)"
    using writes_within_trans [OF writes_within_trans [OF m1(2) w3] writes_within_trans [OF
        writes_within_mono [OF m4(2), of q "q + h"] writes_within_trans [OF
        writes_within_mono [OF m5(2), of q "q + h"] writes_within_mono [OF m6(2), of q "q + h"]]]] h k
    by simp
  moreover have "swap_header_fields ds mem p q h i e = Some (m6, e6)"
    using m1(1) m4(1) m5(1) m6(1) k(1) r h l1 by (simp add: swap_header_fields_def i R Let_def)
  ultimately show ?thesis by blast
qed

end

lemma uprv_swapArray_table:
  "uprv_swapArray16 = swap_array 2" "uprv_swapArray32 = swap_array 4" "uprv_swapArray64 = swap_array 8"
  by (simp_all add: swap_array_def)

lemmas swap_contracts =
  swap_array_contract [of 2] swap_contract_1 [OF copy_array_contract]
  convert_swap_contract copy_swap_contract

lemma udata_openSwapper_contract:
  assumes "udata_openSwapper malloc inBig inCs outBig outCs e = (Some ds, e')"
  shows "data_swapper ds"
proof -
  have "swap_contract 2 (swap_array 2)" using swap_array_contract [of 2] by simp
  then show ?thesis
    using assms swap_contract_1 [OF copy_array_contract] convert_swap_contract copy_swap_contract
    by (auto simp: udata_openSwapper_def uprv_swapArray_table uprv_copyArray16_def uprv_copyAscii_def
        uprv_ebcdicFromAscii_def uprv_copyEbcdic_def uprv_asciiFromEbcdic_def split: if_splits intro!: data_swapper.intro)
qed

text \<open>The swapper from big-endian EBCDIC to little-endian ASCII data.\<close>

definition be_ebcdic_to_le_ascii :: UDataSwapper where
  "be_ebcdic_to_le_ascii = the (fst (udata_openSwapper True 1 1 0 0 U_ZERO_ERROR))"

interpretation be: data_swapper be_ebcdic_to_le_ascii
proof -
  have "udata_openSwapper True 1 1 0 0 U_ZERO_ERROR = (Some be_ebcdic_to_le_ascii, U_ZERO_ERROR)"
    by (simp add: be_ebcdic_to_le_ascii_def udata_openSwapper_def U_EBCDIC_FAMILY_def)
  then show "data_swapper be_ebcdic_to_le_ascii" by (rule udata_openSwapper_contract)
qed

text \<open>An integer of little-endian bytes \<open>u\<close> as data of the given byte order holds it.\<close>

definition in_order :: "u8 \<Rightarrow> u8 list \<Rightarrow> u8 list" where
  "in_order big u = (if big = U_IS_BIG_ENDIAN then u else rev u)"

lemma rev_units_concat:
  "\<forall>u \<in> set us. length u = w \<Longrightarrow> rev_units w (length us) (concat us) = concat (map rev us)"
  by (induction us) auto

lemma length_concat_units: "\<forall>u \<in> set us. length u = w \<Longrightarrow> length (concat us) = w * length us"
  by (induction us) auto

lemma copy_array_eq:
  assumes "swap_regions mem p len q" "len AND msk = 0" "\<not> U_FAILURE e"
  shows "copy_array msk True mem (Some p) len (Some q) e = Some (overwrite mem q (seg mem p (p + len)), len, e)"
proof (cases "p = q \<or> len = 0")
  case True
  then have "overwrite mem q (seg mem p (p + len)) = mem"
    using assms seg_map_overwrite_same [of p "p + len" mem] by (auto simp: swap_regions_def)
  then show ?thesis using True assms by (auto simp: copy_array_def array_args_def swap_regions_def)
next
  case False
  then have "0 < len" "p \<noteq> q" using assms by (auto simp: swap_regions_def)
  then show ?thesis using memcpy_within [OF assms(1)] assms by (simp add: copy_array_def array_args_def)
qed

text \<open>The array function of a swapper for units of \<open>w\<close> bytes.\<close>

definition ds_array :: "nat \<Rightarrow> UDataSwapper \<Rightarrow> swap_fn" where
  "ds_array w ds = (if w = 2 then swapArray16 ds else if w = 4 then swapArray32 ds else swapArray64 ds)"

lemma ds_array_open:
  assumes "udata_openSwapper malloc inBig inCs outBig outCs e = (Some ds, e')" "w \<in> {2, 4, 8}"
  shows "ds_array w ds = (if inBig = outBig then copy_array (int w - 1) else swap_array w)"
  using assms
  by (auto simp: udata_openSwapper_def ds_array_def swap_array_def uprv_copyArray16_def uprv_copyArray32_def
      uprv_copyArray64_def split: if_splits)

text \<open>
  The array functions of a swapper convert every integer of the block from the byte order of
  the input to the byte order of the output, for 16, 32 and 64 bits, in place or from one block to
  another, and write nothing else.
\<close>
lemma udata_openSwapper_arrays:
  assumes "udata_openSwapper malloc inBig inCs outBig outCs e = (Some ds, e)"
    and "w \<in> {2, 4, 8}" "inBig \<in> {0, 1}" "outBig \<in> {0, 1}" "\<not> U_FAILURE e"
    and "\<forall>u \<in> set us. length u = w" "len = int (w * length us)"
    and "0 \<le> p" "0 \<le> q" "p + len \<le> int (length mem)" "q + len \<le> int (length mem)"
    and "p = q \<or> p + len \<le> q \<or> q + len \<le> p"
    and "seg mem p (p + len) = concat (map (in_order inBig) us)"
  shows "ds_array w ds True mem (Some p) len (Some q) e =
    Some (overwrite mem q (concat (map (in_order outBig) us)), len, e)"
proof (cases "inBig = outBig")
  case True
  have r: "swap_regions mem p len q" using assms(7-12) by (simp add: swap_regions_def)
  have "len AND (int w - 1) = len mod int w" using assms(2) by (auto simp: int_and_lows)
  then have "len AND (int w - 1) = 0" using assms(7) by simp
  from copy_array_eq [OF r this assms(5)] show ?thesis
    using ds_array_open [OF assms(1,2)] True assms(13) by simp
next
  case False
  have d: "len mod int w = 0" "0 \<le> len" "len div int w = int (length us)" using assms(2,7) by auto
  have "rev_units w (length us) (concat (map (in_order inBig) us)) = concat (map rev (map (in_order inBig) us))"
    using rev_units_concat [of "map (in_order inBig) us" w] assms(6) by (simp add: in_order_def)
  also have "map rev (map (in_order inBig) us) = map (in_order outBig) us"
    using False assms(3,4) by (auto simp: in_order_def U_IS_BIG_ENDIAN_def)
  finally have c: "rev_units w (length us) (seg mem p (p + len)) = concat (map (in_order outBig) us)"
    using assms(13) by simp
  have "swap_units w mem p q (length us) = Some (overwrite mem q (rev_units w (length us) (seg mem p (p + len))))"
  proof (cases "q \<le> p \<or> p + len \<le> q")
    case True
    then show ?thesis using swap_units_eq [of p q w "length us" mem] assms(7-12) by simp
  qed (use assms(12) d in auto)
  then show ?thesis
    using ds_array_open [OF assms(1,2)] swap_array_units [OF assms(2) d(1,2) assms(5), of mem p q] False c d(3) by simp
qed

lemma udata_openSwapper_arrays_witness:
  "\<exists>ds. udata_openSwapper True 1 0 0 0 U_ZERO_ERROR = (Some ds, U_ZERO_ERROR) \<and>
    ds_array 2 ds True [1, 2, 3, 4, 9] (Some 0) 4 (Some 0) U_ZERO_ERROR = Some ([2, 1, 4, 3, 9], 4, U_ZERO_ERROR)"
proof -
  obtain ds where o: "udata_openSwapper True 1 0 0 0 U_ZERO_ERROR = (Some ds, U_ZERO_ERROR)"
    by (simp add: udata_openSwapper_def U_EBCDIC_FAMILY_def)
  have "seg [1, 2, 3, 4, 9 :: u8] 0 (0 + 4) = concat (map (in_order 1) [[2, 1], [4, 3]])"
    by (simp add: seg_def in_order_def U_IS_BIG_ENDIAN_def)
  from udata_openSwapper_arrays [OF o, of 2 "[[2, 1], [4, 3]]" 4 0 0 "[1, 2, 3, 4, 9]", OF _ _ _ _ _ _ _ _ _ _ _ this] o
  show ?thesis by (auto simp: overwrite_def in_order_def U_IS_BIG_ENDIAN_def)
qed

lemma not_icu_data_total:
  assumes "0 \<le> p" "0 \<le> len" "p + len \<le> int (length mem)"
  obtains b where "not_icu_data mem p len = Some b" "b \<or> 24 \<le> len"
proof (cases "len < 24")
  case True
  then show ?thesis using that [of True] assms by (simp add: not_icu_data_def sizeof_DataHeader_def)
next
  case False
  have "\<exists>b. not_icu_data mem p len = Some b" using assms False by (auto simp: not_icu_data_def sizeof_DataHeader_def)
  then show ?thesis using that False by auto
qed

text \<open>
  C29: \<open>udata_swapDataHeader\<close> reads and writes nothing outside the two blocks, whatever the bytes of the
  input are. The size that it returns is 0, with an error, or the size of the header, which is at
  least 24 and at most the length, and only that many bytes of the output change.
\<close>
theorem udata_swapDataHeader_safe:
  assumes "udata_openSwapper malloc inBig inCs outBig outCs e0 = (Some ds, e1)" "\<not> U_FAILURE e"
    and "0 \<le> p" "0 \<le> q" "0 \<le> len" "p + len \<le> int (length mem)" "q + len \<le> int (length mem)"
    and "p = q \<or> p + len \<le> q \<or> q + len \<le> p"
  shows "\<exists>mem' n e'. udata_swapDataHeader (Some ds) mem (Some p) len (Some q) e = Some (mem', n, e') \<and>
    (n = 0 \<and> U_FAILURE e' \<or> 24 \<le> n \<and> n \<le> len) \<and>
    length mem' = length mem \<and> (\<forall>i < length mem. int i < q \<or> q + n \<le> int i \<longrightarrow> mem' ! i = mem ! i)"
proof -
  obtain b where b: "not_icu_data mem p len = Some b" "b \<or> 24 \<le> len"
    using not_icu_data_total [of p len mem] assms by auto
  show ?thesis
  proof (cases b)
    case True
    then show ?thesis using b assms by (simp add: udata_swapDataHeader_def)
  next
    case False
    obtain h i where hi: "rd16 mem p = Some h" "rd16 mem (p + 4) = Some i"
      using assms b False by (simp add: rd16_def rd_block_def)
    define H I where "H = uint (readUInt16 ds h)" and "I = uint (readUInt16 ds i)"
    have HI: "0 \<le> H" "H \<le> 0xffff" using uint_u16_bounds [of "readUInt16 ds h"] by (simp_all add: H_def)
    show ?thesis
    proof (cases "bad_header_size H I len")
      case True
      then show ?thesis using b False hi assms by (simp add: udata_swapDataHeader_def H_def I_def Let_def)
    next
      case ok: False
      then have ok': "24 \<le> H" "20 \<le> I" "4 + I \<le> H" "H \<le> len"
        using assms by (auto simp: bad_header_size_def sizeof_DataHeader_def sizeof_UDataInfo_def sizeof_MappedData_def)
      have "swap_regions mem p H q" using assms ok' by (auto simp: swap_regions_def)
      from data_swapper.swap_header_fields_frame [OF udata_openSwapper_contract [OF assms(1)] this HI(2) ok'(2,3)]
      obtain mem' e' where m: "swap_header_fields ds mem p q H I e = Some (mem', e')" "writes_within mem mem' q (q + H)"
        by blast
      have "udata_swapDataHeader (Some ds) mem (Some p) len (Some q) e = Some (mem', H, e')"
        using m(1) b False hi assms ok ok' by (simp add: udata_swapDataHeader_def H_def I_def Let_def)
      then show ?thesis using m(2) ok' by (auto simp: writes_within_def)
    qed
  qed
qed

definition sample_header :: "u8 list" where
  "sample_header = [0, 32, 0xda, 0x27, 0, 20, 0, 0, 1, 0, 2, 0, 0x55, 0x43, 0x6f, 0x6c, 3, 0, 0, 0, 6, 3, 0, 0,
     0x41, 0x42, 0, 0, 0, 0, 0, 0]"

theorem udata_swapDataHeader_safe_witness:
  "\<exists>ds mem' n e'. udata_openSwapper True 1 0 0 0 U_ZERO_ERROR = (Some ds, U_ZERO_ERROR) \<and>
    udata_swapDataHeader (Some ds) sample_header (Some 0) 32 (Some 0) U_ZERO_ERROR = Some (mem', n, e') \<and>
    length mem' = 32"
proof -
  obtain ds where o: "udata_openSwapper True 1 0 0 0 U_ZERO_ERROR = (Some ds, U_ZERO_ERROR)"
    by (simp add: udata_openSwapper_def U_EBCDIC_FAMILY_def)
  have "length sample_header = 32" by (simp add: sample_header_def)
  with udata_swapDataHeader_safe [OF o, of U_ZERO_ERROR 0 0 32 sample_header] o show ?thesis by auto
qed
end
