(* ===== verification/Ulist.thy ===== *)
theory Ulist
  imports CString
begin

text \<open>
  The linked list of \<open>ulist.c\<close> over an explicit store. A node is an address of \<open>nodes\<close>; the data of a
  node is the address of a block of \<open>blocks\<close>, which holds a string. Reading or freeing an address
  that is not allocated is \<open>None\<close>. The list object itself is the record \<open>UList\<close>, \<open>None\<close> for NULL, and
  an operation returns it updated. The outcome of \<open>uprv_malloc\<close> is an argument of the operations
  that allocate: \<open>None\<close>, or the address of the new node. The \<open>int32_t\<close> counters are integers, so
  that a list of more than 2147483647 items is outside the model.
\<close>

section \<open>State\<close>

type_synonym addr = nat

record UListNode =
  data :: addr
  nxt :: "addr option"
  previous :: "addr option"
  forceDelete :: bool

record UList =
  curr :: "addr option"
  head :: "addr option"
  tail :: "addr option"
  list_size :: int
  currentIndex :: int

record Store =
  nodes :: "addr \<rightharpoonup> UListNode"
  blocks :: "addr \<rightharpoonup> u8 list"

definition update_node :: "addr \<Rightarrow> (UListNode \<Rightarrow> UListNode) \<Rightarrow> Store \<Rightarrow> Store option" where
  "update_node a f st = (case nodes st a of
     None \<Rightarrow> None | Some n \<Rightarrow> Some (st\<lparr>nodes := (nodes st)(a \<mapsto> f n)\<rparr>))"

definition free_node :: "addr \<Rightarrow> Store \<Rightarrow> Store option" where
  "free_node a st = (case nodes st a of
     None \<Rightarrow> None | Some _ \<Rightarrow> Some (st\<lparr>nodes := (nodes st)(a := None)\<rparr>))"

definition free_block :: "addr option \<Rightarrow> Store \<Rightarrow> Store option" where
  "free_block p st = (case p of
     None \<Rightarrow> Some st
   | Some a \<Rightarrow> (case blocks st a of
       None \<Rightarrow> None | Some _ \<Rightarrow> Some (st\<lparr>blocks := (blocks st)(a := None)\<rparr>)))"

section \<open>Operations\<close>

definition ulist_createEmptyList :: "bool \<Rightarrow> UErrorCode \<Rightarrow> UList option \<times> UErrorCode" where
  "ulist_createEmptyList malloc status =
     (if U_FAILURE status then (None, status)
      else if \<not> malloc then (None, U_MEMORY_ALLOCATION_ERROR)
      else (Some \<lparr>curr = None, head = None, tail = None, list_size = 0, currentIndex = -1\<rparr>, status))"

definition ulist_addFirstItem :: "Store \<Rightarrow> UList \<Rightarrow> addr \<Rightarrow> (Store \<times> UList) option" where
  "ulist_addFirstItem st list newItem = do {
     st \<leftarrow> update_node newItem (\<lambda>n. n\<lparr>nxt := None, previous := None\<rparr>) st;
     Some (st, list\<lparr>head := Some newItem, tail := Some newItem\<rparr>) }"

definition ulist_removeItem :: "Store \<Rightarrow> UList \<Rightarrow> addr \<Rightarrow> (Store \<times> UList) option" where
  "ulist_removeItem st list p = do {
     n \<leftarrow> nodes st p;
     (st, list) \<leftarrow> (case previous n of
        None \<Rightarrow> Some (st, list\<lparr>head := nxt n\<rparr>)
      | Some a \<Rightarrow> do { st \<leftarrow> update_node a (\<lambda>m. m\<lparr>nxt := nxt n\<rparr>) st; Some (st, list) });
     (st, list) \<leftarrow> (case nxt n of
        None \<Rightarrow> Some (st, list\<lparr>tail := previous n\<rparr>)
      | Some b \<Rightarrow> do { st \<leftarrow> update_node b (\<lambda>m. m\<lparr>previous := previous n\<rparr>) st; Some (st, list) });
     let list = list\<lparr>curr := None, currentIndex := 0, list_size := list_size list - 1\<rparr>;
     st \<leftarrow> (if forceDelete n then free_block (Some (data n)) st else Some st);
     st \<leftarrow> free_node p st;
     Some (st, list) }"

text \<open>
  The part that the two insertions share: the checks, the node and its data; \<open>link\<close> is the rest. The
  pointers of the fresh node are set by \<open>link\<close> on every path.
\<close>

definition add_item ::
  "(Store \<Rightarrow> UList \<Rightarrow> addr \<Rightarrow> (Store \<times> UList) option) \<Rightarrow> addr option \<Rightarrow> Store \<Rightarrow> UList option \<Rightarrow> addr option \<Rightarrow>
     bool \<Rightarrow> UErrorCode \<Rightarrow> (Store \<times> UList option \<times> UErrorCode) option" where
  "add_item link malloc st list dat force status =
     (case (list, dat) of
        (Some l, Some d) \<Rightarrow>
          if U_FAILURE status then do {
            st \<leftarrow> (if force then free_block dat st else Some st);
            Some (st, list, status) }
          else (case malloc of
            None \<Rightarrow> do {
              st \<leftarrow> (if force then free_block dat st else Some st);
              Some (st, list, U_MEMORY_ALLOCATION_ERROR) }
          | Some newItem \<Rightarrow> do {
              let st = st\<lparr>nodes := (nodes st)(newItem \<mapsto>
                \<lparr>data = d, nxt = None, previous = None, forceDelete = force\<rparr>)\<rparr>;
              (st, l) \<leftarrow> (if list_size l = 0 then ulist_addFirstItem st l newItem else link st l newItem);
              Some (st, Some (l\<lparr>list_size := list_size l + 1\<rparr>), status) })
      | _ \<Rightarrow> do {
          st \<leftarrow> (if force then free_block dat st else Some st);
          Some (st, list, status) })"

definition link_end :: "Store \<Rightarrow> UList \<Rightarrow> addr \<Rightarrow> (Store \<times> UList) option" where
  "link_end st l newItem = do {
     st \<leftarrow> update_node newItem (\<lambda>n. n\<lparr>nxt := None, previous := tail l\<rparr>) st;
     t \<leftarrow> tail l;
     st \<leftarrow> update_node t (\<lambda>n. n\<lparr>nxt := Some newItem\<rparr>) st;
     Some (st, l\<lparr>tail := Some newItem\<rparr>) }"

definition link_begin :: "Store \<Rightarrow> UList \<Rightarrow> addr \<Rightarrow> (Store \<times> UList) option" where
  "link_begin st l newItem = do {
     st \<leftarrow> update_node newItem (\<lambda>n. n\<lparr>previous := None, nxt := head l\<rparr>) st;
     h \<leftarrow> head l;
     st \<leftarrow> update_node h (\<lambda>n. n\<lparr>previous := Some newItem\<rparr>) st;
     Some (st, l\<lparr>head := Some newItem, currentIndex := currentIndex l + 1\<rparr>) }"

definition ulist_addItemEndList where
  "ulist_addItemEndList = add_item link_end"

definition ulist_addItemBeginList where
  "ulist_addItemBeginList = add_item link_begin"

definition c_memcmp_eq :: "u8 list \<Rightarrow> u8 list \<Rightarrow> int \<Rightarrow> bool option" where
  "c_memcmp_eq xs ys n =
     (if n \<le> int (length xs) \<and> n \<le> int (length ys) then Some (take (nat n) xs = take (nat n) ys) else None)"

text \<open>\<open>uprv_strcmp\<close> of two strings, as far as the code uses it: whether it is 0.\<close>

function c_strcmp_eq :: "u8 list \<Rightarrow> u8 list \<Rightarrow> int \<Rightarrow> bool option" where
  "c_strcmp_eq s t i = do {
     c \<leftarrow> rd s i;
     d \<leftarrow> rd t i;
     if c \<noteq> d then Some False else if c = 0 then Some True else c_strcmp_eq s t (i + 1) }"
  by pat_completeness auto
termination by (relation "measure (\<lambda>(s, t, i). nat (int (length s) - i))") (auto simp: rd_Some_iff)

declare c_strcmp_eq.simps [simp del]

text \<open>
  The loops that follow \<open>next\<close> may not end on a list with a cycle, which is the value \<open>None\<close>, as is
  an access to a node that is not allocated.
\<close>

partial_function (option) contains_loop :: "Store \<Rightarrow> u8 list \<Rightarrow> int \<Rightarrow> addr option \<Rightarrow> bool option" where
  "contains_loop st dat len p =
     (if p = None then Some False
      else do {
       n \<leftarrow> nodes st (the p);
       b \<leftarrow> blocks st (data n);
       k \<leftarrow> strlen b 0;
       if len = k then do {
         eq \<leftarrow> c_memcmp_eq dat b len;
         if eq then Some True else contains_loop st dat len (nxt n) }
       else contains_loop st dat len (nxt n) })"

definition ulist_containsString :: "Store \<Rightarrow> UList option \<Rightarrow> u8 list \<Rightarrow> int \<Rightarrow> bool option" where
  "ulist_containsString st list dat len =
     (case list of None \<Rightarrow> Some False | Some l \<Rightarrow> contains_loop st dat len (head l))"

partial_function (option) remove_loop ::
  "Store \<Rightarrow> UList \<Rightarrow> u8 list \<Rightarrow> addr option \<Rightarrow> (Store \<times> UList \<times> bool) option" where
  "remove_loop st l dat p =
     (if p = None then Some (st, l, False)
      else do {
       n \<leftarrow> nodes st (the p);
       b \<leftarrow> blocks st (data n);
       eq \<leftarrow> c_strcmp_eq dat b 0;
       if eq then map_option (\<lambda>(st, l). (st, l, True)) (ulist_removeItem st l (the p))
       else remove_loop st l dat (nxt n) })"

definition ulist_removeString ::
  "Store \<Rightarrow> UList option \<Rightarrow> u8 list \<Rightarrow> (Store \<times> UList option \<times> bool) option" where
  "ulist_removeString st list dat = (case list of
     None \<Rightarrow> Some (st, None, False)
   | Some l \<Rightarrow> do { (st, l, b) \<leftarrow> remove_loop st l dat (head l); Some (st, Some l, b) })"

text \<open>The result of \<open>ulist_getNext\<close> is the list and the data pointer, \<open>None\<close> for NULL.\<close>

definition ulist_getNext :: "Store \<Rightarrow> UList option \<Rightarrow> (UList option \<times> addr option) option" where
  "ulist_getNext st list = (case list of
     None \<Rightarrow> Some (None, None)
   | Some l \<Rightarrow> (case curr l of
       None \<Rightarrow> Some (Some l, None)
     | Some a \<Rightarrow> do {
         n \<leftarrow> nodes st a;
         Some (Some (l\<lparr>curr := nxt n, currentIndex := currentIndex l + 1\<rparr>), Some (data n)) }))"

definition ulist_getListSize :: "UList option \<Rightarrow> int" where
  "ulist_getListSize list = (case list of None \<Rightarrow> -1 | Some l \<Rightarrow> list_size l)"

definition ulist_resetList :: "UList option \<Rightarrow> UList option" where
  "ulist_resetList list = map_option (\<lambda>l. l\<lparr>curr := head l, currentIndex := 0\<rparr>) list"

partial_function (option) delete_loop :: "Store \<Rightarrow> addr option \<Rightarrow> Store option" where
  "delete_loop st p =
     (if p = None then Some st
      else do {
       n \<leftarrow> nodes st (the p);
       st \<leftarrow> (if forceDelete n then free_block (Some (data n)) st else Some st);
       st \<leftarrow> free_node (the p) st;
       delete_loop st (nxt n) })"

definition ulist_deleteList :: "Store \<Rightarrow> UList option \<Rightarrow> Store option" where
  "ulist_deleteList st list = (case list of None \<Rightarrow> Some st | Some l \<Rightarrow> delete_loop st (head l))"

section \<open>Enumeration of keyword values\<close>

text \<open>The context of the enumeration is the list; the other fields of \<open>UEnumeration\<close> are not used here.\<close>

record UEnumeration =
  context_list :: "UList option"

definition ulist_close_keyword_values_iterator :: "Store \<Rightarrow> UEnumeration option \<Rightarrow> Store option" where
  "ulist_close_keyword_values_iterator st en =
     (case en of None \<Rightarrow> Some st | Some e \<Rightarrow> ulist_deleteList st (context_list e))"

definition ulist_count_keyword_values :: "UEnumeration \<Rightarrow> UErrorCode \<Rightarrow> int" where
  "ulist_count_keyword_values en status =
     (if U_FAILURE status then -1 else ulist_getListSize (context_list en))"

text \<open>The result: the enumeration, the string, and the length that is written to \<open>resultLength\<close>.\<close>

definition ulist_next_keyword_value ::
  "Store \<Rightarrow> UEnumeration \<Rightarrow> bool \<Rightarrow> UErrorCode \<Rightarrow> (UEnumeration \<times> addr option \<times> int option) option" where
  "ulist_next_keyword_value st en hasResultLength status =
     (if U_FAILURE status then Some (en, None, None)
      else do {
        (l, s) \<leftarrow> ulist_getNext st (context_list en);
        let en = en\<lparr>context_list := l\<rparr>;
        (case s of
           None \<Rightarrow> Some (en, None, None)
         | Some a \<Rightarrow>
             if hasResultLength then do {
               b \<leftarrow> blocks st a;
               k \<leftarrow> strlen b 0;
               Some (en, Some a, Some k) }
             else Some (en, Some a, None)) })"

definition ulist_reset_keyword_values_iterator :: "UEnumeration \<Rightarrow> UErrorCode \<Rightarrow> UEnumeration" where
  "ulist_reset_keyword_values_iterator en status =
     (if U_FAILURE status then en else en\<lparr>context_list := ulist_resetList (context_list en)\<rparr>)"

definition ulist_getListFromEnum :: "UEnumeration \<Rightarrow> UList option" where
  "ulist_getListFromEnum en = context_list en"

section \<open>Segments of a doubly linked list\<close>

fun first :: "addr list \<Rightarrow> addr option \<Rightarrow> addr option" where
  "first [] q = q"
| "first (a # as) q = Some a"

definition lastp :: "addr option \<Rightarrow> addr list \<Rightarrow> addr option" where
  "lastp p as = (if as = [] then p else Some (last as))"

text \<open>The nodes \<open>as\<close> are linked both ways; \<open>p\<close> is before the first and \<open>q\<close> after the last.\<close>

fun dseg :: "(addr \<rightharpoonup> UListNode) \<Rightarrow> addr option \<Rightarrow> addr list \<Rightarrow> addr option \<Rightarrow> bool" where
  "dseg h p [] q \<longleftrightarrow> True"
| "dseg h p (a # as) q \<longleftrightarrow>
     (\<exists>n. h a = Some n \<and> previous n = p \<and> nxt n = first as q) \<and> dseg h (Some a) as q"

lemma first_append [simp]: "first (as @ bs) q = first as (first bs q)"
  by (cases as) auto

lemma lastp_simps [simp]:
  "lastp p [] = p" "lastp p (as @ [a]) = Some a" "lastp p (a # as) = lastp (Some a) as"
  by (auto simp: lastp_def)

lemma lastp_append [simp]: "lastp p (as @ bs) = lastp (lastp p as) bs"
  by (auto simp: lastp_def)

lemma dseg_append: "dseg h p (as @ bs) q \<longleftrightarrow> dseg h p as (first bs q) \<and> dseg h (lastp p as) bs q"
  by (induction as arbitrary: p) auto

lemma dseg_dom: "dseg h p as q \<Longrightarrow> a \<in> set as \<Longrightarrow> \<exists>n. h a = Some n"
  by (induction as arbitrary: p) auto

lemma dseg_cong: "(\<And>a. a \<in> set as \<Longrightarrow> h a = h' a) \<Longrightarrow> dseg h p as q \<longleftrightarrow> dseg h' p as q"
  by (induction as arbitrary: p) auto

lemma dseg_frame [simp]: "x \<notin> set as \<Longrightarrow> dseg (h(x := v)) p as q \<longleftrightarrow> dseg h p as q"
  by (rule dseg_cong) auto

lemma dseg_relink_last:
  assumes "dseg h p as q" "as \<noteq> []" "distinct as" "h (last as) = Some n"
  shows "dseg (h(last as \<mapsto> n\<lparr>nxt := r\<rparr>)) p as r"
proof -
  obtain bs where as: "as = bs @ [last as]" using assms(2) by (metis append_butlast_last_id)
  define z where "z = last as"
  have "as = bs @ [z]" "z \<notin> set bs" using as assms(3) by (auto simp: z_def) (metis distinct_append distinct1_rotate not_distinct_conv_prefix)
  then show ?thesis using assms(1,4) by (auto simp: dseg_append z_def [symmetric])
qed

lemma dseg_relink_first:
  assumes "dseg h p (a # as) q" "a \<notin> set as" "h a = Some n"
  shows "dseg (h(a \<mapsto> n\<lparr>previous := r\<rparr>)) r (a # as) q"
  using assms by auto

section \<open>The invariant\<close>

abbreviation node_of :: "Store \<Rightarrow> addr \<Rightarrow> UListNode" where
  "node_of st a \<equiv> the (nodes st a)"

definition list_shape :: "Store \<Rightarrow> UList \<Rightarrow> addr list \<Rightarrow> bool" where
  "list_shape st l as \<longleftrightarrow>
     dseg (nodes st) None as None \<and> distinct as \<and> head l = first as None \<and> tail l = lastp None as \<and>
     list_size l = int (length as) \<and> (\<forall>c. curr l = Some c \<longrightarrow> c \<in> set as)"

text \<open>
  The data of a node is a string, and a block that the list owns, because \<open>forceDelete\<close> is set, is the
  data of no other node.
\<close>

definition block_ok :: "Store \<Rightarrow> addr \<Rightarrow> bool" where
  "block_ok st d \<longleftrightarrow> (\<exists>b. blocks st d = Some b \<and> 0 \<in> set b)"

definition data_ok :: "Store \<Rightarrow> addr list \<Rightarrow> bool" where
  "data_ok st as \<longleftrightarrow>
     (\<forall>a \<in> set as. block_ok st (data (node_of st a))) \<and>
     (\<forall>a \<in> set as. \<forall>b \<in> set as. a \<noteq> b \<longrightarrow> forceDelete (node_of st a) \<longrightarrow> data (node_of st a) \<noteq> data (node_of st b))"

definition ulist_inv :: "Store \<Rightarrow> UList \<Rightarrow> addr list \<Rightarrow> bool" where
  "ulist_inv st l as \<longleftrightarrow> list_shape st l as \<and> data_ok st as"

definition string_of :: "u8 list \<Rightarrow> u8 list" where
  "string_of b = takeWhile (\<lambda>c. c \<noteq> 0) b"

definition strings :: "Store \<Rightarrow> addr list \<Rightarrow> u8 list list" where
  "strings st as = map (\<lambda>a. string_of (the (blocks st (data (node_of st a))))) as"

lemma string_of_at: "0 \<in> set b \<Longrightarrow> str_at b 0 (string_of b)"
proof -
  assume z: "0 \<in> set b"
  then have "dropWhile (\<lambda>c. c \<noteq> 0) b \<noteq> []" by (auto simp: dropWhile_eq_Nil_conv)
  then obtain x xs where x: "dropWhile (\<lambda>c. c \<noteq> 0) b = x # xs" by (cases "dropWhile (\<lambda>c. c \<noteq> 0) b") auto
  then have "x = 0" using hd_dropWhile [of "\<lambda>c. c \<noteq> 0" b] by auto
  then have "b = string_of b @ 0 # xs" using takeWhile_dropWhile_id [of "\<lambda>c. c \<noteq> 0" b] x by (simp add: string_of_def)
  moreover have "0 \<notin> set (string_of b)" by (auto simp: string_of_def dest: set_takeWhileD)
  ultimately show "str_at b 0 (string_of b)" unfolding str_at_def by (intro conjI exI [of _ xs]) auto
qed

lemma strlen_str: "str_at b i s \<Longrightarrow> strlen b i = Some (int (length s))"
  by (induction s arbitrary: i) (subst strlen.simps, simp add: str_at_simps)+

lemma c_strcmp_str:
  "str_at s i xs \<Longrightarrow> str_at t i ys \<Longrightarrow> c_strcmp_eq s t i = Some (xs = ys)"
proof (induction xs arbitrary: i ys)
  case Nil
  then show ?case by (cases ys) (subst c_strcmp_eq.simps, simp add: str_at_simps)+
next
  case (Cons x xs)
  then show ?case by (cases ys) (subst c_strcmp_eq.simps, auto simp: str_at_simps)+
qed

section \<open>The operations keep the invariant\<close>

definition fresh_node :: "addr option \<Rightarrow> addr option \<Rightarrow> addr \<Rightarrow> bool \<Rightarrow> UListNode" where
  "fresh_node p n d f = \<lparr>data = d, nxt = n, previous = p, forceDelete = f\<rparr>"

lemma strings_cong:
  "(\<And>a. a \<in> set as \<Longrightarrow> data (node_of st a) = data (node_of st' a)) \<Longrightarrow>
   (\<And>a. a \<in> set as \<Longrightarrow> blocks st (data (node_of st a)) = blocks st' (data (node_of st a))) \<Longrightarrow> strings st as = strings st' as"
  by (auto simp: strings_def)

text \<open>The heap keeps the data and the flag of the nodes \<open>as\<close>.\<close>

definition same_data :: "Store \<Rightarrow> Store \<Rightarrow> addr list \<Rightarrow> bool" where
  "same_data st st' as \<longleftrightarrow> blocks st' = blocks st \<and>
     (\<forall>a \<in> set as. data (node_of st' a) = data (node_of st a) \<and> forceDelete (node_of st' a) = forceDelete (node_of st a))"

lemma same_data_strings: "same_data st st' as \<Longrightarrow> strings st' as = strings st as"
  by (auto simp: same_data_def strings_def)

lemma same_data_ok: "same_data st st' as \<Longrightarrow> data_ok st as \<Longrightarrow> data_ok st' as"
  by (auto simp: same_data_def data_ok_def block_ok_def)

text \<open>The data pointer can be given to the list: it is a string, and ownership does not clash.\<close>

definition can_add :: "Store \<Rightarrow> addr list \<Rightarrow> addr \<Rightarrow> bool \<Rightarrow> bool" where
  "can_add st as d force \<longleftrightarrow> block_ok st d \<and>
     (\<forall>a \<in> set as. force \<or> forceDelete (node_of st a) \<longrightarrow> data (node_of st a) \<noteq> d)"

lemma data_ok_insert:
  assumes "data_ok st as" "can_add st as (data (node_of st a)) (forceDelete (node_of st a))"
    "set bs = insert a (set as)"
  shows "data_ok st bs"
  using assms by (auto simp: data_ok_def can_add_def block_ok_def)

lemma head_node:
  assumes "list_shape st l as" "as \<noteq> []"
  obtains n where "head l = Some (hd as)" "nodes st (hd as) = Some n" "previous n = None"
  using assms by (cases as) (auto simp: list_shape_def)

lemma tail_node:
  assumes "list_shape st l as" "as \<noteq> []"
  obtains n where "tail l = Some (last as)" "nodes st (last as) = Some n" "nxt n = None"
proof -
  obtain bs where as: "as = bs @ [last as]" using assms(2) by (metis append_butlast_last_id)
  define z where "z = last as"
  have "as = bs @ [z]" using as by (simp add: z_def)
  then show ?thesis using assms that by (auto simp: list_shape_def dseg_append lastp_def)
qed

lemma link_end_shape:
  assumes l: "list_shape st l as" and ne: "as \<noteq> []" and x: "nodes st x = None"
    and st0: "st0 = st\<lparr>nodes := (nodes st)(x \<mapsto> fresh_node None None d f)\<rparr>"
  shows "\<exists>st' l'. link_end st0 l x = Some (st', l') \<and> same_data st0 st' (as @ [x]) \<and>
    list_shape st' (l'\<lparr>list_size := list_size l' + 1\<rparr>) (as @ [x])"
proof -
  obtain n where n: "tail l = Some (last as)" "nodes st (last as) = Some n" using tail_node [OF l ne] by blast
  have sh: "dseg (nodes st) None as None" "distinct as" using l by (auto simp: list_shape_def)
  have xa: "x \<notin> set as" using dseg_dom [OF sh(1)] x by force
  then have xl: "last as \<noteq> x" using ne by (metis last_in_set)
  let ?h = "(nodes st)(x \<mapsto> fresh_node (Some (last as)) None d f, last as \<mapsto> n\<lparr>nxt := Some x\<rparr>)"
  let ?l = "l\<lparr>tail := Some x\<rparr>"
  have e: "link_end st0 l x = Some (st\<lparr>nodes := ?h\<rparr>, ?l)"
    using n xl by (simp add: link_end_def update_node_def st0 fresh_node_def)
  have "dseg ((nodes st)(last as \<mapsto> n\<lparr>nxt := Some x\<rparr>)) None as (Some x)"
    using dseg_relink_last [OF sh(1) ne sh(2) n(2)] .
  then have "dseg (((nodes st)(last as \<mapsto> n\<lparr>nxt := Some x\<rparr>))(x \<mapsto> fresh_node (Some (last as)) None d f)) None as (Some x)"
    using xa by simp
  then have "dseg ?h None (as @ [x]) None"
    using xl ne by (simp add: dseg_append fun_upd_twist lastp_def fresh_node_def)
  then have "list_shape (st\<lparr>nodes := ?h\<rparr>) (?l\<lparr>list_size := list_size ?l + 1\<rparr>) (as @ [x])"
    using l xa ne by (cases as) (auto simp: list_shape_def lastp_def)
  moreover have "same_data st0 (st\<lparr>nodes := ?h\<rparr>) (as @ [x])"
    using xl n(2) by (auto simp: same_data_def st0 fresh_node_def)
  ultimately show ?thesis using e by blast
qed

lemma link_begin_shape:
  assumes l: "list_shape st l as" and ne: "as \<noteq> []" and x: "nodes st x = None"
    and st0: "st0 = st\<lparr>nodes := (nodes st)(x \<mapsto> fresh_node None None d f)\<rparr>"
  shows "\<exists>st' l'. link_begin st0 l x = Some (st', l') \<and> same_data st0 st' (x # as) \<and>
    list_shape st' (l'\<lparr>list_size := list_size l' + 1\<rparr>) (x # as)"
proof -
  obtain a bs where as: "as = a # bs" using ne by (cases as) auto
  obtain n where n: "head l = Some a" "nodes st a = Some n" using head_node [OF l ne] as by auto
  have sh: "dseg (nodes st) None as None" "distinct as" using l by (auto simp: list_shape_def)
  have xa: "x \<notin> set as" using dseg_dom [OF sh(1)] x by force
  let ?h = "(nodes st)(x \<mapsto> fresh_node None (Some a) d f, a \<mapsto> n\<lparr>previous := Some x\<rparr>)"
  let ?l = "l\<lparr>head := Some x, currentIndex := currentIndex l + 1\<rparr>"
  have e: "link_begin st0 l x = Some (st\<lparr>nodes := ?h\<rparr>, ?l)"
    using n xa as by (auto simp: link_begin_def update_node_def st0 fresh_node_def)
  have "dseg ((nodes st)(a \<mapsto> n\<lparr>previous := Some x\<rparr>)) (Some x) as None"
    using dseg_relink_first [of "nodes st" None a bs None n] sh as n(2) by simp
  then have "dseg ?h (Some x) as None"
    using xa as by (subst fun_upd_twist) auto
  then have "dseg ?h None (x # as) None" using xa as by (auto simp: fresh_node_def)
  then have "list_shape (st\<lparr>nodes := ?h\<rparr>) (?l\<lparr>list_size := list_size ?l + 1\<rparr>) (x # as)"
    using l xa ne by (auto simp: list_shape_def lastp_def)
  moreover have "same_data st0 (st\<lparr>nodes := ?h\<rparr>) (x # as)"
    using xa as n(2) by (auto simp: same_data_def st0 fresh_node_def)
  ultimately show ?thesis using e by blast
qed

lemma add_item_ok:
  assumes inv: "ulist_inv st l as" and x: "nodes st x = None" and add: "can_add st as d f" and e: "\<not> U_FAILURE e"
    and bs: "set bs = insert x (set as)" "as = [] \<Longrightarrow> bs = [x]"
    and link: "\<And>st0. as \<noteq> [] \<Longrightarrow> st0 = st\<lparr>nodes := (nodes st)(x \<mapsto> fresh_node None None d f)\<rparr> \<Longrightarrow>
      \<exists>st' l'. link st0 l x = Some (st', l') \<and> same_data st0 st' bs \<and> list_shape st' (l'\<lparr>list_size := list_size l' + 1\<rparr>) bs"
  shows "\<exists>st' l'. add_item link (Some x) st (Some l) (Some d) f e = Some (st', Some l', e) \<and> ulist_inv st' l' bs \<and>
    (\<forall>a \<in> set as. data (node_of st' a) = data (node_of st a)) \<and> data (node_of st' x) = d \<and> blocks st' = blocks st"
proof -
  have l: "list_shape st l as" "data_ok st as" using inv by (auto simp: ulist_inv_def)
  have xa: "x \<notin> set as" using dseg_dom [of "nodes st" None as None x] l(1) x by (auto simp: list_shape_def)
  define st0 where "st0 = st\<lparr>nodes := (nodes st)(x \<mapsto> fresh_node None None d f)\<rparr>"
  have d0: "data_ok st0 bs"
  proof (rule data_ok_insert [OF _ _ bs(1)])
    show "data_ok st0 as" using l(2) xa by (auto simp: data_ok_def st0_def block_ok_def)
    show "can_add st0 as (data (node_of st0 x)) (forceDelete (node_of st0 x))"
      using add xa by (auto simp: can_add_def st0_def fresh_node_def block_ok_def)
  qed
  have "\<exists>st' l'. (if list_size l = 0 then ulist_addFirstItem st0 l x else link st0 l x) = Some (st', l') \<and>
      same_data st0 st' bs \<and> list_shape st' (l'\<lparr>list_size := list_size l' + 1\<rparr>) bs"
  proof (cases "as = []")
    case True
    then have "list_size l = 0" "curr l = None" using l(1) by (auto simp: list_shape_def)
    then show ?thesis using True bs
      by (auto simp: ulist_addFirstItem_def update_node_def st0_def fresh_node_def same_data_def list_shape_def)
  next
    case False
    then have "list_size l \<noteq> 0" using l(1) by (auto simp: list_shape_def)
    then show ?thesis using link [OF False st0_def] by auto
  qed
  then obtain st' l' where r: "(if list_size l = 0 then ulist_addFirstItem st0 l x else link st0 l x) = Some (st', l')"
    "same_data st0 st' bs" "list_shape st' (l'\<lparr>list_size := list_size l' + 1\<rparr>) bs" by blast
  have "ulist_inv st' (l'\<lparr>list_size := list_size l' + 1\<rparr>) bs"
    using r(2,3) same_data_ok [OF r(2) d0] by (simp add: ulist_inv_def)
  moreover have "add_item link (Some x) st (Some l) (Some d) f e = Some (st', Some (l'\<lparr>list_size := list_size l' + 1\<rparr>), e)"
    using e r(1) [unfolded st0_def fresh_node_def] by (simp add: add_item_def Let_def)
  moreover have "(\<forall>a \<in> set as. data (node_of st' a) = data (node_of st a)) \<and> data (node_of st' x) = d \<and> blocks st' = blocks st"
    using r(2) bs(1) xa by (auto simp: same_data_def st0_def fresh_node_def)
  ultimately show ?thesis by blast
qed

lemma dseg_nth:
  "dseg h p (xs @ a # ys) q \<longleftrightarrow> dseg h p xs (Some a) \<and>
     (\<exists>n. h a = Some n \<and> previous n = lastp p xs \<and> nxt n = first ys q) \<and> dseg h (Some a) ys q"
  by (auto simp: dseg_append)

text \<open>The three cases of each neighbour are closed by relinking it.\<close>

lemma unlink_prev:
  assumes "dseg (nodes st) None xs (Some a)" "distinct (xs @ a # ys)" "previous n = lastp None xs"
    and "dseg (nodes st) (Some a) ys None" and l: "head l = first (xs @ a # ys) None"
  obtains st' where
    "(case previous n of None \<Rightarrow> Some (st, l\<lparr>head := r\<rparr>)
      | Some b \<Rightarrow> do { st \<leftarrow> update_node b (\<lambda>m. m\<lparr>nxt := r\<rparr>) st; Some (st, l) }) =
      Some (st', l\<lparr>head := first xs r\<rparr>)"
    "dseg (nodes st') None xs r" "dseg (nodes st') (Some a) ys None" "nodes st' a = nodes st a"
    "dom (nodes st') = dom (nodes st)" "same_data st st' (xs @ ys)"
proof (cases "xs = []")
  case True
  then show ?thesis using assms that [of st] by (simp add: same_data_def)
next
  case False
  define z where "z = last xs"
  have z: "z \<in> set xs" "previous n = Some z" using False assms(3) by (simp_all add: z_def lastp_def)
  obtain m where m: "nodes st z = Some m" using dseg_dom [OF assms(1) z(1)] by blast
  have nz: "z \<noteq> a" "z \<notin> set ys" using z(1) assms(2) by auto
  let ?h = "(nodes st)(z \<mapsto> m\<lparr>nxt := r\<rparr>)"
  have hd: "l\<lparr>head := first xs r\<rparr> = l" using False l by (cases xs) auto
  have "dseg ?h None xs r"
    using dseg_relink_last [OF assms(1) False _ m [unfolded z_def], of r] assms(2) by (simp add: z_def)
  moreover have "dseg ?h (Some a) ys None" using nz assms(4) by simp
  moreover have "same_data st (st\<lparr>nodes := ?h\<rparr>) (xs @ ys)" using m by (auto simp: same_data_def)
  ultimately show ?thesis
    using that [of "st\<lparr>nodes := ?h\<rparr>"] z(1,2) m nz hd insert_absorb [of z "dom (nodes st)"]
    by (simp add: update_node_def domI)
qed

lemma unlink_next:
  assumes "dseg (nodes st) (Some a) ys None" "distinct (xs @ a # ys)" "nxt n = first ys None"
    and "dseg (nodes st) None xs (first ys None)" and l: "tail l = lastp None (xs @ a # ys)"
  obtains st' where
    "(case nxt n of None \<Rightarrow> Some (st, l\<lparr>tail := p\<rparr>)
      | Some b \<Rightarrow> do { st \<leftarrow> update_node b (\<lambda>m. m\<lparr>previous := p\<rparr>) st; Some (st, l) }) =
      Some (st', l\<lparr>tail := lastp p ys\<rparr>)"
    "dseg (nodes st') p ys None" "dseg (nodes st') None xs (first ys None)" "nodes st' a = nodes st a"
    "dom (nodes st') = dom (nodes st)" "same_data st st' (xs @ ys)"
proof (cases ys)
  case Nil
  then show ?thesis using assms that [of st] by (simp add: same_data_def)
next
  case (Cons b zs)
  obtain m where m: "nodes st b = Some m" using assms(1) Cons by auto
  have nz: "b \<noteq> a" "b \<notin> set xs" "b \<notin> set zs" using Cons assms(2) by auto
  let ?h = "(nodes st)(b \<mapsto> m\<lparr>previous := p\<rparr>)"
  have tl: "l\<lparr>tail := lastp p ys\<rparr> = l" using Cons l by simp
  have "dseg ?h p ys None" using dseg_relink_first [of "nodes st" "Some a" b zs None m p] assms(1) Cons m nz by simp
  moreover have "dseg ?h None xs (first ys None)" using nz assms(4) by simp
  moreover have "same_data st (st\<lparr>nodes := ?h\<rparr>) (xs @ ys)" using m by (auto simp: same_data_def)
  ultimately show ?thesis
    using that [of "st\<lparr>nodes := ?h\<rparr>"] Cons m nz assms(3) tl insert_absorb [of b "dom (nodes st)"]
    by (simp add: update_node_def domI)
qed

lemma removeItem_ok:
  assumes inv: "ulist_inv st l (xs @ a # ys)"
  shows "\<exists>st' l'. ulist_removeItem st l a = Some (st', l') \<and> ulist_inv st' l' (xs @ ys) \<and>
    strings st' (xs @ ys) = strings st (xs @ ys) \<and> dom (nodes st') = dom (nodes st) - {a} \<and> curr l' = None"
proof -
  have sh: "dseg (nodes st) None xs (Some a)" "dseg (nodes st) (Some a) ys None" "distinct (xs @ a # ys)"
    "head l = first (xs @ a # ys) None" "tail l = lastp None (xs @ a # ys)" "list_size l = int (length xs + length ys + 1)"
    and dk: "data_ok st (xs @ a # ys)"
    using inv by (auto simp: ulist_inv_def list_shape_def dseg_append)
  obtain n where n: "nodes st a = Some n" "previous n = lastp None xs" "nxt n = first ys None"
    using inv by (auto simp: ulist_inv_def list_shape_def dseg_append)
  obtain st1 where s1: "(case previous n of None \<Rightarrow> Some (st, l\<lparr>head := nxt n\<rparr>)
      | Some b \<Rightarrow> do { st \<leftarrow> update_node b (\<lambda>m. m\<lparr>nxt := nxt n\<rparr>) st; Some (st, l) }) =
      Some (st1, l\<lparr>head := first xs (nxt n)\<rparr>)"
    "dseg (nodes st1) None xs (nxt n)" "dseg (nodes st1) (Some a) ys None" "nodes st1 a = nodes st a"
    "dom (nodes st1) = dom (nodes st)" "same_data st st1 (xs @ ys)"
    by (rule unlink_prev [OF sh(1,3) n(2) sh(2,4), of "nxt n"]) (rule that)
  have "tail (l\<lparr>head := first xs (nxt n)\<rparr>) = lastp None (xs @ a # ys)" using sh(5) by simp
  then obtain st2 where s2: "(case nxt n of None \<Rightarrow> Some (st1, (l\<lparr>head := first xs (nxt n)\<rparr>)\<lparr>tail := previous n\<rparr>)
      | Some b \<Rightarrow> do { st \<leftarrow> update_node b (\<lambda>m. m\<lparr>previous := previous n\<rparr>) st1; Some (st, l\<lparr>head := first xs (nxt n)\<rparr>) }) =
      Some (st2, (l\<lparr>head := first xs (nxt n)\<rparr>)\<lparr>tail := lastp (previous n) ys\<rparr>)"
    "dseg (nodes st2) (previous n) ys None" "dseg (nodes st2) None xs (first ys None)" "nodes st2 a = nodes st1 a"
    "dom (nodes st2) = dom (nodes st1)" "same_data st1 st2 (xs @ ys)"
    by (rule unlink_next [OF s1(3) sh(3) n(3) s1(2) [unfolded n(3)], of _ "previous n"]) (rule that)
  let ?l = "l\<lparr>head := first xs (nxt n), tail := lastp (previous n) ys, curr := None, currentIndex := 0, list_size := list_size l - 1\<rparr>"
  have sd: "same_data st st2 (xs @ ys)" using s1(6) s2(6) by (auto simp: same_data_def)
  have bl: "blocks st2 = blocks st" using sd by (simp add: same_data_def)
  have blk: "block_ok st (data n)" and own: "\<And>b. b \<in> set (xs @ ys) \<Longrightarrow> forceDelete n \<Longrightarrow> data (node_of st b) \<noteq> data n"
    using dk n(1) sh(3) by (auto simp: data_ok_def)
  define st3 where "st3 = (if forceDelete n then st2\<lparr>blocks := (blocks st2)(data n := None)\<rparr> else st2)"
  have f: "(if forceDelete n then free_block (Some (data n)) st2 else Some st2) = Some st3"
    using blk bl by (auto simp: free_block_def st3_def block_ok_def split: option.splits)
  have n3: "nodes st3 = nodes st2" by (simp add: st3_def)
  let ?st4 = "st3\<lparr>nodes := (nodes st3)(a := None)\<rparr>"
  have r: "ulist_removeItem st l a = Some (?st4, ?l)"
    using n(1) s1(1,4) s2(1,4) f n3 by (simp add: ulist_removeItem_def free_node_def)
  have "dseg (nodes ?st4) None (xs @ ys) None"
    using s2(2,3) n3 sh(3) n(2) by (simp add: dseg_append)
  then have "list_shape ?st4 ?l (xs @ ys)"
    using sh(3,6) n(2,3) by (auto simp: list_shape_def)
  moreover have ok: "data_ok ?st4 (xs @ ys)"
  proof -
    have "data_ok st (xs @ ys)" using dk by (auto simp: data_ok_def)
    then have "data_ok st2 (xs @ ys)" using same_data_ok [OF sd] by blast
    moreover have "\<And>b. b \<in> set (xs @ ys) \<Longrightarrow> forceDelete n \<Longrightarrow> data (node_of st2 b) \<noteq> data n"
      using own sd by (auto simp: same_data_def)
    ultimately show ?thesis using sh(3) by (auto simp: data_ok_def block_ok_def st3_def)
  qed
  moreover have "strings ?st4 (xs @ ys) = strings st2 (xs @ ys)"
    using sh(3) own sd by (intro strings_cong) (auto simp: st3_def same_data_def)
  moreover have "strings st2 (xs @ ys) = strings st (xs @ ys)" by (rule same_data_strings [OF sd])
  moreover have "dom (nodes ?st4) = dom (nodes st) - {a}" using n3 s1(5) s2(5) by auto
  ultimately show ?thesis using r by (auto simp: ulist_inv_def)
qed

section \<open>The loops\<close>

lemma ulist_inv_node:
  assumes "dseg (nodes st) p (a # as) None" "data_ok st (a # as)"
  obtains n b where "nodes st a = Some n" "nxt n = first as None" "blocks st (data n) = Some b"
    "str_at b 0 (string_of b)" "strings st (a # as) = string_of b # strings st as"
    "dseg (nodes st) (Some a) as None" "data_ok st as"
proof -
  obtain n where n: "nodes st a = Some n" "nxt n = first as None" "dseg (nodes st) (Some a) as None"
    using assms(1) by auto
  obtain b where b: "blocks st (data n) = Some b" "0 \<in> set b" using assms(2) n by (auto simp: data_ok_def block_ok_def)
  have "data_ok st as" using assms(2) by (simp add: data_ok_def)
  then show ?thesis using that [OF n(1,2) b(1) string_of_at [OF b(2)] _ n(3)] n(1) b(1) by (simp add: strings_def)
qed

lemma contains_loop_eq:
  assumes "dseg (nodes st) p as None" "data_ok st as" "0 \<le> len" "len \<le> int (length dat)"
  shows "contains_loop st dat len (first as None) = Some (take (nat len) dat \<in> set (strings st as))"
  using assms
proof (induction as arbitrary: p)
  case Nil
  then show ?case by (subst contains_loop.simps) (simp add: strings_def)
next
  case (Cons a as)
  obtain n b where *: "nodes st a = Some n" "nxt n = first as None" "blocks st (data n) = Some b"
    "str_at b 0 (string_of b)" "strings st (a # as) = string_of b # strings st as"
    "dseg (nodes st) (Some a) as None" "data_ok st as"
    using ulist_inv_node [OF Cons.prems(1,2)] .
  have IH: "contains_loop st dat len (first as None) = Some (take (nat len) dat \<in> set (strings st as))"
    using Cons.IH [OF *(6,7) Cons.prems(3,4)] .
  obtain rest where "b = string_of b @ 0 # rest" using *(4) by (auto simp: str_at_def)
  then have l: "length (string_of b) \<le> length b" "take (length (string_of b)) b = string_of b"
    by (metis length_append le_add1, metis append_eq_conv_conj)
  have ne: "take (nat len) dat \<noteq> string_of b" if "len \<noteq> int (length (string_of b))"
    using that Cons.prems(3,4) by (auto dest!: arg_cong [of _ _ length])
  show ?case
    using * IH ne l Cons.prems(3,4) strlen_str [OF *(4)]
    by (subst contains_loop.simps) (auto simp: c_memcmp_eq_def)
qed

lemma remove_loop_eq:
  assumes "ulist_inv st l (pre @ as)" "str_at dat 0 s" "s \<notin> set (strings st pre)"
  shows "\<exists>st' l' bs. remove_loop st l dat (first as None) = Some (st', l', s \<in> set (strings st as)) \<and>
    ulist_inv st' l' bs \<and> strings st' bs = remove1 s (strings st (pre @ as)) \<and>
    (s \<in> set (strings st as) \<longrightarrow> curr l' = None) \<and> (s \<notin> set (strings st as) \<longrightarrow> st' = st \<and> l' = l)"
  using assms
proof (induction as arbitrary: pre)
  case Nil
  then show ?case
    by (subst remove_loop.simps) (force simp: strings_def remove1_idem)
next
  case (Cons a as)
  have i: "dseg (nodes st) (lastp None pre) (a # as) None" "data_ok st (a # as)"
    using Cons.prems(1) by (auto simp: ulist_inv_def list_shape_def dseg_append data_ok_def)
  obtain n b where *: "nodes st a = Some n" "nxt n = first as None" "blocks st (data n) = Some b"
    "str_at b 0 (string_of b)" "strings st (a # as) = string_of b # strings st as"
    using ulist_inv_node [OF i] by blast
  have eq: "c_strcmp_eq dat b 0 = Some (s = string_of b)" using c_strcmp_str [OF Cons.prems(2) *(4)] .
  show ?case
  proof (cases "s = string_of b")
    case True
    obtain st' l' where r: "ulist_removeItem st l a = Some (st', l')" "ulist_inv st' l' (pre @ as)"
      "strings st' (pre @ as) = strings st (pre @ as)" "curr l' = None"
      using removeItem_ok [OF Cons.prems(1)] by blast
    have "remove_loop st l dat (Some a) = Some (st', l', True)"
      using * eq True r(1) by (subst remove_loop.simps) simp
    moreover have "strings st' (pre @ as) = remove1 s (strings st (pre @ a # as))"
      using r(3) *(5) True Cons.prems(3) by (simp add: strings_def remove1_append)
    ultimately show ?thesis using r True *(5) by auto
  next
    case False
    have "remove_loop st l dat (Some a) = remove_loop st l dat (first as None)"
      using * eq False by (subst remove_loop.simps) simp
    moreover have "s \<notin> set (strings st (pre @ [a]))" using Cons.prems(3) *(5) False by (auto simp: strings_def)
    ultimately show ?thesis using Cons.IH [of "pre @ [a]"] Cons.prems(1,2) *(5) False by auto
  qed
qed

definition owned :: "Store \<Rightarrow> addr list \<Rightarrow> addr set" where
  "owned st as = {data (node_of st a) | a. a \<in> set as \<and> forceDelete (node_of st a)}"

lemma restrict_map_UNIV: "m |` UNIV = m"
  by (simp add: restrict_map_def)

lemma delete_loop_eq:
  assumes "dseg (nodes st) p as None" "data_ok st as" "distinct as"
  shows "delete_loop st (first as None) =
    Some (st\<lparr>nodes := nodes st |` (- set as), blocks := blocks st |` (- owned st as)\<rparr>)"
  using assms
proof (induction as arbitrary: p st)
  case Nil
  then show ?case by (subst delete_loop.simps) (simp add: owned_def restrict_map_UNIV)
next
  case (Cons a as)
  obtain n b where *: "nodes st a = Some n" "nxt n = first as None" "blocks st (data n) = Some b"
    "dseg (nodes st) (Some a) as None" "data_ok st as"
    using ulist_inv_node [OF Cons.prems(1,2)] by blast
  define st1 where "st1 = (if forceDelete n then st\<lparr>blocks := (blocks st)(data n := None)\<rparr> else st)"
  have f: "(if forceDelete n then free_block (Some (data n)) st else Some st) = Some st1"
    using *(3) by (simp add: free_block_def st1_def)
  let ?st2 = "st1\<lparr>nodes := (nodes st)(a := None)\<rparr>"
  have n1: "nodes st1 = nodes st" by (simp add: st1_def)
  have e: "delete_loop st (Some a) = delete_loop ?st2 (first as None)"
    using * f n1 by (subst delete_loop.simps) (simp add: free_node_def)
  have own: "\<And>c. c \<in> set as \<Longrightarrow> forceDelete n \<Longrightarrow> data (node_of st c) \<noteq> data n"
    using Cons.prems(2,3) *(1) by (auto simp: data_ok_def)
  have dk: "data_ok ?st2 as"
    using *(5) own Cons.prems(3) by (auto simp: data_ok_def block_ok_def st1_def)
  have ds: "dseg (nodes ?st2) (Some a) as None" using *(4) Cons.prems(3) by simp
  have "distinct as" using Cons.prems(3) by simp
  from Cons.IH [OF ds dk this]
  have "delete_loop ?st2 (first as None) =
      Some (?st2\<lparr>nodes := nodes ?st2 |` (- set as), blocks := blocks ?st2 |` (- owned ?st2 as)\<rparr>)" .
  moreover have "nodes ?st2 |` (- set as) = nodes st |` (- set (a # as))"
    by (auto simp: restrict_map_def fun_eq_iff)
  moreover have "blocks ?st2 |` (- owned ?st2 as) = blocks st |` (- owned st (a # as))"
  proof -
    have o: "owned ?st2 as = owned st as" using Cons.prems(3) by (auto simp: owned_def)
    have "owned st (a # as) = owned st as \<union> (if forceDelete n then {data n} else {})"
      using *(1) unfolding owned_def by (auto intro: exI [of _ a])
    then show ?thesis unfolding o by (auto simp: restrict_map_def fun_eq_iff st1_def)
  qed
  ultimately show ?case using e by (simp add: st1_def)
qed

section \<open>Enumerating\<close>

text \<open>
  What an enumeration over a list needs from the list: \<open>reset\<close> puts the cursor on the first item and
  \<open>step\<close> returns the item at the cursor and moves on, or \<open>None\<close> at the end.
\<close>

fun drain :: "('s \<Rightarrow> ('s \<times> 'a option) option) \<Rightarrow> nat \<Rightarrow> 's \<Rightarrow> ('a list \<times> 's) option" where
  "drain step 0 s = Some ([], s)"
| "drain step (Suc n) s = do {
     (s, r) \<leftarrow> step s;
     (case r of
        None \<Rightarrow> Some ([], s)
      | Some x \<Rightarrow> do { (xs, s) \<leftarrow> drain step n s; Some (x # xs, s) }) }"

locale cursor =
  fixes contents :: "'s \<Rightarrow> 'a list \<Rightarrow> bool"
    and rest :: "'s \<Rightarrow> 'a list \<Rightarrow> bool"
    and reset :: "'s \<Rightarrow> 's"
    and step :: "'s \<Rightarrow> ('s \<times> 'a option) option"
  assumes reset_rest: "contents s xs \<Longrightarrow> contents (reset s) xs \<and> rest (reset s) xs"
    and step_end: "rest s [] \<Longrightarrow> step s = Some (s, None)"
    and step_item: "contents s ys \<Longrightarrow> rest s (x # xs) \<Longrightarrow>
      \<exists>s'. step s = Some (s', Some x) \<and> contents s' ys \<and> rest s' xs"
begin

lemma drain_rest:
  "contents s ys \<Longrightarrow> rest s xs \<Longrightarrow> length xs < n \<Longrightarrow>
   \<exists>s'. drain step n s = Some (xs, s') \<and> contents s' ys \<and> rest s' []"
proof (induction xs arbitrary: s n)
  case Nil
  then show ?case using step_end [of s] by (cases n) auto
next
  case (Cons x xs)
  then obtain m where m: "n = Suc m" "length xs < m" by (cases n) auto
  obtain s1 where s1: "step s = Some (s1, Some x)" "contents s1 ys" "rest s1 xs"
    using step_item [OF Cons.prems(1,2)] by blast
  show ?case using Cons.IH [OF s1(2,3) m(2)] s1(1) m(1) by auto
qed

lemma drain_all:
  "contents s xs \<Longrightarrow> length xs < n \<Longrightarrow> \<exists>s'. drain step n (reset s) = Some (xs, s') \<and> contents s' xs"
  using drain_rest [of "reset s" xs xs n] reset_rest [of s xs] by blast

end

definition ulist_contents :: "Store \<times> UList \<Rightarrow> addr list \<Rightarrow> bool" where
  "ulist_contents = (\<lambda>(st, l) ds. \<exists>as. ulist_inv st l as \<and> ds = map (\<lambda>a. data (node_of st a)) as)"

definition ulist_rest :: "Store \<times> UList \<Rightarrow> addr list \<Rightarrow> bool" where
  "ulist_rest = (\<lambda>(st, l) ds. \<exists>p as. dseg (nodes st) p as None \<and> curr l = first as None \<and>
     ds = map (\<lambda>a. data (node_of st a)) as)"

definition ulist_step :: "Store \<times> UList \<Rightarrow> ((Store \<times> UList) \<times> addr option) option" where
  "ulist_step = (\<lambda>(st, l). map_option (\<lambda>(l, d). ((st, the l), d)) (ulist_getNext st (Some l)))"

definition ulist_restart :: "Store \<times> UList \<Rightarrow> Store \<times> UList" where
  "ulist_restart = (\<lambda>(st, l). (st, the (ulist_resetList (Some l))))"

lemma first_None_iff: "first as None = None \<longleftrightarrow> as = []"
  by (cases as) auto

lemma first_Some_mem: "first as None = Some c \<Longrightarrow> c \<in> set as"
  by (cases as) auto

lemma ulist_step_item:
  assumes "ulist_contents s ds" "ulist_rest s (x # xs)"
  shows "\<exists>s'. ulist_step s = Some (s', Some x) \<and> ulist_contents s' ds \<and> ulist_rest s' xs"
proof -
  obtain st l where s: "s = (st, l)" by (cases s)
  obtain as where as: "ulist_inv st l as" "ds = map (\<lambda>a. data (node_of st a)) as"
    using assms(1) s by (auto simp: ulist_contents_def)
  obtain p a bs where b: "dseg (nodes st) p (a # bs) None" "curr l = Some a" "x = data (node_of st a)"
    "xs = map (\<lambda>a. data (node_of st a)) bs"
    using assms(2) s by (auto simp: ulist_rest_def Cons_eq_map_conv)
  obtain n where n: "nodes st a = Some n" "nxt n = first bs None" "dseg (nodes st) (Some a) bs None"
    using b(1) by auto
  let ?l = "l\<lparr>curr := nxt n, currentIndex := currentIndex l + 1\<rparr>"
  have st: "ulist_step s = Some ((st, ?l), Some x)"
    using s b n by (simp add: ulist_step_def ulist_getNext_def)
  have nx: "\<forall>c. nxt n = Some c \<longrightarrow> c \<in> set as"
  proof -
    have "a \<in> set as" using as(1) b(2) by (auto simp: ulist_inv_def list_shape_def)
    then obtain us vs where "as = us @ a # vs" by (metis split_list)
    then have "nxt n = first vs None" "set vs \<subseteq> set as"
      using as(1) n(1) by (auto simp: ulist_inv_def list_shape_def dseg_append)
    then show ?thesis using first_Some_mem by fastforce
  qed
  have "ulist_contents (st, ?l) ds"
    using as nx by (auto simp: ulist_contents_def ulist_inv_def list_shape_def)
  moreover have "ulist_rest (st, ?l) xs"
    using n b(4) by (auto simp: ulist_rest_def)
  ultimately show ?thesis using st by blast
qed

interpretation uc: cursor ulist_contents ulist_rest ulist_restart ulist_step
proof
  fix s :: "Store \<times> UList" and xs
  assume c: "ulist_contents s xs"
  obtain st l where s: "s = (st, l)" by (cases s)
  obtain as where as: "ulist_inv st l as" "xs = map (\<lambda>a. data (node_of st a)) as"
    using c s by (auto simp: ulist_contents_def)
  then show "ulist_contents (ulist_restart s) xs \<and> ulist_rest (ulist_restart s) xs"
    using s by (auto simp: ulist_contents_def ulist_rest_def ulist_restart_def ulist_resetList_def ulist_inv_def
        list_shape_def dest: first_Some_mem)
next
  fix s :: "Store \<times> UList"
  assume "ulist_rest s []"
  then show "ulist_step s = Some (s, None)"
    by (auto simp: ulist_rest_def ulist_step_def ulist_getNext_def)
qed (rule ulist_step_item)

section \<open>Properties\<close>

text \<open>
  Adding an item at either end of a list keeps the list well linked in both directions, puts the
  string at that end and leaves the other items alone, as long as the memory for the node is
  available; the blocks with the strings are not touched.
\<close>
lemma ulist_addItem_refines:
  assumes "ulist_inv st l as" "nodes st x = None" "can_add st as d f" "\<not> U_FAILURE e" "blocks st d = Some b"
  shows "(\<exists>st' l'. ulist_addItemEndList (Some x) st (Some l) (Some d) f e = Some (st', Some l', e) \<and>
      ulist_inv st' l' (as @ [x]) \<and> strings st' (as @ [x]) = strings st as @ [string_of b]) \<and>
    (\<exists>st' l'. ulist_addItemBeginList (Some x) st (Some l) (Some d) f e = Some (st', Some l', e) \<and>
      ulist_inv st' l' (x # as) \<and> strings st' (x # as) = string_of b # strings st as)"
proof

  have sh: "list_shape st l as" using assms(1) by (simp add: ulist_inv_def)
  obtain st' l' where "add_item link_end (Some x) st (Some l) (Some d) f e = Some (st', Some l', e)"
    "ulist_inv st' l' (as @ [x])" "\<forall>a \<in> set as. data (node_of st' a) = data (node_of st a)"
    "data (node_of st' x) = d" "blocks st' = blocks st"
    using add_item_ok [OF assms(1-4), of "as @ [x]" link_end] link_end_shape [OF sh _ assms(2)] by auto
  then show "\<exists>st' l'. ulist_addItemEndList (Some x) st (Some l) (Some d) f e = Some (st', Some l', e) \<and>
      ulist_inv st' l' (as @ [x]) \<and> strings st' (as @ [x]) = strings st as @ [string_of b]"
    using assms(5) by (auto simp: ulist_addItemEndList_def strings_def)
  obtain st' l' where "add_item link_begin (Some x) st (Some l) (Some d) f e = Some (st', Some l', e)"
    "ulist_inv st' l' (x # as)" "\<forall>a \<in> set as. data (node_of st' a) = data (node_of st a)"
    "data (node_of st' x) = d" "blocks st' = blocks st"
    using add_item_ok [OF assms(1-4), of "x # as" link_begin] link_begin_shape [OF sh _ assms(2)] by auto
  then show "\<exists>st' l'. ulist_addItemBeginList (Some x) st (Some l) (Some d) f e = Some (st', Some l', e) \<and>
      ulist_inv st' l' (x # as) \<and> strings st' (x # as) = string_of b # strings st as"
    using assms(5) by (auto simp: ulist_addItemBeginList_def strings_def)
qed

text \<open>A list of the strings \<open>A\<close> and \<open>B\<close> at the nodes 5 and 6, and a third block with \<open>B\<close>.\<close>

definition two_store :: Store where
  "two_store =
     \<lparr>nodes = [5 \<mapsto> \<lparr>data = 11, nxt = Some 6, previous = None, forceDelete = True\<rparr>,
               6 \<mapsto> \<lparr>data = 12, nxt = None, previous = Some 5, forceDelete = False\<rparr>],
      blocks = [11 \<mapsto> [0x41, 0], 12 \<mapsto> [0x42, 0], 13 \<mapsto> [0x42, 0, 0]]\<rparr>"

definition two_list :: UList where
  "two_list = \<lparr>curr = None, head = Some 5, tail = Some 6, list_size = 2, currentIndex = 0\<rparr>"

lemma two_inv: "ulist_inv two_store two_list [5, 6]"
  by (auto simp: ulist_inv_def list_shape_def data_ok_def block_ok_def two_store_def two_list_def)

lemma two_strings: "strings two_store [5, 6] = [[0x41], [0x42]]"
  by (simp add: strings_def two_store_def string_of_def)

lemma ulist_addItem_refines_witness:
  "\<exists>st' l'. ulist_addItemEndList (Some 7) two_store (Some two_list) (Some 13) False U_ZERO_ERROR = Some (st', Some l', U_ZERO_ERROR) \<and>
    strings st' [5, 6, 7] = [[0x41], [0x42], [0x42]]"
proof -
  have c: "can_add two_store [5, 6] 13 False"
    by (auto simp: can_add_def block_ok_def two_store_def)
  have "nodes two_store 7 = None" "blocks two_store 13 = Some [0x42, 0, 0]" by (simp_all add: two_store_def)
  with ulist_addItem_refines [OF two_inv _ c, of 7 U_ZERO_ERROR "[0x42, 0, 0]"]
  show ?thesis by (auto simp: two_strings string_of_def)
qed

text \<open>
  C36: \<open>ulist_removeString\<close> removes the first item that equals the string and says whether there was one.
  The remaining nodes stay linked in both directions, whichever of head, tail and middle the item
  was. The cursor is gone after a removal; without one nothing changes.
\<close>
theorem ulist_removeString_refines:
  assumes "ulist_inv st l as" "str_at dat 0 s"
  shows "\<exists>st' l' bs. ulist_removeString st (Some l) dat = Some (st', Some l', s \<in> set (strings st as)) \<and>
    ulist_inv st' l' bs \<and> strings st' bs = remove1 s (strings st as) \<and>
    (s \<in> set (strings st as) \<longrightarrow> curr l' = None) \<and> (s \<notin> set (strings st as) \<longrightarrow> st' = st \<and> l' = l)"
proof -
  have h: "head l = first as None" using assms(1) by (simp add: ulist_inv_def list_shape_def)
  show ?thesis using remove_loop_eq [of st l "[]" as dat s] assms by (auto simp: ulist_removeString_def h strings_def)
qed

theorem ulist_removeString_refines_witness:
  "\<exists>st' l' bs. ulist_removeString two_store (Some two_list) [0x41, 0] = Some (st', Some l', True) \<and>
    ulist_inv st' l' bs \<and> strings st' bs = [[0x42]]"
  using ulist_removeString_refines [OF two_inv, of "[0x41, 0]" "[0x41]"]
  by (auto simp: two_strings str_at_simps)

text \<open>
  \<open>ulist_containsString\<close> returns, and says whether one of the strings of the list is the first
  \<open>length\<close> bytes of the argument.
\<close>
theorem ulist_containsString_correct:
  assumes "ulist_inv st l as" "0 \<le> len" "len \<le> int (length dat)"
  shows "ulist_containsString st (Some l) dat len = Some (take (nat len) dat \<in> set (strings st as))"
  using assms contains_loop_eq [of st None as len dat]
  by (simp add: ulist_containsString_def ulist_inv_def list_shape_def)

theorem ulist_containsString_correct_witness:
  "ulist_containsString two_store (Some two_list) [0x42, 0x43, 0] 1 = Some True"
  using ulist_containsString_correct [OF two_inv, of 1 "[0x42, 0x43, 0]"] by (simp add: two_strings)

text \<open>
  C38: Enumerating a list with \<open>ulist_resetList\<close> and \<open>ulist_getNext\<close> gives the data of all items in the
  order of the list and then NULL, and keeps the list.
\<close>
theorem ulist_enumeration_complete:
  assumes "ulist_inv st l as" "length as < n"
  shows "\<exists>st' l'. drain ulist_step n (st, the (ulist_resetList (Some l))) =
    Some (map (\<lambda>a. data (node_of st a)) as, (st', l')) \<and>
    (\<exists>bs. ulist_inv st' l' bs \<and> map (\<lambda>a. data (node_of st' a)) bs = map (\<lambda>a. data (node_of st a)) as)"
proof -
  have "ulist_contents (st, l) (map (\<lambda>a. data (node_of st a)) as)"
    using assms(1) by (auto simp: ulist_contents_def)
  from uc.drain_all [OF this, of n] assms(2) obtain s where
    s: "drain ulist_step n (ulist_restart (st, l)) = Some (map (\<lambda>a. data (node_of st a)) as, s)"
      "ulist_contents s (map (\<lambda>a. data (node_of st a)) as)"
    by auto
  obtain st' l' where "s = (st', l')" by (cases s)
  with s show ?thesis by (auto simp: ulist_restart_def ulist_contents_def intro!: exI [of _ st'] exI [of _ l'])
qed

theorem ulist_enumeration_complete_witness:
  "\<exists>st' l'. drain ulist_step 3 (two_store, the (ulist_resetList (Some two_list))) = Some ([11, 12], (st', l'))"
  using ulist_enumeration_complete [OF two_inv, of 3] by (auto simp: two_store_def)

text \<open>
  C37: \<open>ulist_deleteList\<close> ends, frees every node of the list once and no other, and frees exactly the
  strings that the list owns.
\<close>
theorem ulist_deleteList_frees:
  assumes "ulist_inv st l as"
  shows "ulist_deleteList st (Some l) =
    Some (st\<lparr>nodes := nodes st |` (- set as), blocks := blocks st |` (- owned st as)\<rparr>)"
  using assms delete_loop_eq [of st None as]
  by (simp add: ulist_deleteList_def ulist_inv_def list_shape_def)

theorem ulist_deleteList_frees_witness:
  "\<exists>st'. ulist_deleteList two_store (Some two_list) = Some st' \<and> nodes st' 5 = None \<and> blocks st' 11 = None \<and>
     blocks st' 12 = Some [0x42, 0]"
  using ulist_deleteList_frees [OF two_inv] by (auto simp: owned_def restrict_map_def two_store_def)
end
