(* ===== verification/PropsVec.thy ===== *)
theory PropsVec
  imports ArraySort
begin

text \<open>
  Properties vectors (\<open>propsvec.c\<close>): a table of rows that cover the code points 0 to 0x110001 without
  gaps. A row is a list of \<open>columns\<close> cells: the start and the limit of its range and the values. The
  memory \<open>v\<close> is the list of the \<open>maxRows\<close> rows that are allocated, of which the first \<open>rows\<close> are in use;
  a pointer to a row is its index. \<open>malloc n k\<close> is the memory for \<open>n\<close> rows of \<open>k\<close> cells with what
  happens to be in it, or \<open>None\<close>. This theory has the functions that build a table.
\<close>

section \<open>State\<close>

record UPropsVectors =
  v :: "u32 list list"
  columns :: int
  maxRows :: int
  rows :: int
  prevRow :: int
  isCompacted :: bool

definition UPVEC_FIRST_SPECIAL_CP :: UChar32 where "UPVEC_FIRST_SPECIAL_CP = 0x110000"
definition UPVEC_MAX_CP :: UChar32 where "UPVEC_MAX_CP = 0x110001"
definition UPVEC_INITIAL_ROWS :: int where "UPVEC_INITIAL_ROWS = 2 ^ 12"
definition UPVEC_MEDIUM_ROWS :: int where "UPVEC_MEDIUM_ROWS = 2 ^ 16"
definition UPVEC_MAX_ROWS :: int where "UPVEC_MAX_ROWS = UPVEC_MAX_CP + 1"

text \<open>A cell of a row, read as \<open>UChar32\<close>.\<close>

definition cell :: "u32 list \<Rightarrow> nat \<Rightarrow> UChar32" where
  "cell row k = sint (row ! k)"

definition set_cell :: "u32 list list \<Rightarrow> int \<Rightarrow> nat \<Rightarrow> int \<Rightarrow> u32 list list option" where
  "set_cell vs i k x = do { r \<leftarrow> rd vs i; wr vs i (r[k := word_of_int x]) }"

section \<open>Opening\<close>

function special_rows :: "u32 list list \<Rightarrow> int \<Rightarrow> UChar32 \<Rightarrow> u32 list list option" where
  "special_rows vs row cp =
     (if cp \<le> UPVEC_MAX_CP then do {
        vs \<leftarrow> set_cell vs row 0 cp;
        vs \<leftarrow> set_cell vs row 1 (cp + 1);
        special_rows vs (row + 1) (cp + 1) }
      else Some vs)"
  by pat_completeness auto
termination by (relation "measure (\<lambda>(vs, row, cp). nat (UPVEC_MAX_CP + 1 - cp))") auto

declare special_rows.simps [simp del]

definition upvec_open ::
  "bool \<Rightarrow> (int \<Rightarrow> int \<Rightarrow> u32 list list option) \<Rightarrow> int \<Rightarrow> UErrorCode \<Rightarrow> (UPropsVectors option \<times> UErrorCode) option" where
  "upvec_open mallocObject malloc cols e =
     (if U_FAILURE e then Some (None, e)
      else if cols < 1 then Some (None, U_ILLEGAL_ARGUMENT_ERROR)
      else do {
        let cols = cols + 2;
        (case malloc UPVEC_INITIAL_ROWS cols of
           None \<Rightarrow> Some (None, U_MEMORY_ALLOCATION_ERROR)
         | Some vs \<Rightarrow>
             if \<not> mallocObject then Some (None, U_MEMORY_ALLOCATION_ERROR)
             else do {
               let n = 2 + (UPVEC_MAX_CP - UPVEC_FIRST_SPECIAL_CP);
               let vs = replicate (nat n) (replicate (nat cols) 0) @ drop (nat n) vs;
               vs \<leftarrow> set_cell vs 0 0 0;
               vs \<leftarrow> set_cell vs 0 1 0x110000;
               vs \<leftarrow> special_rows vs 1 UPVEC_FIRST_SPECIAL_CP;
               Some (Some \<lparr>v = vs, columns = cols, maxRows = UPVEC_INITIAL_ROWS, rows = n, prevRow = 0,
                 isCompacted = False\<rparr>, e) }) })"

section \<open>Finding the row of a code point\<close>

text \<open>The loop over the next rows, entered with the first row that it looks at.\<close>

function close_loop :: "u32 list list \<Rightarrow> UChar32 \<Rightarrow> int \<Rightarrow> int option" where
  "close_loop vs rangeStart i = do {
     row \<leftarrow> rd vs i;
     if rangeStart \<ge> cell row 1 then close_loop vs rangeStart (i + 1) else Some i }"
  by pat_completeness auto
termination by (relation "measure (\<lambda>(vs, c, i). nat (int (length vs) - i))") (auto simp: rd_Some_iff)

declare close_loop.simps [simp del]

function find_halve :: "u32 list list \<Rightarrow> UChar32 \<Rightarrow> int \<Rightarrow> int \<Rightarrow> int option" where
  "find_halve vs rangeStart start limit =
     (if start < limit - 1 then do {
        let i = (start + limit) div 2;
        row \<leftarrow> rd vs i;
        if rangeStart < cell row 0 then find_halve vs rangeStart start i
        else if rangeStart < cell row 1 then Some i
        else find_halve vs rangeStart i limit }
      else Some start)"
  by pat_completeness auto
termination by (relation "measure (\<lambda>(vs, c, start, limit). nat (limit - start))") auto

declare find_halve.simps [simp del]

text \<open>The result is the table with its new \<open>prevRow\<close>, and the row.\<close>

definition findRow :: "UPropsVectors \<Rightarrow> UChar32 \<Rightarrow> (UPropsVectors \<times> int) option" where
  "findRow pv rangeStart = do {
     let p = prevRow pv;
     let found = (\<lambda>i. Some (pv\<lparr>prevRow := i\<rparr>, i));
     let search = (do { i \<leftarrow> find_halve (v pv) rangeStart 0 (rows pv); found i });
     row \<leftarrow> rd (v pv) p;
     if rangeStart \<ge> cell row 0 then
       if rangeStart < cell row 1 then Some (pv, p)
       else do {
         row \<leftarrow> rd (v pv) (p + 1);
         if rangeStart < cell row 1 then found (p + 1)
         else do {
           row \<leftarrow> rd (v pv) (p + 2);
           if rangeStart < cell row 1 then found (p + 2)
           else if rangeStart - cell row 1 < 10
           then do { i \<leftarrow> close_loop (v pv) rangeStart (p + 3); found i }
           else search } }
     else do {
       row \<leftarrow> rd (v pv) 0;
       if rangeStart < cell row 1 then found 0 else search } }"

section \<open>Setting a value\<close>

function set_loop :: "u32 list list \<Rightarrow> nat \<Rightarrow> u32 \<Rightarrow> u32 \<Rightarrow> int \<Rightarrow> int \<Rightarrow> u32 list list option" where
  "set_loop vs col val notMask i lst = do {
     r \<leftarrow> rd vs i;
     vs \<leftarrow> wr vs i (r[col := (r ! col AND notMask) OR val]);
     if i = lst then Some vs else set_loop vs col val notMask (i + 1) lst }"
  by pat_completeness auto
termination
  by (relation "measure (\<lambda>(vs, col, val, notMask, i, lst). nat (int (length vs) - i))")
    (auto simp: rd_Some_iff wr_Some_iff)

declare set_loop.simps [simp del]

text \<open>Making room for \<open>need\<close> rows: the table, or the error.\<close>

definition grow_rows ::
  "(int \<Rightarrow> int \<Rightarrow> u32 list list option) \<Rightarrow> UPropsVectors \<Rightarrow> int \<Rightarrow> UErrorCode + UPropsVectors" where
  "grow_rows malloc pv need =
     (if need > maxRows pv then
        (let newMax = (if maxRows pv < UPVEC_MEDIUM_ROWS then Some UPVEC_MEDIUM_ROWS
                       else if maxRows pv < UPVEC_MAX_ROWS then Some UPVEC_MAX_ROWS else None) in
         case newMax of
           None \<Rightarrow> Inl U_INTERNAL_PROGRAM_ERROR
         | Some n \<Rightarrow> (case malloc n (columns pv) of
             None \<Rightarrow> Inl U_MEMORY_ALLOCATION_ERROR
           | Some vs \<Rightarrow> Inr (pv\<lparr>v := overwrite vs 0 (take (nat (rows pv)) (v pv)), maxRows := n\<rparr>)))
      else Inr pv)"

text \<open>Splitting the first and the last row; the results are the indexes of the rows to set.\<close>

definition split_rows ::
  "UPropsVectors \<Rightarrow> int \<Rightarrow> int \<Rightarrow> bool \<Rightarrow> bool \<Rightarrow> UChar32 \<Rightarrow> UChar32 \<Rightarrow> (UPropsVectors \<times> int \<times> int) option" where
  "split_rows pv firstRow lastRow splitFirst splitLast start limit = do {
     let extra = of_bool splitFirst + of_bool splitLast;
     let n = rows pv - (lastRow + 1);
     vs \<leftarrow> (if n > 0 then memmove (v pv) (lastRow + 1 + extra) (lastRow + 1) n else Some (v pv));
     (vs, firstRow, lastRow) \<leftarrow> (if splitFirst then do {
         vs \<leftarrow> memmove vs (firstRow + 1) firstRow (lastRow - firstRow + 1);
         vs \<leftarrow> set_cell vs firstRow 1 start;
         vs \<leftarrow> set_cell vs (firstRow + 1) 0 start;
         Some (vs, firstRow + 1, lastRow + 1) }
       else Some (vs, firstRow, lastRow));
     vs \<leftarrow> (if splitLast then do {
         r \<leftarrow> rd vs lastRow;
         vs \<leftarrow> wr vs (lastRow + 1) r;
         vs \<leftarrow> set_cell vs lastRow 1 limit;
         set_cell vs (lastRow + 1) 0 limit }
       else Some vs);
     Some (pv\<lparr>v := vs, rows := rows pv + extra\<rparr>, firstRow, lastRow) }"

definition upvec_setValue ::
  "(int \<Rightarrow> int \<Rightarrow> u32 list list option) \<Rightarrow> UPropsVectors option \<Rightarrow> UChar32 \<Rightarrow> UChar32 \<Rightarrow> int \<Rightarrow> u32 \<Rightarrow> u32 \<Rightarrow>
     UErrorCode \<Rightarrow> (UPropsVectors option \<times> UErrorCode) option" where
  "upvec_setValue malloc pvo start end_cp column val msk e =
     (if U_FAILURE e then Some (pvo, e)
      else case pvo of
        None \<Rightarrow> Some (pvo, U_ILLEGAL_ARGUMENT_ERROR)
      | Some pv \<Rightarrow>
          if start < 0 \<or> start > end_cp \<or> end_cp > UPVEC_MAX_CP \<or> column < 0 \<or> column \<ge> columns pv - 2
          then Some (pvo, U_ILLEGAL_ARGUMENT_ERROR)
          else if isCompacted pv then Some (pvo, U_NO_WRITE_PERMISSION)
          else do {
            let limit = end_cp + 1;
            let col = nat (column + 2);
            let val = val AND msk;
            (pv, firstRow) \<leftarrow> findRow pv start;
            (pv, lastRow) \<leftarrow> findRow pv end_cp;
            f \<leftarrow> rd (v pv) firstRow;
            l \<leftarrow> rd (v pv) lastRow;
            let splitFirst = (start \<noteq> cell f 0 \<and> val \<noteq> f ! col AND msk);
            let splitLast = (limit \<noteq> cell l 1 \<and> val \<noteq> l ! col AND msk);
            let room = (if splitFirst \<or> splitLast
              then grow_rows malloc pv (rows pv + of_bool splitFirst + of_bool splitLast) else Inr pv);
            (case room of
               Inl err \<Rightarrow> Some (Some pv, err)
             | Inr pv \<Rightarrow> do {
                 (pv, firstRow, lastRow) \<leftarrow> (if splitFirst \<or> splitLast
                   then split_rows pv firstRow lastRow splitFirst splitLast start limit
                   else Some (pv, firstRow, lastRow));
                 vs \<leftarrow> set_loop (v pv) col val (NOT msk) firstRow lastRow;
                 Some (Some (pv\<lparr>v := vs, prevRow := lastRow\<rparr>), e) }) })"

section \<open>Reading\<close>

definition upvec_getValue :: "UPropsVectors \<Rightarrow> UChar32 \<Rightarrow> int \<Rightarrow> (UPropsVectors \<times> u32) option" where
  "upvec_getValue pv c column =
     (if isCompacted pv \<or> c < 0 \<or> c > UPVEC_MAX_CP \<or> column < 0 \<or> column \<ge> columns pv - 2 then Some (pv, 0)
      else do {
        (pv, i) \<leftarrow> findRow pv c;
        row \<leftarrow> rd (v pv) i;
        Some (pv, row ! nat (2 + column)) })"

text \<open>The range of a row and its values, \<open>None\<close> inside for NULL.\<close>

definition upvec_getRow :: "UPropsVectors \<Rightarrow> int \<Rightarrow> (UChar32 \<times> UChar32 \<times> u32 list) option option" where
  "upvec_getRow pv rowIndex =
     (if isCompacted pv \<or> rowIndex < 0 \<or> rowIndex \<ge> rows pv then Some None
      else do {
        row \<leftarrow> rd (v pv) rowIndex;
        Some (Some (cell row 0, cell row 1 - 1, drop 2 row)) })"

section \<open>Rows that cover a range\<close>

fun chain :: "int \<Rightarrow> u32 list list \<Rightarrow> int \<Rightarrow> bool" where
  "chain a [] b \<longleftrightarrow> a = b"
| "chain a (r # rs) b \<longleftrightarrow> cell r 0 = a \<and> a < cell r 1 \<and> chain (cell r 1) rs b"

text \<open>The row of a code point, and its values.\<close>

fun row_for :: "u32 list list \<Rightarrow> UChar32 \<Rightarrow> u32 list" where
  "row_for [] c = []"
| "row_for (r # rs) c = (if c < cell r 1 then r else row_for rs c)"

definition vals_for :: "u32 list list \<Rightarrow> UChar32 \<Rightarrow> u32 list" where
  "vals_for rs c = drop 2 (row_for rs c)"

lemma chain_append: "chain a (xs @ ys) b \<longleftrightarrow> (\<exists>m. chain a xs m \<and> chain m ys b)"
  by (induction xs arbitrary: a) auto

lemma chain_le: "chain a rs b \<Longrightarrow> a + int (length rs) \<le> b"
  by (induction rs arbitrary: a) force+

lemma chain_row: "chain a rs b \<Longrightarrow> r \<in> set rs \<Longrightarrow> a \<le> cell r 0 \<and> cell r 0 < cell r 1 \<and> cell r 1 \<le> b"
proof (induction rs arbitrary: a)
  case (Cons x xs)
  then show ?case using chain_le [of "cell x 1" xs b] by fastforce
qed simp

lemma chain_last: "chain a rs b \<Longrightarrow> rs \<noteq> [] \<Longrightarrow> cell (last rs) 1 = b"
  by (induction rs arbitrary: a) auto

lemma chain_split_nth:
  assumes "chain a rs b" "i < length rs"
  shows "chain a (take i rs) (cell (rs ! i) 0)" "chain (cell (rs ! i) 1) (drop (Suc i) rs) b"
    "cell (rs ! i) 0 < cell (rs ! i) 1"
proof -
  have "chain a (take i rs @ rs ! i # drop (Suc i) rs) b" using assms by (simp add: id_take_nth_drop [symmetric])
  then show "chain a (take i rs) (cell (rs ! i) 0)" "chain (cell (rs ! i) 1) (drop (Suc i) rs) b"
    "cell (rs ! i) 0 < cell (rs ! i) 1"
    by (auto simp: chain_append)
qed

lemma chain_nth:
  assumes "chain a rs b"
  shows "rs \<noteq> [] \<Longrightarrow> cell (rs ! 0) 0 = a"
    "Suc i < length rs \<Longrightarrow> cell (rs ! Suc i) 0 = cell (rs ! i) 1"
    "rs \<noteq> [] \<Longrightarrow> cell (rs ! (length rs - 1)) 1 = b"
proof -
  show "cell (rs ! 0) 0 = a" if "rs \<noteq> []" using assms that by (cases rs) auto
  show "cell (rs ! (length rs - 1)) 1 = b" if "rs \<noteq> []" using chain_last [OF assms that] that by (simp add: last_conv_nth)
  show "cell (rs ! Suc i) 0 = cell (rs ! i) 1" if "Suc i < length rs"
  proof -
    have "drop (Suc i) rs = rs ! Suc i # drop (Suc (Suc i)) rs" using that by (simp add: Cons_nth_drop_Suc)
    then show ?thesis using chain_split_nth(2) [OF assms, of i] that by simp
  qed
qed

lemma row_for_append:
  "chain a xs m \<Longrightarrow> row_for (xs @ ys) c = (if c < m \<and> xs \<noteq> [] then row_for xs c else row_for ys c)"
proof (induction xs arbitrary: a)
  case (Cons x xs)
  then show ?case using chain_le [of "cell x 1" xs m] by (cases "xs = []") auto
qed simp

lemma row_for_nth:
  assumes "chain a rs b" "i < length rs" "cell (rs ! i) 0 \<le> c" "c < cell (rs ! i) 1"
  shows "row_for rs c = rs ! i"
proof -
  have "row_for (take i rs @ rs ! i # drop (Suc i) rs) c = rs ! i"
    using assms chain_split_nth(1) [OF assms(1,2)] by (simp add: row_for_append)
  then show ?thesis using assms(2) by (simp add: id_take_nth_drop [symmetric])
qed

lemma row_for_mem: "chain a rs b \<Longrightarrow> c < b \<Longrightarrow> a \<le> c \<Longrightarrow> row_for rs c \<in> set rs \<and> cell (row_for rs c) 0 \<le> c \<and> c < cell (row_for rs c) 1"
proof (induction rs arbitrary: a)
  case (Cons r rs)
  show ?case using Cons.IH [of "cell r 1"] Cons.prems by (cases "c < cell r 1") auto
qed simp

text \<open>Cutting a row in two at \<open>t\<close>.\<close>

definition cut_row :: "nat \<Rightarrow> int \<Rightarrow> u32 list list \<Rightarrow> u32 list list" where
  "cut_row i t rs = take i rs @ [(rs ! i)[1 := word_of_int t], (rs ! i)[0 := word_of_int t]] @ drop (Suc i) rs"

lemma sint_small: "0 \<le> t \<Longrightarrow> t < 2 ^ 31 \<Longrightarrow> sint (word_of_int t :: u32) = t"
  by (simp add: sint_sbintrunc' signed_take_bit_int_eq_self)

lemma cell_update:
  "k < length r \<Longrightarrow> 0 \<le> t \<Longrightarrow> t < 2 ^ 31 \<Longrightarrow> cell (r[k := word_of_int t]) j = (if j = k then t else cell r j)"
  by (simp add: cell_def nth_list_update sint_small)

lemma cut_row_length: "i < length rs \<Longrightarrow> length (cut_row i t rs) = Suc (length rs)"
  by (simp add: cut_row_def)

lemma cut_row_append: "i < length xs \<Longrightarrow> cut_row i t (xs @ ys) = cut_row i t xs @ ys"
  by (simp add: cut_row_def nth_append)

lemma cut_row_ok:
  assumes ch: "chain a rs b" and i: "i < length rs" and t: "cell (rs ! i) 0 < t" "t < cell (rs ! i) 1"
    and a: "0 \<le> a" "b < 2 ^ 31" and len: "2 \<le> length (rs ! i)"
  shows "chain a (cut_row i t rs) b"
    and "vals_for (cut_row i t rs) c = vals_for rs c"
proof -
  let ?r = "rs ! i"
  note s = chain_split_nth [OF ch i]
  have b: "0 \<le> t" "t < 2 ^ 31" using t chain_row [OF ch nth_mem [OF i]] a by auto
  have "?r \<noteq> []" using len by auto
  then have c: "cell (?r[1 := word_of_int t]) 0 = cell ?r 0" "cell (?r[1 := word_of_int t]) 1 = t"
    "cell (?r[0 := word_of_int t]) 0 = t" "cell (?r[0 := word_of_int t]) 1 = cell ?r 1"
    using cell_update [of 0 ?r t, OF _ b] cell_update [of 1 ?r t, OF _ b] len by auto
  show "chain a (cut_row i t rs) b"
    using s t c by (auto simp: cut_row_def chain_append)
  have d: "drop 2 (?r[k := x]) = drop 2 ?r" if "k < 2" for k x
    using that by (simp add: drop_update_cancel)
  have "row_for rs c = row_for (take i rs @ ?r # drop (Suc i) rs) c" using i by (simp add: id_take_nth_drop [symmetric])
  then show "vals_for (cut_row i t rs) c = vals_for rs c"
    using t c d by (auto simp: vals_for_def cut_row_def row_for_append [OF s(1)])
qed

text \<open>Changing the values of the rows from \<open>i\<close> to \<open>j\<close>.\<close>

definition map_rows :: "(u32 list \<Rightarrow> u32 list) \<Rightarrow> nat \<Rightarrow> nat \<Rightarrow> u32 list list \<Rightarrow> u32 list list" where
  "map_rows f i j rs = take i rs @ map f (take (Suc j - i) (drop i rs)) @ drop (Suc j) rs"

lemma map_rows_length: "i \<le> j \<Longrightarrow> j < length rs \<Longrightarrow> length (map_rows f i j rs) = length rs"
  by (simp add: map_rows_def)

lemma chain_map: "(\<And>r. cell (f r) 0 = cell r 0 \<and> cell (f r) 1 = cell r 1) \<Longrightarrow> chain a (map f rs) b \<longleftrightarrow> chain a rs b"
  by (induction rs arbitrary: a) auto

lemma row_for_map: "(\<And>r. cell (f r) 1 = cell r 1) \<Longrightarrow> chain a rs b \<Longrightarrow> a \<le> c \<Longrightarrow> c < b \<Longrightarrow> row_for (map f rs) c = f (row_for rs c)"
  by (induction rs arbitrary: a) auto

lemma map_rows_ok:
  assumes f: "\<And>r. cell (f r) 0 = cell r 0 \<and> cell (f r) 1 = cell r 1"
    and ch: "chain a rs b" and ij: "i \<le> j" "j < length rs"
  shows "chain a (map_rows f i j rs) b"
    and "a \<le> c \<Longrightarrow> c < b \<Longrightarrow>
      row_for (map_rows f i j rs) c =
        (if cell (rs ! i) 0 \<le> c \<and> c < cell (rs ! j) 1 then f (row_for rs c) else row_for rs c)"
proof -
  define xs ys zs where "xs = take i rs" and "ys = take (Suc j - i) (drop i rs)" and "zs = drop (Suc j) rs"
  have yz: "ys @ zs = drop i rs"
    using append_take_drop_id [of "Suc j - i" "drop i rs"] ij by (simp add: ys_def zs_def)
  have rs: "rs = xs @ ys @ zs" unfolding yz by (simp add: xs_def)
  have c1: "chain a xs (cell (rs ! i) 0)" using chain_split_nth(1) [OF ch] ij by (simp add: xs_def)
  have c3: "chain (cell (rs ! j) 1) zs b" using chain_split_nth(2) [OF ch] ij by (simp add: zs_def)
  have "chain (cell (rs ! i) 0) (drop i rs) b"
  proof -
    have "drop i rs = rs ! i # drop (Suc i) rs" using ij by (simp add: Cons_nth_drop_Suc)
    moreover have "i < length rs" using ij by simp
    ultimately show ?thesis using chain_split_nth(2) [OF ch, of i] chain_split_nth(3) [OF ch, of i] by simp
  qed
  then have "chain (cell (rs ! i) 0) (ys @ zs) b" by (simp add: yz)
  then obtain m where m: "chain (cell (rs ! i) 0) ys m" "chain m zs b" by (auto simp: chain_append)
  have ys: "ys \<noteq> []" "last ys = rs ! j" using ij by (auto simp: ys_def last_conv_nth)
  have lastc: "chain x us y \<Longrightarrow> us \<noteq> [] \<Longrightarrow> cell (last us) 1 = y" for x y us
    by (induction us arbitrary: x) auto
  have "m = cell (rs ! j) 1" using lastc [OF m(1) ys(1)] ys(2) by simp
  then have c2: "chain (cell (rs ! i) 0) ys (cell (rs ! j) 1)" using m by simp
  have mr: "map_rows f i j rs = xs @ map f ys @ zs" by (simp add: map_rows_def xs_def ys_def zs_def)
  have c2': "chain (cell (rs ! i) 0) (map f ys) (cell (rs ! j) 1)" using c2 chain_map [OF f] by blast
  show "chain a (map_rows f i j rs) b" unfolding mr chain_append using c1 c2' c3 by blast
  assume cb: "a \<le> c" "c < b"
  have xs0: "cell (rs ! i) 0 = a" if "xs = []" using c1 that by simp
  show "row_for (map_rows f i j rs) c =
        (if cell (rs ! i) 0 \<le> c \<and> c < cell (rs ! j) 1 then f (row_for rs c) else row_for rs c)"
    unfolding mr rs [symmetric] 
    using cb xs0 ys(1) f
    by (subst (2 3) rs) (auto simp: row_for_append [OF c1] row_for_append [OF c2] row_for_append [OF c2'] row_for_map [OF _ c2])
qed

section \<open>The invariant of a table\<close>

definition used :: "UPropsVectors \<Rightarrow> u32 list list" where
  "used pv = take (nat (rows pv)) (v pv)"

definition pv_inv :: "UPropsVectors \<Rightarrow> bool" where
  "pv_inv pv \<longleftrightarrow>
     \<not> isCompacted pv \<and> 3 \<le> columns pv \<and> (\<forall>r \<in> set (v pv). int (length r) = columns pv) \<and>
     int (length (v pv)) = maxRows pv \<and> maxRows pv \<in> {UPVEC_INITIAL_ROWS, UPVEC_MEDIUM_ROWS, UPVEC_MAX_ROWS} \<and>
     0 < rows pv \<and> rows pv \<le> maxRows pv \<and> 0 \<le> prevRow pv \<and> prevRow pv < rows pv \<and>
     chain 0 (used pv) (UPVEC_MAX_CP + 1) \<and>
     (\<forall>s \<in> {UPVEC_FIRST_SPECIAL_CP, UPVEC_MAX_CP}. \<exists>r \<in> set (used pv). cell r 0 = s)"

definition malloc_ok :: "(int \<Rightarrow> int \<Rightarrow> u32 list list option) \<Rightarrow> bool" where
  "malloc_ok malloc \<longleftrightarrow>
     (\<forall>n k vs. malloc n k = Some vs \<longrightarrow> int (length vs) = n \<and> (\<forall>r \<in> set vs. int (length r) = k))"

text \<open>The value that the table has for a code point and a column.\<close>

definition value_of :: "UPropsVectors \<Rightarrow> UChar32 \<Rightarrow> int \<Rightarrow> u32" where
  "value_of pv c column = vals_for (used pv) c ! nat column"

definition covers :: "u32 list list \<Rightarrow> UChar32 \<Rightarrow> int \<Rightarrow> bool" where
  "covers rs c i \<longleftrightarrow> 0 \<le> i \<and> i < int (length rs) \<and> cell (rs ! nat i) 0 \<le> c \<and> c < cell (rs ! nat i) 1"

lemma used_length: "pv_inv pv \<Longrightarrow> length (used pv) = nat (rows pv)"
  by (auto simp: pv_inv_def used_def)

lemma used_rd: "pv_inv pv \<Longrightarrow> 0 \<le> i \<Longrightarrow> i < rows pv \<Longrightarrow> rd (v pv) i = Some (used pv ! nat i)"
  by (auto simp: pv_inv_def used_def rd_Some_iff)

lemma used_prevRow [simp]: "used (pv\<lparr>prevRow := p\<rparr>) = used pv"
  by (simp add: used_def)

text \<open>The limit of a row is the start of the next one, or the end of the table.\<close>

lemma next_start:
  assumes "chain a rs b" "0 \<le> i" "i < int (length rs)"
  shows "i + 1 < int (length rs) \<and> cell (rs ! nat (i + 1)) 0 = cell (rs ! nat i) 1 \<or>
    i + 1 = int (length rs) \<and> cell (rs ! nat i) 1 = b"
proof (cases "i + 1 < int (length rs)")
  case True
  then have "Suc (nat i) < length rs" "nat (i + 1) = Suc (nat i)" using assms by auto
  then show ?thesis using chain_nth(2) [OF assms(1), of "nat i"] True by simp
next
  case False
  then have "nat i = length rs - 1" "rs \<noteq> []" using assms by auto
  then show ?thesis using chain_nth(3) [OF assms(1)] False assms by auto
qed

lemma close_loop_ok:
  assumes ch: "chain a rs b" and rdv: "\<And>i. 0 \<le> i \<Longrightarrow> i < int (length rs) \<Longrightarrow> rd vs i = Some (rs ! nat i)"
    and c: "c < b"
  shows "0 \<le> i \<Longrightarrow> i < int (length rs) \<Longrightarrow> cell (rs ! nat i) 0 \<le> c \<Longrightarrow> \<exists>j. close_loop vs c i = Some j \<and> covers rs c j"
proof (induction "nat (int (length rs) - i)" arbitrary: i rule: less_induct)
  case less
  show ?case
  proof (cases "c < cell (rs ! nat i) 1")
    case True
    then show ?thesis using less.prems rdv [of i] by (subst close_loop.simps) (simp add: covers_def)
  next
    case False
    then have n: "i + 1 < int (length rs)" "cell (rs ! nat (i + 1)) 0 \<le> c"
      using next_start [OF ch less.prems(1,2)] c by auto
    have "\<exists>j. close_loop vs c (i + 1) = Some j \<and> covers rs c j"
      using less.hyps [of "i + 1"] n less.prems by auto
    then show ?thesis using False less.prems rdv [of i] by (subst close_loop.simps) simp
  qed
qed

lemma find_halve_ok:
  assumes ch: "chain a rs b" and rdv: "\<And>i. 0 \<le> i \<Longrightarrow> i < int (length rs) \<Longrightarrow> rd vs i = Some (rs ! nat i)"
    and c: "c < b"
  shows "0 \<le> start \<Longrightarrow> start < limit \<Longrightarrow> limit \<le> int (length rs) \<Longrightarrow> cell (rs ! nat start) 0 \<le> c \<Longrightarrow>
   limit = int (length rs) \<or> c < cell (rs ! nat limit) 0 \<Longrightarrow>
   \<exists>j. find_halve vs c start limit = Some j \<and> covers rs c j"
proof (induction "nat (limit - start)" arbitrary: start limit rule: less_induct)
  case less
  show ?case
  proof (cases "start < limit - 1")
    case False
    then have l: "limit = start + 1" using less.prems by simp
    have "start < int (length rs)" using less.prems by simp
    then have "c < cell (rs ! nat start) 1"
      using next_start [OF ch less.prems(1)] less.prems(5) c l by auto
    then show ?thesis using less.prems False by (subst find_halve.simps) (auto simp: covers_def)
  next
    case True
    let ?i = "(start + limit) div 2"
    have i: "start < ?i" "?i < limit" "0 \<le> ?i" "?i < int (length rs)" using True less.prems by auto
    have step: "find_halve vs c start limit =
        (if c < cell (rs ! nat ?i) 0 then find_halve vs c start ?i
         else if c < cell (rs ! nat ?i) 1 then Some ?i else find_halve vs c ?i limit)"
      using True rdv [OF i(3,4)] by (subst find_halve.simps) (simp add: Let_def)
    consider "c < cell (rs ! nat ?i) 0" | "cell (rs ! nat ?i) 0 \<le> c" "c < cell (rs ! nat ?i) 1" | "cell (rs ! nat ?i) 0 \<le> c" "cell (rs ! nat ?i) 1 \<le> c"
      by linarith
    then show ?thesis
    proof cases
      case 1
      have "\<exists>j. find_halve vs c start ?i = Some j \<and> covers rs c j"
        by (rule less.hyps) (use i 1 less.prems in auto)
      then show ?thesis using step 1 by simp
    next
      case 2
      then show ?thesis using step i by (simp add: covers_def)
    next
      case 3
      have "\<exists>j. find_halve vs c ?i limit = Some j \<and> covers rs c j"
        by (rule less.hyps) (use i 3 less.prems in auto)
      then show ?thesis using step 3 by simp
    qed
  qed
qed

lemma findRow_ok:
  assumes inv: "pv_inv pv" and c: "0 \<le> c" "c \<le> UPVEC_MAX_CP"
  shows "\<exists>i. findRow pv c = Some (pv\<lparr>prevRow := i\<rparr>, i) \<and> covers (used pv) c i"
proof -
  let ?rs = "used pv" and ?p = "prevRow pv"
  have ch: "chain 0 ?rs (UPVEC_MAX_CP + 1)" and p: "0 \<le> ?p" "?p < rows pv" "0 < rows pv" using inv by (auto simp: pv_inv_def)
  have len: "int (length ?rs) = rows pv" using used_length [OF inv] p by simp
  have rdv: "\<And>i. 0 \<le> i \<Longrightarrow> i < int (length ?rs) \<Longrightarrow> rd (v pv) i = Some (?rs ! nat i)"
    using used_rd [OF inv] len by simp
  have cb: "c < UPVEC_MAX_CP + 1" using c by simp
  note nx = next_start [OF ch]
  have ne: "?rs \<noteq> []" using len p by auto
  have first: "cell (?rs ! 0) 0 = 0" using chain_nth(1) [OF ch ne] .
  obtain h where h: "find_halve (v pv) c 0 (rows pv) = Some h" "covers ?rs c h"
    using find_halve_ok [OF ch rdv cb, of 0 "rows pv"] len p first c by auto
  have pv: "pv\<lparr>prevRow := ?p\<rparr> = pv" by simp
  show ?thesis
  proof (cases "cell (?rs ! nat ?p) 0 \<le> c")
    case False
    then show ?thesis using h rdv [of 0] rdv [of ?p] p len first c
      by (auto simp: findRow_def Let_def covers_def)
  next
    case ge: True
    show ?thesis
    proof (cases "c < cell (?rs ! nat ?p) 1")
      case True
      then show ?thesis using ge rdv [of ?p] p len by (auto simp: findRow_def Let_def covers_def)
    next
      case f1: False
      then have n1: "?p + 1 < rows pv" "cell (?rs ! nat (?p + 1)) 0 \<le> c" using nx [of ?p] p len cb by auto
      show ?thesis
      proof (cases "c < cell (?rs ! nat (?p + 1)) 1")
        case True
        then show ?thesis using ge f1 n1 rdv [of ?p] rdv [of "?p + 1"] p len by (auto simp: findRow_def Let_def covers_def)
      next
        case f2: False
        then have n2: "?p + 2 < rows pv" "cell (?rs ! nat (?p + 2)) 0 \<le> c" using nx [of "?p + 1"] n1 p len cb by (auto simp: add.commute)
        show ?thesis
        proof (cases "c < cell (?rs ! nat (?p + 2)) 1")
          case True
          then show ?thesis using ge f1 f2 n1 n2 rdv [of ?p] rdv [of "?p + 1"] rdv [of "?p + 2"] p len
            by (auto simp: findRow_def Let_def covers_def)
        next
          case f3: False
          then have n3: "?p + 3 < rows pv" "cell (?rs ! nat (?p + 3)) 0 \<le> c" using nx [of "?p + 2"] n2 p len cb by (auto simp: add.commute)
          obtain j where j: "close_loop (v pv) c (?p + 3) = Some j" "covers ?rs c j"
            using close_loop_ok [OF ch rdv cb, of "?p + 3"] n3 p len by auto
          show ?thesis using ge f1 f2 f3 n1 n2 h j rdv [of ?p] rdv [of "?p + 1"] rdv [of "?p + 2"] p len
            by (auto simp: findRow_def Let_def)
        qed
      qed
    qed
  qed
qed

section \<open>Splitting rows in memory\<close>

lemma memmove_shift:
  assumes "k \<le> length zs"
  shows "memmove (xs @ ys @ zs) (int (length xs + k)) (int (length xs)) (int (length ys)) =
    Some (xs @ take k (ys @ zs) @ ys @ drop k zs)"
proof -
  have "seg (xs @ ys @ zs) (int (length xs)) (int (length xs) + int (length ys)) = ys" by (rule seg_append)
  moreover have "overwrite (xs @ ys @ zs) (int (length xs + k)) ys = xs @ take k (ys @ zs) @ ys @ drop k zs"
    unfolding overwrite_def nat_int by simp
  ultimately show ?thesis using assms by (simp add: memmove_def)
qed

lemma set_cell_nth:
  "i < length vs \<Longrightarrow> set_cell vs (int i) k x = Some (vs[i := (vs ! i)[k := word_of_int x]])"
  by (simp add: set_cell_def)

lemma split_first_eq:
  assumes "i < length P"
  shows "do {
      vs \<leftarrow> memmove (P @ g # R) (int i + 1) (int i) (int (length P - 1) - int i + 1);
      vs \<leftarrow> set_cell vs (int i) 1 t;
      set_cell vs (int i + 1) 0 t } = Some (cut_row i t P @ R)"
proof -
  define xs ys where "xs = take i P" and "ys = drop (Suc i) P"
  have P: "P = xs @ P ! i # ys" using assms by (simp add: xs_def ys_def id_take_nth_drop [symmetric])
  have lx: "length xs = i" using assms by (simp add: xs_def)
  have "memmove (xs @ (P ! i # ys) @ g # R) (int (length xs + 1)) (int (length xs)) (int (length (P ! i # ys))) =
      Some (xs @ take 1 ((P ! i # ys) @ g # R) @ (P ! i # ys) @ drop 1 (g # R))"
    by (rule memmove_shift) simp
  moreover have "int (length (P ! i # ys)) = int (length P - 1) - int i + 1" using assms by (simp add: ys_def)
  moreover have "xs @ (P ! i # ys) @ g # R = P @ g # R" using P by (metis append.assoc append_Cons)
  moreover have "int (length xs + 1) = int i + 1" "int (length xs) = int i" using lx by simp_all
  moreover have "xs @ take 1 ((P ! i # ys) @ g # R) @ (P ! i # ys) @ drop 1 (g # R) = xs @ P ! i # P ! i # ys @ R" by simp
  ultimately have m: "memmove (P @ g # R) (int i + 1) (int i) (int (length P - 1) - int i + 1) =
      Some (xs @ P ! i # P ! i # ys @ R)" by (simp only:)
  have "set_cell (xs @ P ! i # P ! i # ys @ R) (int i) 1 t =
      Some (xs @ (P ! i)[1 := word_of_int t] # P ! i # ys @ R)"
    using lx by (subst set_cell_nth) (auto simp: nth_append list_update_append)
  moreover have "set_cell (xs @ (P ! i)[1 := word_of_int t] # P ! i # ys @ R) (int (Suc i)) 0 t =
      Some (xs @ (P ! i)[1 := word_of_int t] # (P ! i)[0 := word_of_int t] # ys @ R)"
    using lx by (subst set_cell_nth) (auto simp: nth_append list_update_append)
  ultimately show ?thesis using m lx by (simp add: cut_row_def xs_def ys_def add.commute)
qed

lemma split_last_eq:
  assumes "P \<noteq> []" "j = length P - 1"
  shows "do {
      r \<leftarrow> rd (P @ g # R) (int j);
      vs \<leftarrow> wr (P @ g # R) (int j + 1) r;
      vs \<leftarrow> set_cell vs (int j) 1 t;
      set_cell vs (int j + 1) 0 t } = Some (cut_row j t P @ R)"
proof -
  define xs where "xs = butlast P"
  have P: "P = xs @ [last P]" "length xs = j" "P ! j = last P" using assms append_butlast_last_id [OF assms(1)] last_conv_nth [OF assms(1)]
    by (simp_all only: xs_def length_butlast)
  have r: "rd (P @ g # R) (int j) = Some (last P)" using P(2,3) assms(1) by (simp add: rd_Some_iff nth_append assms(2))
  have "nat (int j + 1) = Suc j" by simp
  then have "wr (P @ g # R) (int j + 1) (last P) = Some (xs @ last P # last P # R)"
    using P(2) by (subst P(1)) (simp add: wr_def list_update_append)
  moreover have "set_cell (xs @ last P # last P # R) (int j) 1 t =
      Some (xs @ (last P)[1 := word_of_int t] # last P # R)"
    using P(2) by (subst set_cell_nth) (auto simp: nth_append list_update_append)
  moreover have "set_cell (xs @ (last P)[1 := word_of_int t] # last P # R) (int (Suc j)) 0 t =
      Some (xs @ (last P)[1 := word_of_int t] # (last P)[0 := word_of_int t] # R)"
    using P(2) by (subst set_cell_nth) (auto simp: nth_append list_update_append)
  moreover have "take j P = xs" "drop (Suc j) P = []" using P by (metis append_eq_conv_conj, simp add: assms)
  ultimately show ?thesis using r P(3) by (simp add: cut_row_def add.commute)
qed

text \<open>The table after both cuts; the gap in the memory is filled.\<close>

definition cut_both :: "bool \<Rightarrow> bool \<Rightarrow> nat \<Rightarrow> nat \<Rightarrow> int \<Rightarrow> int \<Rightarrow> u32 list list \<Rightarrow> u32 list list" where
  "cut_both s1 s2 i j start limit rs =
     (let rs1 = (if s1 then cut_row i start rs else rs) in
      if s2 then cut_row (j + of_bool s1) limit rs1 else rs1)"

lemma split_rows_eq:
  assumes v: "v pv = U @ T" and n: "rows pv = int (length U)" and ij: "i \<le> j" "j < length U"
    and room: "of_bool s1 + of_bool s2 \<le> length T"
  shows "split_rows pv (int i) (int j) s1 s2 start limit =
    Some (pv\<lparr>v := cut_both s1 s2 i j start limit U @ drop (of_bool s1 + of_bool s2) T,
        rows := rows pv + of_bool s1 + of_bool s2\<rparr>,
      int (i + of_bool s1), int (j + of_bool s1))"
proof -
  let ?k = "of_bool s1 + of_bool s2 :: nat"
  define P Q where "P = take (Suc j) U" and "Q = drop (Suc j) U"
  have U: "U = P @ Q" by (simp add: P_def Q_def)
  have lP: "length P = Suc j" using ij by (simp add: P_def)
  define G R where "G = take ?k (Q @ T)" and "R = Q @ drop ?k T"
  have lG: "length G = ?k" using room by (simp add: G_def)
  have lQ: "int (length Q) = rows pv - (int j + 1)" using n ij by (simp add: Q_def)
  have "memmove (P @ Q @ T) (int (length P + ?k)) (int (length P)) (int (length Q)) = Some (P @ G @ R)"
    using memmove_shift [OF room, of P Q] by (simp add: G_def R_def)
  moreover have "int (length P + ?k) = int j + 1 + (of_bool s1 + of_bool s2)" "int (length P) = int j + 1"
    using lP by (simp_all add: add.commute)
  ultimately have mv: "memmove (v pv) (int j + 1 + (of_bool s1 + of_bool s2)) (int j + 1) (rows pv - (int j + 1)) = Some (P @ G @ R)"
    using v U lQ by simp
  have m: "(if rows pv - (int j + 1) > 0
      then memmove (v pv) (int j + 1 + (of_bool s1 + of_bool s2)) (int j + 1) (rows pv - (int j + 1)) else Some (v pv)) =
      Some (P @ G @ R)"
  proof (cases "Q = []")
    case True
    then show ?thesis using lQ v by (simp add: U G_def R_def)
  next
    case False
    then show ?thesis using lQ mv by (metis length_greater_0_conv of_nat_0_less_iff)
  qed
  have P: "P \<noteq> []" "i < length P" "length P - 1 = j" using lP ij by auto
  define P1 where "P1 = (if s1 then cut_row i start P else P)"
  have P1: "P1 \<noteq> []" "j + of_bool s1 = length P1 - 1" using P lP cut_row_length [of i P start] by (auto simp: P1_def)
  obtain G1 where G1: "length G1 = of_bool s2" and f: "(if s1 then do {
         vs \<leftarrow> memmove (P @ G @ R) (int i + 1) (int i) (int j - int i + 1);
         vs \<leftarrow> set_cell vs (int i) 1 start;
         vs \<leftarrow> set_cell vs (int i + 1) 0 start;
         Some (vs, int i + 1, int j + 1) }
       else Some (P @ G @ R, int i, int j)) = Some (P1 @ G1 @ R, int (i + of_bool s1), int (j + of_bool s1))"
  proof (cases s1)
    case True
    then obtain g G' where G: "G = g # G'" "length G' = of_bool s2" using lG by (auto simp: length_Suc_conv)
    have "do { vs \<leftarrow> memmove (P @ G @ R) (int i + 1) (int i) (int j - int i + 1);
        vs \<leftarrow> set_cell vs (int i) 1 start; set_cell vs (int i + 1) 0 start } = Some (P1 @ G' @ R)"
      using split_first_eq [OF P(2), of g "G' @ R" start] P(3) G(1) True by (simp add: P1_def)
    then show ?thesis using that [OF G(2)] True by (auto simp: bind_Some_iff)
  next
    case False
    then show ?thesis using that [of G] lG by (simp add: P1_def)
  qed
  define P2 where "P2 = (if s2 then cut_row (j + of_bool s1) limit P1 else P1)"
  have l: "(if s2 then do {
         r \<leftarrow> rd (P1 @ G1 @ R) (int (j + of_bool s1));
         vs \<leftarrow> wr (P1 @ G1 @ R) (int (j + of_bool s1) + 1) r;
         vs \<leftarrow> set_cell vs (int (j + of_bool s1)) 1 limit;
         set_cell vs (int (j + of_bool s1) + 1) 0 limit }
       else Some (P1 @ G1 @ R)) = Some (P2 @ R)"
  proof (cases s2)
    case True
    then obtain g where "G1 = [g]" using G1 by (auto simp: length_Suc_conv)
    then show ?thesis using split_last_eq [OF P1, of g R limit] True by (simp add: P2_def)
  next
    case False
    then show ?thesis using G1 by (simp add: P2_def)
  qed
  have "cut_both s1 s2 i j start limit U = P2 @ Q"
    using P P1 lP by (auto simp: cut_both_def U cut_row_append cut_row_length P2_def P1_def)
  then have e: "P2 @ R = cut_both s1 s2 i j start limit U @ drop ?k T" by (simp add: R_def)
  have "split_rows pv (int i) (int j) s1 s2 start limit =
      Some (pv\<lparr>v := P2 @ R, rows := rows pv + (of_bool s1 + of_bool s2)\<rparr>, int (i + of_bool s1), int (j + of_bool s1))"
    unfolding split_rows_def Let_def m f l Option.bind.bind_lunit prod.case by (simp add: f l)
  then show ?thesis unfolding e by (simp add: add.assoc)
qed

section \<open>Setting a value\<close>

lemma map_rows_step:
  assumes "i < j" "j < length vs"
  shows "map_rows f (Suc i) j (vs[i := f (vs ! i)]) = map_rows f i j vs"
proof -
  have "drop i vs = vs ! i # drop (Suc i) vs" using assms by (simp add: Cons_nth_drop_Suc)
  moreover have "Suc j - i = Suc (Suc j - Suc i)" using assms by simp
  ultimately show ?thesis using assms by (simp add: map_rows_def take_Suc_conv_app_nth)
qed

lemma map_rows_single: "i < length vs \<Longrightarrow> map_rows f i i vs = vs[i := f (vs ! i)]"
  by (simp add: map_rows_def upd_conv_take_nth_drop take_Suc hd_drop_conv_nth)

definition set_value :: "nat \<Rightarrow> u32 \<Rightarrow> u32 \<Rightarrow> u32 list \<Rightarrow> u32 list" where
  "set_value col val notMask r = r[col := (r ! col AND notMask) OR val]"

lemma set_loop_eq:
  "i \<le> j \<Longrightarrow> j < length vs \<Longrightarrow>
   set_loop vs col val nm (int i) (int j) = Some (map_rows (set_value col val nm) i j vs)"
proof (induction "j - i" arbitrary: i vs)
  case 0
  then have "i = j" by simp
  then show ?case using 0 by (subst set_loop.simps) (simp add: map_rows_single set_value_def wr_def)
next
  case (Suc n)
  then have lt: "i < j" "Suc i \<le> j" "n = j - Suc i" by simp_all
  let ?vs = "vs[i := set_value col val nm (vs ! i)]"
  have "set_loop ?vs col val nm (int (Suc i)) (int j) = Some (map_rows (set_value col val nm) (Suc i) j ?vs)"
    using Suc.hyps(1) [of "Suc i" ?vs] lt Suc.prems by simp
  then have "set_loop ?vs col val nm (int i + 1) (int j) = Some (map_rows (set_value col val nm) i j vs)"
    using map_rows_step [OF lt(1) Suc.prems(2)] by (simp add: add.commute)
  then show ?case using lt(1) Suc.prems by (subst set_loop.simps) (simp add: set_value_def wr_def)
qed

lemma map_rows_append: "j < length U \<Longrightarrow> i \<le> j \<Longrightarrow> map_rows f i j (U @ T) = map_rows f i j U @ T"
  by (simp add: map_rows_def)

lemma set_value_cells: "2 \<le> col \<Longrightarrow> cell (set_value col val nm r) 0 = cell r 0 \<and> cell (set_value col val nm r) 1 = cell r 1"
  by (simp add: set_value_def cell_def)

lemma set_value_length [simp]: "length (set_value col val nm r) = length r"
  by (simp add: set_value_def)

lemma grow_rows_cases:
  assumes inv: "pv_inv pv" and m: "malloc_ok malloc" and need: "need \<le> rows pv + 2" "need \<le> UPVEC_MAX_ROWS"
  shows "grow_rows malloc pv need = Inl U_MEMORY_ALLOCATION_ERROR \<or>
    (\<exists>pv'. grow_rows malloc pv need = Inr pv' \<and> pv_inv pv' \<and> need \<le> maxRows pv' \<and> used pv' = used pv \<and>
       rows pv' = rows pv \<and> columns pv' = columns pv)"
proof (cases "need > maxRows pv")
  case False
  then show ?thesis using inv by (simp add: grow_rows_def)
next
  case True
  have mr: "maxRows pv = UPVEC_INITIAL_ROWS \<or> maxRows pv = UPVEC_MEDIUM_ROWS \<or> maxRows pv = UPVEC_MAX_ROWS"
    "rows pv \<le> maxRows pv" "0 < rows pv" using inv by (auto simp: pv_inv_def)
  note row_consts = UPVEC_INITIAL_ROWS_def UPVEC_MEDIUM_ROWS_def UPVEC_MAX_ROWS_def UPVEC_MAX_CP_def
  define n where "n = (if maxRows pv < UPVEC_MEDIUM_ROWS then UPVEC_MEDIUM_ROWS else UPVEC_MAX_ROWS)"
  have n: "need \<le> n" "rows pv \<le> n" "n \<in> {UPVEC_INITIAL_ROWS, UPVEC_MEDIUM_ROWS, UPVEC_MAX_ROWS}"
    using mr need by (auto simp: n_def row_consts)
  have g: "grow_rows malloc pv need = (case malloc n (columns pv) of
             None \<Rightarrow> Inl U_MEMORY_ALLOCATION_ERROR
           | Some vs \<Rightarrow> Inr (pv\<lparr>v := overwrite vs 0 (take (nat (rows pv)) (v pv)), maxRows := n\<rparr>))"
    using True mr need by (auto simp: grow_rows_def n_def row_consts split: option.split)
  show ?thesis
  proof (cases "malloc n (columns pv)")
    case None
    then show ?thesis using g by simp
  next
    case (Some vs)
    then have vs: "int (length vs) = n" "\<forall>r \<in> set vs. int (length r) = columns pv" using m by (auto simp: malloc_ok_def)
    let ?pv = "pv\<lparr>v := overwrite vs 0 (take (nat (rows pv)) (v pv)), maxRows := n\<rparr>"
    have lt: "length (take (nat (rows pv)) (v pv)) = nat (rows pv)" using inv by (auto simp: pv_inv_def)
    have u: "used ?pv = used pv" using lt by (simp add: used_def overwrite_def)
    have "int (length (v ?pv)) = n" using lt vs(1) n(2) mr(3) by (simp add: overwrite_length)
    moreover have "set (v ?pv) \<subseteq> set (v pv) \<union> set vs"
      using set_take_subset [of "nat (rows pv)" "v pv"] set_drop_subset [of _ vs] by (auto simp: overwrite_def)
    ultimately have "pv_inv ?pv" using inv vs(2) n u by (auto simp: pv_inv_def)
    then show ?thesis using g Some n u by auto
  qed
qed

lemma chain_starts_split:
  assumes "chain a rs b" "i < length rs" "r \<in> set rs" "2 \<le> length (rs ! i)" "0 \<le> t" "t < 2 ^ 31"
  shows "\<exists>r' \<in> set (cut_row i t rs). cell r' 0 = cell r 0"
proof -
  have "set rs = set (take i rs @ rs ! i # drop (Suc i) rs)" using assms(2) by (simp add: id_take_nth_drop [symmetric])
  then have "r \<in> set (take i rs) \<or> r = rs ! i \<or> r \<in> set (drop (Suc i) rs)" using assms(3) by auto
  moreover have "cell ((rs ! i)[1 := word_of_int t]) 0 = cell (rs ! i) 0" using assms(4-) by (simp add: cell_update)
  ultimately show ?thesis by (auto simp: cut_row_def)
qed

lemma map_rows_starts:
  assumes "\<And>r. cell (f r) 0 = cell r 0" "r \<in> set rs" "i \<le> j" "j < length rs"
  shows "\<exists>r' \<in> set (map_rows f i j rs). cell r' 0 = cell r 0"
proof -
  have "take (Suc j - i) (drop i rs) @ drop (Suc j) rs = drop i rs"
    using append_take_drop_id [of "Suc j - i" "drop i rs"] assms(3) by simp
  then have "rs = take i rs @ take (Suc j - i) (drop i rs) @ drop (Suc j) rs" by simp
  then have "r \<in> set (take i rs) \<union> set (take (Suc j - i) (drop i rs)) \<union> set (drop (Suc j) rs)"
    using assms(2) by (metis set_append Un_assoc)
  then show ?thesis using assms(1) by (auto simp: map_rows_def)
qed

text \<open>The two cuts, as the setter makes them.\<close>

lemma cut_both_ok:
  assumes ch: "chain 0 U (UPVEC_MAX_CP + 1)" and len: "\<forall>r \<in> set U. int (length r) = cols" "3 \<le> cols"
    and ij: "covers U start (int i)" "covers U end_cp (int j)" "start \<le> end_cp"
    and s1: "s1 \<Longrightarrow> start \<noteq> cell (U ! i) 0" and s2: "s2 \<Longrightarrow> end_cp + 1 \<noteq> cell (U ! j) 1"
  defines "W \<equiv> cut_both s1 s2 i j start (end_cp + 1) U"
  shows "chain 0 W (UPVEC_MAX_CP + 1)" and "\<forall>r \<in> set W. int (length r) = cols"
    and "length W = length U + of_bool s1 + of_bool s2" and "i \<le> j"
    and "vals_for W c = vals_for U c" and "\<forall>r \<in> set U. \<exists>r' \<in> set W. cell r' 0 = cell r 0"
    and "cell (W ! (i + of_bool s1)) 0 = (if s1 then start else cell (U ! i) 0)"
    and "cell (W ! (j + of_bool s1)) 1 = (if s2 then end_cp + 1 else cell (U ! j) 1)"
proof -
  have i: "i < length U" "cell (U ! i) 0 \<le> start" "start < cell (U ! i) 1" and j: "j < length U" "cell (U ! j) 0 \<le> end_cp" "end_cp < cell (U ! j) 1"
    using ij by (auto simp: covers_def)
  show le: "i \<le> j"
  proof (rule ccontr)
    assume "\<not> i \<le> j"
    then have "j < i" by simp
    have "chain 0 (take i U) (cell (U ! i) 0)" using chain_split_nth(1) [OF ch i(1)] .
    moreover have "U ! j \<in> set (take i U)" using \<open>j < i\<close> i(1) by (auto simp: in_set_conv_nth)
    ultimately have "cell (U ! j) 1 \<le> cell (U ! i) 0" using chain_row by blast
    then show False using i(2) j(3) ij(3) by simp
  qed
  have lenU: "2 \<le> length (U ! k)" if "k < length U" for k using len that nth_mem [OF that] by fastforce
  have b: "UPVEC_MAX_CP + 1 < 2 ^ 31" by (simp add: UPVEC_MAX_CP_def)
  have bs: "0 \<le> start" "end_cp + 1 \<le> UPVEC_MAX_CP + 1"
    using chain_row [OF ch nth_mem [OF i(1)]] chain_row [OF ch nth_mem [OF j(1)]] i j by auto
  define U1 where "U1 = (if s1 then cut_row i start U else U)"
  define j1 where "j1 = j + of_bool s1"
  have start: "s1 \<Longrightarrow> cell (U ! i) 0 < start" using i s1 by fastforce
  have len1: "\<forall>r \<in> set U1. int (length r) = cols"
    using len i(1) set_take_subset [of i U] set_drop_subset [of "Suc i" U] by (auto simp: U1_def cut_row_def)
  have U1: "chain 0 U1 (UPVEC_MAX_CP + 1)" "vals_for U1 c = vals_for U c" "length U1 = length U + of_bool s1" for c
    using cut_row_ok [OF ch i(1) start i(3) _ b lenU [OF i(1)]] ch i(1) by (auto simp: U1_def cut_row_length)
  have j1: "j1 < length U1" using j(1) U1(3) by (simp add: j1_def)
  have st1: "0 \<le> start" "start < 2 ^ 31" using bs ij(3) b by auto
  have lim: "0 \<le> end_cp + 1" "end_cp + 1 < 2 ^ 31" using bs ij(3) b by auto
  have cells_i: "cell ((U ! i)[1 := word_of_int start]) 0 = cell (U ! i) 0" "cell ((U ! i)[0 := word_of_int start]) 0 = start"
    "cell ((U ! i)[0 := word_of_int start]) 1 = cell (U ! i) 1"
    using cell_update [OF _ st1, of 1 "U ! i"] cell_update [OF _ st1, of 0 "U ! i"] lenU [OF i(1)] by (cases "U ! i = []"; auto)+
  have at_i1: "cell (U1 ! (i + of_bool s1)) 0 = (if s1 then start else cell (U ! i) 0)"
    using i(1) cells_i by (auto simp: U1_def cut_row_def nth_append)
  have at_j1: "U1 ! j1 = (if s1 \<and> i = j then (U ! i)[0 := word_of_int start] else U ! j)"
    using le i(1) j(1) by (auto simp: U1_def j1_def cut_row_def nth_append nth_Cons')
  have cj1: "cell (U1 ! j1) 1 = cell (U ! j) 1" using at_j1 cells_i by auto
  have lim1: "s2 \<Longrightarrow> cell (U1 ! j1) 0 < end_cp + 1" "s2 \<Longrightarrow> end_cp + 1 < cell (U1 ! j1) 1"
    using at_j1 cells_i j s2 ij(3) cj1 by (auto split: if_splits)
  have W: "W = (if s2 then cut_row j1 (end_cp + 1) U1 else U1)"
    by (simp add: W_def cut_both_def U1_def j1_def)
  have lenU1: "2 \<le> length (U1 ! j1)" using len1 len(2) nth_mem [OF j1] by fastforce
  show "chain 0 W (UPVEC_MAX_CP + 1)" "vals_for W c = vals_for U c"
    using cut_row_ok [OF U1(1) j1 lim1 _ b lenU1] U1(1,2) by (auto simp: W)
  show "length W = length U + of_bool s1 + of_bool s2" using U1(3) j1 by (auto simp: W cut_row_length)
  show "\<forall>r \<in> set W. int (length r) = cols"
    using len1 j1 set_take_subset [of j1 U1] set_drop_subset [of "Suc j1" U1] by (auto simp: W cut_row_def)
  have "\<exists>r' \<in> set U1. cell r' 0 = cell r 0" if "r \<in> set U" for r
    using chain_starts_split [OF ch i(1) that lenU [OF i(1)] st1] that by (auto simp: U1_def)
  moreover have "\<exists>r' \<in> set W. cell r' 0 = cell r 0" if "r \<in> set U1" for r
    using chain_starts_split [OF U1(1) j1 that lenU1 lim] that by (auto simp: W)
  ultimately show "\<forall>r \<in> set U. \<exists>r' \<in> set W. cell r' 0 = cell r 0" by metis
  have cells_j: "cell ((U1 ! j1)[1 := word_of_int (end_cp + 1)]) 0 = cell (U1 ! j1) 0"
    "cell ((U1 ! j1)[1 := word_of_int (end_cp + 1)]) 1 = end_cp + 1"
    using cell_update [OF _ lim, of 1 "U1 ! j1"] lenU1 by auto
  show "cell (W ! (i + of_bool s1)) 0 = (if s1 then start else cell (U ! i) 0)"
    using at_i1 cells_j le j1 by (cases "i = j") (auto simp: W cut_row_def nth_append j1_def)
  show "cell (W ! (j + of_bool s1)) 1 = (if s2 then end_cp + 1 else cell (U ! j) 1)"
    using cj1 cells_j j1 unfolding j1_def [symmetric] by (auto simp: W cut_row_def nth_append)
qed

lemma and_or_not: "(x AND NOT m) OR (x AND m) = (x :: u32)"
  by (rule bit_word_eqI) (auto simp: bit_simps)

text \<open>What follows the room for the new rows: the cuts and the loop.\<close>

lemma set_rows_ok:
  assumes inv: "pv_inv pv" and col: "2 \<le> col" "int col < columns pv"
    and ij: "covers (used pv) start (int i)" "covers (used pv) end_cp (int j)" "start \<le> end_cp"
    and s1: "s1 \<longleftrightarrow> start \<noteq> cell (used pv ! i) 0 \<and> val AND msk \<noteq> used pv ! i ! col AND msk"
    and s2: "s2 \<longleftrightarrow> end_cp + 1 \<noteq> cell (used pv ! j) 1 \<and> val AND msk \<noteq> used pv ! j ! col AND msk"
    and room: "rows pv + of_bool s1 + of_bool s2 \<le> maxRows pv"
  shows "\<exists>pv2 vs. split_rows pv (int i) (int j) s1 s2 start (end_cp + 1) = Some (pv2, int (i + of_bool s1), int (j + of_bool s1)) \<and>
    set_loop (v pv2) col (val AND msk) (NOT msk) (int (i + of_bool s1)) (int (j + of_bool s1)) = Some vs \<and>
    pv_inv (pv2\<lparr>v := vs, prevRow := int (j + of_bool s1)\<rparr>) \<and> columns pv2 = columns pv \<and>
    (\<forall>c k. 0 \<le> c \<longrightarrow> c \<le> UPVEC_MAX_CP \<longrightarrow> k < nat (columns pv) - 2 \<longrightarrow>
       vals_for (used (pv2\<lparr>v := vs, prevRow := int (j + of_bool s1)\<rparr>)) c ! k =
         (if start \<le> c \<and> c \<le> end_cp \<and> k + 2 = col
          then (vals_for (used pv) c ! k AND NOT msk) OR (val AND msk) else vals_for (used pv) c ! k))"
proof -
  define U where "U = used pv"
  define T where "T = drop (nat (rows pv)) (v pv)"
  have pvs: "3 \<le> columns pv" "\<forall>r \<in> set (v pv). int (length r) = columns pv" "int (length (v pv)) = maxRows pv"
    "chain 0 U (UPVEC_MAX_CP + 1)" "0 < rows pv" "rows pv \<le> maxRows pv"
    using inv by (auto simp: pv_inv_def U_def)
  have vU: "v pv = U @ T" by (simp add: U_def T_def used_def)
  have lU: "rows pv = int (length U)" using used_length [OF inv] pvs by (simp add: U_def)
  have rowlen: "\<forall>r \<in> set U. int (length r) = columns pv" using pvs(2) vU by auto
  note ij' = ij(1) [folded U_def] ij(2) [folded U_def] ij(3)
  define W where "W = cut_both s1 s2 i j start (end_cp + 1) U"
  have n1: "s1 \<Longrightarrow> start \<noteq> cell (U ! i) 0" and n2: "s2 \<Longrightarrow> end_cp + 1 \<noteq> cell (U ! j) 1" using s1 s2 by (auto simp: U_def)
  note W = cut_both_ok [of U "columns pv" start i end_cp j s1 s2, OF pvs(4) rowlen pvs(1) ij' n1 n2, folded W_def]
  have jl: "j < length U" using ij' by (auto simp: covers_def)
  have "of_bool s1 + of_bool s2 \<le> length T" using room pvs(3) vU lU by (simp add: of_bool_def split: if_splits)
  note lT = this
  define T' where "T' = drop (of_bool s1 + of_bool s2) T"
  have sp: "split_rows pv (int i) (int j) s1 s2 start (end_cp + 1) =
      Some (pv\<lparr>v := W @ T', rows := rows pv + of_bool s1 + of_bool s2\<rparr>, int (i + of_bool s1), int (j + of_bool s1))"
    "set T' \<subseteq> set T" "length T = of_bool s1 + of_bool s2 + length T'"
    using split_rows_eq [OF vU lU W(4) jl lT, where start = start and limit = "end_cp + 1"] lT set_drop_subset [of _ T]
    unfolding W_def T'_def by (simp_all add: of_bool_def)
  let ?i = "i + of_bool s1" and ?j = "j + of_bool s1"
  let ?f = "set_value col (val AND msk) (NOT msk)"
  have j1: "?j < length W" "?i \<le> ?j" using W(3,4) jl by auto
  have lp: "set_loop (W @ T') col (val AND msk) (NOT msk) (int ?i) (int ?j) = Some (map_rows ?f ?i ?j W @ T')"
    using set_loop_eq [of ?i ?j "W @ T'" col "val AND msk" "NOT msk"] j1 by (simp add: map_rows_append)
  have fc: "\<And>r. cell (?f r) 0 = cell r 0 \<and> cell (?f r) 1 = cell r 1" using set_value_cells [OF col(1)] by blast
  note M = map_rows_ok [OF fc W(1) j1(2,1)]
  let ?pv2 = "pv\<lparr>v := W @ T', rows := rows pv + of_bool s1 + of_bool s2\<rparr>" and ?vs = "map_rows ?f ?i ?j W @ T'"
  let ?pv = "?pv2\<lparr>v := ?vs, prevRow := int ?j\<rparr>"
  have lW: "rows pv + of_bool s1 + of_bool s2 = int (length W)" using W(3) lU by simp
  have u: "used ?pv = map_rows ?f ?i ?j W" using lW map_rows_length [OF j1(2,1)] by (simp add: used_def)
  have lens: "int (length r) = columns pv" if "r \<in> set (map_rows ?f ?i ?j W)" for r
    using that W(2) set_take_subset [of _ W] set_drop_subset [of _ W]
    by (auto simp: map_rows_def dest!: in_set_takeD in_set_dropD)
  have "pv_inv ?pv"
  proof -
    have "\<forall>s \<in> {UPVEC_FIRST_SPECIAL_CP, UPVEC_MAX_CP}. \<exists>r \<in> set (map_rows ?f ?i ?j W). cell r 0 = s"
    proof
      fix s assume "s \<in> {UPVEC_FIRST_SPECIAL_CP, UPVEC_MAX_CP}"
      then obtain r where "r \<in> set U" "cell r 0 = s" using inv by (auto simp: pv_inv_def U_def)
      then obtain r' where "r' \<in> set W" "cell r' 0 = s" using W(6) by auto
      then show "\<exists>r \<in> set (map_rows ?f ?i ?j W). cell r 0 = s"
        using map_rows_starts [of ?f r' W ?i ?j] fc j1 by auto
    qed
    moreover have "\<forall>r \<in> set T'. int (length r) = columns pv" using pvs(2) vU sp(2) by auto
    moreover have "int (length (map_rows ?f ?i ?j W @ T')) = maxRows pv"
      using map_rows_length [OF j1(2,1), of ?f] W(3) sp(3) pvs(3) vU by simp
    ultimately show ?thesis
      using inv M(1) u lens lW room j1(1) unfolding pv_inv_def by (auto simp: lW)
  qed
  then have inv': "pv_inv ?pv" .
  have vals: "vals_for (used ?pv) c ! k = (if start \<le> c \<and> c \<le> end_cp \<and> k + 2 = col
          then (vals_for U c ! k AND NOT msk) OR (val AND msk) else vals_for U c ! k)"
    if c: "0 \<le> c" "c \<le> UPVEC_MAX_CP" and k: "k < nat (columns pv) - 2" for c k
  proof -
    define r where "r = row_for W c"
    have rm: "r \<in> set W" "cell r 0 \<le> c" "c < cell r 1" using row_for_mem [OF W(1), of c] c by (auto simp: r_def)
    have rl: "k + 2 < length r" using W(2) rm(1) k by fastforce
    have "vals_for W c = vals_for U c" by (rule W(5))
    then have "vals_for U c = drop 2 r" by (simp add: vals_for_def r_def)
    then have vr: "vals_for U c ! k = r ! (k + 2)" using rl by (simp add: add.commute)
    have colv: "r ! col = U ! x ! col" if "row_for U c = U ! x" "x < length U" "k + 2 = col" for x
    proof -
      have "2 \<le> length (U ! x)" using rowlen nth_mem [OF that(2)] pvs(1) by fastforce
      then show ?thesis using vr that by (simp add: vals_for_def add.commute)
    qed
    have "row_for (used ?pv) c = (if cell (W ! ?i) 0 \<le> c \<and> c < cell (W ! ?j) 1 then ?f r else r)"
      using M(2) [of c] c unfolding u r_def by simp
    then have vp: "vals_for (used ?pv) c ! k = (if cell (W ! ?i) 0 \<le> c \<and> c < cell (W ! ?j) 1 \<and> k + 2 = col
        then (r ! col AND NOT msk) OR (val AND msk) else r ! (k + 2))"
      using rl by (auto simp: vals_for_def set_value_def add.commute nth_list_update)
    have cov: "row_for U c = U ! x" if "covers U d (int x)" "cell (U ! x) 0 \<le> c" "c < cell (U ! x) 1" for x d
      using row_for_nth [OF pvs(4) _ that(2,3)] that(1) by (simp add: covers_def)
    have same: "(r ! col AND NOT msk) OR (val AND msk) = r ! col"
      if "k + 2 = col" "cell (W ! ?i) 0 \<le> c" "c < cell (W ! ?j) 1" "\<not> (start \<le> c \<and> c \<le> end_cp)"
    proof (cases "c < start")
      case True
      then have "\<not> s1" using that(2) W(7) by auto
      then have ci: "cell (U ! i) 0 \<le> c" using that(2) W(7) by simp
      have "c < cell (U ! i) 1" using True ij'(1) by (simp add: covers_def)
      from colv [OF cov [OF ij'(1) ci this]] have "r ! col = U ! i ! col"
        using that(1) ij'(1) by (simp add: covers_def)
      moreover have "val AND msk = U ! i ! col AND msk" using \<open>\<not> s1\<close> s1 True ci by (auto simp: U_def)
      ultimately show ?thesis using and_or_not by metis
    next
      case False
      then have ce: "end_cp < c" using that(4) by simp
      then have "\<not> s2" using that(3) W(8) by auto
      then have cj: "c < cell (U ! j) 1" using that(3) W(8) by simp
      have "cell (U ! j) 0 \<le> c" using ce ij'(2) by (simp add: covers_def)
      from colv [OF cov [OF ij'(2) this cj]] have "r ! col = U ! j ! col"
        using that(1) jl by simp
      moreover have "val AND msk = U ! j ! col AND msk" using \<open>\<not> s2\<close> s2 ce cj by (auto simp: U_def)
      ultimately show ?thesis using and_or_not by metis
    qed
    have within: "cell (W ! ?i) 0 \<le> c \<and> c < cell (W ! ?j) 1" if "start \<le> c" "c \<le> end_cp"
      using that W(7,8) ij' by (auto simp: covers_def)
    show ?thesis using vp vr same within by auto
  qed
  show ?thesis
  proof (intro exI [of _ ?pv2] exI [of _ ?vs] conjI)
    show "split_rows pv (int i) (int j) s1 s2 start (end_cp + 1) = Some (?pv2, int ?i, int ?j)" by (rule sp(1))
    show "set_loop (v ?pv2) col (val AND msk) (NOT msk) (int ?i) (int ?j) = Some ?vs" using lp by simp
    show "pv_inv ?pv" by (rule inv')
    show "columns ?pv2 = columns pv" by simp
  qed (intro allI impI, rule vals [unfolded U_def])
qed

lemma split_rows_none:
  assumes "pv_inv pv" "i \<le> j" "j < length (used pv)"
  shows "split_rows pv (int i) (int j) False False start limit = Some (pv, int i, int j)"
proof -
  have "v pv = used pv @ drop (nat (rows pv)) (v pv)" by (simp add: used_def)
  moreover have "rows pv = int (length (used pv))" using used_length [OF assms(1)] assms(1) by (simp add: pv_inv_def)
  ultimately show ?thesis
    using split_rows_eq [of pv "used pv" "drop (nat (rows pv)) (v pv)" i j False False start limit] assms(2,3)
    by (simp add: cut_both_def)
qed

lemma special_rows_eq:
  assumes "3 \<le> length vs"
  shows "special_rows vs 1 UPVEC_FIRST_SPECIAL_CP =
    Some (vs[1 := (vs ! 1)[0 := 0x110000, 1 := 0x110001], 2 := (vs ! 2)[0 := 0x110001, 1 := 0x110002]])"
proof -
  have c: "UPVEC_FIRST_SPECIAL_CP = 0x110000" "UPVEC_MAX_CP = 0x110001" by (simp_all add: UPVEC_FIRST_SPECIAL_CP_def UPVEC_MAX_CP_def)
  show ?thesis unfolding c using assms
    by (subst special_rows.simps, subst special_rows.simps, subst special_rows.simps)
      (simp add: c set_cell_def wr_def rd_def)
qed

lemma upvec_open_table:
  assumes m: "malloc_ok malloc" and e: "\<not> U_FAILURE e"
    and True: "1 \<le> cols \<and> malloc UPVEC_INITIAL_ROWS (cols + 2) \<noteq> None \<and> obj"
  shows "\<exists>pv. upvec_open obj malloc cols e = Some (Some pv, e) \<and> pv_inv pv \<and> columns pv = cols + 2 \<and>
      (\<forall>c k. 0 \<le> c \<longrightarrow> c \<le> UPVEC_MAX_CP \<longrightarrow> 0 \<le> k \<longrightarrow> k < cols \<longrightarrow> value_of pv c k = 0)"
proof -
  obtain vs where vs: "malloc UPVEC_INITIAL_ROWS (cols + 2) = Some vs" using True by auto
  have l: "int (length vs) = UPVEC_INITIAL_ROWS" "\<forall>r \<in> set vs. int (length r) = cols + 2" using m vs by (auto simp: malloc_ok_def)
  have l3: "length vs = 4096" using l(1) by (simp add: UPVEC_INITIAL_ROWS_def)
  define z where "z = replicate (nat (cols + 2)) (0 :: u32)"
  have z: "int (length z) = cols + 2" "2 < length z" "z \<noteq> []" using True by (auto simp: z_def)
  define r0 r1 r2 where "r0 = z[0 := 0, 1 := 0x110000]" and "r1 = z[0 := 0x110000, 1 := 0x110001]" and "r2 = z[0 := 0x110001, 1 := 0x110002]"
  have n: "2 + (UPVEC_MAX_CP - UPVEC_FIRST_SPECIAL_CP) = 3" by (simp add: UPVEC_MAX_CP_def UPVEC_FIRST_SPECIAL_CP_def)
  have rep: "replicate 3 z = [z, z, z]" by (simp add: numeral_3_eq_3)
  let ?pv = "\<lparr>v = r0 # r1 # r2 # drop 3 vs, columns = cols + 2, maxRows = UPVEC_INITIAL_ROWS, rows = 3, prevRow = 0, isCompacted = False\<rparr>"
  have o: "upvec_open obj malloc cols e = Some (Some ?pv, e)"
    using True vs e special_rows_eq [of "r0 # z # z # drop 3 vs"]
    by (simp add: upvec_open_def Let_def n rep z_def [symmetric] set_cell_def wr_def rd_def r0_def r1_def r2_def numeral_2_eq_2)
  have cells: "cell r0 0 = 0" "cell r0 1 = 0x110000" "cell r1 0 = 0x110000" "cell r1 1 = 0x110001"
    "cell r2 0 = 0x110001" "cell r2 1 = 0x110002"
    using z(2,3) by (auto simp: cell_def r0_def r1_def r2_def nth_list_update)
  have u: "used ?pv = [r0, r1, r2]" by (simp add: used_def numeral_3_eq_3)
  have "pv_inv ?pv"
    using True z l l3 cells set_drop_subset [of 3 vs] u
    by (auto simp: pv_inv_def UPVEC_INITIAL_ROWS_def UPVEC_FIRST_SPECIAL_CP_def UPVEC_MAX_CP_def r0_def r1_def r2_def)
  moreover have "value_of ?pv c k = 0" if "0 \<le> c" "c \<le> UPVEC_MAX_CP" "0 \<le> k" "k < cols" for c k
  proof -
    have "row_for [r0, r1, r2] c \<in> {r0, r1, r2}" using cells that by (auto simp: UPVEC_MAX_CP_def)
    moreover have "drop 2 r ! nat k = 0" if "r \<in> {r0, r1, r2}" for r
      using that z \<open>0 \<le> k\<close> \<open>k < cols\<close> by (auto simp: r0_def r1_def r2_def z_def)
    ultimately show ?thesis unfolding value_of_def vals_for_def u by blast
  qed
  ultimately show ?thesis using o True by auto
qed

section \<open>Properties\<close>

text \<open>A memory of zeros, for the witnesses.\<close>

definition zero_malloc :: "int \<Rightarrow> int \<Rightarrow> u32 list list option" where
  "zero_malloc n k = (if 0 \<le> n \<and> 0 \<le> k then Some (replicate (nat n) (replicate (nat k) 0)) else None)"

lemma zero_malloc_ok: "malloc_ok zero_malloc"
  by (auto simp: malloc_ok_def zero_malloc_def)

lemma one_column_exists:
  "\<exists>pv. pv_inv pv \<and> columns pv = 3 \<and> (\<forall>c. 0 \<le> c \<longrightarrow> c \<le> UPVEC_MAX_CP \<longrightarrow> value_of pv c 0 = 0)"
proof -
  have "1 \<le> (1::int) \<and> zero_malloc UPVEC_INITIAL_ROWS (1 + 2) \<noteq> None \<and> True"
    by (simp add: zero_malloc_def UPVEC_INITIAL_ROWS_def)
  from upvec_open_table [OF zero_malloc_ok _ this, of U_ZERO_ERROR] show ?thesis by auto
qed

text \<open>The code after the two searches, whose rows are \<open>i\<close> and \<open>j\<close>.\<close>

lemma upvec_setValue_found:
  assumes inv: "pv_inv pv" and e: "\<not> U_FAILURE e"
    and range: "0 \<le> start" "start \<le> end_cp" "end_cp \<le> UPVEC_MAX_CP" and col: "0 \<le> column" "column < columns pv - 2"
  obtains i j where "covers (used pv) start (int i)" "covers (used pv) end_cp (int j)" "pv_inv (pv\<lparr>prevRow := int j\<rparr>)"
    "\<And>s1 s2 cl. cl = nat (column + 2) \<Longrightarrow>
       s1 \<longleftrightarrow> start \<noteq> cell (used pv ! i) 0 \<and> val AND msk \<noteq> used pv ! i ! cl AND msk \<Longrightarrow>
       s2 \<longleftrightarrow> end_cp + 1 \<noteq> cell (used pv ! j) 1 \<and> val AND msk \<noteq> used pv ! j ! cl AND msk \<Longrightarrow>
       upvec_setValue malloc (Some pv) start end_cp column val msk e =
         (case (if s1 \<or> s2 then grow_rows malloc (pv\<lparr>prevRow := int j\<rparr>) (rows pv + of_bool s1 + of_bool s2)
             else Inr (pv\<lparr>prevRow := int j\<rparr>)) of
               Inl err \<Rightarrow> Some (Some (pv\<lparr>prevRow := int j\<rparr>), err)
             | Inr pv \<Rightarrow> do {
                 (pv, firstRow, lastRow) \<leftarrow> (if s1 \<or> s2
                   then split_rows pv (int i) (int j) s1 s2 start (end_cp + 1)
                   else Some (pv, int i, int j));
                 vs \<leftarrow> set_loop (v pv) cl (val AND msk) (NOT msk) firstRow lastRow;
                 Some (Some (pv\<lparr>v := vs, prevRow := lastRow\<rparr>), e) })"
proof -
  obtain fi where f: "findRow pv start = Some (pv\<lparr>prevRow := fi\<rparr>, fi)" "covers (used pv) start fi"
    using findRow_ok [OF inv, of start] range by auto
  have cr: "0 \<le> x \<and> x < rows pv" if "covers (used pv) c x" for c x
    using that used_length [OF inv] by (auto simp: covers_def split: if_splits)
  have inv1: "pv_inv (pv\<lparr>prevRow := fi\<rparr>)" using inv cr [OF f(2)] by (simp add: pv_inv_def)
  obtain la where l: "findRow (pv\<lparr>prevRow := fi\<rparr>) end_cp = Some (pv\<lparr>prevRow := la\<rparr>, la)" "covers (used pv) end_cp la"
    using findRow_ok [OF inv1, of end_cp] range by auto
  define i j where "i = nat fi" and "j = nat la"
  have ij: "covers (used pv) start (int i)" "covers (used pv) end_cp (int j)" "fi = int i" "la = int j"
    using f(2) l(2) by (auto simp: i_def j_def covers_def)
  have inv2: "pv_inv (pv\<lparr>prevRow := int j\<rparr>)" using inv cr [OF l(2)] by (simp add: pv_inv_def ij(4))
  have rdr: "rd (v pv) fi = Some (used pv ! i)" "rd (v pv) la = Some (used pv ! j)"
    using used_rd [OF inv] cr [OF f(2)] cr [OF l(2)] by (auto simp: i_def j_def)
  show thesis
    by (rule that [OF ij(1,2) inv2])
       (use inv e range col f(1) l(1) rdr in \<open>simp add: upvec_setValue_def pv_inv_def Let_def ij(3,4) cong: sum.case_cong\<close>)
qed

lemma setValue_room:
  assumes inv: "pv_inv pv" "pv_inv (pv\<lparr>prevRow := p\<rparr>)" and m: "malloc_ok malloc"
    and ij: "covers (used pv) start (int i)" "covers (used pv) end_cp (int j)" "start \<le> end_cp"
    and n1: "s1 \<Longrightarrow> start \<noteq> cell (used pv ! i) 0" "s2 \<Longrightarrow> end_cp + 1 \<noteq> cell (used pv ! j) 1"
  defines "room \<equiv> (if s1 \<or> s2 then grow_rows malloc (pv\<lparr>prevRow := p\<rparr>) (rows pv + of_bool s1 + of_bool s2)
    else Inr (pv\<lparr>prevRow := p\<rparr>))"
  obtains "room = Inl U_MEMORY_ALLOCATION_ERROR" | pv1 where "room = Inr pv1" "pv_inv pv1"
      "rows pv1 + of_bool s1 + of_bool s2 \<le> maxRows pv1" "used pv1 = used pv" "rows pv1 = rows pv" "columns pv1 = columns pv"
      "i \<le> j" "j < length (used pv1)"
proof -
  have U: "chain 0 (used pv) (UPVEC_MAX_CP + 1)" "\<forall>r \<in> set (used pv). int (length r) = columns pv" "3 \<le> columns pv"
    using inv(1) set_take_subset [of "nat (rows pv)" "v pv"] by (auto simp: pv_inv_def used_def)
  note cb = cut_both_ok [of "used pv" "columns pv" start i end_cp j s1 s2, OF U(1,2,3) ij(1,2,3)]
  have need: "rows pv + of_bool s1 + of_bool s2 \<le> UPVEC_MAX_ROWS"
    using chain_le [OF cb(1) [OF n1]] cb(3) [OF n1] used_length [OF inv(1)] inv(1) by (simp add: UPVEC_MAX_ROWS_def pv_inv_def)
  have ji: "i \<le> j" "j < length (used pv)" using cb(4) [OF n1] ij(2) by (auto simp: covers_def)
  show thesis
  proof (cases "s1 \<or> s2")
    case True
    have "rows pv + of_bool s1 + of_bool s2 \<le> rows (pv\<lparr>prevRow := p\<rparr>) + 2" by (simp add: of_bool_def)
    from grow_rows_cases [OF inv(2) m this need] that ji True show ?thesis by (auto simp: room_def)
  next
    case False
    then show ?thesis using that(2) [of "pv\<lparr>prevRow := p\<rparr>"] inv ji by (simp add: room_def pv_inv_def)
  qed
qed

lemma setValue_write:
  assumes pv1: "pv_inv pv1" "rows pv1 + of_bool s1 + of_bool s2 \<le> maxRows pv1" "i \<le> j" "j < length (used pv1)"
    and ij: "covers (used pv1) start (int i)" "covers (used pv1) end_cp (int j)" "start \<le> end_cp"
    and s1: "s1 \<longleftrightarrow> start \<noteq> cell (used pv1 ! i) 0 \<and> val AND msk \<noteq> used pv1 ! i ! cl AND msk"
    and s2: "s2 \<longleftrightarrow> end_cp + 1 \<noteq> cell (used pv1 ! j) 1 \<and> val AND msk \<noteq> used pv1 ! j ! cl AND msk"
    and cl: "cl = nat (column + 2)" "0 \<le> column" "column < columns pv1 - 2"
  shows "\<exists>r. do {
       (pv, firstRow, lastRow) \<leftarrow> (if s1 \<or> s2
         then split_rows pv1 (int i) (int j) s1 s2 start (end_cp + 1)
         else Some (pv1, int i, int j));
       vs \<leftarrow> set_loop (v pv) cl (val AND msk) (NOT msk) firstRow lastRow;
       Some (Some (pv\<lparr>v := vs, prevRow := lastRow\<rparr>), e) } = Some (Some r, e) \<and>
     pv_inv r \<and> columns r = columns pv1 \<and>
     (\<forall>c k. 0 \<le> c \<longrightarrow> c \<le> UPVEC_MAX_CP \<longrightarrow> 0 \<le> k \<longrightarrow> k < columns pv1 - 2 \<longrightarrow>
       value_of r c k = (if start \<le> c \<and> c \<le> end_cp \<and> k = column
          then (value_of pv1 c k AND NOT msk) OR (val AND msk) else value_of pv1 c k))"
proof -
  have val_k: "value_of p c k = vals_for (used p) c ! nat k" for p c k by (simp add: value_of_def)
  have cl2: "2 \<le> cl" "int cl < columns pv1" using cl by simp_all
  from set_rows_ok [OF pv1(1) cl2 ij s1 s2 pv1(2)]
  obtain pv2 vs where r: "split_rows pv1 (int i) (int j) s1 s2 start (end_cp + 1) = Some (pv2, int (i + of_bool s1), int (j + of_bool s1))"
    "set_loop (v pv2) cl (val AND msk) (NOT msk) (int (i + of_bool s1)) (int (j + of_bool s1)) = Some vs"
    "pv_inv (pv2\<lparr>v := vs, prevRow := int (j + of_bool s1)\<rparr>)" "columns pv2 = columns pv1"
    "\<forall>c k. 0 \<le> c \<longrightarrow> c \<le> UPVEC_MAX_CP \<longrightarrow> k < nat (columns pv1) - 2 \<longrightarrow>
     vals_for (used (pv2\<lparr>v := vs, prevRow := int (j + of_bool s1)\<rparr>)) c ! k =
       (if start \<le> c \<and> c \<le> end_cp \<and> k + 2 = cl
        then (vals_for (used pv1) c ! k AND NOT msk) OR (val AND msk) else vals_for (used pv1) c ! k)"
    by blast
  have sp: "(if s1 \<or> s2 then split_rows pv1 (int i) (int j) s1 s2 start (end_cp + 1) else Some (pv1, int i, int j)) =
      Some (pv2, int (i + of_bool s1), int (j + of_bool s1))"
    using r(1) split_rows_none [OF pv1(1,3,4)] by (cases "s1 \<or> s2") auto
  let ?r = "pv2\<lparr>v := vs, prevRow := int (j + of_bool s1)\<rparr>"
  have "value_of ?r c k = (if start \<le> c \<and> c \<le> end_cp \<and> k = column
        then (value_of pv1 c k AND NOT msk) OR (val AND msk) else value_of pv1 c k)"
    if "0 \<le> c" "c \<le> UPVEC_MAX_CP" "0 \<le> k" "k < columns pv1 - 2" for c k
  proof -
    have "nat k < nat (columns pv1) - 2" using that by simp
    moreover have "nat k + 2 = cl \<longleftrightarrow> k = column" using that cl by auto
    ultimately show ?thesis using r(5) [rule_format, of c "nat k"] that by (simp add: val_k)
  qed
  then show ?thesis using sp r(2-4) by (intro exI [of _ ?r]) simp
qed

text \<open>
  C39: \<open>upvec_setValue\<close> keeps the table well formed and sets the bits under the mask, in one column,
  for exactly the code points of the range; every other value is as before. It fails only when
  there is no memory, and then no value has changed: the internal error for a table that
  is full cannot occur.
\<close>
theorem upvec_setValue_refines:
  assumes inv: "pv_inv pv" and m: "malloc_ok malloc" and e: "\<not> U_FAILURE e"
    and range: "0 \<le> start" "start \<le> end_cp" "end_cp \<le> UPVEC_MAX_CP" and col: "0 \<le> column" "column < columns pv - 2"
  shows "\<exists>pv' e'. upvec_setValue malloc (Some pv) start end_cp column val msk e = Some (Some pv', e') \<and>
    pv_inv pv' \<and> columns pv' = columns pv \<and> (e' = e \<or> e' = U_MEMORY_ALLOCATION_ERROR) \<and>
    (\<forall>c k. 0 \<le> c \<longrightarrow> c \<le> UPVEC_MAX_CP \<longrightarrow> 0 \<le> k \<longrightarrow> k < columns pv - 2 \<longrightarrow>
       value_of pv' c k =
         (if e' = e \<and> start \<le> c \<and> c \<le> end_cp \<and> k = column
          then (value_of pv c k AND NOT msk) OR (val AND msk) else value_of pv c k))"
proof -
  obtain i j where ij: "covers (used pv) start (int i)" "covers (used pv) end_cp (int j)"
    and inv2: "pv_inv (pv\<lparr>prevRow := int j\<rparr>)"
    and found: "\<And>s1 s2 cl. cl = nat (column + 2) \<Longrightarrow>
       s1 \<longleftrightarrow> start \<noteq> cell (used pv ! i) 0 \<and> val AND msk \<noteq> used pv ! i ! cl AND msk \<Longrightarrow>
       s2 \<longleftrightarrow> end_cp + 1 \<noteq> cell (used pv ! j) 1 \<and> val AND msk \<noteq> used pv ! j ! cl AND msk \<Longrightarrow>
       upvec_setValue malloc (Some pv) start end_cp column val msk e =
         (case (if s1 \<or> s2 then grow_rows malloc (pv\<lparr>prevRow := int j\<rparr>) (rows pv + of_bool s1 + of_bool s2)
             else Inr (pv\<lparr>prevRow := int j\<rparr>)) of
               Inl err \<Rightarrow> Some (Some (pv\<lparr>prevRow := int j\<rparr>), err)
             | Inr pv \<Rightarrow> do {
                 (pv, firstRow, lastRow) \<leftarrow> (if s1 \<or> s2
                   then split_rows pv (int i) (int j) s1 s2 start (end_cp + 1)
                   else Some (pv, int i, int j));
                 vs \<leftarrow> set_loop (v pv) cl (val AND msk) (NOT msk) firstRow lastRow;
                 Some (Some (pv\<lparr>v := vs, prevRow := lastRow\<rparr>), e) })"
    by (rule upvec_setValue_found [OF inv e range col]) (rule that)
  define cl where "cl = nat (column + 2)"
  define s1 where "s1 \<longleftrightarrow> start \<noteq> cell (used pv ! i) 0 \<and> val AND msk \<noteq> used pv ! i ! cl AND msk"
  define s2 where "s2 \<longleftrightarrow> end_cp + 1 \<noteq> cell (used pv ! j) 1 \<and> val AND msk \<noteq> used pv ! j ! cl AND msk"
  note body = found [OF cl_def s1_def s2_def]
  consider "upvec_setValue malloc (Some pv) start end_cp column val msk e =
      Some (Some (pv\<lparr>prevRow := int j\<rparr>), U_MEMORY_ALLOCATION_ERROR)"
    | r pv1 where "upvec_setValue malloc (Some pv) start end_cp column val msk e = Some (Some r, e)"
      "pv_inv r" "columns r = columns pv" "used pv1 = used pv"
      "\<forall>c k. 0 \<le> c \<longrightarrow> c \<le> UPVEC_MAX_CP \<longrightarrow> 0 \<le> k \<longrightarrow> k < columns pv - 2 \<longrightarrow>
         value_of r c k = (if start \<le> c \<and> c \<le> end_cp \<and> k = column
            then (value_of pv1 c k AND NOT msk) OR (val AND msk) else value_of pv1 c k)"
  proof (rule setValue_room [OF inv inv2 m ij range(2), of s1 s2])
    fix pv1 assume p: "(if s1 \<or> s2 then grow_rows malloc (pv\<lparr>prevRow := int j\<rparr>) (rows pv + of_bool s1 + of_bool s2)
        else Inr (pv\<lparr>prevRow := int j\<rparr>)) = Inr pv1"
      and w: "pv_inv pv1" "rows pv1 + of_bool s1 + of_bool s2 \<le> maxRows pv1" "used pv1 = used pv" "columns pv1 = columns pv"
        "i \<le> j" "j < length (used pv1)"
    from setValue_write [where e = e, OF w(1,2,5,6), unfolded w(3,4), OF ij range(2) s1_def s2_def cl_def col]
    show thesis by (elim exE conjE) (rule that(2), unfold body p, simp, assumption, assumption, rule w(3), assumption)
  qed (use that(1) body in \<open>auto simp: s1_def s2_def\<close>)
  then show ?thesis
  proof cases
    case 1
    then show ?thesis using inv2 e by (auto simp: value_of_def)
  next
    case (2 r pv1)
    then show ?thesis by (auto simp: value_of_def)
  qed
qed

theorem upvec_setValue_refines_witness:
  "\<exists>pv pv' e'. pv_inv pv \<and> upvec_setValue zero_malloc (Some pv) 0x41 0x5a 0 3 1 U_ZERO_ERROR = Some (Some pv', e') \<and>
     pv_inv pv' \<and> (e' = U_ZERO_ERROR \<longrightarrow> value_of pv' 0x45 0 = 1 \<and> value_of pv' 0x61 0 = 0)"
proof -
  obtain pv where pv: "pv_inv pv" "columns pv = 3" "\<forall>c. 0 \<le> c \<longrightarrow> c \<le> UPVEC_MAX_CP \<longrightarrow> value_of pv c 0 = 0"
    using one_column_exists by blast
  have b: "(0x5a :: int) \<le> UPVEC_MAX_CP" "(0x45 :: int) \<le> UPVEC_MAX_CP" "(0x61 :: int) \<le> UPVEC_MAX_CP"
    by (simp_all add: UPVEC_MAX_CP_def)
  have "0 < columns pv - 2" using pv(2) by simp
  from upvec_setValue_refines [OF pv(1) zero_malloc_ok _ _ _ b(1) _ this, of U_ZERO_ERROR "0x41" 3 1]
  obtain pv' e' where r: "upvec_setValue zero_malloc (Some pv) 0x41 0x5a 0 3 1 U_ZERO_ERROR = Some (Some pv', e')" "pv_inv pv'"
    "\<And>c. 0 \<le> c \<Longrightarrow> c \<le> UPVEC_MAX_CP \<Longrightarrow> value_of pv' c 0 =
         (if e' = U_ZERO_ERROR \<and> 0x41 \<le> c \<and> c \<le> 0x5a then (value_of pv c 0 AND NOT 1) OR (3 AND 1) else value_of pv c 0)"
    using pv(2) by auto
  show ?thesis using pv(1,3) r(1,2) r(3) [OF _ b(2)] r(3) [OF _ b(3)] b by (intro exI [of _ pv] exI [of _ pv'] exI [of _ e']) auto
qed

text \<open>
  \<open>upvec_open\<close> gives a well-formed table in which every value is 0, whatever was in the memory, or
  an error: for less than one column, or without memory.
\<close>
theorem upvec_open_ok:
  assumes m: "malloc_ok malloc" and e: "\<not> U_FAILURE e"
  shows "if cols < 1 then upvec_open obj malloc cols e = Some (None, U_ILLEGAL_ARGUMENT_ERROR)
    else if malloc UPVEC_INITIAL_ROWS (cols + 2) = None \<or> \<not> obj
    then upvec_open obj malloc cols e = Some (None, U_MEMORY_ALLOCATION_ERROR)
    else \<exists>pv. upvec_open obj malloc cols e = Some (Some pv, e) \<and> pv_inv pv \<and> columns pv = cols + 2 \<and>
      (\<forall>c k. 0 \<le> c \<longrightarrow> c \<le> UPVEC_MAX_CP \<longrightarrow> 0 \<le> k \<longrightarrow> k < cols \<longrightarrow> value_of pv c k = 0)"
proof (cases "1 \<le> cols \<and> malloc UPVEC_INITIAL_ROWS (cols + 2) \<noteq> None \<and> obj")
  case False
  then show ?thesis using e by (auto simp: upvec_open_def Let_def split: option.splits)
next
  case True
  then show ?thesis using upvec_open_table [OF m e True] by auto
qed

theorem upvec_open_ok_witness:
  "\<exists>pv. upvec_open True zero_malloc 1 U_ZERO_ERROR = Some (Some pv, U_ZERO_ERROR) \<and> pv_inv pv \<and>
    value_of pv 0x41 0 = 0"
  using upvec_open_ok [OF zero_malloc_ok, of U_ZERO_ERROR 1 True]
  by (auto simp: zero_malloc_def UPVEC_INITIAL_ROWS_def UPVEC_MAX_CP_def)

text \<open>
  \<open>upvec_getValue\<close> returns the value of the table for the code point, and 0 for arguments out of range,
  wherever the last search ended; the table keeps its contents.
\<close>
lemma upvec_getValue_correct:
  assumes inv: "pv_inv pv"
  shows "\<exists>pv'. upvec_getValue pv c column =
      Some (pv', if 0 \<le> c \<and> c \<le> UPVEC_MAX_CP \<and> 0 \<le> column \<and> column < columns pv - 2 then value_of pv c column else 0) \<and>
    pv_inv pv' \<and> used pv' = used pv"
proof (cases "0 \<le> c \<and> c \<le> UPVEC_MAX_CP \<and> 0 \<le> column \<and> column < columns pv - 2")
  case False
  then show ?thesis using inv by (auto simp: upvec_getValue_def)
next
  case True
  then obtain i where i: "findRow pv c = Some (pv\<lparr>prevRow := i\<rparr>, i)" "covers (used pv) c i" using findRow_ok [OF inv] by blast
  have ir: "0 \<le> i" "i < rows pv" "nat i < length (used pv)"
    using i(2) used_length [OF inv] by (auto simp: covers_def split: if_splits)
  have ch: "chain 0 (used pv) (UPVEC_MAX_CP + 1)" using inv by (simp add: pv_inv_def)
  have "row_for (used pv) c = used pv ! nat i"
    using row_for_nth [OF ch ir(3)] i(2) by (simp add: covers_def)
  moreover have "int (length (used pv ! nat i)) = columns pv" 
    using inv nth_mem [OF ir(3)] set_take_subset [of "nat (rows pv)" "v pv"] by (auto simp: pv_inv_def used_def)
  ultimately have "value_of pv c column = used pv ! nat i ! nat (2 + column)"
    using True by (simp add: value_of_def vals_for_def nat_add_distrib)
  moreover have "pv_inv (pv\<lparr>prevRow := i\<rparr>)" using inv ir by (simp add: pv_inv_def)
  ultimately show ?thesis
    using True i(1) used_rd [OF inv ir(1,2)] inv by (auto simp: upvec_getValue_def pv_inv_def)
qed

lemma upvec_getValue_correct_witness:
  "\<exists>pv pv'. pv_inv pv \<and> upvec_getValue pv 0x41 0 = Some (pv', 0) \<and> pv_inv pv'"
proof -
  obtain pv where pv: "pv_inv pv" "columns pv = 3" "\<forall>c. 0 \<le> c \<longrightarrow> c \<le> UPVEC_MAX_CP \<longrightarrow> value_of pv c 0 = 0"
    using one_column_exists by blast
  with upvec_getValue_correct [OF pv(1), of "0x41" 0] show ?thesis by (auto simp: UPVEC_MAX_CP_def)
qed
end
