(* ===== verification/PropsVecCompact.thy ===== *)
theory PropsVecCompact
  imports PropsVec "HOL-Library.List_Lexorder"
begin

text \<open>
  Compacting properties vectors (the second half of \<open>propsvec.c\<close>). The rows are sorted by their values
  with \<open>uprv_sortArray\<close>; then the memory is rewritten, as one array of cells, to hold each vector of
  values once. The handler of the caller is a function on its context, which gets the range, the
  index of the vector and its values, and may set an error.
\<close>

section \<open>The order of rows\<close>

function compare_from :: "int \<Rightarrow> u32 list \<Rightarrow> u32 list \<Rightarrow> int \<Rightarrow> int \<Rightarrow> int" where
  "compare_from cols left right i cnt =
     (if left ! nat i \<noteq> right ! nat i then (if left ! nat i < right ! nat i then -1 else 1)
      else let i = (if i + 1 = cols then 0 else i + 1) in
        if cnt - 1 > 0 then compare_from cols left right i (cnt - 1) else 0)"
  by pat_completeness auto
termination by (relation "measure (\<lambda>(cols, l, r, i, cnt). nat cnt)") auto

declare compare_from.simps [simp del]

definition upvec_compareRows :: "int \<Rightarrow> u32 list \<Rightarrow> u32 list \<Rightarrow> int" where
  "upvec_compareRows cols left right = compare_from cols left right 2 cols"

section \<open>Compacting\<close>

definition UPVEC_START_REAL_VALUES_CP :: UChar32 where "UPVEC_START_REAL_VALUES_CP = 0x200000"

text \<open>\<open>handler context start end rowIndex row columns error\<close>\<close>

type_synonym 'c handler = "'c \<Rightarrow> UChar32 \<Rightarrow> UChar32 \<Rightarrow> int \<Rightarrow> u32 list \<Rightarrow> int \<Rightarrow> UErrorCode \<Rightarrow> 'c \<times> UErrorCode"

text \<open>The cells of the memory of a table, and the rows of a memory.\<close>

definition rows_of :: "int \<Rightarrow> u32 list \<Rightarrow> u32 list list" where
  "rows_of cols mem = map (\<lambda>i. take (nat cols) (drop (i * nat cols) mem)) [0..<length mem div nat cols]"

definition rd_cells :: "u32 list \<Rightarrow> int \<Rightarrow> int \<Rightarrow> u32 list option" where
  "rd_cells mem i n = (if 0 \<le> i \<and> 0 \<le> n \<and> i + n \<le> int (length mem) then Some (seg mem i (i + n)) else None)"

text \<open>
  The first loop, from row \<open>i\<close> on: the result is the count, the context and the error. The comparison
  looks at the cells in front of the row, which are the values of the row before.
\<close>

function special_loop ::
  "'c handler \<Rightarrow> u32 list \<Rightarrow> int \<Rightarrow> int \<Rightarrow> int \<Rightarrow> int \<Rightarrow> 'c \<Rightarrow> UErrorCode \<Rightarrow> (int \<times> 'c \<times> UErrorCode) option" where
  "special_loop handler mem cols n i cnt ctx e =
     (if i < n then do {
        let valueColumns = cols - 2;
        let row = i * cols;
        start \<leftarrow> rd mem row;
        vals \<leftarrow> rd_cells mem (row + 2) valueColumns;
        isNew \<leftarrow> (if cnt < 0 then Some True
                 else do { before \<leftarrow> rd_cells mem (row - valueColumns) valueColumns; Some (vals \<noteq> before) });
        let cnt = (if isNew then cnt + valueColumns else cnt);
        let (ctx, e) = (if sint start \<ge> UPVEC_FIRST_SPECIAL_CP
                        then handler ctx (sint start) (sint start) cnt vals valueColumns e else (ctx, e));
        if sint start \<ge> UPVEC_FIRST_SPECIAL_CP \<and> U_FAILURE e then Some (cnt, ctx, e)
        else special_loop handler mem cols n (i + 1) cnt ctx e }
      else Some (cnt, ctx, e))"
  by pat_completeness auto
termination by (relation "measure (\<lambda>(h, mem, cols, n, i, cnt, ctx, e). nat (n - i))") auto

text \<open>The second loop moves the vectors; \<open>None\<close> for the count is the early return.\<close>

function move_loop ::
  "'c handler \<Rightarrow> u32 list \<Rightarrow> int \<Rightarrow> int \<Rightarrow> int \<Rightarrow> int \<Rightarrow> 'c \<Rightarrow> UErrorCode \<Rightarrow>
     (u32 list \<times> int option \<times> 'c \<times> UErrorCode) option" where
  "move_loop handler mem cols n i cnt ctx e =
     (if i < n then do {
        let valueColumns = cols - 2;
        let row = i * cols;
        start \<leftarrow> rd mem row;
        limit \<leftarrow> rd mem (row + 1);
        vals \<leftarrow> rd_cells mem (row + 2) valueColumns;
        isNew \<leftarrow> (if cnt < 0 then Some True
                 else do { cur \<leftarrow> rd_cells mem cnt valueColumns; Some (vals \<noteq> cur) });
        let cnt = (if isNew then cnt + valueColumns else cnt);
        mem \<leftarrow> (if isNew then memmove mem cnt (row + 2) valueColumns else Some mem);
        vals \<leftarrow> rd_cells mem cnt valueColumns;
        let (ctx, e) = (if sint start < UPVEC_FIRST_SPECIAL_CP
                        then handler ctx (sint start) (sint limit - 1) cnt vals valueColumns e else (ctx, e));
        if sint start < UPVEC_FIRST_SPECIAL_CP \<and> U_FAILURE e then Some (mem, None, ctx, e)
        else move_loop handler mem cols n (i + 1) cnt ctx e }
      else Some (mem, Some cnt, ctx, e))"
  by pat_completeness auto
termination by (relation "measure (\<lambda>(h, mem, cols, n, i, cnt, ctx, e). nat (n - i))") auto

declare special_loop.simps [simp del] move_loop.simps [simp del]

text \<open>\<open>malloc\<close> is the allocation of the sort.\<close>

definition upvec_compact ::
  "(int \<Rightarrow> bool) \<Rightarrow> UPropsVectors \<Rightarrow> 'c handler option \<Rightarrow> 'c \<Rightarrow> UErrorCode \<Rightarrow> (UPropsVectors \<times> 'c \<times> UErrorCode) option" where
  "upvec_compact malloc pv handler ctx e =
     (if U_FAILURE e then Some (pv, ctx, e)
      else case handler of
        None \<Rightarrow> Some (pv, ctx, U_ILLEGAL_ARGUMENT_ERROR)
      | Some h \<Rightarrow>
          if isCompacted pv then Some (pv, ctx, e)
          else do {
            let pv = pv\<lparr>isCompacted := True\<rparr>;
            let n = rows pv;
            let cols = columns pv;
            let valueColumns = cols - 2;
            (srt, e) \<leftarrow> uprv_sortArray malloc (Some (take (nat n) (v pv))) n (cols * 4)
              (Some (upvec_compareRows cols)) False e;
            let pv = pv\<lparr>v := the srt @ drop (nat n) (v pv)\<rparr>;
            if U_FAILURE e then Some (pv, ctx, e)
            else do {
              let mem = concat (v pv);
              (cnt, ctx, e) \<leftarrow> special_loop h mem cols n 0 (- valueColumns) ctx e;
              if U_FAILURE e then Some (pv, ctx, e)
              else do {
                lastVals \<leftarrow> rd_cells mem (n * cols - valueColumns) valueColumns;
                let (ctx, e) = h ctx UPVEC_START_REAL_VALUES_CP UPVEC_START_REAL_VALUES_CP (cnt + valueColumns)
                  lastVals valueColumns e;
                if U_FAILURE e then Some (pv, ctx, e)
                else do {
                  (mem, cnt, ctx, e) \<leftarrow> move_loop h mem cols n 0 (- valueColumns) ctx e;
                  let pv = pv\<lparr>v := rows_of cols mem\<rparr>;
                  (case cnt of
                     None \<Rightarrow> Some (pv, ctx, e)
                   | Some c \<Rightarrow> Some (pv\<lparr>rows := c div valueColumns + 1\<rparr>, ctx, e)) } } } })"

text \<open>The results are the cells from the start of the array, the rows and the columns; \<open>None\<close> for NULL.\<close>

definition upvec_getArray :: "UPropsVectors \<Rightarrow> (u32 list \<times> int \<times> int) option" where
  "upvec_getArray pv =
     (if \<not> isCompacted pv then None else Some (concat (v pv), rows pv, columns pv - 2))"

definition upvec_cloneArray ::
  "(int \<Rightarrow> bool) \<Rightarrow> UPropsVectors \<Rightarrow> UErrorCode \<Rightarrow> ((u32 list \<times> int \<times> int) option \<times> UErrorCode) option" where
  "upvec_cloneArray malloc pv e =
     (if U_FAILURE e then Some (None, e)
      else if \<not> isCompacted pv then Some (None, U_ILLEGAL_ARGUMENT_ERROR)
      else if \<not> malloc (rows pv * (columns pv - 2) * 4) then Some (None, U_MEMORY_ALLOCATION_ERROR)
      else do {
        cells \<leftarrow> rd_cells (concat (v pv)) 0 (rows pv * (columns pv - 2));
        Some (Some (cells, rows pv, columns pv - 2), e) })"

section \<open>The comparator\<close>

fun lexc :: "u32 list \<Rightarrow> u32 list \<Rightarrow> int" where
  "lexc (x # xs) (y # ys) = (if x \<noteq> y then (if x < y then -1 else 1) else lexc xs ys)"
| "lexc _ _ = 0"

lemma lexc_order:
  "length xs = length ys \<Longrightarrow> (lexc xs ys \<le> 0 \<longleftrightarrow> xs \<le> ys) \<and> (lexc xs ys < 0 \<longleftrightarrow> xs < ys) \<and> (0 < lexc xs ys \<longleftrightarrow> ys < xs)"
  by (induction xs ys rule: list_induct2) auto

lemma lexc_prefix: "length xs = length ys \<Longrightarrow> lexc (xs @ us) (ys @ vs) \<le> 0 \<Longrightarrow> lexc xs ys \<le> 0"
  by (induction xs ys rule: list_induct2) (auto split: if_splits)

text \<open>The columns in the order in which they are compared.\<close>

function col_seq :: "int \<Rightarrow> int \<Rightarrow> int \<Rightarrow> int list" where
  "col_seq cols i cnt =
     i # (if cnt - 1 > 0 then col_seq cols (if i + 1 = cols then 0 else i + 1) (cnt - 1) else [])"
  by pat_completeness auto
termination by (relation "measure (\<lambda>(cols, i, cnt). nat cnt)") auto

declare col_seq.simps [simp del]

lemma compare_from_lexc:
  "compare_from cols l r i cnt = lexc (map (\<lambda>j. l ! nat j) (col_seq cols i cnt)) (map (\<lambda>j. r ! nat j) (col_seq cols i cnt))"
proof (induction cols l r i cnt rule: compare_from.induct)
  case (1 cols l r i cnt)
  then show ?case by (subst compare_from.simps, subst (1 2) col_seq.simps) (auto simp: Let_def)
qed

lemma col_seq_values:
  "2 \<le> i \<Longrightarrow> i < cols \<Longrightarrow> col_seq cols i (cols - i + 2) = [i..cols - 1] @ [0, 1]"
proof (induction "nat (cols - i)" arbitrary: i rule: less_induct)
  case less
  show ?case
  proof (cases "i + 1 = cols")
    case True
    have "col_seq cols 1 1 = [1]" by (subst col_seq.simps) simp
    then have "col_seq cols 0 2 = [0, 1]" using less.prems by (subst col_seq.simps) simp
    moreover have "[i..cols - 1] = [i]" using True by (simp add: upto.simps)
    ultimately show ?thesis using True less.prems by (subst col_seq.simps) auto
  next
    case False
    have "col_seq cols (i + 1) (cols - (i + 1) + 2) = [i + 1..cols - 1] @ [0, 1]"
      using less.hyps [of "i + 1"] less.prems False by simp
    then show ?thesis using less.prems False by (subst col_seq.simps) (simp add: upto_rec1 algebra_simps)
  qed
qed

lemma map_nth_upto: "map (\<lambda>j. l ! nat j) [2..int (length l) - 1] = drop 2 l"
proof (rule nth_equalityI)
  fix i assume "i < length (map (\<lambda>j. l ! nat j) [2..int (length l) - 1])"
  then show "map (\<lambda>j. l ! nat j) [2..int (length l) - 1] ! i = drop 2 l ! i"
    by (simp add: nat_add_distrib)
qed auto

lemma compareRows_values:
  assumes "upvec_compareRows cols l r \<le> 0" "int (length l) = cols" "int (length r) = cols" "3 \<le> cols"
  shows "drop 2 l \<le> drop 2 r"
proof -
  have "col_seq cols 2 cols = [2..cols - 1] @ [0, 1]" using col_seq_values [of 2 cols] assms(4) by simp
  then have "lexc (drop 2 l @ [l ! 0, l ! 1]) (drop 2 r @ [r ! 0, r ! 1]) \<le> 0"
    using assms map_nth_upto [of l] map_nth_upto [of r]
    by (simp add: upvec_compareRows_def compare_from_lexc)
  moreover have "length (drop 2 l) = length (drop 2 r)" using assms by simp
  ultimately show ?thesis using lexc_prefix lexc_order by blast
qed

interpretation rows: comparator "upvec_compareRows cols" for cols
proof
  fix l r z :: "u32 list"
  have len: "length (map (\<lambda>j. l ! nat j) (col_seq cols 2 cols)) = length (map (\<lambda>j. r ! nat j) (col_seq cols 2 cols))" for l r :: "u32 list"
    by simp
  note o = lexc_order [OF len]
  show "upvec_compareRows cols l r < 0 \<longleftrightarrow> 0 < upvec_compareRows cols r l"
    unfolding upvec_compareRows_def compare_from_lexc using o [of l r] o [of r l] by simp
  assume "upvec_compareRows cols l r \<le> 0" "upvec_compareRows cols r z \<le> 0"
  then show "upvec_compareRows cols l z \<le> 0"
    unfolding upvec_compareRows_def compare_from_lexc using o [of l r] o [of r z] o [of l z] by simp
qed

section \<open>Groups of equal vectors\<close>

text \<open>Every row with the number of its vector, when equal vectors are next to each other.\<close>

fun groups :: "u32 list option \<Rightarrow> int \<Rightarrow> u32 list list \<Rightarrow> (u32 list \<times> int) list" where
  "groups prev g [] = []"
| "groups prev g (r # rs) =
     (let g' = (if prev = Some (drop 2 r) then g else g + 1) in (r, g') # groups (Some (drop 2 r)) g' rs)"

definition vectors :: "u32 list list \<Rightarrow> u32 list list" where
  "vectors rs = remdups_adj (map (drop 2) rs)"

lemma map_fst_groups [simp]: "map fst (groups p g rs) = rs"
  by (induction rs arbitrary: p g) (auto simp: Let_def)

lemma remdups_adj_snoc:
  "remdups_adj (xs @ [x]) = (if xs \<noteq> [] \<and> last xs = x then remdups_adj xs else remdups_adj xs @ [x])"
  by (induction xs rule: remdups_adj.induct) auto

lemma sorted_remdups_adj_distinct: "sorted xs \<Longrightarrow> distinct (remdups_adj xs)"
  by (induction xs rule: remdups_adj.induct) auto

section \<open>Rows in the memory\<close>

lemma concat_rows_nth:
  "\<forall>r \<in> set R. length r = w \<Longrightarrow> i < length R \<Longrightarrow> take w (drop (i * w) (concat R @ t)) = R ! i"
proof (induction R arbitrary: i)
  case (Cons r R)
  then show ?case by (cases i) auto
qed simp

lemma length_concat_rows: "\<forall>r \<in> set R. length r = w \<Longrightarrow> length (concat R) = length R * w"
  by (induction R) auto

text \<open>The memory from row \<open>i\<close> on is that of the rows \<open>R\<close>, of \<open>w\<close> cells each.\<close>

definition mem_rows :: "u32 list list \<Rightarrow> nat \<Rightarrow> u32 list \<Rightarrow> nat \<Rightarrow> bool" where
  "mem_rows R w mem i \<longleftrightarrow> (\<forall>j. i \<le> j \<longrightarrow> j < length R \<longrightarrow> take w (drop (j * w) mem) = R ! j) \<and>
     length R * w \<le> length mem \<and> (\<forall>r \<in> set R. length r = w)"

lemma mem_rows_concat: "\<forall>r \<in> set R. length r = w \<Longrightarrow> mem_rows R w (concat R @ t) i"
  using length_concat_rows [of R w] by (simp add: mem_rows_def concat_rows_nth del: take_append drop_append)

lemma row_inside: "j < n \<Longrightarrow> (w::nat) * n \<le> m \<Longrightarrow> j * w + w \<le> m"
proof -
  assume "j < n" "w * n \<le> m"
  then have "Suc j * w \<le> n * w" by (intro mult_le_mono1) simp
  then show "j * w + w \<le> m" using \<open>w * n \<le> m\<close> by (simp add: mult.commute)
qed

lemma mem_rows_rd:
  assumes "mem_rows R w mem i" "i \<le> j" "j < length R" "k < w"
  shows "rd mem (int (j * w) + int k) = Some (R ! j ! k)"
proof -
  have l: "j * w + w \<le> length mem" using assms row_inside [of j "length R" w "length mem"] by (simp add: mem_rows_def mult.commute)
  have "mem ! (j * w + k) = take w (drop (j * w) mem) ! k" using l assms(4) by simp
  also have "\<dots> = R ! j ! k" using assms by (simp add: mem_rows_def)
  finally show ?thesis using l assms(4) by (simp add: rd_Some_iff nat_add_distrib flip: of_nat_mult of_nat_add)
qed

lemma rd_cells_take: "a + n \<le> length mem \<Longrightarrow> rd_cells mem (int a) (int n) = Some (take n (drop a mem))"
  by (simp add: rd_cells_def seg_def)

lemma mem_rows_values:
  assumes "mem_rows R w mem i" "i \<le> j" "j < length R" "w = u + 2"
  shows "rd_cells mem (int (j * w) + 2) (int u) = Some (drop 2 (R ! j))"
proof -
  have l: "j * w + w \<le> length mem" using assms(1-3) row_inside [of j "length R" w "length mem"] by (simp add: mem_rows_def mult.commute)
  have "drop 2 (take w (drop (j * w) mem)) = drop 2 (R ! j)" using assms(1-3) by (simp add: mem_rows_def)
  then have "take u (drop (j * w + 2) mem) = drop 2 (R ! j)" using assms(4) by (simp add: drop_take add.commute)
  moreover have "int (j * w) + 2 = int (j * w + 2)" by (simp only: of_nat_add of_nat_numeral)
  moreover have "j * w + 2 + u \<le> length mem" using l assms(4) by linarith
  ultimately show ?thesis using rd_cells_take [of "j * w + 2" u mem] by metis
qed

lemma mem_rows_before:
  assumes "mem_rows R w mem 0" "Suc j \<le> length R" "w = u + 2"
  shows "rd_cells mem (int (Suc j * w) - int u) (int u) = Some (drop 2 (R ! j))"
proof -
  have "Suc j * w = j * w + 2 + u" using assms(3) by simp
  then have "int (Suc j * w) - int u = int (j * w) + 2" by (simp only: of_nat_add of_nat_numeral)
  moreover have "rd_cells mem (int (j * w) + 2) (int u) = Some (drop 2 (R ! j))"
    by (rule mem_rows_values [OF assms(1) _ _ assms(3)]) (use assms(2) in simp_all)
  ultimately show ?thesis by (simp only:)
qed

section \<open>The loops\<close>

text \<open>A handler that reports no error, and what it does with a list of calls.\<close>

definition quiet :: "'c handler \<Rightarrow> bool" where
  "quiet h \<longleftrightarrow> (\<forall>ctx s t k x n. snd (h ctx s t k x n U_ZERO_ERROR) = U_ZERO_ERROR)"

definition deliver :: "'c handler \<Rightarrow> int \<Rightarrow> (UChar32 \<times> UChar32 \<times> int \<times> u32 list) list \<Rightarrow> 'c \<Rightarrow> 'c" where
  "deliver h vc calls ctx = fold (\<lambda>(s, t, k, x) ctx. fst (h ctx s t k x vc U_ZERO_ERROR)) calls ctx"

definition special_calls :: "int \<Rightarrow> (u32 list \<times> int) list \<Rightarrow> (UChar32 \<times> UChar32 \<times> int \<times> u32 list) list" where
  "special_calls vc gs = map (\<lambda>(r, g). (cell r 0, cell r 0, g * vc, drop 2 r))
     (filter (\<lambda>(r, g). UPVEC_FIRST_SPECIAL_CP \<le> cell r 0) gs)"

definition real_calls :: "int \<Rightarrow> (u32 list \<times> int) list \<Rightarrow> (UChar32 \<times> UChar32 \<times> int \<times> u32 list) list" where
  "real_calls vc gs = map (\<lambda>(r, g). (cell r 0, cell r 1 - 1, g * vc, drop 2 r))
     (filter (\<lambda>(r, g). cell r 0 < UPVEC_FIRST_SPECIAL_CP) gs)"

fun last_group :: "u32 list option \<Rightarrow> int \<Rightarrow> u32 list list \<Rightarrow> int" where
  "last_group prev g [] = g"
| "last_group prev g (r # rs) = last_group (Some (drop 2 r)) (if prev = Some (drop 2 r) then g else g + 1) rs"

definition prev_of :: "u32 list list \<Rightarrow> nat \<Rightarrow> u32 list option" where
  "prev_of R i = (if i = 0 then None else Some (drop 2 (R ! (i - 1))))"

lemma quiet_h: "quiet h \<Longrightarrow> h ctx s t k x n U_ZERO_ERROR = (fst (h ctx s t k x n U_ZERO_ERROR), U_ZERO_ERROR)"
  by (simp add: quiet_def prod_eq_iff)

lemma deliver_simps [simp]:
  "deliver h vc [] ctx = ctx"
  "deliver h vc ((s, t, k, x) # cs) ctx = deliver h vc cs (fst (h ctx s t k x vc U_ZERO_ERROR))"
  "deliver h vc (cs @ ds) ctx = deliver h vc ds (deliver h vc cs ctx)"
  by (simp_all add: deliver_def)

lemma special_loop_eq:
  assumes q: "quiet h" and m: "mem_rows R w mem 0" and u: "0 < u" "w = u + 2"
  shows "i \<le> length R \<Longrightarrow> (i = 0 \<longleftrightarrow> g = -1) \<Longrightarrow> -1 \<le> g \<Longrightarrow>
    special_loop h mem (int w) (int (length R)) (int i) (g * int u) ctx U_ZERO_ERROR =
      Some (last_group (prev_of R i) g (drop i R) * int u,
        deliver h (int u) (special_calls (int u) (groups (prev_of R i) g (drop i R))) ctx, U_ZERO_ERROR)"
proof (induction "length R - i" arbitrary: i g ctx)
  case 0
  then show ?case by (subst special_loop.simps) (simp add: special_calls_def)
next
  case (Suc n)
  then have i: "i < length R" "n = length R - Suc i" by simp_all
  let ?r = "R ! i"
  let ?row = "int i * int w"
  have row: "?row = int (i * w)" by simp
  have vc: "int w - 2 = int u" using u(2) by simp
  have dr: "drop i R = ?r # drop (Suc i) R" using i(1) by (simp add: Cons_nth_drop_Suc)
  have s: "rd mem ?row = Some (?r ! 0)" using mem_rows_rd [OF m _ i(1), of 0] u(2) unfolding row by simp
  have v: "rd_cells mem (?row + 2) (int u) = Some (drop 2 ?r)" using mem_rows_values [OF m _ i(1) u(2)] unfolding row by simp
  define g' where "g' = (if prev_of R i = Some (drop 2 ?r) then g else g + 1)"
  have cnt: "g * int u < 0 \<longleftrightarrow> i = 0" using Suc.prems u(1) by (auto simp: mult_less_0_iff)
  have new: "(if g * int u < 0 then Some True
      else do { before \<leftarrow> rd_cells mem (?row - int u) (int u); Some (drop 2 ?r \<noteq> before) }) =
      Some (prev_of R i \<noteq> Some (drop 2 ?r))"
  proof (cases i)
    case 0
    then show ?thesis using cnt by (simp add: prev_of_def)
  next
    case (Suc j)
    have "rd_cells mem (?row - int u) (int u) = Some (drop 2 (R ! j))"
      using mem_rows_before [OF m _ u(2), of j] i(1) Suc unfolding row by simp
    then show ?thesis using cnt Suc by (auto simp: prev_of_def)
  qed
  have g'c: "(if prev_of R i \<noteq> Some (drop 2 ?r) then g * int u + int u else g * int u) = g' * int u"
    by (simp add: g'_def algebra_simps)
  have c0: "sint (?r ! 0) = cell ?r 0" by (simp add: cell_def)
  obtain ctx1 where H: "h ctx (cell ?r 0) (cell ?r 0) (g' * int u) (drop 2 ?r) (int u) U_ZERO_ERROR = (ctx1, U_ZERO_ERROR)"
    using quiet_h [OF q] by blast
  define ctx' where "ctx' = (if UPVEC_FIRST_SPECIAL_CP \<le> cell ?r 0 then ctx1 else ctx)"
  have step: "special_loop h mem (int w) (int (length R)) (int i) (g * int u) ctx U_ZERO_ERROR =
      special_loop h mem (int w) (int (length R)) (int i + 1) (g' * int u) ctx' U_ZERO_ERROR"
  proof (cases "prev_of R i = Some (drop 2 ?r)")
    case True
    then have "g' = g" by (simp add: g'_def)
    then show ?thesis using i(1) s v new True H by (subst special_loop.simps) (simp add: Let_def c0 vc ctx'_def)
  next
    case False
    then have "g * int u + int u = g' * int u" using g'c by simp
    then show ?thesis using i(1) s v new False H by (subst special_loop.simps) (simp add: Let_def c0 vc ctx'_def)
  qed
  have g'2: "-1 \<le> g'" "g' \<noteq> -1" using Suc.prems by (auto simp: g'_def prev_of_def)
  have p: "prev_of R (Suc i) = Some (drop 2 ?r)" by (simp add: prev_of_def)
  have "special_loop h mem (int w) (int (length R)) (int (Suc i)) (g' * int u) ctx' U_ZERO_ERROR =
      Some (last_group (prev_of R (Suc i)) g' (drop (Suc i) R) * int u,
        deliver h (int u) (special_calls (int u) (groups (prev_of R (Suc i)) g' (drop (Suc i) R))) ctx', U_ZERO_ERROR)"
    using Suc.hyps(1) [OF i(2), of g' ctx'] g'2 i(1) by simp
  then show ?case unfolding step using p H
    by (simp add: dr g'_def [symmetric] special_calls_def ctx'_def Let_def add.commute)
qed

text \<open>One round of the second loop: \<open>V\<close> are the vectors already moved.\<close>

lemma vectors_Suc:
  "i < length R \<Longrightarrow> vectors (take (Suc i) R) =
     (if vectors (take i R) \<noteq> [] \<and> last (vectors (take i R)) = drop 2 (R ! i) then vectors (take i R)
      else vectors (take i R) @ [drop 2 (R ! i)])"
  by (auto simp: vectors_def take_Suc_conv_app_nth remdups_adj_snoc)

lemma length_vectors_take: "length (vectors (take i R)) \<le> i"
  unfolding vectors_def by (rule order_trans [OF remdups_adj_length]) simp

lemma last_vectors: "0 < i \<Longrightarrow> i \<le> length R \<Longrightarrow> vectors (take i R) \<noteq> [] \<and> last (vectors (take i R)) = drop 2 (R ! (i - 1))"
  by (cases i) (auto simp: vectors_def take_Suc_conv_app_nth)

definition moved :: "u32 list list \<Rightarrow> nat \<Rightarrow> nat \<Rightarrow> u32 list \<Rightarrow> bool" where
  "moved R u i mem \<longleftrightarrow> mem_rows R (u + 2) mem i \<and>
     take (length (vectors (take i R)) * u) mem = concat (vectors (take i R))"

lemma vectors_cells: "\<forall>r \<in> set R. length r = u + 2 \<Longrightarrow> x \<in> set (vectors R) \<Longrightarrow> length x = u"
  by (auto simp: vectors_def)

lemma moved_current:
  assumes "moved R u i mem" "0 < i" "i \<le> length R" "length (vectors (take i R)) = Suc n"
  shows "rd_cells mem (int (n * u)) (int u) = Some (drop 2 (R ! (i - 1)))"
proof -
  let ?V = "vectors (take i R)"
  have l: "\<forall>x \<in> set ?V. length x = u"
    using assms(1) by (auto simp: moved_def mem_rows_def vectors_def dest!: in_set_takeD)
  have t: "take (Suc n * u) mem = concat ?V" using assms(1,4) by (simp add: moved_def)
  have c: "length (concat ?V) = Suc n * u" using length_concat_rows [OF l] assms(4) by simp
  then have b: "n * u + u \<le> length mem" using arg_cong [OF t, of length] by simp
  have "take u (drop (n * u) mem) = take u (drop (n * u) (take (Suc n * u) mem))" by (simp add: drop_take)
  also have "\<dots> = ?V ! n" unfolding t using concat_rows_nth [OF l, of n "[]"] assms(4) by simp
  also have "\<dots> = drop 2 (R ! (i - 1))" using last_vectors [OF assms(2,3)] assms(4) by (metis last_conv_nth diff_Suc_1)
  finally show ?thesis using rd_cells_take [OF b] by (simp only:)
qed

lemma moved_move:
  assumes "moved R u i mem" "i < length R" "vectors (take (Suc i) R) = vectors (take i R) @ [drop 2 (R ! i)]"
  defines "n \<equiv> length (vectors (take i R))"
  obtains mem' where "memmove mem (int (n * u)) (int (i * (u + 2)) + 2) (int u) = Some mem'"
    "length mem' = length mem" "moved R u (Suc i) mem'"
    "rd_cells mem' (int (n * u)) (int u) = Some (drop 2 (R ! i))"
proof -
  let ?x = "drop 2 (R ! i)"
  have m: "mem_rows R (u + 2) mem i" and t: "take (n * u) mem = concat (vectors (take i R))"
    using assms(1) by (simp_all add: moved_def n_def)
  have ln: "n \<le> i" by (simp add: n_def length_vectors_take)
  have lx: "length ?x = u" using m assms(2) by (simp add: mem_rows_def)
  have b: "i * (u + 2) + (u + 2) \<le> length mem"
    using m row_inside [of i "length R" "u + 2" "length mem"] assms(2) by (simp add: mem_rows_def mult.commute)
  have "n * u \<le> i * (u + 2)" by (rule mult_le_mono) (use ln in simp_all)
  then have d: "n * u + u \<le> Suc i * (u + 2)" "n * u + u \<le> length mem" using b by simp_all
  have "int (i * (u + 2) + (u + 2)) \<le> int (length mem)" "int (n * u + u) \<le> int (length mem)"
    using b d(2) by (simp_all only: of_nat_le_iff)
  then have bi: "int (i * (u + 2)) + 2 + int u \<le> int (length mem)" "int (n * u) + int u \<le> int (length mem)"
    unfolding of_nat_add by (simp_all only: of_nat_numeral)
  have v: "seg mem (int (i * (u + 2)) + 2) (int (i * (u + 2)) + 2 + int u) = ?x"
    using mem_rows_values [OF m _ assms(2) refl] by (simp add: rd_cells_def split: if_splits)
  define mem' where "mem' = take (n * u) mem @ ?x @ drop (n * u + u) mem"
  have "overwrite mem (int (n * u)) ?x = mem'"
    by (simp only: overwrite_def mem'_def nat_int lx)
  then have mv: "memmove mem (int (n * u)) (int (i * (u + 2)) + 2) (int u) = Some mem'"
    using v bi unfolding memmove_def by (simp only: of_nat_0_le_iff add_nonneg_nonneg zero_le_numeral if_True simp_thms)
  have lm: "length mem' = length mem" using d(2) lx by (simp add: mem'_def)
  have ltake: "length (take (n * u) mem) = n * u" using d(2) by simp
  have rest: "drop j mem' = drop j mem" if "n * u + u \<le> j" for j
    using that ltake lx by (simp add: mem'_def)
  have "drop (j * (u + 2)) mem' = drop (j * (u + 2)) mem" if "Suc i \<le> j" for j
    by (rule rest) (use d(1) mult_le_mono1 [OF that, of "u + 2"] in linarith)
  then have mr: "mem_rows R (u + 2) mem' (Suc i)" using m lm by (simp add: mem_rows_def)
  have "take (Suc n * u) mem' = concat (vectors (take i R)) @ ?x"
    using ltake lx t by (simp add: mem'_def add.commute)
  then have "moved R u (Suc i) mem'" using mr assms(3) by (simp add: moved_def n_def)
  moreover have "rd_cells mem' (int (n * u)) (int u) = Some ?x"
    using rd_cells_take [of "n * u" u mem'] ltake lx lm d(2) by (simp add: mem'_def)
  ultimately show thesis using that [OF mv lm] by blast
qed

lemma vectors_Suc_prev:
  assumes "i < length R"
  shows "vectors (take (Suc i) R) =
     (if prev_of R i = Some (drop 2 (R ! i)) then vectors (take i R) else vectors (take i R) @ [drop 2 (R ! i)])"
proof (cases "i = 0")
  case True
  then show ?thesis using vectors_Suc [OF assms] by (simp add: prev_of_def vectors_def)
next
  case False
  then show ?thesis using vectors_Suc [OF assms] last_vectors [of i R] assms by (simp add: prev_of_def)
qed

lemma move_round:
  assumes "moved R u i mem" "i < length R" "0 < u"
  defines "g \<equiv> int (length (vectors (take i R))) - 1" and "g' \<equiv> int (length (vectors (take (Suc i) R))) - 1"
    and "new \<equiv> prev_of R i \<noteq> Some (drop 2 (R ! i))"
  obtains mem' where "length mem' = length mem" "moved R u (Suc i) mem'"
    "(if g * int u < 0 then Some True
      else do { cur \<leftarrow> rd_cells mem (g * int u) (int u); Some (drop 2 (R ! i) \<noteq> cur) }) = Some new"
    "g' = (if new then g + 1 else g)"
    "(if new then memmove mem (g' * int u) (int (i * (u + 2)) + 2) (int u) else Some mem) = Some mem'"
    "rd_cells mem' (g' * int u) (int u) = Some (drop 2 (R ! i))"
proof -
  let ?V = "vectors (take i R)"
  have gg: "g' = (if new then g + 1 else g)" using vectors_Suc_prev [OF assms(2)] by (simp add: g_def g'_def new_def)
  have ex: "\<exists>n. length ?V = Suc n \<and> g = int n \<and> rd_cells mem (g * int u) (int u) = Some (drop 2 (R ! (i - 1)))" if pos: "0 < i"
  proof -
    obtain n where n: "length ?V = Suc n" using last_vectors [OF pos] assms(2) by (cases ?V) auto
    then have "g = int n" by (simp add: g_def)
    then show ?thesis using moved_current [OF assms(1) pos _ n] assms(2) n by simp
  qed
  have cmp: "(if g * int u < 0 then Some True
      else do { cur \<leftarrow> rd_cells mem (g * int u) (int u); Some (drop 2 (R ! i) \<noteq> cur) }) = Some new"
  proof (cases "i = 0")
    case True
    then show ?thesis using assms(3) by (simp add: g_def new_def prev_of_def vectors_def)
  next
    case False
    then obtain n where "g = int n" "rd_cells mem (g * int u) (int u) = Some (drop 2 (R ! (i - 1)))" using ex by auto
    then show ?thesis using False by (auto simp: new_def prev_of_def mult_less_0_iff)
  qed
  show thesis
  proof (cases new)
    case True
    then have "vectors (take (Suc i) R) = ?V @ [drop 2 (R ! i)]"
      using vectors_Suc_prev [OF assms(2)] by (simp add: new_def)
    note mv = moved_move [OF assms(1,2) this]
    have "g' * int u = int (length ?V * u)" using gg True by (simp add: g_def)
    then show thesis using mv that [OF _ _ cmp gg] True by metis
  next
    case False
    then have eq: "vectors (take (Suc i) R) = ?V" "prev_of R i = Some (drop 2 (R ! i))"
      using vectors_Suc_prev [OF assms(2)] by (simp_all add: new_def)
    then have "0 < i" by (cases i) (simp_all add: prev_of_def)
    then have "rd_cells mem (g' * int u) (int u) = Some (drop 2 (R ! i))"
      using ex eq(2) gg False by (auto simp: prev_of_def)
    moreover have "moved R u (Suc i) mem" using assms(1) eq(1) by (simp add: moved_def mem_rows_def)
    ultimately show thesis using that [OF refl _ cmp gg] False by simp
  qed
qed

lemma move_loop_step:
  assumes "i < n" "cols - 2 = vc" "rd mem (i * cols) = Some s" "rd mem (i * cols + 1) = Some l"
    "rd_cells mem (i * cols + 2) vc = Some x"
    "(if cnt < 0 then Some True else do { cur \<leftarrow> rd_cells mem cnt vc; Some (x \<noteq> cur) }) = Some new"
    "(if new then cnt + vc else cnt) = cnt'"
    "(if new then memmove mem cnt' (i * cols + 2) vc else Some mem) = Some mem1"
    "rd_cells mem1 cnt' vc = Some y" "h ctx (sint s) (sint l - 1) cnt' y vc U_ZERO_ERROR = (ctx1, U_ZERO_ERROR)"
  shows "move_loop h mem cols n i cnt ctx U_ZERO_ERROR =
    move_loop h mem1 cols n (i + 1) cnt' (if sint s < UPVEC_FIRST_SPECIAL_CP then ctx1 else ctx) U_ZERO_ERROR"
proof -
  note a = assms(1-5,7,9,10)
  show ?thesis
    by (subst move_loop.simps, simp only: a assms(6) Let_def if_True bind.bind_lunit) (simp add: a assms(8))
qed

lemma move_loop_eq:
  assumes q: "quiet h" and u: "0 < u"
  shows "i \<le> length R \<Longrightarrow> moved R u i mem \<Longrightarrow> g = int (length (vectors (take i R))) - 1 \<Longrightarrow>
    \<exists>mem'. move_loop h mem (int (u + 2)) (int (length R)) (int i) (g * int u) ctx U_ZERO_ERROR =
      Some (mem', Some ((int (length (vectors R)) - 1) * int u),
        deliver h (int u) (real_calls (int u) (groups (prev_of R i) g (drop i R))) ctx, U_ZERO_ERROR) \<and>
      length mem' = length mem \<and> moved R u (length R) mem'"
proof (induction "length R - i" arbitrary: i g mem ctx)
  case 0
  then show ?case by (subst move_loop.simps) (simp add: real_calls_def)
next
  case (Suc n)
  then have i: "i < length R" "n = length R - Suc i" by simp_all
  let ?r = "R ! i"
  define new where "new = (prev_of R i \<noteq> Some (drop 2 ?r))"
  define g' where "g' = int (length (vectors (take (Suc i) R))) - 1"
  have row: "int i * int (u + 2) = int (i * (u + 2))" by (simp only: of_nat_mult)
  have vc: "int (u + 2) - 2 = int u" by simp
  have m: "mem_rows R (u + 2) mem i" using Suc.prems(2) by (simp add: moved_def)
  have s: "rd mem (int (i * (u + 2))) = Some (?r ! 0)" "rd mem (int (i * (u + 2)) + 1) = Some (?r ! 1)"
    using mem_rows_rd [OF m _ i(1), of 0] mem_rows_rd [OF m _ i(1), of 1] by (simp_all del: of_nat_mult)
  have v: "rd_cells mem (int (i * (u + 2)) + 2) (int u) = Some (drop 2 ?r)"
    using mem_rows_values [OF m _ i(1) refl] by simp
  obtain mem1 where M: "length mem1 = length mem" "moved R u (Suc i) mem1"
    and cmp: "(if g * int u < 0 then Some True
      else do { cur \<leftarrow> rd_cells mem (g * int u) (int u); Some (drop 2 ?r \<noteq> cur) }) = Some new"
    and gg: "g' = (if new then g + 1 else g)"
    and mv: "(if new then memmove mem (g' * int u) (int (i * (u + 2)) + 2) (int u) else Some mem) = Some mem1"
    and rv: "rd_cells mem1 (g' * int u) (int u) = Some (drop 2 ?r)"
    by (rule move_round [OF Suc.prems(2) i(1) u, folded Suc.prems(3), folded new_def, folded g'_def]) (rule that)
  have cnt: "(if new then g * int u + int u else g * int u) = g' * int u" using gg by (simp add: algebra_simps)
  have c0: "sint (?r ! 0) = cell ?r 0" "sint (?r ! 1) = cell ?r 1" by (simp_all add: cell_def)
  obtain ctx1 where H: "h ctx (cell ?r 0) (cell ?r 1 - 1) (g' * int u) (drop 2 ?r) (int u) U_ZERO_ERROR = (ctx1, U_ZERO_ERROR)"
    using quiet_h [OF q] by blast
  define ctx' where "ctx' = (if cell ?r 0 < UPVEC_FIRST_SPECIAL_CP then ctx1 else ctx)"
  have step: "move_loop h mem (int (u + 2)) (int (length R)) (int i) (g * int u) ctx U_ZERO_ERROR =
      move_loop h mem1 (int (u + 2)) (int (length R)) (int i + 1) (g' * int u) ctx' U_ZERO_ERROR"
    unfolding ctx'_def c0(1) [symmetric]
    by (rule move_loop_step [where l = "?r ! 1", OF _ vc _ _ _ cmp cnt _ rv])
       (simp_all only: row s v mv c0 H of_nat_less_iff i(1))
  have p: "prev_of R (Suc i) = Some (drop 2 ?r)" by (simp add: prev_of_def)
  have dr: "drop i R = ?r # drop (Suc i) R" using i(1) by (simp add: Cons_nth_drop_Suc)
  have gr: "groups (prev_of R i) g (drop i R) = (?r, g') # groups (prev_of R (Suc i)) g' (drop (Suc i) R)"
    by (simp add: dr p gg new_def Let_def)
  have "\<exists>mem'. move_loop h mem1 (int (u + 2)) (int (length R)) (int (Suc i)) (g' * int u) ctx' U_ZERO_ERROR =
      Some (mem', Some ((int (length (vectors R)) - 1) * int u),
        deliver h (int u) (real_calls (int u) (groups (prev_of R (Suc i)) g' (drop (Suc i) R))) ctx', U_ZERO_ERROR) \<and>
      length mem' = length mem1 \<and> moved R u (length R) mem'"
    using i(1) by (intro Suc.hyps(1) [OF i(2)] M(2)) (simp_all add: g'_def)
  then show ?case unfolding step gr using M(1) H
    by (cases "cell ?r 0 < UPVEC_FIRST_SPECIAL_CP") (simp_all add: real_calls_def ctx'_def add.commute)
qed

section \<open>The calls\<close>

abbreviation opt_list :: "'a option \<Rightarrow> 'a list" where
  "opt_list p \<equiv> (case p of None \<Rightarrow> [] | Some x \<Rightarrow> [x])"

lemma last_group_vectors:
  "last_group p g rs = g + int (length (remdups_adj (opt_list p @ map (drop 2) rs))) - int (length (opt_list p))"
  by (induction rs arbitrary: p g) (auto split: option.splits)

lemma remdups_adj_nth_0 [simp]: "remdups_adj (x # xs) ! 0 = x"
  by (metis remdups_adj_Cons_alt nth_Cons_0)

lemma groups_vector:
  "(r, k) \<in> set (groups p g rs) \<Longrightarrow> \<exists>i < length (remdups_adj (opt_list p @ map (drop 2) rs)).
     k = g + int i + 1 - int (length (opt_list p)) \<and> remdups_adj (opt_list p @ map (drop 2) rs) ! i = drop 2 r"
proof (induction rs arbitrary: p g)
  case (Cons q rs)
  let ?g = "if p = Some (drop 2 q) then g else g + 1"
  from Cons.prems consider "r = q" "k = ?g" | "(r, k) \<in> set (groups (Some (drop 2 q)) ?g rs)"
    by (auto simp: Let_def)
  then show ?case
  proof cases
    case 1
    then show ?thesis by (cases p) (auto intro: exI [of _ 0] exI [of _ "Suc 0"] simp: nth_Cons')
  next
    case 2
    from Cons.IH [OF this] obtain i where
      "i < length (remdups_adj (drop 2 q # map (drop 2) rs))" "k = ?g + int i"
      "remdups_adj (drop 2 q # map (drop 2) rs) ! i = drop 2 r" by auto
    then show ?thesis by (cases p) (auto intro: exI [of _ i] exI [of _ "Suc i"])
  qed
qed simp

lemma chain_filter:
  "chain a rs b \<Longrightarrow> a \<le> c \<Longrightarrow> c < b \<Longrightarrow> filter (\<lambda>r. cell r 0 \<le> c \<and> c < cell r 1) rs = [row_for rs c]"
proof (induction rs arbitrary: a)
  case (Cons r rs)
  show ?case
  proof (cases "c < cell r 1")
    case True
    have "\<not> (cell x 0 \<le> c \<and> c < cell x 1)" if "x \<in> set rs" for x
      using chain_row [of "cell r 1" rs b x] Cons.prems(1) that True by auto
    then show ?thesis using Cons.prems True by (auto simp: filter_empty_conv)
  next
    case False
    then show ?thesis using Cons.IH [of "cell r 1"] Cons.prems by auto
  qed
qed simp

lemma mset_one: "mset xs = mset [x] \<Longrightarrow> xs = [x]"
  by (cases xs) auto

lemma chain_filter_perm:
  assumes "chain a U b" "a \<le> c" "c < b" "mset R = mset U"
  shows "filter (\<lambda>r. cell r 0 \<le> c \<and> c < cell r 1) R = [row_for U c]"
proof -
  have "mset (filter (\<lambda>r. cell r 0 \<le> c \<and> c < cell r 1) R) = mset (filter (\<lambda>r. cell r 0 \<le> c \<and> c < cell r 1) U)"
    by (simp only: mset_filter assms(4))
  then show ?thesis unfolding chain_filter [OF assms(1-3)] by (rule mset_one)
qed

lemma group_of_row:
  assumes "filter P R = [r]"
  obtains k where "filter (\<lambda>(r, g). P r) (groups None (-1) R) = [(r, int k)]" "k < length (vectors R)"
    "vectors R ! k = drop 2 r"
proof -
  let ?gs = "groups None (-1) R"
  have "map fst (filter (P \<circ> fst) ?gs) = [r]" using assms by (simp flip: filter_map)
  moreover have f: "filter (P \<circ> fst) ?gs = filter (\<lambda>(r, g). P r) ?gs" by (intro filter_cong) auto
  ultimately obtain g where g: "filter (\<lambda>(r, g). P r) ?gs = [(r, g)]" by auto
  then have "(r, g) \<in> set ?gs" by (metis filter_is_subset list.set_intros(1) subsetD)
  from groups_vector [OF this] obtain i where "i < length (vectors R)" "g = int i" "vectors R ! i = drop 2 r"
    by (auto simp: vectors_def)
  then show thesis using that g by simp
qed

lemma real_call:
  assumes "chain 0 U (UPVEC_MAX_CP + 1)" "mset R = mset U" "0 \<le> c" "c < UPVEC_FIRST_SPECIAL_CP"
  shows "\<exists>s t k. filter (\<lambda>(s, t, k, x). s \<le> c \<and> c \<le> t) (real_calls vc (groups None (-1) R)) =
     [(s, t, int k * vc, vectors R ! k)] \<and> k < length (vectors R) \<and> vectors R ! k = vals_for U c"
proof -
  have "filter (\<lambda>r. cell r 0 \<le> c \<and> c < cell r 1) R = [row_for U c]"
    by (rule chain_filter_perm [OF assms(1,3) _ assms(2)])
       (use assms(4) in \<open>simp add: UPVEC_FIRST_SPECIAL_CP_def UPVEC_MAX_CP_def\<close>)
  then obtain k where k: "filter (\<lambda>(r, g). cell r 0 \<le> c \<and> c < cell r 1) (groups None (-1) R) = [(row_for U c, int k)]"
    "k < length (vectors R)" "vectors R ! k = drop 2 (row_for U c)" by (rule group_of_row)
  have "filter (\<lambda>(s, t, k, x). s \<le> c \<and> c \<le> t) (real_calls vc (groups None (-1) R)) =
      map (\<lambda>(r, g). (cell r 0, cell r 1 - 1, g * vc, drop 2 r))
        (filter (\<lambda>(r, g). cell r 0 \<le> c \<and> c < cell r 1) (groups None (-1) R))"
    unfolding real_calls_def filter_map filter_filter
    by (intro arg_cong [where f = "map _"] filter_cong) (use assms(4) in auto)
  then show ?thesis using k by (auto simp: vals_for_def)
qed

lemma special_call:
  assumes "chain 0 U (UPVEC_MAX_CP + 1)" "mset R = mset U" "UPVEC_FIRST_SPECIAL_CP \<le> c" "c \<le> UPVEC_MAX_CP"
    "\<exists>r \<in> set U. cell r 0 = c"
  shows "\<exists>k. filter (\<lambda>(s, t, k, x). s = c) (special_calls vc (groups None (-1) R)) =
     [(c, c, int k * vc, vectors R ! k)] \<and> k < length (vectors R) \<and> vectors R ! k = vals_for U c"
proof -
  have c: "0 \<le> c" "c < UPVEC_MAX_CP + 1" using assms(3,4) by (simp_all add: UPVEC_FIRST_SPECIAL_CP_def)
  have one: "filter (\<lambda>r. cell r 0 \<le> c \<and> c < cell r 1) R = [row_for U c]"
    by (rule chain_filter_perm [OF assms(1) c assms(2)])
  have sets: "set R = set U" using assms(2) by (rule mset_eq_setD)
  from assms(5) obtain q where q: "q \<in> set R" "cell q 0 = c" unfolding sets by blast
  have lt: "cell r 0 < cell r 1" if "r \<in> set R" for r using chain_row [OF assms(1)] that sets by blast
  have "q \<in> set (filter (\<lambda>r. cell r 0 \<le> c \<and> c < cell r 1) R)" using q lt by auto
  then have qr: "q = row_for U c" unfolding one by simp
  have "cell r 0 = c \<longleftrightarrow> cell r 0 \<le> c \<and> c < cell r 1" if "r \<in> set R" for r
  proof
    show "cell r 0 \<le> c \<and> c < cell r 1" if "cell r 0 = c" using lt [OF \<open>r \<in> set R\<close>] that by simp
    assume "cell r 0 \<le> c \<and> c < cell r 1"
    then have "r \<in> set (filter (\<lambda>r. cell r 0 \<le> c \<and> c < cell r 1) R)" using that by simp
    then show "cell r 0 = c" unfolding one using qr q(2) by simp
  qed
  then have "filter (\<lambda>r. cell r 0 = c) R = [row_for U c]" unfolding one [symmetric] by (intro filter_cong) auto
  then obtain k where k: "filter (\<lambda>(r, g). cell r 0 = c) (groups None (-1) R) = [(row_for U c, int k)]"
    "k < length (vectors R)" "vectors R ! k = drop 2 (row_for U c)" by (rule group_of_row)
  have "filter (\<lambda>(s, t, k, x). s = c) (special_calls vc (groups None (-1) R)) =
      map (\<lambda>(r, g). (cell r 0, cell r 0, g * vc, drop 2 r))
        (filter (\<lambda>(r, g). cell r 0 = c) (groups None (-1) R))"
    unfolding special_calls_def filter_map filter_filter
    by (intro arg_cong [where f = "map _"] filter_cong) (use assms(3) in auto)
  then show ?thesis using k qr q(2) by (auto simp: vals_for_def)
qed

section \<open>The whole function\<close>

lemma sorted_vectors:
  assumes "cmp_sorted (upvec_compareRows cols) R" "\<forall>r \<in> set R. int (length r) = cols" "3 \<le> cols"
  shows "sorted (map (drop 2) R)" "distinct (vectors R)"
proof -
  show s: "sorted (map (drop 2) R)"
    unfolding sorted_wrt_map
    by (rule sorted_wrt_mono_rel [OF _ assms(1)]) (use compareRows_values assms(2,3) in blast)
  show "distinct (vectors R)" unfolding vectors_def by (rule sorted_remdups_adj_distinct [OF s])
qed

lemma concat_rows_of:
  assumes "0 < w" "length mem = n * w"
  shows "concat (rows_of (int w) mem) = mem"
proof -
  have "concat (map (\<lambda>i. take w (drop (i * w) mem)) [0..<k]) = take (k * w) mem" for k
  proof (induction k)
    case (Suc k)
    then show ?case using take_add [of "k * w" w mem] by (simp add: add.commute)
  qed simp
  then show ?thesis using assms by (simp add: rows_of_def)
qed

lemma vectors_Nil_iff [simp]: "vectors R = [] \<longleftrightarrow> R = []"
  by (simp add: vectors_def)

lemma last_special_group: "R \<noteq> [] \<Longrightarrow> last_group None (-1) R = int (length (vectors R)) - 1"
  by (simp add: last_group_vectors vectors_def)

text \<open>What happens after the sort, to the sorted rows \<open>R\<close> with the rest of the allocation behind them.\<close>

lemma compact_sorted:
  fixes R t :: "u32 list list" and ctx :: 'c
  assumes q: "quiet h" and u: "0 < u" and R: "R \<noteq> []" "\<forall>r \<in> set R. length r = u + 2"
  defines "mem \<equiv> concat (R @ t)" and "gs \<equiv> groups None (-1) R"
    and "start \<equiv> (UPVEC_START_REAL_VALUES_CP, UPVEC_START_REAL_VALUES_CP, int (length (vectors R)) * int u, drop 2 (last R))"
  obtains ctx1 ctx2 mem' where
    "special_loop h mem (int (u + 2)) (int (length R)) 0 (- int u) ctx U_ZERO_ERROR =
       Some ((int (length (vectors R)) - 1) * int u, ctx1, U_ZERO_ERROR)"
    "rd_cells mem (int (length R) * int (u + 2) - int u) (int u) = Some (drop 2 (last R))"
    "h ctx1 UPVEC_START_REAL_VALUES_CP UPVEC_START_REAL_VALUES_CP (int (length (vectors R)) * int u) (drop 2 (last R))
       (int u) U_ZERO_ERROR = (ctx2, U_ZERO_ERROR)"
    "move_loop h mem (int (u + 2)) (int (length R)) 0 (- int u) ctx2 U_ZERO_ERROR =
       Some (mem', Some ((int (length (vectors R)) - 1) * int u),
         deliver h (int u) (special_calls (int u) gs @ [start] @ real_calls (int u) gs) ctx, U_ZERO_ERROR)"
    "length mem' = length mem" "take (length (vectors R) * u) mem' = concat (vectors R)"
proof -
  have m: "mem_rows R (u + 2) mem 0" unfolding mem_def concat_append by (rule mem_rows_concat [OF R(2)])
  have p: "prev_of R 0 = None" by (simp add: prev_of_def)
  let ?ctx1 = "deliver h (int u) (special_calls (int u) gs) ctx"
  have sp: "special_loop h mem (int (u + 2)) (int (length R)) 0 (- int u) ctx U_ZERO_ERROR =
      Some ((int (length (vectors R)) - 1) * int u, ?ctx1, U_ZERO_ERROR)"
    using special_loop_eq [OF q m u refl, of 0 "-1" ctx] R(1) by (simp add: p last_special_group gs_def)
  obtain n where n: "length R = Suc n" using R(1) by (cases R) auto
  have "rd_cells mem (int (Suc n * (u + 2)) - int u) (int u) = Some (drop 2 (R ! n))"
    by (rule mem_rows_before [OF m _ refl]) (simp add: n)
  then have la: "rd_cells mem (int (length R) * int (u + 2) - int u) (int u) = Some (drop 2 (last R))"
    using n by (simp only: last_conv_nth [OF R(1)] diff_Suc_1 of_nat_mult)
  let ?ctx2 = "deliver h (int u) [start] ?ctx1"
  have st: "h ?ctx1 UPVEC_START_REAL_VALUES_CP UPVEC_START_REAL_VALUES_CP (int (length (vectors R)) * int u)
      (drop 2 (last R)) (int u) U_ZERO_ERROR = (?ctx2, U_ZERO_ERROR)"
    using quiet_h [OF q] by (simp add: start_def)
  have "moved R u 0 mem" using m by (simp add: moved_def vectors_def)
  from move_loop_eq [OF q u _ this, of "-1" ?ctx2] obtain mem' where
    mv: "move_loop h mem (int (u + 2)) (int (length R)) 0 (- int u) ?ctx2 U_ZERO_ERROR =
      Some (mem', Some ((int (length (vectors R)) - 1) * int u),
        deliver h (int u) (real_calls (int u) gs) ?ctx2, U_ZERO_ERROR)"
    and l: "length mem' = length mem" and mo: "moved R u (length R) mem'"
    by (auto simp: p gs_def vectors_def)
  have "deliver h (int u) (real_calls (int u) gs) ?ctx2 =
      deliver h (int u) (special_calls (int u) gs @ [start] @ real_calls (int u) gs) ctx"
    by (simp only: deliver_simps(3))
  then show thesis using that [OF sp la st _ l] mv mo by (simp add: moved_def)
qed

lemma upvec_compact_run:
  assumes "\<not> isCompacted pv"
    "uprv_sortArray malloc (Some (used pv)) (rows pv) (columns pv * 4) (Some (upvec_compareRows (columns pv))) False U_ZERO_ERROR =
       Some (Some R, U_ZERO_ERROR)"
    "special_loop h (concat (R @ drop (nat (rows pv)) (v pv))) (columns pv) (rows pv) 0 (- (columns pv - 2)) ctx U_ZERO_ERROR =
       Some (cnt, ctx1, U_ZERO_ERROR)"
    "rd_cells (concat (R @ drop (nat (rows pv)) (v pv))) (rows pv * columns pv - (columns pv - 2)) (columns pv - 2) = Some x"
    "h ctx1 UPVEC_START_REAL_VALUES_CP UPVEC_START_REAL_VALUES_CP (cnt + (columns pv - 2)) x (columns pv - 2) U_ZERO_ERROR =
       (ctx2, U_ZERO_ERROR)"
    "move_loop h (concat (R @ drop (nat (rows pv)) (v pv))) (columns pv) (rows pv) 0 (- (columns pv - 2)) ctx2 U_ZERO_ERROR =
       Some (mem', Some c, ctx3, U_ZERO_ERROR)"
  shows "upvec_compact malloc pv (Some h) ctx U_ZERO_ERROR =
    Some (pv\<lparr>isCompacted := True, v := rows_of (columns pv) mem', rows := c div (columns pv - 2) + 1\<rparr>, ctx3, U_ZERO_ERROR)"
proof -
  define vc where "vc = columns pv - 2"
  note a = assms [folded vc_def, unfolded used_def]
  show ?thesis
    unfolding upvec_compact_def Let_def vc_def [symmetric] using a(1) 
    by (simp add: vc_def [symmetric] a(2-6) del: concat_append)
qed

lemma compact_table:
  fixes ctx :: 'c
  assumes inv: "pv_inv pv" and q: "quiet h" and m: "\<And>n. malloc n"
  defines "vc \<equiv> columns pv - 2"
  obtains R pv' where "mset R = mset (used pv)" "R \<noteq> []" "distinct (vectors R)"
    "upvec_compact malloc pv (Some h) ctx U_ZERO_ERROR =
       Some (pv', deliver h vc (special_calls vc (groups None (-1) R) @
         [(UPVEC_START_REAL_VALUES_CP, UPVEC_START_REAL_VALUES_CP, int (length (vectors R)) * vc, last (vectors R))] @
         real_calls vc (groups None (-1) R)) ctx, U_ZERO_ERROR)"
    "isCompacted pv'" "columns pv' = columns pv" "rows pv' = int (length (vectors R))"
    "take (length (vectors R) * nat vc) (concat (v pv')) = concat (vectors R)"
proof -
  define u where "u = nat (columns pv - 2)"
  have cols: "columns pv = int (u + 2)" "0 < u" "columns pv - 2 = int u" using inv by (simp_all add: pv_inv_def u_def)
  have n: "rows pv = int (length (used pv))" "0 < rows pv" using used_length [OF inv] inv by (simp_all add: pv_inv_def)
  have vl: "\<forall>r \<in> set (v pv). length r = u + 2" using inv cols(1) by (auto simp: pv_inv_def)
  obtain R where srt: "uprv_sortArray malloc (Some (used pv)) (rows pv) (columns pv * 4) (Some (upvec_compareRows (columns pv)))
      False U_ZERO_ERROR = Some (Some R, U_ZERO_ERROR)"
    and R: "cmp_sorted (upvec_compareRows (columns pv)) R" "mset R = mset (used pv)"
    using rows.sortArray_sorts [of "columns pv * 4" malloc "used pv" "columns pv" False] m n(1) cols(1) by auto
  define t where "t = drop (nat (rows pv)) (v pv)"
  have sets: "set R = set (used pv)" using R(2) by (rule mset_eq_setD)
  have lR: "length R = length (used pv)" using R(2) by (rule mset_eq_length)
  have wR: "\<forall>r \<in> set R. length r = u + 2" using vl sets by (auto simp: used_def dest: in_set_takeD)
  have wt: "\<forall>r \<in> set (R @ t). length r = u + 2" using wR vl by (auto simp: t_def dest: in_set_dropD)
  have ne: "R \<noteq> []" using lR n by auto
  note l_mem = length_concat_rows [OF wt]
  let ?gs = "groups None (-1) R"
  obtain ctx1 ctx2 mem' where run:
    "special_loop h (concat (R @ t)) (int (u + 2)) (int (length R)) 0 (- int u) ctx U_ZERO_ERROR =
       Some ((int (length (vectors R)) - 1) * int u, ctx1, U_ZERO_ERROR)"
    "rd_cells (concat (R @ t)) (int (length R) * int (u + 2) - int u) (int u) = Some (drop 2 (last R))"
    "h ctx1 UPVEC_START_REAL_VALUES_CP UPVEC_START_REAL_VALUES_CP (int (length (vectors R)) * int u) (drop 2 (last R))
       (int u) U_ZERO_ERROR = (ctx2, U_ZERO_ERROR)"
    "move_loop h (concat (R @ t)) (int (u + 2)) (int (length R)) 0 (- int u) ctx2 U_ZERO_ERROR =
       Some (mem', Some ((int (length (vectors R)) - 1) * int u),
         deliver h (int u) (special_calls (int u) ?gs @ [(UPVEC_START_REAL_VALUES_CP, UPVEC_START_REAL_VALUES_CP,
           int (length (vectors R)) * int u, drop 2 (last R))] @ real_calls (int u) ?gs) ctx, U_ZERO_ERROR)"
    and mem': "length mem' = length (concat (R @ t))" "take (length (vectors R) * u) mem' = concat (vectors R)"
    by (rule compact_sorted [OF q cols(2) ne wR]) (rule that)
  let ?pv = "pv\<lparr>isCompacted := True, v := rows_of (columns pv) mem', rows := int (length (vectors R))\<rparr>"
  have cells: "int (length (vectors R)) * int u = (int (length (vectors R)) - 1) * int u + int u" by (simp add: algebra_simps)
  have nR: "int (length R) = rows pv" using lR n(1) by simp
  have compact: "upvec_compact malloc pv (Some h) ctx U_ZERO_ERROR =
      Some (?pv, deliver h (int u) (special_calls (int u) ?gs @ [(UPVEC_START_REAL_VALUES_CP, UPVEC_START_REAL_VALUES_CP,
           int (length (vectors R)) * int u, drop 2 (last R))] @ real_calls (int u) ?gs) ctx, U_ZERO_ERROR)"
    using upvec_compact_run [OF _ srt run(1) [unfolded nR t_def, folded cols(1,3)] run(2) [unfolded nR t_def, folded cols(1,3)]
        run(3) [unfolded cells, folded cols(3)] run(4) [unfolded nR t_def, folded cols(1,3)]]
      inv cols(2) unfolding cols(3) by (simp add: pv_inv_def)
  have lv: "last (vectors R) = drop 2 (last R)" using ne by (simp add: vectors_def last_map)
  have "concat (rows_of (columns pv) mem') = mem'"
    unfolding cols(1) by (rule concat_rows_of [where n = "length (R @ t)"]) (use mem'(1) l_mem in simp_all)
  then have cc: "take (length (vectors R) * u) (concat (v ?pv)) = concat (vectors R)" using mem'(2) by simp
  have d: "distinct (vectors R)" using sorted_vectors(2) [OF R(1)] wR cols(1,2) by simp
  show thesis
  proof (rule that [OF R(2) ne d])
    show "upvec_compact malloc pv (Some h) ctx U_ZERO_ERROR =
       Some (?pv, deliver h vc (special_calls vc ?gs @
         [(UPVEC_START_REAL_VALUES_CP, UPVEC_START_REAL_VALUES_CP, int (length (vectors R)) * vc, last (vectors R))] @
         real_calls vc ?gs) ctx, U_ZERO_ERROR)"
      unfolding lv vc_def cols(3) by (rule compact)
    show "take (length (vectors R) * nat vc) (concat (v ?pv)) = concat (vectors R)"
      unfolding vc_def cols(3) nat_int by (rule cc)
  qed simp_all
qed

text \<open>
  C40: Compacting a table sorts the rows, keeps each vector of values once, at the start of the array, and
  tells the handler of every range: first the special values, then the start of the real ones, with the
  number of cells, then the others. For every code point there is exactly one range, and the vector at
  its index is the one the table had for the code point. There is no access outside the memory.
\<close>
theorem upvec_compact_correct:
  assumes inv: "pv_inv pv" and q: "quiet h" and m: "\<And>n. malloc n"
  shows "\<exists>us pv' specials reals.
    upvec_compact malloc pv (Some h) ctx U_ZERO_ERROR =
      Some (pv', deliver h (columns pv - 2) (specials @ [(UPVEC_START_REAL_VALUES_CP, UPVEC_START_REAL_VALUES_CP,
        int (length us) * (columns pv - 2), last us)] @ reals) ctx, U_ZERO_ERROR) \<and>
    isCompacted pv' \<and> columns pv' = columns pv \<and> rows pv' = int (length us) \<and>
    distinct us \<and> set us = set (map (drop 2) (used pv)) \<and>
    take (length us * nat (columns pv - 2)) (concat (v pv')) = concat us \<and>
    (\<forall>c. 0 \<le> c \<longrightarrow> c < UPVEC_FIRST_SPECIAL_CP \<longrightarrow>
       (\<exists>s t k. filter (\<lambda>(s, t, k, x). s \<le> c \<and> c \<le> t) reals = [(s, t, int k * (columns pv - 2), us ! k)] \<and>
          k < length us \<and> us ! k = vals_for (used pv) c)) \<and>
    (\<forall>c \<in> {UPVEC_FIRST_SPECIAL_CP, UPVEC_MAX_CP}.
       (\<exists>k. filter (\<lambda>(s, t, k, x). s = c) specials = [(c, c, int k * (columns pv - 2), us ! k)] \<and>
          k < length us \<and> us ! k = vals_for (used pv) c))"
proof -
  obtain R pv' where R: "mset R = mset (used pv)" "R \<noteq> []" "distinct (vectors R)"
    and run: "upvec_compact malloc pv (Some h) ctx U_ZERO_ERROR =
       Some (pv', deliver h (columns pv - 2) (special_calls (columns pv - 2) (groups None (-1) R) @
         [(UPVEC_START_REAL_VALUES_CP, UPVEC_START_REAL_VALUES_CP, int (length (vectors R)) * (columns pv - 2),
           last (vectors R))] @ real_calls (columns pv - 2) (groups None (-1) R)) ctx, U_ZERO_ERROR)"
    and pv': "isCompacted pv'" "columns pv' = columns pv" "rows pv' = int (length (vectors R))"
    and cells: "take (length (vectors R) * nat (columns pv - 2)) (concat (v pv')) = concat (vectors R)"
    by (rule compact_table [OF inv q m]) (rule that)
  have ch: "chain 0 (used pv) (UPVEC_MAX_CP + 1)"
    and spc: "\<forall>s \<in> {UPVEC_FIRST_SPECIAL_CP, UPVEC_MAX_CP}. \<exists>r \<in> set (used pv). cell r 0 = s"
    using inv by (simp_all add: pv_inv_def)
  have su: "set (vectors R) = set (map (drop 2) (used pv))"
    using mset_eq_setD [OF R(1)] by (simp add: vectors_def)
  have real: "\<forall>c. 0 \<le> c \<longrightarrow> c < UPVEC_FIRST_SPECIAL_CP \<longrightarrow>
      (\<exists>s t k. filter (\<lambda>(s, t, k, x). s \<le> c \<and> c \<le> t) (real_calls (columns pv - 2) (groups None (-1) R)) =
         [(s, t, int k * (columns pv - 2), vectors R ! k)] \<and>
         k < length (vectors R) \<and> vectors R ! k = vals_for (used pv) c)"
    using real_call [OF ch R(1)] by blast
  have "\<exists>k. filter (\<lambda>(s, t, k, x). s = c) (special_calls (columns pv - 2) (groups None (-1) R)) =
         [(c, c, int k * (columns pv - 2), vectors R ! k)] \<and>
         k < length (vectors R) \<and> vectors R ! k = vals_for (used pv) c"
    if "c \<in> {UPVEC_FIRST_SPECIAL_CP, UPVEC_MAX_CP}" for c
    by (rule special_call [OF ch R(1)]) (use that spc in \<open>auto simp: UPVEC_FIRST_SPECIAL_CP_def UPVEC_MAX_CP_def\<close>)
  with real R(3) run pv' su cells show ?thesis by blast
qed

theorem upvec_compact_correct_witness:
  "\<exists>pv pv' ctx. pv_inv pv \<and> upvec_compact (\<lambda>n. True) pv (Some (\<lambda>ctx s t k x n e. (ctx @ [(s, t, k)], e))) [] U_ZERO_ERROR =
     Some (pv', ctx, U_ZERO_ERROR) \<and> isCompacted pv'"
proof -
  obtain pv where pv: "pv_inv pv" using one_column_exists by blast
  have "quiet (\<lambda>ctx s t k x n e. (ctx @ [(s, t, k)], e))" by (simp add: quiet_def)
  from upvec_compact_correct [OF pv this, of "\<lambda>n. True" "[]"] pv show ?thesis by auto
qed
end
