(* ===== verification/UVector.thy ===== *)
theory UVector
  imports ArraySort
begin

text \<open>
  The growable array \<open>UVector\<close> of \<open>uvector.cpp\<close> and the stack \<open>UStack\<close> on top of it (\<open>ustack.cpp\<close>). An
  element is a pointer to an object or NULL (\<open>None\<close>); an object is represented by its value. The cells of
  the array beyond the count hold anything. \<open>uv_deleted\<close> logs the calls of the deleter. An integer
  element is the cell with that number, which is NULL exactly for 0, as the code clears the pointer first.
\<close>

section \<open>The vector\<close>

record 'a UVector =
  uv_count :: int
  uv_capacity :: int
  uv_elements :: "'a option list"
  uv_deleter :: bool
  uv_comparer :: "('a option \<Rightarrow> 'a option \<Rightarrow> bool) option"
  uv_deleted :: "'a option list"

definition DEFAULT_CAPACITY :: int where "DEFAULT_CAPACITY = 8"

definition INT32_MAX :: int where "INT32_MAX = 2147483647"

text \<open>The size of an element is 8 bytes.\<close>

definition MAX_ELEMENTS :: int where "MAX_ELEMENTS = INT32_MAX div 8"

text \<open>\<open>malloc n\<close> is a block of \<open>n\<close> cells with any contents, or nothing.\<close>

definition realloc :: "(int \<Rightarrow> 'a list option) \<Rightarrow> 'a list \<Rightarrow> int \<Rightarrow> 'a list option" where
  "realloc malloc old n = map_option (\<lambda>b. overwrite b 0 (take (nat n) old)) (malloc n)"

definition uv_init :: "(int \<Rightarrow> 'a option list option) \<Rightarrow> 'a UVector \<Rightarrow> int \<Rightarrow> UErrorCode \<Rightarrow> 'a UVector \<times> UErrorCode" where
  "uv_init malloc u initialCapacity status =
     (if U_FAILURE status then (u, status)
      else
        let initialCapacity =
          (if initialCapacity < 1 \<or> initialCapacity > MAX_ELEMENTS then DEFAULT_CAPACITY else initialCapacity) in
        case malloc initialCapacity of
          None \<Rightarrow> (u\<lparr>uv_elements := []\<rparr>, U_MEMORY_ALLOCATION_ERROR)
        | Some b \<Rightarrow> (u\<lparr>uv_elements := b, uv_capacity := initialCapacity\<rparr>, status))"

definition new_UVector ::
  "(int \<Rightarrow> 'a option list option) \<Rightarrow> bool \<Rightarrow> ('a option \<Rightarrow> 'a option \<Rightarrow> bool) option \<Rightarrow> int \<Rightarrow> UErrorCode \<Rightarrow>
     'a UVector \<times> UErrorCode" where
  "new_UVector malloc d c initialCapacity status =
     uv_init malloc \<lparr>uv_count = 0, uv_capacity = 0, uv_elements = [], uv_deleter = d, uv_comparer = c, uv_deleted = []\<rparr>
       initialCapacity status"

text \<open>The result of \<open>ensureCapacity\<close> is the vector, the error and the return value.\<close>

definition uv_ensureCapacity ::
  "(int \<Rightarrow> 'a option list option) \<Rightarrow> 'a UVector \<Rightarrow> int \<Rightarrow> UErrorCode \<Rightarrow> 'a UVector \<times> UErrorCode \<times> bool" where
  "uv_ensureCapacity malloc u minimumCapacity status =
     (if minimumCapacity < 0 then (u, U_ILLEGAL_ARGUMENT_ERROR, False)
      else if uv_capacity u < minimumCapacity then
        if uv_capacity u > (INT32_MAX - 1) div 2 then (u, U_ILLEGAL_ARGUMENT_ERROR, False)
        else
          let newCap = uv_capacity u * 2;
              newCap = (if newCap < minimumCapacity then minimumCapacity else newCap) in
          if newCap > MAX_ELEMENTS then (u, U_ILLEGAL_ARGUMENT_ERROR, False)
          else (case realloc malloc (uv_elements u) newCap of
             None \<Rightarrow> (u, U_MEMORY_ALLOCATION_ERROR, False)
           | Some newElems \<Rightarrow> (u\<lparr>uv_elements := newElems, uv_capacity := newCap\<rparr>, status, True))
      else (u, status, True))"

section \<open>Moving elements\<close>

text \<open>\<open>for (i=count; i>index; --i) elements[i] = elements[i-1]\<close>\<close>

function shift_up :: "'a list \<Rightarrow> int \<Rightarrow> int \<Rightarrow> 'a list option" where
  "shift_up els i index =
     (if i > index then do { x \<leftarrow> rd els (i - 1); els \<leftarrow> wr els i x; shift_up els (i - 1) index } else Some els)"
  by pat_completeness auto
termination by (relation "measure (\<lambda>(els, i, index). nat (i - index))") auto

text \<open>\<open>for (i=index; i<count-1; ++i) elements[i] = elements[i+1]\<close>\<close>

function shift_down :: "'a list \<Rightarrow> int \<Rightarrow> int \<Rightarrow> 'a list option" where
  "shift_down els i lst =
     (if i < lst then do { x \<leftarrow> rd els (i + 1); els \<leftarrow> wr els i x; shift_down els (i + 1) lst } else Some els)"
  by pat_completeness auto
termination by (relation "measure (\<lambda>(els, i, lst). nat (lst - i))") auto

declare shift_up.simps [simp del] shift_down.simps [simp del]

section \<open>Adding and changing elements\<close>

definition addElement ::
  "(int \<Rightarrow> 'a option list option) \<Rightarrow> 'a UVector \<Rightarrow> 'a option \<Rightarrow> UErrorCode \<Rightarrow> ('a UVector \<times> UErrorCode) option" where
  "addElement malloc u obj status =
     (let (u, status, ok) = uv_ensureCapacity malloc u (uv_count u + 1) status in
      if ok then do {
        els \<leftarrow> wr (uv_elements u) (uv_count u) obj;
        Some (u\<lparr>uv_elements := els, uv_count := uv_count u + 1\<rparr>, status) }
      else Some (u, status))"

text \<open>A call of the deleter, if there is one, for a pointer that is not NULL.\<close>

definition uv_delete :: "'a UVector \<Rightarrow> 'a option \<Rightarrow> 'a UVector" where
  "uv_delete u p = (if p \<noteq> None \<and> uv_deleter u then u\<lparr>uv_deleted := uv_deleted u @ [p]\<rparr> else u)"

definition setElementAt :: "'a UVector \<Rightarrow> 'a option \<Rightarrow> int \<Rightarrow> 'a UVector option" where
  "setElementAt u obj index =
     (if 0 \<le> index \<and> index < uv_count u then do {
        old \<leftarrow> rd (uv_elements u) index;
        let u = uv_delete u old;
        els \<leftarrow> wr (uv_elements u) index obj;
        Some (u\<lparr>uv_elements := els\<rparr>) }
      else Some u)"

text \<open>The part that inserting at an index and at the sorted position share.\<close>

definition uv_insert :: "'a UVector \<Rightarrow> 'a option \<Rightarrow> int \<Rightarrow> 'a UVector option" where
  "uv_insert u obj index = do {
     els \<leftarrow> shift_up (uv_elements u) (uv_count u) index;
     els \<leftarrow> wr els index obj;
     Some (u\<lparr>uv_elements := els, uv_count := uv_count u + 1\<rparr>) }"

definition insertElementAt ::
  "(int \<Rightarrow> 'a option list option) \<Rightarrow> 'a UVector \<Rightarrow> 'a option \<Rightarrow> int \<Rightarrow> UErrorCode \<Rightarrow> ('a UVector \<times> UErrorCode) option" where
  "insertElementAt malloc u obj index status =
     (if 0 \<le> index \<and> index \<le> uv_count u then
        (let (u, status, ok) = uv_ensureCapacity malloc u (uv_count u + 1) status in
         if ok then do { u \<leftarrow> uv_insert u obj index; Some (u, status) } else Some (u, status))
      else Some (u, status))"

section \<open>Searching\<close>

text \<open>
  Without a comparer \<open>indexOf\<close> compares the pointers or the integers, as its hint says: \<open>eqv\<close> is that comparison. The
  calls with an element (of \<open>containsAll\<close>, \<open>containsNone\<close>, \<open>removeAll\<close> and \<open>retainAll\<close>) leave the hint 0, so that
  only the integer members are compared; for these \<open>eqv\<close> is a parameter.
\<close>

definition elementAt :: "'a UVector \<Rightarrow> int \<Rightarrow> 'a option option" where
  "elementAt u index = (if 0 \<le> index \<and> index < uv_count u then rd (uv_elements u) index else Some None)"

function indexOf_from :: "('a option \<Rightarrow> 'a option \<Rightarrow> bool) \<Rightarrow> 'a UVector \<Rightarrow> 'a option \<Rightarrow> int \<Rightarrow> int option" where
  "indexOf_from eqv u key i =
     (if i < uv_count u then do {
        x \<leftarrow> rd (uv_elements u) i;
        if (case uv_comparer u of None \<Rightarrow> eqv key x | Some c \<Rightarrow> c key x) then Some i
        else indexOf_from eqv u key (i + 1) }
      else Some (-1))"
  by pat_completeness auto
termination by (relation "measure (\<lambda>(eqv, u, key, i). nat (uv_count u - i))") auto

declare indexOf_from.simps [simp del]

definition indexOf :: "('a option \<Rightarrow> 'a option \<Rightarrow> bool) \<Rightarrow> 'a UVector \<Rightarrow> 'a option \<Rightarrow> int \<Rightarrow> int option" where
  "indexOf eqv u key startIndex = indexOf_from eqv u key startIndex"

definition uv_contains :: "'a UVector \<Rightarrow> 'a option \<Rightarrow> bool option" where
  "uv_contains u obj = do { i \<leftarrow> indexOf (=) u obj 0; Some (i \<ge> 0) }"

text \<open>The loop of \<open>containsAll\<close> (\<open>want\<close>) and of \<open>containsNone\<close>.\<close>

function contains_each :: "('a option \<Rightarrow> 'a option \<Rightarrow> bool) \<Rightarrow> bool \<Rightarrow> 'a UVector \<Rightarrow> 'a UVector \<Rightarrow> int \<Rightarrow> bool option" where
  "contains_each eqv want u other i =
     (if i < uv_count other then do {
        x \<leftarrow> rd (uv_elements other) i;
        j \<leftarrow> indexOf eqv u x 0;
        if (j \<ge> 0) = want then contains_each eqv want u other (i + 1) else Some False }
      else Some True)"
  by pat_completeness auto
termination by (relation "measure (\<lambda>(eqv, want, u, other, i). nat (uv_count other - i))") auto

definition uv_containsAll :: "('a option \<Rightarrow> 'a option \<Rightarrow> bool) \<Rightarrow> 'a UVector \<Rightarrow> 'a UVector \<Rightarrow> bool option" where
  "uv_containsAll eqv u other = contains_each eqv True u other 0"

definition uv_containsNone :: "('a option \<Rightarrow> 'a option \<Rightarrow> bool) \<Rightarrow> 'a UVector \<Rightarrow> 'a UVector \<Rightarrow> bool option" where
  "uv_containsNone eqv u other = contains_each eqv False u other 0"

text \<open>\<open>operator==\<close>\<close>

function eq_loop :: "('a option \<Rightarrow> 'a option \<Rightarrow> bool) \<Rightarrow> 'a UVector \<Rightarrow> 'a UVector \<Rightarrow> int \<Rightarrow> bool option" where
  "eq_loop c u other i =
     (if i < uv_count u then do {
        x \<leftarrow> rd (uv_elements u) i;
        y \<leftarrow> rd (uv_elements other) i;
        if c x y then eq_loop c u other (i + 1) else Some False }
      else Some True)"
  by pat_completeness auto
termination by (relation "measure (\<lambda>(c, u, other, i). nat (uv_count u - i))") auto

definition uv_eq :: "'a UVector \<Rightarrow> 'a UVector \<Rightarrow> bool option" where
  "uv_eq u other =
     (if uv_count u \<noteq> uv_count other then Some False
      else case uv_comparer u of None \<Rightarrow> Some True | Some c \<Rightarrow> eq_loop c u other 0)"

text \<open>
  \<open>equals\<close>: with a comparer, the code passes the address of a cell of the other vector as the key, not the element
  in the cell. \<open>slot i\<close> is that address taken as an element.
\<close>

function uv_equals_from :: "(int \<Rightarrow> 'a option) \<Rightarrow> 'a UVector \<Rightarrow> 'a UVector \<Rightarrow> int \<Rightarrow> bool option" where
  "uv_equals_from slot u other i =
     (if i < uv_count u then do {
        x \<leftarrow> rd (uv_elements u) i;
        same \<leftarrow> (case uv_comparer u of
                  None \<Rightarrow> do { y \<leftarrow> rd (uv_elements other) i; Some (x = y) }
                | Some c \<Rightarrow> Some (c (slot i) x));
        if same then uv_equals_from slot u other (i + 1) else Some False }
      else Some True)"
  by pat_completeness auto
termination by (relation "measure (\<lambda>(slot, u, other, i). nat (uv_count u - i))") auto

definition uv_equals :: "(int \<Rightarrow> 'a option) \<Rightarrow> 'a UVector \<Rightarrow> 'a UVector \<Rightarrow> bool option" where
  "uv_equals slot u other = (if uv_count u \<noteq> uv_count other then Some False else uv_equals_from slot u other 0)"

declare contains_each.simps [simp del] eq_loop.simps [simp del] uv_equals_from.simps [simp del]

lemma uv_equals_ignores_elements:
  assumes "uv_comparer u \<noteq> None" "uv_count v = uv_count w"
  shows "uv_equals slot u v = uv_equals slot u w"
proof -
  have "uv_equals_from slot u v i = uv_equals_from slot u w i" for i
  proof (induction "nat (uv_count u - i)" arbitrary: i)
    case 0
    then show ?case by (simp add: uv_equals_from.simps [of slot u _ i])
  next
    case (Suc n)
    then have "uv_equals_from slot u v (i + 1) = uv_equals_from slot u w (i + 1)" by auto
    then show ?case using assms(1) by (auto simp: uv_equals_from.simps [of slot u _ i] cong: if_cong)
  qed
  then show ?thesis using assms(2) by (simp add: uv_equals_def)
qed

section \<open>Removing elements\<close>

definition orphanElementAt :: "'a UVector \<Rightarrow> int \<Rightarrow> ('a UVector \<times> 'a option) option" where
  "orphanElementAt u index =
     (if 0 \<le> index \<and> index < uv_count u then do {
        e \<leftarrow> rd (uv_elements u) index;
        els \<leftarrow> shift_down (uv_elements u) index (uv_count u - 1);
        Some (u\<lparr>uv_elements := els, uv_count := uv_count u - 1\<rparr>, e) }
      else Some (u, None))"

definition removeElementAt :: "'a UVector \<Rightarrow> int \<Rightarrow> 'a UVector option" where
  "removeElementAt u index = do { (u, e) \<leftarrow> orphanElementAt u index; Some (uv_delete u e) }"

definition removeElement :: "'a UVector \<Rightarrow> 'a option \<Rightarrow> ('a UVector \<times> bool) option" where
  "removeElement u obj = do {
     i \<leftarrow> indexOf (=) u obj 0;
     if i \<ge> 0 then do { u \<leftarrow> removeElementAt u i; Some (u, True) } else Some (u, False) }"

function removeAll_from :: "('a option \<Rightarrow> 'a option \<Rightarrow> bool) \<Rightarrow> 'a UVector \<Rightarrow> 'a UVector \<Rightarrow> int \<Rightarrow> bool \<Rightarrow> ('a UVector \<times> bool) option" where
  "removeAll_from eqv u other i changed =
     (if i < uv_count other then do {
        x \<leftarrow> rd (uv_elements other) i;
        j \<leftarrow> indexOf eqv u x 0;
        if j \<ge> 0 then do { u \<leftarrow> removeElementAt u j; removeAll_from eqv u other (i + 1) True }
        else removeAll_from eqv u other (i + 1) changed }
      else Some (u, changed))"
  by pat_completeness auto
termination by (relation "measure (\<lambda>(eqv, u, other, i, changed). nat (uv_count other - i))") auto

definition uv_removeAll :: "('a option \<Rightarrow> 'a option \<Rightarrow> bool) \<Rightarrow> 'a UVector \<Rightarrow> 'a UVector \<Rightarrow> ('a UVector \<times> bool) option" where
  "uv_removeAll eqv u other = removeAll_from eqv u other 0 False"

function retainAll_from :: "('a option \<Rightarrow> 'a option \<Rightarrow> bool) \<Rightarrow> 'a UVector \<Rightarrow> 'a UVector \<Rightarrow> int \<Rightarrow> bool \<Rightarrow> ('a UVector \<times> bool) option" where
  "retainAll_from eqv u other j changed =
     (if j \<ge> 0 then do {
        x \<leftarrow> rd (uv_elements u) j;
        i \<leftarrow> indexOf eqv other x 0;
        if i < 0 then do { u \<leftarrow> removeElementAt u j; retainAll_from eqv u other (j - 1) True }
        else retainAll_from eqv u other (j - 1) changed }
      else Some (u, changed))"
  by pat_completeness auto
termination by (relation "measure (\<lambda>(eqv, u, other, j, changed). nat (j + 1))") auto

definition uv_retainAll :: "('a option \<Rightarrow> 'a option \<Rightarrow> bool) \<Rightarrow> 'a UVector \<Rightarrow> 'a UVector \<Rightarrow> ('a UVector \<times> bool) option" where
  "uv_retainAll eqv u other = retainAll_from eqv u other (uv_count u - 1) False"

function delete_from :: "'a UVector \<Rightarrow> int \<Rightarrow> 'a UVector option" where
  "delete_from u i =
     (if i < uv_count u then do { x \<leftarrow> rd (uv_elements u) i; delete_from (uv_delete u x) (i + 1) } else Some u)"
  by pat_completeness auto
termination by (relation "measure (\<lambda>(u, i). nat (uv_count u - i))") (auto simp: uv_delete_def)

declare removeAll_from.simps [simp del] retainAll_from.simps [simp del] delete_from.simps [simp del]

definition uv_removeAllElements :: "'a UVector \<Rightarrow> 'a UVector option" where
  "uv_removeAllElements u = do {
     u \<leftarrow> (if uv_deleter u then delete_from u 0 else Some u);
     Some (u\<lparr>uv_count := 0\<rparr>) }"

text \<open>The destructor.\<close>

definition delete_UVector :: "'a UVector \<Rightarrow> 'a UVector option" where
  "delete_UVector u = do { u \<leftarrow> uv_removeAllElements u; Some (u\<lparr>uv_elements := []\<rparr>) }"

section \<open>Size and copies\<close>

function fill_null :: "'a option list \<Rightarrow> int \<Rightarrow> int \<Rightarrow> 'a option list option" where
  "fill_null els i newSize =
     (if i < newSize then do { els \<leftarrow> wr els i None; fill_null els (i + 1) newSize } else Some els)"
  by pat_completeness auto
termination by (relation "measure (\<lambda>(els, i, n). nat (n - i))") auto

function truncate_to :: "'a UVector \<Rightarrow> int \<Rightarrow> int \<Rightarrow> 'a UVector option" where
  "truncate_to u i newSize =
     (if i \<ge> newSize then do { u \<leftarrow> removeElementAt u i; truncate_to u (i - 1) newSize } else Some u)"
  by pat_completeness auto
termination by (relation "measure (\<lambda>(u, i, n). nat (i + 1 - n))") auto

definition setSize ::
  "(int \<Rightarrow> 'a option list option) \<Rightarrow> 'a UVector \<Rightarrow> int \<Rightarrow> UErrorCode \<Rightarrow> ('a UVector \<times> UErrorCode) option" where
  "setSize malloc u newSize status =
     (if newSize < 0 then Some (u, status)
      else if newSize > uv_count u then
        (let (u, status, ok) = uv_ensureCapacity malloc u newSize status in
         if ok then do {
           els \<leftarrow> fill_null (uv_elements u) (uv_count u) newSize;
           Some (u\<lparr>uv_elements := els, uv_count := newSize\<rparr>, status) }
         else Some (u, status))
      else do { u \<leftarrow> truncate_to u (uv_count u - 1) newSize; Some (u\<lparr>uv_count := newSize\<rparr>, status) })"

function assign_from :: "('a option \<Rightarrow> 'a option) \<Rightarrow> 'a UVector \<Rightarrow> 'a UVector \<Rightarrow> int \<Rightarrow> 'a UVector option" where
  "assign_from assign u other i =
     (if i < uv_count other then do {
        old \<leftarrow> rd (uv_elements u) i;
        let u = uv_delete u old;
        x \<leftarrow> rd (uv_elements other) i;
        els \<leftarrow> wr (uv_elements u) i (assign x);
        assign_from assign (u\<lparr>uv_elements := els\<rparr>) other (i + 1) }
      else Some u)"
  by pat_completeness auto
termination by (relation "measure (\<lambda>(assign, u, other, i). nat (uv_count other - i))") auto

declare fill_null.simps [simp del] truncate_to.simps [simp del] assign_from.simps [simp del]

definition uv_assign ::
  "(int \<Rightarrow> 'a option list option) \<Rightarrow> 'a UVector \<Rightarrow> 'a UVector \<Rightarrow> ('a option \<Rightarrow> 'a option) \<Rightarrow> UErrorCode \<Rightarrow>
     ('a UVector \<times> UErrorCode) option" where
  "uv_assign malloc u other assign ec =
     (let (u, ec, ok) = uv_ensureCapacity malloc u (uv_count other) ec in
      if ok then do {
        (u, ec) \<leftarrow> setSize malloc u (uv_count other) ec;
        if U_SUCCESS ec then do { u \<leftarrow> assign_from assign u other 0; Some (u, ec) } else Some (u, ec) }
      else Some (u, ec))"

definition toArray :: "'a UVector \<Rightarrow> 'a option list" where
  "toArray u = take (nat (uv_count u)) (uv_elements u)"

text \<open>The setters return the old function.\<close>

definition setDeleter :: "'a UVector \<Rightarrow> bool \<Rightarrow> 'a UVector \<times> bool" where
  "setDeleter u d = (u\<lparr>uv_deleter := d\<rparr>, uv_deleter u)"

definition setComparer where "setComparer u c = (u\<lparr>uv_comparer := c\<rparr>, uv_comparer u)"

section \<open>Sorted insertion and sorting\<close>

text \<open>The binary search; the code tests \<open>min != max\<close>, and \<open>min\<close> is never greater.\<close>

function insert_position :: "('a option \<Rightarrow> 'a option \<Rightarrow> int) \<Rightarrow> 'a option list \<Rightarrow> 'a option \<Rightarrow> int \<Rightarrow> int \<Rightarrow> int option" where
  "insert_position compare els e lo hi =
     (if lo < hi then do {
        let probe = (lo + hi) div 2;
        x \<leftarrow> rd els probe;
        if compare x e > 0 then insert_position compare els e lo probe
        else insert_position compare els e (probe + 1) hi }
      else Some lo)"
  by pat_completeness auto
termination by (relation "measure (\<lambda>(c, els, e, lo, hi). nat (hi - lo))") auto

declare insert_position.simps [simp del]

definition sortedInsert ::
  "(int \<Rightarrow> 'a option list option) \<Rightarrow> 'a UVector \<Rightarrow> 'a option \<Rightarrow> ('a option \<Rightarrow> 'a option \<Rightarrow> int) \<Rightarrow> UErrorCode \<Rightarrow>
     ('a UVector \<times> UErrorCode) option" where
  "sortedInsert malloc u e compare ec = do {
     p \<leftarrow> insert_position compare (uv_elements u) e 0 (uv_count u);
     let (u, ec, ok) = uv_ensureCapacity malloc u (uv_count u + 1) ec;
     if ok then do { u \<leftarrow> uv_insert u e p; Some (u, ec) } else Some (u, ec) }"

text \<open>The sorts; \<open>room\<close> says whether \<open>uprv_sortArray\<close> gets its memory.\<close>

definition uv_sort_with ::
  "(int \<Rightarrow> bool) \<Rightarrow> bool \<Rightarrow> 'a UVector \<Rightarrow> ('a option \<Rightarrow> 'a option \<Rightarrow> int) \<Rightarrow> UErrorCode \<Rightarrow> ('a UVector \<times> UErrorCode) option" where
  "uv_sort_with room stbl u compare ec =
     (if U_SUCCESS ec then do {
        (a, ec) \<leftarrow> uprv_sortArray room (Some (toArray u)) (uv_count u) 8 (Some compare) stbl ec;
        Some (u\<lparr>uv_elements := the a @ drop (nat (uv_count u)) (uv_elements u)\<rparr>, ec) }
      else Some (u, ec))"

definition uv_sort :: "(int \<Rightarrow> bool) \<Rightarrow> 'a UVector \<Rightarrow> ('a option \<Rightarrow> 'a option \<Rightarrow> int) \<Rightarrow> UErrorCode \<Rightarrow> ('a UVector \<times> UErrorCode) option" where
  "uv_sort room u compare ec = uv_sort_with room False u compare ec"

definition uv_sortWithUComparator :: "(int \<Rightarrow> bool) \<Rightarrow> 'a UVector \<Rightarrow> ('a option \<Rightarrow> 'a option \<Rightarrow> int) \<Rightarrow> UErrorCode \<Rightarrow> ('a UVector \<times> UErrorCode) option" where
  "uv_sortWithUComparator room u compare ec = uv_sort_with room True u compare ec"

section \<open>Integer elements\<close>

definition integer_element :: "int \<Rightarrow> int option" where
  "integer_element i = (if i = 0 then None else Some i)"

definition element_integer :: "int option \<Rightarrow> int" where
  "element_integer e = (case e of None \<Rightarrow> 0 | Some i \<Rightarrow> i)"

definition addElementi where "addElementi malloc u elem status = addElement malloc u (integer_element elem) status"
definition setElementAti where "setElementAti u elem index = setElementAt u (integer_element elem) index"
definition insertElementAti where
  "insertElementAti malloc u elem index status = insertElementAt malloc u (integer_element elem) index status"
definition elementAti where "elementAti u index = map_option element_integer (elementAt u index)"
definition indexOfi where "indexOfi u obj startIndex = indexOf (=) u (integer_element obj) startIndex"

definition sortiComparator :: "int option \<Rightarrow> int option \<Rightarrow> int" where
  "sortiComparator l r =
     (if element_integer l < element_integer r then -1 else if element_integer l = element_integer r then 0 else 1)"

definition sorti :: "(int \<Rightarrow> bool) \<Rightarrow> int UVector \<Rightarrow> UErrorCode \<Rightarrow> (int UVector \<times> UErrorCode) option" where
  "sorti room u ec = uv_sort_with room False u sortiComparator ec"

section \<open>The stack\<close>

definition ustack_push where "ustack_push malloc u obj status = addElement malloc u obj status"
definition ustack_peek where "ustack_peek u = elementAt u (uv_count u - 1)"
definition ustack_peeki where "ustack_peeki u = elementAti u (uv_count u - 1)"
definition ustack_pushi where "ustack_pushi malloc u i status = addElementi malloc u i status"
definition ustack_empty where "ustack_empty u = (uv_count u = 0)"

definition ustack_pop :: "'a UVector \<Rightarrow> ('a UVector \<times> 'a option) option" where
  "ustack_pop u =
     (let n = uv_count u - 1 in
      if n \<ge> 0 then do { result \<leftarrow> elementAt u n; u \<leftarrow> removeElementAt u n; Some (u, result) }
      else Some (u, None))"

definition ustack_popi :: "int UVector \<Rightarrow> (int UVector \<times> int) option" where
  "ustack_popi u =
     (let n = uv_count u - 1 in
      if n \<ge> 0 then do { result \<leftarrow> elementAti u n; u \<leftarrow> removeElementAt u n; Some (u, result) }
      else Some (u, 0))"

definition ustack_search :: "'a UVector \<Rightarrow> 'a option \<Rightarrow> int option" where
  "ustack_search u obj = do { i \<leftarrow> indexOf (=) u obj 0; Some (if i \<ge> 0 then uv_count u - i else i) }"

section \<open>The vector as a list\<close>

definition uv_inv :: "'a UVector \<Rightarrow> bool" where
  "uv_inv u \<longleftrightarrow> 0 \<le> uv_count u \<and> uv_count u \<le> uv_capacity u \<and> uv_capacity u = int (length (uv_elements u)) \<and>
     uv_capacity u \<le> MAX_ELEMENTS"

definition blocks_ok :: "(int \<Rightarrow> 'a list option) \<Rightarrow> bool" where
  "blocks_ok malloc \<longleftrightarrow> (\<forall>n b. 0 \<le> n \<longrightarrow> malloc n = Some b \<longrightarrow> int (length b) = n)"

lemma realloc_Some:
  assumes "blocks_ok malloc" "realloc malloc old n = Some b" "int (length old) \<le> n"
  obtains t where "b = old @ t" "int (length b) = n"
proof -
  obtain m where m: "malloc n = Some m" "b = overwrite m 0 (take (nat n) old)"
    using assms(2) by (auto simp: realloc_def)
  have "0 \<le> n" using assms(3) by linarith
  then have "int (length m) = n" using assms(1) m(1) by (simp add: blocks_ok_def)
  moreover have "take (nat n) old = old" using assms(3) by simp
  ultimately show thesis using that [of "drop (length old) m"] m(2) assms(3) by (simp add: overwrite_def)
qed

lemma toArray_length: "uv_inv u \<Longrightarrow> length (toArray u) = nat (uv_count u)"
  by (auto simp: uv_inv_def toArray_def)

lemma toArray_split:
  assumes "uv_inv u"
  shows "uv_elements u = toArray u @ drop (nat (uv_count u)) (uv_elements u)"
  by (simp add: toArray_def)

lemma toArray_rd: "uv_inv u \<Longrightarrow> 0 \<le> i \<Longrightarrow> i < uv_count u \<Longrightarrow> rd (uv_elements u) i = Some (toArray u ! nat i)"
  by (auto simp: uv_inv_def toArray_def rd_Some_iff)

lemma uv_count_toArray: "uv_inv u \<Longrightarrow> uv_count u = int (length (toArray u))"
  by (simp add: toArray_length uv_inv_def)

text \<open>The same vector with another array and count.\<close>

lemma uv_inv_update:
  assumes "uv_inv u" "length els = length (uv_elements u)" "els = xs @ t" "int (length xs) = n"
  shows "uv_inv (u\<lparr>uv_elements := els, uv_count := n\<rparr>)" "toArray (u\<lparr>uv_elements := els, uv_count := n\<rparr>) = xs"
  using assms by (auto simp: uv_inv_def toArray_def)

lemma uv_delete_simps [simp]:
  "uv_inv (uv_delete u p) = uv_inv u" "toArray (uv_delete u p) = toArray u" "uv_count (uv_delete u p) = uv_count u"
  "uv_elements (uv_delete u p) = uv_elements u" "uv_deleter (uv_delete u p) = uv_deleter u"
  "uv_comparer (uv_delete u p) = uv_comparer u" "uv_capacity (uv_delete u p) = uv_capacity u"
  by (simp_all add: uv_delete_def uv_inv_def toArray_def)

definition deletions :: "'a UVector \<Rightarrow> 'a option list \<Rightarrow> 'a option list" where
  "deletions u ps = (if uv_deleter u then filter (\<lambda>p. p \<noteq> None) ps else [])"

lemma uv_deleted_delete [simp]: "uv_deleted (uv_delete u p) = uv_deleted u @ deletions u [p]"
  by (simp add: uv_delete_def deletions_def)

text \<open>Growing keeps the contents; it fails only for lack of memory or beyond the largest size.\<close>

lemma uv_ensureCapacity_cases:
  assumes inv: "uv_inv u" and m: "blocks_ok malloc" and n: "0 \<le> n"
  obtains (grown) u' where "uv_ensureCapacity malloc u n status = (u', status, True)" "uv_inv u'"
      "n \<le> uv_capacity u'" "toArray u' = toArray u" "uv_count u' = uv_count u" "uv_deleted u' = uv_deleted u"
      "uv_deleter u' = uv_deleter u" "uv_comparer u' = uv_comparer u"
    | (failed) e where "uv_ensureCapacity malloc u n status = (u, e, False)" "U_FAILURE e"
      "n \<le> MAX_ELEMENTS \<longrightarrow> (\<exists>k. malloc k = None \<or> MAX_ELEMENTS < 2 * uv_capacity u)"
proof (cases "uv_capacity u < n")
  case False
  then show ?thesis using grown inv n by (simp add: uv_ensureCapacity_def)
next
  case True
  define c where "c = (if uv_capacity u * 2 < n then n else uv_capacity u * 2)"
  have cap: "\<not> uv_capacity u > (INT32_MAX - 1) div 2" using inv by (simp add: uv_inv_def MAX_ELEMENTS_def INT32_MAX_def)
  have big: "int (length (uv_elements u)) \<le> c" "uv_capacity u \<le> c" "n \<le> c" using True inv by (auto simp: c_def uv_inv_def)
  have eq: "uv_ensureCapacity malloc u n status =
      (if c > MAX_ELEMENTS then (u, U_ILLEGAL_ARGUMENT_ERROR, False)
       else case realloc malloc (uv_elements u) c of None \<Rightarrow> (u, U_MEMORY_ALLOCATION_ERROR, False)
         | Some b \<Rightarrow> (u\<lparr>uv_elements := b, uv_capacity := c\<rparr>, status, True))"
    unfolding uv_ensureCapacity_def Let_def c_def [symmetric] using True n cap by simp
  consider "c > MAX_ELEMENTS" | "c \<le> MAX_ELEMENTS" "realloc malloc (uv_elements u) c = None"
    | b where "c \<le> MAX_ELEMENTS" "realloc malloc (uv_elements u) c = Some b" by fastforce
  then show ?thesis
  proof cases
    case 1
    then show ?thesis using eq by (intro failed [of U_ILLEGAL_ARGUMENT_ERROR]) (auto simp: c_def split: if_splits)
  next
    case 2
    then show ?thesis using eq by (intro failed [of U_MEMORY_ALLOCATION_ERROR]) (auto simp: realloc_def)
  next
    case (3 b)
    then obtain t where "b = uv_elements u @ t" "int (length b) = c" using realloc_Some [OF m _ big(1)] by blast
    then show ?thesis using eq 3 inv big
      by (intro grown [of "u\<lparr>uv_elements := b, uv_capacity := c\<rparr>"]) (auto simp: uv_inv_def toArray_def)
  qed
qed

lemma shift_up_insert:
  "do { els \<leftarrow> shift_up (xs @ ys @ z # zs) (int (length xs) + int (length ys)) (int (length xs)); wr els (int (length xs)) e } =
     Some (xs @ e # ys @ zs)"
proof (induction ys arbitrary: z zs rule: rev_induct)
  case Nil
  show ?case by (subst shift_up.simps) simp
next
  case (snoc y ys)
  have "rd (xs @ ys @ y # z # zs) (int (length xs) + int (length ys)) = Some y"
    by (simp add: rd_Some_iff nth_append nat_add_distrib)
  moreover have "wr (xs @ ys @ y # z # zs) (int (length xs) + int (length ys) + 1) y = Some (xs @ ys @ y # y # zs)"
    by (simp add: wr_Some_iff list_update_append nat_add_distrib)
  ultimately show ?case using snoc.IH [of y "y # zs"]
    by (subst shift_up.simps) (simp add: add.commute add.left_commute)
qed

lemma shift_down_remove:
  "\<exists>z. shift_down (xs @ y # ys @ zs) (int (length xs)) (int (length xs) + int (length ys)) = Some (xs @ ys @ z # zs)"
proof (induction ys arbitrary: xs y)
  case Nil
  show ?case by (subst shift_down.simps) simp
next
  case (Cons w ys)
  have "rd (xs @ y # w # ys @ zs) (int (length xs) + 1) = Some w"
    by (simp add: rd_Some_iff nth_append nat_add_distrib)
  moreover have "wr (xs @ y # w # ys @ zs) (int (length xs)) w = Some (xs @ w # w # ys @ zs)"
    by (simp add: wr_Some_iff list_update_append)
  ultimately show ?case using Cons.IH [of "xs @ [w]" w]
    by (subst shift_down.simps) (simp add: add.commute add.left_commute)
qed

lemma uv_insert_ok:
  assumes inv: "uv_inv u" and i: "i \<le> length (toArray u)" and room: "uv_count u < uv_capacity u"
  shows "\<exists>u'. uv_insert u e (int i) = Some u' \<and> uv_inv u' \<and>
    toArray u' = take i (toArray u) @ e # drop i (toArray u) \<and> uv_count u' = uv_count u + 1 \<and>
    uv_deleted u' = uv_deleted u \<and> uv_deleter u' = uv_deleter u \<and> uv_comparer u' = uv_comparer u"
proof -
  let ?xs = "take i (toArray u)" and ?ys = "drop i (toArray u)"
  obtain z zs where t: "drop (nat (uv_count u)) (uv_elements u) = z # zs"
    using room inv by (cases "drop (nat (uv_count u)) (uv_elements u)") (auto simp: uv_inv_def)
  have els: "uv_elements u = ?xs @ ?ys @ z # zs" using toArray_split [OF inv] t by simp
  have c: "uv_count u = int (length ?xs) + int (length ?ys)" "int i = int (length ?xs)"
    using uv_count_toArray [OF inv] i by simp_all
  have "uv_insert u e (int i) = do { els \<leftarrow> do { els \<leftarrow> shift_up (uv_elements u) (uv_count u) (int i); wr els (int i) e };
      Some (u\<lparr>uv_elements := els, uv_count := uv_count u + 1\<rparr>) }" by (simp add: uv_insert_def)
  also have "do { els \<leftarrow> shift_up (uv_elements u) (uv_count u) (int i); wr els (int i) e } = Some (?xs @ e # ?ys @ zs)"
    unfolding c els by (rule shift_up_insert)
  finally have run: "uv_insert u e (int i) = Some (u\<lparr>uv_elements := ?xs @ e # ?ys @ zs, uv_count := uv_count u + 1\<rparr>)"
    by simp
  have l: "length (?xs @ e # ?ys @ zs) = length (uv_elements u)" using arg_cong [OF els, of length] by simp
  have n: "int (length (?xs @ e # ?ys)) = uv_count u + 1" using c(1) by simp
  have "?xs @ e # ?ys @ zs = (?xs @ e # ?ys) @ zs" by simp
  note up = uv_inv_update [OF inv l this n]
  show ?thesis by (rule exI, rule conjI [OF run]) (use up in simp)
qed

lemma orphanElementAt_ok:
  assumes inv: "uv_inv u" and i: "i < length (toArray u)"
  shows "\<exists>u'. orphanElementAt u (int i) = Some (u', toArray u ! i) \<and> uv_inv u' \<and>
    toArray u' = take i (toArray u) @ drop (Suc i) (toArray u) \<and> uv_count u' = uv_count u - 1 \<and>
    uv_deleted u' = uv_deleted u \<and> uv_deleter u' = uv_deleter u \<and> uv_comparer u' = uv_comparer u"
proof -
  let ?xs = "take i (toArray u)" and ?y = "toArray u ! i" and ?ys = "drop (Suc i) (toArray u)"
  let ?t = "drop (nat (uv_count u)) (uv_elements u)"
  have a: "toArray u = ?xs @ ?y # ?ys" using i by (rule id_take_nth_drop)
  have els: "uv_elements u = ?xs @ ?y # ?ys @ ?t" using toArray_split [OF inv] a by (metis append.assoc append_Cons)
  have c: "uv_count u - 1 = int (length ?xs) + int (length ?ys)" "int i = int (length ?xs)" "int i < uv_count u"
    using uv_count_toArray [OF inv] i by simp_all
  from shift_down_remove [of ?xs ?y ?ys ?t] obtain z where
    z: "shift_down (uv_elements u) (int i) (uv_count u - 1) = Some (?xs @ ?ys @ z # ?t)"
    unfolding els [symmetric] c(1,2) by blast
  have l: "length (?xs @ ?ys @ z # ?t) = length (uv_elements u)" using arg_cong [OF els, of length] by simp
  have run: "orphanElementAt u (int i) = Some (u\<lparr>uv_elements := ?xs @ ?ys @ z # ?t, uv_count := uv_count u - 1\<rparr>, ?y)"
    using toArray_rd [OF inv, of "int i"] c(3) z by (simp add: orphanElementAt_def)
  have n: "int (length (?xs @ ?ys)) = uv_count u - 1" using c(1) by simp
  have "?xs @ ?ys @ z # ?t = (?xs @ ?ys) @ z # ?t" by simp
  note up = uv_inv_update [OF inv l this n]
  show ?thesis by (rule exI, rule conjI [OF run]) (use up in simp)
qed

lemma removeElementAt_ok:
  assumes "uv_inv u" "i < length (toArray u)"
  shows "\<exists>u'. removeElementAt u (int i) = Some u' \<and> uv_inv u' \<and>
    toArray u' = take i (toArray u) @ drop (Suc i) (toArray u) \<and> uv_count u' = uv_count u - 1 \<and>
    uv_deleted u' = uv_deleted u @ deletions u [toArray u ! i] \<and> uv_deleter u' = uv_deleter u \<and>
    uv_comparer u' = uv_comparer u"
  using orphanElementAt_ok [OF assms] by (auto simp: removeElementAt_def deletions_def)

section \<open>Searching and removing\<close>

definition uv_same :: "('a option \<Rightarrow> 'a option \<Rightarrow> bool) \<Rightarrow> 'a UVector \<Rightarrow> 'a option \<Rightarrow> 'a option \<Rightarrow> bool" where
  "uv_same eqv u key x = (case uv_comparer u of None \<Rightarrow> eqv key x | Some c \<Rightarrow> c key x)"

lemma indexOf_from_ok:
  assumes inv: "uv_inv u"
  shows "i \<le> length (toArray u) \<Longrightarrow> \<exists>r. indexOf_from eqv u key (int i) = Some r \<and>
    (if r < 0 then r = -1 \<and> (\<forall>k. i \<le> k \<longrightarrow> k < length (toArray u) \<longrightarrow> \<not> uv_same eqv u key (toArray u ! k))
     else i \<le> nat r \<and> nat r < length (toArray u) \<and> uv_same eqv u key (toArray u ! nat r) \<and>
       (\<forall>k. i \<le> k \<longrightarrow> k < nat r \<longrightarrow> \<not> uv_same eqv u key (toArray u ! k)))"
proof (induction "length (toArray u) - i" arbitrary: i)
  case 0
  then show ?case by (subst indexOf_from.simps) (simp add: uv_count_toArray [OF inv])
next
  case (Suc n)
  then have i: "i < length (toArray u)" "int i < uv_count u" by (simp_all add: uv_count_toArray [OF inv])
  then have rd: "rd (uv_elements u) (int i) = Some (toArray u ! i)" using toArray_rd [OF inv, of "int i"] by simp
  show ?case
  proof (cases "uv_same eqv u key (toArray u ! i)")
    case True
    then show ?thesis using i rd by (subst indexOf_from.simps) (simp add: uv_same_def)
  next
    case False
    then have step: "indexOf_from eqv u key (int i) = indexOf_from eqv u key (int (Suc i))"
      using i rd by (subst indexOf_from.simps) (simp add: uv_same_def add.commute)
    have n: "n = length (toArray u) - Suc i" "Suc i \<le> length (toArray u)" using Suc.hyps(2) by simp_all
    obtain r where r: "indexOf_from eqv u key (int (Suc i)) = Some r" and
      P: "if r < 0 then r = -1 \<and> (\<forall>k. Suc i \<le> k \<longrightarrow> k < length (toArray u) \<longrightarrow> \<not> uv_same eqv u key (toArray u ! k))
     else Suc i \<le> nat r \<and> nat r < length (toArray u) \<and> uv_same eqv u key (toArray u ! nat r) \<and>
       (\<forall>k. Suc i \<le> k \<longrightarrow> k < nat r \<longrightarrow> \<not> uv_same eqv u key (toArray u ! k))"
      using Suc.hyps(1) [OF n] by blast
    have "\<not> uv_same eqv u key (toArray u ! k)" if "i \<le> k" "Suc i \<le> k \<longrightarrow> \<not> uv_same eqv u key (toArray u ! k)" for k
      using that False by (cases "k = i") auto
    then show ?thesis unfolding step r using P by (intro exI [of _ r]) (auto split: if_splits)
  qed
qed

text \<open>The first occurrence, or none.\<close>

lemma indexOf_cases:
  assumes inv: "uv_inv u"
  obtains (none) "indexOf eqv u key 0 = Some (-1)" "\<forall>x \<in> set (toArray u). \<not> uv_same eqv u key x"
    | (found) k where "indexOf eqv u key 0 = Some (int k)" "k < length (toArray u)" "uv_same eqv u key (toArray u ! k)"
        "\<forall>x \<in> set (take k (toArray u)). \<not> uv_same eqv u key x"
proof -
  obtain r where r: "indexOf eqv u key 0 = Some r" and P: "if r < 0 then r = -1 \<and> (\<forall>k < length (toArray u). \<not> uv_same eqv u key (toArray u ! k))
     else nat r < length (toArray u) \<and> uv_same eqv u key (toArray u ! nat r) \<and>
       (\<forall>k < nat r. \<not> uv_same eqv u key (toArray u ! k))"
    using indexOf_from_ok [OF inv, of 0 eqv key] by (auto simp: indexOf_def)
  show thesis
  proof (cases "r < 0")
    case True
    then show ?thesis using r P none by (simp add: all_set_conv_all_nth)
  next
    case False
    then have "\<forall>x \<in> set (take (nat r) (toArray u)). \<not> uv_same eqv u key x" using P by (auto simp: in_set_conv_nth)
    then show ?thesis using r P found [of "nat r"] False by simp
  qed
qed

definition remove_first :: "('a \<Rightarrow> bool) \<Rightarrow> 'a list \<Rightarrow> 'a list" where
  "remove_first P xs = takeWhile (\<lambda>x. \<not> P x) xs @ tl (dropWhile (\<lambda>x. \<not> P x) xs)"

lemma remove_first_none: "\<forall>x \<in> set xs. \<not> P x \<Longrightarrow> remove_first P xs = xs"
  by (simp add: remove_first_def takeWhile_eq_all_conv [THEN iffD2] dropWhile_eq_Nil_conv [THEN iffD2])

lemma remove_first_nth:
  assumes "k < length xs" "P (xs ! k)" "\<forall>x \<in> set (take k xs). \<not> P x"
  shows "remove_first P xs = take k xs @ drop (Suc k) xs"
proof -
  have "remove_first P (take k xs @ xs ! k # drop (Suc k) xs) = take k xs @ drop (Suc k) xs"
    using assms(2,3) by (simp add: remove_first_def takeWhile_append2 dropWhile_append2 takeWhile_tail)
  then show ?thesis using assms(1) by (simp add: id_take_nth_drop [symmetric])
qed

lemma remove_first_eq: "remove_first (\<lambda>x. y = x) xs = remove1 y xs"
  by (induction xs) (auto simp: remove_first_def)

lemma uv_removeElement_ok:
  assumes inv: "uv_inv u"
  shows "\<exists>u'. removeElement u obj = Some (u', \<exists>x \<in> set (toArray u). uv_same (=) u obj x) \<and> uv_inv u' \<and>
    toArray u' = remove_first (uv_same (=) u obj) (toArray u) \<and> uv_deleter u' = uv_deleter u \<and> uv_comparer u' = uv_comparer u"
proof (cases rule: indexOf_cases [where eqv = "(=)", OF inv, of obj, case_names none found])
  case none
  then show ?thesis using inv by (auto simp: removeElement_def remove_first_none)
next
  case (found k)
  have "toArray u ! k \<in> set (toArray u)" using found(2) by simp
  then have "\<exists>x \<in> set (toArray u). uv_same (=) u obj x" using found(3) by blast
  then show ?thesis
    using found remove_first_nth [OF found(2-4)] removeElementAt_ok [OF inv found(2)] by (auto simp: removeElement_def)
qed

lemma removeAll_from_ok:
  assumes other: "uv_inv other"
  shows "i \<le> length (toArray other) \<Longrightarrow> uv_inv u \<Longrightarrow> \<exists>u' ch'. removeAll_from eqv u other (int i) ch = Some (u', ch') \<and> uv_inv u' \<and>
    toArray u' = fold (\<lambda>y. remove_first (uv_same eqv u y)) (drop i (toArray other)) (toArray u) \<and>
    uv_deleter u' = uv_deleter u \<and> uv_comparer u' = uv_comparer u"
proof (induction "length (toArray other) - i" arbitrary: i u ch)
  case 0
  then show ?case by (subst removeAll_from.simps) (simp add: uv_count_toArray [OF other])
next
  case (Suc n)
  let ?y = "toArray other ! i"
  have i: "i < length (toArray other)" "int i < uv_count other" "n = length (toArray other) - Suc i" "Suc i \<le> length (toArray other)"
    using Suc.hyps(2) by (simp_all add: uv_count_toArray [OF other])
  then have rd: "rd (uv_elements other) (int i) = Some ?y" using toArray_rd [OF other, of "int i"] by simp
  have d: "drop i (toArray other) = ?y # drop (Suc i) (toArray other)" using i(1) by (simp add: Cons_nth_drop_Suc)
  have same: "uv_same eqv u' = uv_same eqv u" if "uv_comparer u' = uv_comparer u" for u' :: "'a UVector"
    using that by (simp add: fun_eq_iff uv_same_def)
  show ?case
  proof (cases rule: indexOf_cases [where eqv = eqv, OF Suc.prems(2), of ?y, case_names none found])
    case none
    then have "removeAll_from eqv u other (int i) ch = removeAll_from eqv u other (int (Suc i)) ch"
      using i(2) rd by (subst removeAll_from.simps) (simp add: add.commute)
    then show ?thesis using Suc.hyps(1) [OF i(3,4) Suc.prems(2), of ch] none d by (auto simp: remove_first_none)
  next
    case (found k)
    obtain u1 where u1: "removeElementAt u (int k) = Some u1" "uv_inv u1"
      "toArray u1 = remove_first (uv_same eqv u ?y) (toArray u)" "uv_deleter u1 = uv_deleter u" "uv_comparer u1 = uv_comparer u"
      using removeElementAt_ok [OF Suc.prems(2) found(2)] remove_first_nth [OF found(2-4)] by auto
    have "removeAll_from eqv u other (int i) ch = removeAll_from eqv u1 other (int (Suc i)) True"
      using i(2) rd found(1) u1(1) by (subst removeAll_from.simps) (simp add: add.commute)
    then show ?thesis using Suc.hyps(1) [OF i(3,4) u1(2), of True] u1(3-5) d same [OF u1(5)] by auto
  qed
qed

lemma retainAll_from_ok:
  assumes other: "uv_inv other"
  shows "uv_inv u \<Longrightarrow> n \<le> length (toArray u) \<Longrightarrow> \<exists>u'. retainAll_from eqv u other (int n - 1) ch =
      Some (u', ch \<or> (\<exists>x \<in> set (take n (toArray u)). \<not> (\<exists>y \<in> set (toArray other). uv_same eqv other x y))) \<and> uv_inv u' \<and>
    toArray u' = filter (\<lambda>x. \<exists>y \<in> set (toArray other). uv_same eqv other x y) (take n (toArray u)) @ drop n (toArray u) \<and>
    uv_deleted u' = uv_deleted u @
      deletions u (rev (filter (\<lambda>x. \<not> (\<exists>y \<in> set (toArray other). uv_same eqv other x y)) (take n (toArray u)))) \<and>
    uv_deleter u' = uv_deleter u \<and> uv_comparer u' = uv_comparer u"
proof (induction n arbitrary: u ch)
  case 0
  then show ?case by (subst retainAll_from.simps) (simp add: deletions_def)
next
  case (Suc n)
  let ?x = "toArray u ! n"
  have n: "n < length (toArray u)" using Suc.prems(2) by simp
  then have rd: "rd (uv_elements u) (int n) = Some ?x"
    using toArray_rd [OF Suc.prems(1), of "int n"] uv_count_toArray [OF Suc.prems(1)] by simp
  have t: "take (Suc n) (toArray u) = take n (toArray u) @ [?x]" "drop n (toArray u) = ?x # drop (Suc n) (toArray u)"
    using n by (simp_all add: take_Suc_conv_app_nth Cons_nth_drop_Suc)
  show ?case
  proof (cases rule: indexOf_cases [where eqv = eqv, OF other, of ?x, case_names none found])
    case none
    obtain u1 where u1: "removeElementAt u (int n) = Some u1" "uv_inv u1"
      "toArray u1 = take n (toArray u) @ drop (Suc n) (toArray u)" "uv_deleted u1 = uv_deleted u @ deletions u [?x]"
      "uv_deleter u1 = uv_deleter u" "uv_comparer u1 = uv_comparer u"
      using removeElementAt_ok [OF Suc.prems(1) n] by auto
    have "retainAll_from eqv u other (int (Suc n) - 1) ch = retainAll_from eqv u1 other (int n - 1) True"
      using rd none(1) u1(1) by (subst retainAll_from.simps) simp
    then show ?thesis using Suc.IH [OF u1(2), of True] u1(3-6) n none(2) t by (auto simp: deletions_def)
  next
    case (found k)
    have "toArray other ! k \<in> set (toArray other)" using found(2) by simp
    then have ex: "\<exists>y \<in> set (toArray other). uv_same eqv other ?x y" using found(3) by blast
    have "retainAll_from eqv u other (int (Suc n) - 1) ch = retainAll_from eqv u other (int n - 1) ch"
      using rd found(1) by (subst retainAll_from.simps) simp
    then show ?thesis using Suc.IH [OF Suc.prems(1), of ch] n ex t by auto
  qed
qed

section \<open>Sorted insertion\<close>

lemma insert_position_ok:
  fixes e :: "'a option" and u :: "'a UVector"
  assumes c: "comparator cmp" and s: "cmp_sorted cmp (toArray u)" and inv: "uv_inv u"
  defines "q \<equiv> length (takeWhile (\<lambda>y. cmp y e \<le> 0) (toArray u))"
  shows "lo \<le> q \<Longrightarrow> q \<le> hi \<Longrightarrow> hi \<le> length (toArray u) \<Longrightarrow> insert_position cmp (uv_elements u) e (int lo) (int hi) = Some (int q)"
proof (induction "hi - lo" arbitrary: lo hi rule: less_induct)
  case less
  show ?case
  proof (cases "lo < hi")
    case False
    then show ?thesis using less.prems by (subst insert_position.simps) simp
  next
    case True
    define i where "i = (lo + hi) div 2"
    have i: "lo \<le> i" "i < hi" "(int lo + int hi) div 2 = int i" using True by (simp_all add: i_def zdiv_int)
    have ia: "i < length (toArray u)" using i(2) less.prems(3) by simp
    then have rd: "rd (uv_elements u) (int i) = Some (toArray u ! i)"
      using toArray_rd [OF inv, of "int i"] by (simp add: uv_count_toArray [OF inv])
    show ?thesis
    proof (cases "cmp (toArray u ! i) e > 0")
      case True
      have "q \<le> i"
      proof (rule ccontr)
        assume "\<not> q \<le> i"
        then have "toArray u ! i \<in> set (takeWhile (\<lambda>y. cmp y e \<le> 0) (toArray u))"
          by (metis q_def not_le nth_mem takeWhile_nth)
        then show False using True by (auto dest: set_takeWhileD)
      qed
      then show ?thesis using less.hyps [of i lo] less.prems i rd True \<open>lo < hi\<close>
        by (subst insert_position.simps) simp
    next
      case False
      have "Suc i \<le> q"
      proof (rule ccontr)
        assume "\<not> Suc i \<le> q"
        then have qi: "q \<le> i" "q < length (toArray u)" using ia by simp_all
        then have "\<not> cmp (toArray u ! q) e \<le> 0" using nth_length_takeWhile [of "\<lambda>y. cmp y e \<le> 0" "toArray u"] by (simp add: q_def)
        moreover have "cmp (toArray u ! q) (toArray u ! i) \<le> 0"
          using qi(1) ia s comparator.cmp_refl [OF c] by (cases "q = i") (auto simp: sorted_wrt_iff_nth_less)
        ultimately show False using False comparator.cmp_trans [OF c, of "toArray u ! q" "toArray u ! i" e] by simp
      qed
      then show ?thesis using less.hyps [of hi "Suc i"] less.prems i rd False \<open>lo < hi\<close>
        by (subst insert_position.simps) (simp add: add.commute)
    qed
  qed
qed

lemma sortedInsert_ok:
  assumes c: "comparator cmp" and inv: "uv_inv u" and m: "blocks_ok malloc" and s: "cmp_sorted cmp (toArray u)"
  shows "\<exists>u' ec'. sortedInsert malloc u e cmp ec = Some (u', ec') \<and> uv_inv u' \<and> uv_deleted u' = uv_deleted u \<and>
    (ec' = ec \<and> toArray u' = insert_after cmp e (toArray u) \<and> cmp_sorted cmp (toArray u') \<or>
     U_FAILURE ec' \<and> u' = u \<and> ((\<exists>k. malloc k = None) \<or> MAX_ELEMENTS < 2 * uv_capacity u + 1))"
proof -
  let ?a = "toArray u"
  let ?q = "length (takeWhile (\<lambda>y. cmp y e \<le> 0) ?a)"
  have q: "?q \<le> length ?a" by (rule length_takeWhile_le)
  have pos: "insert_position cmp (uv_elements u) e 0 (uv_count u) = Some (int ?q)"
    using insert_position_ok [OF c s inv, of 0 e "length ?a"] q by (simp add: uv_count_toArray [OF inv])
  have ia: "insert_after cmp e ?a = take ?q ?a @ e # drop ?q ?a"
    unfolding insert_after_def takeWhile_eq_take [symmetric] dropWhile_eq_drop [symmetric] by (rule refl)
  have n: "0 \<le> uv_count u + 1" "uv_count u + 1 \<le> uv_capacity u + 1" using inv by (simp_all add: uv_inv_def)
  show ?thesis
  proof (cases rule: uv_ensureCapacity_cases [OF inv m n(1), of ec, case_names grown failed])
    case (grown u1)
    then have "?q \<le> length (toArray u1)" "uv_count u1 < uv_capacity u1" using q by simp_all
    from uv_insert_ok [OF grown(2) this, of e] obtain u' where u': "uv_insert u1 e (int ?q) = Some u'" "uv_inv u'"
      "toArray u' = insert_after cmp e ?a" "uv_deleted u' = uv_deleted u"
      unfolding grown(4,6) ia by blast
    have "sortedInsert malloc u e cmp ec = Some (u', ec)" unfolding sortedInsert_def pos using grown(1) u'(1) by simp
    then show ?thesis using u'(2-4) comparator.cmp_sorted_insert_after [OF c s, of e] by auto
  next
    case (failed e')
    have "\<not> uv_count u + 1 \<le> MAX_ELEMENTS \<Longrightarrow> MAX_ELEMENTS < 2 * uv_capacity u + 1" using n inv by (simp add: uv_inv_def)
    moreover have "sortedInsert malloc u e cmp ec = Some (u, e')" unfolding sortedInsert_def pos using failed(1) by simp
    ultimately show ?thesis using failed(2,3) inv by (intro exI [of _ u] exI [of _ e']) auto
  qed
qed

text \<open>
  Inserting into a sorted vector returns: the element is put behind the elements that are not greater,
  so that the vector is sorted, or, when the array cannot grow, the vector is unchanged and an
  error is reported. It can fail only for lack of memory or near the largest size.
\<close>
lemma uv_sortedInsert_refines:
  assumes c: "comparator cmp" and inv: "uv_inv u" and m: "blocks_ok malloc" and s: "cmp_sorted cmp (toArray u)"
  shows "\<exists>u' ec'. sortedInsert malloc u e cmp ec = Some (u', ec') \<and> uv_inv u' \<and> uv_deleted u' = uv_deleted u \<and>
    (ec' = ec \<and> toArray u' = insert_after cmp e (toArray u) \<and> cmp_sorted cmp (toArray u') \<or>
     U_FAILURE ec' \<and> u' = u \<and> ((\<exists>k. malloc k = None) \<or> MAX_ELEMENTS < 2 * uv_capacity u + 1))"
  by (rule sortedInsert_ok [OF assms])

lemma uv_sortedInsert_refines_witness:
  "\<exists>u' ec'. sortedInsert (\<lambda>n. Some (replicate (nat n) None))
      \<lparr>uv_count = 2, uv_capacity = 2, uv_elements = [Some 3, Some 9], uv_deleter = False, uv_comparer = None, uv_deleted = []\<rparr>
      (Some 5) sortiComparator U_ZERO_ERROR = Some (u', ec') \<and> toArray u' = [Some 3, Some 5, Some 9]"
proof -
  have c: "comparator sortiComparator" by standard (auto simp: sortiComparator_def split: if_splits)
  let ?u = "\<lparr>uv_count = 2, uv_capacity = 2, uv_elements = [Some 3, Some 9], uv_deleter = False,
    uv_comparer = None, uv_deleted = []\<rparr> :: int UVector"
  have inv: "uv_inv ?u" by (simp add: uv_inv_def MAX_ELEMENTS_def INT32_MAX_def)
  have m: "blocks_ok (\<lambda>n. Some (replicate (nat n) None))" by (simp add: blocks_ok_def)
  have t: "toArray ?u = [Some 3, Some 9]" by (simp add: toArray_def)
  have s: "cmp_sorted sortiComparator (toArray ?u)" unfolding t by (simp add: sortiComparator_def element_integer_def)
  have ia: "insert_after sortiComparator (Some 5) [Some 3, Some 9] = [Some 3, Some 5, Some 9]"
    by (simp add: insert_after_def sortiComparator_def element_integer_def)
  from uv_sortedInsert_refines [OF c inv m s, of "Some 5" U_ZERO_ERROR] show ?thesis
    unfolding t ia by (auto simp: MAX_ELEMENTS_def INT32_MAX_def)
qed

text \<open>
  \<open>retainAll\<close> keeps exactly the elements that occur in the other vector, in their order, calls the
  deleter once for each of the others, and says whether there were any.
\<close>
lemma uv_retainAll_filters:
  assumes "uv_inv u" "uv_inv other"
  shows "\<exists>u'. uv_retainAll eqv u other =
      Some (u', \<exists>x \<in> set (toArray u). \<forall>y \<in> set (toArray other). \<not> uv_same eqv other x y) \<and> uv_inv u' \<and>
    toArray u' = filter (\<lambda>x. \<exists>y \<in> set (toArray other). uv_same eqv other x y) (toArray u) \<and>
    mset (uv_deleted u') = mset (uv_deleted u) +
      mset (deletions u (filter (\<lambda>x. \<forall>y \<in> set (toArray other). \<not> uv_same eqv other x y) (toArray u)))"
proof -
  have "deletions u (rev xs) = rev (deletions u xs)" for xs by (simp add: deletions_def rev_filter)
  then show ?thesis
    using retainAll_from_ok [OF assms(2,1), of "length (toArray u)" eqv False] uv_count_toArray [OF assms(1)]
    by (auto simp: uv_retainAll_def)
qed

lemma uv_retainAll_filters_witness:
  "\<exists>u'. uv_retainAll (=)
      \<lparr>uv_count = 3, uv_capacity = 3, uv_elements = [Some 3, Some 9, Some 4], uv_deleter = True, uv_comparer = None, uv_deleted = []\<rparr>
      \<lparr>uv_count = 1, uv_capacity = 2, uv_elements = [Some 9, None], uv_deleter = False, uv_comparer = None, uv_deleted = []\<rparr> =
      Some (u', True) \<and> toArray u' = [Some (9 :: int)]"
proof -
  let ?u = "\<lparr>uv_count = 3, uv_capacity = 3, uv_elements = [Some 3, Some 9, Some 4], uv_deleter = True,
    uv_comparer = None, uv_deleted = []\<rparr> :: int UVector"
  let ?v = "\<lparr>uv_count = 1, uv_capacity = 2, uv_elements = [Some 9, None], uv_deleter = False,
    uv_comparer = None, uv_deleted = []\<rparr> :: int UVector"
  have "uv_inv ?u" "uv_inv ?v" by (simp_all add: uv_inv_def MAX_ELEMENTS_def INT32_MAX_def)
  from uv_retainAll_filters [OF this, of "(=)"] show ?thesis by (auto simp: toArray_def uv_same_def eval_nat_numeral)
qed

section \<open>The stack\<close>

text \<open>
  C35: Popping a stack after a push returns the object and restores the contents; but when the stack has a
  deleter, the object returned has been deleted.
\<close>
theorem ustack_pop_push:
  assumes "uv_inv u" "blocks_ok malloc" "ustack_push malloc u obj status = Some (u1, status)" "\<not> U_FAILURE status"
  shows "\<exists>u2. ustack_pop u1 = Some (u2, obj) \<and> uv_inv u2 \<and> toArray u2 = toArray u \<and>
    uv_deleted u2 = uv_deleted u @ deletions u [obj]"
proof -
  have n: "0 \<le> uv_count u + 1" using assms(1) by (simp add: uv_inv_def)
  show ?thesis
  proof (cases rule: uv_ensureCapacity_cases [OF assms(1,2) n, of status, case_names grown failed])
    case (failed e)
    then show ?thesis using assms(3,4) by (simp add: ustack_push_def addElement_def)
  next
    case (grown u')
    let ?els = "(uv_elements u')[nat (uv_count u) := obj]"
    have c: "uv_count u = int (length (toArray u))" using uv_count_toArray [OF assms(1)] .
    have lt: "nat (uv_count u) < length (uv_elements u')" using grown n c by (auto simp: uv_inv_def)
    then have u1: "u1 = u'\<lparr>uv_elements := ?els, uv_count := uv_count u + 1\<rparr>"
      using assms(3) grown c by (auto simp: ustack_push_def addElement_def wr_Some_iff bind_Some_iff)
    have "take (nat (uv_count u)) (uv_elements u') = toArray u" using grown(4,5) by (simp add: toArray_def)
    then have "?els = (toArray u @ [obj]) @ drop (Suc (nat (uv_count u))) (uv_elements u')"
      using lt by (simp add: upd_conv_take_nth_drop)
    from uv_inv_update [OF grown(2) length_list_update this, of "uv_count u + 1"]
    have i1: "uv_inv u1" "toArray u1 = toArray u @ [obj]" using c unfolding u1 by simp_all
    from removeElementAt_ok [OF i1(1), of "length (toArray u)"] i1 u1 grown c
    obtain u2 where "removeElementAt u1 (uv_count u) = Some u2" "uv_inv u2" "toArray u2 = toArray u"
      "uv_deleted u2 = uv_deleted u @ deletions u [obj]"
      by (auto simp: deletions_def)
    moreover have "elementAt u1 (uv_count u) = Some obj"
      using toArray_rd [OF i1(1), of "uv_count u"] i1(2) c u1 by (simp add: elementAt_def)
    moreover have "uv_count u1 = uv_count u + 1" using u1 by simp
    ultimately show ?thesis using n c by (simp add: ustack_pop_def)
  qed
qed

theorem ustack_pop_push_witness:
  "\<exists>u1 u2. ustack_push (\<lambda>n. Some (replicate (nat n) None))
      \<lparr>uv_count = 0, uv_capacity = 0, uv_elements = [], uv_deleter = True, uv_comparer = None, uv_deleted = []\<rparr>
      (Some (7 :: int)) U_ZERO_ERROR = Some (u1, U_ZERO_ERROR) \<and>
    ustack_pop u1 = Some (u2, Some 7) \<and> uv_deleted u2 = [Some 7]"
proof -
  let ?u = "\<lparr>uv_count = 0, uv_capacity = 0, uv_elements = [], uv_deleter = True, uv_comparer = None, uv_deleted = []\<rparr> :: int UVector"
  let ?m = "\<lambda>n. Some (replicate (nat n) None) :: int option list option"
  obtain u1 where p: "ustack_push ?m ?u (Some 7) U_ZERO_ERROR = Some (u1, U_ZERO_ERROR)"
    by (simp add: ustack_push_def addElement_def uv_ensureCapacity_def realloc_def MAX_ELEMENTS_def INT32_MAX_def
        overwrite_def wr_Some_iff)
  have "uv_inv ?u" "blocks_ok ?m" by (simp_all add: uv_inv_def blocks_ok_def MAX_ELEMENTS_def INT32_MAX_def)
  from ustack_pop_push [OF this p] p show ?thesis by (auto simp: deletions_def)
qed
end
