(* ===== verification/UniSet.thy ===== *)
theory UniSet
  imports UVector Utf16 "HOL-Library.List_Lexorder" "HOL-Library.Signed_Division"
begin

text \<open>
  Sets of code points and strings (\<open>uniset.cpp\<close>). The code points are an inversion list: an increasing array of
  range starts and limits that ends with \<open>UNICODESET_HIGH\<close>. The merging loops of \<open>add\<close>, \<open>retain\<close> and
  \<open>exclusiveOr\<close> are written step by step as in the code, over the arrays \<open>list\<close>, \<open>other\<close> and \<open>buffer\<close> with
  checked access. A pointer that may be NULL is an option. A set is frozen when it has a \<open>bmpSet\<close> or a
  \<open>stringSpan\<close>, which are not modelled themselves. The vector of strings always has its comparer, so the comparison
  that \<open>UVector\<close> uses without one does not matter and is \<open>(=)\<close>. \<open>*this\<close> and the argument of an operation are
  different objects.
\<close>

section \<open>The object\<close>

definition UNICODESET_HIGH :: UChar32 where "UNICODESET_HIGH = 0x110000"
definition UNICODESET_LOW :: UChar32 where "UNICODESET_LOW = 0"
definition START_EXTRA :: int where "START_EXTRA = 16"
definition GROW_EXTRA :: int where "GROW_EXTRA = START_EXTRA"

record UnicodeSet =
  us_len :: int
  us_capacity :: int
  us_list :: "UChar32 list option"
  us_frozen :: bool
  us_buffer :: "UChar32 list option"
  us_bufferCapacity :: int
  us_pat :: "u16 list option"
  us_strings :: "u16 list UVector option"
  us_bogus :: bool

text \<open>
  The allocator: blocks of code points, blocks of elements for the vector of strings, and whether a new
  vector or string gets its memory.
\<close>

record Heap =
  heap_cells :: "int \<Rightarrow> UChar32 list option"
  heap_slots :: "int \<Rightarrow> u16 list option list option"
  heap_vector :: bool
  heap_string :: bool

definition pinCodePoint :: "UChar32 \<Rightarrow> UChar32" where
  "pinCodePoint c =
     (if c < UNICODESET_LOW then UNICODESET_LOW
      else if c > UNICODESET_HIGH - 1 then UNICODESET_HIGH - 1 else c)"

text \<open>Strings are compared by code units.\<close>

definition compareUnicodeString :: "u16 list option \<Rightarrow> u16 list option \<Rightarrow> int" where
  "compareUnicodeString t1 t2 = (let a = the t1; b = the t2 in if a < b then -1 else if a = b then 0 else 1)"

definition cloneUnicodeString :: "Heap \<Rightarrow> u16 list option \<Rightarrow> u16 list option" where
  "cloneUnicodeString heap src = (if heap_string heap then src else None)"

definition isFrozen :: "UnicodeSet \<Rightarrow> bool" where "isFrozen s = us_frozen s"
definition isBogus :: "UnicodeSet \<Rightarrow> bool" where "isBogus s = us_bogus s"

definition releasePattern :: "UnicodeSet \<Rightarrow> UnicodeSet" where
  "releasePattern s = (if us_pat s \<noteq> None then s\<lparr>us_pat := None\<rparr> else s)"

definition us_clear :: "UnicodeSet \<Rightarrow> UnicodeSet option" where
  "us_clear s =
     (if isFrozen s then Some s
      else do {
        l \<leftarrow> (case us_list s of None \<Rightarrow> Some None | Some l \<Rightarrow> map_option Some (wr l 0 UNICODESET_HIGH));
        let s = releasePattern (s\<lparr>us_list := l, us_len := 1\<rparr>);
        v \<leftarrow> (case us_strings s of None \<Rightarrow> Some None | Some v \<Rightarrow> map_option Some (uv_removeAllElements v));
        let s = s\<lparr>us_strings := v\<rparr>;
        Some (if us_list s \<noteq> None \<and> us_strings s \<noteq> None then s\<lparr>us_bogus := False\<rparr> else s) })"

definition setToBogus :: "UnicodeSet \<Rightarrow> UnicodeSet option" where
  "setToBogus s = do { s \<leftarrow> us_clear s; Some (s\<lparr>us_bogus := True\<rparr>) }"

definition allocateStrings :: "Heap \<Rightarrow> UnicodeSet \<Rightarrow> UErrorCode \<Rightarrow> UnicodeSet \<times> UErrorCode" where
  "allocateStrings heap s status =
     (if U_FAILURE status then (s, status)
      else if \<not> heap_vector heap then (s\<lparr>us_strings := None\<rparr>, U_MEMORY_ALLOCATION_ERROR)
      else
        let (v, status) = new_UVector (heap_slots heap) True (Some (=)) 1 status in
        if U_FAILURE status then (s\<lparr>us_strings := None\<rparr>, status) else (s\<lparr>us_strings := Some v\<rparr>, status))"

text \<open>\<open>uprv_realloc\<close> of an array that may be NULL, to \<open>newLen + GROW_EXTRA\<close> items.\<close>

definition us_grow :: "Heap \<Rightarrow> UChar32 list option \<Rightarrow> int \<Rightarrow> UChar32 list option" where
  "us_grow heap old newLen = realloc (heap_cells heap) (case old of None \<Rightarrow> [] | Some l \<Rightarrow> l) newLen"

definition ensureCapacity :: "Heap \<Rightarrow> UnicodeSet \<Rightarrow> int \<Rightarrow> UErrorCode \<Rightarrow> (UnicodeSet \<times> UErrorCode) option" where
  "ensureCapacity heap s newLen ec =
     (if newLen \<le> us_capacity s then Some (s, ec)
      else case us_grow heap (us_list s) (newLen + GROW_EXTRA) of
        None \<Rightarrow> do { s \<leftarrow> setToBogus s; Some (s, U_MEMORY_ALLOCATION_ERROR) }
      | Some temp \<Rightarrow> Some (s\<lparr>us_list := Some temp, us_capacity := newLen + GROW_EXTRA\<rparr>, ec))"

definition ensureBufferCapacity :: "Heap \<Rightarrow> UnicodeSet \<Rightarrow> int \<Rightarrow> UErrorCode \<Rightarrow> (UnicodeSet \<times> UErrorCode) option" where
  "ensureBufferCapacity heap s newLen ec =
     (if us_buffer s \<noteq> None \<and> newLen \<le> us_bufferCapacity s then Some (s, ec)
      else case us_grow heap (us_buffer s) (newLen + GROW_EXTRA) of
        None \<Rightarrow> do { s \<leftarrow> setToBogus s; Some (s, U_MEMORY_ALLOCATION_ERROR) }
      | Some temp \<Rightarrow> Some (s\<lparr>us_buffer := Some temp, us_bufferCapacity := newLen + GROW_EXTRA\<rparr>, ec))"

text \<open>\<open>uprv_memcpy\<close> between two arrays.\<close>

definition copy_cells :: "'a list \<Rightarrow> int \<Rightarrow> 'a list \<Rightarrow> int \<Rightarrow> int \<Rightarrow> 'a list option" where
  "copy_cells dest d src j n =
     (if 0 \<le> n \<and> 0 \<le> d \<and> 0 \<le> j \<and> d + n \<le> int (length dest) \<and> j + n \<le> int (length src)
      then Some (overwrite dest d (seg src j (j + n))) else None)"

definition swapBuffers :: "UnicodeSet \<Rightarrow> UnicodeSet" where
  "swapBuffers s = s\<lparr>us_list := us_buffer s, us_buffer := us_list s,
     us_capacity := us_bufferCapacity s, us_bufferCapacity := us_capacity s\<rparr>"

section \<open>Searching\<close>

partial_function (option) find_halve :: "UChar32 list \<Rightarrow> UChar32 \<Rightarrow> int \<Rightarrow> int \<Rightarrow> int option" where
  "find_halve l c lo hi =
     (if (lo + hi) div 2 = lo then Some hi
      else Option.bind (rd l ((lo + hi) div 2)) (\<lambda>x.
        if c < x then find_halve l c lo ((lo + hi) div 2) else find_halve l c ((lo + hi) div 2) hi))"

definition findCodePoint :: "UnicodeSet \<Rightarrow> UChar32 \<Rightarrow> int option" where
  "findCodePoint s c = do {
     l \<leftarrow> us_list s;
     x \<leftarrow> rd l 0;
     if c < x then Some 0
     else let hi = us_len s - 1 in
       if 0 \<ge> hi then Some hi
       else do { y \<leftarrow> rd l (hi - 1); if c \<ge> y then Some hi else find_halve l c 0 hi } }"

text \<open>\<open>contains\<close> of a set that is not frozen, from the test of the upper bound on.\<close>

definition us_contains :: "UnicodeSet \<Rightarrow> UChar32 \<Rightarrow> bool option" where
  "us_contains s c =
     (if c \<ge> UNICODESET_HIGH then Some False else do { i \<leftarrow> findCodePoint s c; Some (i AND 1 \<noteq> 0) })"

definition contains_range :: "UnicodeSet \<Rightarrow> UChar32 \<Rightarrow> UChar32 \<Rightarrow> bool option" where
  "contains_range s start end_cp = do {
     i \<leftarrow> findCodePoint s start;
     if i AND 1 \<noteq> 0 then do { l \<leftarrow> us_list s; x \<leftarrow> rd l i; Some (end_cp < x) } else Some False }"

definition containsNone_range :: "UnicodeSet \<Rightarrow> UChar32 \<Rightarrow> UChar32 \<Rightarrow> bool option" where
  "containsNone_range s start end_cp = do {
     i \<leftarrow> findCodePoint s start;
     if i AND 1 = 0 then do { l \<leftarrow> us_list s; x \<leftarrow> rd l i; Some (end_cp < x) } else Some False }"

definition getRangeCount :: "UnicodeSet \<Rightarrow> int" where "getRangeCount s = us_len s div 2"

definition getRangeStart :: "UnicodeSet \<Rightarrow> int \<Rightarrow> UChar32 option" where
  "getRangeStart s index = do { l \<leftarrow> us_list s; rd l (index * 2) }"

definition getRangeEnd :: "UnicodeSet \<Rightarrow> int \<Rightarrow> UChar32 option" where
  "getRangeEnd s index = do { l \<leftarrow> us_list s; x \<leftarrow> rd l (index * 2 + 1); Some (x - 1) }"

function size_loop :: "UnicodeSet \<Rightarrow> int \<Rightarrow> int \<Rightarrow> int option" where
  "size_loop s i n =
     (if i < getRangeCount s then do {
        e \<leftarrow> getRangeEnd s i; b \<leftarrow> getRangeStart s i; size_loop s (i + 1) (n + (e - b + 1)) }
      else Some n)"
  by pat_completeness auto
termination by (relation "measure (\<lambda>(s, i, n). nat (getRangeCount s - i))") auto

definition us_size :: "UnicodeSet \<Rightarrow> int option" where
  "us_size s = do { n \<leftarrow> size_loop s 0 0; v \<leftarrow> us_strings s; Some (n + uv_count v) }"

definition us_isEmpty :: "UnicodeSet \<Rightarrow> bool option" where
  "us_isEmpty s = (if us_len s = 1 then do { v \<leftarrow> us_strings s; Some (uv_count v = 0) } else Some False)"

function contains_ranges :: "(UChar32 \<Rightarrow> UChar32 \<Rightarrow> bool option) \<Rightarrow> UnicodeSet \<Rightarrow> int \<Rightarrow> bool option" where
  "contains_ranges test c i =
     (if i < getRangeCount c then do {
        b \<leftarrow> getRangeStart c i; e \<leftarrow> getRangeEnd c i;
        ok \<leftarrow> test b e;
        if ok then contains_ranges test c (i + 1) else Some False }
      else Some True)"
  by pat_completeness auto
termination by (relation "measure (\<lambda>(t, c, i). nat (getRangeCount c - i))") auto

definition us_containsAll :: "UnicodeSet \<Rightarrow> UnicodeSet \<Rightarrow> bool option" where
  "us_containsAll s c = do {
     ok \<leftarrow> contains_ranges (contains_range s) c 0;
     if \<not> ok then Some False else do { v \<leftarrow> us_strings s; w \<leftarrow> us_strings c; uv_containsAll (=) v w } }"

definition us_containsNone :: "UnicodeSet \<Rightarrow> UnicodeSet \<Rightarrow> bool option" where
  "us_containsNone s c = do {
     ok \<leftarrow> contains_ranges (containsNone_range s) c 0;
     if \<not> ok then Some False else do { v \<leftarrow> us_strings s; w \<leftarrow> us_strings c; uv_containsNone (=) v w } }"

function list_eq_loop :: "UChar32 list \<Rightarrow> UChar32 list \<Rightarrow> int \<Rightarrow> int \<Rightarrow> bool option" where
  "list_eq_loop l m n i =
     (if i < n then do { x \<leftarrow> rd l i; y \<leftarrow> rd m i; if x \<noteq> y then Some False else list_eq_loop l m n (i + 1) }
      else Some True)"
  by pat_completeness auto
termination by (relation "measure (\<lambda>(l, m, n, i). nat (n - i))") auto

definition us_eq :: "UnicodeSet \<Rightarrow> UnicodeSet \<Rightarrow> bool option" where
  "us_eq s other =
     (if us_len s \<noteq> us_len other then Some False
      else do {
        l \<leftarrow> us_list s; m \<leftarrow> us_list other;
        same \<leftarrow> list_eq_loop l m (us_len s) 0;
        if \<not> same then Some False else do { v \<leftarrow> us_strings s; w \<leftarrow> us_strings other; uv_eq v w } })"

function hash_loop :: "UChar32 list \<Rightarrow> int \<Rightarrow> int \<Rightarrow> 32 word \<Rightarrow> 32 word option" where
  "hash_loop l n i result =
     (if i < n then do { x \<leftarrow> rd l i; hash_loop l n (i + 1) (result * 1000003 + word_of_int x) } else Some result)"
  by pat_completeness auto
termination by (relation "measure (\<lambda>(l, n, i, r). nat (n - i))") auto

definition us_hashCode :: "UnicodeSet \<Rightarrow> int option" where
  "us_hashCode s = do { l \<leftarrow> us_list s; h \<leftarrow> hash_loop l (us_len s) 0 (word_of_int (us_len s)); Some (sint h) }"

function indexOf_loop :: "UChar32 list \<Rightarrow> UChar32 \<Rightarrow> int \<Rightarrow> int \<Rightarrow> int option" where
  "indexOf_loop l c i n = do {
     start \<leftarrow> rd l i;
     if c < start then Some (-1)
     else do {
       limit \<leftarrow> rd l (i + 1);
       if c < limit then Some (n + c - start) else indexOf_loop l c (i + 2) (n + (limit - start)) } }"
  by pat_completeness auto
termination by (relation "measure (\<lambda>(l, c, i, n). nat (int (length l) - i))") (auto simp: rd_Some_iff)

definition us_indexOf :: "UnicodeSet \<Rightarrow> UChar32 \<Rightarrow> int option" where
  "us_indexOf s c = (if c < 0 \<or> c > 0x10FFFF then Some (-1) else do { l \<leftarrow> us_list s; indexOf_loop l c 0 0 })"

function charAt_loop :: "UChar32 list \<Rightarrow> int \<Rightarrow> int \<Rightarrow> int \<Rightarrow> UChar32 option" where
  "charAt_loop l len2 i index =
     (if i < len2 then do {
        start \<leftarrow> rd l i;
        limit \<leftarrow> rd l (i + 1);
        let count' = limit - start;
        if index < count' then Some (start + index) else charAt_loop l len2 (i + 2) (index - count') }
      else Some (-1))"
  by pat_completeness auto
termination by (relation "measure (\<lambda>(l, n, i, index). nat (n - i))") auto

definition us_charAt :: "UnicodeSet \<Rightarrow> int \<Rightarrow> UChar32 option" where
  "us_charAt s index =
     (if index \<ge> 0 then do { l \<leftarrow> us_list s; charAt_loop l (us_len s AND NOT 1) 0 index } else Some (-1))"

declare size_loop.simps [simp del] contains_ranges.simps [simp del] list_eq_loop.simps [simp del]
  hash_loop.simps [simp del] indexOf_loop.simps [simp del] charAt_loop.simps [simp del]

section \<open>Merging\<close>

text \<open>The local variables of a merge.\<close>

record Merge =
  mi :: int
  mj :: int
  mk :: int
  ma :: UChar32
  mb :: UChar32
  mbuf :: "UChar32 list"
  mpol :: int

text \<open>\<open>buffer[k++] = x\<close>, \<open>a = list[i++]; polarity ^= 1\<close> and \<open>b = other[j++]; polarity ^= 2\<close>\<close>

definition put :: "UChar32 \<Rightarrow> Merge \<Rightarrow> Merge option" where
  "put x m = do { buf \<leftarrow> wr (mbuf m) (mk m) x; Some (m\<lparr>mk := mk m + 1, mbuf := buf\<rparr>) }"

definition next_a :: "UChar32 list \<Rightarrow> Merge \<Rightarrow> Merge option" where
  "next_a l m = do { x \<leftarrow> rd l (mi m); Some (m\<lparr>mi := mi m + 1, ma := x, mpol := mpol m XOR 1\<rparr>) }"

definition next_b :: "UChar32 list \<Rightarrow> Merge \<Rightarrow> Merge option" where
  "next_b l m = do { x \<leftarrow> rd l (mj m); Some (m\<lparr>mj := mj m + 1, mb := x, mpol := mpol m XOR 2\<rparr>) }"

definition next_both :: "UChar32 list \<Rightarrow> UChar32 list \<Rightarrow> Merge \<Rightarrow> Merge option" where
  "next_both l other m = do { m \<leftarrow> next_a l m; next_b other m }"

text \<open>
  Taking the start of a range in the union: a range that overlaps the last one of the buffer is joined
  with it, and its end is the later one. \<open>start_limit\<close> gives the new \<open>buffer\<close> index, the buffer and
  the new value of \<open>a\<close> or \<open>b\<close>, where \<open>src[i]\<close> is the limit of the range.
\<close>

definition start_limit :: "UChar32 list \<Rightarrow> int \<Rightarrow> UChar32 \<Rightarrow> Merge \<Rightarrow> (int \<times> UChar32 list \<times> UChar32) option" where
  "start_limit src i x m = do {
     back \<leftarrow> (if mk m > 0 then do { y \<leftarrow> rd (mbuf m) (mk m - 1); Some (x \<le> y) } else Some False);
     if back then do {
       lim \<leftarrow> rd src i;
       y \<leftarrow> rd (mbuf m) (mk m - 1);
       Some (mk m - 1, mbuf m, if lim > y then lim else y) }
     else do {
       buf \<leftarrow> wr (mbuf m) (mk m) x;
       lim \<leftarrow> rd src i;
       Some (mk m + 1, buf, lim) } }"

definition start_a :: "UChar32 list \<Rightarrow> Merge \<Rightarrow> Merge option" where
  "start_a l m = do {
     (k, buf, x) \<leftarrow> start_limit l (mi m) (ma m) m;
     Some (m\<lparr>mi := mi m + 1, mk := k, ma := x, mbuf := buf, mpol := mpol m XOR 1\<rparr>) }"

definition start_b :: "UChar32 list \<Rightarrow> Merge \<Rightarrow> Merge option" where
  "start_b other m = do {
     (k, buf, x) \<leftarrow> start_limit other (mj m) (mb m) m;
     Some (m\<lparr>mj := mj m + 1, mk := k, mb := x, mbuf := buf, mpol := mpol m XOR 2\<rparr>) }"

text \<open>One round of a loop: \<open>Inl\<close> leaves it (\<open>goto loop_end\<close>).\<close>

type_synonym merge_step = "UChar32 list \<Rightarrow> UChar32 list \<Rightarrow> Merge \<Rightarrow> (Merge + Merge) option"

definition add_step :: merge_step where
  "add_step l other m =
     (let a = ma m; b = mb m in
      if mpol m = 0 then
        if a < b then map_option Inr (start_a l m)
        else if b < a then map_option Inr (start_b other m)
        else if a = UNICODESET_HIGH then Some (Inl m)
        else map_option Inr (do { m \<leftarrow> start_a l m; next_b other m })
      else if mpol m = 3 then
        if b \<le> a then
          if a = UNICODESET_HIGH then Some (Inl m)
          else map_option Inr (do { m \<leftarrow> put a m; next_both l other m })
        else
          if b = UNICODESET_HIGH then Some (Inl m)
          else map_option Inr (do { m \<leftarrow> put b m; next_both l other m })
      else if mpol m = 1 then
        if a < b then map_option Inr (do { m \<leftarrow> put a m; next_a l m })
        else if b < a then map_option Inr (next_b other m)
        else if a = UNICODESET_HIGH then Some (Inl m)
        else map_option Inr (next_both l other m)
      else if mpol m = 2 then
        if b < a then map_option Inr (do { m \<leftarrow> put b m; next_b other m })
        else if a < b then map_option Inr (next_a l m)
        else if a = UNICODESET_HIGH then Some (Inl m)
        else map_option Inr (next_both l other m)
      else Some (Inr m))"

definition retain_step :: merge_step where
  "retain_step l other m =
     (let a = ma m; b = mb m in
      if mpol m = 0 then
        if a < b then map_option Inr (next_a l m)
        else if b < a then map_option Inr (next_b other m)
        else if a = UNICODESET_HIGH then Some (Inl m)
        else map_option Inr (do { m \<leftarrow> put a m; next_both l other m })
      else if mpol m = 3 then
        if a < b then map_option Inr (do { m \<leftarrow> put a m; next_a l m })
        else if b < a then map_option Inr (do { m \<leftarrow> put b m; next_b other m })
        else if a = UNICODESET_HIGH then Some (Inl m)
        else map_option Inr (do { m \<leftarrow> put a m; next_both l other m })
      else if mpol m = 1 then
        if a < b then map_option Inr (next_a l m)
        else if b < a then map_option Inr (do { m \<leftarrow> put b m; next_b other m })
        else if a = UNICODESET_HIGH then Some (Inl m)
        else map_option Inr (next_both l other m)
      else if mpol m = 2 then
        if b < a then map_option Inr (next_b other m)
        else if a < b then map_option Inr (do { m \<leftarrow> put a m; next_a l m })
        else if a = UNICODESET_HIGH then Some (Inl m)
        else map_option Inr (next_both l other m)
      else Some (Inr m))"

text \<open>\<open>exclusiveOr\<close> looks at the polarity only before its loop, so here it is not used.\<close>

definition xor_step :: merge_step where
  "xor_step l other m =
     (let a = ma m; b = mb m in
      if a < b then map_option Inr (do { m \<leftarrow> put a m; next_a l m })
      else if b < a then map_option Inr (do { m \<leftarrow> put b m; next_b other m })
      else if a \<noteq> UNICODESET_HIGH then map_option Inr (next_both l other m)
      else Some (Inl m))"

partial_function (option) merge_loop ::
  "(Merge \<Rightarrow> (Merge + Merge) option) \<Rightarrow> Merge \<Rightarrow> Merge option" where
  "merge_loop step m =
     Option.bind (step m) (\<lambda>r. case r of Inl m' \<Rightarrow> Some m' | Inr m' \<Rightarrow> merge_loop step m')"

text \<open>
  The three operations: \<open>first\<close> gives the first \<open>b\<close> and the index behind it. The list and the buffer are
  swapped at the end.
\<close>

definition merge_with ::
  "merge_step \<Rightarrow> (UChar32 list \<Rightarrow> (UChar32 \<times> int) option) \<Rightarrow> Heap \<Rightarrow> UnicodeSet \<Rightarrow> UChar32 list \<Rightarrow> int \<Rightarrow> int \<Rightarrow>
     UnicodeSet option" where
  "merge_with step fst_b heap s other otherLen polarity = do {
     (s, status) \<leftarrow> ensureBufferCapacity heap s (us_len s + otherLen) U_ZERO_ERROR;
     if U_FAILURE status then Some s
     else do {
       l \<leftarrow> us_list s;
       buf \<leftarrow> us_buffer s;
       a \<leftarrow> rd l 0;
       (b, j) \<leftarrow> fst_b other;
       m \<leftarrow> merge_loop (step l other) \<lparr>mi = 1, mj = j, mk = 0, ma = a, mb = b, mbuf = buf, mpol = polarity\<rparr>;
       buf \<leftarrow> wr (mbuf m) (mk m) UNICODESET_HIGH;
       Some (releasePattern (swapBuffers (s\<lparr>us_buffer := Some buf, us_len := mk m + 1\<rparr>))) } }"

definition first_b :: "UChar32 list \<Rightarrow> (UChar32 \<times> int) option" where
  "first_b other = do { b \<leftarrow> rd other 0; Some (b, 1) }"

definition exclusiveOr_list :: "Heap \<Rightarrow> UnicodeSet \<Rightarrow> UChar32 list \<Rightarrow> int \<Rightarrow> int \<Rightarrow> UnicodeSet option" where
  "exclusiveOr_list heap s other otherLen polarity =
     (if isFrozen s \<or> isBogus s then Some s
      else merge_with xor_step (\<lambda>other.
        if polarity = 1 \<or> polarity = 2 then do {
          x \<leftarrow> rd other 0;
          if x = UNICODESET_LOW then do { b \<leftarrow> rd other 1; Some (b, 1) } else Some (UNICODESET_LOW, 0) }
        else first_b other) heap s other otherLen polarity)"

definition add_list :: "Heap \<Rightarrow> UnicodeSet \<Rightarrow> UChar32 list option \<Rightarrow> int \<Rightarrow> int \<Rightarrow> UnicodeSet option" where
  "add_list heap s other otherLen polarity =
     (case other of
        None \<Rightarrow> Some s
      | Some ol \<Rightarrow> if isFrozen s \<or> isBogus s then Some s else merge_with add_step first_b heap s ol otherLen polarity)"

definition retain_list :: "Heap \<Rightarrow> UnicodeSet \<Rightarrow> UChar32 list \<Rightarrow> int \<Rightarrow> int \<Rightarrow> UnicodeSet option" where
  "retain_list heap s other otherLen polarity =
     (if isFrozen s \<or> isBogus s then Some s else merge_with retain_step first_b heap s other otherLen polarity)"

section \<open>Changing ranges\<close>

definition us_retain_range :: "Heap \<Rightarrow> UnicodeSet \<Rightarrow> UChar32 \<Rightarrow> UChar32 \<Rightarrow> UnicodeSet option" where
  "us_retain_range heap s start end_cp =
     (let start = pinCodePoint start; end_cp = pinCodePoint end_cp in
      if start \<le> end_cp then retain_list heap s [start, end_cp + 1, UNICODESET_HIGH] 2 0 else us_clear s)"

definition us_remove_range :: "Heap \<Rightarrow> UnicodeSet \<Rightarrow> UChar32 \<Rightarrow> UChar32 \<Rightarrow> UnicodeSet option" where
  "us_remove_range heap s start end_cp =
     (let start = pinCodePoint start; end_cp = pinCodePoint end_cp in
      if start \<le> end_cp then retain_list heap s [start, end_cp + 1, UNICODESET_HIGH] 2 2 else Some s)"

definition us_complement_range :: "Heap \<Rightarrow> UnicodeSet \<Rightarrow> UChar32 \<Rightarrow> UChar32 \<Rightarrow> UnicodeSet option" where
  "us_complement_range heap s start end_cp =
     (if isFrozen s \<or> isBogus s then Some s
      else do {
        let start = pinCodePoint start;
        let end_cp = pinCodePoint end_cp;
        s \<leftarrow> (if start \<le> end_cp then exclusiveOr_list heap s [start, end_cp + 1, UNICODESET_HIGH] 2 0 else Some s);
        Some (releasePattern s) })"

definition us_set :: "Heap \<Rightarrow> UnicodeSet \<Rightarrow> UChar32 \<Rightarrow> UChar32 \<Rightarrow> UnicodeSet option" where
  "us_set heap s start end_cp = do { s \<leftarrow> us_clear s; us_complement_range heap s start end_cp }"

definition us_complement :: "Heap \<Rightarrow> UnicodeSet \<Rightarrow> UnicodeSet option" where
  "us_complement heap s =
     (if isFrozen s \<or> isBogus s then Some s
      else do {
        l \<leftarrow> us_list s;
        x \<leftarrow> rd l 0;
        if x = UNICODESET_LOW then do {
          (s, status) \<leftarrow> ensureBufferCapacity heap s (us_len s - 1) U_ZERO_ERROR;
          if U_FAILURE status then Some s
          else do {
            buf \<leftarrow> us_buffer s;
            buf \<leftarrow> copy_cells buf 0 l 1 (us_len s - 1);
            Some (releasePattern (swapBuffers (s\<lparr>us_buffer := Some buf, us_len := us_len s - 1\<rparr>))) } }
        else do {
          (s, status) \<leftarrow> ensureBufferCapacity heap s (us_len s + 1) U_ZERO_ERROR;
          if U_FAILURE status then Some s
          else do {
            buf \<leftarrow> us_buffer s;
            buf \<leftarrow> copy_cells buf 1 l 0 (us_len s);
            buf \<leftarrow> wr buf 0 UNICODESET_LOW;
            Some (releasePattern (swapBuffers (s\<lparr>us_buffer := Some buf, us_len := us_len s + 1\<rparr>))) } } })"

section \<open>Adding one code point\<close>

text \<open>The case in which the code point is in front of the next range; the ranges may become one.\<close>

definition add_collapse :: "UnicodeSet \<Rightarrow> int \<Rightarrow> UChar32 \<Rightarrow> UnicodeSet option" where
  "add_collapse s i c = do {
     l \<leftarrow> us_list s;
     collapse \<leftarrow> (if i > 0 then do { y \<leftarrow> rd l (i - 1); Some (c = y) } else Some False);
     if collapse then do {
       l \<leftarrow> memmove l (i - 1) (i + 1) (us_len s - (i + 1));
       Some (releasePattern (s\<lparr>us_list := Some l, us_len := us_len s - 2\<rparr>)) }
     else Some (releasePattern s) }"

definition add_before :: "Heap \<Rightarrow> UnicodeSet \<Rightarrow> UChar32 list \<Rightarrow> int \<Rightarrow> UChar32 \<Rightarrow> UnicodeSet option" where
  "add_before heap s l i c = do {
     l \<leftarrow> wr l i c;
     let s = s\<lparr>us_list := Some l\<rparr>;
     (s, status) \<leftarrow> (if c = UNICODESET_HIGH - 1 then do {
         (s, status) \<leftarrow> ensureCapacity heap s (us_len s + 1) U_ZERO_ERROR;
         if U_FAILURE status then Some (s, status)
         else do {
           l \<leftarrow> us_list s;
           l \<leftarrow> wr l (us_len s) UNICODESET_HIGH;
           Some (s\<lparr>us_list := Some l, us_len := us_len s + 1\<rparr>, status) } }
       else Some (s, U_ZERO_ERROR));
     if U_FAILURE status then Some s else add_collapse s i c }"

text \<open>The case of a new range.\<close>

definition add_new :: "Heap \<Rightarrow> UnicodeSet \<Rightarrow> int \<Rightarrow> UChar32 \<Rightarrow> UnicodeSet option" where
  "add_new heap s i c = do {
     (s, status) \<leftarrow> ensureCapacity heap s (us_len s + 2) U_ZERO_ERROR;
     if U_FAILURE status then Some s
     else do {
       l \<leftarrow> us_list s;
       l \<leftarrow> memmove l (i + 2) i (us_len s - i);
       l \<leftarrow> wr l i c;
       l \<leftarrow> wr l (i + 1) (c + 1);
       Some (releasePattern (s\<lparr>us_list := Some l, us_len := us_len s + 2\<rparr>)) } }"

definition us_add :: "Heap \<Rightarrow> UnicodeSet \<Rightarrow> UChar32 \<Rightarrow> UnicodeSet option" where
  "us_add heap s c = do {
     let c = pinCodePoint c;
     i \<leftarrow> findCodePoint s c;
     if i AND 1 \<noteq> 0 \<or> isFrozen s \<or> isBogus s then Some s
     else do {
       l \<leftarrow> us_list s;
       x \<leftarrow> rd l i;
       if c = x - 1 then add_before heap s l i c
       else do {
         after \<leftarrow> (if i > 0 then do { y \<leftarrow> rd l (i - 1); Some (c = y) } else Some False);
         if after then do {
           l \<leftarrow> wr l (i - 1) (c + 1);
           Some (releasePattern (s\<lparr>us_list := Some l\<rparr>)) }
         else add_new heap s i c } } }"

definition us_add_range :: "Heap \<Rightarrow> UnicodeSet \<Rightarrow> UChar32 \<Rightarrow> UChar32 \<Rightarrow> UnicodeSet option" where
  "us_add_range heap s start end_cp =
     (let start = pinCodePoint start; end_cp = pinCodePoint end_cp in
      if start < end_cp then add_list heap s (Some [start, end_cp + 1, UNICODESET_HIGH]) 2 0
      else if start = end_cp then us_add heap s start
      else Some s)"

section \<open>Strings\<close>

definition char32At :: "u16 list \<Rightarrow> int \<Rightarrow> UChar32 option" where
  "char32At s offset =
     (if 0 \<le> offset \<and> offset < int (length s) then U16_GET s 0 offset (int (length s)) else Some 0xffff)"

definition getSingleCP :: "u16 list \<Rightarrow> UChar32 option" where
  "getSingleCP s =
     (if length s > 2 then Some (-1)
      else if length s = 1 then map_option uint (rd s 0)
      else do { cp \<leftarrow> char32At s 0; Some (if cp > 0xFFFF then cp else -1) })"

definition us_insert_string :: "Heap \<Rightarrow> UnicodeSet \<Rightarrow> u16 list \<Rightarrow> UnicodeSet option" where
  "us_insert_string heap s str =
     (if isFrozen s \<or> isBogus s then Some s
      else if \<not> heap_string heap then setToBogus s
      else do {
        v \<leftarrow> us_strings s;
        (v, ec) \<leftarrow> sortedInsert (heap_slots heap) v (Some str) compareUnicodeString U_ZERO_ERROR;
        let s = s\<lparr>us_strings := Some v\<rparr>;
        if U_FAILURE ec then setToBogus s else Some s })"

definition contains_string :: "UnicodeSet \<Rightarrow> u16 list \<Rightarrow> bool option" where
  "contains_string s str =
     (if str = [] then Some False
      else do {
        cp \<leftarrow> getSingleCP str;
        if cp < 0 then do { v \<leftarrow> us_strings s; uv_contains v (Some str) } else us_contains s cp })"

definition us_add_string :: "Heap \<Rightarrow> UnicodeSet \<Rightarrow> u16 list \<Rightarrow> UnicodeSet option" where
  "us_add_string heap s str =
     (if str = [] \<or> isFrozen s \<or> isBogus s then Some s
      else do {
        cp \<leftarrow> getSingleCP str;
        if cp < 0 then do {
          v \<leftarrow> us_strings s;
          has \<leftarrow> uv_contains v (Some str);
          if \<not> has then do { s \<leftarrow> us_insert_string heap s str; Some (releasePattern s) } else Some s }
        else us_add heap s cp })"

definition us_remove_string :: "Heap \<Rightarrow> UnicodeSet \<Rightarrow> u16 list \<Rightarrow> UnicodeSet option" where
  "us_remove_string heap s str =
     (if str = [] \<or> isFrozen s \<or> isBogus s then Some s
      else do {
        cp \<leftarrow> getSingleCP str;
        if cp < 0 then do {
          v \<leftarrow> us_strings s;
          (v, found) \<leftarrow> removeElement v (Some str);
          Some (releasePattern (s\<lparr>us_strings := Some v\<rparr>)) }
        else us_remove_range heap s cp cp })"

definition us_complement_string :: "Heap \<Rightarrow> UnicodeSet \<Rightarrow> u16 list \<Rightarrow> UnicodeSet option" where
  "us_complement_string heap s str =
     (if str = [] \<or> isFrozen s \<or> isBogus s then Some s
      else do {
        cp \<leftarrow> getSingleCP str;
        if cp < 0 then do {
          v \<leftarrow> us_strings s;
          has \<leftarrow> uv_contains v (Some str);
          s \<leftarrow> (if has then do { (v, found) \<leftarrow> removeElement v (Some str); Some (s\<lparr>us_strings := Some v\<rparr>) }
                else us_insert_string heap s str);
          Some (releasePattern s) }
        else us_complement_range heap s cp cp })"

function add_chars :: "Heap \<Rightarrow> UnicodeSet \<Rightarrow> u16 list \<Rightarrow> int \<Rightarrow> UnicodeSet option" where
  "add_chars heap s str i =
     (if i < int (length str) then do {
        cp \<leftarrow> char32At str i;
        s \<leftarrow> us_add heap s cp;
        add_chars heap s str (i + U16_LENGTH cp) }
      else Some s)"
  by pat_completeness auto
termination by (relation "measure (\<lambda>(heap, s, str, i). nat (int (length str) - i))") (auto simp: U16_LENGTH_def)

declare add_chars.simps [simp del]

definition us_addAll_string :: "Heap \<Rightarrow> UnicodeSet \<Rightarrow> u16 list \<Rightarrow> UnicodeSet option" where
  "us_addAll_string heap s str = add_chars heap s str 0"

definition us_removeAllStrings :: "UnicodeSet \<Rightarrow> UnicodeSet option" where
  "us_removeAllStrings s = do {
     v \<leftarrow> us_strings s; v \<leftarrow> uv_removeAllElements v; Some (s\<lparr>us_strings := Some v\<rparr>) }"

section \<open>Operations with another set\<close>

function add_strings :: "Heap \<Rightarrow> UnicodeSet \<Rightarrow> u16 list UVector \<Rightarrow> int \<Rightarrow> UnicodeSet option" where
  "add_strings heap s w i =
     (if i < uv_count w then do {
        x \<leftarrow> elementAt w i;
        str \<leftarrow> x;
        v \<leftarrow> us_strings s;
        has \<leftarrow> uv_contains v (Some str);
        s \<leftarrow> (if \<not> has then us_insert_string heap s str else Some s);
        add_strings heap s w (i + 1) }
      else Some s)"
  by pat_completeness auto
termination by (relation "measure (\<lambda>(heap, s, w, i). nat (uv_count w - i))") auto

definition us_addAll :: "Heap \<Rightarrow> UnicodeSet \<Rightarrow> UnicodeSet \<Rightarrow> UnicodeSet option" where
  "us_addAll heap s c = do {
     s \<leftarrow> (if us_len c > 0 \<and> us_list c \<noteq> None then add_list heap s (us_list c) (us_len c) 0 else Some s);
     (case us_strings c of None \<Rightarrow> Some s | Some w \<Rightarrow> add_strings heap s w 0) }"

definition us_retainAll :: "Heap \<Rightarrow> UnicodeSet \<Rightarrow> UnicodeSet \<Rightarrow> UnicodeSet option" where
  "us_retainAll heap s c =
     (if isFrozen s \<or> isBogus s then Some s
      else do {
        cl \<leftarrow> us_list c;
        s \<leftarrow> retain_list heap s cl (us_len c) 0;
        v \<leftarrow> us_strings s; w \<leftarrow> us_strings c;
        (v, changed) \<leftarrow> uv_retainAll (=) v w;
        Some (s\<lparr>us_strings := Some v\<rparr>) })"

definition us_removeAll :: "Heap \<Rightarrow> UnicodeSet \<Rightarrow> UnicodeSet \<Rightarrow> UnicodeSet option" where
  "us_removeAll heap s c =
     (if isFrozen s \<or> isBogus s then Some s
      else do {
        cl \<leftarrow> us_list c;
        s \<leftarrow> retain_list heap s cl (us_len c) 2;
        v \<leftarrow> us_strings s; w \<leftarrow> us_strings c;
        (v, changed) \<leftarrow> uv_removeAll (=) v w;
        Some (s\<lparr>us_strings := Some v\<rparr>) })"

function complement_strings :: "Heap \<Rightarrow> UnicodeSet \<Rightarrow> u16 list UVector \<Rightarrow> int \<Rightarrow> UnicodeSet option" where
  "complement_strings heap s w i =
     (if i < uv_count w then do {
        x \<leftarrow> elementAt w i;
        v \<leftarrow> us_strings s;
        (v, found) \<leftarrow> removeElement v x;
        let s = s\<lparr>us_strings := Some v\<rparr>;
        s \<leftarrow> (if \<not> found then do { str \<leftarrow> x; us_insert_string heap s str } else Some s);
        complement_strings heap s w (i + 1) }
      else Some s)"
  by pat_completeness auto
termination by (relation "measure (\<lambda>(heap, s, w, i). nat (uv_count w - i))") auto

declare add_strings.simps [simp del] complement_strings.simps [simp del]

definition us_complementAll :: "Heap \<Rightarrow> UnicodeSet \<Rightarrow> UnicodeSet \<Rightarrow> UnicodeSet option" where
  "us_complementAll heap s c =
     (if isFrozen s \<or> isBogus s then Some s
      else do {
        cl \<leftarrow> us_list c;
        s \<leftarrow> exclusiveOr_list heap s cl (us_len c) 0;
        w \<leftarrow> us_strings c;
        complement_strings heap s w 0 })"

section \<open>Construction, copies and compaction\<close>

definition raw_set :: "int \<Rightarrow> int \<Rightarrow> UnicodeSet" where
  "raw_set len capacity = \<lparr>us_len = len, us_capacity = capacity, us_list = None, us_frozen = False, us_buffer = None,
     us_bufferCapacity = 0, us_pat = None, us_strings = None, us_bogus = False\<rparr>"

text \<open>The part that the constructors share: the strings, the array, and what follows with it.\<close>

definition construct :: "Heap \<Rightarrow> UnicodeSet \<Rightarrow> (UnicodeSet \<Rightarrow> UnicodeSet option) \<Rightarrow> UnicodeSet option" where
  "construct heap s cont =
     (let (s, status) = allocateStrings heap s U_ZERO_ERROR in
      if U_FAILURE status then Some s
      else case heap_cells heap (us_capacity s) of
        None \<Rightarrow> setToBogus s
      | Some l \<Rightarrow> cont (s\<lparr>us_list := Some l\<rparr>))"

definition set_high :: "UnicodeSet \<Rightarrow> UnicodeSet option" where
  "set_high s = do { l \<leftarrow> us_list s; l \<leftarrow> wr l 0 UNICODESET_HIGH; Some (s\<lparr>us_list := Some l\<rparr>) }"

definition new_UnicodeSet :: "Heap \<Rightarrow> UnicodeSet option" where
  "new_UnicodeSet heap = construct heap (raw_set 1 (1 + START_EXTRA)) set_high"

definition new_UnicodeSet_range :: "Heap \<Rightarrow> UChar32 \<Rightarrow> UChar32 \<Rightarrow> UnicodeSet option" where
  "new_UnicodeSet_range heap start end_cp = construct heap (raw_set 1 (1 + START_EXTRA))
     (\<lambda>s. do { s \<leftarrow> set_high s; us_complement_range heap s start end_cp })"

definition copy_list :: "UnicodeSet \<Rightarrow> UnicodeSet \<Rightarrow> UnicodeSet option" where
  "copy_list s other = do {
     l \<leftarrow> us_list s; m \<leftarrow> us_list other;
     l \<leftarrow> copy_cells l 0 m 0 (us_len other);
     Some (s\<lparr>us_len := us_len other, us_list := Some l\<rparr>) }"

text \<open>\<open>operator=\<close>, when the other set is not frozen.\<close>

definition us_assign :: "Heap \<Rightarrow> UnicodeSet \<Rightarrow> UnicodeSet \<Rightarrow> UnicodeSet option" where
  "us_assign heap s other =
     (if isFrozen s then Some s
      else if isBogus other then setToBogus s
      else do {
        (s, ec) \<leftarrow> ensureCapacity heap s (us_len other) U_ZERO_ERROR;
        if U_FAILURE ec then Some s
        else do {
          s \<leftarrow> copy_list s other;
          (case (us_strings s, us_strings other) of
             (Some v, Some w) \<Rightarrow> do {
               (v, ec) \<leftarrow> uv_assign (heap_slots heap) v w (cloneUnicodeString heap) ec;
               Some ((releasePattern (s\<lparr>us_strings := Some v\<rparr>))\<lparr>us_pat := us_pat other\<rparr>) }
           | _ \<Rightarrow> setToBogus s) } })"

definition new_UnicodeSet_copy :: "Heap \<Rightarrow> UnicodeSet \<Rightarrow> UnicodeSet option" where
  "new_UnicodeSet_copy heap other =
     construct heap (raw_set 0 (if isFrozen other then us_len other else us_len other + GROW_EXTRA)) (\<lambda>s. us_assign heap s other)"

definition us_compact :: "Heap \<Rightarrow> UnicodeSet \<Rightarrow> UnicodeSet option" where
  "us_compact heap s =
     (if isFrozen s \<or> isBogus s then Some s
      else
        let s = s\<lparr>us_buffer := None\<rparr> in
        if us_len s < us_capacity s then
          let newCapacity = us_len s + of_bool (us_len s = 0) in
          case us_grow heap (us_list s) newCapacity of
            Some temp \<Rightarrow> Some (s\<lparr>us_list := Some temp, us_capacity := newCapacity\<rparr>)
          | None \<Rightarrow> Some s
        else Some s)"

section \<open>Serialization\<close>

text \<open>The units of the serialized form.\<close>

function bmp_count :: "UChar32 list \<Rightarrow> int \<Rightarrow> int \<Rightarrow> int option" where
  "bmp_count l i n =
     (if i < n then do { x \<leftarrow> rd l i; if x \<le> 0xffff then bmp_count l (i + 1) n else Some i } else Some i)"
  by pat_completeness auto
termination by (relation "measure (\<lambda>(l, i, n). nat (n - i))") auto

function write_bmp :: "u16 list \<Rightarrow> int \<Rightarrow> UChar32 list \<Rightarrow> int \<Rightarrow> int \<Rightarrow> u16 list option" where
  "write_bmp dest d l i bmpLength =
     (if i < bmpLength then do {
        x \<leftarrow> rd l i; dest \<leftarrow> wr dest d (word_of_int x); write_bmp dest (d + 1) l (i + 1) bmpLength }
      else Some dest)"
  by pat_completeness auto
termination by (relation "measure (\<lambda>(dest, d, l, i, n). nat (n - i))") auto

text \<open>\<open>i\<close> counts units and \<open>p\<close> is the index in the list.\<close>

function write_supp :: "u16 list \<Rightarrow> int \<Rightarrow> UChar32 list \<Rightarrow> int \<Rightarrow> int \<Rightarrow> int \<Rightarrow> u16 list option" where
  "write_supp dest d l p i units =
     (if i < units then do {
        x \<leftarrow> rd l p;
        dest \<leftarrow> wr dest d (word_of_int (drop_bit 16 x));
        dest \<leftarrow> wr dest (d + 1) (word_of_int x);
        write_supp dest (d + 2) l (p + 1) (i + 2) units }
      else Some dest)"
  by pat_completeness auto
termination by (relation "measure (\<lambda>(dest, d, l, p, i, n). nat (n - i))") auto

declare bmp_count.simps [simp del] write_bmp.simps [simp del] write_supp.simps [simp del]

text \<open>\<open>dest\<close> has at least \<open>destCapacity\<close> units. The result is the memory, the length and the error.\<close>

definition us_serialize ::
  "UnicodeSet \<Rightarrow> u16 list option \<Rightarrow> int \<Rightarrow> UErrorCode \<Rightarrow> (u16 list option \<times> int \<times> UErrorCode) option" where
  "us_serialize s dest destCapacity ec =
     (if U_FAILURE ec then Some (dest, 0, ec)
      else if destCapacity < 0 \<or> (destCapacity > 0 \<and> dest = None) then Some (dest, 0, U_ILLEGAL_ARGUMENT_ERROR)
      else
        let n = us_len s - 1 in
        if n = 0 then
          if destCapacity > 0 then do { d \<leftarrow> dest; d \<leftarrow> wr d 0 0; Some (Some d, 1, ec) }
          else Some (dest, 1, U_BUFFER_OVERFLOW_ERROR)
        else do {
          l \<leftarrow> us_list s;
          highest \<leftarrow> rd l (n - 1);
          lowest \<leftarrow> rd l 0;
          bmpLength \<leftarrow> (if highest \<le> 0xffff then Some n
                       else if lowest \<ge> 0x10000 then Some 0
                       else bmp_count l 0 n);
          let units = bmpLength + 2 * (n - bmpLength);
          if units > 0x7fff then Some (dest, 0, U_INDEX_OUTOFBOUNDS_ERROR)
          else
            let header = (if units > bmpLength then 2 else 1);
                destLength = units + header in
            if destLength \<le> destCapacity then do {
              d \<leftarrow> dest;
              d \<leftarrow> wr d 0 (if units > bmpLength then word_of_int units OR 0x8000 else word_of_int units);
              d \<leftarrow> (if units > bmpLength then wr d 1 (word_of_int bmpLength) else Some d);
              d \<leftarrow> write_bmp d header l 0 bmpLength;
              d \<leftarrow> write_supp d (header + bmpLength) l bmpLength bmpLength units;
              Some (Some d, destLength, ec) }
            else Some (dest, destLength, U_BUFFER_OVERFLOW_ERROR) })"

function read_bmp :: "UChar32 list \<Rightarrow> u16 list \<Rightarrow> int \<Rightarrow> int \<Rightarrow> int \<Rightarrow> UChar32 list option" where
  "read_bmp l data headerSize i bmpLength =
     (if i < bmpLength then do {
        x \<leftarrow> rd data (i + headerSize); l \<leftarrow> wr l i (uint x); read_bmp l data headerSize (i + 1) bmpLength }
      else Some l)"
  by pat_completeness auto
termination by (relation "measure (\<lambda>(l, data, h, i, n). nat (n - i))") auto

function read_supp :: "UChar32 list \<Rightarrow> u16 list \<Rightarrow> int \<Rightarrow> int \<Rightarrow> int \<Rightarrow> int \<Rightarrow> UChar32 list option" where
  "read_supp l data headerSize bmpLength i n =
     (if i < n then do {
        hi \<leftarrow> rd data (headerSize + bmpLength + (i - bmpLength) * 2);
        lo \<leftarrow> rd data (headerSize + bmpLength + (i - bmpLength) * 2 + 1);
        l \<leftarrow> wr l i (push_bit 16 (uint hi) + uint lo);
        read_supp l data headerSize bmpLength (i + 1) n }
      else Some l)"
  by pat_completeness auto
termination by (relation "measure (\<lambda>(l, data, h, b, i, n). nat (n - i))") auto

declare read_bmp.simps [simp del] read_supp.simps [simp del]

text \<open>The constructor from data; \<open>serialized\<close> says that the kind of serialization is \<open>kSerialized\<close>.\<close>

definition us_deserialize :: "Heap \<Rightarrow> u16 list option \<Rightarrow> int \<Rightarrow> bool \<Rightarrow> UErrorCode \<Rightarrow> (UnicodeSet \<times> UErrorCode) option" where
  "us_deserialize heap dat dataLen serialized ec =
     (let s = raw_set 1 (1 + START_EXTRA) in
      if U_FAILURE ec then do { s \<leftarrow> setToBogus s; Some (s, ec) }
      else case dat of
        None \<Rightarrow> do { s \<leftarrow> setToBogus s; Some (s, U_ILLEGAL_ARGUMENT_ERROR) }
      | Some data \<Rightarrow>
          if \<not> serialized \<or> dataLen < 1 then do { s \<leftarrow> setToBogus s; Some (s, U_ILLEGAL_ARGUMENT_ERROR) }
          else
            let (s, ec) = allocateStrings heap s ec in
            if U_FAILURE ec then do { s \<leftarrow> setToBogus s; Some (s, ec) }
            else do {
              d0 \<leftarrow> rd data 0;
              let headerSize = (if d0 AND 0x8000 \<noteq> 0 then 2 else 1);
              bmpLength \<leftarrow> map_option uint (if headerSize = 1 then Some d0 else rd data 1);
              let len = (uint (d0 AND 0x7FFF) - bmpLength) sdiv 2 + bmpLength;
              let s = s\<lparr>us_len := len, us_capacity := len + 1\<rparr>;
              (case heap_cells heap (len + 1) of
                 None \<Rightarrow> do { s \<leftarrow> setToBogus s; Some (s, ec) }
               | Some l \<Rightarrow> do {
                   l \<leftarrow> read_bmp l data headerSize 0 bmpLength;
                   l \<leftarrow> read_supp l data headerSize bmpLength bmpLength len;
                   l \<leftarrow> wr l len UNICODESET_HIGH;
                   Some (s\<lparr>us_list := Some l, us_len := len + 1\<rparr>, ec) }) })"
end
