(* ===== verification/UniSetMerge.thy ===== *)
theory UniSetMerge
  imports UniSet
begin

text \<open>
  The merging loops of \<open>UniSet\<close> over inversion lists.  \<open>retain\<close> and \<open>exclusiveOr\<close> are sweeps: the locale \<open>sweep\<close>
  states what a round does with the smaller of the two elements, its interpretations are the two step functions, and
  \<open>merge_loop_sets\<close> gives the result as a set.  The union of \<open>add\<close> joins ranges in its buffer, so it has its own
  invariant \<open>joined\<close>: the closed ranges of the buffer and the ranges still open make up the union so far.
\<close>

section \<open>Inversion lists\<close>

text \<open>The set of code points of an inversion list.\<close>

fun ranges :: "int list \<Rightarrow> int set" where
  "ranges (x # y # xs) = {x..<y} \<union> ranges xs"
| "ranges _ = {}"

definition inv_list :: "int list \<Rightarrow> bool" where
  "inv_list xs \<longleftrightarrow> sorted_wrt (<) xs \<and> xs \<noteq> [] \<and> last xs = UNICODESET_HIGH \<and> (\<forall>x \<in> set xs. 0 \<le> x)"

text \<open>Whether an odd number of elements is not greater than \<open>c\<close>.\<close>

definition below :: "int list \<Rightarrow> int \<Rightarrow> bool" where
  "below xs c \<longleftrightarrow> odd (length (filter (\<lambda>x. x \<le> c) xs))"

lemma below_simps [simp]:
  "below [] c = False" "below (x # xs) c = (below xs c \<noteq> (x \<le> c))" "below (xs @ ys) c = (below xs c \<noteq> below ys c)"
  by (auto simp: below_def)

lemma below_none: "\<forall>x \<in> set xs. c < x \<Longrightarrow> \<not> below xs c"
  by (induction xs) auto

lemma below_all: "\<forall>x \<in> set xs. x \<le> c \<Longrightarrow> below xs c = odd (length xs)"
  by (induction xs) auto

lemma below_ranges: "sorted_wrt (<) xs \<Longrightarrow> xs \<noteq> [] \<Longrightarrow> c < last xs \<Longrightarrow> below xs c \<longleftrightarrow> c \<in> ranges xs"
proof (induction xs rule: ranges.induct)
  case (1 x y xs)
  show ?case
  proof (cases "xs = []")
    case True
    then show ?thesis using 1 by auto
  next
    case False
    have gt: "\<forall>z \<in> set xs. y < z" "x < y" using 1 by auto
    show ?thesis
    proof (cases "c < y")
      case True
      then have "\<forall>z \<in> set xs. c < z" using gt by force
      then have "\<not> below xs c" by (rule below_none)
      moreover have "c \<notin> ranges xs" using 1 False \<open>\<not> below xs c\<close> by simp
      ultimately show ?thesis using True by auto
    next
      case False
      then show ?thesis using 1 \<open>xs \<noteq> []\<close> gt by auto
    qed
  qed
qed auto

lemma sorted_last: "sorted_wrt (<) (x # xs) \<Longrightarrow> xs \<noteq> [] \<Longrightarrow> x < (last xs :: int)"
  using last_in_set [of xs] by auto

lemma sorted_high:
  assumes "sorted_wrt (<) (La @ a # RA)" "last (a # RA) = h"
  shows "a \<le> (h :: int)" "a = h \<longleftrightarrow> RA = []"
  using sorted_last [of a RA] assms by (cases "RA = []"; auto simp: sorted_wrt_append)+

lemma ranges_bounds: "sorted_wrt (<) xs \<Longrightarrow> c \<in> ranges xs \<Longrightarrow> xs \<noteq> [] \<and> hd xs \<le> c \<and> c < last xs"
proof (induction xs rule: ranges.induct)
  case (1 x y xs)
  show ?case
  proof (cases "c \<in> ranges xs")
    case True
    then have "xs \<noteq> []" "hd xs \<le> c" "c < last xs" using 1 by auto
    then show ?thesis using 1(2) by (cases xs) auto
  next
    case False
    then have c: "x \<le> c" "c < y" using 1(3) by auto
    have "y < last xs" if "xs \<noteq> []" by (rule sorted_last [OF _ that]) (use 1(2) in simp)
    then have "y \<le> last (y # xs)" by (cases "xs = []") auto
    then show ?thesis using c by simp
  qed
qed auto

lemma inv_list_ranges: "inv_list xs \<Longrightarrow> c \<in> ranges xs \<longleftrightarrow> 0 \<le> c \<and> c < UNICODESET_HIGH \<and> below xs c"
  using ranges_bounds [of xs c] below_ranges [of xs c] by (force simp: inv_list_def neq_Nil_conv)

lemma ranges_append_even: "even (length xs) \<Longrightarrow> ranges (xs @ ys) = ranges xs \<union> ranges ys"
  by (induction xs rule: ranges.induct) auto

lemma inv_list_snoc:
  "sorted_wrt (<) (K @ [UNICODESET_HIGH]) \<Longrightarrow> \<forall>x \<in> set K. 0 \<le> x \<Longrightarrow> inv_list (K @ [UNICODESET_HIGH])"
  by (auto simp: inv_list_def UNICODESET_HIGH_def)

section \<open>The merge as a sweep\<close>

definition pol :: "bool \<Rightarrow> bool \<Rightarrow> int" where
  "pol p q = of_bool p + 2 * of_bool q"

lemma pol_simps [simp]:
  "pol False False = 0" "pol True False = 1" "pol False True = 2" "pol True True = 3"
  "pol p q XOR 1 = pol (\<not> p) q" "pol p q XOR 2 = pol p (\<not> q)"
  by (cases p; cases q; simp add: pol_def)+

lemma put_ok [simp]:
  "put x \<lparr>mi = i, mj = j, mk = int (length K), ma = a, mb = b, mbuf = K @ t # T, mpol = p\<rparr> =
     Some \<lparr>mi = i, mj = j, mk = int (length (K @ [x])), ma = a, mb = b, mbuf = (K @ [x]) @ T, mpol = p\<rparr>"
  by (simp add: put_def wr_Some_iff)

lemma next_a_ok:
  "next_a (L @ x # R) \<lparr>mi = int (length L), mj = j, mk = k, ma = a, mb = b, mbuf = buf, mpol = pol p q\<rparr> =
     Some \<lparr>mi = int (length L) + 1, mj = j, mk = k, ma = x, mb = b, mbuf = buf, mpol = pol (\<not> p) q\<rparr>"
  by (simp add: next_a_def rd_Some_iff)

lemma next_b_ok:
  "next_b (L @ x # R) \<lparr>mi = i, mj = int (length L), mk = k, ma = a, mb = b, mbuf = buf, mpol = pol p q\<rparr> =
     Some \<lparr>mi = i, mj = int (length L) + 1, mk = k, ma = a, mb = x, mbuf = buf, mpol = pol p (\<not> q)\<rparr>"
  by (simp add: next_b_def rd_Some_iff)

text \<open>
  A merge that keeps a bound exactly where the value of \<open>f\<close>, of being inside the first and the second set,
  changes.
\<close>

locale sweep =
  fixes step :: merge_step and f :: "bool \<Rightarrow> bool \<Rightarrow> bool"
  assumes step_end: "ma m = UNICODESET_HIGH \<Longrightarrow> mb m = UNICODESET_HIGH \<Longrightarrow> mpol m = pol p q \<Longrightarrow> step l other m = Some (Inl m)"
    and step_a: "ma m < mb m \<Longrightarrow> mpol m = pol p q \<Longrightarrow> step l other m =
      map_option Inr (do { m \<leftarrow> (if f (\<not> p) q \<noteq> f p q then put (ma m) m else Some m); next_a l m })"
    and step_b: "mb m < ma m \<Longrightarrow> mpol m = pol p q \<Longrightarrow> step l other m =
      map_option Inr (do { m \<leftarrow> (if f p (\<not> q) \<noteq> f p q then put (mb m) m else Some m); next_b other m })"
    and step_both: "ma m = mb m \<Longrightarrow> ma m \<noteq> UNICODESET_HIGH \<Longrightarrow> mpol m = pol p q \<Longrightarrow> step l other m =
      map_option Inr (do { m \<leftarrow> (if f (\<not> p) (\<not> q) \<noteq> f p q then put (ma m) m else Some m); next_both l other m })"

interpretation intersection: sweep retain_step "\<lambda>p q. p \<and> q"
proof
  fix m l other p q
  show "ma m = UNICODESET_HIGH \<Longrightarrow> mb m = UNICODESET_HIGH \<Longrightarrow> mpol m = pol p q \<Longrightarrow> retain_step l other m = Some (Inl m)"
    by (cases p; cases q; simp add: retain_step_def)
  show "ma m < mb m \<Longrightarrow> mpol m = pol p q \<Longrightarrow> retain_step l other m =
      map_option Inr (do { m \<leftarrow> (if (\<not> p \<and> q) \<noteq> (p \<and> q) then put (ma m) m else Some m); next_a l m })"
    by (cases p; cases q; simp add: retain_step_def)
  show "mb m < ma m \<Longrightarrow> mpol m = pol p q \<Longrightarrow> retain_step l other m =
      map_option Inr (do { m \<leftarrow> (if (p \<and> \<not> q) \<noteq> (p \<and> q) then put (mb m) m else Some m); next_b other m })"
    by (cases p; cases q; simp add: retain_step_def)
  show "ma m = mb m \<Longrightarrow> ma m \<noteq> UNICODESET_HIGH \<Longrightarrow> mpol m = pol p q \<Longrightarrow> retain_step l other m =
      map_option Inr (do { m \<leftarrow> (if (\<not> p \<and> \<not> q) \<noteq> (p \<and> q) then put (ma m) m else Some m); next_both l other m })"
    by (cases p; cases q; simp add: retain_step_def)
qed

interpretation symmetric: sweep xor_step "\<lambda>p q. p \<noteq> q"
  by standard (auto simp: xor_step_def)

context sweep
begin

text \<open>
  The invariant: the bounds before \<open>a\<close> and \<open>b\<close> have been seen, and below both the buffer is right.
\<close>

definition swept :: "bool \<Rightarrow> bool \<Rightarrow> int list \<Rightarrow> int \<Rightarrow> int list \<Rightarrow> int list \<Rightarrow> int \<Rightarrow> int list \<Rightarrow> int list \<Rightarrow> bool" where
  "swept p0 q0 La a RA Ob b RB K \<longleftrightarrow>
     sorted_wrt (<) (La @ a # RA) \<and> last (a # RA) = UNICODESET_HIGH \<and>
     sorted_wrt (<) (Ob @ b # RB) \<and> last (b # RB) = UNICODESET_HIGH \<and>
     sorted_wrt (<) K \<and> (\<forall>y \<in> set K \<union> set La \<union> set Ob. y < a \<and> y < b) \<and>
     (odd (length K) \<longleftrightarrow> f (odd (length La) \<noteq> p0) (odd (length Ob) \<noteq> q0) \<noteq> f p0 q0) \<and>
     (\<forall>y \<in> set K. 0 \<le> y) \<and> 0 \<le> a \<and> 0 \<le> b \<and>
     (\<forall>c. c < a \<longrightarrow> c < b \<longrightarrow> below K c = (f (below La c \<noteq> p0) (below Ob c \<noteq> q0) \<noteq> f p0 q0))"

lemma swept_high:
  assumes "swept p0 q0 La a RA Ob b RB K"
  shows "a \<le> UNICODESET_HIGH" "b \<le> UNICODESET_HIGH" "a = UNICODESET_HIGH \<longleftrightarrow> RA = []" "b = UNICODESET_HIGH \<longleftrightarrow> RB = []"
  using sorted_high [of La a RA UNICODESET_HIGH] sorted_high [of Ob b RB UNICODESET_HIGH] assms
  unfolding swept_def by blast+

definition keep :: "int \<Rightarrow> bool \<Rightarrow> bool \<Rightarrow> bool \<Rightarrow> bool \<Rightarrow> int list \<Rightarrow> int list" where
  "keep x p q p' q' K = (if f p' q' \<noteq> f p q then K @ [x] else K)"

text \<open>Passing a bound \<open>x\<close> of the first, the second or both lists.\<close>

lemma swept_pass:
  assumes old: "\<forall>c < x. below K c = (f (below La c \<noteq> p0) (below Ob c \<noteq> q0) \<noteq> f p0 q0)"
    and le: "\<forall>y \<in> set K \<union> set La \<union> set Ob. y < x"
    and ne: "odd (length K) \<longleftrightarrow> f (odd (length La) \<noteq> p0) (odd (length Ob) \<noteq> q0) \<noteq> f p0 q0"
    and new: "La' = La \<or> La' = La @ [x]" "Ob' = Ob \<or> Ob' = Ob @ [x]" and K: "sorted_wrt (<) K"
  defines "K' \<equiv> keep x (odd (length La) \<noteq> p0) (odd (length Ob) \<noteq> q0) (odd (length La') \<noteq> p0) (odd (length Ob') \<noteq> q0) K"
  shows "below K' c = (f (below La' c \<noteq> p0) (below Ob' c \<noteq> q0) \<noteq> f p0 q0)"
    "odd (length K') \<longleftrightarrow> f (odd (length La') \<noteq> p0) (odd (length Ob') \<noteq> q0) \<noteq> f p0 q0"
    "sorted_wrt (<) K'" "\<forall>y \<in> set K' \<union> set La' \<union> set Ob'. y \<le> x"
proof -
  show o: "odd (length K') \<longleftrightarrow> f (odd (length La') \<noteq> p0) (odd (length Ob') \<noteq> q0) \<noteq> f p0 q0"
    using ne unfolding K'_def keep_def by (simp split: if_splits)
  show le': "\<forall>y \<in> set K' \<union> set La' \<union> set Ob'. y \<le> x"
    using le new unfolding K'_def keep_def by (auto dest: order.strict_implies_order)
  show "sorted_wrt (<) K'" using K le unfolding K'_def keep_def by (auto simp: sorted_wrt_append)
  show "below K' c = (f (below La' c \<noteq> p0) (below Ob' c \<noteq> q0) \<noteq> f p0 q0)"
  proof (cases "c < x")
    case True
    then have "below K' c = below K c" "below La' c = below La c" "below Ob' c = below Ob c"
      using new by (auto simp: K'_def keep_def)
    then show ?thesis using old True by simp
  next
    case False
    have "\<forall>y \<in> set K'. y \<le> c" "\<forall>y \<in> set La'. y \<le> c" "\<forall>y \<in> set Ob'. y \<le> c"
      using le' False by force+
    then show ?thesis using o by (simp add: below_all)
  qed
qed

lemma swept_next:
  assumes s: "swept p0 q0 La a RA Ob b RB K" and x: "x \<le> a" "x \<le> b" "x = a \<or> x = b"
    and A: "La' = La \<and> a' # RA' = a # RA \<and> x < a \<or> La' = La @ [x] \<and> x = a \<and> RA = a' # RA'"
    and B: "Ob' = Ob \<and> b' # RB' = b # RB \<and> x < b \<or> Ob' = Ob @ [x] \<and> x = b \<and> RB = b' # RB'"
  shows "swept p0 q0 La' a' RA' Ob' b' RB'
    (keep x (odd (length La) \<noteq> p0) (odd (length Ob) \<noteq> q0) (odd (length La') \<noteq> p0) (odd (length Ob') \<noteq> q0) K)"
proof -
  have S1: "sorted_wrt (<) (La @ a # RA)" "last (a # RA) = UNICODESET_HIGH"
     "sorted_wrt (<) (Ob @ b # RB)" "last (b # RB) = UNICODESET_HIGH" "sorted_wrt (<) K"
    and S2: "odd (length K) \<longleftrightarrow> f (odd (length La) \<noteq> p0) (odd (length Ob) \<noteq> q0) \<noteq> f p0 q0"
    and S3: "\<forall>y \<in> set K \<union> set La \<union> set Ob. y < a \<and> y < b"
    and S5: "\<forall>y \<in> set K. 0 \<le> y" "0 \<le> a" "0 \<le> b"
    and S4: "\<forall>c. c < a \<longrightarrow> c < b \<longrightarrow> below K c = (f (below La c \<noteq> p0) (below Ob c \<noteq> q0) \<noteq> f p0 q0)"
    using s unfolding swept_def by blast+
  have le: "\<forall>y \<in> set K \<union> set La \<union> set Ob. y < x" using S3 x(3) by auto
  have old: "\<forall>c < x. below K c = (f (below La c \<noteq> p0) (below Ob c \<noteq> q0) \<noteq> f p0 q0)" using S4 x(1,2) by auto
  have new: "La' = La \<or> La' = La @ [x]" "Ob' = Ob \<or> Ob' = Ob @ [x]" using A B by auto
  note r = swept_pass [OF old le S2 new S1(5)]
  have xs: "x < a'" "x < b'" using A B S1(1,3) by (auto simp: sorted_wrt_append)
  have l: "La' @ a' # RA' = La @ a # RA" "Ob' @ b' # RB' = Ob @ b # RB" "last (a' # RA') = last (a # RA)"
    "last (b' # RB') = last (b # RB)" using A B by auto
  have "0 \<le> x" "0 \<le> a'" "0 \<le> b'" "\<forall>y \<in> set (keep x (odd (length La) \<noteq> p0) (odd (length Ob) \<noteq> q0)
      (odd (length La') \<noteq> p0) (odd (length Ob') \<noteq> q0) K). 0 \<le> y"
    using S5 x(3) xs by (auto simp: keep_def)
  then show ?thesis unfolding swept_def l
    using S1 r xs by (auto dest!: bspec intro: order.strict_trans1)
qed

lemma run_a:
  assumes "a < b"
  shows "step (La @ a # a' # R) other
      \<lparr>mi = int (length La) + 1, mj = j, mk = int (length K), ma = a, mb = b, mbuf = K @ t # T, mpol = pol p q\<rparr> =
    Some (Inr \<lparr>mi = int (length (La @ [a])) + 1, mj = j, mk = int (length (keep a p q (\<not> p) q K)), ma = a', mb = b,
      mbuf = keep a p q (\<not> p) q K @ (if f (\<not> p) q \<noteq> f p q then T else t # T), mpol = pol (\<not> p) q\<rparr>)"
  using assms next_a_ok [of "La @ [a]" a' R] by (simp add: step_a [of _ p q] keep_def add.commute)

lemma run_b:
  assumes "b < a"
  shows "step l (Ob @ b # b' # R)
      \<lparr>mi = i, mj = int (length Ob) + 1, mk = int (length K), ma = a, mb = b, mbuf = K @ t # T, mpol = pol p q\<rparr> =
    Some (Inr \<lparr>mi = i, mj = int (length (Ob @ [b])) + 1, mk = int (length (keep b p q p (\<not> q) K)), ma = a, mb = b',
      mbuf = keep b p q p (\<not> q) K @ (if f p (\<not> q) \<noteq> f p q then T else t # T), mpol = pol p (\<not> q)\<rparr>)"
  using assms next_b_ok [of "Ob @ [b]" b' R] by (simp add: step_b [of _ p q] keep_def add.commute)

lemma run_both:
  assumes "a \<noteq> UNICODESET_HIGH"
  shows "step (La @ a # a' # R) (Ob @ a # b' # R')
      \<lparr>mi = int (length La) + 1, mj = int (length Ob) + 1, mk = int (length K), ma = a, mb = a, mbuf = K @ t # T, mpol = pol p q\<rparr> =
    Some (Inr \<lparr>mi = int (length (La @ [a])) + 1, mj = int (length (Ob @ [a])) + 1,
      mk = int (length (keep a p q (\<not> p) (\<not> q) K)), ma = a', mb = b',
      mbuf = keep a p q (\<not> p) (\<not> q) K @ (if f (\<not> p) (\<not> q) \<noteq> f p q then T else t # T), mpol = pol (\<not> p) (\<not> q)\<rparr>)"
  using assms next_a_ok [of "La @ [a]" a' R] next_b_ok [of "Ob @ [a]" b' R']
  by (simp add: step_both [of _ p q] next_both_def keep_def add.commute)

lemma merge_loop_sweep:
  assumes "swept p0 q0 La a RA Ob b RB K" "length RA + length RB < length T"
  shows "\<exists>K' T' i' j' p'. merge_loop (step (La @ a # RA @ lt) (Ob @ b # RB @ ot))
      \<lparr>mi = int (length La) + 1, mj = int (length Ob) + 1, mk = int (length K), ma = a, mb = b, mbuf = K @ T,
       mpol = pol (odd (length La) \<noteq> p0) (odd (length Ob) \<noteq> q0)\<rparr> =
      Some \<lparr>mi = i', mj = j', mk = int (length K'), ma = UNICODESET_HIGH, mb = UNICODESET_HIGH, mbuf = K' @ T', mpol = p'\<rparr> \<and>
    T' \<noteq> [] \<and> length (K' @ T') = length (K @ T) \<and>
    (\<exists>La' Ob'. La' @ [UNICODESET_HIGH] = La @ a # RA \<and> Ob' @ [UNICODESET_HIGH] = Ob @ b # RB \<and>
       swept p0 q0 La' UNICODESET_HIGH [] Ob' UNICODESET_HIGH [] K')"
  using assms
proof (induction "length RA + length RB" arbitrary: La a RA Ob b RB K T rule: less_induct)
  case less
  let ?p = "odd (length La) \<noteq> p0" and ?q = "odd (length Ob) \<noteq> q0"
  let ?m = "\<lparr>mi = int (length La) + 1, mj = int (length Ob) + 1, mk = int (length K), ma = a, mb = b, mbuf = K @ T, mpol = pol ?p ?q\<rparr>"
  let ?step = "step (La @ a # RA @ lt) (Ob @ b # RB @ ot)"
  note high = swept_high [OF less.prems(1)]
  obtain t T0 where T: "T = t # T0" using less.prems(2) by (cases T) auto
  have continue: ?case if st: "?step ?m = Some (Inr \<lparr>mi = int (length La') + 1, mj = int (length Ob') + 1, mk = int (length K2),
        ma = a', mb = b', mbuf = K2 @ T2, mpol = pol (odd (length La') \<noteq> p0) (odd (length Ob') \<noteq> q0)\<rparr>)"
    and sw: "swept p0 q0 La' a' RA' Ob' b' RB' K2"
    and sm: "length RA' + length RB' < length RA + length RB" "length RA' + length RB' < length T2"
    and eq: "La' @ a' # RA' = La @ a # RA" "Ob' @ b' # RB' = Ob @ b # RB" "length (K2 @ T2) = length (K @ T)"
    for La' a' RA' Ob' b' RB' K2 T2
  proof -
    have l: "La @ a # RA @ lt = La' @ a' # RA' @ lt" "Ob @ b # RB @ ot = Ob' @ b' # RB' @ ot"
      using arg_cong [OF eq(1), of "\<lambda>xs. xs @ lt"] arg_cong [OF eq(2), of "\<lambda>xs. xs @ ot"] by simp_all
    have "merge_loop ?step ?m = merge_loop ?step \<lparr>mi = int (length La') + 1, mj = int (length Ob') + 1, mk = int (length K2),
        ma = a', mb = b', mbuf = K2 @ T2, mpol = pol (odd (length La') \<noteq> p0) (odd (length Ob') \<noteq> q0)\<rparr>"
      by (subst merge_loop.simps) (simp only: st bind.bind_lunit sum.case)
    then show ?thesis using less.hyps [OF sm(1) sw sm(2)] unfolding l eq by (simp only:)
  qed
  have flip: "(odd (length (xs @ [x])) \<noteq> p1) = (\<not> (odd (length xs) \<noteq> p1))" for xs :: "int list" and x p1 by auto
  let ?T = "\<lambda>p q. if f p q \<noteq> f ?p ?q then T0 else t # T0"
  have len: "length (keep x ?p ?q p q K @ ?T p q) = length (K @ T)" "length T0 \<le> length (?T p q)" for x p q
    by (simp_all add: keep_def T)
  consider (stop) "a = UNICODESET_HIGH" "b = UNICODESET_HIGH" | (first) "a < b" | (second) "b < a"
    | (both) "a = b" "a \<noteq> UNICODESET_HIGH" by linarith
  then show ?case
  proof cases
    case stop
    then have "RA = []" "RB = []" using high by simp_all
    moreover have "merge_loop ?step ?m = Some ?m"
      by (subst merge_loop.simps) (simp add: step_end [of _ ?p ?q] stop)
    moreover have "T \<noteq> []" using T by simp
    ultimately show ?thesis using less.prems(1) stop by blast
  next
    case first
    then obtain a' RA' where RA: "RA = a' # RA'" using high by (cases RA) auto
    show ?thesis
    proof (rule continue)
      show "?step ?m = Some (Inr \<lparr>mi = int (length (La @ [a])) + 1, mj = int (length Ob) + 1,
          mk = int (length (keep a ?p ?q (\<not> ?p) ?q K)), ma = a', mb = b, mbuf = keep a ?p ?q (\<not> ?p) ?q K @ ?T (\<not> ?p) ?q,
          mpol = pol (odd (length (La @ [a])) \<noteq> p0) ?q\<rparr>)"
        unfolding T RA flip append_Cons by (rule run_a [OF first])
      show "swept p0 q0 (La @ [a]) a' RA' Ob b RB (keep a ?p ?q (\<not> ?p) ?q K)"
        using swept_next [OF less.prems(1), of a "La @ [a]" a' RA' Ob b RB] first unfolding flip by (simp add: RA)
    qed (use len(1) [of a "\<not> ?p" ?q] len(2) [of "\<not> ?p" ?q] less.prems(2) in \<open>simp_all add: RA T\<close>)
  next
    case second
    then obtain b' RB' where RB: "RB = b' # RB'" using high by (cases RB) auto
    show ?thesis
    proof (rule continue)
      show "?step ?m = Some (Inr \<lparr>mi = int (length La) + 1, mj = int (length (Ob @ [b])) + 1,
          mk = int (length (keep b ?p ?q ?p (\<not> ?q) K)), ma = a, mb = b', mbuf = keep b ?p ?q ?p (\<not> ?q) K @ ?T ?p (\<not> ?q),
          mpol = pol ?p (odd (length (Ob @ [b])) \<noteq> q0)\<rparr>)"
        unfolding T RB flip append_Cons by (rule run_b [OF second])
      show "swept p0 q0 La a RA (Ob @ [b]) b' RB' (keep b ?p ?q ?p (\<not> ?q) K)"
        using swept_next [OF less.prems(1), of b La a RA "Ob @ [b]" b' RB'] second unfolding flip by (simp add: RB)
    qed (use len(1) [of b ?p "\<not> ?q"] len(2) [of ?p "\<not> ?q"] less.prems(2) in \<open>simp_all add: RB T\<close>)
  next
    case both
    then obtain a' RA' b' RB' where R: "RA = a' # RA'" "RB = b' # RB'" using high by (cases RA; cases RB) auto
    show ?thesis
    proof (rule continue)
      show "?step ?m = Some (Inr \<lparr>mi = int (length (La @ [a])) + 1, mj = int (length (Ob @ [a])) + 1,
          mk = int (length (keep a ?p ?q (\<not> ?p) (\<not> ?q) K)), ma = a', mb = b',
          mbuf = keep a ?p ?q (\<not> ?p) (\<not> ?q) K @ ?T (\<not> ?p) (\<not> ?q),
          mpol = pol (odd (length (La @ [a])) \<noteq> p0) (odd (length (Ob @ [a])) \<noteq> q0)\<rparr>)"
        unfolding T R flip append_Cons both(1) [symmetric] by (rule run_both [OF both(2)])
      show "swept p0 q0 (La @ [a]) a' RA' (Ob @ [a]) b' RB' (keep a ?p ?q (\<not> ?p) (\<not> ?q) K)"
        using swept_next [OF less.prems(1), of a "La @ [a]" a' RA' "Ob @ [a]" b' RB'] both unfolding flip by (simp add: R)
    qed (use len(1) [of a "\<not> ?p" "\<not> ?q"] len(2) [of "\<not> ?p" "\<not> ?q"] less.prems(2) both in \<open>simp_all add: R T\<close>)
  qed
qed

lemma swept_init:
  assumes "inv_list L" "inv_list M" "L = a # RA" "M = b # RB"
  shows "swept p0 q0 [] a RA [] b RB []"
  using assms by (auto simp: swept_def inv_list_def)

lemma swept_final:
  assumes s: "swept p0 q0 La UNICODESET_HIGH [] Ob UNICODESET_HIGH [] K" and none: "\<not> f p0 q0"
  shows "inv_list (K @ [UNICODESET_HIGH])"
    "c \<in> ranges (K @ [UNICODESET_HIGH]) \<longleftrightarrow> 0 \<le> c \<and> c < UNICODESET_HIGH \<and>
       f ((c \<in> ranges (La @ [UNICODESET_HIGH])) \<noteq> p0) ((c \<in> ranges (Ob @ [UNICODESET_HIGH])) \<noteq> q0)"
proof -
  have K: "sorted_wrt (<) K" "\<forall>y \<in> set K. y < UNICODESET_HIGH" "\<forall>y \<in> set K. 0 \<le> y"
    and L: "sorted_wrt (<) (La @ [UNICODESET_HIGH])" and M: "sorted_wrt (<) (Ob @ [UNICODESET_HIGH])"
    and b: "\<forall>c < UNICODESET_HIGH. below K c = (f (below La c \<noteq> p0) (below Ob c \<noteq> q0) \<noteq> f p0 q0)"
    using s unfolding swept_def by auto
  show inv: "inv_list (K @ [UNICODESET_HIGH])"
    by (rule inv_list_snoc) (use K in \<open>auto simp: sorted_wrt_append\<close>)
  have mem: "c \<in> ranges (xs @ [UNICODESET_HIGH]) \<longleftrightarrow> below xs c" if "sorted_wrt (<) (xs @ [UNICODESET_HIGH])" "c < UNICODESET_HIGH" for xs c
    using below_ranges [OF that(1), of c] that(2) by simp
  show "c \<in> ranges (K @ [UNICODESET_HIGH]) \<longleftrightarrow> 0 \<le> c \<and> c < UNICODESET_HIGH \<and>
       f ((c \<in> ranges (La @ [UNICODESET_HIGH])) \<noteq> p0) ((c \<in> ranges (Ob @ [UNICODESET_HIGH])) \<noteq> q0)"
  proof (cases "0 \<le> c \<and> c < UNICODESET_HIGH")
    case True
    then have "c \<in> ranges (K @ [UNICODESET_HIGH]) \<longleftrightarrow> below K c" using inv_list_ranges [OF inv, of c] by simp
    then show ?thesis using True b none by (simp add: mem [OF L] mem [OF M])
  next
    case False
    then show ?thesis using inv_list_ranges [OF inv, of c] by auto
  qed
qed

text \<open>The whole loop, from the first elements of two inversion lists.\<close>

lemma merge_loop_sets:
  assumes L: "inv_list L" and M: "inv_list M" and room: "length L + length M \<le> length buf + 1" and none: "\<not> f p0 q0"
  shows "\<exists>K T i j a b p. merge_loop (step (L @ lt) (M @ ot))
      \<lparr>mi = 1, mj = 1, mk = 0, ma = hd L, mb = hd M, mbuf = buf, mpol = pol p0 q0\<rparr> =
      Some \<lparr>mi = i, mj = j, mk = int (length K), ma = a, mb = b, mbuf = K @ T, mpol = p\<rparr> \<and>
    T \<noteq> [] \<and> length (K @ T) = length buf \<and> inv_list (K @ [UNICODESET_HIGH]) \<and>
    ranges (K @ [UNICODESET_HIGH]) = {c. 0 \<le> c \<and> c < UNICODESET_HIGH \<and> f ((c \<in> ranges L) \<noteq> p0) ((c \<in> ranges M) \<noteq> q0)}"
proof -
  obtain a RA b RB where R: "L = a # RA" "M = b # RB" using L M by (cases L; cases M) (auto simp: inv_list_def)
  have "length RA + length RB < length buf" using room R by simp
  from merge_loop_sweep [OF swept_init [OF L M R] this, of lt ot p0 q0] obtain K T i j p La Ob where
    run: "merge_loop (step (L @ lt) (M @ ot)) \<lparr>mi = 1, mj = 1, mk = 0, ma = hd L, mb = hd M, mbuf = buf, mpol = pol p0 q0\<rparr> =
      Some \<lparr>mi = i, mj = j, mk = int (length K), ma = UNICODESET_HIGH, mb = UNICODESET_HIGH, mbuf = K @ T, mpol = p\<rparr>"
    and T: "T \<noteq> []" "length (K @ T) = length buf"
    and eq: "La @ [UNICODESET_HIGH] = L" "Ob @ [UNICODESET_HIGH] = M"
    and sw: "swept p0 q0 La UNICODESET_HIGH [] Ob UNICODESET_HIGH [] K"
    by (auto simp: R)
  note fin = swept_final [OF sw none, unfolded eq]
  have "ranges (K @ [UNICODESET_HIGH]) = {c. 0 \<le> c \<and> c < UNICODESET_HIGH \<and> f ((c \<in> ranges L) \<noteq> p0) ((c \<in> ranges M) \<noteq> q0)}"
    using fin(2) by blast
  then show ?thesis using run T fin(1) by blast
qed
end

section \<open>The union\<close>

text \<open>
  The loop of \<open>add\<close> joins ranges in the buffer, so that \<open>a\<close> and \<open>b\<close> may be limits which are greater than
  those of their lists. \<open>last_start K\<close> is the last range start in the buffer, \<open>p\<close> says that \<open>a\<close> is a limit.
\<close>

definition last_start :: "int list \<Rightarrow> int" where
  "last_start K = (if odd (length K) then last K else if K = [] then -1 else last (butlast K))"

definition side :: "int list \<Rightarrow> int \<Rightarrow> int list \<Rightarrow> bool \<Rightarrow> bool" where
  "side K a RA p \<longleftrightarrow> sorted_wrt (<) RA \<and> (RA = [] \<longleftrightarrow> a = UNICODESET_HIGH) \<and> a \<le> UNICODESET_HIGH \<and>
     (RA \<noteq> [] \<longrightarrow> last RA = UNICODESET_HIGH) \<and> (\<not> p \<longrightarrow> sorted_wrt (<) (a # RA)) \<and>
     last_start K < a \<and> (\<forall>x \<in> set RA. last_start K < x)"

definition covered :: "int list \<Rightarrow> int \<Rightarrow> int list \<Rightarrow> bool \<Rightarrow> int set" where
  "covered K a RA p = (if p then {last K..<a} \<union> ranges RA else ranges (a # RA))"

definition joined :: "int set \<Rightarrow> int list \<Rightarrow> int \<Rightarrow> int list \<Rightarrow> bool \<Rightarrow> int \<Rightarrow> int list \<Rightarrow> bool \<Rightarrow> bool" where
  "joined U K a RA p b RB q \<longleftrightarrow> sorted_wrt (<) K \<and> (\<forall>x \<in> set K. 0 \<le> x \<and> x < UNICODESET_HIGH) \<and>
     (odd (length K) \<longleftrightarrow> p \<or> q) \<and> side K a RA p \<and> side K b RB q \<and>
     ranges K \<union> covered K a RA p \<union> covered K b RB q = U"

lemma joined_sym: "joined U K a RA p b RB q \<longleftrightarrow> joined U K b RB q a RA p"
  by (auto simp: joined_def)

lemma last_start_odd [simp]: "odd (length K) \<Longrightarrow> last_start K = last K"
  by (simp add: last_start_def)

lemma last_start_snoc: "last_start (K @ [x]) = (if even (length K) then x else last K)"
  by (auto simp: last_start_def)

lemma ranges_snoc: "ranges (K @ [x]) = (if odd (length K) then ranges K \<union> {last K..<x} else ranges K)"
  by (induction K rule: ranges.induct) auto

lemma last_start_ge: "\<forall>x \<in> set K. 0 \<le> x \<Longrightarrow> -1 \<le> last_start K"
proof (cases K rule: rev_cases)
  case (snoc K0 x)
  moreover assume "\<forall>x \<in> set K. 0 \<le> x"
  ultimately have "0 \<le> x" "K0 \<noteq> [] \<Longrightarrow> 0 \<le> last K0" using last_in_set [of K0] by auto
  then show ?thesis using snoc by (cases "K0 = []") (auto simp: last_start_snoc)
qed (simp add: last_start_def)

text \<open>The start \<open>a\<close> of a range \<open>a..<lim\<close>, taken when neither \<open>a\<close> nor \<open>b\<close> is a limit.\<close>

definition join :: "int list \<Rightarrow> int \<Rightarrow> int \<Rightarrow> int list \<times> int" where
  "join K a lim = (if K \<noteq> [] \<and> a \<le> last K then (butlast K, max lim (last K)) else (K @ [a], lim))"

lemma join_ok:
  assumes K: "sorted_wrt (<) K" "\<forall>x \<in> set K. 0 \<le> x \<and> x < UNICODESET_HIGH" "even (length K)"
    and a: "side K a (lim # RA) False" and j: "join K a lim = (K', a')"
  shows "sorted_wrt (<) K'" "\<forall>x \<in> set K'. 0 \<le> x \<and> x < UNICODESET_HIGH" "odd (length K')" "side K' a' RA True"
    "last K' \<le> a" "last K' = a \<or> last K' = last_start K" "lim \<le> a'"
    "ranges K' \<union> {last K'..<a'} \<union> ranges RA = ranges K \<union> ranges (a # lim # RA)"
proof -
  have A: "sorted_wrt (<) (a # lim # RA)" "last (lim # RA) = UNICODESET_HIGH" "last_start K < a" using a by (auto simp: side_def)
  have a0: "0 \<le> a" using last_start_ge [of K] K(2) A(3) by simp
  have lim: "a < lim" "lim \<le> UNICODESET_HIGH" "lim = UNICODESET_HIGH \<longleftrightarrow> RA = []"
    using A(1) sorted_high [of "[a]" lim RA, OF _ A(2)] by simp_all
  have all: "sorted_wrt (<) K' \<and> (\<forall>x \<in> set K'. 0 \<le> x \<and> x < UNICODESET_HIGH) \<and> odd (length K') \<and> side K' a' RA True \<and>
    last K' \<le> a \<and> (last K' = a \<or> last K' = last_start K) \<and> lim \<le> a' \<and>
    ranges K' \<union> {last K'..<a'} \<union> ranges RA = ranges K \<union> ranges (a # lim # RA)"
  proof (cases "K \<noteq> [] \<and> a \<le> last K")
    case True
    then obtain K0 e where "K = K0 @ [e]" by (metis rev_exhaust)
    then obtain K1 s where K1: "K = K1 @ [s, e]" using K(3) by (cases K0 rule: rev_cases) auto
    have j': "K' = K1 @ [s]" "a' = max lim e" using j True K1 by (simp_all add: join_def butlast_append)
    have st: "last_start K = s" using K(3) K1 by (simp add: last_start_def butlast_append)
    have se: "s < e" "e < UNICODESET_HIGH" "a \<le> e" "s < a" using K K1 True A(3) st by (auto simp: sorted_wrt_append)
    have "ranges K = ranges K1 \<union> {s..<e}" using ranges_append_even [of K1 "[s, e]"] K(3) K1 by simp
    moreover have "ranges K' = ranges K1" using ranges_snoc [of K1 s] K(3) K1 j' by simp
    moreover have "{s..<e} \<union> {a..<lim} = {s..<max lim e}" using se lim by auto
    ultimately have "ranges K' \<union> {last K'..<a'} \<union> ranges RA = ranges K \<union> ranges (a # lim # RA)" using j' by auto
    moreover have "side K' a' RA True"
      using a K(3) K1 lim se st unfolding side_def j' by (auto simp: last_start_snoc max_def)
    ultimately show ?thesis using j' K K1 se st lim by (auto simp: sorted_wrt_append)
  next
    case False
    then have j': "K' = K @ [a]" "a' = lim" using j by (simp_all add: join_def split: if_splits)
    have lt: "\<forall>x \<in> set K. x < a"
    proof (cases K rule: rev_cases)
      case (snoc K0 e)
      then show ?thesis using False K(1) by (force simp: sorted_wrt_append)
    qed simp
    have "side K' a' RA True" using a lim K(3) A(1) unfolding side_def j' by (auto simp: last_start_snoc)
    then show ?thesis using j' K lt lim a0 ranges_snoc [of K a] A(1) by (auto simp: sorted_wrt_append)
  qed
  then show "sorted_wrt (<) K'" "\<forall>x \<in> set K'. 0 \<le> x \<and> x < UNICODESET_HIGH" "odd (length K')" "side K' a' RA True"
    "last K' \<le> a" "last K' = a \<or> last K' = last_start K" "lim \<le> a'"
    "ranges K' \<union> {last K'..<a'} \<union> ranges RA = ranges K \<union> ranges (a # lim # RA)" by blast+
qed

lemma joined_start:
  assumes J: "joined U K a (lim # RA) False b RB False" and ab: "a < b" and j: "join K a lim = (K', a')"
  shows "joined U K' a' RA True b RB False"
proof -
  have K: "sorted_wrt (<) K" "\<forall>x \<in> set K. 0 \<le> x \<and> x < UNICODESET_HIGH" "even (length K)"
    and A: "side K a (lim # RA) False" and B: "side K b RB False"
    and U: "ranges K \<union> ranges (a # lim # RA) \<union> ranges (b # RB) = U"
    using J unfolding joined_def covered_def by auto
  note r = join_ok [OF K A j]
  have "side K' b RB False" using B r(3,5,6) ab unfolding side_def by auto
  then show ?thesis using r U unfolding joined_def covered_def by auto
qed

lemma joined_start_both:
  assumes J: "joined U K a (lim # RA) False a (d # RB) False" and j: "join K a lim = (K', a')"
  shows "joined U K' a' RA True d RB True"
proof -
  have K: "sorted_wrt (<) K" "\<forall>x \<in> set K. 0 \<le> x \<and> x < UNICODESET_HIGH" "even (length K)"
    and A: "side K a (lim # RA) False" and B: "side K a (d # RB) False"
    and U: "ranges K \<union> ranges (a # lim # RA) \<union> ({a..<d} \<union> ranges RB) = U"
    using J unfolding joined_def covered_def by auto
  note r = join_ok [OF K A j]
  have "a < lim" using A by (simp add: side_def)
  then have eq: "{last K'..<a'} \<union> {a..<d} = {last K'..<a'} \<union> {last K'..<d}" using r(5,7) by auto
  have S: "sorted_wrt (<) (a # d # RB)" "last (d # RB) = UNICODESET_HIGH" using B unfolding side_def by simp_all
  have "d \<le> UNICODESET_HIGH" "d = UNICODESET_HIGH \<longleftrightarrow> RB = []" using sorted_high [of "[a]" d RB, OF _ S(2)] S(1) by simp_all
  then have "side K' d RB True" using S B r(3,5,6) unfolding side_def by auto
  then show ?thesis using r U eq unfolding joined_def covered_def by auto
qed

lemma joined_close:
  assumes J: "joined U K a (c # RA) True b RB False" and ab: "a < b"
  shows "joined U (K @ [a]) c RA False b RB False"
proof -
  have K: "sorted_wrt (<) K" "\<forall>x \<in> set K. 0 \<le> x \<and> x < UNICODESET_HIGH" "odd (length K)"
    and A: "side K a (c # RA) True" and B: "side K b RB False"
    and U: "ranges K \<union> ({last K..<a} \<union> ranges (c # RA)) \<union> ranges (b # RB) = U"
    using J unfolding joined_def covered_def by auto
  have "K \<noteq> []" using K(3) by auto
  then obtain K0 s where K0: "K = K0 @ [s]" by (metis rev_exhaust)
  have h: "c \<le> UNICODESET_HIGH" "c = UNICODESET_HIGH \<longleftrightarrow> RA = []"
    using sorted_high [of "[]" c RA] A unfolding side_def by auto
  have "side (K @ [a]) c RA False" "side (K @ [a]) b RB False"
    using A B K(3) h unfolding side_def by (auto simp: last_start_snoc)
  moreover have "sorted_wrt (<) (K @ [a])" "\<forall>x \<in> set (K @ [a]). 0 \<le> x \<and> x < UNICODESET_HIGH"
    using K K0 A B ab unfolding side_def by (auto simp: sorted_wrt_append)
  ultimately show ?thesis using K U ranges_snoc [of K a] unfolding joined_def covered_def by auto
qed

lemma joined_overlap:
  assumes J: "joined U K a RA True b (c # RB) False" and ab: "b < a"
  shows "joined U K a RA True c RB True"
proof -
  have B: "side K b (c # RB) False" and K: "odd (length K)" using J unfolding joined_def by auto
  have S: "sorted_wrt (<) (b # c # RB)" "last (c # RB) = UNICODESET_HIGH" using B unfolding side_def by simp_all
  have "c \<le> UNICODESET_HIGH" "c = UNICODESET_HIGH \<longleftrightarrow> RB = []" using sorted_high [of "[b]" c RB, OF _ S(2)] S(1) by simp_all
  then have "side K c RB True" using B S unfolding side_def by auto
  moreover have "{last K..<a} \<union> {b..<c} = {last K..<a} \<union> {last K..<c}" using B K ab unfolding side_def by auto
  ultimately show ?thesis using J unfolding joined_def covered_def by auto
qed

lemma joined_adjacent:
  assumes J: "joined U K a (c # RA) True a (d # RB) False"
  shows "joined U K c RA False d RB True"
proof -
  have A: "side K a (c # RA) True" and B: "side K a (d # RB) False" and K: "odd (length K)" using J unfolding joined_def by auto
  have S: "sorted_wrt (<) (a # d # RB)" "last (d # RB) = UNICODESET_HIGH" using B unfolding side_def by simp_all
  have "d \<le> UNICODESET_HIGH" "d = UNICODESET_HIGH \<longleftrightarrow> RB = []" using sorted_high [of "[a]" d RB, OF _ S(2)] S(1) by simp_all
  then have "side K d RB True" using B S unfolding side_def by auto
  moreover have "c \<le> UNICODESET_HIGH" "c = UNICODESET_HIGH \<longleftrightarrow> RA = []"
    using sorted_high [of "[]" c RA] A unfolding side_def by auto
  then have "side K c RA False" using A unfolding side_def by auto
  moreover have "{last K..<a} \<union> {a..<d} = {last K..<d}" using B K S unfolding side_def by auto
  ultimately show ?thesis using J unfolding joined_def covered_def by auto
qed

lemma joined_close_both:
  assumes J: "joined U K a (c # RA) True b (d # RB) True" and ab: "b \<le> a" "a \<noteq> UNICODESET_HIGH"
  shows "joined U (K @ [a]) c RA False d RB False"
proof -
  have K: "sorted_wrt (<) K" "\<forall>x \<in> set K. 0 \<le> x \<and> x < UNICODESET_HIGH" "odd (length K)"
    and A: "side K a (c # RA) True" and B: "side K b (d # RB) True"
    and U: "ranges K \<union> ({last K..<a} \<union> ranges (c # RA)) \<union> ({last K..<b} \<union> ranges (d # RB)) = U"
    using J unfolding joined_def covered_def by auto
  have "K \<noteq> []" using K(3) by auto
  then obtain K0 s where K0: "K = K0 @ [s]" by (metis rev_exhaust)
  have h: "c \<le> UNICODESET_HIGH" "c = UNICODESET_HIGH \<longleftrightarrow> RA = []" "d \<le> UNICODESET_HIGH" "d = UNICODESET_HIGH \<longleftrightarrow> RB = []"
    using sorted_high [of "[]" c RA] A sorted_high [of "[]" d RB] B unfolding side_def by auto
  have "side (K @ [a]) c RA False" "side (K @ [a]) d RB False"
    using A B K(3) h unfolding side_def by (auto simp: last_start_snoc)
  moreover have "sorted_wrt (<) (K @ [a])" "\<forall>x \<in> set (K @ [a]). 0 \<le> x \<and> x < UNICODESET_HIGH"
    using K K0 A B ab unfolding side_def by (auto simp: sorted_wrt_append)
  moreover have "{last K..<b} \<subseteq> {last K..<a}" using ab by auto
  ultimately show ?thesis using K U ranges_snoc [of K a] unfolding joined_def covered_def by auto
qed

lemma joined_end:
  assumes J: "joined U K UNICODESET_HIGH [] p b RB q" and pq: "p \<and> q \<or> b = UNICODESET_HIGH"
  shows "inv_list (K @ [UNICODESET_HIGH])" "ranges (K @ [UNICODESET_HIGH]) = U"
proof -
  have K: "sorted_wrt (<) K" "\<forall>x \<in> set K. 0 \<le> x \<and> x < UNICODESET_HIGH" "odd (length K) \<longleftrightarrow> p \<or> q"
    and B: "side K b RB q" and U: "ranges K \<union> covered K UNICODESET_HIGH [] p \<union> covered K b RB q = U"
    using J unfolding joined_def by auto
  show "inv_list (K @ [UNICODESET_HIGH])"
    by (rule inv_list_snoc) (use K(1,2) in \<open>auto simp: sorted_wrt_append\<close>)
  have "covered K b RB q \<subseteq> covered K UNICODESET_HIGH [] True" if "p" "q"
  proof -
    have "ranges RB \<subseteq> {last K..<UNICODESET_HIGH}"
    proof
      fix c assume "c \<in> ranges RB"
      moreover have "sorted_wrt (<) RB" using B by (simp add: side_def)
      ultimately have "RB \<noteq> []" "hd RB \<le> c" "c < last RB" using ranges_bounds by blast+
      then show "c \<in> {last K..<UNICODESET_HIGH}" using B K(3) that unfolding side_def by (cases RB) force+
    qed
    then show ?thesis using B that unfolding covered_def side_def by auto
  qed
  moreover have "RB = []" if "b = UNICODESET_HIGH" using B that unfolding side_def by simp
  ultimately show "ranges (K @ [UNICODESET_HIGH]) = U"
    using U K(3) pq ranges_snoc [of K UNICODESET_HIGH] unfolding covered_def by (cases p; cases q; auto)
qed

lemma joined_init:
  assumes "inv_list L" "inv_list M" "L = a # RA" "M = b # RB"
  shows "joined (ranges L \<union> ranges M) [] a RA False b RB False"
proof -
  have "side [] a RA False" using assms(1,3) sorted_high [of "[]" a RA] by (auto simp: inv_list_def side_def last_start_def)
  moreover have "side [] b RB False" using assms(2,4) sorted_high [of "[]" b RB] by (auto simp: inv_list_def side_def last_start_def)
  ultimately show ?thesis by (simp add: joined_def covered_def assms(3,4))
qed

text \<open>The loop over the arrays.\<close>

abbreviation merge_at :: "int list \<Rightarrow> int list \<Rightarrow> int list \<Rightarrow> int list \<Rightarrow> int \<Rightarrow> int \<Rightarrow> bool \<Rightarrow> bool \<Rightarrow> Merge" where
  "merge_at La Ob K T a b p q \<equiv>
     \<lparr>mi = int (length La), mj = int (length Ob), mk = int (length K), ma = a, mb = b, mbuf = K @ T, mpol = pol p q\<rparr>"

lemma next_a_at: "next_a (La @ x # R) (merge_at La Ob K T a b p q) = Some (merge_at (La @ [x]) Ob K T x b (\<not> p) q)"
  by (simp add: next_a_ok add.commute)

lemma next_b_at: "next_b (Ob @ x # R) (merge_at La Ob K T a b p q) = Some (merge_at La (Ob @ [x]) K T a x p (\<not> q))"
  by (simp add: next_b_ok add.commute)

lemma next_both_at:
  "next_both (La @ x # R) (Ob @ y # R') (merge_at La Ob K T a b p q) =
     Some (merge_at (La @ [x]) (Ob @ [y]) K T x y (\<not> p) (\<not> q))"
  unfolding next_both_def next_a_at bind.bind_lunit next_b_at ..

lemma next_a_raw:
  "next_a (La @ x # R) \<lparr>mi = int (length La), mj = j, mk = k, ma = a, mb = b, mbuf = buf, mpol = r\<rparr> =
     Some \<lparr>mi = int (length La) + 1, mj = j, mk = k, ma = x, mb = b, mbuf = buf, mpol = r XOR 1\<rparr>"
  by (simp add: next_a_def rd_Some_iff)

lemma next_b_raw:
  "next_b (La @ x # R) \<lparr>mi = i, mj = int (length La), mk = k, ma = a, mb = b, mbuf = buf, mpol = r\<rparr> =
     Some \<lparr>mi = i, mj = int (length La) + 1, mk = k, ma = a, mb = x, mbuf = buf, mpol = r XOR 2\<rparr>"
  by (simp add: next_b_def rd_Some_iff)

lemma put_at: "put x (merge_at La Ob K (t # T) a b p q) = Some (merge_at La Ob (K @ [x]) T a b p q)"
  by (rule put_ok)

lemma start_limit_at:
  assumes "join K x lim = (K', x')" "T \<noteq> []" "mk m = int (length K)" "mbuf m = K @ T"
  obtains T' where "start_limit (La @ lim # R) (int (length La)) x m =
      Some (int (length K'), K' @ T', x')" "length T \<le> Suc (length T')" "length (K' @ T') = length (K @ T)"
proof (cases "K \<noteq> [] \<and> x \<le> last K")
  case True
  then obtain K0 e where K0: "K = K0 @ [e]" by (metis rev_exhaust)
  have j: "K' = K0" "x' = max lim e" using assms(1) True K0 by (simp_all add: join_def)
  have y: "rd (K0 @ e # T) (int (length K0)) = Some e" by simp
  show ?thesis
    by (rule that [of "e # T"]) (use True K0 j y assms(3,4) in \<open>simp_all add: start_limit_def max_def rd_Some_iff\<close>)
next
  case False
  then have j: "K' = K @ [x]" "x' = lim" using assms(1) by (simp_all add: join_def split: if_splits)
  obtain t T0 where T: "T = t # T0" using assms(2) by (cases T) auto
  have b: "(if int (length K) > 0 then do { y \<leftarrow> rd (K @ T) (int (length K) - 1); Some (x \<le> y) } else Some False) = Some False"
  proof (cases K rule: rev_cases)
    case (snoc K0 e)
    then show ?thesis using False by (simp add: rd_Some_iff)
  qed simp
  have "start_limit (La @ lim # R) (int (length La)) x m = Some (int (length K'), K' @ T0, x')"
    unfolding start_limit_def assms(3,4) b using j T by (simp add: wr_Some_iff rd_Some_iff)
  then show ?thesis by (rule that) (use j T in simp_all)
qed

lemma start_a_at:
  assumes "join K a lim = (K', a')" "T \<noteq> []"
  obtains T' where "start_a (La @ lim # R) (merge_at La Ob K T a b p q) = Some (merge_at (La @ [lim]) Ob K' T' a' b (\<not> p) q)"
    "length T \<le> Suc (length T')" "length (K' @ T') = length (K @ T)"
proof -
  obtain T' where "start_limit (La @ lim # R) (int (length La)) a (merge_at La Ob K T a b p q) =
      Some (int (length K'), K' @ T', a')" "length T \<le> Suc (length T')" "length (K' @ T') = length (K @ T)"
    by (rule start_limit_at [OF assms, of "merge_at La Ob K T a b p q"]) auto
  then show thesis using that [of T'] by (simp add: start_a_def add.commute)
qed

lemma start_b_at:
  assumes "join K b lim = (K', b')" "T \<noteq> []"
  obtains T' where "start_b (Ob @ lim # R) (merge_at La Ob K T a b p q) = Some (merge_at La (Ob @ [lim]) K' T' a b' p (\<not> q))"
    "length T \<le> Suc (length T')" "length (K' @ T') = length (K @ T)"
proof -
  obtain T' where "start_limit (Ob @ lim # R) (int (length Ob)) b (merge_at La Ob K T a b p q) =
      Some (int (length K'), K' @ T', b')" "length T \<le> Suc (length T')" "length (K' @ T') = length (K @ T)"
    by (rule start_limit_at [OF assms, of "merge_at La Ob K T a b p q"]) auto
  then show thesis using that [of T'] by (simp add: start_b_def add.commute)
qed

text \<open>One round of the loop leaves it with the union in the buffer, or keeps the invariant and is nearer to the end.\<close>

definition advances ::
  "int set \<Rightarrow> int list \<Rightarrow> int list \<Rightarrow> int list \<Rightarrow> int list \<Rightarrow> int list \<Rightarrow> int list \<Rightarrow> int list \<Rightarrow> int list \<Rightarrow> int \<Rightarrow> int \<Rightarrow>
     bool \<Rightarrow> bool \<Rightarrow> bool" where
  "advances U lt ot La RA Ob RB K T a b p q \<longleftrightarrow>
     add_step (La @ RA @ lt) (Ob @ RB @ ot) (merge_at La Ob K T a b p q) = Some (Inl (merge_at La Ob K T a b p q)) \<and>
       inv_list (K @ [UNICODESET_HIGH]) \<and> ranges (K @ [UNICODESET_HIGH]) = U \<or>
     (\<exists>La' RA' Ob' RB' K' T' a' b' p' q'.
        add_step (La @ RA @ lt) (Ob @ RB @ ot) (merge_at La Ob K T a b p q) = Some (Inr (merge_at La' Ob' K' T' a' b' p' q')) \<and>
        joined U K' a' RA' p' b' RB' q' \<and> La' @ RA' = La @ RA \<and> Ob' @ RB' = Ob @ RB \<and>
        length RA' + length RB' < length RA + length RB \<and> length RA' + length RB' < length T' \<and>
        length (K' @ T') = length (K @ T))"

lemma advancesI:
  assumes "add_step (La @ RA @ lt) (Ob @ RB @ ot) (merge_at La Ob K T a b p q) = Some (Inr (merge_at La' Ob' K' T' a' b' p' q'))"
    "joined U K' a' RA' p' b' RB' q'" "La' @ RA' = La @ RA" "Ob' @ RB' = Ob @ RB"
    "length RA' + length RB' < length RA + length RB" "length RA' + length RB' < length T'" "length (K' @ T') = length (K @ T)"
  shows "advances U lt ot La RA Ob RB K T a b p q"
  using assms unfolding advances_def by blast

lemma advances_end:
  assumes "joined U K a RA p b RB q" "p \<and> q \<and> (a = UNICODESET_HIGH \<or> b = UNICODESET_HIGH) \<or> a = UNICODESET_HIGH \<and> b = UNICODESET_HIGH"
    "add_step (La @ RA @ lt) (Ob @ RB @ ot) (merge_at La Ob K T a b p q) = Some (Inl (merge_at La Ob K T a b p q))"
  shows "advances U lt ot La RA Ob RB K T a b p q"
proof -
  have "a = UNICODESET_HIGH \<Longrightarrow> RA = []" "b = UNICODESET_HIGH \<Longrightarrow> RB = []" using assms(1) by (auto simp: joined_def side_def)
  then have "inv_list (K @ [UNICODESET_HIGH]) \<and> ranges (K @ [UNICODESET_HIGH]) = U"
    using joined_end [of U K p b RB q] joined_end [of U K q a RA p] assms(1,2) joined_sym [of U K a RA p b RB q] by metis
  then show ?thesis using assms(3) by (simp add: advances_def)
qed

lemma joined_high:
  assumes "joined U K a RA p b RB q"
  shows "a < b \<Longrightarrow> \<exists>c RA'. RA = c # RA'" "b < a \<Longrightarrow> \<exists>d RB'. RB = d # RB'"
    "a \<noteq> UNICODESET_HIGH \<Longrightarrow> \<exists>c RA'. RA = c # RA'" "b \<noteq> UNICODESET_HIGH \<Longrightarrow> \<exists>d RB'. RB = d # RB'"
  using assms by (cases RA; cases RB; force simp: joined_def side_def)+

lemma round_starts:
  assumes J: "joined U K a RA False b RB False" and room: "length RA + length RB < length T"
  shows "advances U lt ot La RA Ob RB K T a b False False"
proof -
  have ne: "T \<noteq> []" using room by auto
  consider "a < b" | "b < a" | "a = b" "a = UNICODESET_HIGH" | "a = b" "a \<noteq> UNICODESET_HIGH" by linarith
  then show ?thesis
  proof cases
    case 1
    then obtain c RA' where R: "RA = c # RA'" using joined_high(1) [OF J] by blast
    obtain K' a' where j: "join K a c = (K', a')" by fastforce
    obtain T' where st: "start_a (La @ c # RA' @ lt) (merge_at La Ob K T a b False False) =
        Some (merge_at (La @ [c]) Ob K' T' a' b (\<not> False) False)"
      "length T \<le> Suc (length T')" "length (K' @ T') = length (K @ T)" by (rule start_a_at [OF j ne])
    show ?thesis
      by (rule advancesI [where La' = "La @ [c]" and Ob' = Ob and T' = T', OF _ joined_start [OF J [unfolded R] 1 j]])
        (use st 1 room in \<open>simp_all add: add_step_def R\<close>)
  next
    case 2
    then obtain d RB' where R: "RB = d # RB'" using joined_high(2) [OF J] by blast
    obtain K' b' where j: "join K b d = (K', b')" by fastforce
    obtain T' where st: "start_b (Ob @ d # RB' @ ot) (merge_at La Ob K T a b False False) =
        Some (merge_at La (Ob @ [d]) K' T' a b' False (\<not> False))"
      "length T \<le> Suc (length T')" "length (K' @ T') = length (K @ T)" by (rule start_b_at [OF j ne])
    have J': "joined U K' a RA False b' RB' True"
      using joined_start [OF J [unfolded R joined_sym [of U K a]] 2 j] by (simp only: joined_sym [of U K' a])
    show ?thesis
      by (rule advancesI [where La' = La and Ob' = "Ob @ [d]" and T' = T', OF _ J']) (use st 2 room in \<open>simp_all add: add_step_def R\<close>)
  next
    case 3
    then show ?thesis using advances_end [OF J] by (simp add: add_step_def)
  next
    case 4
    then obtain c RA' d RB' where R: "RA = c # RA'" "RB = d # RB'" using joined_high(3,4) [OF J] by blast
    obtain K' a' where j: "join K a c = (K', a')" by fastforce
    obtain T' where st: "start_a (La @ c # RA' @ lt) (merge_at La Ob K T a b False False) =
        Some (merge_at (La @ [c]) Ob K' T' a' b (\<not> False) False)"
      "length T \<le> Suc (length T')" "length (K' @ T') = length (K @ T)" by (rule start_a_at [OF j ne])
    have st2: "next_b (Ob @ d # RB' @ ot) (merge_at (La @ [c]) Ob K' T' a' b (\<not> False) False) =
        Some (merge_at (La @ [c]) (Ob @ [d]) K' T' a' d True (\<not> False))" by (simp only: next_b_at simp_thms)
    have J': "joined U K' a' RA' True d RB' True"
      by (rule joined_start_both [OF _ j]) (use J 4 in \<open>simp add: R\<close>)
    show ?thesis
      by (rule advancesI [where La' = "La @ [c]" and Ob' = "Ob @ [d]" and T' = T', OF _ J'])
        (use st st2 4 room in \<open>simp_all add: add_step_def R\<close>)
  qed
qed

lemma round_limit_start:
  assumes J: "joined U K a RA True b RB False" and room: "length RA + length RB < length T"
  shows "advances U lt ot La RA Ob RB K T a b True False"
proof -
  obtain t T0 where T: "T = t # T0" using room by (cases T) auto
  consider "a < b" | "b < a" | "a = b" "a = UNICODESET_HIGH" | "a = b" "a \<noteq> UNICODESET_HIGH" by linarith
  then show ?thesis
  proof cases
    case 1
    then obtain c RA' where R: "RA = c # RA'" using joined_high(1) [OF J] by blast
    show ?thesis
      by (rule advancesI [where La' = "La @ [c]" and Ob' = Ob and T' = T0, OF _ joined_close [OF J [unfolded R] 1]])
        (use 1 room in \<open>simp_all add: add_step_def R T next_a_raw next_b_raw next_both_def add.commute\<close>)
  next
    case 2
    then obtain d RB' where R: "RB = d # RB'" using joined_high(2) [OF J] by blast
    show ?thesis
      by (rule advancesI [where La' = La and Ob' = "Ob @ [d]" and T' = T, OF _ joined_overlap [OF J [unfolded R] 2]])
        (use 2 room in \<open>simp_all add: add_step_def R next_a_raw next_b_raw next_both_def add.commute\<close>)
  next
    case 3
    then show ?thesis using advances_end [OF J] by (simp add: add_step_def)
  next
    case 4
    then obtain c RA' d RB' where R: "RA = c # RA'" "RB = d # RB'" using joined_high(3,4) [OF J] by blast
    show ?thesis
      by (rule advancesI [where La' = "La @ [c]" and Ob' = "Ob @ [d]" and T' = T,
            OF _ joined_adjacent [OF J [unfolded R 4(1) [symmetric]]]])
        (use 4 room in \<open>simp_all add: add_step_def R next_a_raw next_b_raw next_both_def add.commute\<close>)
  qed
qed

lemma round_start_limit:
  assumes J: "joined U K a RA False b RB True" and room: "length RA + length RB < length T"
  shows "advances U lt ot La RA Ob RB K T a b False True"
proof -
  obtain t T0 where T: "T = t # T0" using room by (cases T) auto
  note J' = J [unfolded joined_sym [of U K a]]
  consider "a < b" | "b < a" | "a = b" "a = UNICODESET_HIGH" | "a = b" "a \<noteq> UNICODESET_HIGH" by linarith
  then show ?thesis
  proof cases
    case 1
    then obtain c RA' where R: "RA = c # RA'" using joined_high(1) [OF J] by blast
    show ?thesis
      by (rule advancesI [where La' = "La @ [c]" and Ob' = Ob and T' = T,
            OF _ joined_overlap [OF J' [unfolded R] 1, unfolded joined_sym [of U K b]]])
        (use 1 room in \<open>simp_all add: add_step_def R next_a_raw next_b_raw next_both_def add.commute\<close>)
  next
    case 2
    then obtain d RB' where R: "RB = d # RB'" using joined_high(2) [OF J] by blast
    show ?thesis
      by (rule advancesI [where La' = La and Ob' = "Ob @ [d]" and T' = T0,
            OF _ joined_close [OF J' [unfolded R] 2, unfolded joined_sym [of U _ d]]])
        (use 2 room in \<open>simp_all add: add_step_def R T next_a_raw next_b_raw next_both_def add.commute\<close>)
  next
    case 3
    then show ?thesis using advances_end [OF J] by (simp add: add_step_def)
  next
    case 4
    then obtain c RA' d RB' where R: "RA = c # RA'" "RB = d # RB'" using joined_high(3,4) [OF J] by blast
    show ?thesis
      by (rule advancesI [where La' = "La @ [c]" and Ob' = "Ob @ [d]" and T' = T,
            OF _ joined_adjacent [OF J' [unfolded R 4(1)], unfolded joined_sym [of U K d]]])
        (use 4 room in \<open>simp_all add: add_step_def R next_a_raw next_b_raw next_both_def add.commute\<close>)
  qed
qed

lemma round_limits:
  assumes J: "joined U K a RA True b RB True" and room: "length RA + length RB < length T"
  shows "advances U lt ot La RA Ob RB K T a b True True"
proof -
  obtain t T0 where T: "T = t # T0" using room by (cases T) auto
  have h: "a \<le> UNICODESET_HIGH" "b \<le> UNICODESET_HIGH" using J by (simp_all add: joined_def side_def)
  consider "b \<le> a" "a = UNICODESET_HIGH" | "a < b" "b = UNICODESET_HIGH" | "b \<le> a" "a \<noteq> UNICODESET_HIGH" | "a < b" "b \<noteq> UNICODESET_HIGH"
    by linarith
  then show ?thesis
  proof cases
    case 1
    then show ?thesis using advances_end [OF J] by (simp add: add_step_def)
  next
    case 2
    then show ?thesis using advances_end [OF J] by (simp add: add_step_def)
  next
    case 3
    then have "b \<noteq> UNICODESET_HIGH" using h by simp
    with 3 obtain c RA' d RB' where R: "RA = c # RA'" "RB = d # RB'" using joined_high(3,4) [OF J] by blast
    show ?thesis
      by (rule advancesI [where La' = "La @ [c]" and Ob' = "Ob @ [d]" and T' = T0, OF _ joined_close_both [OF J [unfolded R] 3]])
        (use 3 room in \<open>simp_all add: add_step_def R T next_a_raw next_b_raw next_both_def add.commute\<close>)
  next
    case 4
    then have "a \<noteq> UNICODESET_HIGH" using h by simp
    with 4 obtain c RA' d RB' where R: "RA = c # RA'" "RB = d # RB'" using joined_high(3,4) [OF J] by blast
    have "a \<le> b" using 4 by simp
    show ?thesis
      by (rule advancesI [where La' = "La @ [c]" and Ob' = "Ob @ [d]" and T' = T0,
            OF _ joined_close_both [OF J [unfolded joined_sym [of U K a] R] \<open>a \<le> b\<close> 4(2), unfolded joined_sym [of U _ d]]])
        (use 4 room in \<open>simp_all add: add_step_def R T next_a_raw next_b_raw next_both_def add.commute\<close>)
  qed
qed

lemmas rounds = round_starts round_limit_start round_start_limit round_limits

lemma merge_loop_union:
  assumes "joined U K a RA p b RB q" "length RA + length RB < length T"
  shows "\<exists>La' Ob' K' T' a' b' p' q'. merge_loop (add_step (La @ RA @ lt) (Ob @ RB @ ot)) (merge_at La Ob K T a b p q) =
      Some (merge_at La' Ob' K' T' a' b' p' q') \<and> T' \<noteq> [] \<and> length (K' @ T') = length (K @ T) \<and>
    inv_list (K' @ [UNICODESET_HIGH]) \<and> ranges (K' @ [UNICODESET_HIGH]) = U"
  using assms
proof (induction "length RA + length RB" arbitrary: La a RA p Ob b RB q K T rule: less_induct)
  case less
  let ?step = "add_step (La @ RA @ lt) (Ob @ RB @ ot)"
  have "advances U lt ot La RA Ob RB K T a b p q"
    using less.prems rounds by (cases p; cases q) simp_all
  then consider (stop) "?step (merge_at La Ob K T a b p q) = Some (Inl (merge_at La Ob K T a b p q))"
      "inv_list (K @ [UNICODESET_HIGH])" "ranges (K @ [UNICODESET_HIGH]) = U"
    | (go) La' RA' Ob' RB' K' T' a' b' p' q' where "?step (merge_at La Ob K T a b p q) = Some (Inr (merge_at La' Ob' K' T' a' b' p' q'))"
        "joined U K' a' RA' p' b' RB' q'" "La' @ RA' = La @ RA" "Ob' @ RB' = Ob @ RB"
        "length RA' + length RB' < length RA + length RB" "length RA' + length RB' < length T'" "length (K' @ T') = length (K @ T)"
    unfolding advances_def by blast
  then show ?case
  proof cases
    case stop
    have "merge_loop ?step (merge_at La Ob K T a b p q) = Some (merge_at La Ob K T a b p q)"
      by (subst merge_loop.simps) (simp only: stop(1) bind.bind_lunit sum.case)
    moreover have "T \<noteq> []" using less.prems(2) by auto
    ultimately show ?thesis using stop(2,3) by blast
  next
    case go
    have l: "La @ RA @ lt = La' @ RA' @ lt" "Ob @ RB @ ot = Ob' @ RB' @ ot"
      using arg_cong [OF go(3), of "\<lambda>xs. xs @ lt"] arg_cong [OF go(4), of "\<lambda>xs. xs @ ot"] by simp_all
    have "merge_loop ?step (merge_at La Ob K T a b p q) = merge_loop ?step (merge_at La' Ob' K' T' a' b' p' q')"
      by (subst merge_loop.simps) (simp only: go(1) bind.bind_lunit sum.case)
    then show ?thesis using less.hyps [OF go(5,2,6)] unfolding l go(7) by (simp only:)
  qed
qed

lemma merge_loop_union_sets:
  assumes L: "inv_list L" and M: "inv_list M" and room: "length L + length M \<le> length buf + 1"
  shows "\<exists>K T i j a b p. merge_loop (add_step (L @ lt) (M @ ot))
      \<lparr>mi = 1, mj = 1, mk = 0, ma = hd L, mb = hd M, mbuf = buf, mpol = pol False False\<rparr> =
      Some \<lparr>mi = i, mj = j, mk = int (length K), ma = a, mb = b, mbuf = K @ T, mpol = p\<rparr> \<and>
    T \<noteq> [] \<and> length (K @ T) = length buf \<and> inv_list (K @ [UNICODESET_HIGH]) \<and>
    ranges (K @ [UNICODESET_HIGH]) = ranges L \<union> ranges M"
proof -
  obtain a RA b RB where R: "L = a # RA" "M = b # RB" using L M by (cases L; cases M) (auto simp: inv_list_def)
  have "length RA + length RB < length buf" using room R by simp
  from merge_loop_union [OF joined_init [OF L M R] this, where lt = lt and ot = ot and La = "[a]" and Ob = "[b]"] show ?thesis
    unfolding R by (simp, elim exE conjE) (intro exI conjI, assumption+)
qed

end
