(* ===== verification/UniSetOps.thy ===== *)
theory UniSetOps
  imports UniSetMerge
begin

text \<open>
  What the operations of a set do with its code points and strings: the invariant \<open>us_inv\<close>, the outcome \<open>us_becomes\<close>
  of an operation (the new set, or the empty bogus set without memory), and one lemma for each operation.
\<close>

section \<open>The invariant of a set\<close>

lemma delete_from_ok:
  assumes inv: "uv_inv u"
  shows "n \<le> length (toArray u) \<Longrightarrow> \<exists>d. delete_from (u\<lparr>uv_deleted := d0\<rparr>) (int n) = Some (u\<lparr>uv_deleted := d\<rparr>)"
proof (induction "length (toArray u) - n" arbitrary: n d0)
  case 0
  then show ?case using uv_count_toArray [OF inv] by (subst delete_from.simps) auto
next
  case (Suc k)
  then have n: "int n < uv_count u" "k = length (toArray u) - Suc n" "Suc n \<le> length (toArray u)"
    using uv_count_toArray [OF inv] by simp_all
  have "rd (uv_elements u) (int n) = Some (toArray u ! n)" using toArray_rd [OF inv, of "int n"] n(1) by simp
  moreover define d1 where "d1 = (if toArray u ! n \<noteq> None \<and> uv_deleter u then d0 @ [toArray u ! n] else d0)"
  have "uv_delete (u\<lparr>uv_deleted := d0\<rparr>) (toArray u ! n) = u\<lparr>uv_deleted := d1\<rparr>"
    by (simp add: uv_delete_def d1_def)
  ultimately have "delete_from (u\<lparr>uv_deleted := d0\<rparr>) (int n) = delete_from (u\<lparr>uv_deleted := d1\<rparr>) (int (Suc n))"
    using n(1) by (subst delete_from.simps) (simp add: add.commute)
  then show ?case using Suc.hyps(1) [OF n(2,3)] by simp
qed

lemma uv_removeAllElements_ok:
  assumes "uv_inv u"
  shows "\<exists>u'. uv_removeAllElements u = Some u' \<and> uv_inv u' \<and> toArray u' = [] \<and> uv_comparer u' = uv_comparer u \<and>
    uv_deleter u' = uv_deleter u \<and> uv_capacity u' = uv_capacity u"
proof -
  obtain d where "delete_from u 0 = Some (u\<lparr>uv_deleted := d\<rparr>)"
    using delete_from_ok [OF assms, of 0 "uv_deleted u"] by auto
  then show ?thesis using assms by (auto simp: uv_removeAllElements_def uv_inv_def toArray_def)
qed

text \<open>The vector of strings is sorted and has no string twice.\<close>

definition strings_ok :: "u16 list UVector \<Rightarrow> bool" where
  "strings_ok v \<longleftrightarrow> uv_inv v \<and> uv_comparer v = Some (=) \<and> uv_deleter v \<and> None \<notin> set (toArray v) \<and>
     cmp_sorted compareUnicodeString (toArray v) \<and> distinct (toArray v)"

definition us_elems :: "UnicodeSet \<Rightarrow> int list" where
  "us_elems s = take (nat (us_len s)) (the (us_list s))"

definition us_inv :: "UnicodeSet \<Rightarrow> bool" where
  "us_inv s \<longleftrightarrow> \<not> us_bogus s \<and> us_list s \<noteq> None \<and> 0 \<le> us_len s \<and> us_len s \<le> us_capacity s \<and>
     us_capacity s = int (length (the (us_list s))) \<and> inv_list (us_elems s) \<and>
     (us_buffer s \<noteq> None \<longrightarrow> us_bufferCapacity s = int (length (the (us_buffer s)))) \<and>
     us_strings s \<noteq> None \<and> strings_ok (the (us_strings s))"

text \<open>The code points and the strings of a set.\<close>

definition us_points :: "UnicodeSet \<Rightarrow> int set" where
  "us_points s = ranges (us_elems s)"

definition us_strs :: "UnicodeSet \<Rightarrow> u16 list set" where
  "us_strs s = {str. Some str \<in> set (toArray (the (us_strings s)))}"

text \<open>What an allocation that fails leaves: an empty set that is bogus.\<close>

definition us_failed :: "UnicodeSet \<Rightarrow> bool" where
  "us_failed s \<longleftrightarrow> us_bogus s \<and> us_points s = {} \<and>
     (\<exists>v. us_strings s = Some v \<and> uv_inv v \<and> uv_comparer v = Some (=) \<and> toArray v = [])"

definition heap_ok :: "Heap \<Rightarrow> bool" where
  "heap_ok heap \<longleftrightarrow> blocks_ok (heap_cells heap) \<and> blocks_ok (heap_slots heap)"

lemma us_inv_list:
  assumes "us_inv s"
  obtains L t where "us_list s = Some (L @ t)" "us_elems s = L" "us_len s = int (length L)" "inv_list L" "L \<noteq> []"
    "us_capacity s = int (length (L @ t))"
proof -
  obtain l where l: "us_list s = Some l" using assms by (auto simp: us_inv_def)
  have n: "0 \<le> us_len s" "nat (us_len s) \<le> length l" "us_capacity s = int (length l)" using assms l by (auto simp: us_inv_def)
  have "l = us_elems s @ drop (nat (us_len s)) l" using l by (simp add: us_elems_def)
  moreover have "us_len s = int (length (us_elems s))" using n l by (simp add: us_elems_def)
  moreover have "inv_list (us_elems s)" using assms by (simp add: us_inv_def)
  moreover from this have "us_elems s \<noteq> []" by (simp add: inv_list_def)
  ultimately show thesis using that [of "us_elems s" "drop (nat (us_len s)) l"] l n by simp
qed

lemma releasePattern_simps [simp]:
  "us_list (releasePattern s) = us_list s" "us_len (releasePattern s) = us_len s"
  "us_capacity (releasePattern s) = us_capacity s" "us_buffer (releasePattern s) = us_buffer s"
  "us_bufferCapacity (releasePattern s) = us_bufferCapacity s" "us_strings (releasePattern s) = us_strings s"
  "us_bogus (releasePattern s) = us_bogus s" "us_frozen (releasePattern s) = us_frozen s"
  "us_inv (releasePattern s) = us_inv s" "us_points (releasePattern s) = us_points s" "us_strs (releasePattern s) = us_strs s"
  "us_elems (releasePattern s) = us_elems s"
  by (simp_all add: releasePattern_def us_inv_def us_points_def us_strs_def us_elems_def)

lemma us_clear_ok:
  assumes "us_list s = Some l" "l \<noteq> []" "us_strings s = Some v" "uv_inv v" "\<not> us_frozen s"
  obtains s' v' where "us_clear s = Some s'" "us_elems s' = [UNICODESET_HIGH]" "us_strs s' = {}" "us_bogus s' = False"
    "us_frozen s' = False" "us_list s' = Some (UNICODESET_HIGH # tl l)" "us_len s' = 1" "us_capacity s' = us_capacity s"
    "us_buffer s' = us_buffer s" "us_bufferCapacity s' = us_bufferCapacity s" "us_strings s' = Some v'"
    "uv_inv v'" "toArray v' = []" "uv_comparer v' = uv_comparer v" "uv_deleter v' = uv_deleter v"
    "uv_capacity v' = uv_capacity v"
proof -
  obtain v' where v': "uv_removeAllElements v = Some v'" "uv_inv v'" "toArray v' = []" "uv_comparer v' = uv_comparer v"
    "uv_deleter v' = uv_deleter v" "uv_capacity v' = uv_capacity v"
    using uv_removeAllElements_ok [OF assms(4)] by blast
  obtain x l0 where l: "l = x # l0" using assms(2) by (cases l) auto
  show thesis
    by (rule that [of "(releasePattern (s\<lparr>us_list := Some (UNICODESET_HIGH # l0), us_len := 1\<rparr>))\<lparr>us_strings := Some v', us_bogus := False\<rparr>" v'])
      (use assms v' l in \<open>simp_all add: us_clear_def isFrozen_def us_elems_def us_strs_def wr_Some_iff releasePattern_def\<close>)
qed

lemma setToBogus_any:
  assumes "us_list s = Some l" "l \<noteq> []" "us_strings s = Some v" "uv_inv v" "uv_comparer v = Some (=)" "\<not> us_frozen s"
  obtains s' where "setToBogus s = Some s'" "us_failed s'" "us_frozen s' = us_frozen s"
    "uv_capacity (the (us_strings s')) = uv_capacity v"
proof -
  obtain s1 v1 where s1: "us_clear s = Some s1" "us_elems s1 = [UNICODESET_HIGH]" "us_frozen s1 = False"
    "us_strings s1 = Some v1" "uv_inv v1" "toArray v1 = []" "uv_comparer v1 = uv_comparer v" "uv_capacity v1 = uv_capacity v"
    by (rule us_clear_ok [OF assms(1-4,6)])
  then show thesis
    using assms(5,6) by (intro that [of "s1\<lparr>us_bogus := True\<rparr>"])
      (simp_all add: setToBogus_def us_failed_def us_points_def us_elems_def us_strs_def)
qed

lemma us_inv_strings:
  assumes "us_inv s"
  obtains v where "us_strings s = Some v" "strings_ok v" "uv_inv v" "uv_comparer v = Some (=)"
  using assms by (auto simp: us_inv_def strings_ok_def)

lemma setToBogus_ok:
  assumes "us_inv s" "\<not> us_frozen s"
  obtains s' where "setToBogus s = Some s'" "us_failed s'" "us_frozen s' = us_frozen s"
proof -
  obtain L t where L: "us_list s = Some (L @ t)" "L \<noteq> []" by (rule us_inv_list [OF assms(1)])
  obtain v where v: "us_strings s = Some v" "uv_inv v" "uv_comparer v = Some (=)" by (rule us_inv_strings [OF assms(1)])
  have ne: "L @ t \<noteq> []" using L(2) by simp
  show thesis by (rule setToBogus_any [OF L(1) ne v assms(2)]) (rule that)
qed

text \<open>Growing the buffer keeps the set.\<close>

lemma ensureBufferCapacity_ok:
  assumes inv: "us_inv s" and fr: "\<not> us_frozen s" and h: "heap_ok heap" and n: "0 \<le> n"
  obtains (grown) b s' where "ensureBufferCapacity heap s n U_ZERO_ERROR = Some (s', U_ZERO_ERROR)"
      "s' = s\<lparr>us_buffer := Some b, us_bufferCapacity := int (length b)\<rparr>" "n \<le> int (length b)"
    | (failed) s' where "ensureBufferCapacity heap s n U_ZERO_ERROR = Some (s', U_MEMORY_ALLOCATION_ERROR)" "us_failed s'"
      "\<not> us_frozen s'" "\<exists>k. heap_cells heap k = None"
proof (cases "us_buffer s \<noteq> None \<and> n \<le> us_bufferCapacity s")
  case True
  then obtain b where "us_buffer s = Some b" "us_bufferCapacity s = int (length b)" using inv by (auto simp: us_inv_def)
  then show ?thesis using True by (intro grown [of s b]) (simp_all add: ensureBufferCapacity_def)
next
  case False
  define old where "old = (case us_buffer s of None \<Rightarrow> [] | Some l \<Rightarrow> l)"
  have old: "int (length old) \<le> n + GROW_EXTRA"
    using False inv n by (auto simp: old_def us_inv_def GROW_EXTRA_def START_EXTRA_def split: option.splits)
  have eq: "us_grow heap (us_buffer s) (n + GROW_EXTRA) = realloc (heap_cells heap) old (n + GROW_EXTRA)"
    by (simp add: us_grow_def old_def)
  show ?thesis
  proof (cases "realloc (heap_cells heap) old (n + GROW_EXTRA)")
    case None
    then have "\<exists>k. heap_cells heap k = None" by (auto simp: realloc_def)
    moreover obtain s' where "setToBogus s = Some s'" "us_failed s'" "\<not> us_frozen s'"
      by (rule setToBogus_ok [OF inv fr]) (use fr in auto)
    ultimately show ?thesis using False None eq by (intro failed [of s']) (auto simp: ensureBufferCapacity_def)
  next
    case (Some b)
    have bo: "blocks_ok (heap_cells heap)" using h by (simp add: heap_ok_def)
    have "int (length b) = n + GROW_EXTRA" by (rule realloc_Some [OF bo Some old])
    then show ?thesis using False Some eq
      by (intro grown [of "s\<lparr>us_buffer := Some b, us_bufferCapacity := int (length b)\<rparr>" b])
        (auto simp: ensureBufferCapacity_def GROW_EXTRA_def START_EXTRA_def)
  qed
qed

section \<open>Merging sets\<close>

text \<open>The outcome of an operation: the new code points and strings, or the empty bogus set without memory or
  with a vector of strings that cannot grow.\<close>

definition us_becomes :: "Heap \<Rightarrow> UnicodeSet \<Rightarrow> int set \<Rightarrow> u16 list set \<Rightarrow> bool" where
  "us_becomes heap s P S \<longleftrightarrow>
     us_inv s \<and> \<not> us_frozen s \<and> us_points s = P \<and> us_strs s = S \<or>
     us_failed s \<and> \<not> us_frozen s \<and> ((\<exists>k. heap_cells heap k = None) \<or> (\<exists>k. heap_slots heap k = None) \<or> \<not> heap_string heap \<or>
       MAX_ELEMENTS < 2 * uv_capacity (the (us_strings s)) + 1)"

text \<open>\<open>list\<close> and \<open>buffer\<close> change places.\<close>

lemma swapped_ok:
  assumes inv: "us_inv s" and fr: "\<not> us_frozen s" and K: "inv_list L"
  shows "us_inv (swapBuffers (s\<lparr>us_bufferCapacity := int (length (L @ T)), us_buffer := Some (L @ T), us_len := int (length L)\<rparr>))"
    "us_points (swapBuffers (s\<lparr>us_bufferCapacity := c, us_buffer := Some (L @ T), us_len := int (length L)\<rparr>)) = ranges L"
    "us_strs (swapBuffers (s\<lparr>us_bufferCapacity := c, us_buffer := b, us_len := n\<rparr>)) = us_strs s"
    "us_frozen (swapBuffers (s\<lparr>us_bufferCapacity := c, us_buffer := b, us_len := n\<rparr>)) = us_frozen s"
  using inv K by (auto simp: us_inv_def swapBuffers_def us_elems_def us_points_def us_strs_def)

lemma merge_with_ok:
  assumes inv: "us_inv s" and fr: "\<not> us_frozen s" and h: "heap_ok heap"
    and M: "M \<noteq> []" "int (length M) \<le> otherLen + 1" "0 \<le> otherLen"
    and loop: "\<And>lt buf. length (us_elems s) + length M \<le> length buf + 1 \<Longrightarrow>
      \<exists>K T i j a b p. merge_loop (step (us_elems s @ lt) (M @ ot))
        \<lparr>mi = 1, mj = 1, mk = 0, ma = hd (us_elems s), mb = hd M, mbuf = buf, mpol = polarity\<rparr> =
        Some \<lparr>mi = i, mj = j, mk = int (length K), ma = a, mb = b, mbuf = K @ T, mpol = p\<rparr> \<and>
      T \<noteq> [] \<and> length (K @ T) = length buf \<and> inv_list (K @ [UNICODESET_HIGH]) \<and> ranges (K @ [UNICODESET_HIGH]) = U"
  shows "\<exists>s'. merge_with step first_b heap s (M @ ot) otherLen polarity = Some s' \<and> us_becomes heap s' U (us_strs s)"
proof -
  obtain L t where L: "us_list s = Some (L @ t)" "us_elems s = L" "us_len s = int (length L)" "inv_list L" "L \<noteq> []"
    by (rule us_inv_list [OF inv])
  have n: "0 \<le> us_len s + otherLen" using L(3) M(3) by simp
  show ?thesis
  proof (cases rule: ensureBufferCapacity_ok [OF inv fr h n, case_names grown failed])
    case (failed s')
    have "merge_with step first_b heap s (M @ ot) otherLen polarity = Some s'" by (simp add: merge_with_def failed(1))
    then show ?thesis using failed(2-4) by (auto simp: us_becomes_def)
  next
    case (grown buf s1)
    have "length (us_elems s) + length M \<le> length buf + 1" using grown(3) L(2,3) M(2) by simp
    from loop [OF this, of t] obtain K T i j a b p where
      run: "merge_loop (step (L @ t) (M @ ot))
        \<lparr>mi = 1, mj = 1, mk = 0, ma = hd L, mb = hd M, mbuf = buf, mpol = polarity\<rparr> =
        Some \<lparr>mi = i, mj = j, mk = int (length K), ma = a, mb = b, mbuf = K @ T, mpol = p\<rparr>"
      and K: "T \<noteq> []" "length (K @ T) = length buf" "inv_list (K @ [UNICODESET_HIGH])" "ranges (K @ [UNICODESET_HIGH]) = U"
      unfolding L(2) by blast
    obtain x T' where T: "T = x # T'" using K(1) by (cases T) auto
    let ?b = "(K @ [UNICODESET_HIGH]) @ T'"
    let ?s = "swapBuffers (s\<lparr>us_bufferCapacity := int (length ?b), us_buffer := Some ?b, us_len := int (length (K @ [UNICODESET_HIGH]))\<rparr>)"
    have "wr (K @ T) (int (length K)) UNICODESET_HIGH = Some ?b" by (simp add: T wr_Some_iff)
    moreover have "rd (L @ t) 0 = Some (hd L)" "rd (M @ ot) 0 = Some (hd M)" using L(5) M(1) by (cases L; cases M; simp add: rd_Some_iff)+
    moreover have "int (length buf) = int (length ?b)" using K(2) by (simp add: T)
    ultimately have "merge_with step first_b heap s (M @ ot) otherLen polarity = Some (releasePattern ?s)"
      using grown(1,2) run L(1,3) by (simp add: merge_with_def first_b_def add.commute)
    then show ?thesis using swapped_ok(1,2) [where T = T', OF inv fr K(3)] swapped_ok(3,4) [OF inv fr K(3)] K(4) fr
      by (auto simp: us_becomes_def)
  qed
qed

lemma points_range: "us_inv s \<Longrightarrow> c \<in> us_points s \<Longrightarrow> 0 \<le> c \<and> c < UNICODESET_HIGH"
  using inv_list_ranges [of "us_elems s" c] by (simp add: us_inv_def us_points_def)

lemma add_list_ok:
  assumes inv: "us_inv s" and fr: "\<not> us_frozen s" and h: "heap_ok heap"
    and M: "inv_list M" "int (length M) \<le> otherLen + 1" "0 \<le> otherLen"
  shows "\<exists>s'. add_list heap s (Some (M @ ot)) otherLen 0 = Some s' \<and> us_becomes heap s' (us_points s \<union> ranges M) (us_strs s)"
proof -
  have L: "inv_list (us_elems s)" and b: "\<not> us_bogus s" using inv by (simp_all add: us_inv_def)
  have "\<exists>s'. merge_with add_step first_b heap s (M @ ot) otherLen 0 = Some s' \<and>
      us_becomes heap s' (us_points s \<union> ranges M) (us_strs s)"
    by (rule merge_with_ok [OF inv fr h _ M(2,3)])
      (use merge_loop_union_sets [OF L M(1)] M(1) in \<open>auto simp: us_points_def inv_list_def\<close>)
  then show ?thesis using fr b by (simp add: add_list_def isFrozen_def isBogus_def)
qed

lemma retain_list_ok:
  assumes inv: "us_inv s" and fr: "\<not> us_frozen s" and h: "heap_ok heap"
    and M: "inv_list M" "int (length M) \<le> otherLen + 1" "0 \<le> otherLen"
  shows "\<exists>s'. retain_list heap s (M @ ot) otherLen 0 = Some s' \<and> us_becomes heap s' (us_points s \<inter> ranges M) (us_strs s)"
    "\<exists>s'. retain_list heap s (M @ ot) otherLen 2 = Some s' \<and> us_becomes heap s' (us_points s - ranges M) (us_strs s)"
proof -
  have L: "inv_list (us_elems s)" and b: "\<not> us_bogus s" using inv by (simp_all add: us_inv_def)
  have eq: "us_points s \<inter> ranges M = {c. 0 \<le> c \<and> c < UNICODESET_HIGH \<and> ((c \<in> ranges (us_elems s)) \<noteq> False \<and> (c \<in> ranges M) \<noteq> False)}"
    "us_points s - ranges M = {c. 0 \<le> c \<and> c < UNICODESET_HIGH \<and> ((c \<in> ranges (us_elems s)) \<noteq> False \<and> (c \<in> ranges M) \<noteq> True)}"
    using points_range [OF inv] by (auto simp: us_points_def)
  have "\<exists>s'. merge_with retain_step first_b heap s (M @ ot) otherLen (pol False False) = Some s' \<and>
      us_becomes heap s' (us_points s \<inter> ranges M) (us_strs s)"
    unfolding eq
    by (rule merge_with_ok [OF inv fr h _ M(2,3)], use M(1) in \<open>simp add: inv_list_def\<close>)
      (rule intersection.merge_loop_sets [OF L M(1)], simp_all)
  moreover have "\<exists>s'. merge_with retain_step first_b heap s (M @ ot) otherLen (pol False True) = Some s' \<and>
      us_becomes heap s' (us_points s - ranges M) (us_strs s)"
    unfolding eq
    by (rule merge_with_ok [OF inv fr h _ M(2,3)], use M(1) in \<open>simp add: inv_list_def\<close>)
      (rule intersection.merge_loop_sets [OF L M(1)], simp_all)
  ultimately show "\<exists>s'. retain_list heap s (M @ ot) otherLen 0 = Some s' \<and> us_becomes heap s' (us_points s \<inter> ranges M) (us_strs s)"
    "\<exists>s'. retain_list heap s (M @ ot) otherLen 2 = Some s' \<and> us_becomes heap s' (us_points s - ranges M) (us_strs s)"
    using fr b by (simp_all add: retain_list_def isFrozen_def isBogus_def)
qed

lemma xor_list_ok:
  assumes inv: "us_inv s" and fr: "\<not> us_frozen s" and h: "heap_ok heap"
    and M: "inv_list M" "int (length M) \<le> otherLen + 1" "0 \<le> otherLen"
  shows "\<exists>s'. exclusiveOr_list heap s (M @ ot) otherLen 0 = Some s' \<and>
    us_becomes heap s' (us_points s - ranges M \<union> (ranges M - us_points s)) (us_strs s)"
proof -
  have L: "inv_list (us_elems s)" and b: "\<not> us_bogus s" using inv by (simp_all add: us_inv_def)
  have eq: "us_points s - ranges M \<union> (ranges M - us_points s) =
      {c. 0 \<le> c \<and> c < UNICODESET_HIGH \<and> ((c \<in> ranges (us_elems s)) \<noteq> False) \<noteq> ((c \<in> ranges M) \<noteq> False)}"
    using points_range [OF inv] inv_list_ranges [OF M(1)] by (auto simp: us_points_def)
  have "\<exists>s'. merge_with xor_step first_b heap s (M @ ot) otherLen (pol False False) = Some s' \<and>
      us_becomes heap s' (us_points s - ranges M \<union> (ranges M - us_points s)) (us_strs s)"
    unfolding eq
    by (rule merge_with_ok [OF inv fr h _ M(2,3)], use M(1) in \<open>simp add: inv_list_def\<close>)
      (rule symmetric.merge_loop_sets [OF L M(1)], simp_all)
  moreover have "merge_with xor_step first_b heap s (M @ ot) otherLen 0 =
      merge_with xor_step (\<lambda>other. first_b other) heap s (M @ ot) otherLen 0" by simp
  ultimately show ?thesis using fr b by (simp add: exclusiveOr_list_def isFrozen_def isBogus_def)
qed

text \<open>A range as the code writes it: the limit may be \<open>UNICODESET_HIGH\<close> already.\<close>

lemma range_list:
  assumes "0 \<le> x" "x \<le> y" "y < UNICODESET_HIGH"
  obtains M ot where "[x, y + 1, UNICODESET_HIGH] = M @ ot" "inv_list M" "int (length M) \<le> 2 + 1" "ranges M = {x..y}"
proof (cases "y + 1 = UNICODESET_HIGH")
  case True
  then show thesis using assms by (intro that [of "[x, UNICODESET_HIGH]" "[UNICODESET_HIGH]"]) (auto simp: inv_list_def)
next
  case False
  then show thesis using assms by (intro that [of "[x, y + 1, UNICODESET_HIGH]" "[]"]) (auto simp: inv_list_def UNICODESET_HIGH_def)
qed

lemma pin_bounds: "0 \<le> pinCodePoint c" "pinCodePoint c < UNICODESET_HIGH"
  by (auto simp: pinCodePoint_def UNICODESET_HIGH_def UNICODESET_LOW_def)

section \<open>Searching\<close>

text \<open>The index that a search returns: the first element that is greater than \<open>c\<close>.\<close>

lemma halve_ok:
  "hi < length L \<Longrightarrow> lo < hi \<Longrightarrow> L ! lo \<le> c \<Longrightarrow> c < L ! hi \<Longrightarrow>
   \<exists>i. find_halve (L @ t) c (int lo) (int hi) = Some (int i) \<and> 0 < i \<and> i < length L \<and> L ! (i - 1) \<le> c \<and> c < L ! i"
proof (induction "hi - lo" arbitrary: lo hi rule: less_induct)
  case less
  define m where "m = (lo + hi) div 2"
  have m: "(int lo + int hi) div 2 = int m" by (simp add: m_def zdiv_int)
  show ?case
  proof (cases "m = lo")
    case True
    then have "hi = Suc lo" using less.prems(2) by (simp add: m_def)
    then show ?thesis using less.prems True m by (subst find_halve.simps) (auto intro!: exI [of _ hi])
  next
    case False
    then have lt: "lo < m" "m < hi" using less.prems(2) by (auto simp: m_def)
    then have rd: "rd (L @ t) (int m) = Some (L ! m)" using less.prems(1) by (simp add: rd_Some_iff nth_append)
    have step: "find_halve (L @ t) c (int lo) (int hi) =
        (if c < L ! m then find_halve (L @ t) c (int lo) (int m) else find_halve (L @ t) c (int m) (int hi))"
      using m lt rd by (subst find_halve.simps) simp
    show ?thesis unfolding step using less.hyps [of m lo] less.hyps [of hi m] less.prems lt by simp
  qed
qed

lemma findCodePoint_ok:
  assumes inv: "us_inv s" and c: "c < UNICODESET_HIGH"
  obtains A x B t where "us_list s = Some ((A @ x # B) @ t)" "us_elems s = A @ x # B"
    "us_len s = int (length (A @ x # B))" "\<forall>y \<in> set A. y \<le> c" "c < x" "findCodePoint s c = Some (int (length A))"
    "us_capacity s = int (length ((A @ x # B) @ t))"
proof -
  obtain L t where L: "us_list s = Some (L @ t)" "us_elems s = L" "us_len s = int (length L)" "inv_list L" "L \<noteq> []"
    "us_capacity s = int (length (L @ t))"
    by (rule us_inv_list [OF inv])
  have srt: "sorted_wrt (<) L" and last: "last L = UNICODESET_HIGH" using L(4) by (simp_all add: inv_list_def)
  note found = that
  have result: thesis if i: "i < length L" "findCodePoint s c = Some (int i)" "c < L ! i" "0 < i \<Longrightarrow> L ! (i - 1) \<le> c" for i
  proof (rule found)
    have sp: "L = take i L @ L ! i # drop (Suc i) L" using i(1) by (simp add: id_take_nth_drop)
    have "y \<le> c" if y: "y \<in> set (take i L)" for y
    proof -
      obtain k where k: "k < i" "k < length L" "y = L ! k" using y by (auto simp: in_set_conv_nth)
      then have "k < i - 1 \<or> k = i - 1" "i - 1 < length L" using i(1) by linarith+
      then have "L ! k \<le> L ! (i - 1)" using sorted_wrt_nth_less [OF srt, of k "i - 1"] by auto
      then show ?thesis using k i(4) by auto
    qed
    then show "\<forall>y \<in> set (take i L). y \<le> c" by blast
    show "us_elems s = take i L @ L ! i # drop (Suc i) L" using L(2) sp by simp
    show "us_list s = Some ((take i L @ L ! i # drop (Suc i) L) @ t)" using L(1) sp by simp
    show "us_len s = int (length (take i L @ L ! i # drop (Suc i) L))" using L(3) sp by simp
    show "us_capacity s = int (length ((take i L @ L ! i # drop (Suc i) L) @ t))" using L(6) sp by simp
    show "findCodePoint s c = Some (int (length (take i L)))" using i(1,2) by simp
  qed (rule i(3))
  have n: "0 < length L" "rd (L @ t) 0 = Some (L ! 0)" using L(5) by (cases L; simp add: rd_Some_iff)+
  define h where "h = length L - 1"
  have h: "h < length L" "us_len s - 1 = int h" "c < L ! h" using n(1) L(3,5) c last by (auto simp: h_def last_conv_nth of_nat_diff Suc_le_eq)
  show thesis
  proof (cases "c < L ! 0")
    case True
    then show thesis using L(1) n by (intro result [of 0]) (simp_all add: findCodePoint_def)
  next
    case ge: False
    then have h0: "0 < h" using h(3) by (cases h) auto
    then have rd: "rd (L @ t) (int h - 1) = Some (L ! (h - 1))" using h(1) by (auto simp: rd_Some_iff nth_append nat_diff_distrib)
    show thesis
    proof (cases "L ! (h - 1) \<le> c")
      case True
      then show thesis using L(1) n h h0 rd ge by (intro result [of h]) (simp_all add: findCodePoint_def)
    next
      case False
      obtain i where "find_halve (L @ t) c (int 0) (int h) = Some (int i)" "0 < i" "i < length L" "L ! (i - 1) \<le> c" "c < L ! i"
        using halve_ok [of h L 0 c t] h h0 ge by auto
      then show thesis using L(1) n h h0 rd ge False by (intro result [of i]) (simp_all add: findCodePoint_def)
    qed
  qed
qed

lemma points_below: "us_inv s \<Longrightarrow> c \<in> us_points s \<longleftrightarrow> 0 \<le> c \<and> c < UNICODESET_HIGH \<and> below (us_elems s) c"
  by (simp add: us_points_def us_inv_def inv_list_ranges)

lemma sorted_cut:
  assumes "sorted_wrt (<) (A @ x # B)" "c < (x :: int)"
  shows "\<forall>y \<in> set (x # B). c < y"
  using assms by (auto simp: sorted_wrt_append)

lemma found_odd:
  assumes "us_inv s" "us_elems s = A @ x # B" "\<forall>y \<in> set A. y \<le> c" "c < x" "0 \<le> c" "c < UNICODESET_HIGH"
  shows "c \<in> us_points s \<longleftrightarrow> odd (length A)"
proof -
  have "sorted_wrt (<) (A @ x # B)" using assms(1,2) by (simp add: us_inv_def inv_list_def)
  from sorted_cut [OF this assms(4)] have "\<not> below (x # B) c" by (rule below_none)
  then show ?thesis using below_all [OF assms(3)] points_below [OF assms(1), of c] assms(2,5,6) by simp
qed

lemma and_1_int [simp]: "(int n AND 1 \<noteq> 0) = odd n" "(int n AND 1 = 0) = even n"
  unfolding and_one_eq by presburger+

lemma us_contains_ok: "us_inv s \<Longrightarrow> 0 \<le> c \<Longrightarrow> us_contains s c = Some (c \<in> us_points s)"
proof (cases "c < UNICODESET_HIGH")
  case True
  assume a: "us_inv s" "0 \<le> c"
  obtain A x B t where f: "us_elems s = A @ x # B" "\<forall>y \<in> set A. y \<le> c" "c < x" "findCodePoint s c = Some (int (length A))"
    by (rule findCodePoint_ok [OF a(1) True])
  then show ?thesis using found_odd [OF a(1) f(1-3) a(2) True] True by (simp add: us_contains_def)
next
  case False
  assume a: "us_inv s" "0 \<le> c"
  then show ?thesis using False points_below [OF a(1), of c] by (simp add: us_contains_def)
qed

section \<open>Adding one code point\<close>

lemma ensureCapacity_ok:
  assumes l: "us_list s = Some (L @ t)" "L \<noteq> []" "us_len s = int (length L)" "us_capacity s = int (length (L @ t))"
    and v: "us_strings s = Some v" "uv_inv v" "uv_comparer v = Some (=)" "\<not> us_frozen s" and h: "heap_ok heap"
    and n: "us_len s \<le> n"
  obtains (grown) s' t' where "ensureCapacity heap s n U_ZERO_ERROR = Some (s', U_ZERO_ERROR)"
      "s' = s\<lparr>us_list := Some (L @ t'), us_capacity := int (length (L @ t'))\<rparr>" "n \<le> int (length (L @ t'))"
    | (failed) s' where "ensureCapacity heap s n U_ZERO_ERROR = Some (s', U_MEMORY_ALLOCATION_ERROR)" "us_failed s'"
      "\<not> us_frozen s'" "\<exists>k. heap_cells heap k = None"
proof (cases "n \<le> us_capacity s")
  case True
  moreover have "s = s\<lparr>us_list := Some (L @ t), us_capacity := int (length (L @ t))\<rparr>" using l by simp
  ultimately show ?thesis using l by (intro grown [of s t]) (simp_all add: ensureCapacity_def)
next
  case False
  have old: "int (length (L @ t)) \<le> n + GROW_EXTRA"
    using False l(4) by (simp add: GROW_EXTRA_def START_EXTRA_def)
  have eq: "us_grow heap (us_list s) (n + GROW_EXTRA) = realloc (heap_cells heap) (L @ t) (n + GROW_EXTRA)"
    by (simp add: us_grow_def l)
  show ?thesis
  proof (cases "realloc (heap_cells heap) (L @ t) (n + GROW_EXTRA)")
    case None
    have ne: "L @ t \<noteq> []" using l(2) by simp
    have "\<exists>k. heap_cells heap k = None" using None by (auto simp: realloc_def)
    moreover obtain s' where "setToBogus s = Some s'" "us_failed s'" "us_frozen s' = us_frozen s"
      by (rule setToBogus_any [OF l(1) ne v])
    ultimately show ?thesis using False None eq v(4) by (intro failed [of s']) (auto simp: ensureCapacity_def)
  next
    case (Some b)
    have bo: "blocks_ok (heap_cells heap)" using h by (simp add: heap_ok_def)
    obtain t1 where t1: "b = (L @ t) @ t1" "int (length b) = n + GROW_EXTRA" by (rule realloc_Some [OF bo Some old])
    then show ?thesis using False Some eq
      by (intro grown [of "s\<lparr>us_list := Some (L @ t @ t1), us_capacity := int (length (L @ t @ t1))\<rparr>" "t @ t1"])
        (auto simp: ensureCapacity_def GROW_EXTRA_def START_EXTRA_def)
  qed
qed

text \<open>The set after a new list.\<close>

lemma relist_ok:
  assumes inv: "us_inv s" and fr: "\<not> us_frozen s" and L: "inv_list L" and cap: "us_capacity s' = int (length (L @ t))"
    and s': "us_list s' = Some (L @ t)" "us_len s' = int (length L)" "us_buffer s' = us_buffer s"
      "us_bufferCapacity s' = us_bufferCapacity s" "us_strings s' = us_strings s" "us_bogus s' = us_bogus s"
      "us_frozen s' = us_frozen s"
    and P: "ranges L = P"
  shows "us_becomes heap s' P (us_strs s)"
  using assms by (auto simp: us_becomes_def us_inv_def us_elems_def us_points_def us_strs_def)

lemma ranges_insert:
  assumes "inv_list L" "inv_list M" "0 \<le> c" "c < UNICODESET_HIGH" "\<not> below L c"
    and "\<And>y. y < UNICODESET_HIGH \<Longrightarrow> below M y \<longleftrightarrow> below L y \<noteq> (y = c)"
  shows "ranges M = insert c (ranges L)"
proof (rule set_eqI)
  fix y
  show "y \<in> ranges M \<longleftrightarrow> y \<in> insert c (ranges L)"
    using assms inv_list_ranges [OF assms(1), of y] inv_list_ranges [OF assms(2), of y] by auto
qed

text \<open>Moving the end of the list down and up.\<close>

lemma memmove_down:
  obtains t' where "memmove ((P @ Q @ R) @ t) (int (length P)) (int (length P) + int (length Q)) (int (length R)) = Some ((P @ R) @ t')"
    "length t' = length Q + length t"
proof -
  have "seg ((P @ Q @ R) @ t) (int (length P) + int (length Q)) (int (length P) + int (length Q) + int (length R)) = R"
    by (simp add: seg_def nat_add_distrib)
  then show thesis
    by (intro that [of "drop (length R) (Q @ R @ t)"]) (simp_all add: memmove_def overwrite_def nat_add_distrib)
qed

lemma memmove_up:
  assumes "k \<le> length t"
  obtains G t' where "memmove ((P @ R) @ t) (int (length P) + int k) (int (length P)) (int (length R)) = Some (P @ G @ R @ t')"
    "length G = k" "length (G @ t') = length t"
proof -
  have "seg ((P @ R) @ t) (int (length P)) (int (length P) + int (length R)) = R"
    by (simp add: seg_def nat_add_distrib)
  then show thesis using assms
    by (intro that [of "take k (R @ t)" "drop k t"]) (simp_all add: memmove_def overwrite_def nat_add_distrib)
qed

lemma insert_becomes:
  assumes inv: "us_inv s" and fr: "\<not> us_frozen s" and L: "us_elems s = A @ x # B" "even (length A)" "\<forall>y \<in> set A. y \<le> c"
    and c: "0 \<le> c" "c < x" "c < UNICODESET_HIGH"
    and M: "inv_list M" "\<And>y. y < UNICODESET_HIGH \<Longrightarrow> below M y \<longleftrightarrow> below (A @ x # B) y \<noteq> (y = c)"
    and s': "us_capacity s' = int (length (M @ t))" "us_list s' = Some (M @ t)" "us_len s' = int (length M)" "us_buffer s' = us_buffer s"
      "us_bufferCapacity s' = us_bufferCapacity s" "us_strings s' = us_strings s" "us_bogus s' = us_bogus s"
      "us_frozen s' = us_frozen s"
  shows "us_becomes heap s' (insert c (us_points s)) (us_strs s)"
proof (rule relist_ok [OF inv fr M(1) s'])
  have il: "inv_list (A @ x # B)" using inv L(1) by (simp add: us_inv_def)
  then have "sorted_wrt (<) (A @ x # B)" by (simp add: inv_list_def)
  from sorted_cut [OF this c(2)] have "\<not> below (x # B) c" by (rule below_none)
  then have "\<not> below (A @ x # B) c" using below_all [OF L(3)] L(2) by simp
  from ranges_insert [OF il M(1) c(1,3) this M(2)] show "ranges M = insert c (us_points s)" using L(1) by (simp add: us_points_def)
qed

lemma sorted_inv_list:
  "inv_list (A @ B) \<longleftrightarrow> sorted_wrt (<) (A @ B) \<and> A @ B \<noteq> [] \<and> last (A @ B) = UNICODESET_HIGH \<and> (\<forall>y \<in> set A. 0 \<le> y) \<and> (\<forall>y \<in> set B. 0 \<le> y)"
  by (auto simp: inv_list_def)

lemma add_collapse_ok:
  assumes inv: "us_inv s" and fr: "\<not> us_frozen s" and L: "us_elems s = A @ (c + 1) # B" "even (length A)" "\<forall>y \<in> set A. y \<le> c"
    and c: "0 \<le> c" "c < UNICODESET_HIGH"
    and B': "sorted_wrt (<) B'" "\<forall>y \<in> set B'. c < y" "B' \<noteq> []" "last B' = UNICODESET_HIGH"
      "\<And>y. y < UNICODESET_HIGH \<Longrightarrow> below B' y = below B y"
    and s1: "us_capacity s1 = int (length ((A @ c # B') @ t))" "us_len s1 = int (length (A @ c # B'))" "us_buffer s1 = us_buffer s"
      "us_bufferCapacity s1 = us_bufferCapacity s" "us_strings s1 = us_strings s" "us_bogus s1 = us_bogus s"
      "us_frozen s1 = us_frozen s" "us_list s1 = Some ((A @ c # B') @ t)"
  shows "\<exists>s'. add_collapse s1 (int (length A)) c = Some s' \<and> us_becomes heap s' (insert c (us_points s)) (us_strs s)"
proof -
  have A: "sorted_wrt (<) A" "\<forall>y \<in> set A. 0 \<le> y"
    using inv L(1) by (auto simp: us_inv_def inv_list_def sorted_wrt_append)
  note ins = insert_becomes [OF inv fr L c(1) _ c(2)]
  show ?thesis
  proof (cases "A \<noteq> [] \<and> last A = c")
    case True
    then obtain A' where A': "A = A' @ [c]" using append_butlast_last_id [of A] by metis
    obtain t' where mm: "memmove ((A' @ [c, c] @ B') @ t) (int (length A')) (int (length A') + int (length [c, c])) (int (length B')) =
        Some ((A' @ B') @ t')" "length t' = length [c, c] + length t"
      by (rule memmove_down)
    have rd: "rd ((A' @ c # c # B') @ t) (int (length A')) = Some c" by (simp add: rd_Some_iff nth_append)
    have M: "inv_list (A' @ B')" unfolding sorted_inv_list using A B' c(1) A' by (force simp: sorted_wrt_append)
    have bl: "below (A' @ B') y = (below (A @ (c + 1) # B) y \<noteq> (y = c))" if "y < UNICODESET_HIGH" for y
      using B'(5) [OF that] by (auto simp: A')
    show ?thesis
      by (rule exI [of _ "releasePattern (s1\<lparr>us_list := Some ((A' @ B') @ t'), us_len := int (length (A' @ B'))\<rparr>)"], rule conjI)
        (use s1 A' rd mm in \<open>simp add: add_collapse_def add.commute\<close>, rule ins [OF _ M bl, where t = t'], use s1 A' mm(2) in simp_all)
  next
    case False
    then have lt: "\<forall>y \<in> set A. y < c"
    proof -
      have "y < c" if y: "y \<in> set A" for y
      proof (rule ccontr)
        assume "\<not> y < c"
        then have yc: "y = c" using L(3) y by auto
        obtain A1 z where A1: "A = A1 @ [z]" using y by (cases A rule: rev_cases) auto
        then show False using False yc y A(1) L(3) by (auto simp: sorted_wrt_append)
      qed
      then show ?thesis by blast
    qed
    have M: "inv_list (A @ c # B')" unfolding sorted_inv_list using A B' c(1) lt by (force simp: sorted_wrt_append)
    have bl: "below (A @ c # B') y = (below (A @ (c + 1) # B) y \<noteq> (y = c))" if "y < UNICODESET_HIGH" for y
      using B'(5) [OF that] by auto
    have rd: "A \<noteq> [] \<Longrightarrow> rd ((A @ c # B') @ t) (int (length A) - 1) = Some (last A)"
      by (cases A rule: rev_cases) (simp_all add: rd_Some_iff nth_append)
    show ?thesis
      by (rule exI [of _ "releasePattern s1"], rule conjI)
        (use s1 rd False in \<open>cases "A = []"; auto simp: add_collapse_def\<close>, rule ins [OF _ M bl, where t = t], use s1 in simp_all)
  qed
qed

lemma add_before_ok:
  assumes inv: "us_inv s" and fr: "\<not> us_frozen s" and h: "heap_ok heap"
    and L: "us_elems s = A @ (c + 1) # B" "even (length A)" "\<forall>y \<in> set A. y \<le> c"
    and c: "0 \<le> c" "c < UNICODESET_HIGH"
    and s: "us_len s = int (length (A @ (c + 1) # B))" "us_capacity s = int (length ((A @ (c + 1) # B) @ t))"
  shows "\<exists>s'. add_before heap s ((A @ (c + 1) # B) @ t) (int (length A)) c = Some s' \<and>
    us_becomes heap s' (insert c (us_points s)) (us_strs s)"
proof -
  define s1 where "s1 = s\<lparr>us_list := Some ((A @ c # B) @ t)\<rparr>"
  have wr: "wr ((A @ (c + 1) # B) @ t) (int (length A)) c = Some ((A @ c # B) @ t)" by (simp add: wr_Some_iff)
  have srt: "sorted_wrt (<) (A @ (c + 1) # B)" and last: "last (A @ (c + 1) # B) = UNICODESET_HIGH"
    using inv L(1) by (simp_all add: us_inv_def inv_list_def)
  have B: "sorted_wrt (<) B" "\<forall>y \<in> set B. c < y" using srt by (auto simp: sorted_wrt_append)
  obtain v where v: "us_strings s = Some v" "uv_inv v" "uv_comparer v = Some (=)" by (rule us_inv_strings [OF inv])
  show ?thesis
  proof (cases "c = UNICODESET_HIGH - 1")
    case False
    have "B \<noteq> []" using last False by auto
    moreover from this have "last B = UNICODESET_HIGH" using last by simp
    ultimately show ?thesis
      using add_collapse_ok [OF inv fr L c B, of s1 t heap] wr False s by (simp add: add_before_def s1_def)
  next
    case True
    have B0: "B = []"
    proof (rule ccontr)
      assume "B \<noteq> []"
      moreover from this have "UNICODESET_HIGH \<in> set B" using last last_in_set [of B] by simp
      ultimately show False using srt True by (auto simp: sorted_wrt_append)
    qed
    have l: "us_list s1 = Some ((A @ [c]) @ t)" "A @ [c] \<noteq> []" "us_len s1 = int (length (A @ [c]))" "us_capacity s1 = int (length ((A @ [c]) @ t))"
      and v1: "us_strings s1 = Some v" "\<not> us_frozen s1" using v fr s B0 by (simp_all add: s1_def)
    show ?thesis
    proof (cases rule: ensureCapacity_ok [OF l v1(1) v(2,3) v1(2) h, of "us_len s1 + 1", case_names le grown failed])
      case le
      then show ?case by simp
    next
      case (failed s')
      have "add_before heap s ((A @ (c + 1) # B) @ t) (int (length A)) c = Some s'"
        using failed(1) wr True by (simp add: add_before_def s1_def)
      then show ?thesis using failed(2-4) by (auto simp: us_becomes_def)
    next
      case (grown s2 t')
      obtain z t2 where t2: "t' = z # t2" using grown(3) l(3) by (cases t') auto
      define s3 where "s3 = s2\<lparr>us_list := Some ((A @ c # [UNICODESET_HIGH]) @ t2), us_len := us_len s2 + 1\<rparr>"
      have w2: "wr ((A @ [c]) @ t') (us_len s2) UNICODESET_HIGH = Some ((A @ c # [UNICODESET_HIGH]) @ t2)"
        using grown(2) l(3) by (simp add: wr_Some_iff t2 nth_append list_update_append nat_add_distrib)
      have "\<exists>s'. add_collapse s3 (int (length A)) c = Some s' \<and> us_becomes heap s' (insert c (us_points s)) (us_strs s)"
        by (rule add_collapse_ok [OF inv fr L c, of "[UNICODESET_HIGH]" s3 t2])
          (use B0 True s grown(2) in \<open>simp_all add: s3_def s1_def t2\<close>)
      then show ?thesis using grown(1,2) wr True w2 by (simp add: add_before_def s3_def s1_def)
    qed
  qed
qed

lemma add_new_ok:
  assumes inv: "us_inv s" and fr: "\<not> us_frozen s" and h: "heap_ok heap"
    and L: "us_elems s = A @ x # B" "even (length A)" "\<forall>y \<in> set A. y < c"
    and c: "0 \<le> c" "c + 1 < x" "c < UNICODESET_HIGH"
    and s: "us_list s = Some ((A @ x # B) @ t)" "us_len s = int (length (A @ x # B))" "us_capacity s = int (length ((A @ x # B) @ t))"
  shows "\<exists>s'. add_new heap s (int (length A)) c = Some s' \<and> us_becomes heap s' (insert c (us_points s)) (us_strs s)"
proof -
  obtain v where v: "us_strings s = Some v" "uv_inv v" "uv_comparer v = Some (=)" by (rule us_inv_strings [OF inv])
  have ne: "A @ x # B \<noteq> []" and n: "us_len s \<le> us_len s + 2" by simp_all
  show ?thesis
  proof (cases rule: ensureCapacity_ok [OF s(1) ne s(2,3) v fr h n, case_names grown failed])
    case (failed s')
    then show ?thesis by (auto simp: add_new_def us_becomes_def)
  next
    case (grown s1 t1)
    have k: "2 \<le> length t1" using grown(3) s(2) by simp
    obtain G t2 where mm: "memmove ((A @ x # B) @ t1) (int (length A) + int 2) (int (length A)) (int (length (x # B))) = Some (A @ G @ (x # B) @ t2)"
      "length G = 2" "length (G @ t2) = length t1"
      by (rule memmove_up [OF k])
    obtain g1 g2 where G: "G = [g1, g2]" using mm(2) by (auto simp: length_Suc_conv numeral_2_eq_2)
    have w: "wr (A @ g1 # g2 # x # B @ t2) (int (length A)) c = Some (A @ c # g2 # x # B @ t2)"
      "wr (A @ c # g2 # x # B @ t2) (int (length A) + 1) (c + 1) = Some ((A @ c # (c + 1) # x # B) @ t2)"
      by (simp_all add: wr_Some_iff list_update_append nat_add_distrib)
    have il: "inv_list (A @ x # B)" using inv L(1) by (simp add: us_inv_def)
    then have M: "inv_list (A @ c # (c + 1) # x # B)"
      unfolding sorted_inv_list using L(3) c by (force simp: sorted_wrt_append)
    have bl: "below (A @ c # (c + 1) # x # B) y = (below (A @ x # B) y \<noteq> (y = c))" for y by auto
    have le: "\<forall>y \<in> set A. y \<le> c" "c < x" using L(3) c(2) by auto
    show ?thesis
      by (rule exI [of _ "releasePattern (s1\<lparr>us_list := Some ((A @ c # (c + 1) # x # B) @ t2), us_len := us_len s1 + 2\<rparr>)"], rule conjI)
        (use grown(1,2) mm(1) G w s(2) in \<open>simp add: add_new_def\<close>,
         rule insert_becomes [OF inv fr L(1,2) le(1) c(1) le(2) c(3) M bl, where t = t2],
         use grown(2) s mm(2,3) G in simp_all)
  qed
qed

lemma us_add_ok:
  assumes inv: "us_inv s" and fr: "\<not> us_frozen s" and h: "heap_ok heap"
  shows "\<exists>s'. us_add heap s c = Some s' \<and> us_becomes heap s' (insert (pinCodePoint c) (us_points s)) (us_strs s)"
proof -
  define d where "d = pinCodePoint c"
  have d: "0 \<le> d" "d < UNICODESET_HIGH" using pin_bounds by (simp_all add: d_def)
  obtain A x B t where f: "us_list s = Some ((A @ x # B) @ t)" "us_elems s = A @ x # B" "us_len s = int (length (A @ x # B))"
    "\<forall>y \<in> set A. y \<le> d" "d < x" "findCodePoint s d = Some (int (length A))" "us_capacity s = int (length ((A @ x # B) @ t))"
    by (rule findCodePoint_ok [OF inv d(2)])
  have b: "\<not> us_bogus s" using inv by (simp add: us_inv_def)
  have mem: "d \<in> us_points s \<longleftrightarrow> odd (length A)" by (rule found_odd [OF inv f(2,4,5) d])
  have rd: "rd ((A @ x # B) @ t) (int (length A)) = Some x" by (simp add: rd_Some_iff nth_append)
  show ?thesis
  proof (cases "odd (length A)")
    case True
    then have "us_add heap s c = Some s" using f(6) by (simp add: us_add_def flip: d_def)
    moreover have "insert d (us_points s) = us_points s" using True mem by blast
    ultimately show ?thesis using inv fr by (auto simp: us_becomes_def simp flip: d_def)
  next
    case ev: False
    have A: "sorted_wrt (<) A" "\<forall>y \<in> set A. 0 \<le> y" and xB: "sorted_wrt (<) (x # B)" "\<forall>y \<in> set (x # B). d < y"
      using inv f(2,5) by (auto simp: us_inv_def inv_list_def sorted_wrt_append)
    show ?thesis
    proof (cases "d = x - 1")
      case True
      then have x: "x = d + 1" by simp
      have "us_add heap s c = add_before heap s ((A @ x # B) @ t) (int (length A)) d"
        using ev f(1,6) fr b rd True by (simp add: us_add_def isFrozen_def isBogus_def flip: d_def)
      then show ?thesis using add_before_ok [OF inv fr h, of A d B t] f ev d unfolding x d_def [symmetric] by simp
    next
      case far: False
      have rdA: "rd ((A @ x # B) @ t) (int (length A) - 1) = Some (last A)" if "A \<noteq> []"
        using that by (cases A rule: rev_cases) (simp_all add: rd_Some_iff nth_append)
      show ?thesis
      proof (cases "A \<noteq> [] \<and> last A = d")
        case True
        then obtain A' where A': "A = A' @ [d]" using append_butlast_last_id [of A] by metis
        then have w: "wr ((A @ x # B) @ t) (int (length A) - 1) (d + 1) = Some ((A' @ (d + 1) # x # B) @ t)"
          by (simp add: wr_Some_iff)
        have "us_add heap s c = Some (releasePattern (s\<lparr>us_list := Some ((A' @ (d + 1) # x # B) @ t)\<rparr>))"
          using ev f(1,6) fr b rd far rdA w True by (simp add: us_add_def isFrozen_def isBogus_def flip: d_def)
        moreover have il: "inv_list (A @ x # B)" using inv f(2) by (simp add: us_inv_def)
        then have M: "inv_list (A' @ (d + 1) # x # B)"
          using far f(5) d(1) unfolding A' by (auto simp: inv_list_def sorted_wrt_append)
        have bl: "below (A' @ (d + 1) # x # B) y = (below (A @ x # B) y \<noteq> (y = d))" for y by (auto simp: A')
        have "us_becomes heap (releasePattern (s\<lparr>us_list := Some ((A' @ (d + 1) # x # B) @ t)\<rparr>)) (insert d (us_points s)) (us_strs s)"
          by (rule insert_becomes [OF inv fr f(2) _ f(4) d(1) f(5) d(2) M bl, where t = t])
            (use ev f(3,7) A' in simp_all)
        ultimately show ?thesis by (auto simp flip: d_def)
      next
        case False
        have lt: "\<forall>y \<in> set A. y < d"
          using False f(4) A(1) by (cases A rule: rev_cases) (force simp: sorted_wrt_append)+
        have "us_add heap s c = add_new heap s (int (length A)) d"
          using ev f(1,6) fr b rd far rdA False by (auto simp: us_add_def isFrozen_def isBogus_def simp flip: d_def)
        then show ?thesis using add_new_ok [OF inv fr h f(2) _ lt d(1) _ d(2) f(1,3,7)] ev far f(5) by (simp flip: d_def)
      qed
    qed
  qed
qed

section \<open>Ranges\<close>

lemma becomes_same: "us_inv s \<Longrightarrow> \<not> us_frozen s \<Longrightarrow> us_becomes heap s (us_points s) (us_strs s)"
  by (simp add: us_becomes_def)

lemma pinned_list:
  assumes "pinCodePoint x \<le> pinCodePoint y"
  obtains M ot where "[pinCodePoint x, pinCodePoint y + 1, UNICODESET_HIGH] = M @ ot" "inv_list M" "int (length M) \<le> 2 + 1"
    "ranges M = {pinCodePoint x..pinCodePoint y}"
  by (rule range_list [OF pin_bounds(1) assms pin_bounds(2)])

lemma us_add_range_ok:
  assumes inv: "us_inv s" and fr: "\<not> us_frozen s" and h: "heap_ok heap"
  shows "\<exists>s'. us_add_range heap s x y = Some s' \<and> us_becomes heap s' (us_points s \<union> {pinCodePoint x..pinCodePoint y}) (us_strs s)"
proof (cases "pinCodePoint x < pinCodePoint y")
  case True
  then have le: "pinCodePoint x \<le> pinCodePoint y" by simp
  obtain M ot where M: "[pinCodePoint x, pinCodePoint y + 1, UNICODESET_HIGH] = M @ ot" "inv_list M" "int (length M) \<le> 2 + 1"
    "ranges M = {pinCodePoint x..pinCodePoint y}" by (rule pinned_list [OF le])
  show ?thesis using add_list_ok [OF inv fr h M(2,3), of ot] True unfolding us_add_range_def Let_def M(1) M(4) by simp
next
  case False
  have pin: "pinCodePoint (pinCodePoint z) = pinCodePoint z" for z by (simp add: pinCodePoint_def UNICODESET_HIGH_def UNICODESET_LOW_def)
  show ?thesis
  proof (cases "pinCodePoint x = pinCodePoint y")
    case True
    then show ?thesis using us_add_ok [OF inv fr h, of "pinCodePoint x"] by (simp add: us_add_range_def pin)
  next
    case neq: False
    then have "{pinCodePoint x..pinCodePoint y} = {}" using False by simp
    then show ?thesis using False neq becomes_same [OF inv fr] by (simp add: us_add_range_def)
  qed
qed

lemma us_remove_range_ok:
  assumes inv: "us_inv s" and fr: "\<not> us_frozen s" and h: "heap_ok heap"
  shows "\<exists>s'. us_remove_range heap s x y = Some s' \<and> us_becomes heap s' (us_points s - {pinCodePoint x..pinCodePoint y}) (us_strs s)"
proof (cases "pinCodePoint x \<le> pinCodePoint y")
  case True
  obtain M ot where M: "[pinCodePoint x, pinCodePoint y + 1, UNICODESET_HIGH] = M @ ot" "inv_list M" "int (length M) \<le> 2 + 1"
    "ranges M = {pinCodePoint x..pinCodePoint y}" by (rule pinned_list [OF True])
  show ?thesis using retain_list_ok(2) [OF inv fr h M(2,3), of ot] True unfolding us_remove_range_def Let_def M(1) M(4) by simp
next
  case False
  then show ?thesis using becomes_same [OF inv fr] by (simp add: us_remove_range_def)
qed

lemma us_clear_becomes:
  assumes inv: "us_inv s" and fr: "\<not> us_frozen s"
  obtains s' where "us_clear s = Some s'" "us_inv s'" "\<not> us_frozen s'" "us_points s' = {}" "us_strs s' = {}"
proof -
  obtain L t where L: "us_list s = Some (L @ t)" "L \<noteq> []" "us_capacity s = int (length (L @ t))" by (rule us_inv_list [OF inv])
  obtain v where v: "us_strings s = Some v" "strings_ok v" "uv_inv v" by (rule us_inv_strings [OF inv])
  have ne: "L @ t \<noteq> []" using L(2) by simp
  obtain s' v' where s': "us_clear s = Some s'" "us_elems s' = [UNICODESET_HIGH]" "us_strs s' = {}" "us_bogus s' = False"
    "us_frozen s' = False" "us_list s' = Some (UNICODESET_HIGH # tl (L @ t))" "us_len s' = 1" "us_capacity s' = us_capacity s"
    "us_buffer s' = us_buffer s" "us_bufferCapacity s' = us_bufferCapacity s" "us_strings s' = Some v'"
    "uv_inv v'" "toArray v' = []" "uv_comparer v' = uv_comparer v" "uv_deleter v' = uv_deleter v"
    by (rule us_clear_ok [OF L(1) ne v(1,3) fr])
  have "strings_ok v'" using s'(12-15) v(2) by (simp add: strings_ok_def)
  moreover have "inv_list [UNICODESET_HIGH]" by (simp add: inv_list_def UNICODESET_HIGH_def)
  ultimately have "us_inv s'" using s' inv L ne by (auto simp: us_inv_def neq_Nil_conv)
  then show thesis using s'(1-5) by (intro that [of s']) (simp_all add: us_points_def)
qed

lemma us_retain_range_ok:
  assumes inv: "us_inv s" and fr: "\<not> us_frozen s" and h: "heap_ok heap"
  shows "\<exists>s'. us_retain_range heap s x y = Some s' \<and> us_becomes heap s' (us_points s \<inter> {pinCodePoint x..pinCodePoint y})
    (if pinCodePoint x \<le> pinCodePoint y then us_strs s else {})"
proof (cases "pinCodePoint x \<le> pinCodePoint y")
  case True
  obtain M ot where M: "[pinCodePoint x, pinCodePoint y + 1, UNICODESET_HIGH] = M @ ot" "inv_list M" "int (length M) \<le> 2 + 1"
    "ranges M = {pinCodePoint x..pinCodePoint y}" by (rule pinned_list [OF True])
  show ?thesis using retain_list_ok(1) [OF inv fr h M(2,3), of ot] True unfolding us_retain_range_def Let_def M(1) M(4) by simp
next
  case False
  obtain s' where "us_clear s = Some s'" "us_inv s'" "\<not> us_frozen s'" "us_points s' = {}" "us_strs s' = {}"
    by (rule us_clear_becomes [OF inv fr])
  then show ?thesis using False by (simp add: us_retain_range_def us_becomes_def)
qed

definition set_xor :: "'a set \<Rightarrow> 'a set \<Rightarrow> 'a set" where
  "set_xor A B = A - B \<union> (B - A)"

lemma becomes_release [simp]: "us_becomes heap (releasePattern s) P S = us_becomes heap s P S"
  by (simp add: us_becomes_def us_failed_def)

lemma us_complement_range_ok:
  assumes inv: "us_inv s" and fr: "\<not> us_frozen s" and h: "heap_ok heap"
  shows "\<exists>s'. us_complement_range heap s x y = Some s' \<and>
    us_becomes heap s' (set_xor (us_points s) {pinCodePoint x..pinCodePoint y}) (us_strs s)"
proof -
  have b: "\<not> us_bogus s" using inv by (simp add: us_inv_def)
  show ?thesis
  proof (cases "pinCodePoint x \<le> pinCodePoint y")
    case True
    obtain M ot where M: "[pinCodePoint x, pinCodePoint y + 1, UNICODESET_HIGH] = M @ ot" "inv_list M" "int (length M) \<le> 2 + 1"
      "ranges M = {pinCodePoint x..pinCodePoint y}" by (rule pinned_list [OF True])
    obtain s' where s': "exclusiveOr_list heap s (M @ ot) 2 0 = Some s'"
      "us_becomes heap s' (set_xor (us_points s) {pinCodePoint x..pinCodePoint y}) (us_strs s)"
      using xor_list_ok [OF inv fr h M(2,3), of ot] unfolding M(4) set_xor_def by auto
    then have "us_complement_range heap s x y = Some (releasePattern s')"
      using True b fr unfolding us_complement_range_def Let_def M(1) by (simp add: isFrozen_def isBogus_def)
    then show ?thesis using s'(2) by simp
  next
    case False
    then show ?thesis using becomes_same [OF inv fr] b fr by (simp add: us_complement_range_def isFrozen_def isBogus_def set_xor_def)
  qed
qed

lemma us_set_ok:
  assumes inv: "us_inv s" and fr: "\<not> us_frozen s" and h: "heap_ok heap"
  shows "\<exists>s'. us_set heap s x y = Some s' \<and> us_becomes heap s' {pinCodePoint x..pinCodePoint y} {}"
proof -
  obtain s1 where s1: "us_clear s = Some s1" "us_inv s1" "\<not> us_frozen s1" "us_points s1 = {}" "us_strs s1 = {}"
    by (rule us_clear_becomes [OF inv fr])
  then show ?thesis using us_complement_range_ok [OF s1(2,3) h, of x y] by (simp add: us_set_def set_xor_def)
qed

section \<open>Strings\<close>

interpretation strings: comparator compareUnicodeString
  by unfold_locales (auto simp: compareUnicodeString_def Let_def split: if_splits)

lemma uv_same_strings: "strings_ok v \<Longrightarrow> uv_same eqv v x y \<longleftrightarrow> x = y"
  by (simp add: strings_ok_def uv_same_def)

lemma uv_same_eq: "uv_comparer v = Some (=) \<Longrightarrow> uv_same eqv v = (=)"
  by (simp add: uv_same_def fun_eq_iff)

lemma uv_contains_ok:
  assumes "uv_inv v" "uv_comparer v = Some (=)"
  shows "uv_contains v x = Some (x \<in> set (toArray v))"
proof (cases rule: indexOf_cases [where eqv = "(=)", OF assms(1), of x, case_names none found])
  case none
  then show ?thesis using uv_same_eq [OF assms(2)] by (auto simp: uv_contains_def)
next
  case (found k)
  then show ?thesis using uv_same_eq [OF assms(2)] by (auto simp: uv_contains_def in_set_conv_nth)
qed

lemma us_inv_restring:
  assumes "us_inv s" "strings_ok v"
  shows "us_inv (s\<lparr>us_strings := Some v\<rparr>)" "us_points (s\<lparr>us_strings := w\<rparr>) = us_points s"
  using assms by (auto simp: us_inv_def us_elems_def us_points_def)

lemma us_strs_iff: "us_strings s = Some v \<Longrightarrow> str \<in> us_strs s \<longleftrightarrow> Some str \<in> set (toArray v)"
  by (simp add: us_strs_def)

lemma sortedInsert_frame:
  "sortedInsert malloc u e cmp ec = Some (u', ec') \<Longrightarrow> uv_comparer u' = uv_comparer u \<and> uv_deleter u' = uv_deleter u"
  by (auto simp: sortedInsert_def uv_ensureCapacity_def uv_insert_def bind_Some_iff Let_def split: if_splits option.splits prod.splits)

lemma us_insert_string_ok:
  assumes inv: "us_inv s" and fr: "\<not> us_frozen s" and h: "heap_ok heap" and new: "str \<notin> us_strs s"
  shows "\<exists>s'. us_insert_string heap s str = Some s' \<and> us_becomes heap s' (us_points s) (insert str (us_strs s))"
proof -
  have b: "\<not> us_bogus s" using inv by (simp add: us_inv_def)
  obtain L t where L: "us_list s = Some (L @ t)" "L \<noteq> []" by (rule us_inv_list [OF inv])
  obtain v where v: "us_strings s = Some v" "strings_ok v" "uv_inv v" "uv_comparer v = Some (=)" by (rule us_inv_strings [OF inv])
  have ne: "L @ t \<noteq> []" using L(2) by simp
  obtain s0 where s0: "setToBogus s = Some s0" "us_failed s0" "us_frozen s0 = us_frozen s"
    "uv_capacity (the (us_strings s0)) = uv_capacity v"
    by (rule setToBogus_any [OF L(1) ne v(1,3,4) fr])
  show ?thesis
  proof (cases "heap_string heap")
    case False
    then show ?thesis using s0 fr b by (auto simp: us_insert_string_def isFrozen_def isBogus_def us_becomes_def)
  next
    case True
    have srt: "cmp_sorted compareUnicodeString (toArray v)" and bo: "blocks_ok (heap_slots heap)"
      using v(2) h by (simp_all add: strings_ok_def heap_ok_def)
    obtain v' ec' where v': "sortedInsert (heap_slots heap) v (Some str) compareUnicodeString U_ZERO_ERROR = Some (v', ec')" "uv_inv v'"
      "ec' = U_ZERO_ERROR \<and> toArray v' = insert_after compareUnicodeString (Some str) (toArray v) \<and>
         cmp_sorted compareUnicodeString (toArray v') \<or>
       U_FAILURE ec' \<and> v' = v \<and> ((\<exists>k. heap_slots heap k = None) \<or> MAX_ELEMENTS < 2 * uv_capacity v + 1)"
      "uv_comparer v' = uv_comparer v" "uv_deleter v' = uv_deleter v"
      using sortedInsert_ok [OF strings.comparator_axioms v(3) bo srt, of "Some str" U_ZERO_ERROR] sortedInsert_frame [of "heap_slots heap" v "Some str"] by blast
    show ?thesis
    proof (cases "U_FAILURE ec'")
      case True
      then have "v' = v" "(\<exists>k. heap_slots heap k = None) \<or> MAX_ELEMENTS < 2 * uv_capacity v + 1" using v'(3) by auto
      moreover have "s\<lparr>us_strings := Some v\<rparr> = s" using v(1) by simp
      then have "setToBogus (s\<lparr>us_strings := Some v\<rparr>) = Some s0" using s0(1) by simp
      ultimately show ?thesis using True v'(1) v(1) s0 fr b \<open>heap_string heap\<close>
        by (auto simp: us_insert_string_def isFrozen_def isBogus_def us_becomes_def)
    next
      case False
      then have r: "toArray v' = insert_after compareUnicodeString (Some str) (toArray v)" "cmp_sorted compareUnicodeString (toArray v')"
        using v'(3) by auto
      have ms: "mset (toArray v') = mset (Some str # toArray v)" unfolding r(1) by (simp add: mset_insert_after)
      have st: "set (toArray v') = insert (Some str) (set (toArray v))" using mset_eq_setD [OF ms] by simp
      have "distinct (toArray v')" using mset_eq_imp_distinct_iff [OF ms] v(2) new us_strs_iff [OF v(1)] by (simp add: strings_ok_def)
      then have ok: "strings_ok v'" using v' r st v(2) by (simp add: strings_ok_def)
      have "us_becomes heap (s\<lparr>us_strings := Some v'\<rparr>) (us_points s) (insert str (us_strs s))"
        using us_inv_restring [OF inv ok] fr st v(1) by (auto simp: us_becomes_def us_strs_def)
      then show ?thesis using False v'(1) v(1) fr b True by (auto simp: us_insert_string_def isFrozen_def isBogus_def)
    qed
  qed
qed

section \<open>Operations with another set\<close>

lemma us_strings_id [simp]: "us_strings s = Some v \<Longrightarrow> s\<lparr>us_strings := Some v\<rparr> = s"
  by simp

text \<open>A set that has failed stays as it is.\<close>

definition becomes_failed :: "Heap \<Rightarrow> UnicodeSet \<Rightarrow> bool" where
  "becomes_failed heap s \<longleftrightarrow> us_failed s \<and> \<not> us_frozen s \<and>
     ((\<exists>k. heap_cells heap k = None) \<or> (\<exists>k. heap_slots heap k = None) \<or> \<not> heap_string heap \<or>
      MAX_ELEMENTS < 2 * uv_capacity (the (us_strings s)) + 1)"

lemma us_becomes_iff:
  "us_becomes heap s P S \<longleftrightarrow> us_inv s \<and> \<not> us_frozen s \<and> us_points s = P \<and> us_strs s = S \<or> becomes_failed heap s"
  by (simp add: us_becomes_def becomes_failed_def)

lemma becomes_cases:
  assumes "us_becomes heap s P S"
  obtains (ok) "us_inv s" "\<not> us_frozen s" "us_points s = P" "us_strs s = S"
    | (failed) v where "becomes_failed heap s" "us_bogus s" "us_strings s = Some v" "uv_inv v" "uv_comparer v = Some (=)" "toArray v = []"
proof (cases "becomes_failed heap s")
  case True
  then obtain v where "us_bogus s" "us_strings s = Some v" "uv_inv v" "uv_comparer v = Some (=)" "toArray v = []"
    unfolding becomes_failed_def us_failed_def by blast
  then show thesis by (rule failed [OF True])
next
  case False
  then show thesis using assms ok by (auto simp: us_becomes_iff)
qed

lemma becomes_failedD: "becomes_failed heap s \<Longrightarrow> us_becomes heap s P S"
  by (simp add: us_becomes_iff)

lemma strings_at:
  assumes "strings_ok w" "i < length (toArray w)"
  obtains str where "elementAt w (int i) = Some (Some str)" "toArray w ! i = Some str"
proof -
  have "uv_inv w" "None \<notin> set (toArray w)" using assms(1) by (simp_all add: strings_ok_def)
  moreover from this obtain str where "toArray w ! i = Some str" using nth_mem [OF assms(2)] by (cases "toArray w ! i") auto
  ultimately show thesis using that [of str] toArray_rd [of w "int i"] assms(2) by (simp add: elementAt_def uv_count_toArray)
qed

abbreviation strings_from :: "u16 list UVector \<Rightarrow> nat \<Rightarrow> u16 list set" where
  "strings_from w i \<equiv> {str. Some str \<in> set (drop i (toArray w))}"

lemma strings_from_step:
  assumes "i < length (toArray w)" "toArray w ! i = Some str"
  shows "strings_from w i = insert str (strings_from w (Suc i))"
  using assms by (auto simp: Cons_nth_drop_Suc [symmetric])

lemma add_strings_ok:
  assumes w: "strings_ok w" and h: "heap_ok heap"
  shows "i \<le> length (toArray w) \<Longrightarrow> us_becomes heap s P S \<Longrightarrow>
    \<exists>s'. add_strings heap s w (int i) = Some s' \<and> us_becomes heap s' P (S \<union> strings_from w i)"
proof (induction "length (toArray w) - i" arbitrary: i s S)
  case 0
  then show ?case using w by (subst add_strings.simps) (simp add: uv_count_toArray strings_ok_def)
next
  case (Suc n)
  then have i: "i < length (toArray w)" "int i < uv_count w" "n = length (toArray w) - Suc i" "Suc i \<le> length (toArray w)"
    using w by (simp_all add: uv_count_toArray strings_ok_def)
  obtain str where str: "elementAt w (int i) = Some (Some str)" "toArray w ! i = Some str" by (rule strings_at [OF w i(1)])
  have "\<exists>s1 v. us_strings s = Some v \<and> uv_contains v (Some str) = Some (Some str \<in> set (toArray v)) \<and>
      (if Some str \<notin> set (toArray v) then us_insert_string heap s str else Some s) = Some s1 \<and>
      us_becomes heap s1 P (insert str S)"
  proof (cases rule: becomes_cases [OF Suc.prems(2), case_names ok failed])
    case ok
    obtain v where v: "us_strings s = Some v" "strings_ok v" "uv_inv v" "uv_comparer v = Some (=)" by (rule us_inv_strings [OF ok(1)])
    have "str \<in> us_strs s \<Longrightarrow> insert str S = S" using ok(4) by blast
    then show ?thesis
      using v uv_contains_ok [OF v(3,4)] us_insert_string_ok [OF ok(1,2) h, of str] becomes_same [OF ok(1,2)] ok(3,4)
        us_strs_iff [OF v(1), of str] by (cases "str \<in> us_strs s") auto
  next
    case (failed v)
    then show ?thesis using uv_contains_ok [OF failed(4,5)] becomes_failedD [OF failed(1)]
      by (simp add: us_insert_string_def isBogus_def)
  qed
  then obtain s1 v where s1: "us_strings s = Some v" "uv_contains v (Some str) = Some (Some str \<in> set (toArray v))"
    "(if Some str \<notin> set (toArray v) then us_insert_string heap s str else Some s) = Some s1" "us_becomes heap s1 P (insert str S)"
    by blast
  have "add_strings heap s w (int i) = add_strings heap s1 w (int (Suc i))"
    by (subst add_strings.simps) (use i(2) str(1) s1 in \<open>simp add: add.commute\<close>)
  then show ?case using Suc.hyps(1) [OF i(3,4) s1(4)] strings_from_step [OF i(1) str(2)] by simp
qed

lemma us_set_parts:
  assumes "us_inv c"
  obtains M ot w where "us_list c = Some (M @ ot)" "inv_list M" "us_len c = int (length M)" "us_points c = ranges M"
    "us_strings c = Some w" "strings_ok w" "us_strs c = strings_from w 0"
proof -
  obtain M t where M: "us_list c = Some (M @ t)" "us_elems c = M" "us_len c = int (length M)" "inv_list M" by (rule us_inv_list [OF assms])
  obtain w where "us_strings c = Some w" "strings_ok w" by (rule us_inv_strings [OF assms])
  then show thesis using M by (intro that) (auto simp: us_points_def us_strs_def)
qed

lemma us_addAll_ok:
  assumes inv: "us_inv s" and fr: "\<not> us_frozen s" and h: "heap_ok heap" and c: "us_inv c"
  shows "\<exists>s'. us_addAll heap s c = Some s' \<and> us_becomes heap s' (us_points s \<union> us_points c) (us_strs s \<union> us_strs c)"
proof -
  obtain M ot w where M: "us_list c = Some (M @ ot)" "inv_list M" "us_len c = int (length M)" "us_points c = ranges M"
    "us_strings c = Some w" "strings_ok w" "us_strs c = strings_from w 0" by (rule us_set_parts [OF c])
  have n: "int (length M) \<le> us_len c + 1" "0 \<le> us_len c" "0 < us_len c" using M(2,3) by (simp_all add: inv_list_def)
  obtain s1 where s1: "add_list heap s (Some (M @ ot)) (us_len c) 0 = Some s1" "us_becomes heap s1 (us_points s \<union> ranges M) (us_strs s)"
    using add_list_ok [OF inv fr h M(2) n(1,2)] by blast
  from add_strings_ok [OF M(6) h _ s1(2), of 0] show ?thesis using s1(1) M n(3) by (simp add: us_addAll_def)
qed

lemma uv_retainAll_ok:
  assumes "uv_inv v" "strings_ok w"
  shows "\<exists>v' ch. uv_retainAll (=) v w = Some (v', ch) \<and> uv_inv v' \<and> toArray v' = filter (\<lambda>x. x \<in> set (toArray w)) (toArray v) \<and>
    uv_deleter v' = uv_deleter v \<and> uv_comparer v' = uv_comparer v"
proof -
  have w: "uv_inv w" "uv_same (=) w = (=)" using assms(2) by (simp_all add: strings_ok_def uv_same_eq)
  show ?thesis
    using retainAll_from_ok [OF w(1) assms(1) order_refl, of "(=)" False] uv_count_toArray [OF assms(1)] w(2)
    by (auto simp: uv_retainAll_def)
qed

lemma fold_remove1:
  "distinct xs \<Longrightarrow> fold remove1 ys xs = filter (\<lambda>x. x \<notin> set ys) xs"
  by (induction ys arbitrary: xs) (auto simp: distinct_remove1_removeAll removeAll_filter_not_eq conj_commute intro!: filter_cong)

lemma uv_removeAll_ok:
  assumes "uv_inv v" "uv_comparer v = Some (=)" "distinct (toArray v)" "strings_ok w"
  shows "\<exists>v' ch. uv_removeAll (=) v w = Some (v', ch) \<and> uv_inv v' \<and> toArray v' = filter (\<lambda>x. x \<notin> set (toArray w)) (toArray v) \<and>
    uv_deleter v' = uv_deleter v \<and> uv_comparer v' = uv_comparer v"
proof -
  have w: "uv_inv w" using assms(4) by (simp add: strings_ok_def)
  have "(\<lambda>y. remove_first (uv_same (=) v y)) = remove1" unfolding uv_same_eq [OF assms(2)]
    by (intro ext) (rule remove_first_eq)
  then show ?thesis using removeAll_from_ok [OF w le0 assms(1), of "(=)" False] fold_remove1 [OF assms(3), of "toArray w"]
    by (auto simp: uv_removeAll_def)
qed

lemma strings_filter:
  assumes "strings_ok v" "uv_inv v'" "toArray v' = filter Q (toArray v)" "uv_deleter v' = uv_deleter v" "uv_comparer v' = uv_comparer v"
  shows "strings_ok v'"
  using assms by (auto simp: strings_ok_def sorted_wrt_filter)

lemma us_retainAll_ok:
  assumes inv: "us_inv s" and fr: "\<not> us_frozen s" and h: "heap_ok heap" and c: "us_inv c"
  shows "\<exists>s'. us_retainAll heap s c = Some s' \<and> us_becomes heap s' (us_points s \<inter> us_points c) (us_strs s \<inter> us_strs c)"
proof -
  obtain M ot w where M: "us_list c = Some (M @ ot)" "inv_list M" "us_len c = int (length M)" "us_points c = ranges M"
    "us_strings c = Some w" "strings_ok w" "us_strs c = strings_from w 0" by (rule us_set_parts [OF c])
  have n: "int (length M) \<le> us_len c + 1" "0 \<le> us_len c" and b: "\<not> us_bogus s"
    using M(3) inv by (simp_all add: us_inv_def)
  obtain s1 where s1: "retain_list heap s (M @ ot) (us_len c) 0 = Some s1" "us_becomes heap s1 (us_points s \<inter> ranges M) (us_strs s)"
    using retain_list_ok(1) [OF inv fr h M(2) n] by blast
  have run: "us_retainAll heap s c = (case uv_retainAll (=) v w of None \<Rightarrow> None | Some (v', ch) \<Rightarrow> Some (s1\<lparr>us_strings := Some v'\<rparr>))"
    if "us_strings s1 = Some v" for v
    using that s1(1) M(1,5) b fr by (simp add: us_retainAll_def isFrozen_def isBogus_def split: option.splits)
  show ?thesis
  proof (cases rule: becomes_cases [OF s1(2), case_names ok failed])
    case ok
    obtain v where v: "us_strings s1 = Some v" "strings_ok v" "uv_inv v" by (rule us_inv_strings [OF ok(1)])
    obtain v' ch where v': "uv_retainAll (=) v w = Some (v', ch)" "uv_inv v'" "toArray v' = filter (\<lambda>x. x \<in> set (toArray w)) (toArray v)"
      "uv_deleter v' = uv_deleter v" "uv_comparer v' = uv_comparer v" using uv_retainAll_ok [OF v(3) M(6)] by blast
    have "us_becomes heap (s1\<lparr>us_strings := Some v'\<rparr>) (us_points s \<inter> us_points c) (us_strs s \<inter> us_strs c)"
      using us_inv_restring [OF ok(1) strings_filter [OF v(2) v'(2-5)]] ok v'(3) v(1) M(4,7)
      by (auto simp: us_becomes_iff us_strs_def)
    then show ?thesis using run [OF v(1)] v'(1) by auto
  next
    case (failed v)
    have "uv_retainAll (=) v w = Some (v, False)"
      using failed(4,6) by (simp add: uv_retainAll_def uv_count_toArray retainAll_from.simps [of _ _ _ "-1"])
    then show ?thesis using run [OF failed(3)] failed(3) becomes_failedD [OF failed(1)] by auto
  qed
qed

lemma removeAll_from_empty:
  assumes "uv_inv v" "toArray v = []" "uv_inv w"
  shows "i \<le> length (toArray w) \<Longrightarrow> removeAll_from (=) v w (int i) ch = Some (v, ch)"
proof (induction "length (toArray w) - i" arbitrary: i)
  case 0
  then show ?case by (subst removeAll_from.simps) (simp add: uv_count_toArray [OF assms(3)])
next
  case (Suc n)
  then have i: "int i < uv_count w" "n = length (toArray w) - Suc i" "Suc i \<le> length (toArray w)"
    by (simp_all add: uv_count_toArray [OF assms(3)])
  have "indexOf (=) v x 0 = Some (-1)" for x
    using uv_count_toArray [OF assms(1)] assms(2) by (simp add: indexOf_def indexOf_from.simps [of _ v x 0])
  then show ?case using Suc.hyps(1) [OF i(2,3)] i(1) toArray_rd [OF assms(3), of "int i"]
    by (subst removeAll_from.simps) (simp add: add.commute)
qed

lemma us_removeAll_ok:
  assumes inv: "us_inv s" and fr: "\<not> us_frozen s" and h: "heap_ok heap" and c: "us_inv c"
  shows "\<exists>s'. us_removeAll heap s c = Some s' \<and> us_becomes heap s' (us_points s - us_points c) (us_strs s - us_strs c)"
proof -
  obtain M ot w where M: "us_list c = Some (M @ ot)" "inv_list M" "us_len c = int (length M)" "us_points c = ranges M"
    "us_strings c = Some w" "strings_ok w" "us_strs c = strings_from w 0" by (rule us_set_parts [OF c])
  have n: "int (length M) \<le> us_len c + 1" "0 \<le> us_len c" and b: "\<not> us_bogus s" and w: "uv_inv w"
    using M(3,6) inv by (simp_all add: us_inv_def strings_ok_def)
  obtain s1 where s1: "retain_list heap s (M @ ot) (us_len c) 2 = Some s1" "us_becomes heap s1 (us_points s - ranges M) (us_strs s)"
    using retain_list_ok(2) [OF inv fr h M(2) n] by blast
  have run: "us_removeAll heap s c = (case uv_removeAll (=) v w of None \<Rightarrow> None | Some (v', ch) \<Rightarrow> Some (s1\<lparr>us_strings := Some v'\<rparr>))"
    if "us_strings s1 = Some v" for v
    using that s1(1) M(1,5) b fr by (simp add: us_removeAll_def isFrozen_def isBogus_def split: option.splits)
  show ?thesis
  proof (cases rule: becomes_cases [OF s1(2), case_names ok failed])
    case ok
    obtain v where v: "us_strings s1 = Some v" "strings_ok v" "uv_inv v" "uv_comparer v = Some (=)" by (rule us_inv_strings [OF ok(1)])
    have d: "distinct (toArray v)" using v(2) by (simp add: strings_ok_def)
    obtain v' ch where v': "uv_removeAll (=) v w = Some (v', ch)" "uv_inv v'" "toArray v' = filter (\<lambda>x. x \<notin> set (toArray w)) (toArray v)"
      "uv_deleter v' = uv_deleter v" "uv_comparer v' = uv_comparer v" using uv_removeAll_ok [OF v(3,4) d M(6)] by blast
    have "us_becomes heap (s1\<lparr>us_strings := Some v'\<rparr>) (us_points s - us_points c) (us_strs s - us_strs c)"
      using us_inv_restring [OF ok(1) strings_filter [OF v(2) v'(2-5)]] ok v'(3) v(1) M(4,7)
      by (auto simp: us_becomes_iff us_strs_def)
    then show ?thesis using run [OF v(1)] v'(1) by auto
  next
    case (failed v)
    have "uv_removeAll (=) v w = Some (v, False)"
      using removeAll_from_empty [OF failed(4,6) w, of 0] by (simp add: uv_removeAll_def)
    then show ?thesis using run [OF failed(3)] failed(3) becomes_failedD [OF failed(1)] by auto
  qed
qed

text \<open>The strings of a symmetric difference, one by one.\<close>

lemma complement_one:
  assumes b: "us_becomes heap s P S" and h: "heap_ok heap"
  shows "\<exists>s1 v v'. us_strings s = Some v \<and> removeElement v (Some str) = Some (v', Some str \<in> set (toArray v)) \<and>
    (if Some str \<notin> set (toArray v) then us_insert_string heap (s\<lparr>us_strings := Some v'\<rparr>) str else Some (s\<lparr>us_strings := Some v'\<rparr>)) = Some s1 \<and>
    us_becomes heap s1 P (set_xor S {str})"
proof -
  have rem: "\<exists>v'. removeElement v (Some str) = Some (v', Some str \<in> set (toArray v)) \<and> uv_inv v' \<and>
      toArray v' = remove1 (Some str) (toArray v) \<and> uv_deleter v' = uv_deleter v \<and> uv_comparer v' = uv_comparer v"
    if v: "uv_inv v" "uv_comparer v = Some (=)" for v
    using uv_removeElement_ok [OF v(1), of "Some str"] uv_same_eq [OF v(2)] remove_first_eq [of "Some str"] by auto
  show ?thesis
  proof (cases rule: becomes_cases [OF b, case_names ok failed])
    case ok
    obtain v where v: "us_strings s = Some v" "strings_ok v" "uv_inv v" "uv_comparer v = Some (=)" by (rule us_inv_strings [OF ok(1)])
    have d: "distinct (toArray v)" using v(2) by (simp add: strings_ok_def)
    obtain v' where v': "removeElement v (Some str) = Some (v', Some str \<in> set (toArray v))" "uv_inv v'"
      "toArray v' = remove1 (Some str) (toArray v)" "uv_deleter v' = uv_deleter v" "uv_comparer v' = uv_comparer v"
      using rem [OF v(3,4)] by blast
    have f: "toArray v' = filter (\<lambda>x. x \<noteq> Some str) (toArray v)"
      using v'(3) d by (simp add: distinct_remove1_removeAll removeAll_filter_not_eq) (rule filter_cong; auto)
    define s' where "s' = s\<lparr>us_strings := Some v'\<rparr>"
    have s': "us_inv s'" "\<not> us_frozen s'" "us_points s' = P" "us_strs s' = S - {str}"
      using us_inv_restring [OF ok(1) strings_filter [OF v(2) v'(2) f v'(4,5)]] ok f v(1) by (auto simp: s'_def us_strs_def)
    have mem: "Some str \<in> set (toArray v) \<longleftrightarrow> str \<in> S" using us_strs_iff [OF v(1)] ok(4) by blast
    show ?thesis
    proof (cases "str \<in> S")
      case True
      then have "us_becomes heap s' P (set_xor S {str})" using s' by (auto simp: us_becomes_iff set_xor_def)
      then show ?thesis using True mem v(1) v'(1) by (auto simp: s'_def)
    next
      case False
      then have e: "set_xor S {str} = insert str (us_strs s')" using s'(4) by (auto simp: set_xor_def)
      have "str \<notin> us_strs s'" using s'(4) by simp
      from us_insert_string_ok [OF s'(1,2) h this] show ?thesis unfolding e s'(3) using False mem v(1) v'(1) by (auto simp: s'_def)
    qed
  next
    case (failed v)
    obtain v' where "removeElement v (Some str) = Some (v', Some str \<in> set (toArray v))" using rem [OF failed(4,5)] by blast
    moreover have "removeElement v (Some str) = Some (v, False)"
      using uv_count_toArray [OF failed(4)] failed(6) by (simp add: removeElement_def indexOf_def indexOf_from.simps [of _ v _ 0])
    moreover have "s\<lparr>us_strings := Some v\<rparr> = s" using failed(3) by simp
    ultimately show ?thesis using failed becomes_failedD [OF failed(1)] by (simp add: us_insert_string_def isBogus_def)
  qed
qed

lemma complement_strings_ok:
  assumes w: "strings_ok w" and h: "heap_ok heap"
  shows "i \<le> length (toArray w) \<Longrightarrow> us_becomes heap s P S \<Longrightarrow>
    \<exists>s'. complement_strings heap s w (int i) = Some s' \<and> us_becomes heap s' P (set_xor S (strings_from w i))"
proof (induction "length (toArray w) - i" arbitrary: i s S)
  case 0
  then show ?case using w by (subst complement_strings.simps) (simp add: uv_count_toArray strings_ok_def set_xor_def)
next
  case (Suc n)
  then have i: "i < length (toArray w)" "int i < uv_count w" "n = length (toArray w) - Suc i" "Suc i \<le> length (toArray w)"
    using w by (simp_all add: uv_count_toArray strings_ok_def)
  obtain str where str: "elementAt w (int i) = Some (Some str)" "toArray w ! i = Some str" by (rule strings_at [OF w i(1)])
  obtain s1 v v' where s1: "us_strings s = Some v" "removeElement v (Some str) = Some (v', Some str \<in> set (toArray v))"
    "(if Some str \<notin> set (toArray v) then us_insert_string heap (s\<lparr>us_strings := Some v'\<rparr>) str else Some (s\<lparr>us_strings := Some v'\<rparr>)) = Some s1"
    "us_becomes heap s1 P (set_xor S {str})"
    using complement_one [OF Suc.prems(2) h, of str] by blast
  have "complement_strings heap s w (int i) = complement_strings heap s1 w (int (Suc i))"
    by (subst complement_strings.simps) (use i(2) str(1) s1 in \<open>simp add: Let_def add.commute split: if_splits\<close>)
  moreover have "str \<notin> strings_from w (Suc i)"
    using w i(1) str(2) distinct_drop [of "toArray w" i] by (simp add: strings_ok_def Cons_nth_drop_Suc [symmetric])
  then have "set_xor (set_xor S {str}) (strings_from w (Suc i)) = set_xor S (strings_from w i)"
    unfolding strings_from_step [OF i(1) str(2)] by (auto simp: set_xor_def)
  ultimately show ?case using Suc.hyps(1) [OF i(3,4) s1(4)] by simp
qed

lemma us_complementAll_ok:
  assumes inv: "us_inv s" and fr: "\<not> us_frozen s" and h: "heap_ok heap" and c: "us_inv c"
  shows "\<exists>s'. us_complementAll heap s c = Some s' \<and> us_becomes heap s' (set_xor (us_points s) (us_points c)) (set_xor (us_strs s) (us_strs c))"
proof -
  obtain M ot w where M: "us_list c = Some (M @ ot)" "inv_list M" "us_len c = int (length M)" "us_points c = ranges M"
    "us_strings c = Some w" "strings_ok w" "us_strs c = strings_from w 0" by (rule us_set_parts [OF c])
  have n: "int (length M) \<le> us_len c + 1" "0 \<le> us_len c" and b: "\<not> us_bogus s" using M(3) inv by (simp_all add: us_inv_def)
  obtain s1 where s1: "exclusiveOr_list heap s (M @ ot) (us_len c) 0 = Some s1"
    "us_becomes heap s1 (set_xor (us_points s) (ranges M)) (us_strs s)"
    using xor_list_ok [OF inv fr h M(2) n] unfolding set_xor_def by blast
  from complement_strings_ok [OF M(6) h _ s1(2), of 0] show ?thesis
    using s1(1) M b fr by (simp add: us_complementAll_def isFrozen_def isBogus_def)
qed

end
