(* ===== verification/UniSetProps.thy ===== *)
theory UniSetProps
  imports UniSetOps
begin

text \<open>
  Complement, contained ranges, ranks and serialization of a set, and the properties of the component.
\<close>

section \<open>The complement\<close>

lemma below_complement:
  assumes "inv_list L" "inv_list M" "\<And>y. 0 \<le> y \<Longrightarrow> below M y \<longleftrightarrow> \<not> below L y"
  shows "ranges M = {0..<UNICODESET_HIGH} - ranges L"
  using inv_list_ranges [OF assms(1)] inv_list_ranges [OF assms(2)] assms(3) by auto

lemma copied_ok:
  assumes inv: "us_inv s" and fr: "\<not> us_frozen s" and h: "heap_ok heap" and M: "inv_list M" "ranges M = P"
    and n: "upd (us_len s) = int (length M)"
    and copy: "\<And>buf. length M \<le> length buf \<Longrightarrow> \<exists>T. fill (us_len s) buf = Some (M @ T) \<and> length (M @ T) = length buf"
  shows "\<exists>s'. (do {
      (s, status) \<leftarrow> ensureBufferCapacity heap s (upd (us_len s)) U_ZERO_ERROR;
      if U_FAILURE status then Some s
      else do {
        buf \<leftarrow> us_buffer s;
        buf \<leftarrow> fill (us_len s) buf;
        Some (releasePattern (swapBuffers (s\<lparr>us_buffer := Some buf, us_len := upd (us_len s)\<rparr>))) } }) = Some s' \<and> us_becomes heap s' P (us_strs s)"
proof -
  have n0: "0 \<le> upd (us_len s)" using n by simp
  show ?thesis
  proof (cases rule: ensureBufferCapacity_ok [OF inv fr h n0, case_names grown failed])
    case (failed s')
    then show ?thesis by (auto simp: us_becomes_def)
  next
    case (grown buf s1)
    have "length M \<le> length buf" using grown(3) n by simp
    from copy [OF this] obtain T where T: "fill (us_len s) buf = Some (M @ T)" "length (M @ T) = length buf" by blast
    have "int (length buf) = int (length (M @ T))" using T(2) by simp
    then show ?thesis using grown(1,2) T(1) n swapped_ok(1,2) [where T = T, OF inv fr M(1)] swapped_ok(3,4) [OF inv fr M(1)] fr M(2)
      by (auto simp: us_becomes_def)
  qed
qed

lemma us_complement_ok:
  assumes inv: "us_inv s" and fr: "\<not> us_frozen s" and h: "heap_ok heap"
  shows "\<exists>s'. us_complement heap s = Some s' \<and> us_becomes heap s' ({0..<UNICODESET_HIGH} - us_points s) (us_strs s)"
proof -
  obtain L t where L: "us_list s = Some (L @ t)" "us_elems s = L" "us_len s = int (length L)" "inv_list L" "L \<noteq> []"
    by (rule us_inv_list [OF inv])
  obtain x R where R: "L = x # R" using L(5) by (cases L) auto
  have b: "\<not> us_bogus s" and p: "us_points s = ranges L" using inv L(2) by (simp_all add: us_inv_def us_points_def)
  have rd: "rd (L @ t) 0 = Some x" by (simp add: R rd_Some_iff)
  show ?thesis
  proof (cases "x = UNICODESET_LOW")
    case True
    then have "R \<noteq> []" using L(4) R by (auto simp: inv_list_def UNICODESET_HIGH_def UNICODESET_LOW_def)
    then have M: "inv_list R" using L(4) R by (auto simp: inv_list_def)
    have P: "ranges R = {0..<UNICODESET_HIGH} - us_points s" unfolding p
      by (rule below_complement [OF L(4) M]) (simp add: R True UNICODESET_LOW_def)
    have len: "us_len s - 1 = int (length R)" using L(3) R by simp
    have "\<exists>T. copy_cells buf 0 (L @ t) 1 (us_len s - 1) = Some (R @ T) \<and> length (R @ T) = length buf" if "length R \<le> length buf" for buf
      using that by (intro exI [of _ "drop (length R) buf"]) (simp add: len copy_cells_def overwrite_def seg_def R)
    from copied_ok [where fill = "\<lambda>n buf. copy_cells buf 0 (L @ t) 1 (n - 1)" and upd = "\<lambda>n. n - 1", OF inv fr h M P len this]
    show ?thesis using True rd L(1) fr b by (simp add: us_complement_def isFrozen_def isBogus_def)
  next
    case False
    then have pos: "0 < x" using L(4) R by (auto simp: inv_list_def UNICODESET_LOW_def order.strict_iff_order)
    then have M: "inv_list (UNICODESET_LOW # L)" using L(4) R by (auto simp: inv_list_def UNICODESET_LOW_def)
    have P: "ranges (UNICODESET_LOW # L) = {0..<UNICODESET_HIGH} - us_points s" unfolding p
      by (rule below_complement [OF L(4) M]) (simp add: UNICODESET_LOW_def)
    have len: "us_len s + 1 = int (length (UNICODESET_LOW # L))" using L(3) by simp
    have "\<exists>T. (do { buf \<leftarrow> copy_cells buf 1 (L @ t) 0 (us_len s); wr buf 0 UNICODESET_LOW }) = Some ((UNICODESET_LOW # L) @ T) \<and>
        length ((UNICODESET_LOW # L) @ T) = length buf" if "length (UNICODESET_LOW # L) \<le> length buf" for buf
      using that L(3) by (intro exI [of _ "drop (Suc (length L)) buf"])
        (cases buf; simp add: copy_cells_def overwrite_def seg_def wr_Some_iff)
    from copied_ok [where fill = "\<lambda>n buf. do { buf \<leftarrow> copy_cells buf 1 (L @ t) 0 n; wr buf 0 UNICODESET_LOW }" and upd = "\<lambda>n. n + 1", OF inv fr h M P len this]
    show ?thesis using False rd L(1) fr b by (simp add: us_complement_def isFrozen_def isBogus_def cong: if_cong)
  qed
qed

section \<open>Ranges that are contained\<close>

lemma contains_range_ok:
  assumes inv: "us_inv s" and r: "0 \<le> a" "a \<le> b" "b < UNICODESET_HIGH"
  shows "contains_range s a b = Some ({a..b} \<subseteq> us_points s)" "containsNone_range s a b = Some ({a..b} \<inter> us_points s = {})"
proof -
  have a: "a < UNICODESET_HIGH" using r by simp
  obtain A x B t where f: "us_list s = Some ((A @ x # B) @ t)" "us_elems s = A @ x # B"
    "us_len s = int (length (A @ x # B))" "\<forall>y \<in> set A. y \<le> a" "a < x" "findCodePoint s a = Some (int (length A))"
    by (rule findCodePoint_ok [OF inv a])
  have il: "inv_list (A @ x # B)" using inv f(2) by (simp add: us_inv_def)
  have rd: "rd ((A @ x # B) @ t) (int (length A)) = Some x" by (simp add: rd_Some_iff nth_append)
  have same: "y \<in> us_points s \<longleftrightarrow> odd (length A)" if "a \<le> y" "y \<le> b" "y < x" for y
    by (rule found_odd [OF inv f(2)]) (use that f(4) r in force)+
  have limit: "x \<in> us_points s \<longleftrightarrow> even (length A)" if le: "x \<le> b"
  proof -
    have "B \<noteq> []" using il le r(3) by (auto simp: inv_list_def)
    then obtain z R where B: "B = z # R" by (cases B) auto
    have xz: "x < z" "\<forall>y \<in> set (A @ [x]). y \<le> x" using il f(4,5) by (auto simp: B inv_list_def sorted_wrt_append)
    show ?thesis using found_odd [OF inv, of "A @ [x]" z R x] f(2,5) xz le r by (simp add: B)
  qed
  have parts: "{a..b} \<subseteq> us_points s \<longleftrightarrow> odd (length A) \<and> b < x" "{a..b} \<inter> us_points s = {} \<longleftrightarrow> even (length A) \<and> b < x"
  proof (atomize (full), cases "b < x")
    case True
    then have "\<forall>y \<in> {a..b}. y \<in> us_points s \<longleftrightarrow> odd (length A)" "a \<in> {a..b}" using same r by simp_all
    then show "({a..b} \<subseteq> us_points s \<longleftrightarrow> odd (length A) \<and> b < x) \<and> ({a..b} \<inter> us_points s = {} \<longleftrightarrow> even (length A) \<and> b < x)"
      using True by blast
  next
    case False
    then have "x \<in> {a..b}" "a \<in> {a..b}" "x \<in> us_points s \<longleftrightarrow> even (length A)" "a \<in> us_points s \<longleftrightarrow> odd (length A)"
      using limit same [of a] r f(5) by simp_all
    then show "({a..b} \<subseteq> us_points s \<longleftrightarrow> odd (length A) \<and> b < x) \<and> ({a..b} \<inter> us_points s = {} \<longleftrightarrow> even (length A) \<and> b < x)"
      using False by blast
  qed
  show "contains_range s a b = Some ({a..b} \<subseteq> us_points s)" "containsNone_range s a b = Some ({a..b} \<inter> us_points s = {})"
    unfolding parts using f(1,6) rd by (auto simp: contains_range_def containsNone_range_def)
qed

section \<open>Ranks\<close>

text \<open>The number of elements of a set in front of \<open>c\<close>.\<close>

definition rank :: "int set \<Rightarrow> int \<Rightarrow> int" where
  "rank P c = int (card {d \<in> P. d < c})"

lemma finite_ranges [simp]: "finite (ranges xs)"
  by (induction xs rule: ranges.induct) auto

lemma ranges_above: "sorted_wrt (<) (x # y # xs) \<Longrightarrow> c \<in> ranges xs \<Longrightarrow> y < c"
proof -
  assume a: "sorted_wrt (<) (x # y # xs)" "c \<in> ranges xs"
  then have "xs \<noteq> []" "hd xs \<le> c" using ranges_bounds [of xs c] by simp_all
  moreover from this have "y < hd xs" using a(1) hd_in_set [of xs] by simp
  ultimately show "y < c" by simp
qed

lemma card_ranges_Cons:
  assumes "sorted_wrt (<) (x # y # xs)"
  shows "int (card (ranges (x # y # xs))) = y - x + int (card (ranges xs))"
proof -
  have "{x..<y} \<inter> ranges xs = {}" using ranges_above [OF assms] by force
  then show ?thesis using assms by (simp add: card_Un_disjoint)
qed

lemma rank_ranges_Cons:
  assumes "sorted_wrt (<) (x # y # xs)"
  shows "c < y \<Longrightarrow> x \<le> c \<Longrightarrow> rank (ranges (x # y # xs)) c = c - x" "y \<le> c \<Longrightarrow> rank (ranges (x # y # xs)) c = y - x + rank (ranges xs) c"
proof -
  assume "c < y" "x \<le> c"
  then have "{d \<in> ranges (x # y # xs). d < c} = {x..<c}" using ranges_above [OF assms] by force
  then show "rank (ranges (x # y # xs)) c = c - x" using \<open>x \<le> c\<close> by (simp add: rank_def)
next
  assume le: "y \<le> c"
  have "{d \<in> ranges (x # y # xs). d < c} = {x..<y} \<union> {d \<in> ranges xs. d < c}" using le by auto
  moreover have "{x..<y} \<inter> {d \<in> ranges xs. d < c} = {}" using ranges_above [OF assms] by force
  ultimately show "rank (ranges (x # y # xs)) c = y - x + rank (ranges xs) c"
    using assms by (simp add: rank_def card_Un_disjoint)
qed

lemma indexOf_loop_ok:
  "sorted_wrt (<) L \<Longrightarrow> L \<noteq> [] \<Longrightarrow> c < last L \<Longrightarrow>
   indexOf_loop (P @ L @ t) c (int (length P)) n = Some (if c \<in> ranges L then n + rank (ranges L) c else -1)"
proof (induction L arbitrary: P n rule: ranges.induct [case_names 1 empty one])
  case (1 x y xs)
  have rd: "rd (P @ (x # y # xs) @ t) (int (length P)) = Some x" "rd (P @ (x # y # xs) @ t) (int (length P) + 1) = Some y"
    by (simp_all add: rd_Some_iff nth_append nat_add_distrib)
  have above: "y < d" if "d \<in> ranges xs" for d using ranges_above [OF 1(2) that] .
  consider "c < x" | "x \<le> c" "c < y" | "y \<le> c" "x \<le> c" using 1(2) by fastforce
  then show ?case
  proof cases
    case 1
    then have "c \<notin> ranges (x # y # xs)" using above [of c] \<open>sorted_wrt (<) (x # y # xs)\<close> by auto
    then show ?thesis using 1 rd by (subst indexOf_loop.simps) simp
  next
    case 2
    then show ?thesis using rd rank_ranges_Cons(1) [OF \<open>sorted_wrt (<) (x # y # xs)\<close> 2(2,1)] by (subst indexOf_loop.simps) simp
  next
    case 3
    have xs: "xs \<noteq> []" using 3 1(4) by auto
    have "indexOf_loop (P @ (x # y # xs) @ t) c (int (length P)) n = indexOf_loop ((P @ [x, y]) @ xs @ t) c (int (length (P @ [x, y]))) (n + (y - x))"
      using rd 3 by (subst indexOf_loop.simps) (simp add: add.commute)
    also have "\<dots> = Some (if c \<in> ranges xs then n + (y - x) + rank (ranges xs) c else -1)"
      by (rule 1(1)) (use 1 xs in simp_all)
    finally show ?thesis using rank_ranges_Cons(2) [OF \<open>sorted_wrt (<) (x # y # xs)\<close> 3(1)] 3 by simp
  qed
next
  case (one v)
  have "rd (P @ [v] @ t) (int (length P)) = Some v" by (simp add: rd_Some_iff nth_append)
  then show ?case using one by (subst indexOf_loop.simps) simp
qed simp

lemma charAt_loop_ok:
  "sorted_wrt (<) L \<Longrightarrow> 0 \<le> k \<Longrightarrow> len2 = int (length P) + 2 * int (length L div 2) \<Longrightarrow>
   \<exists>c. charAt_loop (P @ L @ t) len2 (int (length P)) k = Some c \<and>
     (if k < int (card (ranges L)) then c \<in> ranges L \<and> rank (ranges L) c = k else c = -1)"
proof (induction L arbitrary: P k rule: ranges.induct)
  case (1 x y xs)
  have rd: "rd (P @ (x # y # xs) @ t) (int (length P)) = Some x" "rd (P @ (x # y # xs) @ t) (int (length P) + 1) = Some y"
    by (simp_all add: rd_Some_iff nth_append nat_add_distrib)
  have lt: "int (length P) < len2" using 1(4) by simp
  note srt = \<open>sorted_wrt (<) (x # y # xs)\<close>
  show ?case
  proof (cases "k < y - x")
    case True
    then have "charAt_loop (P @ (x # y # xs) @ t) len2 (int (length P)) k = Some (x + k)"
      using rd lt by (subst charAt_loop.simps) simp
    moreover have "k < int (card (ranges (x # y # xs)))" using card_ranges_Cons [OF srt] True by simp
    ultimately show ?thesis using rank_ranges_Cons(1) [OF srt, of "x + k"] True 1(3) by auto
  next
    case False
    have "charAt_loop (P @ (x # y # xs) @ t) len2 (int (length P)) k = charAt_loop ((P @ [x, y]) @ xs @ t) len2 (int (length (P @ [x, y]))) (k - (y - x))"
      using rd lt False by (subst charAt_loop.simps) (simp add: Let_def add.commute)
    moreover obtain c where "charAt_loop ((P @ [x, y]) @ xs @ t) len2 (int (length (P @ [x, y]))) (k - (y - x)) = Some c"
      "if k - (y - x) < int (card (ranges xs)) then c \<in> ranges xs \<and> rank (ranges xs) c = k - (y - x) else c = -1"
      using 1(1) [of "k - (y - x)" "P @ [x, y]"] srt False 1(4) by auto
    ultimately show ?thesis using card_ranges_Cons [OF srt] rank_ranges_Cons(2) [OF srt, of c] ranges_above [OF srt, of c]
      by (auto split: if_splits)
  qed
qed (subst charAt_loop.simps; simp)+

lemma and_not_1: "(n :: int) AND NOT 1 = 2 * (n div 2)"
  using unset_bit_eq_and_not [of 0 n] unset_bit_0 [of n] by simp

lemma us_rank_ok:
  assumes inv: "us_inv s"
  shows "us_indexOf s c = Some (if c \<in> us_points s then rank (us_points s) c else -1)"
    "\<exists>c. us_charAt s k = Some c \<and>
      (if 0 \<le> k \<and> k < int (card (us_points s)) then c \<in> us_points s \<and> rank (us_points s) c = k else c = -1)"
proof -
  obtain L t where L: "us_list s = Some (L @ t)" "us_elems s = L" "us_len s = int (length L)" "inv_list L" "L \<noteq> []"
    by (rule us_inv_list [OF inv])
  have srt: "sorted_wrt (<) L" and last: "last L = UNICODESET_HIGH" and p: "us_points s = ranges L"
    using L by (simp_all add: inv_list_def us_points_def)
  show "us_indexOf s c = Some (if c \<in> us_points s then rank (us_points s) c else -1)"
  proof (cases "0 \<le> c \<and> c < UNICODESET_HIGH")
    case True
    then show ?thesis using indexOf_loop_ok [OF srt L(5), of c "[]" t 0] last L(1) p
      by (simp add: us_indexOf_def UNICODESET_HIGH_def)
  next
    case False
    then show ?thesis using points_below [OF inv, of c] by (auto simp: us_indexOf_def UNICODESET_HIGH_def)
  qed
  show "\<exists>c. us_charAt s k = Some c \<and>
      (if 0 \<le> k \<and> k < int (card (us_points s)) then c \<in> us_points s \<and> rank (us_points s) c = k else c = -1)"
  proof (cases "0 \<le> k")
    case True
    have "us_len s AND NOT 1 = int (length []) + 2 * int (length L div 2)" unfolding and_not_1 using L(3) by (simp add: zdiv_int)
    from charAt_loop_ok [OF srt True this, of t] show ?thesis using L(1) True p by (cases "k < int (card (ranges L))") (auto simp: us_charAt_def)
  qed (simp add: us_charAt_def)
qed

section \<open>Serialization\<close>

definition bmp_units :: "int list \<Rightarrow> u16 list" where
  "bmp_units B = map word_of_int B"

definition supp_units :: "int list \<Rightarrow> u16 list" where
  "supp_units S = concat (map (\<lambda>x. [word_of_int (drop_bit 16 x), word_of_int x]) S)"

lemma units_simps [simp]:
  "bmp_units [] = []" "bmp_units (x # B) = word_of_int x # bmp_units B"
  "supp_units [] = []" "supp_units (x # S) = word_of_int (drop_bit 16 x) # word_of_int x # supp_units S"
  "length (bmp_units B) = length B" "length (supp_units S) = 2 * length S"
  by (simp_all add: bmp_units_def supp_units_def) (induction S; simp)

lemma rd_at: "rd (A @ x # B) (int (length A)) = Some x" "i = int (length A) \<Longrightarrow> rd (A @ x # B) i = Some x"
  by (simp_all add: rd_Some_iff nth_append)

lemma wr_at: "wr (A @ x # B) (int (length A)) y = Some (A @ y # B)"
  by (simp add: wr_Some_iff)

lemma write_bmp_ok:
  "length Q = length B \<Longrightarrow> write_bmp (H @ Q @ R) (int (length H)) (A @ B @ C) (int (length A)) (int (length A) + int (length B)) =
     Some (H @ bmp_units B @ R)"
proof (induction B arbitrary: H Q A)
  case Nil
  then show ?case by (subst write_bmp.simps) simp
next
  case (Cons x B)
  then obtain q Q' where Q: "Q = q # Q'" by (cases Q) auto
  have "write_bmp (H @ Q @ R) (int (length H)) (A @ (x # B) @ C) (int (length A)) (int (length A) + int (length (x # B))) =
      write_bmp ((H @ [word_of_int x]) @ Q' @ R) (int (length (H @ [word_of_int x :: u16]))) ((A @ [x]) @ B @ C) (int (length (A @ [x])))
        (int (length (A @ [x])) + int (length B))"
    by (subst write_bmp.simps) (simp add: Q rd_at wr_at add.commute add.left_commute)
  also have "\<dots> = Some ((H @ [word_of_int x]) @ bmp_units B @ R)" by (rule Cons.IH) (use Cons.prems Q in simp)
  finally show ?case by simp
qed

lemma write_supp_ok:
  "length Q = 2 * length S \<Longrightarrow> write_supp (H @ Q @ R) (int (length H)) (A @ S @ C) (int (length A)) i (i + 2 * int (length S)) =
     Some (H @ supp_units S @ R)"
proof (induction S arbitrary: H Q A i)
  case Nil
  then show ?case by (subst write_supp.simps) simp
next
  case (Cons x S)
  then obtain q r Q' where Q: "Q = q # r # Q'" by (cases Q; cases "tl Q") auto
  let ?H = "H @ [word_of_int (drop_bit 16 x), word_of_int x] :: u16 list"
  have "write_supp (H @ Q @ R) (int (length H)) (A @ (x # S) @ C) (int (length A)) i (i + 2 * int (length (x # S))) =
      write_supp (?H @ Q' @ R) (int (length ?H)) ((A @ [x]) @ S @ C) (int (length (A @ [x]))) (i + 2) (i + 2 + 2 * int (length S))"
    by (subst write_supp.simps) (simp add: Q rd_at wr_at nat_add_distrib list_update_append add.assoc add.commute add.left_commute)
  also have "\<dots> = Some (?H @ supp_units S @ R)" by (rule Cons.IH) (use Cons.prems Q in simp)
  finally show ?case by simp
qed

lemma read_bmp_ok:
  "length Q = length B \<Longrightarrow> length D = length A \<Longrightarrow> \<forall>x \<in> set B. 0 \<le> x \<and> x \<le> 0xffff \<Longrightarrow>
   read_bmp (A @ Q @ R) (H @ D @ bmp_units B @ E) (int (length H)) (int (length A)) (int (length A) + int (length B)) = Some (A @ B @ R)"
proof (induction B arbitrary: Q A D)
  case Nil
  then show ?case by (subst read_bmp.simps) simp
next
  case (Cons x B)
  then obtain q Q' where Q: "Q = q # Q'" by (cases Q) auto
  have ux: "uint (word_of_int x :: u16) = x" using Cons.prems(3) by (simp add: uint_word_of_int)
  have rd: "rd (H @ D @ word_of_int x # bmp_units B @ E) (int (length A) + int (length H)) = Some (word_of_int x)"
    using rd_at(1) [of "H @ D"] Cons.prems(2) by (simp add: add.commute)
  have "read_bmp (A @ Q @ R) (H @ D @ bmp_units (x # B) @ E) (int (length H)) (int (length A)) (int (length A) + int (length (x # B))) =
      read_bmp ((A @ [x]) @ Q' @ R) (H @ (D @ [word_of_int x]) @ bmp_units B @ E) (int (length H)) (int (length (A @ [x])))
        (int (length (A @ [x])) + int (length B))"
    by (subst read_bmp.simps) (simp add: Q rd wr_at ux add.commute add.left_commute)
  also have "\<dots> = Some ((A @ [x]) @ B @ R)" by (rule Cons.IH) (use Cons.prems Q in simp_all)
  finally show ?case by simp
qed

lemma supp_unit: "0 \<le> x \<Longrightarrow> x < UNICODESET_HIGH \<Longrightarrow>
    push_bit 16 (uint (word_of_int (drop_bit 16 x) :: u16)) + uint (word_of_int x :: u16) = x"
proof -
  assume x: "0 \<le> x" "x < UNICODESET_HIGH"
  then have "0 \<le> x div 65536" "x div 65536 < 65536" by (simp_all add: UNICODESET_HIGH_def)
  then have "uint (word_of_int (drop_bit 16 x) :: u16) = x div 65536" by (simp add: uint_word_of_int drop_bit_eq_div)
  then show ?thesis by (simp add: uint_word_of_int push_bit_eq_mult mult.commute)
qed

lemma read_supp_ok:
  "length Q = length S \<Longrightarrow> hs + bl + (int (length A) - bl) * 2 = int (length H) \<Longrightarrow> \<forall>x \<in> set S. 0 \<le> x \<and> x < UNICODESET_HIGH \<Longrightarrow>
   read_supp (A @ Q @ R) (H @ supp_units S @ E) hs bl (int (length A)) (int (length A) + int (length S)) = Some (A @ S @ R)"
proof (induction S arbitrary: Q A H)
  case Nil
  then show ?case by (subst read_supp.simps) simp
next
  case (Cons x S)
  then obtain q Q' where Q: "Q = q # Q'" by (cases Q) auto
  let ?u = "[word_of_int (drop_bit 16 x), word_of_int x] :: u16 list"
  have x: "0 \<le> x" "x < UNICODESET_HIGH" using Cons.prems(3) by simp_all
  have rd: "rd (H @ supp_units (x # S) @ E) (hs + bl + (int (length A) - bl) * 2) = Some (word_of_int (drop_bit 16 x))"
    "rd (H @ supp_units (x # S) @ E) (hs + bl + (int (length A) - bl) * 2 + 1) = Some (word_of_int x)"
    unfolding Cons.prems(2) using rd_at(1) [of "H @ [word_of_int (drop_bit 16 x)]"] by (simp_all add: rd_at add.commute)
  have "read_supp (A @ Q @ R) (H @ supp_units (x # S) @ E) hs bl (int (length A)) (int (length A) + int (length (x # S))) =
      read_supp ((A @ [x]) @ Q' @ R) ((H @ ?u) @ supp_units S @ E) hs bl (int (length (A @ [x]))) (int (length (A @ [x])) + int (length S))"
    by (subst read_supp.simps) (use rd supp_unit [OF x] in \<open>simp add: Q wr_at add.commute add.left_commute\<close>)
  also have "\<dots> = Some ((A @ [x]) @ S @ R)" by (rule Cons.IH) (use Cons.prems Q in simp_all)
  finally show ?case by simp
qed

lemma bmp_count_ok:
  "\<forall>y \<in> set B. y \<le> 0xffff \<Longrightarrow> 0xffff < x \<Longrightarrow> int (length A) + int (length B) < n \<Longrightarrow>
   bmp_count (A @ B @ x # C) (int (length A)) n = Some (int (length A) + int (length B))"
proof (induction B arbitrary: A)
  case Nil
  then show ?case by (subst bmp_count.simps) (simp add: rd_at)
next
  case (Cons y B)
  have "bmp_count (A @ (y # B) @ x # C) (int (length A)) n = bmp_count ((A @ [y]) @ B @ x # C) (int (length (A @ [y]))) n"
    by (subst bmp_count.simps) (use Cons.prems in \<open>simp add: rd_at add.commute\<close>)
  also have "\<dots> = Some (int (length (A @ [y])) + int (length B))" by (rule Cons.IH) (use Cons.prems in simp_all)
  finally show ?case by simp
qed

lemma header_word:
  assumes "0 \<le> n" "n \<le> 0x7fff"
  shows "(word_of_int n OR 0x8000 :: u16) AND 0x8000 \<noteq> 0" "uint ((word_of_int n OR 0x8000 :: u16) AND 0x7FFF) = n"
    "(word_of_int n :: u16) AND 0x8000 = 0" "uint ((word_of_int n :: u16) AND 0x7FFF) = n" "uint (word_of_int n :: u16) = n"
proof -
  have n: "n = take_bit 15 n" using assms by (simp add: take_bit_int_eq_self)
  have bits: "bit (0x8000 :: u16) k \<longleftrightarrow> k = 15" "bit (0x7FFF :: u16) k \<longleftrightarrow> k < 15" for k
  proof -
    have "(0x8000 :: u16) = push_bit 15 1" "(0x7FFF :: u16) = mask 15" by (simp_all add: mask_eq_exp_minus_1)
    then show "bit (0x8000 :: u16) k \<longleftrightarrow> k = 15" "bit (0x7FFF :: u16) k \<longleftrightarrow> k < 15"
      by (auto simp only: bit_push_bit_iff bit_mask_iff) (auto simp: bit_1_iff)
  qed
  have wn: "bit (word_of_int n :: u16) k \<longleftrightarrow> k < 15 \<and> bit n k" for k
    by (subst n) (auto simp: bit_word_of_int_iff bit_take_bit_iff)
  have a: "(word_of_int n OR 0x8000 :: u16) AND 0x7FFF = word_of_int n" "(word_of_int n :: u16) AND 0x8000 = 0"
    "(word_of_int n :: u16) AND 0x7FFF = word_of_int n"
    by (rule bit_word_eqI; simp only: bit_and_iff bit_or_iff bits wn bit_0_eq bot_apply; auto)+
  show u: "uint (word_of_int n :: u16) = n" using assms by (simp add: uint_word_of_int)
  show "(word_of_int n :: u16) AND 0x8000 = 0" by (rule a(2))
  show "uint ((word_of_int n OR 0x8000 :: u16) AND 0x7FFF) = n" "uint ((word_of_int n :: u16) AND 0x7FFF) = n"
    unfolding a by (rule u)+
  have "bit ((word_of_int n OR 0x8000 :: u16) AND 0x8000) 15" by (simp only: bit_and_iff bit_or_iff bits simp_thms)
  then show "(word_of_int n OR 0x8000 :: u16) AND 0x8000 \<noteq> 0" by (metis bit_0_eq bot_apply bot_bool_def)
qed
text \<open>The serialized form of the list \<open>B @ S @ [UNICODESET_HIGH]\<close>: \<open>B\<close> is in the BMP and \<open>S\<close> is not.\<close>

definition serialized :: "int list \<Rightarrow> int list \<Rightarrow> u16 list" where
  "serialized B S =
     (if S = [] then [word_of_int (int (length B))]
      else [word_of_int (int (length B) + 2 * int (length S)) OR 0x8000, word_of_int (int (length B))]) @
     bmp_units B @ supp_units S"

lemma us_split:
  assumes "us_inv s"
  obtains B S t where "us_list s = Some ((B @ S @ [UNICODESET_HIGH]) @ t)" "us_elems s = B @ S @ [UNICODESET_HIGH]"
    "us_len s = int (length (B @ S @ [UNICODESET_HIGH]))" "\<forall>x \<in> set B. 0 \<le> x \<and> x \<le> 0xffff"
    "\<forall>x \<in> set S. 0xffff < x \<and> x < UNICODESET_HIGH"
proof -
  obtain L t where L: "us_list s = Some (L @ t)" "us_elems s = L" "us_len s = int (length L)" "inv_list L" "L \<noteq> []"
    by (rule us_inv_list [OF assms])
  define K where "K = butlast L"
  have K: "L = K @ [UNICODESET_HIGH]" using L(4,5) append_butlast_last_id [of L] by (simp add: inv_list_def K_def)
  have srt: "sorted_wrt (<) K" "\<forall>x \<in> set K. 0 \<le> x \<and> x < UNICODESET_HIGH" using L(4) K by (auto simp: inv_list_def sorted_wrt_append)
  define B where "B = takeWhile (\<lambda>x. x \<le> 0xffff) K"
  define S where "S = dropWhile (\<lambda>x. x \<le> 0xffff) K"
  have BS: "K = B @ S" by (simp add: B_def S_def)
  have B: "\<forall>x \<in> set B. x \<le> 0xffff" using set_takeWhileD by (fastforce simp: B_def)
  have S: "\<forall>x \<in> set S. 0xffff < x"
  proof (cases S)
    case (Cons y R)
    then have "0xffff < y" using hd_dropWhile [of "\<lambda>x. x \<le> 0xffff" K] by (simp flip: S_def)
    then show ?thesis using srt(1) Cons by (auto simp: BS sorted_wrt_append)
  qed simp
  show thesis by (rule that [of B S t]) (use L K BS B S srt(2) in auto)
qed

lemma serialize_header:
  assumes "length (serialized B S) \<le> length dest"
  obtains H Q where "serialized B S = H @ bmp_units B @ supp_units S" "length H = (if S = [] then 1 else 2)"
    "(do { d \<leftarrow> wr dest 0 (if 0 < length S then word_of_int (int (length B) + 2 * int (length S)) OR 0x8000
                        else word_of_int (int (length B) + 2 * int (length S)));
           if 0 < length S then wr d 1 (word_of_int (int (length B))) else Some d }) =
       Some (H @ Q @ drop (length (serialized B S)) dest)"
    "length Q = length B + 2 * length S"
proof -
  define H :: "u16 list" where "H = (if S = [] then [word_of_int (int (length B))]
      else [word_of_int (int (length B) + 2 * int (length S)) OR 0x8000, word_of_int (int (length B))])"
  have H: "serialized B S = H @ bmp_units B @ supp_units S" "length H = (if S = [] then 1 else 2)"
    by (simp_all add: serialized_def H_def)
  define Q where "Q = take (length B + 2 * length S) (drop (length H) dest)"
  have d: "dest = take (length H) dest @ Q @ drop (length (serialized B S)) dest"
  proof -
    have "drop (length (serialized B S)) dest = drop (length B + 2 * length S) (drop (length H) dest)"
      using H(1) by (simp add: add.commute add.left_commute)
    then show ?thesis unfolding Q_def by (simp only: append_take_drop_id)
  qed
  obtain X where X: "take (length H) dest = X" by blast
  have lh: "length X = length H" and lq: "length Q = length B + 2 * length S"
    using assms H by (simp_all add: Q_def flip: X)
  have "(do { d \<leftarrow> wr dest 0 (if 0 < length S then word_of_int (int (length B) + 2 * int (length S)) OR 0x8000
                        else word_of_int (int (length B) + 2 * int (length S)));
           if 0 < length S then wr d 1 (word_of_int (int (length B))) else Some d }) =
       Some (H @ Q @ drop (length (serialized B S)) dest)"
  proof (cases "S = []")
    case True
    then obtain x where "X = [x]" using lh H(2) by (auto simp: length_Suc_conv)
    then show ?thesis using True X by (subst d) (simp add: H_def wr_Some_iff)
  next
    case False
    then obtain x y where "X = [x, y]" using lh H(2) by (auto simp: length_Suc_conv numeral_2_eq_2)
    then show ?thesis using False X by (subst d) (simp add: H_def wr_Some_iff)
  qed
  then show thesis using that H lq by blast
qed

lemma us_serialize_ok:
  assumes L: "us_list s = Some ((B @ S @ [UNICODESET_HIGH]) @ t)" "us_len s = int (length (B @ S @ [UNICODESET_HIGH]))"
    and B: "\<forall>x \<in> set B. 0 \<le> x \<and> x \<le> 0xffff" and S: "\<forall>x \<in> set S. 0xffff < x \<and> x < UNICODESET_HIGH"
    and cap: "0 \<le> cap" "cap \<le> int (length dest)" and n: "int (length B) + 2 * int (length S) \<le> 0x7fff"
  shows "us_serialize s (Some dest) cap U_ZERO_ERROR =
    (if int (length (serialized B S)) \<le> cap
     then Some (Some (serialized B S @ drop (length (serialized B S)) dest), int (length (serialized B S)), U_ZERO_ERROR)
     else Some (Some dest, int (length (serialized B S)), U_BUFFER_OVERFLOW_ERROR))"
proof (cases "B @ S = []")
  case True
  then show ?thesis using L cap by (cases dest) (auto simp: us_serialize_def serialized_def Let_def wr_Some_iff)
next
  case ne: False
  have len: "us_len s - 1 = int (length (B @ S))" using L(2) by simp
  have hi: "rd ((B @ S @ [UNICODESET_HIGH]) @ t) (us_len s - 1 - 1) = Some (last (B @ S))"
    using ne unfolding len by (cases "B @ S" rule: rev_cases) (simp_all add: rd_Some_iff nth_append flip: append_assoc)
  have lo: "rd ((B @ S @ [UNICODESET_HIGH]) @ t) 0 = Some (hd (B @ S))"
    using ne by (cases "B @ S") (simp_all add: rd_Some_iff flip: append_assoc)
  have bl: "(if last (B @ S) \<le> 0xffff then Some (int (length (B @ S))) else if hd (B @ S) \<ge> 0x10000 then Some 0
      else bmp_count ((B @ S @ [UNICODESET_HIGH]) @ t) 0 (int (length (B @ S)))) = Some (int (length B))"
  proof (cases S)
    case Nil
    then show ?thesis using ne B by simp
  next
    case (Cons x R)
    then have l: "\<not> last (B @ S) \<le> 0xffff" using S last_in_set [of S] by (simp add: not_le)
    show ?thesis
    proof (cases B)
      case Nil
      have h: "0x10000 \<le> hd (B @ S)" using Nil Cons S by simp
      show ?thesis unfolding if_not_P [OF l] if_P [OF h] using Nil by simp
    next
      case (Cons b B')
      then have h: "\<not> 0x10000 \<le> hd (B @ S)" using B by simp
      show ?thesis unfolding if_not_P [OF l] if_not_P [OF h] using B S \<open>S = x # R\<close> bmp_count_ok [of B x "[]" "int (length (B @ S))" "R @ [UNICODESET_HIGH] @ t"] by simp
    qed
  qed
  have dl: "int (length B) + 2 * int (length S) + (if 0 < length S then 2 else 1) = int (length (serialized B S))"
    by (simp add: serialized_def)
  have gt: "int (length B) + 2 * int (length S) > int (length B) \<longleftrightarrow> 0 < length S" by simp
  have nz: "int (length B) + int (length S) \<noteq> 0" using ne by (cases B; cases S) auto
  have sub: "int (length B) + 2 * (int (length (B @ S)) - int (length B)) = int (length B) + 2 * int (length S)" by simp
  show ?thesis
  proof (cases "int (length (serialized B S)) \<le> cap")
    case False
    have "int (length B) + 2 * int (length S) + (if 0 < length S then 2 else 1) \<noteq> cap" using False dl by linarith
    then show ?thesis unfolding us_serialize_def Let_def len L(1) option.simps bind.simps hi [unfolded len] lo bl sub gt dl
      using False n cap nz by simp
  next
    case True
    then have le: "length (serialized B S) \<le> length dest" using cap by simp
    obtain H Q where H: "serialized B S = H @ bmp_units B @ supp_units S" "length H = (if S = [] then 1 else 2)"
      "(do { d \<leftarrow> wr dest 0 (if 0 < length S then word_of_int (int (length B) + 2 * int (length S)) OR 0x8000
                        else word_of_int (int (length B) + 2 * int (length S)));
           if 0 < length S then wr d 1 (word_of_int (int (length B))) else Some d }) =
       Some (H @ Q @ drop (length (serialized B S)) dest)" "length Q = length B + 2 * length S"
      by (rule serialize_header [OF le])
    let ?R = "drop (length (serialized B S)) dest"
    have h: "(if 0 < length S then 2 else 1) = int (length H)" using H(2) by simp
    obtain Q1 Q2 where Q: "Q = Q1 @ Q2" "length Q1 = length B" "length Q2 = 2 * length S"
      using H(4) that [of "take (length B) Q" "drop (length B) Q"] by simp
    have w1: "write_bmp (H @ Q @ ?R) (int (length H)) ((B @ S @ [UNICODESET_HIGH]) @ t) 0 (int (length B)) = Some (H @ bmp_units B @ Q2 @ ?R)"
      using write_bmp_ok [OF Q(2), of H "Q2 @ ?R" "[]" "S @ [UNICODESET_HIGH] @ t"] Q(1) by simp
    have w2: "write_supp (H @ bmp_units B @ Q2 @ ?R) (int (length H) + int (length B)) ((B @ S @ [UNICODESET_HIGH]) @ t) (int (length B)) (int (length B))
        (int (length B) + 2 * int (length S)) = Some (serialized B S @ ?R)"
      using write_supp_ok [OF Q(3), of "H @ bmp_units B" ?R B "[UNICODESET_HIGH] @ t" "int (length B)"] H(1) by simp
    show ?thesis
      using True n cap ne nz H(3) w1 w2 hi lo bl
      unfolding us_serialize_def Let_def len L(1) option.simps bind.simps hi [unfolded len] lo bl sub gt h dl [unfolded h]
      by (auto simp: bind_Some_iff)
  qed
qed

lemma allocateStrings_ok:
  assumes "heap_ok heap" "heap_vector heap" "heap_slots heap 1 \<noteq> None"
  obtains v where "allocateStrings heap s U_ZERO_ERROR = (s\<lparr>us_strings := Some v\<rparr>, U_ZERO_ERROR)" "strings_ok v" "toArray v = []"
proof -
  obtain b where b: "heap_slots heap 1 = Some b" "int (length b) = 1"
    using assms(1,3) zero_le_one unfolding heap_ok_def blocks_ok_def by blast
  define v where "v = \<lparr>uv_count = 0, uv_capacity = 1, uv_elements = b, uv_deleter = True, uv_comparer = Some (=), uv_deleted = []\<rparr>"
  have "new_UVector (heap_slots heap) True (Some (=)) 1 U_ZERO_ERROR = (v, U_ZERO_ERROR)"
    using b by (simp add: new_UVector_def uv_init_def v_def MAX_ELEMENTS_def INT32_MAX_def)
  moreover have "strings_ok v" "toArray v = []"
    using b(2) by (simp_all add: v_def strings_ok_def uv_inv_def toArray_def MAX_ELEMENTS_def INT32_MAX_def)
  ultimately show thesis using assms(2) by (intro that [of v]) (simp_all add: allocateStrings_def)
qed

lemma us_deserialize_ok:
  assumes B: "\<forall>x \<in> set B. 0 \<le> x \<and> x \<le> 0xffff" and S: "\<forall>x \<in> set S. 0xffff < x \<and> x < UNICODESET_HIGH"
    and L: "inv_list (B @ S @ [UNICODESET_HIGH])" and n: "int (length B) + 2 * int (length S) \<le> 0x7fff" and dl: "1 \<le> dataLen"
    and h: "heap_ok heap" "heap_vector heap" "heap_slots heap 1 \<noteq> None" "heap_cells heap (int (length (B @ S)) + 1) \<noteq> None"
  shows "\<exists>u. us_deserialize heap (Some (serialized B S @ E)) dataLen True U_ZERO_ERROR = Some (u, U_ZERO_ERROR) \<and>
    us_inv u \<and> us_elems u = B @ S @ [UNICODESET_HIGH] \<and> us_strs u = {}"
proof -
  obtain v where v: "allocateStrings heap (raw_set 1 (1 + START_EXTRA)) U_ZERO_ERROR =
      ((raw_set 1 (1 + START_EXTRA))\<lparr>us_strings := Some v\<rparr>, U_ZERO_ERROR)" "strings_ok v" "toArray v = []"
    by (rule allocateStrings_ok [OF h(1-3)])
  obtain l where l: "heap_cells heap (int (length (B @ S)) + 1) = Some l" "int (length l) = int (length (B @ S)) + 1"
    using h(1,4) by (auto simp: heap_ok_def blocks_ok_def)
  define W where "W = (word_of_int (int (length B) + 2 * int (length S)) :: u16)"
  define d0 where "d0 = (if S = [] then W else W OR 0x8000)"
  define H where "H = (if S = [] then [d0] else [d0, word_of_int (int (length B))])"
  have sz: "serialized B S = H @ bmp_units B @ supp_units S" by (simp add: serialized_def H_def d0_def W_def)
  have hw: "(W OR 0x8000) AND 0x8000 \<noteq> 0" "uint ((W OR 0x8000) AND 0x7FFF) = int (length B) + 2 * int (length S)" "W AND 0x8000 = 0"
    "uint (W AND 0x7FFF) = int (length B) + 2 * int (length S)" "uint W = int (length B) + 2 * int (length S)"
    unfolding W_def using header_word [of "int (length B) + 2 * int (length S)"] n by simp_all
  have ub: "uint (word_of_int (int (length B)) :: u16) = int (length B)" using header_word(5) [of "int (length B)"] n by simp
  have hs: "(if d0 AND 0x8000 \<noteq> 0 then 2 else 1) = int (length H)" using header_word(1,3) [of "int (length B) + 2 * int (length S)"] n
    by (auto simp: d0_def H_def W_def)
  have r0: "rd (serialized B S @ E) 0 = Some d0" by (simp add: sz H_def rd_Some_iff)
  have bl: "map_option uint (if int (length H) = 1 then Some d0 else rd (serialized B S @ E) 1) = Some (int (length B))"
    using ub hw(5) by (auto simp: sz H_def rd_Some_iff d0_def)
  have u: "uint (d0 AND 0x7FFF) = int (length B) + 2 * int (length S)" using hw by (simp add: d0_def)
  have len: "(int (length B) + 2 * int (length S) - int (length B)) sdiv 2 + int (length B) = int (length (B @ S))"
    by (cases S) (simp_all add: signed_divide_int_def sgn_if)
  obtain l1 l2 z where ls: "l = l1 @ l2 @ [z]" "length l1 = length B" "length l2 = length S"
  proof -
    have "l \<noteq> []" using l(2) by auto
    then have e: "l = take (length B) (butlast l) @ drop (length B) (butlast l) @ [last l]"
      unfolding append_assoc [symmetric] append_take_drop_id by simp
    show thesis by (rule that [OF e]) (use l(2) in simp_all)
  qed
  have r1: "read_bmp l (serialized B S @ E) (int (length H)) 0 (int (length B)) = Some (B @ l2 @ [z])"
    using read_bmp_ok [OF ls(2), of "[]" "[]" "l2 @ [z]" H "supp_units S @ E"] B by (simp add: ls(1) sz)
  have S0: "\<forall>x \<in> set S. 0 \<le> x \<and> x < UNICODESET_HIGH" using S by force
  have r2: "read_supp (B @ l2 @ [z]) (serialized B S @ E) (int (length H)) (int (length B)) (int (length B)) (int (length (B @ S))) =
      Some (B @ S @ [z])"
    using read_supp_ok [OF ls(3) _ S0, of "int (length H)" "int (length B)" B "H @ bmp_units B" "[z]" E] by (simp add: sz)
  have w: "wr (B @ S @ [z]) (int (length (B @ S))) UNICODESET_HIGH = Some (B @ S @ [UNICODESET_HIGH])"
    using wr_at [of "B @ S" z "[]"] by simp
  define u where "u = (raw_set 1 (1 + START_EXTRA))\<lparr>us_strings := Some v, us_len := int (length (B @ S)), us_capacity := int (length (B @ S)) + 1,
    us_list := Some (B @ S @ [UNICODESET_HIGH]), us_len := int (length (B @ S)) + 1\<rparr>"
  have c: "(\<not> True \<or> dataLen < 1) = False" using dl by simp
  have "us_deserialize heap (Some (serialized B S @ E)) dataLen True U_ZERO_ERROR = Some (u, U_ZERO_ERROR)"
    by (simp only: us_deserialize_def Let_def v(1) prod.case option.case U_FAILURE_simps if_False c r0 bind.simps hs bl
      \<open>uint (d0 AND 0x7FFF) = _\<close> len l(1) r1 r2 w UnicodeSet.simps u_def)
  moreover have "us_inv u" "us_elems u = B @ S @ [UNICODESET_HIGH]" "us_strs u = {}"
    using v(2,3) L by (simp_all add: u_def us_inv_def us_elems_def us_strs_def raw_set_def nat_add_distrib)
  ultimately show ?thesis by blast
qed

section \<open>Properties\<close>

text \<open>Sets and an allocator for the examples.\<close>

definition example_heap :: Heap where
  "example_heap = \<lparr>heap_cells = (\<lambda>n. Some (replicate (nat n) 0)), heap_slots = (\<lambda>n. Some (replicate (nat n) None)),
     heap_vector = True, heap_string = True\<rparr>"

definition example_set :: "UChar32 list \<Rightarrow> u16 list option list \<Rightarrow> UnicodeSet" where
  "example_set l strs = \<lparr>us_len = int (length l), us_capacity = int (length l), us_list = Some l, us_frozen = False,
     us_buffer = None, us_bufferCapacity = 0, us_pat = None,
     us_strings = Some \<lparr>uv_count = int (length strs), uv_capacity = int (length strs), uv_elements = strs, uv_deleter = True,
       uv_comparer = Some (=), uv_deleted = []\<rparr>,
     us_bogus = False\<rparr>"

lemma example_heap_ok: "heap_ok example_heap"
  by (simp add: heap_ok_def blocks_ok_def example_heap_def)

lemma example_heap_simps [simp]:
  "heap_cells example_heap = (\<lambda>n. Some (replicate (nat n) 0))" "heap_slots example_heap = (\<lambda>n. Some (replicate (nat n) None))"
  "heap_vector example_heap" "heap_string example_heap"
  by (simp_all add: example_heap_def)

lemma example_set_simps [simp]:
  "us_len (example_set l strs) = int (length l)"
  "us_frozen (example_set l strs) = False" "us_points (example_set l strs) = ranges l"
  "us_strs (example_set l strs) = {str. Some str \<in> set strs}"
  by (simp_all add: example_set_def us_points_def us_elems_def us_strs_def toArray_def)

lemma example_set_inv:
  assumes "inv_list l" "int (length strs) \<le> MAX_ELEMENTS" "None \<notin> set strs" "cmp_sorted compareUnicodeString strs" "distinct strs"
  shows "us_inv (example_set l strs)"
  using assms by (simp add: us_inv_def us_elems_def example_set_def strings_ok_def uv_inv_def toArray_def)

lemma example_sets:
  "us_inv (example_set [5, 8, UNICODESET_HIGH] [Some [0x61, 0x62], Some [0x63, 0x64]])"
  "us_inv (example_set [7, UNICODESET_HIGH] [Some [0x63, 0x64]])"
  by (rule example_set_inv; simp add: inv_list_def UNICODESET_HIGH_def MAX_ELEMENTS_def INT32_MAX_def compareUnicodeString_def)+

text \<open>
  C11: the operations with another set are union, intersection, difference, symmetric difference and complement,
  on the code points (the merging loops over inversion lists) and on the strings (a sorted vector). They keep the
  invariant of the set: an increasing list that ends with \<open>UNICODESET_HIGH\<close> in arrays of the recorded
  capacity, strings sorted and without repetition. No access is out of bounds. Without memory the
  result is the empty bogus set.
\<close>

theorem us_algebra_correct:
  assumes "us_inv s" "\<not> us_frozen s" "heap_ok heap" "us_inv c"
  shows "(\<exists>s'. us_addAll heap s c = Some s' \<and> us_becomes heap s' (us_points s \<union> us_points c) (us_strs s \<union> us_strs c)) \<and>
    (\<exists>s'. us_retainAll heap s c = Some s' \<and> us_becomes heap s' (us_points s \<inter> us_points c) (us_strs s \<inter> us_strs c)) \<and>
    (\<exists>s'. us_removeAll heap s c = Some s' \<and> us_becomes heap s' (us_points s - us_points c) (us_strs s - us_strs c)) \<and>
    (\<exists>s'. us_complementAll heap s c = Some s' \<and>
       us_becomes heap s' (set_xor (us_points s) (us_points c)) (set_xor (us_strs s) (us_strs c))) \<and>
    (\<exists>s'. us_complement heap s = Some s' \<and> us_becomes heap s' ({0..<UNICODESET_HIGH} - us_points s) (us_strs s))"
  using us_addAll_ok [OF assms] us_retainAll_ok [OF assms] us_removeAll_ok [OF assms] us_complementAll_ok [OF assms]
    us_complement_ok [OF assms(1-3)] by blast

theorem us_algebra_correct_witness:
  "\<exists>s'. us_complementAll example_heap (example_set [5, 8, UNICODESET_HIGH] [Some [0x61, 0x62], Some [0x63, 0x64]])
      (example_set [7, UNICODESET_HIGH] [Some [0x63, 0x64]]) = Some s' \<and>
    us_becomes example_heap s' ({5..<7} \<union> {8..<UNICODESET_HIGH}) {[0x61, 0x62]}"
proof -
  have "set_xor (ranges [5, 8, UNICODESET_HIGH]) (ranges [7, UNICODESET_HIGH]) = {5..<7} \<union> {8..<UNICODESET_HIGH}"
    by (auto simp: set_xor_def UNICODESET_HIGH_def)
  moreover have "set_xor {str. Some str \<in> set [Some [0x61, 0x62], Some [0x63, 0x64 :: u16]]} {str. Some str \<in> set [Some [0x63, 0x64]]} = {[0x61, 0x62]}"
    by (auto simp: set_xor_def)
  ultimately show ?thesis using us_algebra_correct [OF example_sets(1) _ example_heap_ok example_sets(2)] by simp
qed



text \<open>
  C13: the binary search of \<open>findCodePoint\<close> answers membership: \<open>contains\<close> of a code point, \<open>contains\<close> of a range
  (all of it) and \<open>containsNone\<close> of a range, without reading out of bounds.
\<close>

theorem us_contains_correct:
  assumes "us_inv s" "0 \<le> x" "x \<le> y" "y \<le> 0x10FFFF"
  shows "us_contains s x = Some (x \<in> us_points s) \<and>
    contains_range s x y = Some ({x..y} \<subseteq> us_points s) \<and>
    containsNone_range s x y = Some ({x..y} \<inter> us_points s = {})"
  using us_contains_ok [OF assms(1,2)] contains_range_ok [OF assms(1-3)] assms(4) by (simp add: UNICODESET_HIGH_def)

theorem us_contains_correct_witness:
  "us_contains (example_set [7, UNICODESET_HIGH] [Some [0x63, 0x64]]) 7 = Some True \<and>
   contains_range (example_set [7, UNICODESET_HIGH] [Some [0x63, 0x64]]) 7 0x10FFFF = Some True \<and>
   containsNone_range (example_set [7, UNICODESET_HIGH] [Some [0x63, 0x64]]) 7 0x10FFFF = Some False"
proof -
  have "{7..0x10FFFF} \<subseteq> {7..<UNICODESET_HIGH}" "(7::int) \<in> {7..0x10FFFF} \<inter> {7..<UNICODESET_HIGH}"
    by (auto simp: UNICODESET_HIGH_def)
  moreover from this(2) have "\<not> {7..0x10FFFF} \<inter> {7..<UNICODESET_HIGH} = {}" by blast
  ultimately show ?thesis using us_contains_correct [OF example_sets(2), of 7 "0x10FFFF"] by simp
qed

text \<open>
  \<open>indexOf\<close> gives the number of code points of the set in front of \<open>c\<close>, \<open>-1\<close> when the set does not have \<open>c\<close>,
  and \<open>charAt\<close> is its inverse: each gives back what the other was given.
\<close>

lemma us_indexOf_charAt:
  assumes "us_inv s"
  shows "us_indexOf s c = Some (if c \<in> us_points s then int (card {d \<in> us_points s. d < c}) else -1) \<and>
    (c \<in> us_points s \<longrightarrow> do { i \<leftarrow> us_indexOf s c; us_charAt s i } = Some c) \<and>
    (if 0 \<le> k \<and> k < int (card (us_points s)) then do { d \<leftarrow> us_charAt s k; us_indexOf s d } = Some k
     else us_charAt s k = Some (-1))"
proof -
  note io = us_rank_ok(1) [OF assms]
  note ca = us_rank_ok(2) [OF assms]
  have fin: "finite (us_points s)" by (simp add: us_points_def)
  have lt: "rank (us_points s) d < rank (us_points s) e" if "d \<in> us_points s" "d < e" for d e
  proof -
    have "{f \<in> us_points s. f < d} \<subset> {f \<in> us_points s. f < e}" using that by auto
    then show ?thesis using psubset_card_mono [of "{f \<in> us_points s. f < e}"] fin by (simp add: rank_def)
  qed
  have inverse: "do { i \<leftarrow> us_indexOf s c; us_charAt s i } = Some c" if c: "c \<in> us_points s"
  proof -
    have "{d \<in> us_points s. d < c} \<subset> us_points s" using c by auto
    then have "rank (us_points s) c < int (card (us_points s))" using psubset_card_mono [OF fin] by (simp add: rank_def)
    moreover have "0 \<le> rank (us_points s) c" by (simp add: rank_def)
    ultimately obtain d where "us_charAt s (rank (us_points s) c) = Some d" "d \<in> us_points s" "rank (us_points s) d = rank (us_points s) c"
      using ca [of "rank (us_points s) c"] by auto
    moreover from this have "d = c" using lt [of d c] lt [of c d] c by (cases d c rule: linorder_cases) auto
    ultimately show ?thesis using io [of c] c by simp
  qed
  show ?thesis using io inverse ca [of k] by (auto simp: rank_def)
qed

lemma us_indexOf_charAt_witness:
  "us_indexOf (example_set [5, 8, UNICODESET_HIGH] [Some [0x61, 0x62], Some [0x63, 0x64]]) 3 = Some (-1) \<and>
   us_charAt (example_set [5, 8, UNICODESET_HIGH] [Some [0x61, 0x62], Some [0x63, 0x64]]) (-1) = Some (-1)"
  using us_indexOf_charAt [OF example_sets(1), of 3 "-1"] by simp

text \<open>
  C20: a set without strings survives serialization: \<open>serialize\<close> into enough memory writes the 16-bit units and
  leaves what follows them, with less memory it returns the needed length and
  \<open>U_BUFFER_OVERFLOW_ERROR\<close>, and the constructor from serialized data reads the same code points back.
\<close>

theorem us_serialize_roundtrip:
  assumes inv: "us_inv s" and n: "2 * us_len s \<le> 0x7fff"
    and h: "heap_ok heap" "heap_vector heap" "heap_slots heap 1 \<noteq> None" "heap_cells heap (us_len s) \<noteq> None"
    and cap: "0 \<le> cap" "cap \<le> int (length dest)"
  shows "\<exists>u. us_serialize s (Some dest) cap U_ZERO_ERROR =
      (if int (length u) \<le> cap then Some (Some (u @ drop (length u) dest), int (length u), U_ZERO_ERROR)
       else Some (Some dest, int (length u), U_BUFFER_OVERFLOW_ERROR)) \<and>
    (\<exists>t. us_deserialize heap (Some (u @ rest)) (int (length u)) True U_ZERO_ERROR = Some (t, U_ZERO_ERROR) \<and>
      us_inv t \<and> us_points t = us_points s \<and> us_strs t = {})"
proof -
  obtain B S t where BS: "us_list s = Some ((B @ S @ [UNICODESET_HIGH]) @ t)" "us_elems s = B @ S @ [UNICODESET_HIGH]"
    "us_len s = int (length (B @ S @ [UNICODESET_HIGH]))" "\<forall>x \<in> set B. 0 \<le> x \<and> x \<le> 0xffff"
    "\<forall>x \<in> set S. 0xffff < x \<and> x < UNICODESET_HIGH"
    by (rule us_split [OF inv])
  have m: "int (length B) + 2 * int (length S) \<le> 0x7fff" using n BS(3) by simp
  have hc: "heap_cells heap (int (length (B @ S)) + 1) \<noteq> None" using h(4) BS(3) by (simp add: add.commute add.left_commute)
  have il: "inv_list (B @ S @ [UNICODESET_HIGH])" using inv BS(2) by (simp add: us_inv_def)
  have "1 \<le> int (length (serialized B S))" by (simp add: serialized_def)
  from us_deserialize_ok [OF BS(4,5) il m this h(1-3) hc, of rest] us_serialize_ok [OF BS(1,3-5) cap m] BS(2)
  show ?thesis by (intro exI [of _ "serialized B S"]) (auto simp: us_points_def)
qed

theorem us_serialize_roundtrip_witness:
  "\<exists>u. us_serialize (example_set [5, 8, UNICODESET_HIGH] [Some [0x61, 0x62], Some [0x63, 0x64]]) (Some [1, 1, 1, 1]) 4 U_ZERO_ERROR =
      (if int (length u) \<le> 4 then Some (Some (u @ drop (length u) [1, 1, 1, 1]), int (length u), U_ZERO_ERROR)
       else Some (Some [1, 1, 1, 1], int (length u), U_BUFFER_OVERFLOW_ERROR)) \<and>
    (\<exists>t. us_deserialize example_heap (Some (u @ [0])) (int (length u)) True U_ZERO_ERROR = Some (t, U_ZERO_ERROR) \<and>
      us_inv t \<and> us_points t = {5..<8} \<and> us_strs t = {})"
  using us_serialize_roundtrip [OF example_sets(1) _ example_heap_ok, of 4 "[1, 1, 1, 1]" "[0]"]
  by simp

text \<open>The length of the data is not used: a header alone makes the constructor read behind it.\<close>

lemma us_deserialize_out_of_bounds:
  "us_deserialize example_heap (Some [0x8000]) 1 True U_ZERO_ERROR = None"
  by (simp add: us_deserialize_def example_heap_def allocateStrings_def new_UVector_def uv_init_def MAX_ELEMENTS_def INT32_MAX_def
      rd_def Let_def)



text \<open>With polarity 1 the symmetric difference of the list loses its order when the other set begins with 0.\<close>

lemma exclusiveOr_polarity:
  "(do { s \<leftarrow> exclusiveOr_list example_heap (example_set [UNICODESET_HIGH] []) [0, 5, UNICODESET_HIGH] 2 1; Some (us_elems s) }) =
   Some [5, 5, UNICODESET_HIGH]"
  by (simp add: exclusiveOr_list_def example_set_def isFrozen_def isBogus_def merge_with_def ensureBufferCapacity_def us_grow_def
      realloc_def GROW_EXTRA_def START_EXTRA_def overwrite_def rd_def wr_def merge_loop.simps xor_step_def put_def next_a_def next_b_def
      next_both_def UNICODESET_HIGH_def UNICODESET_LOW_def us_elems_def swapBuffers_def numeral_eq_Suc)

end
