(* ===== verification/BmpSet.thy ===== *)
theory BmpSet
  imports UniSet
begin

text \<open>
  The lookup tables of a frozen set (\<open>bmpset.cpp\<close>): one byte for each ASCII character, one bit for each
  code point below U+0800 and two bits for each block of 64 code points of the BMP, over the inversion list of the
  set. An \<open>int\<close> that is shifted out of its range wraps around like the unsigned words it is combined with.
\<close>

section \<open>The tables\<close>

record BMPSet =
  asciiBytes :: "u8 list"
  table7FF :: "u32 list"
  bmpBlockBits :: "u32 list"
  list4kStarts :: "int list"
  bmp_list :: "UChar32 list"
  bmp_listLength :: int

text \<open>The loops of the form \<open>table[trail++]|=bits\<close>.\<close>

function or_rows :: "u32 list \<Rightarrow> int \<Rightarrow> int \<Rightarrow> u32 \<Rightarrow> u32 list option" where
  "or_rows table trail n bits =
     (if trail < n then do {
        x \<leftarrow> rd table trail; table \<leftarrow> wr table trail (x OR bits); or_rows table (trail + 1) n bits }
      else Some table)"
  by pat_completeness auto
termination by (relation "measure (\<lambda>(table, trail, n, bits). nat (n - trail))") auto

declare or_rows.simps [simp del]

definition set32x64Bits :: "u32 list \<Rightarrow> int \<Rightarrow> int \<Rightarrow> u32 list option" where
  "set32x64Bits table start limit =
     (let lead = drop_bit 6 start; trail = start AND 0x3f; bits = push_bit (nat lead) 1 in
      if start + 1 = limit then do { x \<leftarrow> rd table trail; wr table trail (x OR bits) }
      else
        let limitLead = drop_bit 6 limit; limitTrail = limit AND 0x3f in
        if lead = limitLead then or_rows table trail limitTrail bits
        else do {
          (table, lead) \<leftarrow> (if trail > 0 then do { table \<leftarrow> or_rows table trail 64 bits; Some (table, lead + 1) }
                           else Some (table, lead));
          table \<leftarrow> (if lead < limitLead then
                      let bits = NOT (push_bit (nat lead) 1 - 1);
                          bits = (if limitLead < 0x20 then bits AND (push_bit (nat limitLead) 1 - 1) else bits) in
                      or_rows table 0 64 bits
                    else Some table);
          or_rows table 0 limitTrail (push_bit (nat (if limitLead = 0x20 then limitLead - 1 else limitLead)) 1) })"

text \<open>Reading the next range of the list: the start, the limit and the new index.\<close>

definition next_range :: "UChar32 list \<Rightarrow> int \<Rightarrow> int \<Rightarrow> (UChar32 \<times> UChar32 \<times> int) option" where
  "next_range l listLength listIndex = do {
     start \<leftarrow> rd l listIndex;
     if listIndex + 1 < listLength then do { limit \<leftarrow> rd l (listIndex + 1); Some (start, limit, listIndex + 2) }
     else Some (start, 0x110000, listIndex + 1) }"

function set_ascii :: "u8 list \<Rightarrow> UChar32 \<Rightarrow> UChar32 \<Rightarrow> (u8 list \<times> UChar32) option" where
  "set_ascii bytes start limit = do {
     bytes \<leftarrow> wr bytes start 1;
     if start + 1 < limit \<and> start + 1 < 0x80 then set_ascii bytes (start + 1) limit else Some (bytes, start + 1) }"
  by pat_completeness auto
termination by (relation "measure (\<lambda>(bytes, start, limit). nat (0x80 - start))") auto

text \<open>The three loops of \<open>initBits\<close>; the first two hand the current range on to the next loop.\<close>

function ascii_loop :: "UChar32 list \<Rightarrow> int \<Rightarrow> u8 list \<Rightarrow> int \<Rightarrow> (u8 list \<times> UChar32 \<times> UChar32 \<times> int) option" where
  "ascii_loop l n bytes listIndex = do {
     (start, limit, listIndex') \<leftarrow> next_range l n listIndex;
     if start \<ge> 0x80 then Some (bytes, start, limit, listIndex')
     else do {
       (bytes, start) \<leftarrow> set_ascii bytes start limit;
       if limit \<le> 0x80 then ascii_loop l n bytes listIndex' else Some (bytes, start, limit, listIndex') } }"
  by pat_completeness auto
termination by (relation "measure (\<lambda>(l, n, bytes, i). nat (int (length l) - i))")
    (auto simp: next_range_def bind_Some_iff rd_Some_iff split: if_splits)

function table_loop ::
  "UChar32 list \<Rightarrow> int \<Rightarrow> u32 list \<Rightarrow> UChar32 \<Rightarrow> UChar32 \<Rightarrow> int \<Rightarrow> (u32 list \<times> UChar32 \<times> UChar32 \<times> int) option" where
  "table_loop l n table start limit listIndex =
     (if start < 0x800 then do {
        table \<leftarrow> set32x64Bits table start (if limit \<le> 0x800 then limit else 0x800);
        if limit > 0x800 then Some (table, 0x800, limit, listIndex)
        else do { (start, limit, listIndex') \<leftarrow> next_range l n listIndex; table_loop l n table start limit listIndex' } }
      else Some (table, start, limit, listIndex))"
  by pat_completeness auto
termination by (relation "measure (\<lambda>(l, n, table, start, limit, i). nat (int (length l) - i))")
    (auto simp: next_range_def bind_Some_iff rd_Some_iff split: if_splits)

text \<open>A block with both kinds of code points; the result has the start of the next block.\<close>

definition mark_mixed :: "u32 list \<Rightarrow> UChar32 \<Rightarrow> (u32 list \<times> UChar32) option" where
  "mark_mixed bits c = do {
     let b = drop_bit 6 c;
     x \<leftarrow> rd bits (b AND 0x3f);
     bits \<leftarrow> wr bits (b AND 0x3f) (x OR push_bit (nat (drop_bit 6 b)) 0x10001);
     Some (bits, push_bit 6 (b + 1)) }"

text \<open>
  One range of the third loop, and its part from the first whole block on. The result has the bits, the limit and
  \<open>minStart\<close>.
\<close>

definition block_rest :: "u32 list \<Rightarrow> UChar32 \<Rightarrow> UChar32 \<Rightarrow> UChar32 \<Rightarrow> (u32 list \<times> UChar32 \<times> UChar32) option" where
  "block_rest bits start limit minStart = do {
     bits \<leftarrow> (if start < limit AND NOT 0x3f then set32x64Bits bits (drop_bit 6 start) (drop_bit 6 limit) else Some bits);
     if limit AND 0x3f \<noteq> 0 then do { (bits, next_start) \<leftarrow> mark_mixed bits limit; Some (bits, next_start, next_start) }
     else Some (bits, limit, minStart) }"

definition block_range :: "u32 list \<Rightarrow> UChar32 \<Rightarrow> UChar32 \<Rightarrow> UChar32 \<Rightarrow> (u32 list \<times> UChar32 \<times> UChar32) option" where
  "block_range bits start limit minStart =
     (if start < limit then do {
        (bits, start, minStart) \<leftarrow> (if start AND 0x3f \<noteq> 0 then do { (bits, next_start) \<leftarrow> mark_mixed bits start; Some (bits, next_start, next_start) }
                                  else Some (bits, start, minStart));
        if start < limit then block_rest bits start limit minStart else Some (bits, limit, minStart) }
      else Some (bits, limit, minStart))"

function block_loop :: "UChar32 list \<Rightarrow> int \<Rightarrow> u32 list \<Rightarrow> UChar32 \<Rightarrow> UChar32 \<Rightarrow> UChar32 \<Rightarrow> int \<Rightarrow> u32 list option" where
  "block_loop l n bits start limit minStart listIndex =
     (if start < 0x10000 then do {
        (bits, limit, minStart) \<leftarrow> block_range bits (if start < minStart then minStart else start)
                                    (if limit > 0x10000 then 0x10000 else limit) minStart;
        if limit = 0x10000 then Some bits
        else do { (start, limit, listIndex') \<leftarrow> next_range l n listIndex; block_loop l n bits start limit minStart listIndex' } }
      else Some bits)"
  by pat_completeness auto
termination by (relation "measure (\<lambda>(l, n, bits, start, limit, m, i). nat (int (length l) - i))")
    (auto simp: next_range_def bind_Some_iff rd_Some_iff split: if_splits)

declare set_ascii.simps [simp del] ascii_loop.simps [simp del] table_loop.simps [simp del] block_loop.simps [simp del]

definition initBits :: "BMPSet \<Rightarrow> BMPSet option" where
  "initBits s = do {
     (bytes, start, limit, listIndex) \<leftarrow> ascii_loop (bmp_list s) (bmp_listLength s) (asciiBytes s) 0;
     (table, start, limit, listIndex) \<leftarrow> table_loop (bmp_list s) (bmp_listLength s) (table7FF s) start limit listIndex;
     bits \<leftarrow> block_loop (bmp_list s) (bmp_listLength s) (bmpBlockBits s) start limit 0x800 listIndex;
     Some (s\<lparr>asciiBytes := bytes, table7FF := table, bmpBlockBits := bits\<rparr>) }"

section \<open>Searching\<close>

definition bmp_findCodePoint :: "BMPSet \<Rightarrow> UChar32 \<Rightarrow> int \<Rightarrow> int \<Rightarrow> int option" where
  "bmp_findCodePoint s c lo hi = do {
     x \<leftarrow> rd (bmp_list s) lo;
     if c < x then Some lo
     else if lo \<ge> hi then Some hi
     else do { y \<leftarrow> rd (bmp_list s) (hi - 1); if c \<ge> y then Some hi else find_halve (bmp_list s) c lo hi } }"

definition containsSlow :: "BMPSet \<Rightarrow> UChar32 \<Rightarrow> int \<Rightarrow> int \<Rightarrow> bool option" where
  "containsSlow s c lo hi = do { i \<leftarrow> bmp_findCodePoint s c lo hi; Some (i AND 1 \<noteq> 0) }"

text \<open>\<open>containsSlow\<close> between two entries of \<open>list4kStarts\<close>\<close>

definition slow_between :: "BMPSet \<Rightarrow> UChar32 \<Rightarrow> int \<Rightarrow> int \<Rightarrow> bool option" where
  "slow_between s c i j = do { lo \<leftarrow> rd (list4kStarts s) i; hi \<leftarrow> rd (list4kStarts s) j; containsSlow s c lo hi }"

text \<open>The code points that are not surrogates nor supplementary.\<close>

definition table_test :: "BMPSet \<Rightarrow> UChar32 \<Rightarrow> bool option" where
  "table_test s c =
     (if c \<le> 0x7f then do { x \<leftarrow> rd (asciiBytes s) c; Some (x \<noteq> 0) }
      else if c \<le> 0x7ff then do { x \<leftarrow> rd (table7FF s) (c AND 0x3f); Some (x AND push_bit (nat (drop_bit 6 c)) 1 \<noteq> 0) }
      else
        let lead = drop_bit 12 c in do {
          x \<leftarrow> rd (bmpBlockBits s) (drop_bit 6 c AND 0x3f);
          let twoBits = drop_bit (nat lead) x AND 0x10001;
          if twoBits \<le> 1 then Some (twoBits \<noteq> 0) else slow_between s c lead (lead + 1) })"

definition bmp_contains :: "BMPSet \<Rightarrow> UChar32 \<Rightarrow> bool option" where
  "bmp_contains s c =
     (if 0 \<le> c \<and> c < 0xd800 \<or> 0xe000 \<le> c \<and> c \<le> 0xffff then table_test s c
      else if 0 \<le> c \<and> c \<le> 0x10ffff then slow_between s c 0xd 0x11
      else Some False)"

section \<open>Overriding the entries of illegal text\<close>

function mask_rows :: "u32 list \<Rightarrow> int \<Rightarrow> int \<Rightarrow> u32 \<Rightarrow> u32 \<Rightarrow> u32 list option" where
  "mask_rows table i n m bits =
     (if i < n then do {
        x \<leftarrow> rd table i; table \<leftarrow> wr table i ((x AND m) OR bits); mask_rows table (i + 1) n m bits }
      else Some table)"
  by pat_completeness auto
termination by (relation "measure (\<lambda>(table, i, n, m, bits). nat (n - i))") auto

function fill_bytes :: "u8 list \<Rightarrow> int \<Rightarrow> int \<Rightarrow> u8 list option" where
  "fill_bytes bytes i n =
     (if i < n then do { bytes \<leftarrow> wr bytes i 1; fill_bytes bytes (i + 1) n } else Some bytes)"
  by pat_completeness auto
termination by (relation "measure (\<lambda>(bytes, i, n). nat (n - i))") auto

declare mask_rows.simps [simp del] fill_bytes.simps [simp del]

definition overrideIllegal :: "BMPSet \<Rightarrow> BMPSet option" where
  "overrideIllegal s = do {
     fffd \<leftarrow> slow_between s 0xfffd 0xf 0x10;
     let m = NOT (push_bit 0xd 0x10001);
     if fffd then do {
       bytes \<leftarrow> fill_bytes (asciiBytes s) 0x80 0xc0;
       table \<leftarrow> or_rows (table7FF s) 0 64 3;
       bits \<leftarrow> or_rows (bmpBlockBits s) 0 32 1;
       bits \<leftarrow> mask_rows bits 32 64 m (push_bit 0xd 1);
       Some (s\<lparr>asciiBytes := bytes, table7FF := table, bmpBlockBits := bits\<rparr>) }
     else do {
       bits \<leftarrow> mask_rows (bmpBlockBits s) 32 64 m 0;
       Some (s\<lparr>bmpBlockBits := bits\<rparr>) } }"

section \<open>Construction\<close>

function starts_loop :: "BMPSet \<Rightarrow> int \<Rightarrow> BMPSet option" where
  "starts_loop s i =
     (if i \<le> 0x10 then do {
        lo \<leftarrow> rd (list4kStarts s) (i - 1);
        k \<leftarrow> bmp_findCodePoint s (push_bit 12 i) lo (bmp_listLength s - 1);
        starts \<leftarrow> wr (list4kStarts s) i k;
        starts_loop (s\<lparr>list4kStarts := starts\<rparr>) (i + 1) }
      else Some s)"
  by pat_completeness auto
termination by (relation "measure (\<lambda>(s, i). nat (0x11 - i))") auto

declare starts_loop.simps [simp del]

text \<open>\<open>starts0\<close> is what the memory of \<open>list4kStarts\<close> holds before.\<close>

definition new_BMPSet :: "int list \<Rightarrow> UChar32 list \<Rightarrow> int \<Rightarrow> BMPSet option" where
  "new_BMPSet starts0 parentList parentListLength = do {
     let s = \<lparr>asciiBytes = replicate 0xc0 0, table7FF = replicate 64 0, bmpBlockBits = replicate 64 0,
              list4kStarts = starts0, bmp_list = parentList, bmp_listLength = parentListLength\<rparr>;
     k \<leftarrow> bmp_findCodePoint s 0x800 0 (bmp_listLength s - 1);
     starts \<leftarrow> wr (list4kStarts s) 0 k;
     s \<leftarrow> starts_loop (s\<lparr>list4kStarts := starts\<rparr>) 1;
     starts \<leftarrow> wr (list4kStarts s) 0x11 (bmp_listLength s - 1);
     s \<leftarrow> initBits (s\<lparr>list4kStarts := starts\<rparr>);
     overrideIllegal s }"

definition copy_BMPSet :: "BMPSet \<Rightarrow> UChar32 list \<Rightarrow> int \<Rightarrow> BMPSet" where
  "copy_BMPSet other newParentList newParentListLength =
     other\<lparr>bmp_list := newParentList, bmp_listLength := newParentListLength\<rparr>"

section \<open>Spans of UTF-16 text\<close>

text \<open>
  The text lies in \<open>s[start..limit[\<close>. The two copies of each loop in the code, for \<open>spanCondition\<close> and its negation,
  differ in the sense of the tests only, which is \<open>want\<close>. A test is the result for the code point at a unit and the
  other unit of a pair is passed over.
\<close>

definition forward_test :: "BMPSet \<Rightarrow> u16 list \<Rightarrow> int \<Rightarrow> int \<Rightarrow> (bool \<times> int) option" where
  "forward_test s text i limit = do {
     c \<leftarrow> map_option uint (rd text i);
     if c < 0xd800 \<or> c \<ge> 0xe000 then do { ok \<leftarrow> table_test s c; Some (ok, i) }
     else if c \<ge> 0xdc00 \<or> i + 1 = limit then do { ok \<leftarrow> slow_between s c 0xd 0xe; Some (ok, i) }
     else do {
       c2 \<leftarrow> map_option uint (rd text (i + 1));
       if c2 < 0xdc00 \<or> c2 \<ge> 0xe000 then do { ok \<leftarrow> slow_between s c 0xd 0xe; Some (ok, i) }
       else do {
         ok \<leftarrow> slow_between s (U16_GET_SUPPLEMENTARY (word_of_int c) (word_of_int c2)) 0x10 0x11;
         Some (ok, i + 1) } } }"

function bmp_span :: "BMPSet \<Rightarrow> u16 list \<Rightarrow> int \<Rightarrow> int \<Rightarrow> bool \<Rightarrow> int option" where
  "bmp_span s text i limit want = do {
     (ok, j) \<leftarrow> forward_test s text i limit;
     if ok \<noteq> want then Some i
     else if j + 1 < limit then bmp_span s text (j + 1) limit want
     else Some (j + 1) }"
  by pat_completeness auto
termination by (relation "measure (\<lambda>(s, text, i, limit, want). nat (limit - i))")
    (auto simp: forward_test_def bind_Some_iff split: if_splits)

definition backward_test :: "BMPSet \<Rightarrow> u16 list \<Rightarrow> int \<Rightarrow> int \<Rightarrow> (bool \<times> int) option" where
  "backward_test s text start i = do {
     c \<leftarrow> map_option uint (rd text i);
     if c < 0xd800 \<or> c \<ge> 0xe000 then do { ok \<leftarrow> table_test s c; Some (ok, i) }
     else if c < 0xdc00 \<or> i = start then do { ok \<leftarrow> slow_between s c 0xd 0xe; Some (ok, i) }
     else do {
       c2 \<leftarrow> map_option uint (rd text (i - 1));
       if c2 < 0xd800 \<or> c2 \<ge> 0xdc00 then do { ok \<leftarrow> slow_between s c 0xd 0xe; Some (ok, i) }
       else do {
         ok \<leftarrow> slow_between s (U16_GET_SUPPLEMENTARY (word_of_int c2) (word_of_int c)) 0x10 0x11;
         Some (ok, i - 1) } } }"

function bmp_spanBack :: "BMPSet \<Rightarrow> u16 list \<Rightarrow> int \<Rightarrow> int \<Rightarrow> bool \<Rightarrow> int option" where
  "bmp_spanBack s text start limit want = do {
     (ok, j) \<leftarrow> backward_test s text start (limit - 1);
     if ok \<noteq> want then Some limit
     else if start = j then Some start
     else bmp_spanBack s text start j want }"
  by pat_completeness auto
termination by (relation "measure (\<lambda>(s, text, start, limit, want). nat limit)")
    (auto simp: backward_test_def bind_Some_iff rd_Some_iff split: if_splits)

declare bmp_span.simps [simp del] bmp_spanBack.simps [simp del]

end
