(* ===== verification/BmpTables.thy ===== *)
theory BmpTables
  imports UniSetOps BmpSet
begin

text \<open>
  The loops that fill the tables of \<open>BmpSet\<close>: a table of bits is a set of numbers, \<open>set32x64Bits\<close> adds a range to it, and the
  loops over the inversion list add the ranges that are still to be read.
\<close>

section \<open>Rows of bits\<close>

lemma row_step:
  assumes "0 \<le> a" "a < int (length T)" "a < b" "t < length T"
    "\<forall>t < length T. T' ! t = (if a + 1 \<le> int t \<and> int t < b then f (T[nat a := f (T ! nat a)] ! t) else T[nat a := f (T ! nat a)] ! t)"
  shows "T' ! t = (if a \<le> int t \<and> int t < b then f (T ! t) else T ! t)"
proof -
  obtain k where "a = int k" using assms(1) nonneg_int_cases by blast
  then show ?thesis using assms by (auto simp: nth_list_update)
qed

lemma or_rows_ok:
  "0 \<le> a \<Longrightarrow> b \<le> int (length T) \<Longrightarrow>
   \<exists>T'. or_rows T a b bits = Some T' \<and> length T' = length T \<and>
     (\<forall>t < length T. T' ! t = (if a \<le> int t \<and> int t < b then T ! t OR bits else T ! t))"
proof (induction T a b bits rule: or_rows.induct)
  case (1 T a b bits)
  show ?case
  proof (cases "a < b")
    case True
    then have a: "0 \<le> a" "a < int (length T)" using "1.prems" by linarith+
    define U where "U = T[nat a := T ! nat a OR bits]"
    have "\<exists>T'. or_rows U (a + 1) b bits = Some T' \<and> length T' = length U \<and>
        (\<forall>t < length U. T' ! t = (if a + 1 \<le> int t \<and> int t < b then U ! t OR bits else U ! t))"
      unfolding U_def by (rule "1.IH") (use True a "1.prems" in simp_all)
    then obtain T' where T': "or_rows U (a + 1) b bits = Some T'" "length T' = length U"
        "\<forall>t < length U. T' ! t = (if a + 1 \<le> int t \<and> int t < b then U ! t OR bits else U ! t)" by blast
    have "or_rows T a b bits = Some T'" using True a T'(1) by (subst or_rows.simps) (simp add: U_def)
    moreover have "T' ! t = (if a \<le> int t \<and> int t < b then T ! t OR bits else T ! t)" if "t < length T" for t
      using T'(3) that True a by (intro row_step) (auto simp: U_def)
    ultimately show ?thesis using T'(2) by (simp add: U_def)
  next
    case False
    then show ?thesis by (subst or_rows.simps) auto
  qed
qed

lemma mask_rows_ok:
  "0 \<le> a \<Longrightarrow> b \<le> int (length T) \<Longrightarrow>
   \<exists>T'. mask_rows T a b m bits = Some T' \<and> length T' = length T \<and>
     (\<forall>t < length T. T' ! t = (if a \<le> int t \<and> int t < b then (T ! t AND m) OR bits else T ! t))"
proof (induction T a b m bits rule: mask_rows.induct)
  case (1 T a b m bits)
  show ?case
  proof (cases "a < b")
    case True
    then have a: "0 \<le> a" "a < int (length T)" using "1.prems" by linarith+
    define U where "U = T[nat a := (T ! nat a AND m) OR bits]"
    have "\<exists>T'. mask_rows U (a + 1) b m bits = Some T' \<and> length T' = length U \<and>
        (\<forall>t < length U. T' ! t = (if a + 1 \<le> int t \<and> int t < b then (U ! t AND m) OR bits else U ! t))"
      unfolding U_def by (rule "1.IH") (use True a "1.prems" in simp_all)
    then obtain T' where T': "mask_rows U (a + 1) b m bits = Some T'" "length T' = length U"
        "\<forall>t < length U. T' ! t = (if a + 1 \<le> int t \<and> int t < b then (U ! t AND m) OR bits else U ! t)" by blast
    have "mask_rows T a b m bits = Some T'" using True a T'(1) by (subst mask_rows.simps) (simp add: U_def)
    moreover have "T' ! t = (if a \<le> int t \<and> int t < b then (T ! t AND m) OR bits else T ! t)" if "t < length T" for t
      using T'(3) that True a by (intro row_step) (auto simp: U_def)
    ultimately show ?thesis using T'(2) by (simp add: U_def)
  next
    case False
    then show ?thesis by (subst mask_rows.simps) auto
  qed
qed

text \<open>A table of 64 rows of 32 bits as a set of numbers: bit \<open>l\<close> of row \<open>t\<close> is the number \<open>64 l + t\<close>.\<close>

definition tbit :: "u32 list \<Rightarrow> nat \<Rightarrow> nat \<Rightarrow> bool" where
  "tbit T t l = bit (T ! t) l"

lemma one_bit: "l < 32 \<Longrightarrow> bit (push_bit n 1 :: u32) l \<longleftrightarrow> l = n"
  by (auto simp: bit_exp_iff)

lemma low_bits: "push_bit n 1 - 1 = (mask n :: u32)"
  by (simp add: mask_eq_exp_minus_1 push_bit_eq_mult)

lemma set_one:
  assumes "length T = 64" "t < 64"
  shows "\<exists>T'. wr T (int t) (T ! t OR push_bit n 1) = Some T' \<and> length T' = 64 \<and>
    (\<forall>t' < 64. \<forall>l < 32. tbit T' t' l \<longleftrightarrow> tbit T t' l \<or> (t' = t \<and> l = n))"
  using assms by (auto simp: tbit_def nth_list_update bit_or_iff bit_exp_iff)

lemma or_bits:
  assumes "length T = 64" "0 \<le> a" "b \<le> 64"
  shows "\<exists>T'. or_rows T a b x = Some T' \<and> length T' = 64 \<and>
    (\<forall>t < 64. \<forall>l < 32. tbit T' t l \<longleftrightarrow> tbit T t l \<or> (a \<le> int t \<and> int t < b \<and> bit x l))"
proof -
  obtain T' where "or_rows T a b x = Some T'" "length T' = 64"
    "\<forall>t < 64. T' ! t = (if a \<le> int t \<and> int t < b then T ! t OR x else T ! t)"
    using or_rows_ok [of a b T x] assms by auto
  then show ?thesis by (auto simp: tbit_def bit_or_iff)
qed

definition middle_bits :: "int \<Rightarrow> int \<Rightarrow> u32" where
  "middle_bits lead limitLead =
    (let bits = NOT (push_bit (nat lead) 1 - 1) in if limitLead < 0x20 then bits AND (push_bit (nat limitLead) 1 - 1) else bits)"

lemma middle_bits_ok: "l < 32 \<Longrightarrow> 0 \<le> a \<Longrightarrow> a < b \<Longrightarrow> b \<le> 0x20 \<Longrightarrow> bit (middle_bits a b) l \<longleftrightarrow> a \<le> int l \<and> int l < b"
  unfolding middle_bits_def low_bits
  by (auto simp: Let_def bit_and_iff bit_not_iff bit_mask_iff nat_less_iff nat_le_iff not_less split: if_splits)

lemma lead_trail:
  "drop_bit 6 (x::int) = x div 64" "x AND 0x3f = x mod 64"
  by (simp_all add: drop_bit_eq_div int_and_lows)

lemma number_less:
  assumes "t < 64"
  shows "x \<le> 64 * int l + int t \<longleftrightarrow> x div 64 < int l \<or> x div 64 = int l \<and> x mod 64 \<le> int t"
    "64 * int l + int t < x \<longleftrightarrow> int l < x div 64 \<or> int l = x div 64 \<and> int t < x mod 64"
proof -
  have "x = 64 * (x div 64) + x mod 64" "0 \<le> x mod 64" "x mod 64 < 64" by simp_all
  then show "x \<le> 64 * int l + int t \<longleftrightarrow> x div 64 < int l \<or> x div 64 = int l \<and> x mod 64 \<le> int t"
    "64 * int l + int t < x \<longleftrightarrow> int l < x div 64 \<or> int l = x div 64 \<and> int t < x mod 64"
    using assms by linarith+
qed

lemma number_eq: "t' < 64 \<Longrightarrow> t < 64 \<Longrightarrow> 64 * int l + int t' = 64 * a + int t \<longleftrightarrow> int l = a \<and> t' = t"
proof
  assume a: "t' < 64" "t < 64" "64 * int l + int t' = 64 * a + int t"
  then have "int l < a + 1" "a < int l + 1" by linarith+
  then show "int l = a \<and> t' = t" using a(3) by simp
qed simp

lemma lead_part:
  assumes T: "length T = 64" and a: "0 \<le> a" "0 \<le> p"
  shows "\<exists>T1. (if p > 0 then do { table \<leftarrow> or_rows T p 64 (push_bit (nat a) 1); Some (table, a + 1) } else Some (T, a)) =
      Some (T1, if p > 0 then a + 1 else a) \<and> length T1 = 64 \<and>
    (\<forall>t < 64. \<forall>l < 32. tbit T1 t l \<longleftrightarrow> tbit T t l \<or> (0 < p \<and> p \<le> int t \<and> a = int l))"
  using or_bits [OF T a(2), of 64 "push_bit (nat a) 1"] T a(1) by (cases "0 < p") (auto simp: bit_exp_iff nat_eq_iff2)

lemma middle_part:
  assumes T: "length T = 64" and a: "0 \<le> lead" "b \<le> 32"
  shows "\<exists>T'. (if lead < b then or_rows T 0 64 (middle_bits lead b) else Some T) = Some T' \<and> length T' = 64 \<and>
    (\<forall>t < 64. \<forall>l < 32. tbit T' t l \<longleftrightarrow> tbit T t l \<or> (lead \<le> int l \<and> int l < b))"
proof (cases "lead < b")
  case True
  then show ?thesis using or_bits [OF T, of 0 64 "middle_bits lead b"] middle_bits_ok [of _ lead b] a by auto
next
  case False
  then show ?thesis using T by (intro exI [of _ T]) auto
qed

lemma set32x64Bits_ok:
  assumes T: "length T = 64" and start: "0 \<le> start" "start < limit" "limit \<le> 0x800"
  shows "\<exists>T'. set32x64Bits T start limit = Some T' \<and> length T' = 64 \<and>
    (\<forall>t < 64. \<forall>l < 32. tbit T' t l \<longleftrightarrow> tbit T t l \<or> (start \<le> 64 * int l + int t \<and> 64 * int l + int t < limit))"
proof -
  define a p where "a = start div 64" and "p = start mod 64"
  define b q where "b = limit div 64" and "q = limit mod 64"
  have ap: "start = 64 * a + p" "0 \<le> a" "0 \<le> p" "p < 64" "limit = 64 * b + q" "0 \<le> q" "q < 64" "b \<le> 32"
    using start by (simp_all add: a_def p_def b_def q_def)
  have full: "q = 0" if "b = 32" using ap(5,6) that start by linarith
  have range: "start \<le> 64 * int l + int t \<longleftrightarrow> a < int l \<or> a = int l \<and> p \<le> int t"
    "64 * int l + int t < limit \<longleftrightarrow> int l < b \<or> int l = b \<and> int t < q" if "t < 64" for l t
    using number_less [OF that] by (simp_all add: a_def p_def b_def q_def)
  note defs = lead_trail a_def [symmetric] p_def [symmetric] b_def [symmetric] q_def [symmetric]
  consider "start + 1 = limit" | "start + 1 \<noteq> limit" "a = b" | "start + 1 \<noteq> limit" "a < b"
    using ap start by linarith
  then show ?thesis
  proof cases
    case 1
    obtain t where t: "p = int t" "t < 64" using ap(3,4) by (metis nonneg_int_cases of_nat_less_iff of_nat_numeral)
    obtain T' where "wr T (int t) (T ! t OR push_bit (nat a) 1) = Some T'" "length T' = 64"
      "\<forall>t' < 64. \<forall>l < 32. tbit T' t' l \<longleftrightarrow> tbit T t' l \<or> (t' = t \<and> l = nat a)"
      using set_one [OF T t(2), of "nat a"] by blast
    moreover have "set32x64Bits T start limit = Some T'" using 1 T t calculation(1) by (simp add: set32x64Bits_def Let_def defs)
    moreover have "(start \<le> 64 * int l + int t' \<and> 64 * int l + int t' < limit) = (t' = t \<and> l = nat a)" if "t' < 64" for t' l
      unfolding 1 [symmetric] using number_eq [OF that t(2), of l a] t ap(1,2) by auto
    ultimately show ?thesis by simp
  next
    case 2
    obtain T' where T': "or_rows T p q (push_bit (nat a) 1) = Some T'" "length T' = 64"
      "\<forall>t < 64. \<forall>l < 32. tbit T' t l \<longleftrightarrow> tbit T t l \<or> (p \<le> int t \<and> int t < q \<and> bit (push_bit (nat a) 1 :: u32) l)"
      using or_bits [OF T ap(3), of q "push_bit (nat a) 1"] ap(7) by auto
    moreover have "set32x64Bits T start limit = Some T'" using 2 T'(1) by (simp add: set32x64Bits_def Let_def defs)
    moreover obtain k where "a = int k" using ap(2) nonneg_int_cases by blast
    ultimately show ?thesis using 2 by (auto simp: range bit_exp_iff)
  next
    case 3
    define lead where "lead = (if p > 0 then a + 1 else a)"
    obtain T1 where T1: "(if p > 0 then do { table \<leftarrow> or_rows T p 64 (push_bit (nat a) 1); Some (table, a + 1) } else Some (T, a)) = Some (T1, lead)"
      "length T1 = 64" "\<forall>t < 64. \<forall>l < 32. tbit T1 t l \<longleftrightarrow> tbit T t l \<or> (0 < p \<and> p \<le> int t \<and> a = int l)"
      unfolding lead_def using lead_part [OF T ap(2,3)] by blast
    have lead: "0 \<le> lead" "a \<le> lead" using ap(2) by (simp_all add: lead_def)
    obtain T2 where T2: "(if lead < b then or_rows T1 0 64 (middle_bits lead b) else Some T1) = Some T2"
      "length T2 = 64" "\<forall>t < 64. \<forall>l < 32. tbit T2 t l \<longleftrightarrow> tbit T1 t l \<or> (lead \<le> int l \<and> int l < b)"
      using middle_part [OF T1(2) lead(1) ap(8)] by blast
    obtain T' where T': "or_rows T2 0 q (push_bit (nat (if b = 0x20 then b - 1 else b)) 1) = Some T'"
      "length T' = 64" "\<forall>t < 64. \<forall>l < 32. tbit T' t l \<longleftrightarrow> tbit T2 t l \<or> (int t < q \<and> b = int l)"
      using or_bits [OF T2(2), of 0 q "push_bit (nat (if b = 0x20 then b - 1 else b)) 1"] ap(2,7,8) 3(2) full
      by (cases "b = 0x20") (auto simp: bit_exp_iff nat_eq_iff2)
    have "set32x64Bits T start limit = Some T'"
      using 3 T1(1) T2(1) T'(1) by (simp add: set32x64Bits_def Let_def defs middle_bits_def cong: if_cong)
    then show ?thesis using T1(2,3) T2(2,3) T'(2,3) 3 by (auto simp: range lead_def)
  qed
qed


section \<open>Reading the inversion list\<close>

text \<open>
  The list \<open>L\<close> is followed by the unused part \<open>t\<close> of its memory. The ranges from index \<open>i\<close> on are read after the current
  range, which ends at \<open>b\<close>.
\<close>

definition unread :: "int list \<Rightarrow> int \<Rightarrow> int list" where
  "unread L i = drop (nat i) L"

definition ready :: "int list \<Rightarrow> int \<Rightarrow> int \<Rightarrow> int \<Rightarrow> bool" where
  "ready L a b i \<longleftrightarrow> 0 \<le> i \<and> 0 \<le> a \<and> (a < b \<or> a = UNICODESET_HIGH \<and> b = UNICODESET_HIGH) \<and>
     (unread L i = [] \<and> b = UNICODESET_HIGH \<or> inv_list (unread L i) \<and> b < hd (unread L i))"

definition pending :: "int list \<Rightarrow> int \<Rightarrow> int \<Rightarrow> int \<Rightarrow> int set" where
  "pending L a b i = {a..<b} \<union> ranges (unread L i)"

lemma inv_list_drop: "inv_list (x # y # R) \<Longrightarrow> R = [] \<and> y = UNICODESET_HIGH \<or> inv_list R \<and> y < hd R"
  by (cases R) (auto simp: inv_list_def)

lemma next_range_ok:
  assumes inv: "inv_list (unread L i)" and i: "0 \<le> i"
  shows "\<exists>a b i'. next_range (L @ t) (int (length L)) i = Some (a, b, i') \<and> i < i' \<and> a = hd (unread L i) \<and>
    ready L a b i' \<and> pending L a b i' = ranges (unread L i)"
proof -
  obtain x X where X: "unread L i = x # X" using inv by (cases "unread L i") (auto simp: inv_list_def)
  then have n: "nat i < length L" "L ! nat i = x" "drop (nat (i + 1)) L = X" using i
    by (auto simp: unread_def nat_add_distrib) (metis drop_all list.distinct(1) not_less, metis nth_via_drop, metis Cons_nth_drop_Suc drop_all list.inject list.distinct(1) not_less)
  have x: "rd (L @ t) i = Some x" "0 \<le> x" using n i inv X by (auto simp: rd_Some_iff nth_append inv_list_def)
  show ?thesis
  proof (cases X)
    case Nil
    then have "length L = Suc (nat i)" "x = UNICODESET_HIGH" using n X inv by (auto simp: inv_list_def nat_add_distrib i)
    then show ?thesis using x i n X Nil
      by (auto simp: next_range_def ready_def pending_def unread_def UNICODESET_HIGH_def)
  next
    case (Cons y R)
    have m: "nat (i + 1) < length L" "L ! nat (i + 1) = y" "drop (nat (i + 2)) L = R" using n(3) Cons i
      by (auto simp: nat_add_distrib) (metis drop_all list.distinct(1) not_less, metis nth_via_drop, metis Cons_nth_drop_Suc drop_all list.inject list.distinct(1) not_less)
    have "x < y" using inv X Cons by (simp add: inv_list_def)
    then show ?thesis using x i n m X Cons inv_list_drop [of x y R] inv
      by (auto simp: next_range_def ready_def pending_def unread_def rd_Some_iff nth_append)
  qed
qed

lemma ready_next:
  assumes "ready L a b i" "b < UNICODESET_HIGH"
  obtains a' b' i' where "next_range (L @ t) (int (length L)) i = Some (a', b', i')" "i < i'" "b < a'" "ready L a' b' i'"
    "pending L a b i = {a..<b} \<union> pending L a' b' i'"
proof -
  have "inv_list (unread L i)" "b < hd (unread L i)" "0 \<le> i" using assms by (auto simp: ready_def)
  then show thesis using next_range_ok [of L i t] that by (auto simp: pending_def)
qed

lemma pending_bounds:
  assumes "ready L a b i" "c \<in> pending L a b i"
  shows "a \<le> c" "c < UNICODESET_HIGH" "b \<le> c \<or> c < b" "b \<le> c \<Longrightarrow> c \<in> ranges (unread L i)"
proof -
  have hi: "b \<le> UNICODESET_HIGH"
  proof (cases "unread L i")
    case (Cons x R)
    then show ?thesis using assms(1) sorted_last [of x R] by (cases "R = []") (auto simp: ready_def inv_list_def)
  qed (use assms(1) in \<open>simp add: ready_def inv_list_def\<close>)
  have "b < c \<and> c < UNICODESET_HIGH" if "c \<in> ranges (unread L i)"
    using assms(1) that ranges_bounds [of "unread L i" c] by (auto simp: ready_def inv_list_def)
  then show "a \<le> c" "c < UNICODESET_HIGH" "b \<le> c \<or> c < b" "b \<le> c \<Longrightarrow> c \<in> ranges (unread L i)"
    using assms hi by (auto simp: pending_def ready_def)
qed

lemma unread_ge: "ready L a b i \<Longrightarrow> c \<in> ranges (unread L i) \<Longrightarrow> b < c"
  using ranges_bounds [of "unread L i" c] by (auto simp: ready_def inv_list_def)

section \<open>The ASCII bytes\<close>

lemma set_ascii_ok:
  "0 \<le> start \<Longrightarrow> start < 0x80 \<Longrightarrow> start < limit \<Longrightarrow> length bytes = 0xc0 \<Longrightarrow>
   \<exists>bytes'. set_ascii bytes start limit = Some (bytes', min limit 0x80) \<and> length bytes' = 0xc0 \<and>
     (\<forall>c < 0xc0. bytes' ! c \<noteq> 0 \<longleftrightarrow> bytes ! c \<noteq> 0 \<or> start \<le> int c \<and> int c < min limit 0x80)"
proof (induction bytes start limit rule: set_ascii.induct)
  case (1 bytes start limit)
  define U where "U = bytes[nat start := 1]"
  have wr: "wr bytes start 1 = Some U" "length U = 0xc0" using "1.prems" by (simp_all add: U_def)
  obtain k where k: "start = int k" "k < 0xc0" using "1.prems" using that [of "nat start"] by simp
  have U: "U ! c \<noteq> 0 \<longleftrightarrow> bytes ! c \<noteq> 0 \<or> c = k" if "c < 0xc0" for c
    using that "1.prems"(4) by (auto simp: U_def k nth_list_update)
  show ?case
  proof (cases "start + 1 < limit \<and> start + 1 < 0x80")
    case True
    then have step: "set_ascii bytes start limit = set_ascii U (start + 1) limit" using wr by (subst set_ascii.simps) simp
    have "\<exists>bytes'. set_ascii U (start + 1) limit = Some (bytes', min limit 0x80) \<and> length bytes' = 0xc0 \<and>
      (\<forall>c < 0xc0. bytes' ! c \<noteq> 0 \<longleftrightarrow> U ! c \<noteq> 0 \<or> start + 1 \<le> int c \<and> int c < min limit 0x80)"
      by (rule "1.IH") (use True wr "1.prems" in auto)
    then show ?thesis unfolding step using U True by (auto simp: k)
  next
    case False
    then have "min limit 0x80 = start + 1" using "1.prems" by auto
    moreover have "set_ascii bytes start limit = Some (U, start + 1)" using False wr by (subst set_ascii.simps) auto
    ultimately show ?thesis using U wr(2) by (auto simp: k)
  qed
qed

lemma ascii_loop_ok:
  "inv_list (unread L i) \<Longrightarrow> 0 \<le> i \<Longrightarrow> length bytes = 0xc0 \<Longrightarrow>
   \<exists>bytes' a b i'. ascii_loop (L @ t) (int (length L)) bytes i = Some (bytes', a, b, i') \<and> length bytes' = 0xc0 \<and>
     (\<forall>c < 0xc0. bytes' ! c \<noteq> 0 \<longleftrightarrow> bytes ! c \<noteq> 0 \<or> c < 0x80 \<and> int c \<in> ranges (unread L i)) \<and>
     ready L a b i' \<and> 0x80 \<le> a \<and> (\<forall>c \<ge> 0x80. c \<in> ranges (unread L i) \<longleftrightarrow> c \<in> pending L a b i')"
proof (induction "nat (int (length L) - i)" arbitrary: i bytes rule: less_induct)
  case less
  obtain a b i' where nr: "next_range (L @ t) (int (length L)) i = Some (a, b, i')" "i < i'" "ready L a b i'"
    "pending L a b i' = ranges (unread L i)"
    using next_range_ok [OF less.prems(1,2), of t] by blast
  have a: "0 \<le> a" using nr(3) by (simp add: ready_def)
  note pend = pending_bounds [OF nr(3)] and later = unread_ge [OF nr(3)]
  consider "0x80 \<le> a" | "a < 0x80" "b \<le> 0x80" | "a < 0x80" "0x80 < b" by linarith
  then show ?case
  proof cases
    case 1
    then have "ascii_loop (L @ t) (int (length L)) bytes i = Some (bytes, a, b, i')" using nr(1) by (subst ascii_loop.simps) simp
    then show ?thesis using 1 nr(3,4) less.prems(3) pend(1) by fastforce
  next
    case 2
    then have ab: "a < b" using nr(3) by (auto simp: ready_def UNICODESET_HIGH_def)
    obtain U where U: "set_ascii bytes a b = Some (U, b)" "length U = 0xc0"
      "\<forall>c < 0xc0. U ! c \<noteq> 0 \<longleftrightarrow> bytes ! c \<noteq> 0 \<or> a \<le> int c \<and> int c < b"
      using set_ascii_ok [OF a 2(1) ab less.prems(3)] 2(2) by auto
    have inv: "inv_list (unread L i')" using nr(3) 2 by (auto simp: ready_def UNICODESET_HIGH_def)
    then have "i < int (length L)" using nr(2) by (auto simp: unread_def inv_list_def)
    then obtain V a' b' j where V: "ascii_loop (L @ t) (int (length L)) U i' = Some (V, a', b', j)" "length V = 0xc0"
      "\<forall>c < 0xc0. V ! c \<noteq> 0 \<longleftrightarrow> U ! c \<noteq> 0 \<or> c < 0x80 \<and> int c \<in> ranges (unread L i')"
      "ready L a' b' j" "0x80 \<le> a'" "\<forall>c \<ge> 0x80. c \<in> ranges (unread L i') \<longleftrightarrow> c \<in> pending L a' b' j"
      using less.hyps [of i' U] inv U(2) nr(2) less.prems(2) by auto
    have "ascii_loop (L @ t) (int (length L)) bytes i = Some (V, a', b', j)" using nr(1) 2 U(1) V(1) by (subst ascii_loop.simps) simp
    moreover have "c \<in> ranges (unread L i) \<longleftrightarrow> a \<le> c \<and> c < b \<or> c \<in> ranges (unread L i')" for c
      unfolding nr(4) [symmetric] by (auto simp: pending_def)
    ultimately show ?thesis using U(3) V 2(2) by (auto; fail)
  next
    case 3
    obtain U where U: "set_ascii bytes a b = Some (U, 0x80)" "length U = 0xc0"
      "\<forall>c < 0xc0. U ! c \<noteq> 0 \<longleftrightarrow> bytes ! c \<noteq> 0 \<or> a \<le> int c \<and> int c < 0x80"
      using set_ascii_ok [OF a 3(1) _ less.prems(3), of b] 3 by auto
    have "ascii_loop (L @ t) (int (length L)) bytes i = Some (U, 0x80, b, i')" using nr(1) 3 U(1) by (subst ascii_loop.simps) simp
    moreover have "ready L 0x80 b i'" using nr(3) 3 by (auto simp: ready_def)
    moreover have "c \<in> ranges (unread L i) \<longleftrightarrow> a \<le> c" if "c < 0x80" for c
      unfolding nr(4) [symmetric] using 3 that later [of c] by (auto simp: pending_def)
    moreover have "c \<in> ranges (unread L i) \<longleftrightarrow> c \<in> pending L 0x80 b i'" if "0x80 \<le> c" for c
      unfolding nr(4) [symmetric] using 3 that by (auto simp: pending_def)
    ultimately show ?thesis using U by auto
  qed
qed

section \<open>The table of the code points below U+0800\<close>

lemma table_loop_ok:
  "ready L a b i \<Longrightarrow> length T = 64 \<Longrightarrow>
   \<exists>T' a' b' i'. table_loop (L @ t) (int (length L)) T a b i = Some (T', a', b', i') \<and> length T' = 64 \<and>
     (\<forall>t < 64. \<forall>l < 32. tbit T' t l \<longleftrightarrow> tbit T t l \<or> 64 * int l + int t \<in> pending L a b i) \<and>
     ready L a' b' i' \<and> 0x800 \<le> a' \<and> (\<forall>c \<ge> 0x800. c \<in> pending L a b i \<longleftrightarrow> c \<in> pending L a' b' i')"
proof (induction "nat (int (length L) - i)" arbitrary: i a b T rule: less_induct)
  case less
  note pend = pending_bounds [OF less.prems(1)] and later = unread_ge [OF less.prems(1)]
  have a: "0 \<le> a" using less.prems(1) by (simp add: ready_def)
  have small: "64 * int l + int t < 0x800" if "t < 64" "l < 32" for t l using that by linarith
  show ?case
  proof (cases "a < 0x800")
    case False
    then have "table_loop (L @ t) (int (length L)) T a b i = Some (T, a, b, i)" by (subst table_loop.simps) simp
    then show ?thesis using False less.prems pend(1) small by fastforce
  next
    case True
    then have ab: "a < b" using less.prems(1) by (auto simp: ready_def UNICODESET_HIGH_def)
    define e where "e = (if b \<le> 0x800 then b else 0x800)"
    have e: "a < e" "e \<le> 0x800" using ab True by (simp_all add: e_def)
    obtain U where U: "set32x64Bits T a e = Some U" "length U = 64"
      "\<forall>t < 64. \<forall>l < 32. tbit U t l \<longleftrightarrow> tbit T t l \<or> (a \<le> 64 * int l + int t \<and> 64 * int l + int t < e)"
      using set32x64Bits_ok [OF less.prems(2) a e] by blast
    show ?thesis
    proof (cases "0x800 < b")
      case big: True
      have "table_loop (L @ t) (int (length L)) T a b i = Some (U, 0x800, b, i)" using True big U(1) by (subst table_loop.simps) (simp add: e_def)
      moreover have "ready L 0x800 b i" using less.prems(1) big by (auto simp: ready_def)
      moreover have "c \<in> pending L a b i \<longleftrightarrow> a \<le> c" if "c < 0x800" for c
        using big that later [of c] by (auto simp: pending_def)
      moreover have "c \<in> pending L a b i \<longleftrightarrow> c \<in> pending L 0x800 b i" if "0x800 \<le> c" for c
        using True that by (auto simp: pending_def)
      ultimately show ?thesis using U big small by (auto simp: e_def)
    next
      case le: False
      then have "b < UNICODESET_HIGH" by (simp add: UNICODESET_HIGH_def)
      then obtain a1 b1 i1 where nr: "next_range (L @ t) (int (length L)) i = Some (a1, b1, i1)" "i < i1" "b < a1"
        "ready L a1 b1 i1" "pending L a b i = {a..<b} \<union> pending L a1 b1 i1"
        by (rule ready_next [OF less.prems(1)])
      have "unread L i \<noteq> []" using less.prems(1) le by (auto simp: ready_def inv_list_def UNICODESET_HIGH_def)
      then have "i < int (length L)" by (auto simp: unread_def)
      then obtain V a' b' j where V: "table_loop (L @ t) (int (length L)) U a1 b1 i1 = Some (V, a', b', j)" "length V = 64"
        "\<forall>t < 64. \<forall>l < 32. tbit V t l \<longleftrightarrow> tbit U t l \<or> 64 * int l + int t \<in> pending L a1 b1 i1"
        "ready L a' b' j" "0x800 \<le> a'" "\<forall>c \<ge> 0x800. c \<in> pending L a1 b1 i1 \<longleftrightarrow> c \<in> pending L a' b' j"
        using less.hyps [OF _ nr(4) U(2)] nr(2) by auto
      have "table_loop (L @ t) (int (length L)) T a b i = Some (V, a', b', j)" using nr(1) True le U(1) V(1)
        by (subst table_loop.simps) (simp add: e_def)
      then show ?thesis using U(3) V le nr(5) small by (auto simp: e_def)
    qed
  qed
qed
end
