(* ===== verification/BmpBlocks.thy ===== *)
theory BmpBlocks
  imports BmpTables
begin

text \<open>
  The third table of \<open>BmpSet\<close>, with two bits for each block of 64 code points, and the three tables together.
\<close>

section \<open>The bits of the blocks\<close>

text \<open>Block \<open>k\<close> has the code points from \<open>64 k\<close> on. Its low bit says that they are all in the set, its high bit that some are.\<close>

definition block :: "nat \<Rightarrow> int set" where
  "block k = {64 * int k..<64 * int k + 64}"

definition all_bit :: "u32 list \<Rightarrow> nat \<Rightarrow> bool" where
  "all_bit T k = tbit T (k mod 64) (k div 64)"

definition mixed_bit :: "u32 list \<Rightarrow> nat \<Rightarrow> bool" where
  "mixed_bit T k = tbit T (k mod 64) (k div 64 + 16)"

definition block_ok :: "u32 list \<Rightarrow> int set \<Rightarrow> nat \<Rightarrow> bool" where
  "block_ok T D k \<longleftrightarrow> mixed_bit T k \<or> (if all_bit T k then block k \<subseteq> D else block k \<inter> D = {})"

definition bits_ok :: "u32 list \<Rightarrow> int set \<Rightarrow> bool" where
  "bits_ok T D \<longleftrightarrow> length T = 64 \<and> (\<forall>k < 1024. block_ok T D k)"

text \<open>What lies between \<open>x\<close> and \<open>m\<close> is in a block that is marked as mixed.\<close>

definition covered_to :: "u32 list \<Rightarrow> int \<Rightarrow> int \<Rightarrow> bool" where
  "covered_to T m x \<longleftrightarrow> m \<le> x \<or> (\<exists>k < 1024. m = 64 * int k + 64 \<and> mixed_bit T k \<and> 64 * int k \<le> x)"

lemma bits_ok_length [simp]: "bits_ok T D \<Longrightarrow> length T = 64"
  by (simp add: bits_ok_def)

lemma block_disjoint: "c \<in> block k \<Longrightarrow> c \<in> block j \<Longrightarrow> j = k"
  by (auto simp: block_def)

lemma covered_mono: "covered_to T m x \<Longrightarrow> x \<le> y \<Longrightarrow> covered_to T m y"
  by (auto simp: covered_to_def)

lemma bits_okI: "length T = 64 \<Longrightarrow> (\<And>k. k < 1024 \<Longrightarrow> block_ok T D k) \<Longrightarrow> bits_ok T D"
  unfolding bits_ok_def by blast

lemma bits_okD: "bits_ok T D \<Longrightarrow> k < 1024 \<Longrightarrow> block_ok T D k"
  unfolding bits_ok_def by blast

lemma bits_ok_extend:
  assumes "bits_ok T D" "\<And>j. j < 1024 \<Longrightarrow> mixed_bit T j \<or> block j \<inter> R = {}"
  shows "bits_ok T (D \<union> R)"
proof (rule bits_okI)
  show "block_ok T (D \<union> R) j" if "j < 1024" for j
    using bits_okD [OF assms(1) that] assms(2) [OF that] by (cases "all_bit T j") (auto simp: block_ok_def)
qed (use assms(1) in simp)

lemma bits_ok_mixed:
  assumes "bits_ok T D" "mixed_bit T k" "R \<subseteq> block k"
  shows "bits_ok T (D \<union> R)"
proof (rule bits_ok_extend [OF assms(1)])
  show "mixed_bit T j \<or> block j \<inter> R = {}" for j
    using assms(2,3) block_disjoint [of _ k j] by (cases "j = k") blast+
qed

lemma bits_ok_above:
  assumes "bits_ok T D" "\<forall>c \<in> R. 0x10000 \<le> c"
  shows "bits_ok T (D \<union> R)"
  by (rule bits_ok_extend [OF assms(1)]) (use assms(2) in \<open>force simp: block_def\<close>)

lemma bits_ok_covered:
  assumes "bits_ok T D" "covered_to T m x" "\<forall>c \<in> R. x \<le> c \<and> c < m"
  shows "bits_ok T (D \<union> R)"
proof (cases "m \<le> x")
  case True
  then have "R = {}" using assms(3) by force
  then show ?thesis using assms(1) by simp
next
  case False
  then obtain k where k: "k < 1024" "m = 64 * int k + 64" "mixed_bit T k" "64 * int k \<le> x" using assms(2) by (auto simp: covered_to_def)
  show ?thesis by (rule bits_ok_mixed [OF assms(1) k(3)]) (use assms(3) k in \<open>force simp: block_def\<close>)
qed

lemma mixed_value: "bit (0x10001 :: u32) j \<longleftrightarrow> j = 0 \<or> j = 16"
proof -
  have "(0x10001 :: u32) = push_bit 16 1 OR push_bit 0 1" by simp
  then have "bit (0x10001 :: u32) j \<longleftrightarrow> bit (push_bit 16 1 :: u32) j \<or> bit (push_bit 0 1 :: u32) j" by (simp only: bit_or_iff)
  also have "\<dots> \<longleftrightarrow> j = 0 \<or> j = 16" by (simp only: bit_push_bit_iff bit_1_iff) auto
  finally show ?thesis .
qed

lemma int_block: "0 \<le> c \<Longrightarrow> c < 0x10000 \<Longrightarrow> \<exists>k < 1024. c div 64 = int k"
  by (intro exI [of _ "nat (c div 64)"]) auto

lemma mark_mixed_ok:
  assumes T: "length T = 64" and k: "k < 1024" "c div 64 = int k"
  shows "\<exists>T'. mark_mixed T c = Some (T', 64 * int k + 64) \<and> length T' = 64 \<and>
    (\<forall>j < 1024. (all_bit T' j \<longleftrightarrow> all_bit T j \<or> j = k) \<and> (mixed_bit T' j \<longleftrightarrow> mixed_bit T j \<or> j = k))"
proof -
  define T' where "T' = T[k mod 64 := T ! (k mod 64) OR push_bit (k div 64) 0x10001]"
  have row: "int k AND 0x3f = int (k mod 64)" "nat (drop_bit 6 (int k)) = k div 64" "push_bit 6 (int k + 1) = 64 * int k + 64"
    by (simp_all add: int_and_lows drop_bit_eq_div push_bit_eq_mult nat_div_distrib zmod_int)
  have "mark_mixed T c = Some (T', 64 * int k + 64)"
    using T k row by (simp add: mark_mixed_def drop_bit_eq_div [of 6 c] T'_def wr_def nat_mod_distrib)
  moreover have bits: "tbit T' (j mod 64) l \<longleftrightarrow> tbit T (j mod 64) l \<or> j mod 64 = k mod 64 \<and> (l = k div 64 \<or> l = k div 64 + 16)"
    if "l < 32" for j l
  proof -
    have "bit (push_bit (k div 64) 0x10001 :: u32) l \<longleftrightarrow> l = k div 64 \<or> l = k div 64 + 16"
      using that by (simp only: bit_push_bit_iff mixed_value) auto
    then show ?thesis using T by (auto simp: T'_def tbit_def nth_list_update bit_or_iff)
  qed
  moreover have same: "j mod 64 = k mod 64 \<and> j div 64 = k div 64 \<longleftrightarrow> j = k" for j
    by (metis div_mult_mod_eq)
  have "all_bit T' j \<longleftrightarrow> all_bit T j \<or> j = k" "mixed_bit T' j \<longleftrightarrow> mixed_bit T j \<or> j = k" if "j < 1024" for j
    using bits [of "j div 64" j] bits [of "j div 64 + 16" j] that k(1) same [of j] by (auto simp: all_bit_def mixed_bit_def)
  ultimately show ?thesis using T by (auto simp: T'_def)
qed

lemma mark_blocks:
  assumes T: "bits_ok T D" and k: "k < 1024" "c div 64 = int k" and R: "R \<subseteq> block k"
  shows "\<exists>T'. mark_mixed T c = Some (T', 64 * int k + 64) \<and> bits_ok T' (D \<union> R) \<and> mixed_bit T' k \<and>
    (\<forall>j < 1024. mixed_bit T j \<longrightarrow> mixed_bit T' j)"
proof -
  obtain T' where T': "mark_mixed T c = Some (T', 64 * int k + 64)" "length T' = 64"
    "\<forall>j < 1024. (all_bit T' j \<longleftrightarrow> all_bit T j \<or> j = k) \<and> (mixed_bit T' j \<longleftrightarrow> mixed_bit T j \<or> j = k)"
    using mark_mixed_ok [of T k c] T k by auto
  have "block_ok T' D j" if "j < 1024" for j
    using bits_okD [OF T that] T'(3) that by (cases "j = k") (simp_all add: block_ok_def)
  then have "bits_ok T' D" using T'(2) by (rule bits_okI [rotated])
  then have "bits_ok T' (D \<union> R)" by (rule bits_ok_mixed [OF _ _ R]) (use T' k in auto)
  then show ?thesis using T' k by auto
qed

lemma fill_blocks:
  assumes T: "bits_ok T D" and ab: "0 \<le> a" "a < b" "b \<le> 1024"
  shows "\<exists>T'. set32x64Bits T a b = Some T' \<and> bits_ok T' (D \<union> {64 * a..<64 * b}) \<and> (\<forall>j < 1024. mixed_bit T' j = mixed_bit T j)"
proof -
  obtain T' where T': "set32x64Bits T a b = Some T'" "length T' = 64"
    "\<forall>t < 64. \<forall>l < 32. tbit T' t l \<longleftrightarrow> tbit T t l \<or> (a \<le> 64 * int l + int t \<and> 64 * int l + int t < b)"
    using set32x64Bits_ok [of T a b] T ab by auto
  have k: "64 * int (j div 64) + int (j mod 64) = int j" for j by presburger
  have bits: "all_bit T' j \<longleftrightarrow> all_bit T j \<or> a \<le> int j \<and> int j < b" "mixed_bit T' j = mixed_bit T j" if "j < 1024" for j
    using T'(3) that k [of j] ab(3) by (auto simp: all_bit_def mixed_bit_def)
  have "block j \<subseteq> {64 * a..<64 * b}" if "a \<le> int j" "int j < b" for j using that by (auto simp: block_def)
  moreover have "block j \<inter> {64 * a..<64 * b} = {}" if "\<not> (a \<le> int j \<and> int j < b)" for j using that by (auto simp: block_def)
  ultimately have "block_ok T' (D \<union> {64 * a..<64 * b}) j" if "j < 1024" for j
    using bits_okD [OF T that] bits [OF that] by (cases "a \<le> int j \<and> int j < b"; cases "all_bit T j") (auto simp: block_ok_def Int_Un_distrib)
  then have "bits_ok T' (D \<union> {64 * a..<64 * b})" using T'(2) by (rule bits_okI [rotated])
  then show ?thesis using T'(1) bits by auto
qed

lemma block_bits:
  "drop_bit 6 (x::int) = x div 64" "x AND 0x3f = x mod 64" "x AND NOT 0x3f = 64 * (x div 64)"
proof -
  show "x AND NOT 0x3f = 64 * (x div 64)"
    using int_and_not_mask [of x 6] by (simp add: mask_eq_exp_minus_1 minus_mod_eq_mult_div)
qed (simp_all add: lead_trail)

lemma block_rest_ok:
  assumes T: "bits_ok T D" and range: "64 dvd start" "0 \<le> start" "start < limit" "limit \<le> 0x10000" and m: "m \<le> limit"
  shows "\<exists>T' limit' m'. block_rest T start limit m = Some (T', limit', m') \<and> bits_ok T' (D \<union> {start..<limit}) \<and>
    limit \<le> limit' \<and> limit' \<le> 0x10000 \<and> covered_to T' m' limit \<and> covered_to T' limit' limit"
proof -
  define a b where "a = start div 64" and "b = limit div 64"
  have ab: "start = 64 * a" "0 \<le> a" "a \<le> b" "b \<le> 1024" "64 * b \<le> limit" "limit < 64 * b + 64"
    using range by (auto simp: a_def b_def)
  have parts: "limit AND NOT 0x3f = 64 * b" "drop_bit 6 start = a" "drop_bit 6 limit = b"
    by (simp_all only: block_bits a_def b_def)
  obtain U where U: "(if start < limit AND NOT 0x3f then set32x64Bits T (drop_bit 6 start) (drop_bit 6 limit) else Some T) = Some U"
    "bits_ok U (D \<union> {start..<64 * b})"
  proof (cases "a < b")
    case True
    then show thesis using fill_blocks [OF T ab(2) True ab(4)] that ab(1) unfolding parts by auto
  next
    case False
    then show thesis using that [of T] T ab(1,3) unfolding parts by simp
  qed
  have step: "block_rest T start limit m =
      (if limit mod 64 \<noteq> 0 then do { (bits, next_start) \<leftarrow> mark_mixed U limit; Some (bits, next_start, next_start) } else Some (U, limit, m))"
    unfolding block_rest_def U(1) block_bits(2) by simp
  have join: "D \<union> {start..<64 * b} \<union> {64 * b..<limit} = D \<union> {start..<limit}" using ab by auto
  show ?thesis
  proof (cases "limit mod 64 = 0")
    case True
    then have "limit = 64 * b" by (auto simp: b_def)
    then show ?thesis unfolding step using U(2) range(4) m True by (simp add: covered_to_def)
  next
    case False
    then have "limit < 0x10000" using range(4) by (cases "limit = 0x10000") auto
    then obtain k where k: "k < 1024" "limit div 64 = int k" using int_block [of limit] range by auto
    have R: "{64 * b..<limit} \<subseteq> block k" using ab(6) k(2) by (auto simp: block_def b_def)
    obtain V where V: "mark_mixed U limit = Some (V, 64 * int k + 64)" "bits_ok V (D \<union> {start..<limit})" "mixed_bit V k"
      using mark_blocks [OF U(2) k R] unfolding join by blast
    have "covered_to V (64 * int k + 64) limit" using k ab(5) V(3) by (auto simp: covered_to_def b_def)
    then show ?thesis unfolding step using V False k ab(6) by (simp add: b_def)
  qed
qed

lemma block_range_ok:
  assumes T: "bits_ok T D" and range: "0 \<le> a" "a < limit" "limit \<le> 0x10000" and m: "covered_to T m a"
  shows "\<exists>T' limit' m'. block_range T (if a < m then m else a) limit m = Some (T', limit', m') \<and> bits_ok T' (D \<union> {a..<limit}) \<and>
    limit \<le> limit' \<and> limit' \<le> 0x10000 \<and> covered_to T' m' limit \<and> covered_to T' limit' limit"
proof -
  define s where "s = (if a < m then m else a)"
  have s: "a \<le> s" "m \<le> s" by (simp_all add: s_def)
  have D1: "bits_ok T (D \<union> {a..<min s limit})"
    by (rule bits_ok_covered [OF T m]) (simp add: s_def)
  show ?thesis unfolding s_def [symmetric]
  proof (cases "s < limit")
    case False
    then show "\<exists>T' limit' m'. block_range T s limit m = Some (T', limit', m') \<and> bits_ok T' (D \<union> {a..<limit}) \<and>
      limit \<le> limit' \<and> limit' \<le> 0x10000 \<and> covered_to T' m' limit \<and> covered_to T' limit' limit"
      using D1 range m covered_mono [OF m, of limit] by (simp add: block_range_def covered_to_def)
  next
    case True
    note lt = True
    show "\<exists>T' limit' m'. block_range T s limit m = Some (T', limit', m') \<and> bits_ok T' (D \<union> {a..<limit}) \<and>
      limit \<le> limit' \<and> limit' \<le> 0x10000 \<and> covered_to T' m' limit \<and> covered_to T' limit' limit"
    proof (cases "s mod 64 = 0")
      case True
      then have "block_range T s limit m = block_rest T s limit m" using lt by (simp add: block_range_def block_bits)
      moreover have "D \<union> {a..<min s limit} \<union> {s..<limit} = D \<union> {a..<limit}" using s lt by auto
      ultimately show ?thesis using block_rest_ok [OF D1, of s limit m] True lt s range by auto
    next
      case False
      obtain k where k: "k < 1024" "s div 64 = int k" using int_block [of s] range s lt by auto
      then have sk: "64 * int k \<le> s" "s < 64 * int k + 64" using div_mult_mod_eq [of s 64] pos_mod_bound [of 64 s] pos_mod_sign [of 64 s] by linarith+
      define e where "e = 64 * int k + 64"
      have R: "{s..<min e limit} \<subseteq> block k" using sk by (auto simp: block_def e_def)
      obtain U where U: "mark_mixed T s = Some (U, e)" "bits_ok U (D \<union> {a..<min s limit} \<union> {s..<min e limit})" "mixed_bit U k"
        using mark_blocks [OF D1 k R] by (auto simp: e_def)
      have step: "block_range T s limit m = (if e < limit then block_rest U e limit e else Some (U, limit, e))"
        using False lt U(1) by (simp add: block_range_def block_bits)
      show ?thesis
      proof (cases "e < limit")
        case True
        have "D \<union> {a..<min s limit} \<union> {s..<min e limit} \<union> {e..<limit} = D \<union> {a..<limit}" using s lt True sk by (auto simp: e_def)
        moreover have "64 dvd e" by (simp add: e_def)
        ultimately show ?thesis unfolding step using block_rest_ok [OF U(2), of e limit e] True range sk by (auto simp: e_def)
      next
        case False
        have "D \<union> {a..<min s limit} \<union> {s..<min e limit} = D \<union> {a..<limit}" using s lt False by auto
        then have "bits_ok U (D \<union> {a..<limit})" using U(2) by simp
        moreover have "covered_to U e limit" using k U(3) sk lt by (auto simp: covered_to_def e_def)
        ultimately show ?thesis unfolding step using False range by (simp add: covered_to_def)
      qed
    qed
  qed
qed

lemma block_loop_ok:
  "ready L a b i \<Longrightarrow> bits_ok T D \<Longrightarrow> covered_to T m a \<Longrightarrow>
   \<exists>T'. block_loop (L @ t) (int (length L)) T a b m i = Some T' \<and> bits_ok T' (D \<union> pending L a b i)"
proof (induction "nat (int (length L) - i)" arbitrary: i a b T D m rule: less_induct)
  case less
  have a: "0 \<le> a" using less.prems(1) by (simp add: ready_def)
  show ?case
  proof (cases "a < 0x10000")
    case False
    then have "\<forall>c \<in> pending L a b i. 0x10000 \<le> c" using pending_bounds(1) [OF less.prems(1)] by force
    then have "bits_ok T (D \<union> pending L a b i)" by (rule bits_ok_above [OF less.prems(2)])
    then show ?thesis using False by (subst block_loop.simps) simp
  next
    case True
    then have ab: "a < b" using less.prems(1) by (auto simp: ready_def UNICODESET_HIGH_def)
    define e where "e = (if b > 0x10000 then 0x10000 else b)"
    have e: "a < e" "e \<le> 0x10000" "e \<le> b" using True ab by (simp_all add: e_def)
    obtain U l' m' where U: "block_range T (if a < m then m else a) e m = Some (U, l', m')" "bits_ok U (D \<union> {a..<e})"
      "e \<le> l'" "l' \<le> 0x10000" "covered_to U m' e" "covered_to U l' e"
      using block_range_ok [OF less.prems(2) a e(1,2) less.prems(3)] by blast
    have step: "block_loop (L @ t) (int (length L)) T a b m i =
      (if l' = 0x10000 then Some U
       else do { (start, limit, listIndex') \<leftarrow> next_range (L @ t) (int (length L)) i; block_loop (L @ t) (int (length L)) U start limit m' listIndex' })"
      using True U(1) by (subst block_loop.simps) (simp add: e_def [symmetric])
    show ?thesis
    proof (cases "l' = 0x10000")
      case True
      have "bits_ok U (D \<union> {a..<e} \<union> {c \<in> pending L a b i. e \<le> c \<and> c < 0x10000})"
        by (rule bits_ok_covered [OF U(2,6)]) (simp add: True)
      then have "bits_ok U (D \<union> {a..<e} \<union> {c \<in> pending L a b i. e \<le> c \<and> c < 0x10000} \<union> {c \<in> pending L a b i. 0x10000 \<le> c})"
        by (rule bits_ok_above) simp
      moreover have "pending L a b i = {a..<e} \<union> {c \<in> pending L a b i. e \<le> c \<and> c < 0x10000} \<union> {c \<in> pending L a b i. 0x10000 \<le> c}"
      proof -
        have "{a..<e} \<subseteq> pending L a b i" using e(3) by (auto simp: pending_def)
        moreover have "a \<le> c" if "c \<in> pending L a b i" for c by (rule pending_bounds(1) [OF less.prems(1) that])
        ultimately show ?thesis by fastforce
      qed
      ultimately show ?thesis unfolding step using True by (simp add: Un_assoc)
    next
      case False
      then have b: "b < UNICODESET_HIGH" "e = b" using U(3,4) by (auto simp: e_def UNICODESET_HIGH_def split: if_splits)
      obtain a1 b1 i1 where nr: "next_range (L @ t) (int (length L)) i = Some (a1, b1, i1)" "i < i1" "b < a1"
        "ready L a1 b1 i1" "pending L a b i = {a..<b} \<union> pending L a1 b1 i1"
        by (rule ready_next [OF less.prems(1) b(1)])
      have "unread L i \<noteq> []" using less.prems(1) b(1) by (auto simp: ready_def inv_list_def)
      then have "i < int (length L)" by (auto simp: unread_def)
      then obtain V where "block_loop (L @ t) (int (length L)) U a1 b1 m' i1 = Some V" "bits_ok V (D \<union> {a..<e} \<union> pending L a1 b1 i1)"
        using less.hyps [OF _ nr(4) U(2) covered_mono [OF U(5), of a1]] nr(2,3) b(2) by auto
      then show ?thesis unfolding step using False nr(1,5) b(2) by (simp add: Un_assoc)
    qed
  qed
qed

section \<open>The three tables together\<close>

lemma initBits_ok:
  assumes L: "inv_list L" "bmp_list s = L @ t" "bmp_listLength s = int (length L)"
    and zero: "asciiBytes s = replicate 0xc0 0" "table7FF s = replicate 64 0" "bmpBlockBits s = replicate 64 0"
  obtains bytes table bits where "initBits s = Some (s\<lparr>asciiBytes := bytes, table7FF := table, bmpBlockBits := bits\<rparr>)"
    "length bytes = 0xc0" "\<And>c. c < 0x80 \<Longrightarrow> bytes ! c \<noteq> 0 \<longleftrightarrow> int c \<in> ranges L"
    "length table = 64" "\<And>t l. t < 64 \<Longrightarrow> l < 32 \<Longrightarrow> 0x80 \<le> 64 * int l + int t \<Longrightarrow> tbit table t l \<longleftrightarrow> 64 * int l + int t \<in> ranges L"
    "length bits = 64" "\<And>k. 32 \<le> k \<Longrightarrow> k < 1024 \<Longrightarrow> block_ok bits (ranges L) k"
proof -
  have unread: "unread L 0 = L" by (simp add: unread_def)
  obtain bytes a b i where A: "ascii_loop (bmp_list s) (bmp_listLength s) (asciiBytes s) 0 = Some (bytes, a, b, i)" "length bytes = 0xc0"
    "\<forall>c < 0xc0. bytes ! c \<noteq> 0 \<longleftrightarrow> replicate 0xc0 (0::u8) ! c \<noteq> 0 \<or> c < 0x80 \<and> int c \<in> ranges L" "ready L a b i" "0x80 \<le> a"
    "\<forall>c \<ge> 0x80. c \<in> ranges L \<longleftrightarrow> c \<in> pending L a b i"
    using ascii_loop_ok [of L 0 "asciiBytes s" t] L zero(1) unfolding unread by auto
  obtain table a' b' i' where B: "table_loop (bmp_list s) (bmp_listLength s) (table7FF s) a b i = Some (table, a', b', i')" "length table = 64"
    "\<forall>t < 64. \<forall>l < 32. tbit table t l \<longleftrightarrow> tbit (table7FF s) t l \<or> 64 * int l + int t \<in> pending L a b i"
    "ready L a' b' i'" "0x800 \<le> a'" "\<forall>c \<ge> 0x800. c \<in> pending L a b i \<longleftrightarrow> c \<in> pending L a' b' i'"
    using table_loop_ok [OF A(4), of "table7FF s" t] zero(2) unfolding L(2,3) by auto
  have none: "\<not> tbit (replicate 64 0) t l" if "t < 64" for t l using that by (simp add: tbit_def)
  have "block_ok (replicate 64 0) {} k" if "k < 1024" for k
    using that none [of "k mod 64"] by (simp add: block_ok_def all_bit_def mixed_bit_def)
  then have "bits_ok (bmpBlockBits s) {}" unfolding zero(3) by (intro bits_okI) simp_all
  moreover have "covered_to (bmpBlockBits s) 0x800 a'" using B(5) by (simp add: covered_to_def)
  ultimately obtain bits where C: "block_loop (bmp_list s) (bmp_listLength s) (bmpBlockBits s) a' b' 0x800 i' = Some bits"
    "bits_ok bits ({} \<union> pending L a' b' i')"
    using block_loop_ok [OF B(4), of "bmpBlockBits s" "{}"] unfolding L(2,3) by blast
  show thesis
  proof (rule that)
    show "initBits s = Some (s\<lparr>asciiBytes := bytes, table7FF := table, bmpBlockBits := bits\<rparr>)"
      unfolding initBits_def A(1) B(1) C(1) bind.simps prod.case by simp
    show "block_ok bits (ranges L) k" if "32 \<le> k" "k < 1024" for k
    proof -
      have "c \<in> pending L a' b' i' \<longleftrightarrow> c \<in> ranges L" if "c \<in> block k" for c
        using that \<open>32 \<le> k\<close> A(6) B(6) by (auto simp: block_def)
      then have "block k \<subseteq> pending L a' b' i' \<longleftrightarrow> block k \<subseteq> ranges L"
        "block k \<inter> pending L a' b' i' = {} \<longleftrightarrow> block k \<inter> ranges L = {}" by blast+
      then show ?thesis using bits_okD [OF C(2) that(2)] by (cases "all_bit bits k") (simp_all add: block_ok_def)
    qed
    show "tbit table t l \<longleftrightarrow> 64 * int l + int t \<in> ranges L" if "t < 64" "l < 32" "0x80 \<le> 64 * int l + int t" for t l
      using B(3) that A(6) none [OF that(1)] unfolding zero(2) by blast
    show "bytes ! c \<noteq> 0 \<longleftrightarrow> int c \<in> ranges L" if "c < 0x80" for c
      using A(3) that by (simp add: less_trans [OF that])
  qed (use A(2) B(2) C(2) in simp_all)
qed

end
