(* ===== verification/BmpSetProps.thy ===== *)
theory BmpSetProps
  imports UniSetProps BmpBlocks
begin

text \<open>
  Searching, membership, construction and spans of \<open>BmpSet\<close>, and their properties for the list of a set.
\<close>

section \<open>Searching\<close>

text \<open>The number of elements that are not greater than \<open>c\<close>, which is the index that a search has to find.\<close>

definition pos :: "int list \<Rightarrow> int \<Rightarrow> nat" where
  "pos L c = length (filter (\<lambda>x. x \<le> c) L)"

lemma pos_less: "sorted_wrt (<) L \<Longrightarrow> k < length L \<Longrightarrow> L ! k \<le> c \<longleftrightarrow> k < pos L c"
proof (induction L arbitrary: k)
  case (Cons x L)
  show ?case
  proof (cases "x \<le> c")
    case True
    then show ?thesis using Cons by (cases k) (simp_all add: pos_def)
  next
    case False
    then have "\<forall>y \<in> set L. \<not> y \<le> c" using Cons.prems(1) by auto
    then have "pos (x # L) c = 0" using False by (simp add: pos_def)
    moreover have "\<not> (x # L) ! k \<le> c" using False \<open>\<forall>y \<in> set L. \<not> y \<le> c\<close> Cons.prems(2) by (cases k) auto
    ultimately show ?thesis by simp
  qed
qed simp

lemma pos_mono: "c \<le> d \<Longrightarrow> pos L c \<le> pos L d"
  unfolding pos_def by (induction L) auto

lemma pos_below: "below L c \<longleftrightarrow> odd (pos L c)"
  by (simp add: below_def pos_def)

lemma pos_high:
  assumes "inv_list L" "c < UNICODESET_HIGH"
  shows "pos L c \<le> length L - 1" "L \<noteq> []"
proof -
  show "L \<noteq> []" using assms(1) by (simp add: inv_list_def)
  then have "\<not> L ! (length L - 1) \<le> c" "length L - 1 < length L" using assms by (simp_all add: inv_list_def last_conv_nth)
  then show "pos L c \<le> length L - 1" using pos_less [of L "length L - 1" c] assms(1) by (simp add: inv_list_def)
qed

lemma bmp_find_ok:
  assumes L: "sorted_wrt (<) L" "bmp_list s = L @ t" and range: "lo \<le> pos L c" "pos L c \<le> hi" "hi < length L"
  shows "bmp_findCodePoint s c (int lo) (int hi) = Some (int (pos L c))"
proof -
  have at: "rd (L @ t) (int k) = Some (L ! k)" "L ! k \<le> c \<longleftrightarrow> k < pos L c" if "k < length L" for k
    using that pos_less [OF L(1) that] by (simp_all add: rd_Some_iff nth_append)
  have lo: "lo < length L" using range by simp
  consider "pos L c = lo" | "lo < pos L c" "lo \<ge> hi" | "lo < pos L c" "lo < hi" "hi - 1 < pos L c" | "lo < pos L c" "lo < hi" "pos L c \<le> hi - 1"
    using range(1) by linarith
  then show ?thesis
  proof cases
    case 1
    then show ?thesis using at [OF lo] L(2) by (simp add: bmp_findCodePoint_def)
  next
    case 2
    then show ?thesis using at [OF lo] L(2) range by (simp add: bmp_findCodePoint_def)
  next
    case 3
    then have "int hi - 1 = int (hi - 1)" "hi - 1 < length L" "pos L c = hi" using range by auto
    then show ?thesis using 3 at [OF lo] at [of "hi - 1"] L(2) by (simp add: bmp_findCodePoint_def)
  next
    case 4
    then have m: "int hi - 1 = int (hi - 1)" "hi - 1 < length L" using range by auto
    have "L ! lo \<le> c" "c < L ! hi" using at(2) [OF lo] at(2) [OF range(3)] 4 range by (simp_all add: not_le [symmetric])
    then obtain i where i: "find_halve (L @ t) c (int lo) (int hi) = Some (int i)" "0 < i" "i < length L" "L ! (i - 1) \<le> c" "c < L ! i"
      using halve_ok [OF range(3) 4(2), of c t] by auto
    have "i - 1 < pos L c" "\<not> i < pos L c" using at(2) [of "i - 1"] at(2) [OF i(3)] i by auto
    then have "i = pos L c" by simp
    then show ?thesis using 4 m i(1) at [OF lo] at [OF m(2)] L(2) by (simp add: bmp_findCodePoint_def)
  qed
qed

text \<open>The code points that \<open>list4kStarts\<close> has the indexes of.\<close>

definition start_of :: "nat \<Rightarrow> int" where
  "start_of i = (if i = 0 then 0x800 else 0x1000 * int i)"

definition starts_ok :: "int list \<Rightarrow> int list \<Rightarrow> bool" where
  "starts_ok L starts \<longleftrightarrow> length starts = 0x12 \<and> (\<forall>i \<le> 0x10. starts ! i = int (pos L (start_of i))) \<and>
     starts ! 0x11 = int (length L) - 1"

lemma slow_ok:
  assumes L: "inv_list L" "bmp_list s = L @ t" and starts: "starts_ok L (list4kStarts s)"
    and i: "i \<le> 0x10" "start_of i \<le> c" and j: "j \<le> 0x11" "j \<le> 0x10 \<Longrightarrow> c \<le> start_of j" and c: "0 \<le> c" "c < UNICODESET_HIGH"
  shows "slow_between s c (int i) (int j) = Some (c \<in> ranges L)"
proof -
  have srt: "sorted_wrt (<) L" using L(1) by (simp add: inv_list_def)
  define hi where "hi = (if j = 0x11 then length L - 1 else pos L (start_of j))"
  have "start_of j < UNICODESET_HIGH" if "j \<le> 0x10" using that by (auto simp: start_of_def UNICODESET_HIGH_def)
  then have hi: "hi \<le> length L - 1" using pos_high(1) [OF L(1)] j(1) by (auto simp: hi_def)
  have lt: "hi < length L" using hi pos_high(2) [OF L(1) c(2)] by (cases L) auto
  have rd: "rd (list4kStarts s) (int i) = Some (int (pos L (start_of i)))" "rd (list4kStarts s) (int j) = Some (int hi)"
    using starts i(1) j(1) lt by (auto simp: starts_ok_def rd_Some_iff hi_def of_nat_diff)
  have "pos L (start_of i) \<le> pos L c" "pos L c \<le> hi"
    using pos_mono [OF i(2)] pos_mono [of c "start_of j" L] j pos_high(1) [OF L(1) c(2)] by (auto simp: hi_def)
  from bmp_find_ok [OF srt L(2) this lt]
  have "containsSlow s c (int (pos L (start_of i))) (int hi) = Some (odd (pos L c))" by (simp add: containsSlow_def)
  then show ?thesis using rd inv_list_ranges [OF L(1), of c] c by (simp add: slow_between_def pos_below)
qed

lemma starts_loop_ok:
  "inv_list L \<Longrightarrow> bmp_list s = L @ t \<Longrightarrow> bmp_listLength s = int (length L) \<Longrightarrow> length (list4kStarts s) = 0x12 \<Longrightarrow>
   0 < i \<Longrightarrow> i \<le> 0x11 \<Longrightarrow> \<forall>j < i. list4kStarts s ! j = int (pos L (start_of j)) \<Longrightarrow>
   \<exists>starts. starts_loop s (int i) = Some (s\<lparr>list4kStarts := starts\<rparr>) \<and> length starts = 0x12 \<and>
     (\<forall>j \<le> 0x10. starts ! j = int (pos L (start_of j)))"
proof (induction "0x11 - i" arbitrary: i s rule: less_induct)
  case less
  show ?case
  proof (cases "i \<le> 0x10")
    case False
    then have "s\<lparr>list4kStarts := list4kStarts s\<rparr> = s" "i = 0x11" using less.prems(6) by simp_all
    then show ?thesis using less.prems(4,7) by (subst starts_loop.simps) (auto intro!: exI [of _ "list4kStarts s"])
  next
    case True
    have srt: "sorted_wrt (<) L" using less.prems(1) by (simp add: inv_list_def)
    have c: "push_bit 12 (int i) = start_of i" "start_of i < UNICODESET_HIGH" "start_of (i - 1) \<le> start_of i"
      using less.prems(5) True by (auto simp: start_of_def push_bit_eq_mult UNICODESET_HIGH_def)
    have lo: "rd (list4kStarts s) (int i - 1) = Some (int (pos L (start_of (i - 1))))"
      using less.prems(4,5,7) True by (simp add: rd_Some_iff nat_diff_distrib)
    have hi: "pos L (start_of i) \<le> length L - 1" "int (length L) - 1 = int (length L - 1)" "length L - 1 < length L"
      using pos_high [OF less.prems(1) c(2)] by (cases L; simp)+
    have find: "bmp_findCodePoint s (start_of i) (int (pos L (start_of (i - 1)))) (int (length L) - 1) = Some (int (pos L (start_of i)))"
      unfolding hi(2) by (rule bmp_find_ok [OF srt less.prems(2) pos_mono [OF c(3)] hi(1,3)])
    define u where "u = s\<lparr>list4kStarts := (list4kStarts s)[i := int (pos L (start_of i))]\<rparr>"
    have step: "starts_loop s (int i) = starts_loop u (int (Suc i))"
      using True lo find less.prems(3,4) c(1) by (subst starts_loop.simps) (simp add: u_def add.commute)
    have "\<forall>j < Suc i. list4kStarts u ! j = int (pos L (start_of j))"
      using less.prems(4,7) True by (auto simp: u_def nth_list_update less_Suc_eq)
    moreover have "0x11 - Suc i < 0x11 - i" using True by linarith
    ultimately obtain starts where "starts_loop u (int (Suc i)) = Some (u\<lparr>list4kStarts := starts\<rparr>)" "length starts = 0x12"
      "\<forall>j \<le> 0x10. starts ! j = int (pos L (start_of j))"
      using less.hyps [of "Suc i" u] less.prems(1-4) True by (simp add: u_def) blast
    then show ?thesis unfolding step by (auto simp: u_def)
  qed
qed

section \<open>Membership by the tables\<close>

text \<open>What the tables have to say: nothing about the entries that \<open>overrideIllegal\<close> changes.\<close>

definition tables_ok :: "BMPSet \<Rightarrow> int set \<Rightarrow> bool" where
  "tables_ok s S \<longleftrightarrow> length (asciiBytes s) = 0xc0 \<and> length (table7FF s) = 64 \<and> length (bmpBlockBits s) = 64 \<and>
     (\<forall>c < 0x80. asciiBytes s ! c \<noteq> 0 \<longleftrightarrow> int c \<in> S) \<and>
     (\<forall>t < 64. \<forall>l < 32. 0x80 \<le> 64 * int l + int t \<longrightarrow> (tbit (table7FF s) t l \<longleftrightarrow> 64 * int l + int t \<in> S)) \<and>
     (\<forall>k. 32 \<le> k \<and> k < 1024 \<and> \<not> (0x360 \<le> k \<and> k < 0x380) \<longrightarrow> block_ok (bmpBlockBits s) S k)"

definition bmp_inv :: "BMPSet \<Rightarrow> int list \<Rightarrow> bool" where
  "bmp_inv s L \<longleftrightarrow> inv_list L \<and> (\<exists>t. bmp_list s = L @ t) \<and> bmp_listLength s = int (length L) \<and>
     starts_ok L (list4kStarts s) \<and> tables_ok s (ranges L)"

lemma tables_7FF:
  assumes "tables_ok s S" "t < 64" "l < 32" "0x80 \<le> 64 * int l + int t"
  shows "tbit (table7FF s) t l \<longleftrightarrow> 64 * int l + int t \<in> S"
  using assms unfolding tables_ok_def by blast

lemma tables_ascii: "tables_ok s S \<Longrightarrow> c < 0x80 \<Longrightarrow> asciiBytes s ! c \<noteq> 0 \<longleftrightarrow> int c \<in> S"
  unfolding tables_ok_def by blast

lemma tables_block: "tables_ok s S \<Longrightarrow> 32 \<le> k \<Longrightarrow> k < 1024 \<Longrightarrow> \<not> (0x360 \<le> k \<and> k < 0x380) \<Longrightarrow> block_ok (bmpBlockBits s) S k"
  unfolding tables_ok_def by blast

lemma tables_length: "tables_ok s S \<Longrightarrow> length (asciiBytes s) = 0xc0 \<and> length (table7FF s) = 64 \<and> length (bmpBlockBits s) = 64"
  unfolding tables_ok_def by blast

lemma slow_inv:
  assumes "bmp_inv s L" "i \<le> 0x10" "start_of i \<le> c" "j \<le> 0x11" "j \<le> 0x10 \<Longrightarrow> c \<le> start_of j" "0 \<le> c" "c < UNICODESET_HIGH"
  shows "slow_between s c (int i) (int j) = Some (c \<in> ranges L)"
  using assms slow_ok [of L s _ i c j] by (auto simp: bmp_inv_def)

lemma two_bits:
  fixes x :: u32
  assumes "l < 16"
  shows "drop_bit l x AND 0x10001 = (if bit x (l + 16) then 0x10000 else 0) + (if bit x l then 1 else 0)"
proof -
  have "drop_bit l x AND 0x10001 = (if bit x (l + 16) then 0x10000 else 0) OR (if bit x l then 1 else 0)"
  proof (rule bit_word_eqI)
    fix n assume "n < LENGTH(32)"
    have high: "bit (0x10000 :: u32) n \<longleftrightarrow> n = 16" using \<open>n < LENGTH(32)\<close> bit_exp_iff [of 16 n, where 'a = u32] by auto
    have "bit (drop_bit l x AND 0x10001) n \<longleftrightarrow> bit x (l + n) \<and> (n = 0 \<or> n = 16)"
      by (simp only: bit_and_iff bit_drop_bit_eq mixed_value comp_def)
    then show "bit (drop_bit l x AND 0x10001) n = bit ((if bit x (l + 16) then 0x10000 else 0) OR (if bit x l then 1 else 0) :: u32) n"
      using high by (auto simp: bit_or_iff bit_1_iff)
  qed
  then show ?thesis by (auto split: if_splits)
qed

lemma bit_test: "l < 32 \<Longrightarrow> (x::u32) AND push_bit l 1 \<noteq> 0 \<longleftrightarrow> bit x l"
  by (simp only: bit_iff_and_push_bit_not_eq_0)

lemma table_test_ok:
  assumes s: "bmp_inv s L" and c: "0 \<le> c" "c < 0x10000" "\<not> (0xd800 \<le> c \<and> c < 0xe000)"
  shows "table_test s c = Some (c \<in> ranges L)"
proof -
  have tab: "tables_ok s (ranges L)" using s by (simp add: bmp_inv_def)
  obtain k where k: "k < 1024" "c div 64 = int k" using int_block c by blast
  have ck: "c = 64 * int k + c mod 64" "0 \<le> c mod 64" "c mod 64 < 64" using k(2) by (metis mult_div_mod_eq, simp_all)
  consider "c \<le> 0x7f" | "0x7f < c" "c \<le> 0x7ff" | "0x7ff < c" by linarith
  then show ?thesis
  proof cases
    case 1
    have "int (nat c) = c" "nat c < 0x80" "nat c < 0xc0" using 1 c by auto
    then have "rd (asciiBytes s) c = Some (asciiBytes s ! nat c)" "asciiBytes s ! nat c \<noteq> 0 \<longleftrightarrow> c \<in> ranges L"
      using tables_length [OF tab] tables_ascii [OF tab, of "nat c"] c by (simp_all add: rd_Some_iff)
    then show ?thesis using 1 by (simp add: table_test_def)
  next
    case 2
    then have k32: "k < 32" using ck by linarith
    define x where "x = table7FF s ! nat (c mod 64)"
    have t: "nat (c mod 64) < 64" "int (nat (c mod 64)) = c mod 64" using ck by auto
    have "rd (table7FF s) (c AND 0x3f) = Some x" using tables_length [OF tab] ck(2,3) by (simp add: rd_Some_iff block_bits x_def)
    moreover have "tbit (table7FF s) (nat (c mod 64)) k \<longleftrightarrow> c \<in> ranges L"
      using tables_7FF [OF tab t(1) k32] ck(1) t(2) 2 by simp
    ultimately show ?thesis using 2 k k32 bit_test [OF k32, of x]
      by (simp only: table_test_def bind.simps block_bits nat_int tbit_def x_def [symmetric]) auto
  next
    case 3
    define l where "l = k div 64"
    define x where "x = bmpBlockBits s ! (k mod 64)"
    have k': "32 \<le> k" "\<not> (0x360 \<le> k \<and> k < 0x380)" "l < 16" using 3 ck c k(1) by (auto simp: l_def)
    have lead: "drop_bit 12 c = int l" "drop_bit 6 c AND 0x3f = int (k mod 64)"
      using k(2) zdiv_zmult2_eq [of 64 c 64] by (simp_all add: drop_bit_eq_div block_bits l_def zdiv_int zmod_int)
    have rd: "rd (bmpBlockBits s) (drop_bit 6 c AND 0x3f) = Some x" unfolding lead using tables_length [OF tab] by (simp add: rd_Some_iff x_def)
    have ok: "block_ok (bmpBlockBits s) (ranges L) k" using tables_block [OF tab k'(1) k(1) k'(2)] .
    have bits: "all_bit (bmpBlockBits s) k = bit x l" "mixed_bit (bmpBlockBits s) k = bit x (l + 16)"
      by (simp_all add: all_bit_def mixed_bit_def tbit_def x_def l_def)
    have "64 * int k \<le> c" "c < 64 * int k + 64" using ck by linarith+
    then have mem: "c \<in> block k" by (simp add: block_def)
    have "slow_between s c (int l) (int (Suc l)) = Some (c \<in> ranges L)"
      by (rule slow_inv [OF s]) (use c 3 ck k' in \<open>auto simp: start_of_def UNICODESET_HIGH_def l_def\<close>)
    then have slow: "slow_between s c (int l) (int l + 1) = Some (c \<in> ranges L)" by (simp add: add.commute)
    have "\<not> (0x10001 :: u32) \<le> 1" "\<not> (0x10000 :: u32) \<le> 1" by (simp_all add: word_le_nat_alt)
    then have "table_test s c = (if bit x (l + 16) then slow_between s c (int l) (int l + 1) else Some (bit x l))"
      using 3 rd two_bits [OF k'(3), of x] by (simp add: table_test_def lead Let_def)
    then show ?thesis using slow ok mem unfolding block_ok_def bits by (auto split: if_splits)
  qed
qed

section \<open>Construction\<close>

lemma fill_bytes_ok:
  "0 \<le> i \<Longrightarrow> n \<le> int (length bytes) \<Longrightarrow>
   \<exists>bytes'. fill_bytes bytes i n = Some bytes' \<and> length bytes' = length bytes \<and> (\<forall>c. int c < i \<longrightarrow> bytes' ! c = bytes ! c)"
proof (induction bytes i n rule: fill_bytes.induct)
  case (1 bytes i n)
  show ?case
  proof (cases "i < n")
    case True
    then have wr: "wr bytes i 1 = Some (bytes[nat i := 1])" using "1.prems" by simp
    have "\<exists>bytes'. fill_bytes (bytes[nat i := 1]) (i + 1) n = Some bytes' \<and> length bytes' = length (bytes[nat i := 1]) \<and>
        (\<forall>c. int c < i + 1 \<longrightarrow> bytes' ! c = bytes[nat i := 1] ! c)"
      by (rule "1.IH") (use True wr "1.prems" in simp_all)
    then obtain bytes' where "fill_bytes (bytes[nat i := 1]) (i + 1) n = Some bytes'" "length bytes' = length bytes"
      "\<forall>c. int c < i + 1 \<longrightarrow> bytes' ! c = bytes[nat i := 1] ! c" by auto
    then show ?thesis using True wr "1.prems" by (subst fill_bytes.simps) auto
  next
    case False
    then show ?thesis by (subst fill_bytes.simps) simp
  qed
qed

lemma mask_bits:
  assumes T: "length T = 64" and b: "b = push_bit 0xd 1 \<or> b = 0"
  shows "\<exists>T'. mask_rows T 32 64 (NOT (push_bit 0xd 0x10001)) b = Some T' \<and> length T' = 64 \<and>
    (\<forall>t < 64. \<forall>l < 32. \<not> (32 \<le> t \<and> (l = 13 \<or> l = 29)) \<longrightarrow> tbit T' t l = tbit T t l)"
proof -
  obtain T' where T': "mask_rows T 32 64 (NOT (push_bit 0xd 0x10001)) b = Some T'" "length T' = 64"
    "\<forall>t < 64. T' ! t = (if 32 \<le> int t \<and> int t < 64 then (T ! t AND NOT (push_bit 0xd 0x10001)) OR b else T ! t)"
    using mask_rows_ok [of 32 64 T "NOT (push_bit 0xd 0x10001)" b] T by auto
  have "bit ((x AND NOT (push_bit 0xd 0x10001)) OR b) l = bit x l" if "l < 32" "l \<noteq> 13" "l \<noteq> 29" for x l
  proof -
    have "bit (push_bit 0xd 0x10001 :: u32) l \<longleftrightarrow> l = 13 \<or> l = 29"
      using that(1) by (simp only: bit_push_bit_iff mixed_value) auto
    moreover have "\<not> bit b l" using b that one_bit [OF that(1), of 13] by auto
    ultimately show ?thesis using that by (simp only: bit_or_iff bit_and_iff bit_not_iff) simp
  qed
  then have "tbit T' t l = tbit T t l" if "t < 64" "l < 32" "\<not> (32 \<le> t \<and> (l = 13 \<or> l = 29))" for t l
    using T'(3) that by (cases "32 \<le> t") (auto simp: tbit_def)
  then show ?thesis using T'(1,2) by blast
qed

lemma block_ok_same:
  assumes "block_ok T S k" "32 \<le> k" "k < 1024" "\<not> (0x360 \<le> k \<and> k < 0x380)"
    and "\<And>t l. t < 64 \<Longrightarrow> l < 32 \<Longrightarrow> \<not> (t < 32 \<and> l = 0) \<Longrightarrow> \<not> (32 \<le> t \<and> (l = 13 \<or> l = 29)) \<Longrightarrow> tbit T' t l = tbit T t l"
  shows "block_ok T' S k"
proof -
  have k: "k = 64 * (k div 64) + k mod 64" "k mod 64 < 64" by simp_all
  have "k div 64 < 16" using assms(3) by simp
  moreover have "\<not> (k mod 64 < 32 \<and> k div 64 = 0)" using k assms(2) by linarith
  moreover have "\<not> (32 \<le> k mod 64 \<and> k div 64 = 13)" using k assms(4) by linarith
  ultimately have "all_bit T' k = all_bit T k" "mixed_bit T' k = mixed_bit T k"
    using assms(5) [of "k mod 64" "k div 64"] assms(5) [of "k mod 64" "k div 64 + 16"] by (auto simp: all_bit_def mixed_bit_def)
  then show ?thesis using assms(1) by (simp add: block_ok_def)
qed

lemma overrideIllegal_ok:
  assumes s: "bmp_inv s L"
  obtains s' where "overrideIllegal s = Some s'" "bmp_inv s' L"
proof -
  have tab: "tables_ok s (ranges L)" using s by (simp add: bmp_inv_def)
  note len = tables_length [OF tab]
  have "slow_between s 0xfffd (int 0xf) (int 0x10) = Some (0xfffd \<in> ranges L)"
    by (rule slow_inv [OF s]) (simp_all add: start_of_def UNICODESET_HIGH_def)
  then have fffd: "slow_between s 0xfffd 0xf 0x10 = Some (0xfffd \<in> ranges L)" by simp
  have inv: "bmp_inv (s\<lparr>asciiBytes := bytes, table7FF := table, bmpBlockBits := bits\<rparr>) L"
    if "length bytes = 0xc0" "length table = 64" "length bits = 64" "\<And>c. c < 0x80 \<Longrightarrow> bytes ! c = asciiBytes s ! c"
      "\<And>t l. t < 64 \<Longrightarrow> l < 32 \<Longrightarrow> 2 \<le> l \<Longrightarrow> tbit table t l = tbit (table7FF s) t l"
      "\<And>t l. t < 64 \<Longrightarrow> l < 32 \<Longrightarrow> \<not> (t < 32 \<and> l = 0) \<Longrightarrow> \<not> (32 \<le> t \<and> (l = 13 \<or> l = 29)) \<Longrightarrow> tbit bits t l = tbit (bmpBlockBits s) t l"
    for bytes table bits
  proof -
    have "tables_ok (s\<lparr>asciiBytes := bytes, table7FF := table, bmpBlockBits := bits\<rparr>) (ranges L)"
      unfolding tables_ok_def
    proof (intro conjI allI impI)
      show "block_ok (bmpBlockBits (s\<lparr>asciiBytes := bytes, table7FF := table, bmpBlockBits := bits\<rparr>)) (ranges L) k"
        if "32 \<le> k \<and> k < 1024 \<and> \<not> (0x360 \<le> k \<and> k < 0x380)" for k
        using block_ok_same [OF tables_block [OF tab]] that \<open>\<And>t l. _ \<Longrightarrow> _ \<Longrightarrow> _ \<Longrightarrow> _ \<Longrightarrow> tbit bits t l = _\<close> by simp
    qed (use that tables_ascii [OF tab] tables_7FF [OF tab] in auto)
    then show ?thesis using s by (simp add: bmp_inv_def)
  qed
  show thesis
  proof (cases "0xfffd \<in> ranges L")
    case True
    obtain bytes where A: "fill_bytes (asciiBytes s) 0x80 0xc0 = Some bytes" "length bytes = 0xc0" "\<forall>c. int c < 0x80 \<longrightarrow> bytes ! c = asciiBytes s ! c"
      using fill_bytes_ok [of 128 192 "asciiBytes s"] len by auto
    obtain table where B: "or_rows (table7FF s) 0 64 3 = Some table" "length table = 64"
      "\<forall>t < 64. \<forall>l < 32. tbit table t l \<longleftrightarrow> tbit (table7FF s) t l \<or> (0 \<le> int t \<and> int t < 64 \<and> bit (3::u32) l)"
      using or_bits [of "table7FF s" 0 64 3] len by auto
    obtain bits where C: "or_rows (bmpBlockBits s) 0 32 1 = Some bits" "length bits = 64"
      "\<forall>t < 64. \<forall>l < 32. tbit bits t l \<longleftrightarrow> tbit (bmpBlockBits s) t l \<or> (0 \<le> int t \<and> int t < 32 \<and> bit (1::u32) l)"
      using or_bits [of "bmpBlockBits s" 0 32 1] len by auto
    obtain bits' where D: "mask_rows bits 32 64 (NOT (push_bit 0xd 0x10001)) (push_bit 0xd 1) = Some bits'" "length bits' = 64"
      "\<forall>t < 64. \<forall>l < 32. \<not> (32 \<le> t \<and> (l = 13 \<or> l = 29)) \<longrightarrow> tbit bits' t l = tbit bits t l"
      using mask_bits [OF C(2)] by blast
    have three: "\<not> bit (3::u32) l" if "2 \<le> l" for l
    proof -
      have "(3::u32) = mask 2" by (simp add: mask_eq_exp_minus_1)
      then show ?thesis using that by (simp only: bit_mask_iff) simp
    qed
    have "overrideIllegal s = Some (s\<lparr>asciiBytes := bytes, table7FF := table, bmpBlockBits := bits'\<rparr>)"
      unfolding overrideIllegal_def fffd using True by (simp only: bind.simps if_True Let_def A(1) B(1) C(1) D(1))
    moreover have "bmp_inv (s\<lparr>asciiBytes := bytes, table7FF := table, bmpBlockBits := bits'\<rparr>) L"
      by (rule inv) (use A B C D three in \<open>auto simp: bit_1_iff\<close>)
    ultimately show thesis by (rule that)
  next
    case False
    obtain bits where D: "mask_rows (bmpBlockBits s) 32 64 (NOT (push_bit 0xd 0x10001)) 0 = Some bits" "length bits = 64"
      "\<forall>t < 64. \<forall>l < 32. \<not> (32 \<le> t \<and> (l = 13 \<or> l = 29)) \<longrightarrow> tbit bits t l = tbit (bmpBlockBits s) t l"
      using mask_bits [of "bmpBlockBits s" 0] len by blast
    have same: "s\<lparr>bmpBlockBits := bits\<rparr> = s\<lparr>asciiBytes := asciiBytes s, table7FF := table7FF s, bmpBlockBits := bits\<rparr>" by simp
    have "overrideIllegal s = Some (s\<lparr>bmpBlockBits := bits\<rparr>)"
      unfolding overrideIllegal_def fffd using False by (simp only: bind.simps if_False Let_def D(1))
    moreover have "bmp_inv (s\<lparr>bmpBlockBits := bits\<rparr>) L"
      unfolding same by (rule inv) (use len D in auto)
    ultimately show thesis by (rule that)
  qed
qed

lemma new_BMPSet_ok:
  assumes L: "inv_list L" and starts0: "length starts0 = 0x12"
  obtains b where "new_BMPSet starts0 (L @ t) (int (length L)) = Some b" "bmp_inv b L"
proof -
  define s where "s = \<lparr>asciiBytes = replicate 0xc0 0, table7FF = replicate 64 0, bmpBlockBits = replicate 64 0,
    list4kStarts = starts0, bmp_list = L @ t, bmp_listLength = int (length L)\<rparr>"
  have fields: "asciiBytes s = replicate 0xc0 0" "table7FF s = replicate 64 0" "bmpBlockBits s = replicate 64 0"
    "list4kStarts s = starts0" "bmp_list s = L @ t" "bmp_listLength s = int (length L)"
    unfolding s_def by (simp_all only: BMPSet.select_convs)
  have srt: "sorted_wrt (<) L" using L by (simp add: inv_list_def)
  have hi: "pos L 0x800 \<le> length L - 1" "int (length L) - 1 = int (length L - 1)" "length L - 1 < length L"
    using pos_high [OF L, of "0x800"] by (cases L; simp add: UNICODESET_HIGH_def)+
  have find: "bmp_findCodePoint s 0x800 0 (bmp_listLength s - 1) = Some (int (pos L 0x800))"
  proof -
    have "bmp_findCodePoint s 0x800 (int 0) (int (length L - 1)) = Some (int (pos L 0x800))"
      by (rule bmp_find_ok [OF srt fields(5) _ hi(1,3)]) simp
    then show ?thesis unfolding fields(6) hi(2) int_ops(1) .
  qed
  have wr: "wr (list4kStarts s) 0 (int (pos L 0x800)) = Some (starts0[0 := int (pos L 0x800)])" using starts0 by (simp add: fields wr_def)
  define s1 where "s1 = s\<lparr>list4kStarts := starts0[0 := int (pos L 0x800)]\<rparr>"
  obtain starts where starts: "starts_loop s1 1 = Some (s1\<lparr>list4kStarts := starts\<rparr>)" "length starts = 0x12"
    "\<forall>j \<le> 0x10. starts ! j = int (pos L (start_of j))"
    using starts_loop_ok [OF L, of s1 t 1] starts0 by (auto simp: s1_def fields start_of_def)
  define starts' where "starts' = starts[0x11 := int (length L) - 1]"
  have wr': "wr (list4kStarts (s1\<lparr>list4kStarts := starts\<rparr>)) 0x11 (bmp_listLength (s1\<lparr>list4kStarts := starts\<rparr>) - 1) = Some starts'"
    using starts(2) by (simp add: wr_def starts'_def s1_def fields)
  define s2 where "s2 = s1\<lparr>list4kStarts := starts, list4kStarts := starts'\<rparr>"
  have ok: "starts_ok L starts'" using starts(2,3) by (auto simp: starts_ok_def starts'_def nth_list_update)
  obtain bytes table bits where init: "initBits s2 = Some (s2\<lparr>asciiBytes := bytes, table7FF := table, bmpBlockBits := bits\<rparr>)"
    "length bytes = 0xc0" "\<And>c. c < 0x80 \<Longrightarrow> bytes ! c \<noteq> 0 \<longleftrightarrow> int c \<in> ranges L"
    "length table = 64" "\<And>t l. t < 64 \<Longrightarrow> l < 32 \<Longrightarrow> 0x80 \<le> 64 * int l + int t \<Longrightarrow> tbit table t l \<longleftrightarrow> 64 * int l + int t \<in> ranges L"
    "length bits = 64" "\<And>k. 32 \<le> k \<Longrightarrow> k < 1024 \<Longrightarrow> block_ok bits (ranges L) k"
    by (rule initBits_ok [OF L, of s2 t]) (simp_all add: s2_def s1_def fields)
  define s3 where "s3 = s2\<lparr>asciiBytes := bytes, table7FF := table, bmpBlockBits := bits\<rparr>"
  have "tables_ok s3 (ranges L)" unfolding tables_ok_def s3_def using init(2-7) by simp
  then have "bmp_inv s3 L" using L ok by (simp add: bmp_inv_def s3_def s2_def s1_def fields)
  then obtain b where b: "overrideIllegal s3 = Some b" "bmp_inv b L" by (rule overrideIllegal_ok)
  have "new_BMPSet starts0 (L @ t) (int (length L)) = Some b"
    unfolding new_BMPSet_def Let_def s_def [symmetric] find bind.simps wr s1_def [symmetric] starts(1) wr' s2_def [symmetric]
      init(1) s3_def [symmetric] b(1) ..
  then show thesis using b(2) by (rule that)
qed

lemma bmp_contains_ok:
  assumes s: "bmp_inv s L"
  shows "bmp_contains s c = Some (c \<in> ranges L)"
proof -
  have out: "c \<notin> ranges L" if "\<not> (0 \<le> c \<and> c < UNICODESET_HIGH)"
    using that inv_list_ranges [of L c] s by (auto simp: bmp_inv_def)
  have "slow_between s c (int 0xd) (int 0x11) = Some (c \<in> ranges L)" if "0xd800 \<le> c" "c \<le> 0x10ffff"
    by (rule slow_inv [OF s]) (use that in \<open>simp_all add: start_of_def UNICODESET_HIGH_def\<close>)
  then show ?thesis using table_test_ok [OF s, of c] out by (auto simp: bmp_contains_def UNICODESET_HIGH_def)
qed

section \<open>Spans\<close>

lemma surrogate_slow:
  assumes s: "bmp_inv s L" and c: "0xd800 \<le> c" "c < 0xe000"
  shows "slow_between s c 0xd 0xe = Some (c \<in> ranges L)"
proof -
  have "slow_between s c (int 0xd) (int 0xe) = Some (c \<in> ranges L)"
    by (rule slow_inv [OF s]) (use c in \<open>simp_all add: start_of_def UNICODESET_HIGH_def\<close>)
  then show ?thesis by simp
qed

lemma supplementary_slow:
  assumes s: "bmp_inv s L" and c: "0x10000 \<le> c" "c < 0x110000"
  shows "slow_between s c 0x10 0x11 = Some (c \<in> ranges L)"
proof -
  have "slow_between s c (int 0x10) (int 0x11) = Some (c \<in> ranges L)"
    by (rule slow_inv [OF s]) (use c in \<open>simp_all add: start_of_def UNICODESET_HIGH_def\<close>)
  then show ?thesis by simp
qed

lemma forward_test_ok:
  assumes s: "bmp_inv s L" and i: "0 \<le> i" "i < limit" "limit \<le> int (length text)"
  obtains c where "forward_test s text i limit = Some (c \<in> ranges L, i + width16 c - 1)" "i + width16 c \<le> limit"
    "code_points (seg text i limit) = c # code_points (seg text (i + width16 c) limit)"
proof -
  define u where "u = text ! nat i"
  have u: "rd text i = Some u" "seg text i limit = u # seg text (i + 1) limit" using i seg_step [of i limit "text"] by (simp_all add: u_def)
  have u16: "0 \<le> uint u" "uint u < 0x10000" using uint_u16_bounds [of u] by simp_all
  show thesis
  proof (cases "U16_IS_LEAD u \<and> i + 1 < limit \<and> U16_IS_TRAIL (text ! nat (i + 1))")
    case True
    define v where "v = text ! nat (i + 1)"
    have v: "rd text (i + 1) = Some v" "seg text (i + 1) limit = v # seg text (i + 2) limit" "U16_IS_TRAIL v"
      using True i seg_step [of "i + 1" limit "text"] by (simp_all add: v_def add.assoc)
    note c = supplementary_bounds [OF conjunct1 [OF True] v(3)]
    have "forward_test s text i limit = Some (U16_GET_SUPPLEMENTARY u v \<in> ranges L, i + 1)"
      using True v u supplementary_slow [OF s, of "U16_GET_SUPPLEMENTARY u v"] c by (simp add: forward_test_def lead_iff)
    then show thesis using that [of "U16_GET_SUPPLEMENTARY u v"] True u(2) v(2,3) c by (simp add: width16_def)
  next
    case False
    then have single: "code_points (seg text i limit) = uint u # code_points (seg text (i + 1) limit)"
      using u(2) i seg_step [of "i + 1" limit "text"] by (cases "i + 1 < limit") auto
    have "forward_test s text i limit = Some (uint u \<in> ranges L, i)"
    proof (cases "0xd800 \<le> uint u \<and> uint u < 0xe000")
      case True
      then show ?thesis using u False i surrogate_slow [OF s, of "uint u"] by (auto simp: forward_test_def lead_iff)
    next
      case False
      then show ?thesis using u u16 table_test_ok [OF s, of "uint u"] by (auto simp: forward_test_def)
    qed
    then show thesis using that [of "uint u"] single u16 i by (simp add: width16_def)
  qed
qed

lemma bmp_span_ok:
  assumes s: "bmp_inv s L"
  shows "0 \<le> i \<Longrightarrow> i < limit \<Longrightarrow> limit \<le> int (length text) \<Longrightarrow>
    bmp_span s text i limit want = Some (i + widths (takeWhile (\<lambda>c. (c \<in> ranges L) = want) (code_points (seg text i limit))))"
proof (induction "nat (limit - i)" arbitrary: i rule: less_induct)
  case less
  obtain c where c: "forward_test s text i limit = Some (c \<in> ranges L, i + width16 c - 1)" "i + width16 c \<le> limit"
    "code_points (seg text i limit) = c # code_points (seg text (i + width16 c) limit)"
    by (rule forward_test_ok [OF s less.prems])
  have pos: "0 < width16 c" by (rule width16_pos)
  consider "(c \<in> ranges L) \<noteq> want" | "(c \<in> ranges L) = want" "i + width16 c < limit" | "(c \<in> ranges L) = want" "i + width16 c = limit"
    using c(2) by fastforce
  then show ?case
  proof cases
    case 1
    then show ?thesis using c by (subst bmp_span.simps) (simp add: widths_def)
  next
    case 2
    have "bmp_span s text (i + width16 c) limit want = Some (i + width16 c +
        widths (takeWhile (\<lambda>c. (c \<in> ranges L) = want) (code_points (seg text (i + width16 c) limit))))"
      by (rule less.hyps) (use 2 pos less.prems in auto)
    then show ?thesis using 2 c by (subst bmp_span.simps) (simp add: widths_def)
  next
    case 3
    then show ?thesis using c by (subst bmp_span.simps) (simp add: widths_def)
  qed
qed

lemma backward_test_ok:
  assumes s: "bmp_inv s L" and i: "0 \<le> start" "start < limit" "limit \<le> int (length str)"
  obtains c where "backward_test s str start (limit - 1) = Some (c \<in> ranges L, limit - width16 c)" "start \<le> limit - width16 c"
    "code_points (seg str start limit) = code_points (seg str start (limit - width16 c)) @ [c]"
proof -
  define u where "u = str ! nat (limit - 1)"
  have u: "rd str (limit - 1) = Some u" "seg str start limit = seg str start (limit - 1) @ [u]" using i seg_snoc [of start limit str]
    by (simp_all add: u_def)
  have u16: "0 \<le> uint u" "uint u < 0x10000" using uint_u16_bounds [of u] by simp_all
  define v where "v = str ! nat (limit - 2)"
  have v: "rd str (limit - 2) = Some v" "seg str start (limit - 1) = seg str start (limit - 2) @ [v]" if "start < limit - 1"
    using i that seg_snoc [of start "limit - 1" str] by (simp_all add: v_def rd_Some_iff)
  show thesis
  proof (cases "U16_IS_TRAIL u \<and> start < limit - 1 \<and> U16_IS_LEAD v")
    case True
    have c: "0x10000 \<le> U16_GET_SUPPLEMENTARY v u" "U16_GET_SUPPLEMENTARY v u < 0x110000" using supplementary_bounds [of v u] True by auto
    have "code_points (seg str start limit) = code_points (seg str start (limit - 2)) @ [U16_GET_SUPPLEMENTARY v u]"
      using u(2) v(2) True code_points_pair [of v u] by simp
    moreover have "backward_test s str start (limit - 1) = Some (U16_GET_SUPPLEMENTARY v u \<in> ranges L, limit - 2)"
      using True v u supplementary_slow [OF s c] by (simp add: backward_test_def lead_iff)
    ultimately show thesis using that [of "U16_GET_SUPPLEMENTARY v u"] True c by (simp add: width16_def)
  next
    case False
    have single: "code_points (seg str start limit) = code_points (seg str start (limit - 1)) @ [uint u]"
    proof (cases "start < limit - 1")
      case True
      then show ?thesis unfolding u(2) by (intro code_points_single) (use v(2) False in auto)
    next
      case False
      then show ?thesis using u(2) by simp
    qed
    have "backward_test s str start (limit - 1) = Some (uint u \<in> ranges L, limit - 1)"
    proof (cases "0xd800 \<le> uint u \<and> uint u < 0xe000")
      case True
      then show ?thesis using u False i v(1) surrogate_slow [OF s, of "uint u"] by (auto simp: backward_test_def lead_iff)
    next
      case False
      then show ?thesis using u u16 table_test_ok [OF s, of "uint u"] by (auto simp: backward_test_def)
    qed
    then show thesis using that [of "uint u"] single u16 i by (simp add: width16_def)
  qed
qed

lemma bmp_spanBack_ok:
  assumes s: "bmp_inv s L"
  shows "0 \<le> start \<Longrightarrow> start < limit \<Longrightarrow> limit \<le> int (length str) \<Longrightarrow>
    bmp_spanBack s str start limit want = Some (limit - widths (takeWhile (\<lambda>c. (c \<in> ranges L) = want) (rev (code_points (seg str start limit)))))"
proof (induction "nat limit" arbitrary: limit rule: less_induct)
  case less
  obtain c where c: "backward_test s str start (limit - 1) = Some (c \<in> ranges L, limit - width16 c)" "start \<le> limit - width16 c"
    "code_points (seg str start limit) = code_points (seg str start (limit - width16 c)) @ [c]"
    by (rule backward_test_ok [OF s less.prems])
  have pos: "0 < width16 c" by (rule width16_pos)
  consider "(c \<in> ranges L) \<noteq> want" | "(c \<in> ranges L) = want" "start < limit - width16 c" | "(c \<in> ranges L) = want" "start = limit - width16 c"
    using c(2) by fastforce
  then show ?case
  proof cases
    case 1
    then show ?thesis using c by (subst bmp_spanBack.simps) (simp add: widths_def)
  next
    case 2
    have "bmp_spanBack s str start (limit - width16 c) want = Some (limit - width16 c -
        widths (takeWhile (\<lambda>c. (c \<in> ranges L) = want) (rev (code_points (seg str start (limit - width16 c))))))"
      by (rule less.hyps) (use 2 pos less.prems in auto)
    then show ?thesis using 2 c by (subst bmp_spanBack.simps) (simp add: widths_def)
  next
    case 3
    then show ?thesis using c by (subst bmp_spanBack.simps) (simp add: widths_def)
  qed
qed

section \<open>Properties\<close>

lemma example_lists: "us_list (example_set l strs) = Some l" "us_elems (example_set l strs) = l"
  by (simp_all add: example_set_def us_elems_def)

lemma frozen_set:
  assumes "us_inv s" "length starts0 = 0x12"
  obtains b t where "new_BMPSet starts0 (the (us_list s)) (us_len s) = Some b" "bmp_inv b (us_elems s)"
    "the (us_list s) = us_elems s @ t" "us_len s = int (length (us_elems s))" "inv_list (us_elems s)"
proof -
  obtain L t where L: "us_list s = Some (L @ t)" "us_elems s = L" "us_len s = int (length L)" "inv_list L"
    by (rule us_inv_list [OF assms(1)])
  obtain b where "new_BMPSet starts0 (L @ t) (int (length L)) = Some b" "bmp_inv b L"
    by (rule new_BMPSet_ok [OF L(4) assms(2)])
  then show thesis using that [of b t] L by simp
qed

text \<open>
  C17: the tables of a set can be built from its list, whatever the memory held before, and \<open>contains\<close> on them decides
  for every \<open>int32_t\<close>, code point or not, whether the set contains it. No read is outside of a table or of the list.
\<close>

theorem bmp_contains_correct:
  assumes "us_inv s" "length starts0 = 0x12"
  shows "\<exists>b. new_BMPSet starts0 (the (us_list s)) (us_len s) = Some b \<and> (\<forall>c. bmp_contains b c = Some (c \<in> us_points s))"
proof -
  obtain b where b: "new_BMPSet starts0 (the (us_list s)) (us_len s) = Some b" "bmp_inv b (us_elems s)"
    by (rule frozen_set [OF assms])
  then show ?thesis using bmp_contains_ok [OF b(2)] by (simp add: us_points_def)
qed

theorem bmp_contains_correct_witness:
  "\<exists>b. new_BMPSet (replicate 0x12 0) [5, 8, UNICODESET_HIGH] 3 = Some b \<and> bmp_contains b 7 = Some True \<and> bmp_contains b (-1) = Some False"
proof -
  obtain b where "new_BMPSet (replicate 0x12 0) [5, 8, UNICODESET_HIGH] 3 = Some b" "\<forall>c. bmp_contains b c = Some (c \<in> {5..<8})"
    using bmp_contains_correct [OF example_sets(1), of "replicate 0x12 0"] by (auto simp: example_lists)
  then show ?thesis by (intro exI [of _ b]) simp
qed

text \<open>
  C19: what the constructor establishes and a copy with an equal list keeps: the bytes of the ASCII characters and the bits
  from U+0080 to U+07FF are the membership, a block of 64 that is not marked as mixed lies inside or outside of the set as its
  bit says, but for the surrogates, and \<open>list4kStarts\<close> has the index in the list of each multiple of 0x1000.
\<close>

theorem new_BMPSet_invariant:
  assumes "us_inv s" "length starts0 = 0x12"
  shows "\<exists>b. new_BMPSet starts0 (the (us_list s)) (us_len s) = Some b \<and> bmp_inv b (us_elems s) \<and>
    (\<forall>t. bmp_inv (copy_BMPSet b (us_elems s @ t) (us_len s)) (us_elems s))"
proof -
  obtain b where b: "new_BMPSet starts0 (the (us_list s)) (us_len s) = Some b" "bmp_inv b (us_elems s)" "us_len s = int (length (us_elems s))"
    by (rule frozen_set [OF assms])
  have "bmp_inv (copy_BMPSet b (us_elems s @ t) (us_len s)) (us_elems s)" for t
    using b(2,3) by (simp add: bmp_inv_def copy_BMPSet_def tables_ok_def)
  then show ?thesis using b by blast
qed

theorem new_BMPSet_invariant_witness:
  "\<exists>b. new_BMPSet (replicate 0x12 0) [5, 8, UNICODESET_HIGH] 3 = Some b \<and> asciiBytes b ! 7 \<noteq> 0 \<and> asciiBytes b ! 8 = 0 \<and>
    list4kStarts b ! 0x10 = 2"
proof -
  obtain b where b: "new_BMPSet (replicate 0x12 0) [5, 8, UNICODESET_HIGH] 3 = Some b" "bmp_inv b [5, 8, UNICODESET_HIGH]"
    using new_BMPSet_invariant [OF example_sets(1), of "replicate 0x12 0"] by (auto simp: example_lists)
  have "tables_ok b (ranges [5, 8, UNICODESET_HIGH])" "starts_ok [5, 8, UNICODESET_HIGH] (list4kStarts b)"
    using b(2) by (simp_all add: bmp_inv_def)
  then have "asciiBytes b ! 7 \<noteq> 0 \<longleftrightarrow> (7::int) \<in> {5..<8}" "asciiBytes b ! 8 \<noteq> 0 \<longleftrightarrow> (8::int) \<in> {5..<8}"
    "list4kStarts b ! 0x10 = int (pos [5, 8, UNICODESET_HIGH] 0x10000)"
    using tables_ascii [of b "ranges [5, 8, UNICODESET_HIGH]" 7] tables_ascii [of b "ranges [5, 8, UNICODESET_HIGH]" 8]
    by (simp_all add: starts_ok_def start_of_def)
  then have "asciiBytes b ! 7 \<noteq> 0" "asciiBytes b ! 8 = 0" "list4kStarts b ! 0x10 = 2" by (simp_all add: pos_def UNICODESET_HIGH_def)
  then show ?thesis using b(1) by blast
qed

text \<open>
  C18: \<open>span\<close> ends behind the longest run of code points at the start of the text that are all in the set, or all outside of
  it, and \<open>spanBack\<close> at the start of the longest such run at the end of the text. Code points are those of UTF-16: surrogate
  pairs are taken together from either side, and a single surrogate is a code point.
\<close>

theorem bmp_span_correct:
  assumes "us_inv s" "length starts0 = 0x12"
  shows "\<exists>b. new_BMPSet starts0 (the (us_list s)) (us_len s) = Some b \<and>
    (\<forall>str start limit want. 0 \<le> start \<and> start < limit \<and> limit \<le> int (length str) \<longrightarrow>
       bmp_span b str start limit want =
         Some (start + widths (takeWhile (\<lambda>c. (c \<in> us_points s) = want) (code_points (seg str start limit)))) \<and>
       bmp_spanBack b str start limit want =
         Some (limit - widths (takeWhile (\<lambda>c. (c \<in> us_points s) = want) (rev (code_points (seg str start limit))))))"
proof -
  obtain b where b: "new_BMPSet starts0 (the (us_list s)) (us_len s) = Some b" "bmp_inv b (us_elems s)"
    by (rule frozen_set [OF assms])
  then show ?thesis using bmp_span_ok [OF b(2)] bmp_spanBack_ok [OF b(2)] by (auto simp: us_points_def)
qed

theorem bmp_span_correct_witness:
  "\<exists>b. new_BMPSet (replicate 0x12 0) [5, 8, UNICODESET_HIGH] 3 = Some b \<and>
    bmp_span b [5, 6, 0xd800, 0xdc00] 0 4 True = Some 2 \<and> bmp_spanBack b [5, 6, 0xd800, 0xdc00] 0 4 False = Some 2"
proof -
  obtain b where b: "new_BMPSet (replicate 0x12 0) [5, 8, UNICODESET_HIGH] 3 = Some b"
    "\<forall>str start limit want. 0 \<le> start \<and> start < limit \<and> limit \<le> int (length str) \<longrightarrow>
       bmp_span b str start limit want = Some (start + widths (takeWhile (\<lambda>c. (c \<in> {5..<8}) = want) (code_points (seg str start limit)))) \<and>
       bmp_spanBack b str start limit want = Some (limit - widths (takeWhile (\<lambda>c. (c \<in> {5..<8}) = want) (rev (code_points (seg str start limit)))))"
    using bmp_span_correct [OF example_sets(1), of "replicate 0x12 0"] by (auto simp: example_lists)
  have "code_points (seg [5, 6, 0xd800, 0xdc00] 0 4) = [5, 6, 0x10000]"
    by (simp add: seg_def U16_IS_LEAD_def U16_IS_TRAIL_def U16_GET_SUPPLEMENTARY_def push_bit_eq_mult)
  then have "bmp_span b [5, 6, 0xd800, 0xdc00] 0 4 True = Some 2" "bmp_spanBack b [5, 6, 0xd800, 0xdc00] 0 4 False = Some 2"
    using b(2) [rule_format, of 0 4 "[5, 6, 0xd800, 0xdc00]" True] b(2) [rule_format, of 0 4 "[5, 6, 0xd800, 0xdc00]" False]
    by (simp_all add: widths_def width16_def)
  then show ?thesis using b(1) by blast
qed

end
