(* ===== verification/Punycode.thy ===== *)
theory Punycode
  imports Ustring ArraySort
begin

text \<open>
  Punycode (\<open>punycode.cpp\<close>): Unicode text as a string of letters, digits and hyphens. The flags of the upper-case letters are
  an optional array beside the text. No quotient has a negative operand, so \<open>div\<close> and \<open>mod\<close> are those of C; an addition that
  could leave \<open>int32_t\<close> is guarded by the code.
\<close>

section \<open>Digits\<close>

definition BASE :: int where "BASE = 36"
definition TMIN :: int where "TMIN = 1"
definition TMAX :: int where "TMAX = 26"
definition SKEW :: int where "SKEW = 38"
definition DAMP :: int where "DAMP = 700"
definition INITIAL_BIAS :: int where "INITIAL_BIAS = 72"
definition INITIAL_N :: int where "INITIAL_N = 0x80"
definition DELIMITER :: u16 where "DELIMITER = 0x2d"
definition MAX_CP_COUNT :: int where "MAX_CP_COUNT = 200"

definition IS_BASIC :: "u16 \<Rightarrow> bool" where "IS_BASIC c \<longleftrightarrow> c < 0x80"
definition IS_BASIC_UPPERCASE :: "u16 \<Rightarrow> bool" where "IS_BASIC_UPPERCASE c \<longleftrightarrow> 0x41 \<le> c \<and> c \<le> 0x5a"

definition digitToBasic :: "int \<Rightarrow> bool \<Rightarrow> u16" where
  "digitToBasic digit uppercase =
     (if digit < 26 then if uppercase then word_of_int (0x41 + digit) else word_of_int (0x61 + digit)
      else word_of_int ((0x30 - 26) + digit))"

definition basicToDigit :: "int list" where
  "basicToDigit =
     replicate 48 (-1) @ [26, 27, 28, 29, 30, 31, 32, 33, 34, 35] @ replicate 7 (-1) @
     [0, 1, 2, 3, 4, 5, 6, 7, 8, 9, 10, 11, 12, 13, 14, 15, 16, 17, 18, 19, 20, 21, 22, 23, 24, 25] @ replicate 6 (-1) @
     [0, 1, 2, 3, 4, 5, 6, 7, 8, 9, 10, 11, 12, 13, 14, 15, 16, 17, 18, 19, 20, 21, 22, 23, 24, 25] @ replicate 133 (-1)"

definition asciiCaseMap :: "u16 \<Rightarrow> bool \<Rightarrow> u16" where
  "asciiCaseMap b uppercase =
     (if uppercase then if 0x61 \<le> b \<and> b \<le> 0x7a then b - (0x61 - 0x41) else b
      else if 0x41 \<le> b \<and> b \<le> 0x5a then b + (0x61 - 0x41) else b)"

function adapt_loop :: "int \<Rightarrow> int \<Rightarrow> int" where
  "adapt_loop delta cnt =
     (if delta > ((BASE - TMIN) * TMAX) div 2 then adapt_loop (delta div (BASE - TMIN)) (cnt + BASE)
      else cnt + ((BASE - TMIN + 1) * delta) div (delta + SKEW))"
  by pat_completeness auto
termination by (relation "measure (\<lambda>(delta, cnt). nat delta)") (auto simp: BASE_def TMIN_def TMAX_def)

declare adapt_loop.simps [simp del]

definition adaptBias :: "int \<Rightarrow> int \<Rightarrow> bool \<Rightarrow> int" where
  "adaptBias delta len firstTime =
     (let delta = (if firstTime then delta div DAMP else delta div 2) in adapt_loop (delta + delta div len) 0)"

definition threshold :: "int \<Rightarrow> int \<Rightarrow> int" where
  "threshold k bias = (if k - bias < TMIN then TMIN else if k \<ge> bias + TMAX then TMAX else k - bias)"

section \<open>Encoding\<close>

definition put_unit :: "u16 list \<Rightarrow> int \<Rightarrow> int \<Rightarrow> u16 \<Rightarrow> u16 list option" where
  "put_unit dest destCapacity i c = (if i < destCapacity then wr dest i c else Some dest)"

definition flag_at :: "bool list option \<Rightarrow> int \<Rightarrow> bool option" where
  "flag_at caseFlags j = (case caseFlags of None \<Rightarrow> Some False | Some flags \<Rightarrow> rd flags j)"

text \<open>
  One code point of the input. The result is an error, or the next index, the output and the entry of \<open>cpBuffer\<close>: 0 for a
  basic code point, else the code point with its flag in the sign bit.
\<close>

definition collect_step ::
  "u16 list \<Rightarrow> int \<Rightarrow> bool list option \<Rightarrow> int \<Rightarrow> int \<Rightarrow> u16 list \<Rightarrow> int \<Rightarrow> (UErrorCode + int \<times> u16 list \<times> int \<times> int) option" where
  "collect_step src srcLength caseFlags destCapacity j dest destLength = do {
     c \<leftarrow> rd src j;
     if IS_BASIC c then do {
       dest \<leftarrow> (if destLength < destCapacity then
                 case caseFlags of None \<Rightarrow> wr dest destLength c
                 | Some flags \<Rightarrow> do { f \<leftarrow> rd flags j; wr dest destLength (asciiCaseMap c f) }
               else Some dest);
       Some (Inr (j + 1, dest, destLength + 1, 0)) }
     else do {
       f \<leftarrow> flag_at caseFlags j;
       let n = (if f then - (2 ^ 31) else 0);
       if U16_IS_SINGLE c then Some (Inr (j + 1, dest, destLength, n OR uint c))
       else if U16_IS_LEAD c \<and> (srcLength = -1 \<or> j + 1 < srcLength) then do {
         c2 \<leftarrow> rd src (j + 1);
         Some (if U16_IS_TRAIL c2 then Inr (j + 2, dest, destLength, n OR U16_GET_SUPPLEMENTARY c c2) else Inl U_INVALID_CHAR_FOUND) }
       else Some (Inl U_INVALID_CHAR_FOUND) } }"

definition input_ends :: "u16 list \<Rightarrow> int \<Rightarrow> int \<Rightarrow> bool option" where
  "input_ends src srcLength j = (if srcLength = -1 then map_option (\<lambda>c. c = 0) (rd src j) else Some (j \<ge> srcLength))"

lemma collect_step_next: "collect_step src srcLength caseFlags destCapacity j dest destLength = Some (Inr (j', r)) \<Longrightarrow>
  0 \<le> j \<and> j < int (length src) \<and> j < j'"
  by (auto simp: collect_step_def bind_Some_iff rd_Some_iff Let_def split: if_splits option.splits)

function collect ::
  "u16 list \<Rightarrow> int \<Rightarrow> bool list option \<Rightarrow> int \<Rightarrow> int \<Rightarrow> u16 list \<Rightarrow> int \<Rightarrow> int list \<Rightarrow>
   (u16 list \<times> (UErrorCode + int \<times> int list)) option" where
  "collect src srcLength caseFlags destCapacity j dest destLength cpBuffer = do {
     stop \<leftarrow> input_ends src srcLength j;
     if stop then Some (dest, Inr (destLength, cpBuffer))
     else if int (length cpBuffer) = MAX_CP_COUNT then Some (dest, Inl U_INDEX_OUTOFBOUNDS_ERROR)
     else do {
       r \<leftarrow> collect_step src srcLength caseFlags destCapacity j dest destLength;
       case r of Inl e \<Rightarrow> Some (dest, Inl e)
       | Inr (j, dest, destLength, n) \<Rightarrow> collect src srcLength caseFlags destCapacity j dest destLength (cpBuffer @ [n]) } }"
  by pat_completeness auto
termination by (relation "measure (\<lambda>(src, n, f, c, j, d, l, b). nat (int (length src) - j))") (auto dest: collect_step_next)

declare collect.simps [simp del]

text \<open>The code point of an entry of \<open>cpBuffer\<close> without its flag, and the smallest one from \<open>n\<close> on.\<close>

definition cp_of :: "int \<Rightarrow> int" where
  "cp_of x = x AND 0x7fffffff"

fun next_larger :: "int \<Rightarrow> int list \<Rightarrow> int \<Rightarrow> int" where
  "next_larger n [] m = m"
| "next_larger n (x # xs) m = (let q = cp_of x in next_larger n xs (if n \<le> q \<and> q < m then q else m))"

text \<open>A generalized variable-length integer; the last digit has the flag.\<close>

function put_integer :: "int \<Rightarrow> int \<Rightarrow> int \<Rightarrow> bool \<Rightarrow> int \<Rightarrow> u16 list \<Rightarrow> int \<Rightarrow> (u16 list \<times> int) option" where
  "put_integer q k bias uppercase destCapacity dest destLength =
     (let t = threshold k bias in
      if q < t then do { dest \<leftarrow> put_unit dest destCapacity destLength (digitToBasic q uppercase); Some (dest, destLength + 1) }
      else do {
        dest \<leftarrow> put_unit dest destCapacity destLength (digitToBasic (t + (q - t) mod (BASE - t)) False);
        put_integer ((q - t) div (BASE - t)) (k + BASE) bias uppercase destCapacity dest (destLength + 1) })"
  by pat_completeness auto

lemma threshold_bounds: "1 \<le> threshold k bias" "threshold k bias \<le> 26"
  by (simp_all add: threshold_def TMIN_def TMAX_def)

lemma integer_step_less: "threshold k bias \<le> q \<Longrightarrow> (q - threshold k bias) div (BASE - threshold k bias) < q"
proof -
  assume q: "threshold k bias \<le> q"
  have t: "1 \<le> threshold k bias" "threshold k bias \<le> 26" by (rule threshold_bounds)+
  then have "(q - threshold k bias) div (BASE - threshold k bias) \<le> q - threshold k bias"
    using q int_div_le_self [of "q - threshold k bias" "BASE - threshold k bias"] by (cases "q = threshold k bias") (auto simp: BASE_def)
  then show ?thesis using t by linarith
qed

termination put_integer
proof (relation "measure (\<lambda>(q, k, bias, f, c, d, l). nat q)", goal_cases)
  case (2 q k bias uppercase destCapacity dest destLength t dest')
  then have "t \<le> q" "t = threshold k bias" by simp_all
  then have "(q - t) div (BASE - t) < q" "0 < q" using integer_step_less [of k bias q] threshold_bounds(1) [of k bias] by simp_all
  then show ?case by simp
qed simp

declare put_integer.simps [simp del]

text \<open>The code points \<open>n\<close> of the input, and their deltas.\<close>

fun encode_pass :: "int \<Rightarrow> int \<Rightarrow> int \<Rightarrow> int list \<Rightarrow> u16 list \<Rightarrow> int \<Rightarrow> int \<Rightarrow> int \<Rightarrow> int \<Rightarrow> (u16 list \<times> int \<times> int \<times> int \<times> int) option" where
  "encode_pass n basicLength destCapacity [] dest destLength delta bias handled = Some (dest, destLength, delta, bias, handled)"
| "encode_pass n basicLength destCapacity (x # xs) dest destLength delta bias handled =
     (let q = cp_of x in
      if q < n then encode_pass n basicLength destCapacity xs dest destLength (delta + 1) bias handled
      else if q = n then do {
        (dest, destLength) \<leftarrow> put_integer delta BASE bias (x < 0) destCapacity dest destLength;
        encode_pass n basicLength destCapacity xs dest destLength 0
          (adaptBias delta (handled + 1) (handled = basicLength)) (handled + 1) }
      else encode_pass n basicLength destCapacity xs dest destLength delta bias handled)"

partial_function (option) encode_loop ::
  "int list \<Rightarrow> int \<Rightarrow> int \<Rightarrow> int \<Rightarrow> u16 list \<Rightarrow> int \<Rightarrow> int \<Rightarrow> int \<Rightarrow> int \<Rightarrow> (u16 list \<times> (UErrorCode + int)) option" where
  "encode_loop cpBuffer basicLength destCapacity n dest destLength delta bias handled =
     (if handled < int (length cpBuffer) then
        let m = next_larger n cpBuffer 0x7fffffff in
        if m - n > (0x7fffffff - MAX_CP_COUNT - delta) div (handled + 1) then Some (dest, Inl U_INTERNAL_PROGRAM_ERROR)
        else Option.bind (encode_pass m basicLength destCapacity cpBuffer dest destLength (delta + (m - n) * (handled + 1)) bias handled)
          (\<lambda>(dest, destLength, delta, bias, handled).
             encode_loop cpBuffer basicLength destCapacity (m + 1) dest destLength (delta + 1) bias handled)
      else Some (dest, Inr destLength))"

definition finish_string :: "u16 list option \<Rightarrow> u16 list \<Rightarrow> int \<Rightarrow> int \<Rightarrow> UErrorCode \<Rightarrow> (u16 list option \<times> int \<times> UErrorCode) option" where
  "finish_string dest0 dest destCapacity destLength err = do {
     (dest, len, err) \<leftarrow> u_terminateUChars dest destCapacity destLength err;
     Some (map_option (\<lambda>_. dest) dest0, len, err) }"

definition u_strToPunycode ::
  "u16 list option \<Rightarrow> int \<Rightarrow> u16 list option \<Rightarrow> int \<Rightarrow> bool list option \<Rightarrow> UErrorCode \<Rightarrow> (u16 list option \<times> int \<times> UErrorCode) option" where
  "u_strToPunycode src srcLength dest0 destCapacity caseFlags err =
     (if U_FAILURE err then Some (dest0, 0, err)
      else case src of None \<Rightarrow> Some (dest0, 0, U_ILLEGAL_ARGUMENT_ERROR)
      | Some src \<Rightarrow>
          if srcLength < -1 \<or> (dest0 = None \<and> destCapacity \<noteq> 0) then Some (dest0, 0, U_ILLEGAL_ARGUMENT_ERROR)
          else do {
            (dest, r) \<leftarrow> collect src srcLength caseFlags destCapacity 0 (case dest0 of None \<Rightarrow> [] | Some d \<Rightarrow> d) 0 [];
            case r of Inl e \<Rightarrow> Some (map_option (\<lambda>_. dest) dest0, 0, e)
            | Inr (basicLength, cpBuffer) \<Rightarrow> do {
                (dest, destLength) \<leftarrow> (if basicLength > 0 then do { dest \<leftarrow> put_unit dest destCapacity basicLength DELIMITER; Some (dest, basicLength + 1) }
                                     else Some (dest, basicLength));
                (dest, r) \<leftarrow> encode_loop cpBuffer basicLength destCapacity INITIAL_N dest destLength 0 INITIAL_BIAS basicLength;
                case r of Inl e \<Rightarrow> Some (map_option (\<lambda>_. dest) dest0, 0, e)
                | Inr destLength \<Rightarrow> finish_string dest0 dest destCapacity destLength err } })"

section \<open>Decoding\<close>

function find_delimiter :: "u16 list \<Rightarrow> int \<Rightarrow> int option" where
  "find_delimiter src j =
     (if j > 0 then do { c \<leftarrow> rd src (j - 1); if c = DELIMITER then Some (j - 1) else find_delimiter src (j - 1) } else Some j)"
  by pat_completeness auto
termination by (relation "measure (\<lambda>(src, j). nat j)") auto

text \<open>The result has whether all the units are basic code points.\<close>

function copy_basic :: "u16 list \<Rightarrow> int \<Rightarrow> int \<Rightarrow> u16 list \<Rightarrow> bool list option \<Rightarrow> (bool \<times> u16 list \<times> bool list option) option" where
  "copy_basic src destCapacity j dest caseFlags =
     (if j > 0 then do {
        b \<leftarrow> rd src (j - 1);
        if \<not> IS_BASIC b then Some (False, dest, caseFlags)
        else do {
          (dest, caseFlags) \<leftarrow> (if j - 1 < destCapacity then do {
              dest \<leftarrow> wr dest (j - 1) b;
              caseFlags \<leftarrow> (case caseFlags of None \<Rightarrow> Some None | Some flags \<Rightarrow> map_option Some (wr flags (j - 1) (IS_BASIC_UPPERCASE b)));
              Some (dest, caseFlags) } else Some (dest, caseFlags));
          copy_basic src destCapacity (j - 1) dest caseFlags } }
      else Some (True, dest, caseFlags))"
  by pat_completeness auto
termination by (relation "measure (\<lambda>(src, c, j, dest, f). nat j)") auto

function get_integer :: "u16 list \<Rightarrow> int \<Rightarrow> int \<Rightarrow> int \<Rightarrow> int \<Rightarrow> int \<Rightarrow> int \<Rightarrow> (UErrorCode + int \<times> int) option" where
  "get_integer src srcLength bias k i w inp =
     (if inp \<ge> srcLength then Some (Inl U_ILLEGAL_CHAR_FOUND)
      else do {
        c \<leftarrow> rd src inp;
        digit \<leftarrow> rd basicToDigit (uint c mod 256);
        if digit < 0 then Some (Inl U_INVALID_CHAR_FOUND)
        else if digit > (0x7fffffff - i) div w then Some (Inl U_ILLEGAL_CHAR_FOUND)
        else
          let i = i + digit * w; t = threshold k bias in
          if digit < t then Some (Inr (i, inp + 1))
          else if w > 0x7fffffff div (BASE - t) then Some (Inl U_ILLEGAL_CHAR_FOUND)
          else get_integer src srcLength bias (k + BASE) i (w * (BASE - t)) (inp + 1) })"
  by pat_completeness auto
termination by (relation "measure (\<lambda>(src, n, b, k, i, w, inp). nat (n - inp))") auto

declare find_delimiter.simps [simp del] copy_basic.simps [simp del] get_integer.simps [simp del]

lemma get_integer_next: "get_integer src srcLength bias k i w inp = Some (Inr (i', inp')) \<Longrightarrow> inp < inp' \<and> inp' \<le> srcLength"
proof (induction src srcLength bias k i w inp rule: get_integer.induct)
  case (1 src srcLength bias k i w inp)
  have "get_integer src srcLength bias k i w inp = Some (Inr (i', inp'))" by (rule "1.prems")
  then show ?case
    using "1.IH" by (subst (asm) get_integer.simps) (fastforce simp: bind_Some_iff Let_def split: if_splits)
qed

text \<open>Inserting \<open>n\<close> in front of code point \<open>i\<close> of the output, if it fits.\<close>

definition insert_index :: "u16 list \<Rightarrow> int \<Rightarrow> int \<Rightarrow> int \<Rightarrow> int \<Rightarrow> (int \<times> int) option" where
  "insert_index dest destLength cpLength i firstSupplementaryIndex =
     (if i \<le> firstSupplementaryIndex then Some (i, if cpLength > 1 then i else firstSupplementaryIndex + 1)
      else do {
        codeUnitIndex \<leftarrow> U16_FWD_N dest firstSupplementaryIndex destLength (nat (i - firstSupplementaryIndex));
        Some (codeUnitIndex, firstSupplementaryIndex) })"

definition insert_units :: "u16 list \<Rightarrow> int \<Rightarrow> int \<Rightarrow> int \<Rightarrow> int \<Rightarrow> u16 list option" where
  "insert_units dest destLength cpLength codeUnitIndex n = do {
     dest \<leftarrow> (if codeUnitIndex < destLength then memmove dest (codeUnitIndex + cpLength) codeUnitIndex (destLength - codeUnitIndex)
             else Some dest);
     if cpLength = 1 then wr dest codeUnitIndex (word_of_int n)
     else do { dest \<leftarrow> wr dest codeUnitIndex (U16_LEAD n); wr dest (codeUnitIndex + 1) (U16_TRAIL n) } }"

definition insert_flags :: "bool list option \<Rightarrow> int \<Rightarrow> int \<Rightarrow> int \<Rightarrow> bool \<Rightarrow> bool list option option" where
  "insert_flags caseFlags destLength cpLength codeUnitIndex uppercase =
     (case caseFlags of None \<Rightarrow> Some None
      | Some flags \<Rightarrow> do {
          flags \<leftarrow> (if codeUnitIndex < destLength then memmove flags (codeUnitIndex + cpLength) codeUnitIndex (destLength - codeUnitIndex)
                   else Some flags);
          flags \<leftarrow> wr flags codeUnitIndex uppercase;
          flags \<leftarrow> (if cpLength = 2 then wr flags (codeUnitIndex + 1) False else Some flags);
          Some (Some flags) })"

record decoder =
  dec_dest :: "u16 list option"
  dec_flags :: "bool list option"
  dec_destLength :: int
  dec_cpCount :: int
  dec_first :: int
  dec_n :: int
  dec_i :: int
  dec_bias :: int

definition insert_cp :: "u16 list \<Rightarrow> int \<Rightarrow> int \<Rightarrow> decoder \<Rightarrow> decoder option" where
  "insert_cp src destCapacity inp d =
     (let n = dec_n d; cpLength = U16_LENGTH n in
      case dec_dest d of
        Some dest \<Rightarrow>
          if dec_destLength d + cpLength \<le> destCapacity then do {
            (codeUnitIndex, first) \<leftarrow> insert_index dest (dec_destLength d) cpLength (dec_i d) (dec_first d);
            dest \<leftarrow> insert_units dest (dec_destLength d) cpLength codeUnitIndex n;
            c \<leftarrow> rd src (inp - 1);
            flags \<leftarrow> insert_flags (dec_flags d) (dec_destLength d) cpLength codeUnitIndex (IS_BASIC_UPPERCASE c);
            Some (d\<lparr>dec_dest := Some dest, dec_flags := flags, dec_first := first, dec_destLength := dec_destLength d + cpLength\<rparr>) }
          else Some (d\<lparr>dec_destLength := dec_destLength d + cpLength\<rparr>)
      | None \<Rightarrow> Some (d\<lparr>dec_destLength := dec_destLength d + cpLength\<rparr>))"

text \<open>One round of the main loop: the error, or the next state and index.\<close>

definition decode_step :: "u16 list \<Rightarrow> int \<Rightarrow> int \<Rightarrow> int \<Rightarrow> decoder \<Rightarrow> (UErrorCode + decoder \<times> int) option" where
  "decode_step src srcLength destCapacity inp d = do {
     r \<leftarrow> get_integer src srcLength (dec_bias d) BASE (dec_i d) 1 inp;
     case r of Inl e \<Rightarrow> Some (Inl e)
     | Inr (i, inp) \<Rightarrow>
         let oldi = dec_i d; cpCount = dec_cpCount d + 1; bias = adaptBias (i - oldi) cpCount (oldi = 0) in
         if i div cpCount > 0x7fffffff - dec_n d then Some (Inl U_ILLEGAL_CHAR_FOUND)
         else
           let n = dec_n d + i div cpCount; i = i mod cpCount in
           if n > 0x10ffff \<or> (0xd800 \<le> n \<and> n \<le> 0xdfff) then Some (Inl U_ILLEGAL_CHAR_FOUND)
           else do {
             d \<leftarrow> insert_cp src destCapacity inp (d\<lparr>dec_cpCount := cpCount, dec_bias := bias, dec_n := n, dec_i := i\<rparr>);
             Some (Inr (d\<lparr>dec_i := i + 1\<rparr>, inp)) } }"

lemma decode_step_next: "decode_step src srcLength destCapacity inp d = Some (Inr (d', inp')) \<Longrightarrow> inp < inp' \<and> inp' \<le> srcLength"
proof -
  assume a: "decode_step src srcLength destCapacity inp d = Some (Inr (d', inp'))"
  then obtain r where r: "get_integer src srcLength (dec_bias d) BASE (dec_i d) 1 inp = Some r"
    by (auto simp: decode_step_def bind_Some_iff)
  show ?thesis
  proof (cases r)
    case (Inr p)
    then obtain i j where p: "r = Inr (i, j)" by (cases p) auto
    then have "inp' = j" using a r by (auto simp: decode_step_def bind_Some_iff Let_def split: if_splits)
    then show ?thesis using get_integer_next r p by blast
  qed (use a r in \<open>simp add: decode_step_def\<close>)
qed

text \<open>After an error the arrays keep what was written.\<close>

function decode_loop :: "u16 list \<Rightarrow> int \<Rightarrow> int \<Rightarrow> int \<Rightarrow> decoder \<Rightarrow> (decoder \<times> UErrorCode option) option" where
  "decode_loop src srcLength destCapacity inp d =
     (if inp < srcLength then do {
        r \<leftarrow> decode_step src srcLength destCapacity inp d;
        case r of Inl e \<Rightarrow> Some (d, Some e) | Inr (d, inp) \<Rightarrow> decode_loop src srcLength destCapacity inp d }
      else Some (d, None))"
  by pat_completeness auto
termination by (relation "measure (\<lambda>(src, n, c, inp, d). nat (n - inp))") (auto dest: decode_step_next)

declare decode_loop.simps [simp del]

definition u_strFromPunycode ::
  "u16 list option \<Rightarrow> int \<Rightarrow> u16 list option \<Rightarrow> int \<Rightarrow> bool list option \<Rightarrow> UErrorCode \<Rightarrow>
   (u16 list option \<times> bool list option \<times> int \<times> UErrorCode) option" where
  "u_strFromPunycode src srcLength dest0 destCapacity caseFlags err =
     (if U_FAILURE err then Some (dest0, caseFlags, 0, err)
      else case src of None \<Rightarrow> Some (dest0, caseFlags, 0, U_ILLEGAL_ARGUMENT_ERROR)
      | Some src \<Rightarrow>
          if srcLength < -1 \<or> (dest0 = None \<and> destCapacity \<noteq> 0) then Some (dest0, caseFlags, 0, U_ILLEGAL_ARGUMENT_ERROR)
          else do {
            srcLength \<leftarrow> (if srcLength = -1 then u_strlen src else Some srcLength);
            basicLength \<leftarrow> find_delimiter src srcLength;
            (ok, dest, caseFlags) \<leftarrow> copy_basic src destCapacity basicLength (case dest0 of None \<Rightarrow> [] | Some d \<Rightarrow> d) caseFlags;
            let dest0 = map_option (\<lambda>_. dest) dest0;
            if \<not> ok then Some (dest0, caseFlags, 0, U_INVALID_CHAR_FOUND)
            else do {
              (d, e) \<leftarrow> decode_loop src srcLength destCapacity (if basicLength > 0 then basicLength + 1 else 0)
                \<lparr>dec_dest = dest0, dec_flags = caseFlags, dec_destLength = basicLength, dec_cpCount = basicLength,
                 dec_first = 1000000000, dec_n = INITIAL_N, dec_i = 0, dec_bias = INITIAL_BIAS\<rparr>;
              case e of Some e \<Rightarrow> Some (dec_dest d, dec_flags d, 0, e)
              | None \<Rightarrow> do {
                  (dest, len, err) \<leftarrow> finish_string (dec_dest d) (case dec_dest d of None \<Rightarrow> [] | Some x \<Rightarrow> x) destCapacity (dec_destLength d) err;
                  Some (dest, dec_flags d, len, err) } } })"

end
