(* ===== verification/PunycodeProps.thy ===== *)
theory PunycodeProps
  imports Punycode
begin

text \<open>
  Punycode: what the encoder writes takes the decoder through the same states, so that decoding gives the text back; and the
  decoder is safe on any input.
\<close>

section \<open>Output\<close>

text \<open>What the memory holds when \<open>out\<close> has been written as far as it fits.\<close>

definition output_in :: "u16 list \<Rightarrow> int \<Rightarrow> u16 list \<Rightarrow> u16 list" where
  "output_in dest0 destCapacity out = overwrite dest0 0 (take (nat destCapacity) out)"

lemma put_unit_ok:
  assumes "destCapacity \<le> int (length dest0)"
  shows "put_unit (output_in dest0 destCapacity out) destCapacity (int (length out)) c = Some (output_in dest0 destCapacity (out @ [c]))"
proof (cases "int (length out) < destCapacity")
  case True
  then have "length out < length dest0" "take (nat destCapacity) out = out" "take (nat destCapacity) (out @ [c]) = out @ [c]"
    using assms by simp_all
  then show ?thesis using True
    by (simp add: put_unit_def output_in_def overwrite_def wr_def list_update_append Cons_nth_drop_Suc [symmetric])
next
  case False
  then have "nat destCapacity \<le> length out" by simp
  then show ?thesis using False by (simp add: put_unit_def output_in_def)
qed

lemma output_in_Nil [simp]: "output_in dest0 destCapacity [] = dest0"
  by (simp add: output_in_def)

section \<open>Integers\<close>

function digits :: "int \<Rightarrow> int \<Rightarrow> int \<Rightarrow> bool \<Rightarrow> u16 list" where
  "digits q k bias uppercase =
     (let t = threshold k bias in
      if q < t then [digitToBasic q uppercase]
      else digitToBasic (t + (q - t) mod (BASE - t)) False # digits ((q - t) div (BASE - t)) (k + BASE) bias uppercase)"
  by pat_completeness auto
termination
proof (relation "measure (\<lambda>(q, k, bias, f). nat q)", goal_cases)
  case (2 q k bias uppercase t)
  then have "t \<le> q" "t = threshold k bias" by simp_all
  then have "(q - t) div (BASE - t) < q" "0 < q" using integer_step_less [of k bias q] threshold_bounds(1) [of k bias] by simp_all
  then show ?case by simp
qed simp

declare digits.simps [simp del]

lemma put_integer_ok:
  "destCapacity \<le> int (length dest0) \<Longrightarrow>
   put_integer q k bias uppercase destCapacity (output_in dest0 destCapacity out) (int (length out)) =
     Some (output_in dest0 destCapacity (out @ digits q k bias uppercase), int (length (out @ digits q k bias uppercase)))"
proof (induction q k bias uppercase arbitrary: out rule: digits.induct)
  case (1 q k bias uppercase)
  define t where "t = threshold k bias"
  show ?case
  proof (cases "q < t")
    case True
    then show ?thesis using put_unit_ok [OF "1.prems", of out "digitToBasic q uppercase"]
      by (subst put_integer.simps, subst (1 2) digits.simps) (simp add: t_def Let_def add.commute)
  next
    case False
    define c where "c = digitToBasic (t + (q - t) mod (BASE - t)) False"
    have "put_integer ((q - t) div (BASE - t)) (k + BASE) bias uppercase destCapacity (output_in dest0 destCapacity (out @ [c])) (int (length (out @ [c]))) =
        Some (output_in dest0 destCapacity ((out @ [c]) @ digits ((q - t) div (BASE - t)) (k + BASE) bias uppercase),
          int (length ((out @ [c]) @ digits ((q - t) div (BASE - t)) (k + BASE) bias uppercase)))"
      by (rule "1.IH") (use False "1.prems" in \<open>simp_all add: t_def\<close>)
    moreover have "digits q k bias uppercase = c # digits ((q - t) div (BASE - t)) (k + BASE) bias uppercase"
      using False by (subst digits.simps) (simp add: t_def c_def Let_def)
    ultimately show ?thesis using False put_unit_ok [OF "1.prems", of out c]
      by (subst put_integer.simps) (simp add: t_def [symmetric] c_def [symmetric] Let_def add.commute)
  qed
qed

lemma digit_table:
  assumes "0 \<le> v" "v < 36"
  shows "rd basicToDigit (uint (digitToBasic v f) mod 256) = Some v" "digitToBasic v f \<noteq> DELIMITER" "digitToBasic v f < 0x80"
proof -
  have all: "list_all (\<lambda>v. list_all (\<lambda>f. rd basicToDigit (uint (digitToBasic v f) mod 256) = Some v \<and> digitToBasic v f \<noteq> DELIMITER \<and>
      digitToBasic v f < 0x80) [True, False]) [0..35]"
    by code_simp
  have "v \<in> set [0..35]" using assms by simp
  with all have "list_all (\<lambda>f. rd basicToDigit (uint (digitToBasic v f) mod 256) = Some v \<and> digitToBasic v f \<noteq> DELIMITER \<and>
      digitToBasic v f < 0x80) [True, False]" unfolding list_all_iff by blast
  then show "rd basicToDigit (uint (digitToBasic v f) mod 256) = Some v" "digitToBasic v f \<noteq> DELIMITER" "digitToBasic v f < 0x80"
    by (cases f; simp)+
qed

lemma digit_range:
  assumes "threshold k bias \<le> q"
  shows "0 \<le> threshold k bias + (q - threshold k bias) mod (BASE - threshold k bias)"
    "threshold k bias + (q - threshold k bias) mod (BASE - threshold k bias) < 36"
    "threshold k bias + (q - threshold k bias) mod (BASE - threshold k bias) \<le> q"
proof -
  define t where "t = threshold k bias"
  have t: "1 \<le> t" "t \<le> 26" "t \<le> q" using assms threshold_bounds [of k bias] by (simp_all add: t_def)
  then have "0 \<le> (q - t) mod (36 - t)" "(q - t) mod (36 - t) < 36 - t" "(q - t) mod (36 - t) \<le> q - t"
    by (simp, simp, intro zmod_le_nonneg_dividend) simp
  then show "0 \<le> threshold k bias + (q - threshold k bias) mod (BASE - threshold k bias)"
    "threshold k bias + (q - threshold k bias) mod (BASE - threshold k bias) < 36"
    "threshold k bias + (q - threshold k bias) mod (BASE - threshold k bias) \<le> q"
    using t unfolding t_def [symmetric] BASE_def by linarith+
qed

lemma digits_basic: "0 \<le> q \<Longrightarrow> c \<in> set (digits q k bias f) \<Longrightarrow> c \<noteq> DELIMITER \<and> c < 0x80"
proof (induction q k bias f rule: digits.induct)
  case (1 q k bias f)
  define t where "t = threshold k bias"
  have t: "1 \<le> t" "t \<le> 26" using threshold_bounds [of k bias] by (simp_all add: t_def)
  show ?case
  proof (cases "q < t")
    case True
    then have "c = digitToBasic q f" using "1.prems"(2) by (subst (asm) digits.simps) (simp add: t_def)
    then show ?thesis using digit_table [of q f] True t "1.prems"(1) by simp
  next
    case False
    then have "digits q k bias f = digitToBasic (t + (q - t) mod (BASE - t)) False # digits ((q - t) div (BASE - t)) (k + BASE) bias f"
      by (subst digits.simps) (simp add: t_def Let_def)
    then consider "c = digitToBasic (t + (q - t) mod (BASE - t)) False" | "c \<in> set (digits ((q - t) div (BASE - t)) (k + BASE) bias f)"
      using "1.prems"(2) by auto
    then show ?thesis
    proof cases
      case 1
      then show ?thesis using digit_table digit_range [of k bias q] False by (simp add: t_def)
    next
      case 2
      have "0 \<le> (q - t) div (BASE - t)" using False t by (intro div_int_pos_iff [THEN iffD2]) (simp add: BASE_def)
      then show ?thesis using "1.IH" [OF refl] 2 False by (simp add: t_def)
    qed
  qed
qed

text \<open>
  The weight of a digit is a power of 35 until the thresholds have reached 26: the next weight fits in an \<open>int32_t\<close> even
  where the number itself has no further digit.
\<close>

definition weight_ok :: "int \<Rightarrow> int \<Rightarrow> int \<Rightarrow> bool" where
  "weight_ok k bias w \<longleftrightarrow> 1 \<le> w \<and> (threshold k bias < 26 \<longrightarrow> (\<exists>j. w = 35 ^ j))"

lemma power_35: "(35::int) ^ j < 35 ^ 6 \<Longrightarrow> (35::int) ^ j \<le> 35 ^ 5"
proof -
  assume "(35::int) ^ j < 35 ^ 6"
  then have "j < 6" by (rule power_less_imp_less_exp [rotated]) simp
  then show ?thesis by (intro power_increasing) auto
qed

lemma weight_next:
  assumes w: "weight_ok k bias w" and q: "threshold k bias \<le> q" "q * w < 35 ^ 6"
  shows "w * (BASE - threshold k bias) \<le> 0x7fffffff" "weight_ok (k + BASE) bias (w * (BASE - threshold k bias))"
proof -
  define t where "t = threshold k bias"
  have t: "1 \<le> t" "t \<le> 26" "t \<le> q" "1 \<le> w" using threshold_bounds [of k bias] q w by (simp_all add: t_def weight_ok_def)
  have wq: "w * t \<le> q * w" using t by (simp add: mult.commute mult_left_mono)
  show "w * (BASE - threshold k bias) \<le> 0x7fffffff"
  proof (cases "t < 26")
    case True
    then obtain j where j: "w = 35 ^ j" using w by (auto simp: weight_ok_def t_def)
    have "w * 1 \<le> w * t" using t by (intro mult_left_mono) auto
    then have "w < 35 ^ 6" using wq q(2) by simp
    then have "w \<le> 35 ^ 5" using power_35 [of j] by (simp add: j)
    then have "w * (36 - t) \<le> 35 ^ 5 * 35" using t by (intro mult_mono) auto
    then show ?thesis unfolding t_def BASE_def by simp
  next
    case False
    then have "t = 26" using t by simp
    then show ?thesis using wq q(2) unfolding t_def BASE_def by simp
  qed
  have "\<exists>j. w * (BASE - t) = 35 ^ j" if "threshold (k + BASE) bias < 26"
  proof -
    have "k + 36 < bias + 26" using that by (auto simp: threshold_def BASE_def TMIN_def TMAX_def split: if_splits)
    then have "t = 1" by (simp add: t_def threshold_def TMIN_def)
    moreover from this obtain j where "w = 35 ^ j" using w by (auto simp: weight_ok_def t_def)
    ultimately show ?thesis by (intro exI [of _ "Suc j"]) (simp add: BASE_def)
  qed
  moreover have "1 * 1 \<le> w * (BASE - t)" using t by (intro mult_mono) (auto simp: BASE_def)
  ultimately show "weight_ok (k + BASE) bias (w * (BASE - threshold k bias))" by (simp add: weight_ok_def t_def)
qed

lemma le_div: "0 < w \<Longrightarrow> v * w \<le> n \<Longrightarrow> v \<le> n div (w :: int)"
  using zdiv_mono1 [of "v * w" n w] by simp

lemma get_integer_ok:
  "src = pre @ digits q k bias f @ post \<Longrightarrow> 0 \<le> q \<Longrightarrow> 0 \<le> i \<Longrightarrow> weight_ok k bias w \<Longrightarrow> q * w < 35 ^ 6 \<Longrightarrow> i + q * w \<le> 0x7fffffff \<Longrightarrow>
   get_integer src (int (length src)) bias k i w (int (length pre)) =
     Some (Inr (i + q * w, int (length pre + length (digits q k bias f))))"
proof (induction q k bias f arbitrary: pre i w rule: digits.induct)
  case (1 q k bias f)
  define t where "t = threshold k bias"
  have t: "1 \<le> t" "t \<le> 26" using threshold_bounds [of k bias] by (simp_all add: t_def)
  have w: "1 \<le> w" using "1.prems"(4) by (simp add: weight_ok_def)
  define v where "v = (if q < t then q else t + (q - t) mod (BASE - t))"
  have v: "0 \<le> v" "v < 36" "v \<le> q" using digit_range [of k bias q] t "1.prems"(2) by (auto simp: v_def t_def)
  obtain f' D where D: "digits q k bias f = digitToBasic v f' # D" "D = (if q < t then [] else digits ((q - t) div (BASE - t)) (k + BASE) bias f)"
  proof (rule that)
    show "digits q k bias f = digitToBasic v (q < t \<and> f) # (if q < t then [] else digits ((q - t) div (BASE - t)) (k + BASE) bias f)"
      by (subst digits.simps) (simp add: v_def t_def Let_def)
  qed simp
  have "v * w \<le> q * w" using v w by (intro mult_right_mono) auto
  then have "v * w \<le> 0x7fffffff - i" using "1.prems"(6) by linarith
  then have room: "\<not> v > (0x7fffffff - i) div w" using w le_div [of w v] by (simp add: not_less)
  have c: "rd src (int (length pre)) = Some (digitToBasic v f')" "\<not> int (length pre) \<ge> int (length src)"
    using "1.prems"(1) D(1) by (simp_all add: rd_Some_iff nth_append)
  have step: "get_integer src (int (length src)) bias k i w (int (length pre)) =
      (if v < t then Some (Inr (i + v * w, int (length pre) + 1))
       else if w > 0x7fffffff div (BASE - t) then Some (Inl U_ILLEGAL_CHAR_FOUND)
       else get_integer src (int (length src)) bias (k + BASE) (i + v * w) (w * (BASE - t)) (int (length pre) + 1))"
    using c room v digit_table(1) [OF v(1,2), of f'] by (subst get_integer.simps) (simp add: Let_def t_def)
  show ?case
  proof (cases "q < t")
    case True
    then show ?thesis unfolding step D(1) using D(2) by (simp add: v_def)
  next
    case False
    define q' where "q' = (q - t) div (BASE - t)"
    have split: "q = v + q' * (BASE - t)" using False mult_div_mod_eq [of "BASE - t" "q - t"] by (simp add: v_def q'_def algebra_simps)
    have q': "0 \<le> q'" using False t by (simp add: q'_def BASE_def pos_imp_zdiv_nonneg_iff)
    note next_w = weight_next [OF "1.prems"(4), of q, folded t_def, OF _ "1.prems"(5)]
    have fits: "\<not> w > 0x7fffffff div (BASE - t)" using next_w(1) False t le_div [of "BASE - t" w] by (simp add: not_less BASE_def)
    have sum: "q * w = v * w + q' * (w * (BASE - t))" by (subst split) (simp add: algebra_simps)
    have pos: "0 \<le> v * w" using v w by simp
    have "get_integer src (int (length src)) bias (k + BASE) (i + v * w) (w * (BASE - t)) (int (length (pre @ [digitToBasic v f']))) =
      Some (Inr (i + v * w + q' * (w * (BASE - t)), int (length (pre @ [digitToBasic v f']) + length (digits q' (k + BASE) bias f))))"
      unfolding q'_def t_def
    proof (rule "1.IH")
      show "src = (pre @ [digitToBasic v f']) @ digits ((q - threshold k bias) div (BASE - threshold k bias)) (k + BASE) bias f @ post"
        using "1.prems"(1) D False by (simp add: t_def)
    qed (use False "1.prems"(3,5,6) next_w(2) q' sum pos in \<open>simp_all add: t_def [symmetric] q'_def [symmetric]\<close>)
    moreover have "\<not> v < t" using False t by (simp add: v_def BASE_def not_less)
    moreover have "D = digits q' (k + BASE) bias f" using D(2) False by (simp add: q'_def)
    ultimately show ?thesis unfolding step D(1) sum using fits by (simp add: add.commute add.left_commute)
  qed
qed


section \<open>Insertion\<close>

text \<open>The index of the first supplementary code point of the output, or a large number.\<close>

definition first_ok :: "int list \<Rightarrow> int \<Rightarrow> bool" where
  "first_ok F first \<longleftrightarrow>
     (if \<exists>c \<in> set F. 0x10000 \<le> c then first = int (length (takeWhile (\<lambda>c. c < 0x10000) F)) else 1000000000 \<le> first)"

definition out_ok :: "u16 list \<Rightarrow> decoder \<Rightarrow> int list \<Rightarrow> bool" where
  "out_ok dest0 d F \<longleftrightarrow> dec_dest d = Some (utf16 F @ drop (length (utf16 F)) dest0) \<and> dec_flags d = None \<and>
     dec_destLength d = widths F \<and> first_ok F (dec_first d)"

definition insert_at :: "nat \<Rightarrow> 'a \<Rightarrow> 'a list \<Rightarrow> 'a list" where
  "insert_at i x F = take i F @ x # drop i F"

lemma widths_append [simp]: "widths (xs @ ys) = widths xs + widths ys"
  by (simp add: widths_def)

lemma bmp_widths: "\<forall>c \<in> set F. c < 0x10000 \<Longrightarrow> widths F = int (length F)"
  by (induction F) (auto simp: widths_def width16_def)

lemma take_bmp: "i \<le> length (takeWhile P F) \<Longrightarrow> \<forall>c \<in> set (take i F). P c"
  by (metis set_take_subset_set_take set_takeWhileD subsetD takeWhile_eq_take take_take min.absorb1 in_set_takeD)

lemma insert_index_ok:
  assumes F: "\<forall>c \<in> set F. scalar16 c" "length F < 1000000000" and i: "i \<le> length F" and first: "first_ok F first" and n: "scalar16 n"
  shows "\<exists>first'. insert_index (utf16 F @ R) (widths F) (width16 n) (int i) first = Some (widths (take i F), first') \<and> first_ok (insert_at i n F) first'"
proof (cases "int i \<le> first")
  case True
  have bmp: "\<forall>c \<in> set (take i F). c < 0x10000"
  proof (cases "\<exists>c \<in> set F. 0x10000 \<le> c")
    case True
    then show ?thesis using first \<open>int i \<le> first\<close> by (intro take_bmp) (simp add: first_ok_def)
  next
    case False
    then show ?thesis by (meson in_set_takeD not_le)
  qed
  then have idx: "widths (take i F) = int i" using bmp_widths [of "take i F"] i by simp
  have take: "takeWhile (\<lambda>c. c < 0x10000) (insert_at i n F) = take i F @ takeWhile (\<lambda>c. c < 0x10000) (n # drop i F)"
    unfolding insert_at_def using bmp by (intro takeWhile_append2) auto
  have "takeWhile (\<lambda>c. c < 0x10000) F = take i F @ takeWhile (\<lambda>c. c < 0x10000) (drop i F)"
    using bmp takeWhile_append2 [of "take i F" "\<lambda>c. c < 0x10000" "drop i F"] by simp
  moreover have "set (insert_at i n F) = insert n (set F)" by (simp add: insert_at_def) (metis Un_insert_right append_take_drop_id set_append)
  ultimately have "first_ok (insert_at i n F) (if width16 n > 1 then int i else first + 1)"
    using first take i by (auto simp: first_ok_def width16_def)
  then show ?thesis using True idx by (simp add: insert_index_def)
next
  case False
  then have ex: "\<exists>c \<in> set F. 0x10000 \<le> c" using first i F(2) by (auto simp: first_ok_def split: if_splits)
  define k where "k = length (takeWhile (\<lambda>c. c < 0x10000) F)"
  have k: "first = int k" "k < i" using False ex first by (simp_all add: first_ok_def k_def)
  have kF: "k \<le> length F" by (simp add: k_def length_takeWhile_le)
  have bmp: "\<forall>c \<in> set (take k F). c < 0x10000" by (rule take_bmp) (simp add: k_def)
  then have wk: "widths (take k F) = int k" using bmp_widths [of "take k F"] kF by simp
  have pos: "\<forall>c \<in> set F. 0 \<le> c" using F(1) by (simp add: scalar16_def)
  have U: "utf16 F = utf16 (take k F) @ utf16 (drop k F)" by (simp flip: utf16_simps(3))
  have len: "int (length (utf16 (take k F))) = int k" "int (length (utf16 F)) = widths F"
    using utf16_length [of "take k F"] utf16_length [OF pos] wk pos by (auto dest: in_set_takeD)
  have "seg (utf16 F @ R) (int k) (widths F) = utf16 (drop k F)"
    using seg_append [of "utf16 (take k F)" "utf16 (drop k F)" R] len U by simp
  then have cps: "code_points (seg (utf16 F @ R) (int k) (widths F)) = drop k F"
    using code_points_utf16 [of "drop k F"] F(1) by (auto dest: in_set_dropD)
  have kw: "int k \<le> widths F" using len U by simp
  have "U16_FWD_N (utf16 F @ R) (int k) (widths F) (nat (int i - int k)) = Some (int k + widths (take (i - k) (drop k F)))"
    using U16_FWD_N_ok [of "int k" "widths F" "utf16 F @ R" "nat (int i - int k)"] kw len cps k(2) by (simp add: nat_diff_distrib)
  moreover have "widths (take i F) = int k + widths (take (i - k) (drop k F))"
    using wk k(2) by (metis widths_append take_add le_add_diff_inverse less_imp_le_nat)
  moreover have "first_ok (insert_at i n F) first"
  proof -
    have "k \<noteq> length F"
    proof
      assume "k = length F"
      then have "takeWhile (\<lambda>c. c < 0x10000) F = F" using takeWhile_eq_take [of "\<lambda>c. c < 0x10000" F] by (simp add: k_def)
      then show False using ex by (simp add: takeWhile_eq_all_conv not_le [symmetric])
    qed
    then have "k < length F" using kF by simp
    then have at: "\<not> F ! k < 0x10000" "drop k F = F ! k # drop (Suc k) F" using nth_length_takeWhile [of "\<lambda>c. c < 0x10000" F]
      by (simp_all add: k_def Cons_nth_drop_Suc)
    have "take i F = take k F @ take (i - k) (drop k F)" using k(2) by (metis take_add le_add_diff_inverse less_imp_le_nat)
    then have "take i F = take k F @ F ! k # take (i - k - 1) (drop (Suc k) F)" using k(2) at(2) by (simp add: take_Cons')
    then have "takeWhile (\<lambda>c. c < 0x10000) (insert_at i n F) = take k F"
      unfolding insert_at_def using bmp at(1) by (simp add: takeWhile_tail)
    moreover have "\<exists>c \<in> set (insert_at i n F). 0x10000 \<le> c"
      using ex unfolding insert_at_def by (metis (no_types, lifting) UnE UnI1 UnI2 append_take_drop_id list.set_intros(2) set_append)
    ultimately show ?thesis using k(1) kF by (simp add: first_ok_def)
  qed
  ultimately show ?thesis using False k(1) by (simp add: insert_index_def)
qed

lemma make_room:
  assumes "w \<le> length R"
  shows "\<exists>X. (if int (length A) < int (length A + length B)
      then memmove (A @ B @ R) (int (length A) + int w) (int (length A)) (int (length A + length B) - int (length A))
      else Some (A @ B @ R)) = Some (A @ X @ B @ drop w R) \<and> length X = w"
proof (cases B)
  case Nil
  then show ?thesis using assms by (intro exI [of _ "take w R"]) simp
next
  case (Cons b B')
  have "seg (A @ B @ R) (int (length A)) (int (length A) + int (length B)) = B" by (rule seg_append)
  then have "memmove (A @ B @ R) (int (length A) + int w) (int (length A)) (int (length B)) = Some (A @ take w (B @ R) @ B @ drop w R)"
    using assms by (simp add: memmove_def overwrite_def nat_add_distrib)
  then show ?thesis using Cons assms by (intro exI [of _ "take w (B @ R)"]) simp
qed

lemma insert_units_ok:
  assumes "scalar16 n" "length (utf16_encode n) \<le> length R" "cpLength = width16 n"
  shows "insert_units (A @ B @ R) (int (length A + length B)) cpLength (int (length A)) n =
    Some (A @ utf16_encode n @ B @ drop (length (utf16_encode n)) R)"
proof -
  have n: "0 \<le> n" using assms(1) by (simp add: scalar16_def)
  have w: "cpLength = int (length (utf16_encode n))" using assms(3) n by simp
  obtain X where X: "(if int (length A) < int (length A + length B)
      then memmove (A @ B @ R) (int (length A) + cpLength) (int (length A)) (int (length A + length B) - int (length A))
      else Some (A @ B @ R)) = Some (A @ X @ B @ drop (length (utf16_encode n)) R)" "length X = length (utf16_encode n)"
    using make_room [OF assms(2), of A B] unfolding w by blast
  show ?thesis
  proof (cases "n < 0x10000")
    case True
    then obtain x where "X = [x]" using X(2) by (auto simp: utf16_encode_def length_Suc_conv)
    then show ?thesis unfolding insert_units_def X(1) using True w by (simp add: utf16_encode_def wr_def)
  next
    case False
    then obtain x y where "X = [x, y]" using X(2) by (auto simp: utf16_encode_def length_Suc_conv)
    moreover have "nat (int (length A) + 1) = Suc (length A)" by simp
    moreover have "(A @ U16_LEAD n # y # B @ R')[Suc (length A) := U16_TRAIL n] = A @ U16_LEAD n # U16_TRAIL n # B @ R'" for R' :: "u16 list"
      by (simp add: list_update_append)
    ultimately show ?thesis unfolding insert_units_def X(1) using False w by (simp add: utf16_encode_def wr_def)
  qed
qed

lemma insert_cp_ok:
  assumes F: "\<forall>c \<in> set F. scalar16 c" "length F < 1000000000" and out: "out_ok dest0 d F" and n: "dec_n d = n" "scalar16 n"
    and i: "dec_i d = int i" "i \<le> length F" and room: "widths F + width16 n \<le> destCapacity" "destCapacity \<le> int (length dest0)"
    and inp: "1 \<le> inp" "inp \<le> int (length src)"
  shows "\<exists>d'. insert_cp src destCapacity inp d = Some d' \<and> out_ok dest0 d' (insert_at i n F) \<and>
    dec_cpCount d' = dec_cpCount d \<and> dec_n d' = n \<and> dec_bias d' = dec_bias d"
proof -
  define A B where "A = utf16 (take i F)" and "B = utf16 (drop i F)"
  define R where "R = drop (length (utf16 F)) dest0"
  have U: "utf16 F = A @ B" by (simp add: A_def B_def flip: utf16_simps(3))
  have pos: "\<forall>c \<in> set F. 0 \<le> c" "0 \<le> n" using F(1) n(2) by (simp_all add: scalar16_def)
  have len: "int (length A + length B) = widths F" "int (length A) = widths (take i F)"
    using utf16_length [OF pos(1)] utf16_length [of "take i F"] pos(1) U by (auto simp: A_def dest: in_set_takeD)
  have "int (length (utf16_encode n)) = width16 n" using pos(2) by simp
  then have "length (utf16_encode n) \<le> length R" using room len(1) unfolding R_def U by simp
  then have R: "length (utf16_encode n) \<le> length R" "dec_dest d = Some (A @ B @ R)" "dec_flags d = None" "dec_destLength d = widths F"
    "first_ok F (dec_first d)"
    using U out by (simp_all add: R_def out_ok_def)
  have w: "U16_LENGTH n = width16 n" using pos(2) by (rule U16_LENGTH_width)
  obtain first' where first: "insert_index (A @ B @ R) (widths F) (width16 n) (int i) (dec_first d) = Some (int (length A), first')"
    "first_ok (insert_at i n F) first'"
    using insert_index_ok [OF F i(2) R(5) n(2), of R] U len(2) by auto
  have units: "insert_units (A @ B @ R) (widths F) (width16 n) (int (length A)) n = Some (A @ utf16_encode n @ B @ drop (length (utf16_encode n)) R)"
    using insert_units_ok [OF n(2) R(1) refl, of A B] len(1) by simp
  have c: "\<exists>c. rd src (inp - 1) = Some c" using inp by (simp add: rd_def)
  define d' where "d' = d\<lparr>dec_dest := Some (A @ utf16_encode n @ B @ drop (length (utf16_encode n)) R), dec_flags := None, dec_first := first',
    dec_destLength := widths F + width16 n\<rparr>"
  have "insert_cp src destCapacity inp d = Some d'"
    using c R(2-4) room(1) first(1) units by (auto simp: insert_cp_def n(1) w i(1) insert_flags_def d'_def)
  moreover have "out_ok dest0 d' (insert_at i n F)"
  proof -
    have "utf16 (insert_at i n F) = A @ utf16_encode n @ B" by (simp add: insert_at_def A_def B_def)
    moreover have "drop (length (utf16_encode n)) R = drop (length (A @ utf16_encode n @ B)) dest0"
      by (simp add: R_def U add.commute add.left_commute)
    moreover have "widths (insert_at i n F) = widths F + width16 n"
      using widths_append [of "take i F" "drop i F"] by (simp add: insert_at_def widths_def)
    ultimately show ?thesis using first(2) by (simp add: out_ok_def d'_def)
  qed
  ultimately show ?thesis by (intro exI [of _ d']) (simp add: d'_def n(1))
qed

section \<open>One round of the decoder\<close>

text \<open>The decoder has the code points \<open>F\<close>; the last one that it inserted is \<open>n\<close> in front of index \<open>i\<close>.\<close>

definition dec_ok :: "u16 list \<Rightarrow> decoder \<Rightarrow> int list \<Rightarrow> int \<Rightarrow> int \<Rightarrow> int \<Rightarrow> bool" where
  "dec_ok dest0 d F n i bias \<longleftrightarrow> out_ok dest0 d F \<and> dec_cpCount d = int (length F) \<and> dec_n d = n \<and> dec_i d = i \<and> dec_bias d = bias"

lemma decode_step_ok:
  assumes F: "\<forall>c \<in> set F. scalar16 c" "length F < 1000000000" and d: "dec_ok dest0 d F n0 i0 bias"
    and delta: "delta = (n - n0) * (int (length F) + 1) + int i - i0" "0 \<le> delta" "delta < 35 ^ 6" "0 \<le> i0" "i0 \<le> 1000"
    and n: "scalar16 n" "n0 \<le> n" "0 \<le> n0" and i: "i \<le> length F"
    and room: "widths F + width16 n \<le> destCapacity" "destCapacity \<le> int (length dest0)"
    and src: "src = pre @ digits delta BASE bias f @ post"
  shows "\<exists>d'. decode_step src (int (length src)) destCapacity (int (length pre)) d =
      Some (Inr (d', int (length pre + length (digits delta BASE bias f)))) \<and>
    dec_ok dest0 d' (insert_at i n F) n (int i + 1) (adaptBias delta (int (length F) + 1) (i0 = 0))"
proof -
  define h where "h = int (length F) + 1"
  have h: "0 < h" "int i < h" using i by (simp_all add: h_def)
  have fields: "dec_cpCount d = int (length F)" "dec_n d = n0" "dec_i d = i0" "dec_bias d = bias" "out_ok dest0 d F"
    using d by (simp_all add: dec_ok_def)
  have "weight_ok BASE bias 1" by (auto simp: weight_ok_def intro: exI [of _ 0])
  then have get: "get_integer src (int (length src)) bias BASE i0 1 (int (length pre)) =
      Some (Inr (i0 + delta, int (length pre + length (digits delta BASE bias f))))"
    using get_integer_ok [OF src delta(2) delta(4), of 1] delta(3,5) by simp
  have sum: "i0 + delta = (n - n0) * h + int i" using delta(1) by (simp add: h_def)
  have quot: "(i0 + delta) div h = n - n0" "(i0 + delta) mod h = int i" unfolding sum using h by simp_all
  define d1 where "d1 = d\<lparr>dec_cpCount := h, dec_bias := adaptBias delta h (i0 = 0), dec_n := n, dec_i := int i\<rparr>"
  have len: "1 \<le> int (length pre + length (digits delta BASE bias f))" "int (length pre + length (digits delta BASE bias f)) \<le> int (length src)"
    using src by (subst digits.simps, simp_all add: Let_def)
  have "out_ok dest0 d1 F" using fields(5) by (simp add: out_ok_def d1_def)
  then obtain d' where d': "insert_cp src destCapacity (int (length pre + length (digits delta BASE bias f))) d1 = Some d'"
    "out_ok dest0 d' (insert_at i n F)" "dec_cpCount d' = h" "dec_n d' = n" "dec_bias d' = adaptBias delta h (i0 = 0)"
    using insert_cp_ok [OF F _ _ n(1) _ i room len, of d1] by (auto simp: d1_def)
  have "decode_step src (int (length src)) destCapacity (int (length pre)) d =
      Some (Inr (d'\<lparr>dec_i := int i + 1\<rparr>, int (length pre + length (digits delta BASE bias f))))"
  proof -
    have "\<not> (n > 0x10ffff \<or> (0xd800 \<le> n \<and> n \<le> 0xdfff))" "\<not> n - n0 > 0x7fffffff - n0" using n by (auto simp: scalar16_def)
    moreover have "dec_cpCount d + 1 = h" by (simp add: h_def fields(1))
    ultimately show ?thesis using get quot d'(1) fields(2-4) by (simp add: decode_step_def Let_def d1_def)
  qed
  moreover have "dec_ok dest0 (d'\<lparr>dec_i := int i + 1\<rparr>) (insert_at i n F) n (int i + 1) (adaptBias delta (int (length F) + 1) (i0 = 0))"
    using d'(2-5) i by (simp add: dec_ok_def out_ok_def h_def insert_at_def)
  ultimately show ?thesis by blast
qed


section \<open>The encoder against the decoder\<close>

text \<open>
  The state of the decoder: its code points, the last one inserted, the index behind it and the bias. Reading \<open>s\<close> takes it from one
  to another, whatever stands around \<open>s\<close> and wherever the output goes, as long as it fits.
\<close>

type_synonym dec_state = "int list \<times> int \<times> int \<times> int"

definition reads :: "u16 list \<Rightarrow> dec_state \<Rightarrow> dec_state \<Rightarrow> bool" where
  "reads s = (\<lambda>(F, n, i, bias) (F', n', i', bias'). widths F \<le> widths F' \<and>
     (\<forall>pre post dest0 destCapacity d. dec_ok dest0 d F n i bias \<longrightarrow> widths F' \<le> destCapacity \<longrightarrow> destCapacity \<le> int (length dest0) \<longrightarrow>
       (\<exists>d'. dec_ok dest0 d' F' n' i' bias' \<and>
         decode_loop (pre @ s @ post) (int (length (pre @ s @ post))) destCapacity (int (length pre)) d =
         decode_loop (pre @ s @ post) (int (length (pre @ s @ post))) destCapacity (int (length (pre @ s))) d')))"

lemma readsD:
  assumes "reads s (F, n, i, bias) (F', n', i', bias')" "dec_ok dest0 d F n i bias" "widths F' \<le> destCapacity" "destCapacity \<le> int (length dest0)"
  obtains d' where "dec_ok dest0 d' F' n' i' bias'"
    "decode_loop (pre @ s @ post) (int (length (pre @ s @ post))) destCapacity (int (length pre)) d =
     decode_loop (pre @ s @ post) (int (length (pre @ s @ post))) destCapacity (int (length (pre @ s))) d'"
  using assms unfolding reads_def prod.case by blast

lemma reads_Nil: "reads [] S S"
  by (cases S) (auto simp: reads_def)

lemma reads_append:
  assumes "reads s S T" "reads s' T U"
  shows "reads (s @ s') S U"
proof -
  obtain F n i bias F1 n1 i1 bias1 F2 n2 i2 bias2 where S: "S = (F, n, i, bias)" "T = (F1, n1, i1, bias1)" "U = (F2, n2, i2, bias2)"
    by (metis prod_cases4)
  show ?thesis unfolding S reads_def prod.case
  proof (intro conjI allI impI)
    show "widths F \<le> widths F2" using assms unfolding S by (auto simp: reads_def)
    fix pre post dest0 destCapacity d
    assume d: "dec_ok dest0 d F n i bias" and room: "widths F2 \<le> destCapacity" "destCapacity \<le> int (length dest0)"
    have "widths F1 \<le> destCapacity" using assms(2) room(1) unfolding S by (auto simp: reads_def)
    from readsD [OF assms(1) [unfolded S] d this room(2), of pre "s' @ post"] obtain d1 where d1: "dec_ok dest0 d1 F1 n1 i1 bias1"
      "decode_loop (pre @ s @ s' @ post) (int (length (pre @ s @ s' @ post))) destCapacity (int (length pre)) d =
       decode_loop (pre @ s @ s' @ post) (int (length (pre @ s @ s' @ post))) destCapacity (int (length (pre @ s))) d1"
      by blast
    from readsD [OF assms(2) [unfolded S] d1(1) room, of "pre @ s" post] obtain d2 where d2: "dec_ok dest0 d2 F2 n2 i2 bias2"
      "decode_loop ((pre @ s) @ s' @ post) (int (length ((pre @ s) @ s' @ post))) destCapacity (int (length (pre @ s))) d1 =
       decode_loop ((pre @ s) @ s' @ post) (int (length ((pre @ s) @ s' @ post))) destCapacity (int (length ((pre @ s) @ s'))) d2"
      by blast
    show "\<exists>d'. dec_ok dest0 d' F2 n2 i2 bias2 \<and>
        decode_loop (pre @ (s @ s') @ post) (int (length (pre @ (s @ s') @ post))) destCapacity (int (length pre)) d =
        decode_loop (pre @ (s @ s') @ post) (int (length (pre @ (s @ s') @ post))) destCapacity (int (length (pre @ s @ s'))) d'"
      using d1(2) d2 by (intro exI [of _ d2]) (simp only: append_assoc simp_thms)
  qed
qed

lemma reads_step:
  assumes F: "\<forall>c \<in> set F. scalar16 c" "length F < 1000000000"
    and delta: "delta = (n - n0) * (int (length F) + 1) + int i - i0" "0 \<le> delta" "delta < 35 ^ 6" "0 \<le> i0" "i0 \<le> 1000"
    and n: "scalar16 n" "n0 \<le> n" "0 \<le> n0" and i: "i \<le> length F"
  shows "reads (digits delta BASE bias f) (F, n0, i0, bias)
    (insert_at i n F, n, int i + 1, adaptBias delta (int (length F) + 1) (i0 = 0))"
  unfolding reads_def prod.case
proof (intro conjI allI impI)
  have w: "widths (insert_at i n F) = widths F + width16 n"
    using widths_append [of "take i F" "drop i F"] by (simp add: insert_at_def widths_def)
  then show "widths F \<le> widths (insert_at i n F)" using width16_pos(1) [of n] by simp
  fix pre post dest0 destCapacity d
  assume d: "dec_ok dest0 d F n0 i0 bias" and room: "widths (insert_at i n F) \<le> destCapacity" "destCapacity \<le> int (length dest0)"
  let ?s = "digits delta BASE bias f"
  let ?src = "pre @ ?s @ post"
  obtain d' where d': "decode_step ?src (int (length ?src)) destCapacity (int (length pre)) d = Some (Inr (d', int (length pre + length ?s)))"
    "dec_ok dest0 d' (insert_at i n F) n (int i + 1) (adaptBias delta (int (length F) + 1) (i0 = 0))"
    using decode_step_ok [OF F d delta n i room(1) [unfolded w] room(2) refl] by blast
  have "?s \<noteq> []" by (subst digits.simps) (simp add: Let_def)
  then have "0 < length ?s" by simp
  then have "int (length pre) < int (length ?src)" unfolding length_append of_nat_add by linarith
  then have "decode_loop ?src (int (length ?src)) destCapacity (int (length pre)) d =
      decode_loop ?src (int (length ?src)) destCapacity (int (length pre + length ?s)) d'"
    by (subst decode_loop.simps) (simp only: d'(1) if_True bind.bind_lunit sum.case prod.case)
  then show "\<exists>d'. dec_ok dest0 d' (insert_at i n F) n (int i + 1) (adaptBias delta (int (length F) + 1) (i0 = 0)) \<and>
      decode_loop ?src (int (length ?src)) destCapacity (int (length pre)) d =
      decode_loop ?src (int (length ?src)) destCapacity (int (length (pre @ ?s))) d'"
    using d'(2) by (intro exI [of _ d'] conjI) (simp_all only: length_append of_nat_add)
qed

text \<open>
  The encoder when the code points \<open>F\<close> are handled and it has come to index \<open>idx\<close> among them looking for code points \<open>n\<close>: \<open>delta\<close>
  is what takes the decoder from its state \<open>(n0, i0)\<close> to \<open>(n, idx)\<close>.
\<close>

definition enc_ok :: "int \<Rightarrow> int \<Rightarrow> int list \<Rightarrow> int \<Rightarrow> int \<Rightarrow> int \<Rightarrow> int \<Rightarrow> bool" where
  "enc_ok n b F idx n0 i0 delta \<longleftrightarrow> 0x80 \<le> n0 \<and> n0 \<le> n \<and> 0 \<le> i0 \<and> i0 \<le> 1000 \<and> 0 \<le> delta \<and>
     delta = (n - n0) * (int (length F) + 1) + idx - i0 \<and> b \<le> int (length F) \<and> (i0 = 0 \<longleftrightarrow> int (length F) = b)"

definition entry :: "int \<Rightarrow> int" where
  "entry c = (if c < 0x80 then 0 else c)"

lemma cp_of_entry: "0 \<le> c \<Longrightarrow> c \<le> 0x10ffff \<Longrightarrow> cp_of (entry c) = entry c \<and> 0 \<le> entry c"
proof -
  have "x AND 0x7fffffff = x mod 2 ^ 31" for x :: int using take_bit_eq_mask [of 31 x] by (simp add: take_bit_eq_mod mask_eq_exp_minus_1)
  then show "0 \<le> c \<Longrightarrow> c \<le> 0x10ffff \<Longrightarrow> cp_of (entry c) = entry c \<and> 0 \<le> entry c" by (simp add: cp_of_def entry_def)
qed

lemma delta_bound:
  assumes "(n::int) \<le> 0x10ffff" "0 \<le> n0" "n0 \<le> n" "h \<le> 200" "0 \<le> h" "idx \<le> 200" "0 \<le> i0"
  shows "(n - n0) * (h + 1) + idx - i0 < 35 ^ 6"
proof -
  have "(n - n0) * (h + 1) \<le> 0x10ffff * 201" using assms by (intro mult_mono) auto
  then show ?thesis using assms by simp
qed

lemma encode_pass_ok:
  "\<forall>c \<in> set (ys @ xs). scalar16 c \<Longrightarrow> length (ys @ xs) \<le> 200 \<Longrightarrow> scalar16 n \<Longrightarrow> 0x80 \<le> n \<Longrightarrow>
    enc_ok n b (filter (\<lambda>c. c \<le> n) ys @ filter (\<lambda>c. c < n) xs) (int (length (filter (\<lambda>c. c \<le> n) ys))) n0 i0 delta \<Longrightarrow>
    \<exists>s n' i' delta' bias'.
      (\<forall>dest0 destCapacity out. destCapacity \<le> int (length dest0) \<longrightarrow>
        encode_pass n b destCapacity (map entry xs) (output_in dest0 destCapacity out) (int (length out)) delta bias
          (int (length (filter (\<lambda>c. c \<le> n) ys @ filter (\<lambda>c. c < n) xs))) =
        Some (output_in dest0 destCapacity (out @ s), int (length (out @ s)), delta', bias', int (length (filter (\<lambda>c. c \<le> n) (ys @ xs))))) \<and>
      reads s (filter (\<lambda>c. c \<le> n) ys @ filter (\<lambda>c. c < n) xs, n0, i0, bias) (filter (\<lambda>c. c \<le> n) (ys @ xs), n', i', bias') \<and>
      enc_ok n b (filter (\<lambda>c. c \<le> n) (ys @ xs)) (int (length (filter (\<lambda>c. c \<le> n) (ys @ xs)))) n' i' delta' \<and>
      (\<forall>u \<in> set s. u < 0x80 \<and> u \<noteq> DELIMITER)"
proof (induction xs arbitrary: ys n0 i0 delta bias)
  case Nil
  then show ?case
    by (intro exI [of _ "[]"] exI [of _ n0] exI [of _ i0] exI [of _ delta] exI [of _ bias]) (simp add: reads_Nil)
next
  case (Cons x xs)
  have x: "scalar16 x" using Cons.prems(1) by simp
  then have e: "cp_of (entry x) = entry x" "0 \<le> entry x" using cp_of_entry by (simp_all add: scalar16_def)
  let ?G = "\<lambda>ys xs. filter (\<lambda>c. c \<le> n) ys @ filter (\<lambda>c. c < n) xs"
  consider (less) "x < n" | (eq) "x = n" | (greater) "n < x" by linarith
  then show ?case
  proof cases
    case less
    then have ent: "entry x < n" using Cons.prems(4) by (simp add: entry_def)
    have G: "?G (ys @ [x]) xs = ?G ys (x # xs)" using less by simp
    have "enc_ok n b (?G (ys @ [x]) xs) (int (length (filter (\<lambda>c. c \<le> n) (ys @ [x])))) n0 i0 (delta + 1)"
      using Cons.prems(5) less unfolding G by (simp add: enc_ok_def)
    from Cons.IH [OF _ _ Cons.prems(3,4) this, of bias] Cons.prems(1,2) show ?thesis
      using e ent unfolding G by (simp del: filter_append)
  next
    case greater
    then have ent: "entry x \<noteq> n" "\<not> entry x < n" using Cons.prems(4) by (simp_all add: entry_def)
    have G: "?G (ys @ [x]) xs = ?G ys (x # xs)" "filter (\<lambda>c. c \<le> n) (ys @ [x]) = filter (\<lambda>c. c \<le> n) ys" using greater by simp_all
    have "enc_ok n b (?G (ys @ [x]) xs) (int (length (filter (\<lambda>c. c \<le> n) (ys @ [x])))) n0 i0 delta"
      using Cons.prems(5) greater by simp
    from Cons.IH [OF _ _ Cons.prems(3,4) this, of bias] Cons.prems(1,2) show ?thesis
      using e ent greater unfolding G by (simp del: filter_append)
  next
    case eq
    then have ent: "entry x = n" "\<not> entry x < n" using Cons.prems(4) by (simp_all add: entry_def)
    define F where "F = ?G ys (x # xs)"
    define i where "i = length (filter (\<lambda>c. c \<le> n) ys)"
    have FG: "F = ?G ys xs" using eq by (simp add: F_def)
    then have "length F \<le> length ys + length xs" by (simp add: add_mono)
    then have F: "\<forall>c \<in> set F. scalar16 c" "length F \<le> 200" "i \<le> length F"
      using Cons.prems(1,2) by (auto simp: FG i_def)
    have enc: "0x80 \<le> n0" "n0 \<le> n" "0 \<le> i0" "i0 \<le> 1000" "0 \<le> delta" "delta = (n - n0) * (int (length F) + 1) + int i - i0" "b \<le> int (length F)"
      "i0 = 0 \<longleftrightarrow> int (length F) = b"
      using Cons.prems(5) unfolding enc_ok_def F_def [symmetric] i_def [symmetric] by blast+
    have "n \<le> 0x10ffff" using Cons.prems(3) by (simp add: scalar16_def)
    then have small: "delta < 35 ^ 6" unfolding enc(6) by (rule delta_bound) (use enc F in simp_all)
    have G: "insert_at i n F = ?G (ys @ [x]) xs" using eq by (simp add: insert_at_def FG i_def)
    have GL: "int (length (?G (ys @ [x]) xs)) = int (length F) + 1" using eq by (simp add: FG)
    define s where "s = digits delta BASE bias False"
    define bias1 where "bias1 = adaptBias delta (int (length F) + 1) (int (length F) = b)"
    have step: "reads s (F, n0, i0, bias) (?G (ys @ [x]) xs, n, int i + 1, bias1)"
      unfolding s_def bias1_def G [symmetric]
      using reads_step [OF F(1) _ enc(6,5) small enc(3,4) Cons.prems(3) enc(2) _ F(3), of bias False] F(2) enc(1,8) by simp
    have "enc_ok n b (?G (ys @ [x]) xs) (int (length (filter (\<lambda>c. c \<le> n) (ys @ [x])))) n (int i + 1) 0"
      using Cons.prems(4) enc(7) F(2,3) GL eq by (simp add: enc_ok_def i_def)
    from Cons.IH [OF _ _ Cons.prems(3,4) this, of bias1] obtain s' n' i' delta' bias' where IH:
      "\<And>dest0 destCapacity out. destCapacity \<le> int (length dest0) \<Longrightarrow>
       encode_pass n b destCapacity (map entry xs) (output_in dest0 destCapacity out) (int (length out)) 0 bias1 (int (length F) + 1) =
       Some (output_in dest0 destCapacity (out @ s'), int (length (out @ s')), delta', bias', int (length (filter (\<lambda>c. c \<le> n) ((ys @ [x]) @ xs))))"
      "reads s' (?G (ys @ [x]) xs, n, int i + 1, bias1) (filter (\<lambda>c. c \<le> n) ((ys @ [x]) @ xs), n', i', bias')"
      "enc_ok n b (filter (\<lambda>c. c \<le> n) ((ys @ [x]) @ xs)) (int (length (filter (\<lambda>c. c \<le> n) ((ys @ [x]) @ xs)))) n' i' delta'"
      "\<forall>u \<in> set s'. u < 0x80 \<and> u \<noteq> DELIMITER"
      unfolding GL using Cons.prems(1,2) by auto
    have cat: "(ys @ [x]) @ xs = ys @ x # xs" by simp
    have pass: "encode_pass n b destCapacity (map entry (x # xs)) (output_in dest0 destCapacity out) (int (length out)) delta bias (int (length F)) =
        Some (output_in dest0 destCapacity (out @ s @ s'), int (length (out @ s @ s')), delta', bias', int (length (filter (\<lambda>c. c \<le> n) (ys @ x # xs))))"
      if cap: "destCapacity \<le> int (length dest0)" for dest0 destCapacity out
    proof -
      have "encode_pass n b destCapacity (map entry (x # xs)) (output_in dest0 destCapacity out) (int (length out)) delta bias (int (length F)) =
        encode_pass n b destCapacity (map entry xs) (output_in dest0 destCapacity (out @ s)) (int (length (out @ s))) 0 bias1 (int (length F) + 1)"
      using e ent put_integer_ok [OF cap, of delta BASE bias False out] by (simp add: s_def bias1_def not_less)
      then show ?thesis using IH(1) [OF cap, of "out @ s"] unfolding cat by simp
    qed
    have "\<forall>u \<in> set (s @ s'). u < 0x80 \<and> u \<noteq> DELIMITER" using IH(4) digits_basic [OF enc(5)] unfolding s_def set_append by blast
    then show ?thesis
      unfolding F_def [symmetric] using pass reads_append [OF step IH(2), unfolded cat] IH(3) [unfolded cat] by blast
  qed
qed


lemma next_larger_ok:
  "\<forall>c \<in> set cs. scalar16 c \<Longrightarrow> 0x80 \<le> n \<Longrightarrow> n \<le> m \<Longrightarrow>
   n \<le> next_larger n (map entry cs) m \<and> next_larger n (map entry cs) m \<le> m \<and>
   next_larger n (map entry cs) m \<in> insert m (set cs) \<and> (\<forall>c \<in> set cs. n \<le> c \<longrightarrow> next_larger n (map entry cs) m \<le> c)"
proof (induction cs arbitrary: m)
  case (Cons x xs)
  have "cp_of (entry x) = entry x" using cp_of_entry [of x] Cons.prems(1) by (simp add: scalar16_def)
  moreover have "n \<le> entry x \<longleftrightarrow> n \<le> x" "n \<le> entry x \<Longrightarrow> entry x = x" using Cons.prems(2) by (auto simp: entry_def)
  ultimately have eq: "next_larger n (map entry (x # xs)) m = next_larger n (map entry xs) (if n \<le> x \<and> x < m then x else m)"
    by (auto simp: Let_def)
  have IH: "n \<le> next_larger n (map entry xs) m' \<and> next_larger n (map entry xs) m' \<le> m' \<and>
    next_larger n (map entry xs) m' \<in> insert m' (set xs) \<and> (\<forall>c \<in> set xs. n \<le> c \<longrightarrow> next_larger n (map entry xs) m' \<le> c)" if "n \<le> m'" for m'
    using Cons.IH [of m'] Cons.prems(1,2) that by auto
  show ?case unfolding eq
  proof (cases "n \<le> x \<and> x < m")
    case True
    then show "n \<le> next_larger n (map entry xs) (if n \<le> x \<and> x < m then x else m) \<and> next_larger n (map entry xs) (if n \<le> x \<and> x < m then x else m) \<le> m \<and>
      next_larger n (map entry xs) (if n \<le> x \<and> x < m then x else m) \<in> insert m (set (x # xs)) \<and>
      (\<forall>c \<in> set (x # xs). n \<le> c \<longrightarrow> next_larger n (map entry xs) (if n \<le> x \<and> x < m then x else m) \<le> c)"
      using IH [of x] by auto
  next
    case False
    then show "n \<le> next_larger n (map entry xs) (if n \<le> x \<and> x < m then x else m) \<and> next_larger n (map entry xs) (if n \<le> x \<and> x < m then x else m) \<le> m \<and>
      next_larger n (map entry xs) (if n \<le> x \<and> x < m then x else m) \<in> insert m (set (x # xs)) \<and>
      (\<forall>c \<in> set (x # xs). n \<le> c \<longrightarrow> next_larger n (map entry xs) (if n \<le> x \<and> x < m then x else m) \<le> c)"
      using IH [of m] Cons.prems(3) by auto
  qed
qed simp

lemma length_filter_grows:
  "c \<in> set cs \<Longrightarrow> c = m \<Longrightarrow> length (filter (\<lambda>c. c < m) cs) < length (filter (\<lambda>c. c < m + (1::int)) cs)"
proof (induction cs)
  case (Cons x xs)
  have "length (filter (\<lambda>c. c < m) xs) \<le> length (filter (\<lambda>c. c < m + 1) xs)" by (induction xs) auto
  then show ?case using Cons by (cases "x = m") auto
qed simp

lemma encode_loop_ok:
  assumes cps: "\<forall>c \<in> set cps. scalar16 c" "length cps \<le> 200"
  shows "0x80 \<le> n \<Longrightarrow> enc_ok n b (filter (\<lambda>c. c < n) cps) 0 n0 i0 delta \<Longrightarrow>
    \<exists>s S. (\<forall>dest0 destCapacity out. destCapacity \<le> int (length dest0) \<longrightarrow>
        encode_loop (map entry cps) b destCapacity n (output_in dest0 destCapacity out) (int (length out)) delta bias
          (int (length (filter (\<lambda>c. c < n) cps))) =
        Some (output_in dest0 destCapacity (out @ s), Inr (int (length (out @ s))))) \<and>
      reads s (filter (\<lambda>c. c < n) cps, n0, i0, bias) (cps, S) \<and> (\<forall>u \<in> set s. u < 0x80 \<and> u \<noteq> DELIMITER)"
proof (induction "length cps - length (filter (\<lambda>c. c < n) cps)" arbitrary: n n0 i0 delta bias rule: less_induct)
  case less
  define F where "F = filter (\<lambda>c. c < n) cps"
  have le: "length F \<le> length cps" by (simp add: F_def)
  show ?case
  proof (cases "length F < length cps")
    case False
    then have "F = cps" using le unfolding F_def by (metis filter_id_conv le_antisym length_filter_less not_less)
    then show ?thesis unfolding F_def [symmetric]
      by (subst encode_loop.simps, intro exI [of _ "[]"] exI [of _ "(n0, i0, bias)"]) (simp add: reads_Nil)
  next
    case True
    have "\<exists>c \<in> set cps. n \<le> c"
    proof (rule ccontr)
      assume "\<not> ?thesis"
      then have "F = cps" unfolding F_def by (intro filter_True) (simp add: not_le)
      then show False using True by simp
    qed
    then obtain c where c: "c \<in> set cps" "n \<le> c" by blast
    define m where "m = next_larger n (map entry cps) 0x7fffffff"
    have n: "n \<le> 0x10ffff" using c cps(1) by (auto simp: scalar16_def)
    have m: "n \<le> m" "m \<in> insert 0x7fffffff (set cps)" "\<forall>c \<in> set cps. n \<le> c \<longrightarrow> m \<le> c"
      using next_larger_ok [OF cps(1) less.prems(1), of "0x7fffffff"] n by (simp_all add: m_def)
    moreover have "m \<le> c" "c \<le> 0x10ffff" using m(3) c cps(1) by (auto simp: scalar16_def)
    ultimately have mem: "m \<in> set cps" by auto
    then have sc: "scalar16 m" "m \<le> 0x10ffff" using cps(1) by (auto simp: scalar16_def)
    have F: "F = filter (\<lambda>c. c < m) cps" unfolding F_def using m(1,3) by (intro filter_cong) auto
    have enc: "0x80 \<le> n0" "n0 \<le> n" "0 \<le> i0" "i0 \<le> 1000" "0 \<le> delta" "delta = (n - n0) * (int (length F) + 1) + 0 - i0" "b \<le> int (length F)"
      "i0 = 0 \<longleftrightarrow> int (length F) = b"
      using less.prems(2) unfolding enc_ok_def F_def [symmetric] by blast+
    define delta1 where "delta1 = delta + (m - n) * (int (length F) + 1)"
    have d1: "delta1 = (m - n0) * (int (length F) + 1) + 0 - i0" by (simp add: delta1_def enc(6) algebra_simps)
    have "0 \<le> (m - n) * (int (length F) + 1)" using m(1) by simp
    note d1 = d1 this
    have "(m - n0) * (int (length F) + 1) \<le> 0x10ffff * 201" using sc(2) enc(1,2) m(1) le cps(2) by (intro mult_mono) auto
    then have "(m - n) * (int (length F) + 1) \<le> 0x7fffffff - MAX_CP_COUNT - delta" using d1(1) enc(3) by (simp add: delta1_def MAX_CP_COUNT_def)
    then have guard: "\<not> m - n > (0x7fffffff - MAX_CP_COUNT - delta) div (int (length F) + 1)"
      using le_div [of "int (length F) + 1" "m - n"] by (simp add: not_less)
    have "enc_ok m b (filter (\<lambda>c. c \<le> m) [] @ filter (\<lambda>c. c < m) cps) (int (length (filter (\<lambda>c. c \<le> m) []))) n0 i0 delta1"
      using enc m(1) d1 by (simp add: enc_ok_def F [symmetric] delta1_def)
    from encode_pass_ok [OF _ _ sc(1) _ this, of bias] obtain s n' i' delta' bias' where pass:
      "\<And>dest0 destCapacity out. destCapacity \<le> int (length dest0) \<Longrightarrow>
       encode_pass m b destCapacity (map entry cps) (output_in dest0 destCapacity out) (int (length out)) delta1 bias (int (length F)) =
       Some (output_in dest0 destCapacity (out @ s), int (length (out @ s)), delta', bias', int (length (filter (\<lambda>c. c \<le> m) cps)))"
      "reads s (F, n0, i0, bias) (filter (\<lambda>c. c \<le> m) cps, n', i', bias')"
      "enc_ok m b (filter (\<lambda>c. c \<le> m) cps) (int (length (filter (\<lambda>c. c \<le> m) cps))) n' i' delta'" "\<forall>u \<in> set s. u < 0x80 \<and> u \<noteq> DELIMITER"
      using cps less.prems(1) m(1) by (auto simp: F)
    have F': "filter (\<lambda>c. c \<le> m) cps = filter (\<lambda>c. c < m + 1) cps" by (rule filter_cong) auto
    have enc': "enc_ok (m + 1) b (filter (\<lambda>c. c < m + 1) cps) 0 n' i' (delta' + 1)"
      using pass(3) unfolding F' enc_ok_def by (auto simp: algebra_simps)
    have "length F < length (filter (\<lambda>c. c < m + 1) cps)" unfolding F by (rule length_filter_grows [OF mem refl])
    then have "length cps - length (filter (\<lambda>c. c < m + 1) cps) < length cps - length (filter (\<lambda>c. c < n) cps)"
      using True unfolding F_def by linarith
    from less.hyps [OF this _ enc', of bias'] less.prems(1) m(1) obtain s' S where IH:
      "\<And>dest0 destCapacity out. destCapacity \<le> int (length dest0) \<Longrightarrow>
       encode_loop (map entry cps) b destCapacity (m + 1) (output_in dest0 destCapacity out) (int (length out)) (delta' + 1) bias'
        (int (length (filter (\<lambda>c. c < m + 1) cps))) =
       Some (output_in dest0 destCapacity (out @ s'), Inr (int (length (out @ s'))))"
      "reads s' (filter (\<lambda>c. c < m + 1) cps, n', i', bias') (cps, S)" "\<forall>u \<in> set s'. u < 0x80 \<and> u \<noteq> DELIMITER"
      by auto
    have loop: "encode_loop (map entry cps) b destCapacity n (output_in dest0 destCapacity out) (int (length out)) delta bias (int (length F)) =
        Some (output_in dest0 destCapacity (out @ s @ s'), Inr (int (length (out @ s @ s'))))"
      if cap: "destCapacity \<le> int (length dest0)" for dest0 destCapacity out
    proof -
      have "encode_loop (map entry cps) b destCapacity n (output_in dest0 destCapacity out) (int (length out)) delta bias (int (length F)) =
        encode_loop (map entry cps) b destCapacity (m + 1) (output_in dest0 destCapacity (out @ s)) (int (length (out @ s))) (delta' + 1) bias'
        (int (length (filter (\<lambda>c. c < m + 1) cps)))"
        using True guard pass(1) [OF cap, of out] unfolding F' by (subst encode_loop.simps) (simp add: Let_def m_def [symmetric] delta1_def)
      then show ?thesis using IH(1) [OF cap, of "out @ s"] by simp
    qed
    have "\<forall>u \<in> set (s @ s'). u < 0x80 \<and> u \<noteq> DELIMITER" using IH(3) pass(4) by auto
    then show ?thesis unfolding F_def [symmetric] using loop reads_append [OF pass(2) [unfolded F'] IH(2)] by blast
  qed
qed

section \<open>Round trip\<close>

definition basics :: "int list \<Rightarrow> u16 list" where
  "basics cs = utf16 (filter (\<lambda>c. c < 0x80) cs)"

lemma basics_simps [simp]: "basics [] = []" "basics (cs @ ds) = basics cs @ basics ds"
  "c < 0x80 \<Longrightarrow> basics [c] = [word_of_int c]" "\<not> c < 0x80 \<Longrightarrow> basics [c] = []"
  by (simp_all add: basics_def utf16_encode_def)

lemma basics_units: "\<forall>c \<in> set cs. 0 \<le> c \<Longrightarrow> u \<in> set (basics cs) \<Longrightarrow> u < 0x80"
  by (induction cs) (auto simp: basics_def utf16_encode_def word_less_def uint_u16_of_int split: if_splits)

lemma length_basics: "length (basics cs) = length (filter (\<lambda>c. c < 0x80) cs)"
  by (induction cs) (auto simp: basics_def utf16_encode_def)

lemma collect_step_ok:
  assumes "scalar16 x" "src = pre @ utf16_encode x @ post" "destCapacity \<le> int (length dest0)"
  shows "collect_step src (int (length src)) None destCapacity (int (length pre)) (output_in dest0 destCapacity out) (int (length out)) =
    Some (Inr (int (length (pre @ utf16_encode x)), output_in dest0 destCapacity (out @ basics [x]), int (length (out @ basics [x])), entry x))"
proof -
  consider (basic) "x < 0x80" | (bmp) "0x80 \<le> x" "x < 0x10000" | (supp) "0x10000 \<le> x" by linarith
  then show ?thesis
  proof cases
    case basic
    then have src: "src = pre @ word_of_int x # post" "IS_BASIC (word_of_int x)" using assms(1,2)
      by (simp_all add: utf16_encode_def IS_BASIC_def scalar16_def word_less_def uint_u16_of_int)
    have "put_unit (output_in dest0 destCapacity out) destCapacity (int (length out)) (word_of_int x) =
        Some (output_in dest0 destCapacity (out @ [word_of_int x]))" by (rule put_unit_ok) (rule assms(3))
    then show ?thesis using src basic
      by (cases "int (length out) < destCapacity") (simp_all add: collect_step_def put_unit_def utf16_encode_def entry_def)
  next
    case bmp
    then have src: "src = pre @ word_of_int x # post" "\<not> IS_BASIC (word_of_int x)" "U16_IS_SINGLE (word_of_int x)" "uint (word_of_int x :: u16) = x"
      using assms(1,2)
      by (simp_all add: utf16_encode_def IS_BASIC_def scalar16_def word_less_def uint_u16_of_int U16_IS_SINGLE_def surrogate_iff not_less)
    then show ?thesis using bmp by (simp add: collect_step_def flag_at_def utf16_encode_def entry_def)
  next
    case supp
    then have x: "0x10000 \<le> x" "x \<le> 0x10ffff" using assms(1) by (simp_all add: scalar16_def)
    have src: "src = pre @ U16_LEAD x # U16_TRAIL x # post" using assms(2) supp by (simp add: utf16_encode_def)
    have "\<not> IS_BASIC (U16_LEAD x)" "\<not> U16_IS_SINGLE (U16_LEAD x)"
      using lead_trail_of(3) [OF x] by (simp_all add: lead_iff IS_BASIC_def word_less_def U16_IS_SINGLE_def surrogate_iff)
    moreover have "rd src (int (length pre) + 1) = Some (U16_TRAIL x)" unfolding src by (simp add: rd_def nth_append nat_add_distrib)
    ultimately show ?thesis using lead_trail_of [OF x] supp unfolding src
      by (simp add: collect_step_def flag_at_def utf16_encode_def entry_def)
  qed
qed

lemma collect_ok:
  assumes cap: "destCapacity \<le> int (length dest0)"
  shows "\<forall>c \<in> set (ys @ xs). scalar16 c \<Longrightarrow> length (ys @ xs) \<le> 200 \<Longrightarrow> src = utf16 (ys @ xs) \<Longrightarrow>
    collect src (int (length src)) None destCapacity (int (length (utf16 ys))) (output_in dest0 destCapacity (basics ys))
      (int (length (basics ys))) (map entry ys) =
    Some (output_in dest0 destCapacity (basics (ys @ xs)), Inr (int (length (basics (ys @ xs))), map entry (ys @ xs)))"
proof (induction xs arbitrary: ys)
  case Nil
  then show ?case by (subst collect.simps) (simp add: input_ends_def)
next
  case (Cons x xs)
  have x: "scalar16 x" "src = utf16 ys @ utf16_encode x @ utf16 xs" using Cons.prems by simp_all
  have "utf16_encode x \<noteq> []" using scalar_ends [OF x(1)] by simp
  then have "0 < length (utf16_encode x)" by simp
  then have more: "\<not> int (length src) \<le> int (length (utf16 ys))" unfolding x(2) length_append of_nat_add by linarith
  have "map entry ys @ [entry x] = map entry (ys @ [x])" "basics ys @ basics [x] = basics (ys @ [x])"
    "utf16 ys @ utf16_encode x = utf16 (ys @ [x])" by simp_all
  note step = collect_step_ok [OF x cap, of "basics ys", unfolded this]
  have room: "length ys \<noteq> 200" using Cons.prems(2) by simp
  have "collect src (int (length src)) None destCapacity (int (length (utf16 ys))) (output_in dest0 destCapacity (basics ys))
      (int (length (basics ys))) (map entry ys) =
    collect src (int (length src)) None destCapacity (int (length (utf16 (ys @ [x])))) (output_in dest0 destCapacity (basics (ys @ [x])))
      (int (length (basics (ys @ [x])))) (map entry (ys @ [x]))"
    using more room
    by (subst collect.simps) (simp add: input_ends_def step MAX_CP_COUNT_def del: utf16_simps(3) basics_simps(2) length_append)
  also have "\<dots> = Some (output_in dest0 destCapacity (basics ((ys @ [x]) @ xs)), Inr (int (length (basics ((ys @ [x]) @ xs))), map entry ((ys @ [x]) @ xs)))"
    by (rule Cons.IH) (use Cons.prems in simp_all)
  finally show ?case by simp
qed

text \<open>The error code of a string that ends at \<open>len\<close> in a buffer with \<open>destCapacity\<close> units.\<close>

definition ended :: "nat \<Rightarrow> int \<Rightarrow> UErrorCode" where
  "ended len destCapacity = (if int len < destCapacity then U_ZERO_ERROR
     else if int len = destCapacity then U_STRING_NOT_TERMINATED_WARNING else U_BUFFER_OVERFLOW_ERROR)"

lemma finish_string_ok:
  assumes "destCapacity \<le> int (length dest0)"
  shows "finish_string (Some x) (output_in dest0 destCapacity out) destCapacity (int (length out)) U_ZERO_ERROR =
    Some (Some (output_in dest0 destCapacity (out @ [0])), int (length out), ended (length out) destCapacity)"
proof (cases "int (length out) < destCapacity")
  case True
  then show ?thesis using put_unit_ok [OF assms, of out 0] by (simp add: finish_string_def u_terminateUChars_def put_unit_def ended_def U_SUCCESS_def)
next
  case False
  then have "take (nat destCapacity) (out @ [0]) = take (nat destCapacity) out" by simp
  then show ?thesis using False by (simp add: finish_string_def u_terminateUChars_def ended_def output_in_def U_SUCCESS_def)
qed

lemma find_delimiter_back:
  "j \<le> length s \<Longrightarrow> DELIMITER \<notin> set s \<Longrightarrow> find_delimiter (A @ s) (int (length A + j)) = find_delimiter (A @ s) (int (length A))"
proof (induction j)
  case (Suc j)
  then have "s ! j \<in> set s" by simp
  then have "s ! j \<noteq> DELIMITER" using Suc.prems(2) by metis
  moreover have "rd (A @ s) (int (length A + Suc j) - 1) = Some (s ! j)" using Suc.prems(1) by (simp add: rd_def nth_append nat_add_distrib)
  moreover have "int (length A + Suc j) - 1 = int (length A + j)" by simp
  ultimately have "find_delimiter (A @ s) (int (length A + Suc j)) = find_delimiter (A @ s) (int (length A + j))"
    by (subst find_delimiter.simps) simp
  then show ?case using Suc by simp
qed simp

lemma find_delimiter_ok:
  assumes "DELIMITER \<notin> set s"
  shows "find_delimiter s (int (length s)) = Some 0" "find_delimiter (B @ DELIMITER # s) (int (length (B @ DELIMITER # s))) = Some (int (length B))"
proof -
  show "find_delimiter s (int (length s)) = Some 0"
    using find_delimiter_back [OF order_refl assms, of "[]"] by (simp add: find_delimiter.simps [of s 0])
  have "find_delimiter ((B @ [DELIMITER]) @ s) (int (length (B @ [DELIMITER]))) = Some (int (length B))"
    by (subst find_delimiter.simps) (simp add: rd_def nth_append)
  then show "find_delimiter (B @ DELIMITER # s) (int (length (B @ DELIMITER # s))) = Some (int (length B))"
    using find_delimiter_back [OF order_refl assms, of "B @ [DELIMITER]"] by simp
qed

lemma copy_basic_ok:
  "j \<le> length src \<Longrightarrow> destCapacity \<le> int (length D) \<Longrightarrow>
   \<exists>ok D'. copy_basic src destCapacity (int j) D None = Some (ok, D', None) \<and> length D' = length D \<and>
     (ok \<longleftrightarrow> (\<forall>u \<in> set (take j src). u < 0x80)) \<and> (ok \<longrightarrow> int j \<le> destCapacity \<longrightarrow> D' = take j src @ drop j D)"
proof (induction j arbitrary: D)
  case 0
  show ?case by (subst copy_basic.simps, intro exI [of _ True] exI [of _ D]) simp
next
  case (Suc j)
  have r: "rd src (int j) = Some (src ! j)" using Suc.prems(1) by simp
  show ?case
  proof (cases "IS_BASIC (src ! j)")
    case False
    then have "\<not> (\<forall>u \<in> set (take (Suc j) src). u < 0x80)" using Suc.prems(1) by (simp add: take_Suc_conv_app_nth IS_BASIC_def)
    moreover have "copy_basic src destCapacity (int (Suc j)) D None = Some (False, D, None)"
      using r False by (subst copy_basic.simps) simp
    ultimately show ?thesis by blast
  next
    case True
    define D1 where "D1 = (if int j < destCapacity then D[j := src ! j] else D)"
    have len: "length D1 = length D" by (simp add: D1_def)
    then obtain ok D' where IH: "copy_basic src destCapacity (int j) D1 None = Some (ok, D', None)" "length D' = length D1"
      "ok \<longleftrightarrow> (\<forall>u \<in> set (take j src). u < 0x80)" "ok \<longrightarrow> int j \<le> destCapacity \<longrightarrow> D' = take j src @ drop j D1"
      using Suc.IH [of D1] Suc.prems by auto
    have step: "copy_basic src destCapacity (int (Suc j)) D None = copy_basic src destCapacity (int j) D1 None"
      using r True Suc.prems(2) by (subst copy_basic.simps) (simp add: D1_def)
    have "D' = take (Suc j) src @ drop (Suc j) D" if "ok" "int (Suc j) \<le> destCapacity"
      using IH(4) that Suc.prems by (simp add: D1_def take_Suc_conv_app_nth Cons_nth_drop_Suc [symmetric])
    moreover have "ok \<longleftrightarrow> (\<forall>u \<in> set (take (Suc j) src). u < 0x80)"
      using IH(3) True Suc.prems(1) by (simp add: take_Suc_conv_app_nth IS_BASIC_def)
    ultimately show ?thesis using step IH(1,2) len by auto
  qed
qed

lemma output_in_prefix: "int (length out) \<le> destCapacity \<Longrightarrow> output_in dest0 destCapacity out = out @ drop (length out) dest0"
  by (simp add: output_in_def overwrite_def)

lemma widths_filter: "widths (filter P cs) \<le> widths cs"
proof (induction cs)
  case (Cons c cs)
  then show ?case using width16_pos(1) [of c] by (simp add: widths_def)
qed simp

lemma encode_ok:
  assumes cps: "\<forall>c \<in> set cps. scalar16 c" "length cps \<le> 200"
  shows "\<exists>s S. (\<forall>u \<in> set s. u < 0x80 \<and> u \<noteq> DELIMITER) \<and> reads s (filter (\<lambda>c. c < 0x80) cps, 0x80, 0, INITIAL_BIAS) (cps, S) \<and>
    (\<forall>dest0 destCapacity p. destCapacity \<le> int (length dest0) \<longrightarrow> p = basics cps @ (if basics cps = [] then [] else [DELIMITER]) @ s \<longrightarrow>
      u_strToPunycode (Some (utf16 cps)) (int (length (utf16 cps))) (Some dest0) destCapacity None U_ZERO_ERROR =
        Some (Some (output_in dest0 destCapacity (p @ [0])), int (length p), ended (length p) destCapacity))"
proof -
  define b where "b = int (length (basics cps))"
  have b: "b = int (length (filter (\<lambda>c. c < 0x80) cps))" by (simp add: b_def length_basics)
  have "enc_ok 0x80 b (filter (\<lambda>c. c < 0x80) cps) 0 0x80 0 0" by (simp add: enc_ok_def b)
  from encode_loop_ok [OF cps _ this, of INITIAL_BIAS] obtain s S where
    loop: "\<And>dest0 destCapacity out. destCapacity \<le> int (length dest0) \<Longrightarrow>
      encode_loop (map entry cps) b destCapacity INITIAL_N (output_in dest0 destCapacity out) (int (length out)) 0 INITIAL_BIAS b =
      Some (output_in dest0 destCapacity (out @ s), Inr (int (length (out @ s))))"
    and s: "reads s (filter (\<lambda>c. c < 0x80) cps, 0x80, 0, INITIAL_BIAS) (cps, S)" "\<forall>u \<in> set s. u < 0x80 \<and> u \<noteq> DELIMITER"
    unfolding b [symmetric] INITIAL_N_def by auto
  have "u_strToPunycode (Some (utf16 cps)) (int (length (utf16 cps))) (Some dest0) destCapacity None U_ZERO_ERROR =
        Some (Some (output_in dest0 destCapacity (p @ [0])), int (length p), ended (length p) destCapacity)"
    if cap: "destCapacity \<le> int (length dest0)" and p: "p = basics cps @ (if basics cps = [] then [] else [DELIMITER]) @ s" for dest0 destCapacity p
  proof -
    define out where "out = basics cps @ (if basics cps = [] then [] else [DELIMITER])"
    have c: "collect (utf16 cps) (int (length (utf16 cps))) None destCapacity 0 dest0 0 [] =
        Some (output_in dest0 destCapacity (basics cps), Inr (b, map entry cps))"
      using collect_ok [OF cap, of "[]" cps] cps by (simp add: b_def)
    have d: "(if b > 0 then do { dest \<leftarrow> put_unit (output_in dest0 destCapacity (basics cps)) destCapacity b DELIMITER; Some (dest, b + 1) }
        else Some (output_in dest0 destCapacity (basics cps), b)) = Some (output_in dest0 destCapacity out, int (length out))"
      using put_unit_ok [OF cap, of "basics cps" DELIMITER] by (simp add: b_def out_def)
    have "p = out @ s" by (simp add: p out_def)
    then show ?thesis using loop [OF cap, of out] finish_string_ok [OF cap, of dest0 p]
      by (simp add: u_strToPunycode_def c d U_FAILURE_def)
  qed
  then show ?thesis using s by blast
qed


section \<open>Decoding any input\<close>

lemma get_integer_total:
  "0 \<le> inp \<Longrightarrow> srcLength \<le> int (length src) \<Longrightarrow> 1 \<le> w \<Longrightarrow> 0 \<le> i \<Longrightarrow> i \<le> 0x7fffffff \<Longrightarrow>
   (\<exists>e. get_integer src srcLength bias k i w inp = Some (Inl e) \<and> U_FAILURE e) \<or>
   (\<exists>i' inp'. get_integer src srcLength bias k i w inp = Some (Inr (i', inp')) \<and> i \<le> i' \<and> i' \<le> 0x7fffffff)"
proof (induction src srcLength bias k i w inp rule: get_integer.induct)
  case (1 src srcLength bias k i w inp)
  show ?case
  proof (cases "srcLength \<le> inp")
    case True
    then show ?thesis by (subst (1 2) get_integer.simps) (simp add: U_FAILURE_def)
  next
    case False
    then obtain c where c: "rd src inp = Some c" using "1.prems"(1,2) by (cases "rd src inp") (auto simp: rd_None_iff)
    have "length basicToDigit = 256" by (simp add: basicToDigit_def)
    then obtain v where v: "rd basicToDigit (uint c mod 256) = Some v" by (cases "rd basicToDigit (uint c mod 256)") (auto simp: rd_None_iff)
    define t where "t = threshold k bias"
    have t: "1 \<le> t" "t \<le> 26" using threshold_bounds [of k bias] by (simp_all add: t_def)
    have step: "get_integer src srcLength bias k i w inp =
        (if v < 0 then Some (Inl U_INVALID_CHAR_FOUND)
         else if v > (0x7fffffff - i) div w then Some (Inl U_ILLEGAL_CHAR_FOUND)
         else if v < t then Some (Inr (i + v * w, inp + 1))
         else if w > 0x7fffffff div (BASE - t) then Some (Inl U_ILLEGAL_CHAR_FOUND)
         else get_integer src srcLength bias (k + BASE) (i + v * w) (w * (BASE - t)) (inp + 1))"
      using False by (subst get_integer.simps) (simp add: c v Let_def t_def)
    show ?thesis
    proof (cases "v < 0 \<or> v > (0x7fffffff - i) div w")
      case True
      then show ?thesis unfolding step by (auto simp: U_FAILURE_def)
    next
      case ok: False
      then have "v * w \<le> (0x7fffffff - i) div w * w" using "1.prems"(3) by (intro mult_right_mono) auto
      also have "\<dots> \<le> 0x7fffffff - i"
        using minus_mod_eq_div_mult [of "0x7fffffff - i" w] "1.prems"(3) pos_mod_sign [of w "0x7fffffff - i"] by linarith
      finally have sum: "i + v * w \<le> 0x7fffffff" "i \<le> i + v * w" using ok "1.prems"(3) by simp_all
      have "1 * 1 \<le> w * (BASE - t)" using t "1.prems"(3) by (intro mult_mono) (auto simp: BASE_def)
      then have IH: "\<not> v < t \<Longrightarrow> \<not> w > 0x7fffffff div (BASE - t) \<Longrightarrow>
        (\<exists>e. get_integer src srcLength bias (k + BASE) (i + v * w) (w * (BASE - t)) (inp + 1) = Some (Inl e) \<and> U_FAILURE e) \<or>
        (\<exists>i' inp'. get_integer src srcLength bias (k + BASE) (i + v * w) (w * (BASE - t)) (inp + 1) = Some (Inr (i', inp')) \<and>
          i + v * w \<le> i' \<and> i' \<le> 0x7fffffff)"
        unfolding t_def using "1.IH" [OF _ c v _ _ refl refl] False ok "1.prems" sum by (simp add: t_def)
      show ?thesis using ok sum IH unfolding step by (auto simp: U_FAILURE_def dest: order_trans [OF sum(2)])
    qed
  qed
qed

text \<open>
  The decoder when it is at index \<open>inp\<close>: what it has written is a text of code points that are not surrogates, or the output is
  full, and then it only counts.
\<close>

definition text_so_far :: "u16 list \<Rightarrow> int \<Rightarrow> decoder \<Rightarrow> bool" where
  "text_so_far dest0 destCapacity d \<longleftrightarrow>
     (\<exists>F. (\<forall>c \<in> set F. scalar16 c) \<and> out_ok dest0 d F \<and> widths F \<le> destCapacity \<and> dec_cpCount d = int (length F)) \<or>
     destCapacity < dec_destLength d \<and> dec_flags d = None \<and> (\<exists>D. dec_dest d = Some D \<and> length D = length dest0)"

definition counters_ok :: "int \<Rightarrow> decoder \<Rightarrow> bool" where
  "counters_ok inp d \<longleftrightarrow> 0 \<le> dec_cpCount d \<and> dec_cpCount d \<le> inp \<and> 0 \<le> dec_n d \<and> 0 \<le> dec_i d \<and> dec_i d \<le> dec_cpCount d"

lemma widths_count: "int (length F) \<le> widths F"
proof (induction F)
  case (Cons c F)
  then show ?case using width16_pos(2) [of c] by (simp add: widths_def)
qed (simp add: widths_def)

lemma insert_cp_total:
  assumes d: "text_so_far dest0 destCapacity (d\<lparr>dec_cpCount := dec_cpCount d - 1\<rparr>)" and cap: "destCapacity \<le> int (length dest0)" "destCapacity < 1000000000"
    and i: "0 \<le> dec_i d" "dec_i d < dec_cpCount d" and n: "scalar16 (dec_n d)" and inp: "1 \<le> inp" "inp \<le> int (length src)"
  shows "\<exists>d'. insert_cp src destCapacity inp d = Some d' \<and> text_so_far dest0 destCapacity d' \<and>
    dec_cpCount d' = dec_cpCount d \<and> dec_n d' = dec_n d \<and> dec_bias d' = dec_bias d \<and> dec_i d' = dec_i d"
proof -
  have w: "U16_LENGTH (dec_n d) = width16 (dec_n d)" using n by (simp add: scalar16_def U16_LENGTH_width)
  have same: "dec_i d' = dec_i d" if "insert_cp src destCapacity inp d = Some d'" for d'
    using that by (auto simp: insert_cp_def bind_Some_iff Let_def split: option.splits if_splits)
  consider (fits) F where "\<forall>c \<in> set F. scalar16 c" "out_ok dest0 d F" "widths F \<le> destCapacity" "dec_cpCount d = int (length F) + 1"
    | (full) D where "destCapacity < dec_destLength d" "dec_flags d = None" "dec_dest d = Some D" "length D = length dest0"
    using d by (auto simp: text_so_far_def out_ok_def)
  then show ?thesis
  proof cases
    case (fits F)
    have len: "length F < 1000000000" using widths_count [of F] fits(3) cap(2) by simp
    have at: "dec_i d = int (nat (dec_i d))" "nat (dec_i d) \<le> length F" using i fits(4) by simp_all
    show ?thesis
    proof (cases "widths F + width16 (dec_n d) \<le> destCapacity")
      case True
      then obtain d' where d': "insert_cp src destCapacity inp d = Some d'" "out_ok dest0 d' (insert_at (nat (dec_i d)) (dec_n d) F)"
        "dec_cpCount d' = dec_cpCount d" "dec_n d' = dec_n d" "dec_bias d' = dec_bias d"
        using insert_cp_ok [OF fits(1) len fits(2) refl n at _ cap(1) inp] by blast
      have set: "set (insert_at (nat (dec_i d)) (dec_n d) F) = insert (dec_n d) (set F)"
        by (simp add: insert_at_def) (metis Un_insert_right append_take_drop_id set_append)
      have "widths (insert_at (nat (dec_i d)) (dec_n d) F) = widths F + width16 (dec_n d)"
        using widths_append [of "take (nat (dec_i d)) F" "drop (nat (dec_i d)) F"] by (simp add: insert_at_def widths_def)
      moreover have "length (insert_at (nat (dec_i d)) (dec_n d) F) = Suc (length F)" using at(2) by (simp add: insert_at_def)
      ultimately have "text_so_far dest0 destCapacity d'"
        using d'(2,3) True set fits(1,4) n unfolding text_so_far_def
        by (intro disjI1 exI [of _ "insert_at (nat (dec_i d)) (dec_n d) F"]) simp
      then show ?thesis using d' same by blast
    next
      case False
      have "length (utf16 F @ drop (length (utf16 F)) dest0) = length dest0"
        using fits(1,3) cap(1) utf16_length [of F] by (simp add: scalar16_def)
      then show ?thesis using False fits(2) w by (auto simp: insert_cp_def text_so_far_def out_ok_def)
    qed
  next
    case full
    moreover have "0 < width16 (dec_n d)" by (rule width16_pos)
    ultimately show ?thesis using w by (auto simp: insert_cp_def text_so_far_def)
  qed
qed

lemma decode_step_total:
  assumes d: "text_so_far dest0 destCapacity d" "counters_ok inp d" and cap: "destCapacity \<le> int (length dest0)" "destCapacity < 1000000000"
    and src: "0 \<le> inp" "inp < int (length src)" "int (length src) \<le> 0x7fffffff"
  shows "(\<exists>e. decode_step src (int (length src)) destCapacity inp d = Some (Inl e) \<and> U_FAILURE e) \<or>
    (\<exists>d' inp'. decode_step src (int (length src)) destCapacity inp d = Some (Inr (d', inp')) \<and>
      text_so_far dest0 destCapacity d' \<and> counters_ok inp' d')"
proof -
  have c: "0 \<le> dec_cpCount d" "dec_cpCount d \<le> inp" "0 \<le> dec_n d" "0 \<le> dec_i d" "dec_i d \<le> dec_cpCount d"
    using d(2) by (simp_all add: counters_ok_def)
  then have "dec_i d \<le> 0x7fffffff" using src by simp
  with get_integer_total [OF src(1) order_refl order_refl c(4)]
  consider (error) e where "get_integer src (int (length src)) (dec_bias d) BASE (dec_i d) 1 inp = Some (Inl e)" "U_FAILURE e"
    | (ok) i inp' where "get_integer src (int (length src)) (dec_bias d) BASE (dec_i d) 1 inp = Some (Inr (i, inp'))" "dec_i d \<le> i"
    by blast
  then show ?thesis
  proof cases
    case error
    then show ?thesis by (simp add: decode_step_def)
  next
    case ok
    have inp': "inp < inp'" "inp' \<le> int (length src)" using get_integer_next [OF ok(1)] by simp_all
    define h where "h = dec_cpCount d + 1"
    define d1 where "d1 = d\<lparr>dec_cpCount := h, dec_bias := adaptBias (i - dec_i d) h (dec_i d = 0), dec_n := dec_n d + i div h, dec_i := i mod h\<rparr>"
    have step: "decode_step src (int (length src)) destCapacity inp d =
        (if i div h > 0x7fffffff - dec_n d then Some (Inl U_ILLEGAL_CHAR_FOUND)
         else if dec_n d + i div h > 0x10ffff \<or> (0xd800 \<le> dec_n d + i div h \<and> dec_n d + i div h \<le> 0xdfff) then Some (Inl U_ILLEGAL_CHAR_FOUND)
         else do { d \<leftarrow> insert_cp src destCapacity inp' d1; Some (Inr (d\<lparr>dec_i := i mod h + 1\<rparr>, inp')) })"
      using ok(1) by (simp add: decode_step_def Let_def h_def d1_def)
    show ?thesis
    proof (cases "i div h > 0x7fffffff - dec_n d \<or> dec_n d + i div h > 0x10ffff \<or> (0xd800 \<le> dec_n d + i div h \<and> dec_n d + i div h \<le> 0xdfff)")
      case True
      then show ?thesis unfolding step by (auto simp: U_FAILURE_def)
    next
      case False
      have h: "0 < h" "0 \<le> i" using c ok(2) by (simp_all add: h_def)
      then have q: "0 \<le> i div h" "0 \<le> i mod h" "i mod h < h" by (simp_all add: pos_imp_zdiv_nonneg_iff)
      have n: "scalar16 (dec_n d1)" "0 \<le> dec_n d1" using False c(3) q(1) by (simp_all add: d1_def scalar16_def) auto
      have "text_so_far dest0 destCapacity (d1\<lparr>dec_cpCount := dec_cpCount d1 - 1\<rparr>)"
        using d(1) by (simp add: text_so_far_def out_ok_def d1_def h_def)
      then obtain d' where d': "insert_cp src destCapacity inp' d1 = Some d'" "text_so_far dest0 destCapacity d'" "dec_cpCount d' = h"
        "dec_n d' = dec_n d1" "dec_i d' = i mod h"
        using insert_cp_total [OF _ cap, of d1 inp' src] q n src inp' by (auto simp: d1_def)
      have "counters_ok inp' (d'\<lparr>dec_i := i mod h + 1\<rparr>)"
        using d'(3,4) n q c(1,2) inp'(1) by (simp add: counters_ok_def h_def)
      moreover have "text_so_far dest0 destCapacity (d'\<lparr>dec_i := i mod h + 1\<rparr>)" using d'(2) by (simp add: text_so_far_def out_ok_def)
      ultimately show ?thesis unfolding step using False d'(1) by (auto simp: U_FAILURE_def)
    qed
  qed
qed

lemma decode_loop_total:
  "text_so_far dest0 destCapacity d \<Longrightarrow> counters_ok inp d \<Longrightarrow> destCapacity \<le> int (length dest0) \<Longrightarrow> destCapacity < 1000000000 \<Longrightarrow>
   0 \<le> inp \<Longrightarrow> int (length src) \<le> 0x7fffffff \<Longrightarrow>
   \<exists>d' e. decode_loop src (int (length src)) destCapacity inp d = Some (d', e) \<and> text_so_far dest0 destCapacity d' \<and> (\<forall>x. e = Some x \<longrightarrow> U_FAILURE x)"
proof (induction "nat (int (length src) - inp)" arbitrary: inp d rule: less_induct)
  case less
  show ?case
  proof (cases "inp < int (length src)")
    case False
    then show ?thesis using less.prems by (subst decode_loop.simps) simp
  next
    case True
    from decode_step_total [OF less.prems(1-5) True less.prems(6)]
    consider (error) e where "decode_step src (int (length src)) destCapacity inp d = Some (Inl e)" "U_FAILURE e"
      | (ok) d' inp' where "decode_step src (int (length src)) destCapacity inp d = Some (Inr (d', inp'))"
        "text_so_far dest0 destCapacity d'" "counters_ok inp' d'" by blast
    then show ?thesis
    proof cases
      case error
      then show ?thesis using True less.prems by (subst decode_loop.simps) simp
    next
      case ok
      have nxt: "inp < inp'" "inp' \<le> int (length src)" using decode_step_next [OF ok(1)] by simp_all
      then have "nat (int (length src) - inp') < nat (int (length src) - inp)" using True by simp
      from less.hyps [OF this ok(2,3) less.prems(3,4) _ less.prems(6)] nxt(1) less.prems(5) show ?thesis
        using True ok(1) by (subst decode_loop.simps) simp
    qed
  qed
qed

text \<open>The state of the decoder in front of the first integer.\<close>

definition start_dec :: "u16 list \<Rightarrow> int \<Rightarrow> decoder" where
  "start_dec dest basicLength = \<lparr>dec_dest = Some dest, dec_flags = None, dec_destLength = basicLength, dec_cpCount = basicLength,
     dec_first = 1000000000, dec_n = INITIAL_N, dec_i = 0, dec_bias = INITIAL_BIAS\<rparr>"

lemma basics_text: "\<forall>u \<in> set us. u < 0x80 \<Longrightarrow> utf16 (map uint us) = us \<and> widths (map uint us) = int (length us) \<and> (\<forall>c \<in> uint ` set us. 0 \<le> c \<and> c < 0x80)"
  by (induction us) (auto simp: utf16_encode_def widths_def width16_def word_less_def)

lemma start_dec_ok:
  assumes "\<forall>c \<in> set F. 0 \<le> c \<and> c < 0x80"
  shows "dec_ok dest0 (start_dec (utf16 F @ drop (length (utf16 F)) dest0) (int (length F))) F 0x80 0 INITIAL_BIAS"
proof -
  have "\<forall>c \<in> set F. c < 0x10000" using assms by auto
  then have "widths F = int (length F)" by (rule bmp_widths)
  then show ?thesis using assms by (auto simp: dec_ok_def out_ok_def first_ok_def start_dec_def INITIAL_N_def)
qed

lemma decode_ok:
  assumes cps: "\<forall>c \<in> set cps. scalar16 c"
    and s: "\<forall>u \<in> set s. u < 0x80 \<and> u \<noteq> DELIMITER" "reads s (filter (\<lambda>c. c < 0x80) cps, 0x80, 0, INITIAL_BIAS) (cps, S)"
    and p: "p = basics cps @ (if basics cps = [] then [] else [DELIMITER]) @ s"
    and cap: "int (length (utf16 cps)) \<le> destCapacity" "destCapacity \<le> int (length dest0)"
  shows "u_strFromPunycode (Some p) (int (length p)) (Some dest0) destCapacity None U_ZERO_ERROR =
    Some (Some (output_in dest0 destCapacity (utf16 cps @ [0])), None, int (length (utf16 cps)), ended (length (utf16 cps)) destCapacity)"
proof -
  define F where "F = filter (\<lambda>c. c < 0x80) cps"
  define b where "b = length (basics cps)"
  have pos: "\<forall>c \<in> set cps. 0 \<le> c" using cps by (simp add: scalar16_def)
  have F: "basics cps = utf16 F" "b = length F" "\<forall>c \<in> set F. 0 \<le> c \<and> c < 0x80"
    using pos by (auto simp: F_def basics_def [of cps]) (simp add: b_def length_basics)
  have wid: "widths cps \<le> destCapacity" "widths F \<le> widths cps" using utf16_length [OF pos] cap(1) widths_filter by (simp_all add: F_def)
  moreover have "widths F = int b" using F(3) unfolding F(2) by (intro bmp_widths) auto
  ultimately have bcap: "int b \<le> destCapacity" by simp
  have nd: "DELIMITER \<notin> set s" using s(1) by blast
  have delim: "find_delimiter p (int (length p)) = Some (int b)"
    using find_delimiter_ok [OF nd] by (cases "basics cps = []") (simp_all add: p b_def)
  have tk: "take b p = utf16 F" "b \<le> length p" "length (utf16 F) = b" by (simp_all add: p b_def F(1) [symmetric])
  have "\<forall>u \<in> set (take b p). u < 0x80" using basics_units [OF pos] tk(1) F(1) by simp
  then have copy: "copy_basic p destCapacity (int b) dest0 None = Some (True, utf16 F @ drop (length (utf16 F)) dest0, None)"
    using copy_basic_ok [OF tk(2) cap(2)] bcap tk(1,3) by auto
  define d where "d = start_dec (utf16 F @ drop (length (utf16 F)) dest0) (int b)"
  have dok: "dec_ok dest0 d F 0x80 0 INITIAL_BIAS" unfolding d_def F(2) by (rule start_dec_ok) (rule F(3))
  define pre where "pre = basics cps @ (if basics cps = [] then [] else [DELIMITER])"
  obtain n' i' bias' where S: "S = (n', i', bias')" by (cases S) auto
  have ps: "pre @ s @ [] = p" "pre @ s = p" by (simp_all add: p pre_def)
  obtain d' where d': "dec_ok dest0 d' cps n' i' bias'"
    "decode_loop p (int (length p)) destCapacity (int (length pre)) d = decode_loop p (int (length p)) destCapacity (int (length p)) d'"
    using readsD [OF s(2) [unfolded F_def [symmetric] S] dok wid(1) cap(2), of pre "[]"] unfolding ps by blast
  have "(if int b > 0 then int b + 1 else 0) = int (length pre)" by (simp add: pre_def b_def)
  then have loop: "decode_loop p (int (length p)) destCapacity (if int b > 0 then int b + 1 else 0) d = Some (d', None)"
    using d'(2) by (simp add: decode_loop.simps [of p _ _ "int (length p)"])
  have out: "dec_dest d' = Some (output_in dest0 destCapacity (utf16 cps))" "dec_flags d' = None" "dec_destLength d' = int (length (utf16 cps))"
    using d'(1) output_in_prefix [OF cap(1)] utf16_length [OF pos] by (simp_all add: dec_ok_def out_ok_def)
  show ?thesis
    using delim copy loop out finish_string_ok [OF cap(2), of "output_in dest0 destCapacity (utf16 cps)" "utf16 cps"]
    by (simp add: u_strFromPunycode_def U_FAILURE_def d_def start_dec_def)
qed

lemma find_delimiter_total:
  "j \<le> length src \<Longrightarrow> \<exists>k. find_delimiter src (int j) = Some (int k) \<and> (k < j \<or> k = 0)"
proof (induction j)
  case (Suc j)
  have "rd src (int (Suc j) - 1) = Some (src ! j)" using Suc.prems by simp
  then have "find_delimiter src (int (Suc j)) = (if src ! j = DELIMITER then Some (int j) else find_delimiter src (int j))"
    by (subst find_delimiter.simps) simp
  moreover obtain k where "find_delimiter src (int j) = Some (int k)" "k < j \<or> k = 0" using Suc by auto
  ultimately show ?case by (cases "src ! j = DELIMITER") auto
qed (simp add: find_delimiter.simps)

text \<open>
  A fault: a unit is cut to 8 bits before it is looked up, so that units beyond ASCII are taken for digits, here U+0161 for \<open>a\<close>.
\<close>

lemma get_integer_cuts_units: "get_integer [0x161] 1 INITIAL_BIAS BASE 0 1 0 = Some (Inr (0, 1)) \<and> get_integer [0x61] 1 INITIAL_BIAS BASE 0 1 0 = Some (Inr (0, 1))"
  by code_simp

text \<open>
  C15: whatever the input is, the decoder stays inside its arrays and returns, and when it reports no error the output fits in the
  buffer and is a text without unpaired surrogates.
\<close>

theorem punycode_decode_safe:
  assumes "destCapacity \<le> int (length dest)" "destCapacity < 1000000000" "int (length src) \<le> 0x7fffffff" "0 \<le> destCapacity"
  shows "\<exists>dest' len e. u_strFromPunycode (Some src) (int (length src)) (Some dest) destCapacity None U_ZERO_ERROR = Some (Some dest', None, len, e) \<and>
    length dest' = length dest \<and> (\<not> U_FAILURE e \<longrightarrow> 0 \<le> len \<and> len \<le> destCapacity \<and> (\<forall>c \<in> set (code_points (seg dest' 0 len)). scalar16 c))"
proof -
  obtain k where k: "find_delimiter src (int (length src)) = Some (int k)" "k < length src \<or> k = 0"
    using find_delimiter_total [OF order_refl] by blast
  then have kl: "k \<le> length src" by auto
  obtain ok D where D: "copy_basic src destCapacity (int k) dest None = Some (ok, D, None)" "length D = length dest"
    "ok \<longleftrightarrow> (\<forall>u \<in> set (take k src). u < 0x80)" "ok \<longrightarrow> int k \<le> destCapacity \<longrightarrow> D = take k src @ drop k dest"
    using copy_basic_ok [OF kl assms(1)] by blast
  show ?thesis
  proof (cases ok)
    case False
    then show ?thesis using k(1) D(1,2) by (simp add: u_strFromPunycode_def U_FAILURE_def)
  next
    case True
    define d where "d = start_dec D (int k)"
    define inp where "inp = (if int k > 0 then int k + 1 else 0)"
    have start: "text_so_far dest destCapacity d"
    proof (cases "int k \<le> destCapacity")
      case fits: True
      define F where "F = map uint (take k src)"
      have F: "utf16 F = take k src" "widths F = int k" "\<forall>c \<in> set F. 0 \<le> c \<and> c < 0x80" "length F = k"
        using basics_text [of "take k src"] True D(3) kl by (auto simp: F_def)
      then have "dec_ok dest d F 0x80 0 INITIAL_BIAS" using start_dec_ok [OF F(3), of dest] True fits D(4) kl by (simp add: d_def)
      then show ?thesis using F fits unfolding text_so_far_def dec_ok_def by (intro disjI1 exI [of _ F]) (auto simp: scalar16_def)
    next
      case False
      then show ?thesis using D(2) by (simp add: text_so_far_def d_def start_dec_def)
    qed
    have "counters_ok inp d" "0 \<le> inp" by (auto simp: counters_ok_def d_def start_dec_def INITIAL_N_def inp_def)
    then obtain d' e where loop: "decode_loop src (int (length src)) destCapacity inp d = Some (d', e)" "text_so_far dest destCapacity d'"
      "\<forall>x. e = Some x \<longrightarrow> U_FAILURE x"
      using decode_loop_total [OF start _ assms(1,2) _ assms(3)] by blast
    have run: "u_strFromPunycode (Some src) (int (length src)) (Some dest) destCapacity None U_ZERO_ERROR =
      (case e of Some e \<Rightarrow> Some (dec_dest d', dec_flags d', 0, e)
       | None \<Rightarrow> do {
           (dest, len, err) \<leftarrow> finish_string (dec_dest d') (case dec_dest d' of None \<Rightarrow> [] | Some x \<Rightarrow> x) destCapacity (dec_destLength d') U_ZERO_ERROR;
           Some (dest, dec_flags d', len, err) })"
      using k(1) D(1) True loop(1) by (simp add: u_strFromPunycode_def U_FAILURE_def d_def inp_def start_dec_def)
    from loop(2) consider (fits) F where "\<forall>c \<in> set F. scalar16 c" "out_ok dest d' F" "widths F \<le> destCapacity"
      | (full) D where "destCapacity < dec_destLength d'" "dec_flags d' = None" "dec_dest d' = Some D" "length D = length dest"
      by (auto simp: text_so_far_def)
    then show ?thesis
    proof cases
      case (fits F)
      have w: "int (length (utf16 F)) = widths F" using fits(1) by (intro utf16_length) (simp add: scalar16_def)
      then have out: "dec_dest d' = Some (output_in dest destCapacity (utf16 F))" "dec_flags d' = None" "dec_destLength d' = int (length (utf16 F))"
        using fits(2,3) output_in_prefix [of "utf16 F" destCapacity dest] by (simp_all add: out_ok_def)
      have len: "length (output_in dest destCapacity x) = length dest" for x
        using assms(1) unfolding output_in_def by (intro overwrite_length) auto
      have "seg (output_in dest destCapacity (utf16 F @ [0])) 0 (int (length (utf16 F))) = utf16 F"
        using w fits(3) by (simp add: output_in_def overwrite_def seg_def)
      then have "\<forall>c \<in> set (code_points (seg (output_in dest destCapacity (utf16 F @ [0])) 0 (int (length (utf16 F))))). scalar16 c"
        using code_points_utf16 [OF fits(1)] fits(1) by simp
      then show ?thesis unfolding run using finish_string_ok [OF assms(1), of "output_in dest destCapacity (utf16 F)" "utf16 F"] out len loop(3) w fits(3)
        by (cases e) auto
    next
      case full
      then show ?thesis unfolding run using loop(3) assms(4)
        by (cases e) (auto simp: finish_string_def u_terminateUChars_def U_SUCCESS_def U_FAILURE_def)
    qed
  qed
qed

theorem punycode_decode_safe_witness:
  "\<exists>dest' len e. u_strFromPunycode (Some [0x161, 0x21]) 2 (Some [9, 9]) 2 None U_ZERO_ERROR = Some (Some dest', None, len, e) \<and> length dest' = 2"
  using punycode_decode_safe [of 2 "[9, 9]" "[0x161, 0x21]"] by auto

text \<open>
  C14: a text of at most 200 code points, none of them an unpaired surrogate, is encoded to a string \<open>p\<close> of ASCII units, whatever
  the buffer is: what fits in it is written, the length is that of \<open>p\<close>, and the error code says whether it fitted. Decoding \<open>p\<close>
  gives the text back.
\<close>

theorem punycode_roundtrip:
  assumes "\<forall>c \<in> set (code_points us). scalar16 c" "length (code_points us) \<le> 200"
  shows "\<exists>p. (\<forall>u \<in> set p. u < 0x80) \<and>
    (\<forall>dest destCapacity. destCapacity \<le> int (length dest) \<longrightarrow>
      u_strToPunycode (Some us) (int (length us)) (Some dest) destCapacity None U_ZERO_ERROR =
        Some (Some (output_in dest destCapacity (p @ [0])), int (length p), ended (length p) destCapacity)) \<and>
    (\<forall>dest destCapacity. int (length us) \<le> destCapacity \<longrightarrow> destCapacity \<le> int (length dest) \<longrightarrow>
      u_strFromPunycode (Some p) (int (length p)) (Some dest) destCapacity None U_ZERO_ERROR =
        Some (Some (output_in dest destCapacity (us @ [0])), None, int (length us), ended (length us) destCapacity))"
proof -
  obtain s S where s: "\<forall>u \<in> set s. u < 0x80 \<and> u \<noteq> DELIMITER"
    "reads s (filter (\<lambda>c. c < 0x80) (code_points us), 0x80, 0, INITIAL_BIAS) (code_points us, S)"
    "\<And>dest0 destCapacity p. destCapacity \<le> int (length dest0) \<Longrightarrow>
      p = basics (code_points us) @ (if basics (code_points us) = [] then [] else [DELIMITER]) @ s \<Longrightarrow>
      u_strToPunycode (Some (utf16 (code_points us))) (int (length (utf16 (code_points us)))) (Some dest0) destCapacity None U_ZERO_ERROR =
        Some (Some (output_in dest0 destCapacity (p @ [0])), int (length p), ended (length p) destCapacity)"
    using encode_ok [OF assms] by blast
  define p where "p = basics (code_points us) @ (if basics (code_points us) = [] then [] else [DELIMITER]) @ s"
  have "\<forall>u \<in> set p. u < 0x80" using s(1) basics_units [of "code_points us"] assms(1) by (auto simp: p_def scalar16_def DELIMITER_def)
  then show ?thesis
    using s(3) [OF _ p_def] decode_ok [OF assms(1) s(1,2) p_def] unfolding utf16_code_points by blast
qed

theorem punycode_roundtrip_witness:
  "\<exists>p. (\<forall>u \<in> set p. u < 0x80) \<and>
    u_strFromPunycode (Some p) (int (length p)) (Some [9, 9, 9, 9]) 4 None U_ZERO_ERROR =
      Some (Some [0x62, 0xfc, 0x63, 0], None, 3, U_ZERO_ERROR)"
proof -
  have c: "code_points [0x62, 0xfc, 0x63 :: u16] = [0x62, 0xfc, 0x63]" by (simp add: U16_IS_LEAD_def)
  obtain p where p: "\<forall>u \<in> set p. u < 0x80" "\<forall>dest destCapacity. 3 \<le> destCapacity \<longrightarrow> destCapacity \<le> int (length dest) \<longrightarrow>
      u_strFromPunycode (Some p) (int (length p)) (Some dest) destCapacity None U_ZERO_ERROR =
        Some (Some (output_in dest destCapacity ([0x62, 0xfc, 0x63] @ [0])), None, 3, ended 3 destCapacity)"
    using punycode_roundtrip [of "[0x62, 0xfc, 0x63]", unfolded c] by (auto simp: scalar16_def eval_nat_numeral)
  from p(2) have "u_strFromPunycode (Some p) (int (length p)) (Some [9, 9, 9, 9]) 4 None U_ZERO_ERROR =
        Some (Some (output_in [9, 9, 9, 9] 4 ([0x62, 0xfc, 0x63] @ [0])), None, 3, ended 3 4)"
    by (elim allE [of _ "[9, 9, 9, 9]"] allE [of _ 4]) simp
  then show ?thesis using p(1) by (auto simp: output_in_def overwrite_def ended_def)
qed

end
