(* ===== verification/UstrCompare.thy ===== *)
theory UstrCompare
  imports Ustring "HOL-Library.Signed_Division"
begin

text \<open>
  Comparison of strings of 16-bit units in the order of their units and of their code points, and counting of code points
  (\<open>ustring.cpp\<close>). A string is the array of the units from its pointer on; a length of \<open>-1\<close> stands for a string that ends with a
  NUL. Whether two pointers are equal is an argument of the functions that compare them.
\<close>

section \<open>Comparison\<close>

text \<open>
  The loops over the units that the strings have in common: up to \<open>limit\<close> if there is one, with the result \<open>lengthResult\<close>, and
  up to the NUL if \<open>nul\<close> holds, with the result 0. Otherwise the units that differ and their index.
\<close>

function compare_loop :: "u16 list \<Rightarrow> u16 list \<Rightarrow> int option \<Rightarrow> int \<Rightarrow> bool \<Rightarrow> int \<Rightarrow> (int + u16 \<times> u16 \<times> int) option" where
  "compare_loop s1 s2 limit lengthResult nul i =
     (if limit = Some i then Some (Inl lengthResult)
      else do {
        c1 \<leftarrow> rd s1 i;
        c2 \<leftarrow> rd s2 i;
        if c1 \<noteq> c2 then Some (Inr (c1, c2, i))
        else if nul \<and> c1 = 0 then Some (Inl 0)
        else compare_loop s1 s2 limit lengthResult nul (i + 1) })"
  by pat_completeness auto
termination by (relation "measure (\<lambda>(s1, s2, l, r, n, i). nat (int (length s1) - i))") (auto simp: rd_Some_iff)

declare compare_loop.simps [simp del]

definition u_strcmp :: "u16 list \<Rightarrow> u16 list \<Rightarrow> int option" where
  "u_strcmp s1 s2 = do {
     r \<leftarrow> compare_loop s1 s2 None 0 True 0;
     Some (case r of Inl r \<Rightarrow> r | Inr (c1, c2, i) \<Rightarrow> uint c1 - uint c2) }"

text \<open>Whether the surrogate \<open>c\<close> at index \<open>i\<close> is part of a pair.\<close>

definition in_pair :: "u16 list \<Rightarrow> int \<Rightarrow> int option \<Rightarrow> u16 \<Rightarrow> bool option" where
  "in_pair s i limit c = do {
     lead \<leftarrow> (if c \<le> 0xdbff \<and> limit \<noteq> Some (i + 1) then map_option U16_IS_TRAIL (rd s (i + 1)) else Some False);
     if lead then Some True
     else if U16_IS_TRAIL c \<and> i \<noteq> 0 then map_option U16_IS_LEAD (rd s (i - 1)) else Some False }"

definition fix_up :: "u16 list \<Rightarrow> int \<Rightarrow> int option \<Rightarrow> u16 \<Rightarrow> u16 option" where
  "fix_up s i limit c = map_option (\<lambda>p. if p then c else c - 0x2800) (in_pair s i limit c)"

definition difference :: "u16 list \<Rightarrow> u16 list \<Rightarrow> int \<Rightarrow> int option \<Rightarrow> int option \<Rightarrow> u16 \<Rightarrow> u16 \<Rightarrow> bool \<Rightarrow> int option" where
  "difference s1 s2 i limit1 limit2 c1 c2 codePointOrder =
     (if c1 \<ge> 0xd800 \<and> c2 \<ge> 0xd800 \<and> codePointOrder then do {
        c1 \<leftarrow> fix_up s1 i limit1 c1;
        c2 \<leftarrow> fix_up s2 i limit2 c2;
        Some (uint c1 - uint c2) }
      else Some (uint c1 - uint c2))"

definition uprv_strCompare :: "bool \<Rightarrow> u16 list \<Rightarrow> int \<Rightarrow> u16 list \<Rightarrow> int \<Rightarrow> bool \<Rightarrow> bool \<Rightarrow> int option" where
  "uprv_strCompare same s1 length1 s2 length2 strncmpStyle codePointOrder =
     (if length1 < 0 \<and> length2 < 0 then
        if same then Some 0
        else do {
          r \<leftarrow> compare_loop s1 s2 None 0 True 0;
          case r of Inl r \<Rightarrow> Some r | Inr (c1, c2, i) \<Rightarrow> difference s1 s2 i None None c1 c2 codePointOrder }
      else if strncmpStyle then
        if same then Some 0
        else do {
          r \<leftarrow> compare_loop s1 s2 (Some length1) 0 True 0;
          case r of Inl r \<Rightarrow> Some r | Inr (c1, c2, i) \<Rightarrow> difference s1 s2 i (Some length1) (Some length1) c1 c2 codePointOrder }
      else do {
        length1 \<leftarrow> (if length1 < 0 then u_strlen s1 else Some length1);
        length2 \<leftarrow> (if length2 < 0 then u_strlen s2 else Some length2);
        let (lengthResult, limit) = (if length1 < length2 then (-1, length1) else if length1 = length2 then (0, length1) else (1, length2));
        if same then Some lengthResult
        else do {
          r \<leftarrow> compare_loop s1 s2 (Some limit) lengthResult False 0;
          case r of Inl r \<Rightarrow> Some r | Inr (c1, c2, i) \<Rightarrow> difference s1 s2 i (Some length1) (Some length2) c1 c2 codePointOrder } })"

definition u_strCompare :: "bool \<Rightarrow> u16 list option \<Rightarrow> int \<Rightarrow> u16 list option \<Rightarrow> int \<Rightarrow> bool \<Rightarrow> int option" where
  "u_strCompare same s1 length1 s2 length2 codePointOrder =
     (case (s1, s2) of
        (Some s1, Some s2) \<Rightarrow>
          if length1 < -1 \<or> length2 < -1 then Some 0 else uprv_strCompare same s1 length1 s2 length2 False codePointOrder
      | _ \<Rightarrow> Some 0)"

definition u_strcmpCodePointOrder :: "bool \<Rightarrow> u16 list \<Rightarrow> u16 list \<Rightarrow> int option" where
  "u_strcmpCodePointOrder same s1 s2 = uprv_strCompare same s1 (-1) s2 (-1) False True"

function strncmp_loop :: "u16 list \<Rightarrow> u16 list \<Rightarrow> int \<Rightarrow> int \<Rightarrow> int option" where
  "strncmp_loop s1 s2 i n = do {
     c1 \<leftarrow> rd s1 i;
     c2 \<leftarrow> rd s2 i;
     let rc = uint c1 - uint c2;
     if rc \<noteq> 0 \<or> c1 = 0 \<or> n - 1 = 0 then Some rc else strncmp_loop s1 s2 (i + 1) (n - 1) }"
  by pat_completeness auto
termination by (relation "measure (\<lambda>(s1, s2, i, n). nat (int (length s1) - i))") (auto simp: rd_Some_iff)

definition u_strncmp :: "u16 list \<Rightarrow> u16 list \<Rightarrow> int \<Rightarrow> int option" where
  "u_strncmp s1 s2 n = (if n > 0 then strncmp_loop s1 s2 0 n else Some 0)"

definition u_strncmpCodePointOrder :: "bool \<Rightarrow> u16 list \<Rightarrow> u16 list \<Rightarrow> int \<Rightarrow> int option" where
  "u_strncmpCodePointOrder same s1 s2 n = uprv_strCompare same s1 n s2 n True True"

function memcmp_loop :: "u16 list \<Rightarrow> u16 list \<Rightarrow> int \<Rightarrow> int \<Rightarrow> int option" where
  "memcmp_loop buf1 buf2 i limit =
     (if i < limit then do {
        c1 \<leftarrow> rd buf1 i;
        c2 \<leftarrow> rd buf2 i;
        let result = uint c1 - uint c2;
        if result \<noteq> 0 then Some result else memcmp_loop buf1 buf2 (i + 1) limit }
      else Some 0)"
  by pat_completeness auto
termination by (relation "measure (\<lambda>(s1, s2, i, n). nat (n - i))") auto

declare strncmp_loop.simps [simp del] memcmp_loop.simps [simp del]

definition u_memcmp :: "u16 list \<Rightarrow> u16 list \<Rightarrow> int \<Rightarrow> int option" where
  "u_memcmp buf1 buf2 count = (if count > 0 then memcmp_loop buf1 buf2 0 count else Some 0)"

definition u_memcmpCodePointOrder :: "bool \<Rightarrow> u16 list \<Rightarrow> u16 list \<Rightarrow> int \<Rightarrow> int option" where
  "u_memcmpCodePointOrder same s1 s2 count = uprv_strCompare same s1 count s2 count False True"

section \<open>Counting\<close>

function count_len :: "u16 list \<Rightarrow> int \<Rightarrow> int \<Rightarrow> int \<Rightarrow> int option" where
  "count_len s i len count =
     (if len > 0 then do {
        c \<leftarrow> rd s i;
        pair \<leftarrow> (if U16_IS_LEAD c \<and> len \<ge> 2 then map_option U16_IS_TRAIL (rd s (i + 1)) else Some False);
        if pair then count_len s (i + 2) (len - 2) (count + 1) else count_len s (i + 1) (len - 1) (count + 1) }
      else Some count)"
  by pat_completeness auto
termination by (relation "measure (\<lambda>(s, i, len, count). nat len)") auto

function count_nul :: "u16 list \<Rightarrow> int \<Rightarrow> int \<Rightarrow> int option" where
  "count_nul s i count = do {
     c \<leftarrow> rd s i;
     if c = 0 then Some count
     else do {
       pair \<leftarrow> (if U16_IS_LEAD c then map_option U16_IS_TRAIL (rd s (i + 1)) else Some False);
       count_nul s (if pair then i + 2 else i + 1) (count + 1) } }"
  by pat_completeness auto
termination by (relation "measure (\<lambda>(s, i, count). nat (int (length s) - i))") (auto simp: rd_Some_iff split: if_splits)

definition u_countChar32 :: "u16 list option \<Rightarrow> int \<Rightarrow> int option" where
  "u_countChar32 s len =
     (case s of None \<Rightarrow> Some 0
      | Some s \<Rightarrow> if len < -1 then Some 0 else if len \<ge> 0 then count_len s 0 len 0 else count_nul s 0 0)"

function more_nul :: "u16 list \<Rightarrow> int \<Rightarrow> int \<Rightarrow> bool option" where
  "more_nul s i number = do {
     c \<leftarrow> rd s i;
     if c = 0 then Some False
     else if number = 0 then Some True
     else do {
       pair \<leftarrow> (if U16_IS_LEAD c then map_option U16_IS_TRAIL (rd s (i + 1)) else Some False);
       more_nul s (if pair then i + 2 else i + 1) (number - 1) } }"
  by pat_completeness auto
termination by (relation "measure (\<lambda>(s, i, count). nat (int (length s) - i))") (auto simp: rd_Some_iff split: if_splits)

function more_len :: "u16 list \<Rightarrow> int \<Rightarrow> int \<Rightarrow> int \<Rightarrow> int \<Rightarrow> bool option" where
  "more_len s i limit number maxSupplementary =
     (if i = limit then Some False
      else if number = 0 then Some True
      else do {
        c \<leftarrow> rd s i;
        let i = i + 1;
        pair \<leftarrow> (if U16_IS_LEAD c \<and> i \<noteq> limit then map_option U16_IS_TRAIL (rd s i) else Some False);
        if pair then
          if maxSupplementary - 1 \<le> 0 then Some False else more_len s (i + 1) limit (number - 1) (maxSupplementary - 1)
        else more_len s i limit (number - 1) maxSupplementary })"
  by pat_completeness auto
termination by (relation "measure (\<lambda>(s, i, limit, n, m). nat (int (length s) - i))") (auto simp: rd_Some_iff)

declare count_len.simps [simp del] count_nul.simps [simp del] more_nul.simps [simp del] more_len.simps [simp del]

definition u_strHasMoreChar32Than :: "u16 list option \<Rightarrow> int \<Rightarrow> int \<Rightarrow> bool option" where
  "u_strHasMoreChar32Than s len number =
     (if number < 0 then Some True
      else case s of None \<Rightarrow> Some False
      | Some s \<Rightarrow>
          if len < -1 then Some False
          else if len = -1 then more_nul s 0 number
          else if (len + 1) sdiv 2 > number then Some True
          else
            let maxSupplementary = len - number in
            if maxSupplementary \<le> 0 then Some False else more_len s 0 len number maxSupplementary)"

section \<open>The order of code points\<close>

text \<open>The sign of the lexicographic comparison of two lists.\<close>

fun lex_sign :: "int list \<Rightarrow> int list \<Rightarrow> int" where
  "lex_sign [] [] = 0"
| "lex_sign [] (y # ys) = -1"
| "lex_sign (x # xs) [] = 1"
| "lex_sign (x # xs) (y # ys) = (if x < y then -1 else if y < x then 1 else lex_sign xs ys)"

lemma lex_sign_append [simp]: "lex_sign (zs @ xs) (zs @ ys) = lex_sign xs ys"
  by (induction zs) auto

lemma lex_sign_same [simp]: "lex_sign xs xs = 0"
  by (induction xs) auto

lemma lex_sign_swap: "lex_sign ys xs = - lex_sign xs ys"
  by (induction xs ys rule: lex_sign.induct) auto

text \<open>The value of a unit \<open>c\<close> that \<open>xs\<close> stands in front of and \<open>ys\<close> behind.\<close>

definition pair_here :: "u16 list \<Rightarrow> u16 \<Rightarrow> u16 list \<Rightarrow> bool" where
  "pair_here xs c ys \<longleftrightarrow> (U16_IS_LEAD c \<and> ys \<noteq> [] \<and> U16_IS_TRAIL (hd ys)) \<or> (U16_IS_TRAIL c \<and> xs \<noteq> [] \<and> U16_IS_LEAD (last xs))"

definition fixed :: "u16 list \<Rightarrow> u16 \<Rightarrow> u16 list \<Rightarrow> int" where
  "fixed xs c ys = (if pair_here xs c ys then uint c else uint c - 0x2800)"

definition order_value :: "u16 list \<Rightarrow> u16 \<Rightarrow> u16 list \<Rightarrow> u16 \<Rightarrow> u16 list \<Rightarrow> int" where
  "order_value xs a as b bs =
     (if uint a \<ge> 0xd800 \<and> uint b \<ge> 0xd800 then fixed xs a as - fixed xs b bs else uint a - uint b)"

text \<open>The first code point of a text that begins with \<open>c\<close>.\<close>

definition first_cp :: "u16 \<Rightarrow> u16 list \<Rightarrow> int" where
  "first_cp c ys = (if U16_IS_LEAD c \<and> ys \<noteq> [] \<and> U16_IS_TRAIL (hd ys) then U16_GET_SUPPLEMENTARY c (hd ys) else uint c)"

lemma code_points_first: "\<exists>cs. code_points (c # ys) = first_cp c ys # cs"
  by (cases ys) (auto simp: first_cp_def)

lemma supplementary_less:
  assumes "U16_IS_LEAD a" "U16_IS_TRAIL t" "U16_IS_LEAD b" "U16_IS_TRAIL u"
  shows "uint a < uint b \<Longrightarrow> U16_GET_SUPPLEMENTARY a t < U16_GET_SUPPLEMENTARY b u"
    "a = b \<Longrightarrow> uint t < uint u \<Longrightarrow> U16_GET_SUPPLEMENTARY a t < U16_GET_SUPPLEMENTARY b u"
  using assms by (auto simp: U16_GET_SUPPLEMENTARY_def push_bit_eq_mult lead_iff)

text \<open>No pair is cut in front of the units.\<close>

lemma order_plain:
  assumes "a \<noteq> b" "\<not> (U16_IS_TRAIL a \<and> xs \<noteq> [] \<and> U16_IS_LEAD (last xs))" "\<not> (U16_IS_TRAIL b \<and> xs \<noteq> [] \<and> U16_IS_LEAD (last xs))"
  shows "sgn (order_value xs a as b bs) = lex_sign (code_points (a # as)) (code_points (b # bs))"
proof -
  obtain cs ds where cs: "code_points (a # as) = first_cp a as # cs" "code_points (b # bs) = first_cp b bs # ds"
    using code_points_first by blast
  have pa: "pair_here xs a as \<longleftrightarrow> U16_IS_LEAD a \<and> as \<noteq> [] \<and> U16_IS_TRAIL (hd as)" using assms(2) by (auto simp: pair_here_def)
  have pb: "pair_here xs b bs \<longleftrightarrow> U16_IS_LEAD b \<and> bs \<noteq> [] \<and> U16_IS_TRAIL (hd bs)" using assms(3) by (auto simp: pair_here_def)
  have ab: "uint a < uint b \<or> uint b < uint a" using assms(1) by (metis linorder_neq_iff word_uint_eq_iff)
  have u: "uint a < 65536" "uint b < 65536" "0 \<le> uint a" "0 \<le> uint b" using uint_u16_bounds by auto
  consider (both) "pair_here xs a as" "pair_here xs b bs" | (left) "pair_here xs a as" "\<not> pair_here xs b bs"
    | (right) "\<not> pair_here xs a as" "pair_here xs b bs" | (none) "\<not> pair_here xs a as" "\<not> pair_here xs b bs" by blast
  then show ?thesis
  proof cases
    case both
    then have p: "U16_IS_LEAD a" "U16_IS_TRAIL (hd as)" "U16_IS_LEAD b" "U16_IS_TRAIL (hd bs)" "first_cp a as = U16_GET_SUPPLEMENTARY a (hd as)"
      "first_cp b bs = U16_GET_SUPPLEMENTARY b (hd bs)" using pa pb by (simp_all add: first_cp_def)
    have "order_value xs a as b bs = uint a - uint b" using both p by (simp add: order_value_def fixed_def)
    then show ?thesis using ab supplementary_less(1) [OF p(1-4)] supplementary_less(1) [OF p(3,4,1,2)] cs p(5,6) by (auto simp: sgn_if)
  next
    case left
    then have p: "U16_IS_LEAD a" "U16_IS_TRAIL (hd as)" "first_cp a as = U16_GET_SUPPLEMENTARY a (hd as)" "first_cp b bs = uint b"
      using pa pb by (auto simp: first_cp_def)
    then have "first_cp b bs < first_cp a as" "0xd800 \<le> uint a" using supplementary_bounds [OF p(1,2)] u by (auto simp: lead_iff)
    then show ?thesis using left cs u by (auto simp: order_value_def fixed_def sgn_if)
  next
    case right
    then have p: "U16_IS_LEAD b" "U16_IS_TRAIL (hd bs)" "first_cp b bs = U16_GET_SUPPLEMENTARY b (hd bs)" "first_cp a as = uint a"
      using pa pb by (auto simp: first_cp_def)
    then have "first_cp a as < first_cp b bs" "0xd800 \<le> uint b" using supplementary_bounds [OF p(1,2)] u by (auto simp: lead_iff)
    then show ?thesis using right cs u by (auto simp: order_value_def fixed_def sgn_if)
  next
    case none
    then have "first_cp b bs = uint b" "first_cp a as = uint a" using pa pb by (auto simp: first_cp_def)
    then show ?thesis using none cs ab by (auto simp: order_value_def fixed_def sgn_if)
  qed
qed


lemma code_points_no_pair: "\<not> (U16_IS_LEAD l \<and> U16_IS_TRAIL a) \<Longrightarrow> code_points (l # a # as) = uint l # code_points (a # as)"
  by auto

lemma order_trail:
  assumes "U16_IS_LEAD l" "U16_IS_TRAIL a" "\<not> U16_IS_TRAIL b"
  shows "sgn (order_value (zs @ [l]) a as b bs) = lex_sign (code_points (l # a # as)) (code_points (l # b # bs))"
proof -
  have "pair_here (zs @ [l]) a as" using assms(1,2) by (simp add: pair_here_def)
  moreover have "pair_here (zs @ [l]) b bs \<Longrightarrow> U16_IS_LEAD b" using assms(3) by (simp add: pair_here_def)
  ultimately have "sgn (order_value (zs @ [l]) a as b bs) = 1"
    using assms(2) uint_u16_bounds [of b] by (auto simp: order_value_def fixed_def lead_iff sgn_if)
  moreover have "uint l < U16_GET_SUPPLEMENTARY l a" using supplementary_bounds [OF assms(1,2)] uint_u16_bounds [of l] by simp
  ultimately show ?thesis using assms by (simp add: code_points_no_pair)
qed

lemma order_correct:
  assumes "a \<noteq> b"
  shows "sgn (order_value xs a as b bs) = lex_sign (code_points (xs @ a # as)) (code_points (xs @ b # bs))"
proof (cases "xs \<noteq> [] \<and> U16_IS_LEAD (last xs)")
  case False
  then have "code_points (xs @ c # cs) = code_points xs @ code_points (c # cs)" for c cs
    by (intro code_points_append) (auto simp: splits_pair_def)
  then show ?thesis using order_plain [OF assms, of xs as bs] False by auto
next
  case True
  then obtain zs l where xs: "xs = zs @ [l]" and l: "U16_IS_LEAD l" by (metis append_butlast_last_id)
  have split: "code_points (xs @ c # cs) = code_points zs @ code_points (l # c # cs)" for c cs
  proof -
    have "\<not> U16_IS_TRAIL l" using l not_lead_trail by blast
    then show ?thesis unfolding xs using code_points_append [of zs "l # c # cs"] by (auto simp: splits_pair_def)
  qed
  consider (both) "U16_IS_TRAIL a" "U16_IS_TRAIL b" | (left) "U16_IS_TRAIL a" "\<not> U16_IS_TRAIL b"
    | (right) "\<not> U16_IS_TRAIL a" "U16_IS_TRAIL b" | (none) "\<not> U16_IS_TRAIL a" "\<not> U16_IS_TRAIL b" by blast
  then show ?thesis
  proof cases
    case both
    then have "pair_here xs a as" "pair_here xs b bs" using l by (simp_all add: xs pair_here_def)
    then have "order_value xs a as b bs = uint a - uint b" by (simp add: order_value_def fixed_def)
    moreover have "uint a < uint b \<or> uint b < uint a" using assms by (metis linorder_neq_iff word_uint_eq_iff)
    ultimately show ?thesis using supplementary_less(2) [OF l both(1) l both(2)] supplementary_less(2) [OF l both(2) l both(1)] both l
      unfolding split by (auto simp: sgn_if)
  next
    case left
    then show ?thesis using order_trail [OF l, of a b zs as bs] unfolding split by (simp add: xs)
  next
    case right
    have "order_value xs a as b bs = - order_value xs b bs a as" by (auto simp: order_value_def)
    moreover have "sgn (order_value xs b bs a as) = lex_sign (code_points (l # b # bs)) (code_points (l # a # as))"
      unfolding xs by (rule order_trail [OF l right(2,1)])
    ultimately show ?thesis unfolding split lex_sign_append using lex_sign_swap [of "code_points (l # b # bs)"] by (simp add: sgn_minus)
  next
    case none
    then show ?thesis using order_plain [OF assms, of xs as bs] unfolding split by (simp add: code_points_no_pair)
  qed
qed

text \<open>A text is less than a longer one that begins with it.\<close>

lemma lex_prefix: "lex_sign (code_points xs) (code_points (xs @ b # bs)) = -1"
proof (cases "xs \<noteq> [] \<and> U16_IS_LEAD (last xs) \<and> U16_IS_TRAIL b")
  case False
  then have "code_points (xs @ b # bs) = code_points xs @ code_points (b # bs)" by (intro code_points_append) (auto simp: splits_pair_def)
  moreover obtain cs where "code_points (b # bs) = first_cp b bs # cs" using code_points_first by blast
  ultimately show ?thesis using lex_sign_append [of "code_points xs" "[]" "first_cp b bs # cs"] by simp
next
  case True
  then obtain zs l where xs: "xs = zs @ [l]" and l: "U16_IS_LEAD l" "U16_IS_TRAIL b" by (metis append_butlast_last_id)
  have nt: "\<not> U16_IS_TRAIL l" using l(1) not_lead_trail by blast
  have "code_points (xs @ b # bs) = code_points zs @ U16_GET_SUPPLEMENTARY l b # code_points bs"
    unfolding xs using code_points_append [of zs "l # b # bs"] nt l by (auto simp: splits_pair_def)
  moreover have "code_points xs = code_points zs @ [uint l]"
    unfolding xs using code_points_append [of zs "[l]"] nt by (auto simp: splits_pair_def)
  moreover have "uint l < U16_GET_SUPPLEMENTARY l b" using supplementary_bounds [OF l] uint_u16_bounds [of l] by simp
  ultimately show ?thesis by simp
qed

lemma lex_units: "lex_sign (map uint (xs :: u16 list)) (map uint (xs @ b # bs)) = -1"
  using lex_sign_append [of "map uint xs" "[]" "uint b # map uint bs"] by simp

section \<open>The comparison functions\<close>

text \<open>The lists have a first unit where they differ, or one of them begins with the other.\<close>

lemma first_difference:
  obtains (diff) zs a as b bs where "xs = zs @ a # as" "ys = zs @ b # bs" "a \<noteq> b"
    | (eq) "xs = ys" | (less) b bs where "ys = xs @ b # bs" | (greater) a as where "xs = ys @ a # as"
proof (induction xs ys arbitrary: thesis rule: list_induct2')
  case (4 x xs y ys)
  show ?case
  proof (cases "x = y")
    case False
    then show ?thesis using 4(2) [of "[]" x xs y ys] by simp
  next
    case True
    show ?thesis
    proof (rule 4(1))
      fix zs a as b bs assume "xs = zs @ a # as" "ys = zs @ b # bs" "a \<noteq> b"
      then show thesis using 4(2) [of "x # zs" a as b bs] True by simp
    qed (use 4(3-5) True in auto)
  qed
qed auto

lemma compare_loop_prefix:
  "\<forall>k. 0 \<le> k \<and> k < int (length zs) \<longrightarrow> limit \<noteq> Some (int i + k) \<Longrightarrow> nul \<longrightarrow> 0 \<notin> set zs \<Longrightarrow> length pre1 = i \<Longrightarrow> length pre2 = i \<Longrightarrow>
   compare_loop (pre1 @ zs @ r1) (pre2 @ zs @ r2) limit res nul (int i) =
   compare_loop (pre1 @ zs @ r1) (pre2 @ zs @ r2) limit res nul (int (i + length zs))"
proof (induction zs arbitrary: pre1 pre2 i)
  case (Cons z zs)
  have nl: "limit \<noteq> Some (int i)" using Cons.prems(1) by (elim allE [of _ 0]) simp
  have rds: "rd (pre1 @ (z # zs) @ r1) (int i) = Some z" "rd (pre2 @ (z # zs) @ r2) (int i) = Some z"
    using Cons.prems(3,4) by (simp_all add: nth_append)
  have nl': "limit \<noteq> Some (int (Suc i) + k)" if "0 \<le> k" "k < int (length zs)" for k
    using Cons.prems(1) that by (elim allE [of _ "k + 1"]) (simp add: add.commute add.left_commute)
  have "compare_loop ((pre1 @ [z]) @ zs @ r1) ((pre2 @ [z]) @ zs @ r2) limit res nul (int (Suc i)) =
    compare_loop ((pre1 @ [z]) @ zs @ r1) ((pre2 @ [z]) @ zs @ r2) limit res nul (int (Suc i + length zs))"
    by (rule Cons.IH) (use nl' Cons.prems(2-4) in auto)
  moreover have "compare_loop (pre1 @ (z # zs) @ r1) (pre2 @ (z # zs) @ r2) limit res nul (int i) =
      compare_loop (pre1 @ (z # zs) @ r1) (pre2 @ (z # zs) @ r2) limit res nul (int i + 1)"
    using nl rds Cons.prems(2) by (subst compare_loop.simps) (cases nul, simp_all)
  ultimately show ?case by (simp add: add.commute)
qed simp


lemma prefix_reached:
  assumes "\<forall>k. 0 \<le> k \<and> k < int (length zs) \<longrightarrow> limit \<noteq> Some k" "nul \<longrightarrow> 0 \<notin> set zs"
  shows "compare_loop (zs @ r1) (zs @ r2) limit res nul 0 = compare_loop (zs @ r1) (zs @ r2) limit res nul (int (length zs))"
  using compare_loop_prefix [of zs limit 0 nul "[]" "[]" r1 r2 res] assms by simp

text \<open>What a fix-up reads behind the text \<open>xs @ c # ys\<close> is no trail surrogate.\<close>

definition ends_ok :: "u16 list \<Rightarrow> u16 list \<Rightarrow> int option \<Rightarrow> bool" where
  "ends_ok xs rest limit \<longleftrightarrow> (case limit of None \<Rightarrow> \<exists>r. rest = 0 # r | Some n \<Rightarrow> int (length xs) = n \<or> int (length xs) < n \<and> (\<exists>r. rest = 0 # r))"

lemma in_pair_ok:
  assumes "0xd800 \<le> uint c" "ends_ok (xs @ c # ys) rest limit"
  shows "in_pair (xs @ c # ys @ rest) (int (length xs)) limit c = Some (pair_here xs c ys)"
proof -
  have lead: "c \<le> 0xdbff \<longleftrightarrow> U16_IS_LEAD c" using assms(1) by (simp add: lead_iff word_le_def) linarith
  have first: "(if c \<le> 0xdbff \<and> limit \<noteq> Some (int (length xs) + 1) then map_option U16_IS_TRAIL (rd (xs @ c # ys @ rest) (int (length xs) + 1))
      else Some False) = Some (U16_IS_LEAD c \<and> ys \<noteq> [] \<and> U16_IS_TRAIL (hd ys))"
  proof (cases ys)
    case Nil
    have "\<not> U16_IS_TRAIL 0" by (simp add: U16_IS_TRAIL_def)
    then show ?thesis using assms(2) Nil lead
      by (cases limit) (auto simp: ends_ok_def rd_def nth_append nat_add_distrib)
  next
    case (Cons y zs)
    then have "limit \<noteq> Some (int (length xs) + 1)" using assms(2) by (auto simp: ends_ok_def split: option.splits)
    moreover have "rd (xs @ c # ys @ rest) (int (length xs) + 1) = Some y" using Cons by (simp add: rd_def nth_append nat_add_distrib)
    ultimately show ?thesis using Cons lead by simp
  qed
  have behind: "U16_IS_TRAIL c \<and> int (length xs) \<noteq> 0 \<Longrightarrow> rd (xs @ c # ys @ rest) (int (length xs) - 1) = Some (last xs)"
    by (cases xs rule: rev_cases) (auto simp: rd_def nth_append)
  show ?thesis unfolding in_pair_def first using behind by (auto simp: pair_here_def)
qed

lemma difference_ok:
  assumes "ends_ok (xs @ a # as) r1 limit1" "ends_ok (xs @ b # bs) r2 limit2"
  shows "difference (xs @ a # as @ r1) (xs @ b # bs @ r2) (int (length xs)) limit1 limit2 a b codePointOrder =
    Some (if codePointOrder then order_value xs a as b bs else uint a - uint b)"
proof -
  have fx: "fix_up (xs @ c # ys @ rest) (int (length xs)) limit c = Some (if pair_here xs c ys then c else c - 0x2800)"
    "uint (if pair_here xs c ys then c else c - 0x2800) = fixed xs c ys"
    if "0xd800 \<le> uint c" "ends_ok (xs @ c # ys) rest limit" for c ys rest limit
    using in_pair_ok [OF that] that(1) uint_u16_bounds [of c] by (simp_all add: fix_up_def fixed_def uint_word_ariths)
  show ?thesis
  proof (cases "0xd800 \<le> uint a \<and> 0xd800 \<le> uint b")
    case True
    then show ?thesis using fx [OF _ assms(1)] fx [OF _ assms(2)] by (simp add: difference_def order_value_def word_le_def)
  qed (auto simp: difference_def order_value_def word_le_def)
qed

text \<open>The list that a text is compared as.\<close>

definition compared_as :: "bool \<Rightarrow> u16 list \<Rightarrow> int list" where
  "compared_as codePointOrder xs = (if codePointOrder then code_points xs else map uint xs)"

lemma sign_difference:
  assumes "a \<noteq> b"
  shows "sgn (if cpo then order_value xs a as b bs else uint a - uint b) = lex_sign (compared_as cpo (xs @ a # as)) (compared_as cpo (xs @ b # bs))"
proof -
  have "uint a < uint b \<or> uint b < uint a" using assms by (metis linorder_neq_iff word_uint_eq_iff)
  then show ?thesis using order_correct [OF assms, of xs as bs] by (auto simp: compared_as_def)
qed

lemma sign_prefix: "lex_sign (compared_as cpo xs) (compared_as cpo (xs @ b # bs)) = -1" "lex_sign (compared_as cpo (xs @ b # bs)) (compared_as cpo xs) = 1"
  using lex_prefix lex_units lex_sign_swap [of "compared_as cpo (xs @ b # bs)"] by (simp_all add: compared_as_def)

definition compare_core :: "u16 list \<Rightarrow> u16 list \<Rightarrow> int option \<Rightarrow> int \<Rightarrow> bool \<Rightarrow> int option \<Rightarrow> int option \<Rightarrow> bool \<Rightarrow> int option" where
  "compare_core s1 s2 limit res nul limit1 limit2 cpo = do {
     r \<leftarrow> compare_loop s1 s2 limit res nul 0;
     case r of Inl r \<Rightarrow> Some r | Inr (c1, c2, i) \<Rightarrow> difference s1 s2 i limit1 limit2 c1 c2 cpo }"

lemma compare_core_diff:
  assumes "A = zs @ a # as" "B = zs @ b # bs" "a \<noteq> b" "ends_ok A r1 limit1" "ends_ok B r2 limit2"
    and "\<forall>k. 0 \<le> k \<and> k \<le> int (length zs) \<longrightarrow> limit \<noteq> Some k" "nul \<longrightarrow> 0 \<notin> set zs"
  shows "\<exists>r. compare_core (A @ r1) (B @ r2) limit res nul limit1 limit2 cpo = Some r \<and> sgn r = lex_sign (compared_as cpo A) (compared_as cpo B)"
proof -
  have "compare_loop (A @ r1) (B @ r2) limit res nul 0 = compare_loop (A @ r1) (B @ r2) limit res nul (int (length zs))"
    using prefix_reached [of zs limit nul "a # as @ r1" "b # bs @ r2" res] assms(1,2,6,7) by simp
  also have "\<dots> = Some (Inr (a, b, int (length zs)))"
    using assms(1-3,6) by (subst compare_loop.simps) (simp add: nth_append)
  finally have "compare_core (A @ r1) (B @ r2) limit res nul limit1 limit2 cpo = Some (if cpo then order_value zs a as b bs else uint a - uint b)"
    using difference_ok [of zs a as r1 limit1 b bs r2 limit2 cpo] assms(1,2,4,5) by (simp add: compare_core_def)
  then show ?thesis using sign_difference [OF assms(3), of cpo zs as bs] assms(1,2) by blast
qed

text \<open>With strings that end with a NUL, at most at \<open>limit\<close>.\<close>

lemma compare_nul_ok:
  assumes "0 \<notin> set A" "0 \<notin> set B" "ends_ok A r1 limit" "ends_ok B r2 limit"
  shows "\<exists>r. compare_core (A @ r1) (B @ r2) limit 0 True limit limit cpo = Some r \<and> sgn r = lex_sign (compared_as cpo A) (compared_as cpo B)"
proof -
  have bound: "int (length A) \<le> n" "int (length B) \<le> n" if "limit = Some n" for n using assms(3,4) that by (auto simp: ends_ok_def)
  have early: "\<forall>k. 0 \<le> k \<and> k < int m \<longrightarrow> limit \<noteq> Some k" if "m \<le> length A \<or> m \<le> length B" for m
    using bound that by force
  show ?thesis
  proof (cases rule: first_difference [of A B, case_names diff eq less greater])
    case (diff zs a as b bs)
    show ?thesis
      by (rule compare_core_diff [OF diff assms(3,4)]) (use diff early [of "Suc (length zs)"] assms(1) in auto)
  next
    case eq
    have "compare_loop (A @ r1) (A @ r2) limit 0 True 0 = compare_loop (A @ r1) (A @ r2) limit 0 True (int (length A))"
      using prefix_reached [OF early [of "length A"], of True] assms(1) by simp
    also have "\<dots> = Some (Inl 0)"
    proof (cases "limit = Some (int (length A))")
      case False
      then obtain q1 q2 where "r1 = 0 # q1" "r2 = 0 # q2" using assms(3,4) eq by (auto simp: ends_ok_def split: option.splits)
      then show ?thesis using False by (subst compare_loop.simps) (simp add: nth_append)
    qed (subst compare_loop.simps, simp)
    finally show ?thesis using eq by (simp add: compare_core_def)
  next
    case (less b bs)
    have nl: "limit \<noteq> Some (int (length A))" using bound(2) less by auto
    then obtain q1 where q1: "r1 = 0 # q1" using assms(3) by (auto simp: ends_ok_def split: option.splits)
    have "compare_loop (A @ r1) (A @ b # bs @ r2) limit 0 True 0 = compare_loop (A @ r1) (A @ b # bs @ r2) limit 0 True (int (length A))"
      using prefix_reached [OF early [of "length A"], of True] assms(1) by simp
    also have "\<dots> = Some (Inr (0, b, int (length A)))"
      using nl assms(2) less by (subst compare_loop.simps) (auto simp: nth_append q1)
    finally have "compare_core (A @ r1) (B @ r2) limit 0 True limit limit cpo = Some (0 - uint b)"
      using less by (simp add: compare_core_def difference_def)
    moreover have "b \<noteq> 0" using assms(2) less by auto
    then have "uint b > 0" using uint_u16_bounds [of b] by (simp add: uint_0_iff order_less_le)
    ultimately show ?thesis using sign_prefix(1) [of cpo A b bs] less \<open>b \<noteq> 0\<close> by simp
  next
    case (greater a as)
    have nl: "limit \<noteq> Some (int (length B))" using bound(1) greater by auto
    then obtain q2 where q2: "r2 = 0 # q2" using assms(4) by (auto simp: ends_ok_def split: option.splits)
    have "compare_loop (B @ a # as @ r1) (B @ r2) limit 0 True 0 = compare_loop (B @ a # as @ r1) (B @ r2) limit 0 True (int (length B))"
      using prefix_reached [OF early [of "length B"], of True] assms(2) by simp
    also have "\<dots> = Some (Inr (a, 0, int (length B)))"
      using nl assms(1) greater by (subst compare_loop.simps) (auto simp: nth_append q2)
    finally have "compare_core (A @ r1) (B @ r2) limit 0 True limit limit cpo = Some (uint a - 0)"
      using greater by (simp add: compare_core_def difference_def)
    moreover have "a \<noteq> 0" using assms(1) greater by auto
    then have "uint a > 0" using uint_u16_bounds [of a] by (simp add: uint_0_iff order_less_le)
    ultimately show ?thesis using sign_prefix(2) [of cpo B a as] greater \<open>a \<noteq> 0\<close> by simp
  qed
qed

lemma compare_len_ok:
  assumes "(res, limit) = (if length A < length B then (-1, int (length A)) else if length A = length B then (0, int (length A)) else (1, int (length B)))"
  shows "\<exists>r. compare_core (A @ r1) (B @ r2) (Some limit) res False (Some (int (length A))) (Some (int (length B))) cpo = Some r \<and>
    sgn r = lex_sign (compared_as cpo A) (compared_as cpo B)"
proof (cases rule: first_difference [of A B, case_names diff eq less greater])
  case (diff zs a as b bs)
  show ?thesis by (rule compare_core_diff [OF diff]) (use diff assms in \<open>auto simp: ends_ok_def split: if_splits\<close>)
next
  case eq
  then have "compare_loop (A @ r1) (A @ r2) (Some limit) res False 0 = compare_loop (A @ r1) (A @ r2) (Some limit) res False (int (length A))"
    using assms by (intro prefix_reached) auto
  then show ?thesis using assms eq by (simp add: compare_core_def compare_loop.simps [of _ _ _ _ _ "int (length B)"])
next
  case (less b bs)
  then have "compare_loop (A @ r1) (A @ b # bs @ r2) (Some limit) res False 0 =
      compare_loop (A @ r1) (A @ b # bs @ r2) (Some limit) res False (int (length A))"
    using assms by (intro prefix_reached) auto
  then show ?thesis using assms less sign_prefix(1) [of cpo A b bs] by (simp add: compare_core_def compare_loop.simps [of _ _ _ _ _ "int (length A)"])
next
  case (greater a as)
  then have "compare_loop (B @ a # as @ r1) (B @ r2) (Some limit) res False 0 =
      compare_loop (B @ a # as @ r1) (B @ r2) (Some limit) res False (int (length B))"
    using assms by (intro prefix_reached) auto
  then show ?thesis using assms greater sign_prefix(2) [of cpo B a as] by (simp add: compare_core_def compare_loop.simps [of _ _ _ _ _ "int (length B)"])
qed


section \<open>Texts\<close>

text \<open>The text that a pointer and a length stand for; \<open>nul\<close> is the style of \<open>strncmp\<close>.\<close>

definition denotes :: "u16 list \<Rightarrow> int \<Rightarrow> bool \<Rightarrow> u16 list \<Rightarrow> bool" where
  "denotes s len nul A \<longleftrightarrow>
     (if len < 0 then 0 \<in> set s \<and> A = c_string s
      else if nul then (len \<le> int (length s) \<or> 0 \<in> set s) \<and> A = c_string (take (nat len) s)
      else len \<le> int (length s) \<and> A = take (nat len) s)"

lemma denotes_nul:
  assumes "denotes s len nul A" "len < 0 \<or> nul"
  shows "\<exists>r. s = A @ r \<and> 0 \<notin> set A \<and> ends_ok A r (if len < 0 then None else Some len)"
proof (cases "len < 0")
  case True
  then show ?thesis using assms(1) c_string_split [of s] by (auto simp: denotes_def ends_ok_def)
next
  case False
  define t where "t = take (nat len) s"
  have A: "A = c_string t" "len \<le> int (length s) \<or> 0 \<in> set s" using assms False by (simp_all add: denotes_def t_def)
  show ?thesis
  proof (cases "0 \<in> set t")
    case True
    then obtain r where r: "t = A @ 0 # r" "0 \<notin> set A" using c_string_split [of t] A(1) by auto
    have "length t \<le> nat len" by (simp add: t_def)
    then have "int (length A) < len" using False by (simp add: r(1))
    moreover have "s = A @ 0 # r @ drop (nat len) s" using r(1) append_take_drop_id [of "nat len" s] by (simp add: t_def)
    ultimately show ?thesis using r(2) False by (auto simp: ends_ok_def)
  next
    case no: False
    have "\<forall>c \<in> set t. c \<noteq> 0" using no by auto
    then have "A = t" unfolding A(1) c_string_def by (rule takeWhile_eq_all_conv [THEN iffD2])
    moreover have "len \<le> int (length s)"
    proof (rule ccontr)
      assume "\<not> len \<le> int (length s)"
      then have "t = s" by (simp add: t_def)
      then show False using no A(2) \<open>\<not> len \<le> int (length s)\<close> by simp
    qed
    ultimately show ?thesis using no False
      by (intro exI [of _ "drop (nat len) s"]) (simp add: t_def ends_ok_def)
  qed
qed

lemma denotes_len:
  assumes "denotes s len False A"
  shows "(if len < 0 then u_strlen s else Some len) = Some (int (length A)) \<and> s = A @ drop (length A) s"
proof (cases "len < 0")
  case True
  then have A: "A = c_string s" "0 \<in> set s" using assms by (simp_all add: denotes_def)
  then have "s = A @ drop (length A) s" using append_take_drop_id [of "length A" s] by (simp add: take_c_string)
  then show ?thesis using u_strlen_string [OF A(2)] True A(1) by simp
next
  case False
  then have "length A = nat len" "A = take (length A) s" using assms by (auto simp: denotes_def)
  then show ?thesis using False by (metis append_take_drop_id int_nat_eq not_less)
qed

lemma same_prefixes:
  assumes "s = A @ drop (length A) s" "s = B @ drop (length B) s"
  shows "lex_sign (compared_as cpo A) (compared_as cpo B) = (if length A < length B then -1 else if length A = length B then 0 else 1)"
proof -
  have t: "take (length A) s = A" "take (length B) s = B" using assms by (metis append_eq_conv_conj)+
  have longer: "\<exists>y ys. Y = X @ y # ys" if "length X < length Y" "take (length X) s = X" "take (length Y) s = Y" for X Y :: "u16 list"
  proof -
    have "take (length X) Y = X" using that(1,2) by (subst that(3) [symmetric]) (simp add: min_def)
    then have "Y = X @ drop (length X) Y" using append_take_drop_id [of "length X" Y] by simp
    moreover have "drop (length X) Y \<noteq> []" using that(1) by simp
    ultimately show ?thesis by (metis neq_Nil_conv)
  qed
  consider (less) "length A < length B" | (eq) "length A = length B" | (greater) "length B < length A" by linarith
  then show ?thesis
  proof cases
    case less
    then obtain b bs where "B = A @ b # bs" using longer t by blast
    then show ?thesis using sign_prefix(1) [of cpo A b bs] by simp
  next
    case eq
    then have "A = B" using t by metis
    then show ?thesis by simp
  next
    case greater
    then obtain a as where "A = B @ a # as" using longer t by blast
    then show ?thesis using sign_prefix(2) [of cpo B a as] by simp
  qed
qed

text \<open>
  C7: \<open>uprv_strCompare\<close> returns, and the sign of its result is that of the lexicographic comparison of the two texts: by
  units, or by code points, although it looks only at the first units that differ and their neighbours. The texts may end
  with a NUL, have a length, or both, and be the same array.
\<close>
theorem uprv_strCompare_correct:
  assumes "denotes s1 length1 strncmpStyle A" "denotes s2 length2 strncmpStyle B" "strncmpStyle \<Longrightarrow> length1 = length2" "same \<Longrightarrow> s1 = s2"
  shows "\<exists>r. uprv_strCompare same s1 length1 s2 length2 strncmpStyle codePointOrder = Some r \<and>
    sgn r = lex_sign (compared_as codePointOrder A) (compared_as codePointOrder B)"
proof (cases "length1 < 0 \<and> length2 < 0 \<or> strncmpStyle")
  case True
  define limit where "limit = (if length1 < 0 then None else Some length1)"
  have l2: "limit = (if length2 < 0 then None else Some length2)" using True assms(3) by (auto simp: limit_def)
  obtain r1 where r1: "s1 = A @ r1" "0 \<notin> set A" "ends_ok A r1 limit" using denotes_nul [OF assms(1)] True by (auto simp: limit_def)
  obtain r2 where r2: "s2 = B @ r2" "0 \<notin> set B" "ends_ok B r2 limit" using denotes_nul [OF assms(2)] True unfolding l2 by auto
  have run: "uprv_strCompare same s1 length1 s2 length2 strncmpStyle codePointOrder =
      (if same then Some 0 else compare_core s1 s2 limit 0 True limit limit codePointOrder)"
    using True assms(3) by (auto simp: uprv_strCompare_def compare_core_def limit_def)
  show ?thesis
  proof (cases same)
    case s: True
    then have "A = B" using assms True by (cases strncmpStyle) (auto simp: denotes_def split: if_splits)
    then show ?thesis using run s by simp
  next
    case False
    then show ?thesis using compare_nul_ok [OF r1(2) r2(2) r1(3) r2(3), of codePointOrder] run r1(1) r2(1) by simp
  qed
next
  case False
  then have d: "denotes s1 length1 False A" "denotes s2 length2 False B" using assms(1,2) by auto
  note l = denotes_len [OF d(1)] denotes_len [OF d(2)]
  define res where "res = (if length A < length B then -1 else if length A = length B then 0 else 1 :: int)"
  define limit where "limit = (if length A < length B then int (length A) else int (length B))"
  have run: "uprv_strCompare same s1 length1 s2 length2 strncmpStyle codePointOrder =
      (if same then Some res
       else compare_core s1 s2 (Some limit) res False (Some (int (length A))) (Some (int (length B))) codePointOrder)"
    using False l unfolding uprv_strCompare_def compare_core_def by (auto simp: res_def limit_def)
  show ?thesis
  proof (cases same)
    case True
    then show ?thesis using same_prefixes [of s1 A B codePointOrder] l assms(4) run by (auto simp: res_def)
  next
    case False
    have "(res, limit) = (if length A < length B then (-1, int (length A)) else if length A = length B then (0, int (length A)) else (1, int (length B)))"
      by (simp add: res_def limit_def)
    from compare_len_ok [OF this, of "drop (length A) s1" "drop (length B) s2" codePointOrder] show ?thesis
      using run l False by simp
  qed
qed


theorem uprv_strCompare_correct_witness:
  "\<exists>r. uprv_strCompare False [0xd800, 0xdc00, 0] (-1) [0xffff, 0] (-1) False True = Some r \<and> sgn r = 1"
proof -
  have d: "denotes [0xd800, 0xdc00, 0] (-1) False [0xd800, 0xdc00]" "denotes [0xffff, 0] (-1) False [0xffff]"
    by (simp_all add: denotes_def c_string_def)
  have "lex_sign (compared_as True [0xd800, 0xdc00]) (compared_as True [0xffff]) = 1"
    by (simp add: compared_as_def U16_IS_LEAD_def U16_IS_TRAIL_def U16_GET_SUPPLEMENTARY_def push_bit_eq_mult)
  then show ?thesis using uprv_strCompare_correct [OF d, of False True] by simp
qed

text \<open>The functions over it; \<open>u_strcmp\<close>, \<open>u_strncmp\<close> and \<open>u_memcmp\<close> have loops of their own.\<close>

lemma strncmp_loop_core: "0 < n \<Longrightarrow> strncmp_loop s1 s2 i n = do {
    r \<leftarrow> compare_loop s1 s2 (Some (i + n)) 0 True i;
    Some (case r of Inl r \<Rightarrow> r | Inr (c1, c2, k) \<Rightarrow> uint c1 - uint c2) }"
proof (induction "nat (int (length s1) - i)" arbitrary: i n rule: less_induct)
  case less
  show ?case
  proof (cases "rd s1 i")
    case None
    then show ?thesis using less.prems by (subst compare_loop.simps, subst strncmp_loop.simps) simp
  next
    case c1: (Some c1)
    show ?thesis
    proof (cases "rd s2 i")
      case None
      then show ?thesis using less.prems c1 by (subst compare_loop.simps, subst strncmp_loop.simps) simp
    next
      case c2: (Some c2)
      have eq: "uint c1 - uint c2 = 0 \<longleftrightarrow> c1 = c2" by (simp add: word_uint_eq_iff)
      show ?thesis
      proof (cases "c1 = c2 \<and> c1 \<noteq> 0 \<and> n \<noteq> 1")
        case False
        then show ?thesis using less.prems c1 c2 eq
          by (subst compare_loop.simps, subst strncmp_loop.simps) (auto simp: Let_def compare_loop.simps [of _ _ "Some (i + 1)" _ _ "i + 1"])
      next
        case True
        have "nat (int (length s1) - (i + 1)) < nat (int (length s1) - i)" using c1 by (auto simp: rd_Some_iff)
        then have "strncmp_loop s1 s2 (i + 1) (n - 1) = do {
            r \<leftarrow> compare_loop s1 s2 (Some (i + 1 + (n - 1))) 0 True (i + 1);
            Some (case r of Inl r \<Rightarrow> r | Inr (c1, c2, k) \<Rightarrow> uint c1 - uint c2) }"
          by (rule less.hyps) (use less.prems True in auto)
        moreover have "i + 1 + (n - 1) = i + n" by simp
        moreover have "strncmp_loop s1 s2 i n = strncmp_loop s1 s2 (i + 1) (n - 1)"
          using True c1 c2 by (subst strncmp_loop.simps) (auto simp: Let_def)
        moreover have "compare_loop s1 s2 (Some (i + n)) 0 True i = compare_loop s1 s2 (Some (i + n)) 0 True (i + 1)"
          using True c1 c2 less.prems by (subst compare_loop.simps) auto
        ultimately show ?thesis by simp
      qed
    qed
  qed
qed

lemma memcmp_loop_core: "i \<le> limit \<Longrightarrow> memcmp_loop s1 s2 i limit = do {
    r \<leftarrow> compare_loop s1 s2 (Some limit) 0 False i;
    Some (case r of Inl r \<Rightarrow> r | Inr (c1, c2, k) \<Rightarrow> uint c1 - uint c2) }"
proof (induction "nat (limit - i)" arbitrary: i rule: less_induct)
  case less
  show ?case
  proof (cases "i = limit")
    case True
    then show ?thesis by (subst compare_loop.simps, subst memcmp_loop.simps) simp
  next
    case False
    then have IH: "memcmp_loop s1 s2 (i + 1) limit = do {
        r \<leftarrow> compare_loop s1 s2 (Some limit) 0 False (i + 1);
        Some (case r of Inl r \<Rightarrow> r | Inr (c1, c2, k) \<Rightarrow> uint c1 - uint c2) }"
      using less by auto
    have eq: "uint c1 - uint c2 = 0 \<longleftrightarrow> c1 = c2" for c1 c2 :: u16 by (simp add: word_uint_eq_iff)
    then show ?thesis using False less.prems IH
      by (subst compare_loop.simps, subst memcmp_loop.simps) (cases "rd s1 i"; cases "rd s2 i"; auto simp: Let_def)
  qed
qed

lemma unit_difference: "difference s1 s2 i l1 l2 c1 c2 False = Some (uint c1 - uint c2)"
  by (simp add: difference_def)

lemma core_units: "compare_core s1 s2 limit res nul l1 l2 False = do {
    r \<leftarrow> compare_loop s1 s2 limit res nul 0;
    Some (case r of Inl r \<Rightarrow> r | Inr (c1, c2, k) \<Rightarrow> uint c1 - uint c2) }"
  unfolding compare_core_def by (intro arg_cong2 [of _ _ _ _ Option.bind] ext) (auto simp: unit_difference split: sum.splits)

lemma u_strcmp_core: "u_strcmp s1 s2 = uprv_strCompare False s1 (-1) s2 (-1) False False"
  using core_units [of s1 s2 None 0 True None None] by (simp add: u_strcmp_def uprv_strCompare_def compare_core_def)

lemma u_strncmp_core: "0 < n \<Longrightarrow> u_strncmp s1 s2 n = uprv_strCompare False s1 n s2 n True False"
  using core_units [of s1 s2 "Some n" 0 True "Some n" "Some n"] strncmp_loop_core [of n s1 s2 0]
  by (simp add: u_strncmp_def uprv_strCompare_def compare_core_def)

lemma u_memcmp_core: "0 \<le> n \<Longrightarrow> u_memcmp s1 s2 n = uprv_strCompare False s1 n s2 n False False"
  using core_units [of s1 s2 "Some n" 0 False "Some n" "Some n"] memcmp_loop_core [of 0 n s1 s2]
  by (auto simp: u_memcmp_def uprv_strCompare_def compare_core_def compare_loop.simps [of _ _ "Some 0" _ _ 0])

section \<open>Counting code points\<close>

lemma code_points_length: "length (code_points A) \<le> length A" "length A \<le> 2 * length (code_points A)"
  by (induction A rule: code_points.induct [case_names step none one]) auto

lemma count_len_ok: "count_len (pre @ A @ r) (int (length pre)) (int (length A)) k = Some (k + int (length (code_points A)))"
proof (induction A arbitrary: pre k rule: code_points.induct [case_names step none one])
  case (step u v str)
  have rds: "rd (pre @ (u # v # str) @ r) (int (length pre)) = Some u" "rd (pre @ (u # v # str) @ r) (int (length pre) + 1) = Some v"
    by (simp_all add: rd_def nth_append nat_add_distrib)
  show ?case
  proof (cases "U16_IS_LEAD u \<and> U16_IS_TRAIL v")
    case True
    then show ?thesis using step(1) [OF True, of "pre @ [u, v]" "k + 1"] rds by (subst count_len.simps) (simp add: add.commute)
  next
    case False
    then show ?thesis using step(2) [OF False, of "pre @ [u]" "k + 1"] rds by (subst count_len.simps) (auto simp: add.commute)
  qed
next
  case none
  show ?case by (subst count_len.simps) simp
next
  case (one u)
  have "rd (pre @ [u] @ r) (int (length pre)) = Some u" by (simp add: nth_append)
  then show ?case by (subst count_len.simps) (simp add: count_len.simps [of _ _ 0])
qed

lemma not_trail_0: "\<not> U16_IS_TRAIL 0" by (simp add: U16_IS_TRAIL_def)

lemma count_nul_ok:
  "0 \<notin> set A \<Longrightarrow> count_nul (pre @ A @ 0 # r) (int (length pre)) k = Some (k + int (length (code_points A)))"
proof (induction A arbitrary: pre k rule: code_points.induct [case_names step none one])
  case (step u v str)
  have rds: "rd (pre @ (u # v # str) @ 0 # r) (int (length pre)) = Some u" "rd (pre @ (u # v # str) @ 0 # r) (int (length pre) + 1) = Some v" "u \<noteq> 0"
    using step.prems by (auto simp: rd_def nth_append nat_add_distrib)
  show ?case
  proof (cases "U16_IS_LEAD u \<and> U16_IS_TRAIL v")
    case True
    then show ?thesis using step(1) [OF True, of "pre @ [u, v]" "k + 1"] rds step.prems
      by (subst count_nul.simps) (auto simp: add.commute)
  next
    case False
    then show ?thesis using step(2) [OF False, of "pre @ [u]" "k + 1"] rds step.prems
      by (subst count_nul.simps) (auto simp: add.commute)
  qed
next
  case none
  then show ?case by (subst count_nul.simps) (simp add: nth_append)
next
  case (one u)
  have rds: "rd (pre @ [u] @ 0 # r) (int (length pre)) = Some u" "rd (pre @ [u] @ 0 # r) (int (length pre) + 1) = Some 0" "u \<noteq> 0"
    using one.prems by (auto simp: rd_def nth_append nat_add_distrib)
  then show ?case using one.prems not_trail_0
    by (subst count_nul.simps) (simp add: count_nul.simps [of _ "int (length pre) + 1"])
qed

lemma more_nul_ok:
  "0 \<notin> set A \<Longrightarrow> 0 \<le> n \<Longrightarrow> more_nul (pre @ A @ 0 # r) (int (length pre)) n = Some (n < int (length (code_points A)))"
proof (induction A arbitrary: pre n rule: code_points.induct [case_names step none one])
  case (step u v str)
  have rds: "rd (pre @ (u # v # str) @ 0 # r) (int (length pre)) = Some u" "rd (pre @ (u # v # str) @ 0 # r) (int (length pre) + 1) = Some v" "u \<noteq> 0"
    using step.prems by (auto simp: rd_def nth_append nat_add_distrib)
  show ?case
  proof (cases "U16_IS_LEAD u \<and> U16_IS_TRAIL v")
    case True
    then show ?thesis using step(1) [OF True, of "n - 1" "pre @ [u, v]"] rds step.prems
      by (subst more_nul.simps) (auto simp: add.commute)
  next
    case False
    then show ?thesis using step(2) [OF False, of "n - 1" "pre @ [u]"] rds step.prems
      by (subst more_nul.simps) (auto simp: add.commute)
  qed
next
  case none
  then show ?case by (subst more_nul.simps) (simp add: nth_append)
next
  case (one u)
  have rds: "rd (pre @ [u] @ 0 # r) (int (length pre)) = Some u" "rd (pre @ [u] @ 0 # r) (int (length pre) + 1) = Some 0" "u \<noteq> 0"
    using one.prems by (auto simp: rd_def nth_append nat_add_distrib)
  then show ?case using one.prems not_trail_0
    by (subst more_nul.simps) (simp add: more_nul.simps [of _ "int (length pre) + 1"])
qed

lemma more_len_ok:
  "0 \<le> n \<Longrightarrow> m = int (length A) - n \<Longrightarrow>
   more_len (pre @ A @ r) (int (length pre)) (int (length pre + length A)) n m = Some (n < int (length (code_points A)))"
proof (induction A arbitrary: pre n m rule: code_points.induct [case_names step none one])
  case (step u v str)
  have rds: "rd (pre @ (u # v # str) @ r) (int (length pre)) = Some u" "rd (pre @ (u # v # str) @ r) (int (length pre) + 1) = Some v"
    by (simp_all add: rd_def nth_append nat_add_distrib)
  show ?case
  proof (cases "U16_IS_LEAD u \<and> U16_IS_TRAIL v")
    case True
    have "int (length (code_points str)) \<le> int (length str)" using code_points_length(1) by simp
    then show ?thesis using step(1) [OF True, of "n - 1" "m - 1" "pre @ [u, v]"] rds step.prems True
      by (subst more_len.simps) (auto simp: Let_def add.commute)
  next
    case False
    then show ?thesis using step(2) [OF False, of "n - 1" m "pre @ [u]"] rds step.prems
      by (subst more_len.simps) (auto simp: Let_def add.commute)
  qed
next
  case none
  then show ?case by (subst more_len.simps) simp
next
  case (one u)
  have "rd (pre @ [u] @ r) (int (length pre)) = Some u" by (simp add: nth_append)
  then show ?case using one.prems by (subst more_len.simps) (auto simp: Let_def more_len.simps [of _ "int (length pre) + 1"])
qed

text \<open>
  C10: \<open>u_countChar32\<close> returns the number of code points of a text that ends with a NUL or has a length, and
  \<open>u_strHasMoreChar32Than\<close> whether that is more than a number, with its short cuts for texts with a length.
\<close>
theorem u_countChar32_correct:
  assumes "denotes s len False A" "-1 \<le> len"
  shows "u_countChar32 (Some s) len = Some (int (length (code_points A))) \<and>
    u_strHasMoreChar32Than (Some s) len number = Some (number < int (length (code_points A)))"
proof (cases "len = -1")
  case True
  then obtain r where "s = [] @ A @ 0 # r" "0 \<notin> set A" using assms c_string_split [of s] by (auto simp: denotes_def)
  then show ?thesis using count_nul_ok [of A "[]" r 0] more_nul_ok [of A number "[]" r] True
    by (auto simp: u_countChar32_def u_strHasMoreChar32Than_def)
next
  case False
  then have len: "0 \<le> len" using assms(2) by simp
  then have A: "len = int (length A)" "s = A @ drop (length A) s" using denotes_len [OF assms(1)] by auto
  have count: "u_countChar32 (Some s) len = Some (int (length (code_points A)))"
    using count_len_ok [of "[]" A "drop (length A) s" 0] A len by (simp add: u_countChar32_def)
  have half: "(int (length A) + 1) sdiv 2 = (int (length A) + 1) div 2" by (simp add: signed_divide_int_def)
  have more: "more_len s 0 len number (len - number) = Some (number < int (length (code_points A)))" if "0 \<le> number"
    using more_len_ok [of number "len - number" A "[]" "drop (length A) s"] that A by simp
  have "u_strHasMoreChar32Than (Some s) len number = Some (number < int (length (code_points A)))"
    using more len False code_points_length [of A] A(1) by (auto simp: u_strHasMoreChar32Than_def half)
  then show ?thesis using count by simp
qed

theorem u_countChar32_correct_witness:
  "u_countChar32 (Some [0xd83d, 0xde00, 0x41]) 3 = Some 2 \<and> u_strHasMoreChar32Than (Some [0xd83d, 0xde00, 0x41]) 3 1 = Some True"
proof -
  have "denotes [0xd83d, 0xde00, 0x41] 3 False [0xd83d, 0xde00, 0x41]" by (simp add: denotes_def)
  from u_countChar32_correct [OF this, of 1] show ?thesis
    by (simp add: U16_IS_LEAD_def U16_IS_TRAIL_def U16_GET_SUPPLEMENTARY_def push_bit_eq_mult)
qed

end
