(* ===== verification/UstrFind.thy ===== *)
theory UstrFind
  imports UstrCompare
begin

text \<open>
  Searching in strings of 16-bit units (\<open>ustring.cpp\<close>): substrings, units, code points and sets of code points, and splitting a
  string into tokens. A match never cuts a surrogate pair of the text. A string is the array of the units from its pointer
  on, a result the index from there, or \<open>None\<close> for NULL; a length of \<open>-1\<close> stands for a string that ends with a NUL.
\<close>

section \<open>Substrings\<close>

text \<open>The second condition compares \<open>match\<close> with the limit, not \<open>matchLimit\<close>, as the code does.\<close>

definition isMatchAtCPBoundary :: "u16 list \<Rightarrow> int \<Rightarrow> int \<Rightarrow> int option \<Rightarrow> bool option" where
  "isMatchAtCPBoundary s match matchLimit limit = do {
     c \<leftarrow> rd s match;
     front \<leftarrow> (if U16_IS_TRAIL c \<and> match \<noteq> 0 then map_option U16_IS_LEAD (rd s (match - 1)) else Some False);
     if front then Some False
     else do {
       d \<leftarrow> rd s (matchLimit - 1);
       cut \<leftarrow> (if U16_IS_LEAD d \<and> limit \<noteq> Some match then map_option U16_IS_TRAIL (rd s matchLimit) else Some False);
       Some (\<not> cut) } }"

text \<open>
  The comparison of the units behind the first one: it ends at the end of the substring (a NUL if there is no \<open>subLimit\<close>), at
  the NUL of the string if \<open>nul\<close> holds, or at a difference.
\<close>

datatype rest_match = Matched int | Text_ends | Differs

function match_rest :: "u16 list \<Rightarrow> int \<Rightarrow> u16 list \<Rightarrow> int \<Rightarrow> int option \<Rightarrow> bool \<Rightarrow> rest_match option" where
  "match_rest s p sub q subLimit nul = do {
     done \<leftarrow> (case subLimit of None \<Rightarrow> map_option (\<lambda>c. c = 0) (rd sub q) | Some limit \<Rightarrow> Some (q = limit));
     if done then Some (Matched p)
     else do {
       c \<leftarrow> rd s p;
       if nul \<and> c = 0 then Some Text_ends
       else do {
         cq \<leftarrow> rd sub q;
         if c \<noteq> cq then Some Differs else match_rest s (p + 1) sub (q + 1) subLimit nul } } }"
  by pat_completeness auto
termination by (relation "measure (\<lambda>(s, p, sub, q, l, n). nat (int (length s) - p))") (auto simp: rd_Some_iff)

text \<open>The loop over the string: to its NUL, or to \<open>preLimit\<close>.\<close>

function find_loop :: "u16 list \<Rightarrow> int \<Rightarrow> u16 list \<Rightarrow> u16 \<Rightarrow> int option \<Rightarrow> int option \<Rightarrow> int option \<Rightarrow> int option option" where
  "find_loop s i sub cs subLimit preLimit limit =
     (if preLimit = Some i then Some None
      else do {
        c \<leftarrow> rd s i;
        if preLimit = None \<and> c = 0 then Some None
        else if c = cs then do {
          r \<leftarrow> match_rest s (i + 1) sub 1 subLimit (preLimit = None);
          case r of
            Matched p \<Rightarrow> do {
              ok \<leftarrow> isMatchAtCPBoundary s i p limit;
              if ok then Some (Some i) else find_loop s (i + 1) sub cs subLimit preLimit limit }
          | Text_ends \<Rightarrow> Some None
          | Differs \<Rightarrow> find_loop s (i + 1) sub cs subLimit preLimit limit }
        else find_loop s (i + 1) sub cs subLimit preLimit limit })"
  by pat_completeness auto
termination by (relation "measure (\<lambda>(s, i, sub, cs, sl, pl, l). nat (int (length s) - i))") (auto simp: rd_Some_iff)

text \<open>The searches for a unit that is no surrogate, inside \<open>u_strchr\<close> and \<open>u_memchr\<close>.\<close>

function strchr_loop :: "u16 list \<Rightarrow> int \<Rightarrow> u16 \<Rightarrow> int option option" where
  "strchr_loop s i c = do {
     cs \<leftarrow> rd s i;
     if cs = c then Some (Some i) else if cs = 0 then Some None else strchr_loop s (i + 1) c }"
  by pat_completeness auto
termination by (relation "measure (\<lambda>(s, i, c). nat (int (length s) - i))") (auto simp: rd_Some_iff)

function memchr_loop :: "u16 list \<Rightarrow> int \<Rightarrow> u16 \<Rightarrow> int \<Rightarrow> int option option" where
  "memchr_loop s i c limit = do {
     cs \<leftarrow> rd s i;
     if cs = c then Some (Some i) else if i + 1 = limit then Some None else memchr_loop s (i + 1) c limit }"
  by pat_completeness auto
termination by (relation "measure (\<lambda>(s, i, c, l). nat (int (length s) - i))") (auto simp: rd_Some_iff)

declare match_rest.simps [simp del] find_loop.simps [simp del] strchr_loop.simps [simp del] memchr_loop.simps [simp del]

definition memchr_unit :: "u16 list \<Rightarrow> u16 \<Rightarrow> int \<Rightarrow> int option option" where
  "memchr_unit s c count = (if count \<le> 0 then Some None else memchr_loop s 0 c count)"

definition u_strFindFirst :: "u16 list option \<Rightarrow> int \<Rightarrow> u16 list option \<Rightarrow> int \<Rightarrow> int option option" where
  "u_strFindFirst s0 len sub0 subLength =
     (case sub0 of None \<Rightarrow> Some (map_option (\<lambda>_. 0) s0)
      | Some sub \<Rightarrow>
          if subLength < -1 then Some (map_option (\<lambda>_. 0) s0)
          else case s0 of None \<Rightarrow> Some None
          | Some s \<Rightarrow>
              if len < -1 then Some None
              else if len < 0 \<and> subLength < 0 then do {
                cs \<leftarrow> rd sub 0;
                if cs = 0 then Some (Some 0)
                else do {
                  next_unit \<leftarrow> rd sub 1;
                  if next_unit = 0 \<and> \<not> U16_IS_SURROGATE cs then strchr_loop s 0 cs
                  else find_loop s 0 sub cs None None None } }
              else do {
                subLength \<leftarrow> (if subLength < 0 then u_strlen sub else Some subLength);
                if subLength = 0 then Some (Some 0)
                else do {
                  cs \<leftarrow> rd sub 0;
                  if subLength - 1 = 0 \<and> \<not> U16_IS_SURROGATE cs then
                    if len < 0 then strchr_loop s 0 cs else memchr_unit s cs len
                  else if len < 0 then find_loop s 0 sub cs (Some subLength) None None
                  else if len \<le> subLength - 1 then Some None
                  else find_loop s 0 sub cs (Some subLength) (Some (len - (subLength - 1))) (Some len) } })"

definition u_strstr :: "u16 list option \<Rightarrow> u16 list option \<Rightarrow> int option option" where
  "u_strstr s substring = u_strFindFirst s (-1) substring (-1)"

definition u_strchr :: "u16 list \<Rightarrow> u16 \<Rightarrow> int option option" where
  "u_strchr s c = (if U16_IS_SURROGATE c then u_strFindFirst (Some s) (-1) (Some [c]) 1 else strchr_loop s 0 c)"

function strchr32_loop :: "u16 list \<Rightarrow> int \<Rightarrow> u16 \<Rightarrow> u16 \<Rightarrow> int option option" where
  "strchr32_loop s i lead trail = do {
     cs \<leftarrow> rd s i;
     if cs = 0 then Some None
     else do {
       found \<leftarrow> (if cs = lead then map_option (\<lambda>c. c = trail) (rd s (i + 1)) else Some False);
       if found then Some (Some i) else strchr32_loop s (i + 1) lead trail } }"
  by pat_completeness auto
termination by (relation "measure (\<lambda>(s, i, l, t). nat (int (length s) - i))") (auto simp: rd_Some_iff)

definition u_strchr32 :: "u16 list \<Rightarrow> UChar32 \<Rightarrow> int option option" where
  "u_strchr32 s c =
     (if 0 \<le> c \<and> c \<le> 0xffff then u_strchr s (word_of_int c)
      else if 0 \<le> c \<and> c \<le> 0x10ffff then strchr32_loop s 0 (U16_LEAD c) (U16_TRAIL c)
      else Some None)"

definition u_memchr :: "u16 list \<Rightarrow> u16 \<Rightarrow> int \<Rightarrow> int option option" where
  "u_memchr s c count =
     (if count \<le> 0 then Some None
      else if U16_IS_SURROGATE c then u_strFindFirst (Some s) count (Some [c]) 1
      else memchr_loop s 0 c count)"

function memchr32_loop :: "u16 list \<Rightarrow> int \<Rightarrow> u16 \<Rightarrow> u16 \<Rightarrow> int \<Rightarrow> int option option" where
  "memchr32_loop s i lead trail limit = do {
     cs \<leftarrow> rd s i;
     found \<leftarrow> (if cs = lead then map_option (\<lambda>c. c = trail) (rd s (i + 1)) else Some False);
     if found then Some (Some i) else if i + 1 = limit then Some None else memchr32_loop s (i + 1) lead trail limit }"
  by pat_completeness auto
termination by (relation "measure (\<lambda>(s, i, l, t, m). nat (int (length s) - i))") (auto simp: rd_Some_iff)

definition u_memchr32 :: "u16 list \<Rightarrow> UChar32 \<Rightarrow> int \<Rightarrow> int option option" where
  "u_memchr32 s c count =
     (if 0 \<le> c \<and> c \<le> 0xffff then u_memchr s (word_of_int c) count
      else if count < 2 then Some None
      else if 0 \<le> c \<and> c \<le> 0x10ffff then memchr32_loop s 0 (U16_LEAD c) (U16_TRAIL c) (count - 1)
      else Some None)"

section \<open>Last match\<close>

function match_rest_back :: "u16 list \<Rightarrow> int \<Rightarrow> u16 list \<Rightarrow> int \<Rightarrow> int option option" where
  "match_rest_back s p sub q =
     (if q = 0 then Some (Some p)
      else do {
        c \<leftarrow> rd s (p - 1);
        d \<leftarrow> rd sub (q - 1);
        if c \<noteq> d then Some None else match_rest_back s (p - 1) sub (q - 1) })"
  by pat_completeness auto
termination by (relation "measure (\<lambda>(s, p, sub, q). nat p)") (auto simp: rd_Some_iff)

function find_last_loop :: "u16 list \<Rightarrow> int \<Rightarrow> int \<Rightarrow> u16 list \<Rightarrow> u16 \<Rightarrow> int \<Rightarrow> int \<Rightarrow> int option option" where
  "find_last_loop s low limit sub cs subLimit len =
     (if low = limit then Some None
      else do {
        c \<leftarrow> rd s (limit - 1);
        if c = cs then do {
          r \<leftarrow> match_rest_back s (limit - 1) sub subLimit;
          case r of
            Some p \<Rightarrow> do {
              ok \<leftarrow> isMatchAtCPBoundary s p limit (Some len);
              if ok then Some (Some p) else find_last_loop s low (limit - 1) sub cs subLimit len }
          | None \<Rightarrow> find_last_loop s low (limit - 1) sub cs subLimit len }
        else find_last_loop s low (limit - 1) sub cs subLimit len })"
  by pat_completeness auto
termination by (relation "measure (\<lambda>(s, low, limit, sub, cs, sl, l). nat limit)") (auto simp: rd_Some_iff)

function strrchr_loop :: "u16 list \<Rightarrow> int \<Rightarrow> u16 \<Rightarrow> int option \<Rightarrow> int option option" where
  "strrchr_loop s i c result = do {
     cs \<leftarrow> rd s i;
     let result = (if cs = c then Some i else result);
     if cs = 0 then Some result else strrchr_loop s (i + 1) c result }"
  by pat_completeness auto
termination by (relation "measure (\<lambda>(s, i, c, r). nat (int (length s) - i))") (auto simp: rd_Some_iff)

function memrchr_loop :: "u16 list \<Rightarrow> int \<Rightarrow> u16 \<Rightarrow> int option option" where
  "memrchr_loop s limit c = do {
     cs \<leftarrow> rd s (limit - 1);
     if cs = c then Some (Some (limit - 1)) else if limit - 1 = 0 then Some None else memrchr_loop s (limit - 1) c }"
  by pat_completeness auto
termination by (relation "measure (\<lambda>(s, i, c). nat i)") (auto simp: rd_Some_iff)

declare strchr32_loop.simps [simp del] memchr32_loop.simps [simp del] match_rest_back.simps [simp del] find_last_loop.simps [simp del]
  strrchr_loop.simps [simp del] memrchr_loop.simps [simp del]

definition memrchr_unit :: "u16 list \<Rightarrow> u16 \<Rightarrow> int \<Rightarrow> int option option" where
  "memrchr_unit s c count = (if count \<le> 0 then Some None else memrchr_loop s count c)"

definition u_strFindLast :: "u16 list option \<Rightarrow> int \<Rightarrow> u16 list option \<Rightarrow> int \<Rightarrow> int option option" where
  "u_strFindLast s0 len sub0 subLength =
     (case sub0 of None \<Rightarrow> Some (map_option (\<lambda>_. 0) s0)
      | Some sub \<Rightarrow>
          if subLength < -1 then Some (map_option (\<lambda>_. 0) s0)
          else case s0 of None \<Rightarrow> Some None
          | Some s \<Rightarrow>
              if len < -1 then Some None
              else do {
                subLength \<leftarrow> (if subLength < 0 then u_strlen sub else Some subLength);
                if subLength = 0 then Some (Some 0)
                else do {
                  cs \<leftarrow> rd sub (subLength - 1);
                  if subLength - 1 = 0 \<and> \<not> U16_IS_SURROGATE cs then
                    if len < 0 then strrchr_loop s 0 cs None else memrchr_unit s cs len
                  else do {
                    len \<leftarrow> (if len < 0 then u_strlen s else Some len);
                    if len \<le> subLength - 1 then Some None
                    else find_last_loop s (subLength - 1) len sub cs (subLength - 1) len } } })"

definition u_strrstr :: "u16 list option \<Rightarrow> u16 list option \<Rightarrow> int option option" where
  "u_strrstr s substring = u_strFindLast s (-1) substring (-1)"

definition u_strrchr :: "u16 list \<Rightarrow> u16 \<Rightarrow> int option option" where
  "u_strrchr s c = (if U16_IS_SURROGATE c then u_strFindLast (Some s) (-1) (Some [c]) 1 else strrchr_loop s 0 c None)"

function strrchr32_loop :: "u16 list \<Rightarrow> int \<Rightarrow> u16 \<Rightarrow> u16 \<Rightarrow> int option \<Rightarrow> int option option" where
  "strrchr32_loop s i lead trail result = do {
     cs \<leftarrow> rd s i;
     if cs = 0 then Some result
     else do {
       found \<leftarrow> (if cs = lead then map_option (\<lambda>c. c = trail) (rd s (i + 1)) else Some False);
       strrchr32_loop s (i + 1) lead trail (if found then Some i else result) } }"
  by pat_completeness auto
termination by (relation "measure (\<lambda>(s, i, l, t, r). nat (int (length s) - i))") (auto simp: rd_Some_iff)

definition u_strrchr32 :: "u16 list \<Rightarrow> UChar32 \<Rightarrow> int option option" where
  "u_strrchr32 s c =
     (if 0 \<le> c \<and> c \<le> 0xffff then u_strrchr s (word_of_int c)
      else if 0 \<le> c \<and> c \<le> 0x10ffff then strrchr32_loop s 0 (U16_LEAD c) (U16_TRAIL c) None
      else Some None)"

definition u_memrchr :: "u16 list \<Rightarrow> u16 \<Rightarrow> int \<Rightarrow> int option option" where
  "u_memrchr s c count =
     (if count \<le> 0 then Some None
      else if U16_IS_SURROGATE c then u_strFindLast (Some s) count (Some [c]) 1
      else memrchr_loop s count c)"

function memrchr32_loop :: "u16 list \<Rightarrow> int \<Rightarrow> u16 \<Rightarrow> u16 \<Rightarrow> int option option" where
  "memrchr32_loop s limit lead trail = do {
     cs \<leftarrow> rd s limit;
     found \<leftarrow> (if cs = trail then map_option (\<lambda>c. c = lead) (rd s (limit - 1)) else Some False);
     if found then Some (Some (limit - 1)) else if limit - 1 = 0 then Some None else memrchr32_loop s (limit - 1) lead trail }"
  by pat_completeness auto
termination by (relation "measure (\<lambda>(s, i, l, t). nat (i + 1))") (auto simp: rd_Some_iff)

definition u_memrchr32 :: "u16 list \<Rightarrow> UChar32 \<Rightarrow> int \<Rightarrow> int option option" where
  "u_memrchr32 s c count =
     (if 0 \<le> c \<and> c \<le> 0xffff then u_memrchr s (word_of_int c) count
      else if count < 2 then Some None
      else if 0 \<le> c \<and> c \<le> 0x10ffff then memrchr32_loop s (count - 1) (U16_LEAD c) (U16_TRAIL c)
      else Some None)"

section \<open>Sets and tokens\<close>

text \<open>The part of the set in front of its first surrogate.\<close>

function bmp_part :: "u16 list \<Rightarrow> int \<Rightarrow> int option" where
  "bmp_part matchSet i = do { c \<leftarrow> rd matchSet i; if c \<noteq> 0 \<and> U16_IS_SINGLE c then bmp_part matchSet (i + 1) else Some i }"
  by pat_completeness auto
termination by (relation "measure (\<lambda>(s, i). nat (int (length s) - i))") (auto simp: rd_Some_iff)

function in_units :: "u16 list \<Rightarrow> int \<Rightarrow> int \<Rightarrow> u16 \<Rightarrow> bool option" where
  "in_units matchSet i matchLen c =
     (if i < matchLen then do { d \<leftarrow> rd matchSet i; if c = d then Some True else in_units matchSet (i + 1) matchLen c } else Some False)"
  by pat_completeness auto
termination by (relation "measure (\<lambda>(s, i, l, c). nat (l - i))") auto

function in_code_points :: "u16 list \<Rightarrow> int \<Rightarrow> int \<Rightarrow> UChar32 \<Rightarrow> bool option" where
  "in_code_points matchSet i matchLen c =
     (if i < matchLen then do {
        (j, d) \<leftarrow> U16_NEXT matchSet i matchLen;
        if c = d then Some True else in_code_points matchSet j matchLen c }
      else Some False)"
  by pat_completeness auto
termination
  by (relation "measure (\<lambda>(s, i, l, c). nat (l - i))") (auto simp: U16_NEXT_def bind_Some_iff Let_def split: if_splits)

function match_loop :: "u16 list \<Rightarrow> int \<Rightarrow> u16 list \<Rightarrow> int \<Rightarrow> int \<Rightarrow> bool \<Rightarrow> int option" where
  "match_loop str strItr matchSet matchBMPLen matchLen polarity = do {
     c \<leftarrow> rd str strItr;
     if c = 0 then Some (- strItr - 1)
     else
       let i = strItr + 1 in
       if U16_IS_SINGLE c then do {
         found \<leftarrow> in_units matchSet 0 matchLen c;
         if found = polarity then Some (i - 1) else match_loop str i matchSet matchBMPLen matchLen polarity }
       else do {
         pair \<leftarrow> (if U16_IS_SURROGATE_LEAD c then do { c2 \<leftarrow> rd str i; Some (if U16_IS_TRAIL c2 then Some c2 else None) } else Some None);
         let (i, stringCh) = (case pair of Some c2 \<Rightarrow> (i + 1, U16_GET_SUPPLEMENTARY c c2) | None \<Rightarrow> (i, uint c));
         found \<leftarrow> in_code_points matchSet matchBMPLen matchLen stringCh;
         if found = polarity then Some (i - U16_LENGTH stringCh) else match_loop str i matchSet matchBMPLen matchLen polarity } }"
  by pat_completeness auto
termination
  by (relation "measure (\<lambda>(s, i, m, b, l, p). nat (int (length s) - i))") (auto simp: rd_Some_iff split: option.splits)

declare strrchr32_loop.simps [simp del] memrchr32_loop.simps [simp del] bmp_part.simps [simp del] in_units.simps [simp del]
  in_code_points.simps [simp del] match_loop.simps [simp del]

definition matchFromSet :: "u16 list \<Rightarrow> u16 list \<Rightarrow> bool \<Rightarrow> int option" where
  "matchFromSet str matchSet polarity = do {
     matchBMPLen \<leftarrow> bmp_part matchSet 0;
     matchLen \<leftarrow> strlen_from matchSet matchBMPLen;
     match_loop str 0 matchSet matchBMPLen matchLen polarity }"

definition u_strpbrk :: "u16 list \<Rightarrow> u16 list \<Rightarrow> int option option" where
  "u_strpbrk str matchSet = do { idx \<leftarrow> matchFromSet str matchSet True; Some (if idx \<ge> 0 then Some idx else None) }"

definition u_strcspn :: "u16 list \<Rightarrow> u16 list \<Rightarrow> int option" where
  "u_strcspn str matchSet = do { idx \<leftarrow> matchFromSet str matchSet True; Some (if idx \<ge> 0 then idx else - idx - 1) }"

definition u_strspn :: "u16 list \<Rightarrow> u16 list \<Rightarrow> int option" where
  "u_strspn str matchSet = do { idx \<leftarrow> matchFromSet str matchSet False; Some (if idx \<ge> 0 then idx else - idx - 1) }"

text \<open>
  A call on the buffer \<open>src\<close>: \<open>start\<close> is the index that is given, \<open>None\<close> for NULL, and \<open>saveState\<close> the index of the last call.
  The result is the buffer, the token and the new state.
\<close>

definition u_strtok_r :: "u16 list \<Rightarrow> int option \<Rightarrow> u16 list \<Rightarrow> int option \<Rightarrow> (u16 list \<times> int option \<times> int option) option" where
  "u_strtok_r src start delim saveState =
     (case (case start of Some i \<Rightarrow> Some i | None \<Rightarrow> saveState) of
        None \<Rightarrow> Some (src, None, saveState)
      | Some tokSource \<Rightarrow> do {
          let saveState = (case start of Some i \<Rightarrow> Some i | None \<Rightarrow> saveState);
          nonDelimIdx \<leftarrow> u_strspn (drop (nat tokSource) src) delim;
          let tokSource = tokSource + nonDelimIdx;
          c \<leftarrow> rd src tokSource;
          if c \<noteq> 0 then do {
            nextToken \<leftarrow> u_strpbrk (drop (nat tokSource) src) delim;
            case nextToken of
              Some k \<Rightarrow> do { src \<leftarrow> wr src (tokSource + k) 0; Some (src, Some tokSource, Some (tokSource + k + 1)) }
            | None \<Rightarrow> if saveState \<noteq> None then Some (src, Some tokSource, None) else Some (src, None, saveState) }
          else Some (src, None, None) })"

end
