(* ===== verification/UstrFindProps.thy ===== *)
theory UstrFindProps
  imports UstrFind
begin

text \<open>
  The searches of \<open>ustring.cpp\<close> find the first or the last place where the substring stands in the text without cutting a
  surrogate pair; the functions on sets skip the code points of the text that are, or are not, in the set.
\<close>

section \<open>Matches\<close>

definition match_at :: "u16 list \<Rightarrow> u16 list \<Rightarrow> nat \<Rightarrow> bool" where
  "match_at A S i \<longleftrightarrow> i + length S \<le> length A \<and> take (length S) (drop i A) = S \<and>
     \<not> splits_pair (take i A) (drop i A) \<and> \<not> splits_pair (take (i + length S) A) (drop (i + length S) A)"

definition first_match :: "u16 list \<Rightarrow> u16 list \<Rightarrow> int option \<Rightarrow> bool" where
  "first_match A S r \<longleftrightarrow> (case r of None \<Rightarrow> \<forall>j. \<not> match_at A S j
     | Some k \<Rightarrow> \<exists>i. k = int i \<and> match_at A S i \<and> (\<forall>j < i. \<not> match_at A S j))"

definition last_match :: "u16 list \<Rightarrow> u16 list \<Rightarrow> int option \<Rightarrow> bool" where
  "last_match A S r \<longleftrightarrow> (case r of None \<Rightarrow> \<forall>j. \<not> match_at A S j
     | Some k \<Rightarrow> \<exists>i. k = int i \<and> match_at A S i \<and> (\<forall>j > i. \<not> match_at A S j))"

text \<open>The unit behind a text that ends with a lead surrogate can be read and is no trail surrogate.\<close>

definition tail_ok :: "u16 list \<Rightarrow> u16 list \<Rightarrow> bool" where
  "tail_ok A rest \<longleftrightarrow> (A \<noteq> [] \<and> U16_IS_LEAD (last A) \<longrightarrow> (\<exists>c r. rest = c # r \<and> \<not> U16_IS_TRAIL c))"

lemma match_at_bound: "match_at A S i \<Longrightarrow> i + length S \<le> length A"
  by (simp add: match_at_def)

lemma isMatch_ok:
  assumes "tail_ok A rest" "i < m" "m \<le> length A" "limit \<noteq> Some (int i)"
  shows "isMatchAtCPBoundary (A @ rest) (int i) (int m) limit =
    Some (\<not> splits_pair (take i A) (drop i A) \<and> \<not> splits_pair (take m A) (drop m A))"
proof -
  have i: "rd (A @ rest) (int i) = Some (A ! i)" "i < length A" using assms(2,3) by (simp_all add: nth_append)
  have hd: "hd (drop k A) = A ! k" "drop k A \<noteq> []" if "k < length A" for k using that by (simp_all add: hd_drop_conv_nth)
  have last: "last (take k A) = A ! (k - 1)" "take k A \<noteq> []" if "0 < k" "k \<le> length A" for k
  proof -
    show ne: "take k A \<noteq> []" using that by auto
    show "last (take k A) = A ! (k - 1)" using that by (simp add: last_conv_nth [OF ne] min.absorb2)
  qed
  have front: "splits_pair (take i A) (drop i A) \<longleftrightarrow> 0 < i \<and> U16_IS_LEAD (A ! (i - 1)) \<and> U16_IS_TRAIL (A ! i)"
    using hd [OF i(2)] last [of i] i(2) by (cases "i = 0") (auto simp: splits_pair_def)
  have "int i \<noteq> 0 \<Longrightarrow> rd (A @ rest) (int i - 1) = Some (A ! (i - 1))" using i(2) by (cases i) (auto simp: rd_def nth_append)
  then have f: "(if U16_IS_TRAIL (A ! i) \<and> int i \<noteq> 0 then map_option U16_IS_LEAD (rd (A @ rest) (int i - 1)) else Some False) =
      Some (splits_pair (take i A) (drop i A))" using front by auto
  have l: "rd (A @ rest) (int m - 1) = Some (A ! (m - 1))" using assms(2,3) by (cases m) (auto simp: rd_def nth_append)
  have cut: "(if U16_IS_LEAD (A ! (m - 1)) \<and> limit \<noteq> Some (int i) then map_option U16_IS_TRAIL (rd (A @ rest) (int m)) else Some False) =
      Some (splits_pair (take m A) (drop m A))"
  proof (cases "m < length A")
    case True
    then show ?thesis using hd [OF True] last [of m] assms(2,4) by (auto simp: splits_pair_def nth_append)
  next
    case False
    then have m: "m = length A" using assms(3) by simp
    have ne: "A \<noteq> []" using assms(2,3) by auto
    then have "last A = A ! (m - 1)" using m by (simp add: last_conv_nth)
    then show ?thesis using assms(1) m ne by (auto simp: splits_pair_def tail_ok_def rd_def nth_append)
  qed
  show ?thesis unfolding isMatchAtCPBoundary_def i(1) bind.bind_lunit f l cut by simp
qed

section \<open>Forward\<close>

definition rest_ends :: "int option \<Rightarrow> u16 list \<Rightarrow> u16 list \<Rightarrow> u16 list \<Rightarrow> bool" where
  "rest_ends subLimit spre Y srest \<longleftrightarrow> (case subLimit of None \<Rightarrow> 0 \<notin> set Y \<and> (\<exists>r. srest = 0 # r) | Some l \<Rightarrow> l = int (length spre + length Y))"

lemma match_rest_ok:
  "rest_ends subLimit spre Y srest \<Longrightarrow> if nul then 0 \<notin> set X \<and> (\<exists>r. rest = 0 # r) else length Y \<le> length X \<Longrightarrow>
   (take (length Y) X = Y \<longrightarrow> match_rest (pre @ X @ rest) (int (length pre)) (spre @ Y @ srest) (int (length spre)) subLimit nul =
     Some (Matched (int (length pre + length Y)))) \<and>
   (take (length Y) X \<noteq> Y \<longrightarrow>
     match_rest (pre @ X @ rest) (int (length pre)) (spre @ Y @ srest) (int (length spre)) subLimit nul = Some Differs \<or>
     length X < length Y \<and>
     match_rest (pre @ X @ rest) (int (length pre)) (spre @ Y @ srest) (int (length spre)) subLimit nul = Some Text_ends)"
proof (induction Y arbitrary: pre X spre)
  case Nil
  then show ?case by (subst (1 2 3) match_rest.simps) (auto simp: rest_ends_def nth_append split: option.splits)
next
  case (Cons y Y)
  have sub: "rd (spre @ (y # Y) @ srest) (int (length spre)) = Some y" by (simp add: nth_append)
  have more: "(case subLimit of None \<Rightarrow> map_option (\<lambda>c. c = 0) (rd (spre @ (y # Y) @ srest) (int (length spre)))
      | Some limit \<Rightarrow> Some (int (length spre) = limit)) = Some False"
    using Cons.prems(1) sub by (auto simp: rest_ends_def split: option.splits)
  show ?case
  proof (cases X)
    case Nil
    then obtain r where "nul" "rest = 0 # r" using Cons.prems(2) by (auto split: if_splits)
    then have "match_rest (pre @ X @ rest) (int (length pre)) (spre @ (y # Y) @ srest) (int (length spre)) subLimit nul = Some Text_ends"
      using Nil more by (subst match_rest.simps) (simp add: nth_append)
    then show ?thesis using Nil by simp
  next
    case X: (Cons x X')
    have c: "rd (pre @ X @ rest) (int (length pre)) = Some x" "\<not> (nul \<and> x = 0)" using X Cons.prems(2) by (auto simp: nth_append)
    have step: "match_rest (pre @ X @ rest) (int (length pre)) (spre @ (y # Y) @ srest) (int (length spre)) subLimit nul =
        (if x \<noteq> y then Some Differs
         else match_rest (pre @ X @ rest) (int (length pre) + 1) (spre @ (y # Y) @ srest) (int (length spre) + 1) subLimit nul)"
      using more c sub by (subst match_rest.simps) auto
    show ?thesis
    proof (cases "x = y")
      case False
      then show ?thesis unfolding step using X by simp
    next
      case True
      have "rest_ends subLimit (spre @ [y]) Y srest" using Cons.prems(1) by (auto simp: rest_ends_def split: option.splits)
      moreover have "if nul then 0 \<notin> set X' \<and> (\<exists>r. rest = 0 # r) else length Y \<le> length X'" using Cons.prems(2) X by (auto split: if_splits)
      ultimately show ?thesis using Cons.IH [of "spre @ [y]" X' "pre @ [x]"] unfolding step using True X by (simp add: add.commute)
    qed
  qed
qed

text \<open>Where the loop over the string stops: at its NUL or where the rest is too short.\<close>

definition loop_ends :: "u16 list \<Rightarrow> u16 list \<Rightarrow> u16 list \<Rightarrow> int option \<Rightarrow> int option \<Rightarrow> bool" where
  "loop_ends A rest S preLimit limit \<longleftrightarrow>
     (if preLimit = None then 0 \<notin> set A \<and> (\<exists>r. rest = 0 # r) \<and> limit = None
      else length S \<le> length A \<and> preLimit = Some (int (length A - length S) + 1) \<and> limit = Some (int (length A)))"

lemma find_loop_ok:
  assumes S: "S = cs # S'" "rest_ends subLimit [] S srest" and A: "loop_ends A rest S preLimit limit" "tail_ok A rest"
  shows "i \<le> length A \<Longrightarrow> preLimit \<noteq> None \<longrightarrow> i \<le> length A - length S + 1 \<Longrightarrow> \<forall>j < i. \<not> match_at A S j \<Longrightarrow>
    \<exists>r. find_loop (A @ rest) (int i) (S @ srest) cs subLimit preLimit limit = Some r \<and> first_match A S r"
proof (induction "length A - i" arbitrary: i rule: less_induct)
  case less
  have sub: "rest_ends subLimit [cs] S' srest" using S by (auto simp: rest_ends_def split: option.splits)
  have late: "\<not> match_at A S j" if "length A < j + length S" for j using match_at_bound [of A S j] that by auto
  show ?case
  proof (cases "preLimit = Some (int i)")
    case True
    then have "length A < i + length S" using A(1) by (auto simp: loop_ends_def)
    then have "\<not> match_at A S j" for j using less.prems(3) late [of j] by (cases "j < i") auto
    then show ?thesis using True by (subst find_loop.simps) (simp add: first_match_def)
  next
    case nl: False
    show ?thesis
    proof (cases "i < length A")
      case False
      then have i: "i = length A" using less.prems(1) by simp
      moreover have "preLimit = None"
      proof (rule ccontr)
        assume "preLimit \<noteq> None"
        then show False using nl less.prems(2) A(1) i S(1) by (cases S') (auto simp: loop_ends_def split: if_splits)
      qed
      moreover from this obtain r where "rest = 0 # r" using A(1) by (auto simp: loop_ends_def)
      moreover have "\<not> match_at A S j" for j using less.prems(3) late [of j] i S(1) by (cases "j < i") auto
      ultimately show ?thesis by (subst find_loop.simps) (simp add: nth_append first_match_def)
    next
      case True
      have c: "rd (A @ rest) (int i) = Some (A ! i)" "\<not> (preLimit = None \<and> A ! i = 0)"
      proof -
        have "A ! i \<in> set A" using True by simp
        then show "\<not> (preLimit = None \<and> A ! i = 0)" using A(1) by (metis loop_ends_def)
      qed (use True in \<open>simp add: nth_append\<close>)
      have room: "preLimit \<noteq> None \<Longrightarrow> i + length S \<le> length A"
        using nl less.prems(2) A(1) by (auto simp: loop_ends_def split: if_splits)
      have next_ok: "\<exists>r. find_loop (A @ rest) (int i + 1) (S @ srest) cs subLimit preLimit limit = Some r \<and> first_match A S r" if "\<not> match_at A S i"
      proof -
        have "\<forall>j < Suc i. \<not> match_at A S j" using that less.prems(3) by (auto simp: less_Suc_eq)
        moreover have "preLimit \<noteq> None \<longrightarrow> Suc i \<le> length A - length S + 1" using room by auto
        moreover have "length A - Suc i < length A - i" using True by simp
        ultimately have "\<exists>r. find_loop (A @ rest) (int (Suc i)) (S @ srest) cs subLimit preLimit limit = Some r \<and> first_match A S r"
          using less.hyps [of "Suc i"] True by simp
        then show ?thesis by (simp add: add.commute)
      qed
      define X where "X = drop (Suc i) A"
      have AX: "A @ rest = take (Suc i) A @ X @ rest" "length (take (Suc i) A) = Suc i" using True by (simp_all add: X_def)
      have drop: "drop i A = A ! i # X" using True by (simp add: X_def Cons_nth_drop_Suc)
      have nul: "if preLimit = None then 0 \<notin> set X \<and> (\<exists>r. rest = 0 # r) else length S' \<le> length X"
        using A(1) room S(1) True unfolding X_def by (auto simp: loop_ends_def dest: in_set_dropD)
      note m = match_rest_ok [OF sub nul, of "take (Suc i) A", folded AX(1)]
      define M where "M = match_rest (A @ rest) (int i + 1) (S @ srest) 1 subLimit (preLimit = None)"
      have m: "take (length S') X = S' \<longrightarrow> M = Some (Matched (int (i + length S)))"
        "take (length S') X \<noteq> S' \<longrightarrow> M = Some Differs \<or> length X < length S' \<and> M = Some Text_ends"
        using m S(1) AX(2) by (simp_all add: M_def add.commute)
      have step: "find_loop (A @ rest) (int i) (S @ srest) cs subLimit preLimit limit =
          (if A ! i = cs then do {
             r \<leftarrow> M;
             case r of
               Matched p \<Rightarrow> do {
                 ok \<leftarrow> isMatchAtCPBoundary (A @ rest) (int i) p limit;
                 if ok then Some (Some (int i)) else find_loop (A @ rest) (int i + 1) (S @ srest) cs subLimit preLimit limit }
             | Text_ends \<Rightarrow> Some None
             | Differs \<Rightarrow> find_loop (A @ rest) (int i + 1) (S @ srest) cs subLimit preLimit limit }
           else find_loop (A @ rest) (int i + 1) (S @ srest) cs subLimit preLimit limit)"
        using nl c by (subst find_loop.simps) (auto simp: M_def)
      show ?thesis
      proof (cases "A ! i = cs")
        case False
        then have "\<not> match_at A S i" using drop S(1) by (simp add: match_at_def)
        then show ?thesis unfolding step using False next_ok by simp
      next
        case eq: True
        show ?thesis
        proof (cases "take (length S') X = S'")
          case False
          then have "\<not> match_at A S i" using drop S(1) by (simp add: match_at_def)
          moreover have "\<not> match_at A S j" if "length X < length S'" for j
          proof (cases "j < i")
            case False
            then show ?thesis using late [of j] that True S(1) by (simp add: X_def)
          qed (use less.prems(3) in simp)
          ultimately show ?thesis unfolding step using eq m(2) False next_ok by (auto simp: first_match_def)
        next
          case tk: True
          then have "length S' \<le> length X" by (metis length_take min.cobounded1)
          then have len: "i + length S \<le> length A" using True S(1) by (simp add: X_def)
          have "limit \<noteq> Some (int i)" using A(1) True by (auto simp: loop_ends_def split: if_splits)
          then have "isMatchAtCPBoundary (A @ rest) (int i) (int (i + length S)) limit = Some (match_at A S i)"
            using isMatch_ok [OF A(2), of i "i + length S" limit] len S(1) drop eq tk by (simp add: match_at_def)
          then show ?thesis unfolding step using eq m(1) tk next_ok less.prems(3)
            by (cases "match_at A S i") (auto simp: first_match_def)
        qed
      qed
    qed
  qed
qed


text \<open>A unit that is no surrogate is a match wherever it stands.\<close>

lemma match_unit:
  assumes "\<not> U16_IS_SURROGATE c"
  shows "match_at A [c] i \<longleftrightarrow> i < length A \<and> A ! i = c"
proof -
  have c: "\<not> U16_IS_LEAD c" "\<not> U16_IS_TRAIL c" using assms by (auto simp: surrogate_iff lead_iff)
  show ?thesis
  proof (cases "i < length A \<and> A ! i = c")
    case True
    then have "drop i A = c # drop (Suc i) A" "last (take (Suc i) A) = c"
      by (simp_all add: Cons_nth_drop_Suc take_Suc_conv_app_nth flip: Cons_nth_drop_Suc)
    then show ?thesis using True c by (simp add: match_at_def splits_pair_def)
  next
    case False
    then show ?thesis by (auto simp: match_at_def take_Suc_conv_app_nth dest!: arg_cong [of _ _ hd] simp: hd_drop_conv_nth)
  qed
qed

lemma strchr_loop_ok:
  assumes "\<not> U16_IS_SURROGATE c" "c \<noteq> 0" "0 \<notin> set A"
  shows "i \<le> length A \<Longrightarrow> \<forall>j < i. \<not> match_at A [c] j \<Longrightarrow>
    \<exists>r. strchr_loop (A @ 0 # rest) (int i) c = Some r \<and> first_match A [c] r"
proof (induction "length A - i" arbitrary: i rule: less_induct)
  case less
  show ?case
  proof (cases "i < length A")
    case False
    then have "i = length A" using less.prems(1) by simp
    moreover have "\<not> match_at A [c] j" for j
      using less.prems(2) False match_unit [OF assms(1), of A j] by (cases "j < i") auto
    ultimately show ?thesis using assms(2) by (subst strchr_loop.simps) (auto simp: nth_append first_match_def)
  next
    case True
    then have r: "rd (A @ 0 # rest) (int i) = Some (A ! i)" "A ! i \<noteq> 0" using assms(3) nth_mem [OF True] by (auto simp: nth_append simp del: nth_mem)
    show ?thesis
    proof (cases "A ! i = c")
      case eq: True
      then show ?thesis using r True less.prems(2) match_unit [OF assms(1)]
        by (subst strchr_loop.simps) (simp add: first_match_def)
    next
      case False
      then have "\<forall>j < Suc i. \<not> match_at A [c] j" using less.prems(2) match_unit [OF assms(1)] by (auto simp: less_Suc_eq)
      then have "\<exists>r. strchr_loop (A @ 0 # rest) (int (Suc i)) c = Some r \<and> first_match A [c] r"
        using less.hyps [of "Suc i"] True by simp
      then show ?thesis using r False by (subst strchr_loop.simps) (simp add: add.commute)
    qed
  qed
qed

lemma memchr_loop_ok:
  assumes "\<not> U16_IS_SURROGATE c"
  shows "i < length A \<Longrightarrow> \<forall>j < i. \<not> match_at A [c] j \<Longrightarrow>
    \<exists>r. memchr_loop (A @ rest) (int i) c (int (length A)) = Some r \<and> first_match A [c] r"
proof (induction "length A - i" arbitrary: i rule: less_induct)
  case less
  then have r: "rd (A @ rest) (int i) = Some (A ! i)" by (simp add: nth_append)
  show ?case
  proof (cases "A ! i = c")
    case eq: True
    then show ?thesis using r less.prems match_unit [OF assms(1)]
      by (subst memchr_loop.simps) (simp add: first_match_def)
  next
    case False
    then have none: "\<forall>j < Suc i. \<not> match_at A [c] j" using less.prems(2) match_unit [OF assms(1)] by (auto simp: less_Suc_eq)
    show ?thesis
    proof (cases "Suc i = length A")
      case True
      then have "\<not> match_at A [c] j" for j using none match_unit [OF assms(1), of A j] by (cases "j < Suc i") auto
      moreover have "int i + 1 = int (length A)" using True by simp
      ultimately show ?thesis using r False by (subst memchr_loop.simps) (simp add: first_match_def)
    next
      case more: False
      then have "\<exists>r. memchr_loop (A @ rest) (int (Suc i)) c (int (length A)) = Some r \<and> first_match A [c] r"
        using less.hyps [of "Suc i"] less.prems none by simp
      moreover have "int i + 1 \<noteq> int (length A)" using more by linarith
      ultimately show ?thesis using r False by (subst memchr_loop.simps) (simp add: add.commute)
    qed
  qed
qed

lemma match_empty: "match_at A [] 0"
  by (simp add: match_at_def splits_pair_def)

text \<open>What the searches need of the memory behind the text, if that has a length: a fault, see below.\<close>

definition searchable :: "u16 list \<Rightarrow> int \<Rightarrow> u16 list \<Rightarrow> bool" where
  "searchable s len A \<longleftrightarrow> denotes s len False A \<and> -1 \<le> len \<and> (0 \<le> len \<longrightarrow> tail_ok A (drop (nat len) s))"

lemma searchableE:
  assumes "searchable s len A"
  obtains rest where "s = A @ rest" "tail_ok A rest" "len = -1 \<and> 0 \<notin> set A \<and> (\<exists>r. rest = 0 # r) \<or> len = int (length A)"
proof (cases "len = -1")
  case True
  then have "0 \<in> set s" "A = c_string s" using assms by (simp_all add: searchable_def denotes_def)
  then obtain r where r: "s = A @ 0 # r" "0 \<notin> set A" using c_string_split by blast
  have "\<not> U16_IS_TRAIL 0" by (rule not_trail_0)
  then show thesis using that [of "0 # r"] r True by (auto simp: tail_ok_def)
next
  case False
  then have "0 \<le> len" "len \<le> int (length s)" "A = take (nat len) s" "tail_ok A (drop (nat len) s)"
    using assms by (auto simp: searchable_def denotes_def split: if_splits)
  then show thesis using that [of "drop (nat len) s"] by simp
qed

text \<open>The substring: the search reads its units, and its NUL if it has no length.\<close>

lemma substringE:
  assumes "denotes sub subLength False S" "-1 \<le> subLength"
  obtains srest where "sub = S @ srest" "subLength = -1 \<and> 0 \<notin> set S \<and> (\<exists>r. srest = 0 # r) \<or> subLength = int (length S)"
    "(if subLength < 0 then u_strlen sub else Some subLength) = Some (int (length S))"
proof -
  note l = denotes_len [OF assms(1)]
  have "subLength = -1 \<and> 0 \<notin> set S \<and> (\<exists>r. drop (length S) sub = 0 # r) \<or> subLength = int (length S)"
  proof (cases "subLength = -1")
    case True
    then have "0 \<in> set sub" "S = c_string sub" using assms by (simp_all add: denotes_def)
    then obtain r where r: "sub = S @ 0 # r" "0 \<notin> set S" using c_string_split by blast
    then have "drop (length S) sub = 0 # r" by (metis append_eq_conv_conj)
    then show ?thesis using r(2) True by blast
  next
    case False
    then show ?thesis using assms l by auto
  qed
  then show thesis using that [of "drop (length S) sub"] l by blast
qed

text \<open>
  C8: \<open>u_strFindFirst\<close> returns the first place where the substring stands in the text without cutting a surrogate pair
  of it at either end, or NULL if there is none, for texts and substrings with and without a length. If a text with a
  length ends with a lead surrogate, the unit behind the text must be readable and no trail surrogate: a fault of the code.
\<close>
theorem u_strFindFirst_correct:
  assumes "searchable s len A" "denotes sub subLength False S" "-1 \<le> subLength" "\<not> (len = -1 \<and> S = [0])"
  shows "\<exists>r. u_strFindFirst (Some s) len (Some sub) subLength = Some r \<and> first_match A S r"
proof -
  obtain rest where s: "s = A @ rest" "tail_ok A rest" "len = -1 \<and> 0 \<notin> set A \<and> (\<exists>r. rest = 0 # r) \<or> len = int (length A)"
    using searchableE [OF assms(1)] by blast
  obtain srest where sub: "sub = S @ srest" "subLength = -1 \<and> 0 \<notin> set S \<and> (\<exists>r. srest = 0 # r) \<or> subLength = int (length S)"
    "(if subLength < 0 then u_strlen sub else Some subLength) = Some (int (length S))"
    using substringE [OF assms(2,3)] by blast
  have len: "\<not> len < -1" "\<not> subLength < -1" using s(3) sub(2) by auto
  show ?thesis
  proof (cases S)
    case Nil
    have "first_match A S (Some 0)" unfolding Nil first_match_def option.case using match_empty by (intro exI [of _ 0]) simp
    moreover have "u_strFindFirst (Some s) len (Some sub) subLength = Some (Some 0)"
    proof (cases "len < 0 \<and> subLength < 0")
      case True
      then show ?thesis using sub(1,2) Nil len by (auto simp: u_strFindFirst_def)
    next
      case False
      then show ?thesis using sub(3) Nil len by (auto simp: u_strFindFirst_def)
    qed
    ultimately show ?thesis by blast
  next
    case (Cons cs S')
    have r0: "rd sub 0 = Some cs" using Cons by (simp add: sub(1))
    have ends: "rest_ends (Some (int (length S))) [] S srest" by (simp add: rest_ends_def)
    show ?thesis
    proof (cases "len < 0 \<and> subLength < 0")
      case True
      then obtain r q where z: "0 \<notin> set A" "rest = 0 # r" "0 \<notin> set S" "srest = 0 # q" using s(3) sub(2) by auto
      have cs: "cs \<noteq> 0" using z(3) Cons by auto
      have r1: "\<exists>c. rd sub 1 = Some c \<and> (c = 0 \<longleftrightarrow> S' = [])" using Cons z(3,4) by (cases S') (auto simp: sub(1))
      have loop: "loop_ends A rest S None None" "rest_ends None [] S srest" using z by (auto simp: loop_ends_def rest_ends_def)
      have run: "u_strFindFirst (Some s) len (Some sub) subLength =
          (if S' = [] \<and> \<not> U16_IS_SURROGATE cs then strchr_loop s 0 cs else find_loop s 0 sub cs None None None)"
        using r0 r1 cs True len by (auto simp: u_strFindFirst_def)
      show ?thesis
      proof (cases "S' = [] \<and> \<not> U16_IS_SURROGATE cs")
        case unit: True
        then show ?thesis using strchr_loop_ok [of cs A 0 r] cs z run Cons s(1) by simp
      next
        case False
        then show ?thesis using find_loop_ok [OF Cons loop(2,1) s(2), of 0] run s(1) sub(1) by auto
      qed
    next
      case False
      have run: "u_strFindFirst (Some s) len (Some sub) subLength =
          (if int (length S) - 1 = 0 \<and> \<not> U16_IS_SURROGATE cs then if len < 0 then strchr_loop s 0 cs else memchr_unit s cs len
           else if len < 0 then find_loop s 0 sub cs (Some (int (length S))) None None
           else if len \<le> int (length S) - 1 then Some None
           else find_loop s 0 sub cs (Some (int (length S))) (Some (len - (int (length S) - 1))) (Some len))"
      proof -
        have "(int (length S) = 0) = False" "(len < 0 \<and> subLength < 0) = False" "(len < -1) = False" "(subLength < -1) = False"
          using False len Cons by auto
        then show ?thesis by (simp only: u_strFindFirst_def option.case sub(3) r0 if_False bind.bind_lunit)
      qed
      show ?thesis
      proof (cases "len < 0")
        case neg: True
        then obtain r where z: "0 \<notin> set A" "rest = 0 # r" "len = -1" using s(3) by auto
        show ?thesis
        proof (cases "int (length S) - 1 = 0 \<and> \<not> U16_IS_SURROGATE cs")
          case unit: True
          then have "S = [cs]" using Cons by simp
          moreover from this have "cs \<noteq> 0" using assms(4) z(3) by auto
          ultimately show ?thesis using strchr_loop_ok [of cs A 0 r] z unit run s(1) neg by simp
        next
          case no: False
          have "loop_ends A rest S None None" using z by (auto simp: loop_ends_def)
          from find_loop_ok [OF Cons ends this s(2), of 0] show ?thesis using run no neg s(1) sub(1) by auto
        qed
      next
        case pos: False
        then have l: "len = int (length A)" using s(3) by auto
        show ?thesis
        proof (cases "int (length S) - 1 = 0 \<and> \<not> U16_IS_SURROGATE cs")
          case unit: True
          then have S1: "S = [cs]" using Cons by simp
          show ?thesis
          proof (cases "A = []")
            case True
            then have "first_match A S None" using match_unit [of cs A] unit S1 by (simp add: first_match_def)
            then show ?thesis using run unit pos l True by (simp add: memchr_unit_def)
          next
            case ne: False
            then show ?thesis using memchr_loop_ok [of cs 0 A rest] unit run pos l S1 s(1) by (simp add: memchr_unit_def)
          qed
        next
          case no: False
          show ?thesis
          proof (cases "len \<le> int (length S) - 1")
            case True
            then have "\<not> match_at A S j" for j using match_at_bound [of A S j] l by auto
            then show ?thesis using run no pos True by (auto simp: first_match_def)
          next
            case fits: False
            then have "loop_ends A rest S (Some (len - (int (length S) - 1))) (Some len)" using l by (auto simp: loop_ends_def of_nat_diff)
            then have "\<exists>r. find_loop s 0 sub cs (Some (int (length S))) (Some (len - (int (length S) - 1))) (Some len) = Some r \<and> first_match A S r"
              using find_loop_ok [OF Cons ends _ s(2), of "Some (len - (int (length S) - 1))" "Some len" 0] s(1) sub(1) by simp
            moreover have "u_strFindFirst (Some s) len (Some sub) subLength =
                find_loop s 0 sub cs (Some (int (length S))) (Some (len - (int (length S) - 1))) (Some len)"
              unfolding run using no pos fits by auto
            ultimately show ?thesis by simp
          qed
        qed
      qed
    qed
  qed
qed

text \<open>A fault: where the text ends with a lead surrogate, the unit behind the text is read.\<close>

lemma find_reads_past_end: "u_strFindFirst (Some [0xd800]) 1 (Some [0xd800]) 1 = None"
  by code_simp

text \<open>And what that unit is decides whether the match is found.\<close>

lemma find_misses_match: "u_strFindFirst (Some [0xd800, 0xdc00]) 1 (Some [0xd800]) 1 = Some None"
  by code_simp


section \<open>Backward\<close>

lemma match_rest_back_ok:
  "q \<le> p \<Longrightarrow> p \<le> length A \<Longrightarrow> q \<le> length S \<Longrightarrow>
   match_rest_back (A @ rest) (int p) (S @ srest) (int q) = Some (if take q (drop (p - q) A) = take q S then Some (int (p - q)) else None)"
proof (induction q arbitrary: p)
  case 0
  then show ?case by (subst match_rest_back.simps) simp
next
  case (Suc q)
  then obtain p' where p: "p = Suc p'" by (cases p) auto
  have rds: "rd (A @ rest) (int p') = Some (A ! p')" "rd (S @ srest) (int q) = Some (S ! q)"
    using Suc.prems p by (simp_all add: nth_append)
  have "take (Suc q) (drop (p - Suc q) A) = take q (drop (p' - q) A) @ [A ! p']" using Suc.prems p by (simp add: take_Suc_conv_app_nth)
  moreover have "take (Suc q) S = take q S @ [S ! q]" using Suc.prems(3) by (simp add: take_Suc_conv_app_nth)
  ultimately have tk: "take (Suc q) (drop (p - Suc q) A) = take (Suc q) S \<longleftrightarrow> take q (drop (p' - q) A) = take q S \<and> A ! p' = S ! q"
    by (simp only: append1_eq_conv)
  have IH: "match_rest_back (A @ rest) (int p') (S @ srest) (int q) = Some (if take q (drop (p' - q) A) = take q S then Some (int (p - Suc q)) else None)"
    using Suc.IH [of p'] Suc.prems p by simp
  have "match_rest_back (A @ rest) (int p) (S @ srest) (int (Suc q)) =
      (if A ! p' \<noteq> S ! q then Some None else match_rest_back (A @ rest) (int p') (S @ srest) (int q))"
    using p rds by (subst match_rest_back.simps) simp
  then show ?case unfolding IH tk by (cases "A ! p' = S ! q") simp_all
qed

lemma find_last_loop_ok:
  assumes S: "S \<noteq> []" "cs = last S" and A: "tail_ok A rest"
  shows "length S - 1 \<le> l \<Longrightarrow> l \<le> length A \<Longrightarrow> \<forall>j. l < j + length S \<longrightarrow> \<not> match_at A S j \<Longrightarrow>
    \<exists>r. find_last_loop (A @ rest) (int (length S) - 1) (int l) (S @ srest) cs (int (length S) - 1) (int (length A)) = Some r \<and> last_match A S r"
proof (induction l rule: less_induct)
  case (less l)
  have n: "0 < length S" "int (length S) - 1 = int (length S - 1)" using S(1) by (simp_all add: of_nat_diff Suc_leI)
  show ?case
  proof (cases "l = length S - 1")
    case True
    then have "l < j + length S" for j using n(1) by linarith
    then have "\<not> match_at A S j" for j using less.prems(3) by blast
    then have "last_match A S None" by (simp add: last_match_def)
    moreover have low: "int (length S) - 1 = int l" using n(2) True by metis
    ultimately show ?thesis unfolding low by (subst find_last_loop.simps) simp
  next
    case False
    then have "length S \<le> l" using less.prems(1) n(1) by linarith
    then have l: "length S \<le> l" "0 < l" "int (length S) - 1 \<noteq> int l" using n(1) by linarith+
    define i where "i = l - length S"
    have i: "l = i + length S" "i < l" unfolding i_def using l n(1) by linarith+
    have c: "rd (A @ rest) (int l - 1) = Some (A ! (l - 1))" using l less.prems(2) by (cases l) (auto simp: rd_def nth_append)
    have tk: "take (length S) (drop i A) = take (length S - 1) (drop i A) @ [A ! (l - 1)]"
    proof -
      obtain k where k: "length S = Suc k" using n(1) gr0_conv_Suc by blast
      then have "k < length (drop i A)" "l - 1 = i + k" using i(1) less.prems(2) by simp_all
      then show ?thesis using take_Suc_conv_app_nth [of k "drop i A"] k by simp
    qed
    have Ssplit: "S = take (length S - 1) S @ [cs]" using S append_butlast_last_id [of S] butlast_conv_take [of S] by metis
    have eq: "take (length S) (drop i A) = S \<longleftrightarrow> take (length S - 1) (drop i A) = take (length S - 1) S \<and> A ! (l - 1) = cs"
      unfolding tk by (subst Ssplit) simp
    have next_ok: "\<exists>r. find_last_loop (A @ rest) (int (length S) - 1) (int l - 1) (S @ srest) cs (int (length S) - 1) (int (length A)) = Some r \<and> last_match A S r"
      if "\<not> match_at A S i"
    proof -
      have "\<not> match_at A S j" if "l - 1 < j + length S" for j
      proof (cases "j = i")
        case False
        then have "l < j + length S" using that i l(2) by linarith
        then show ?thesis using less.prems(3) by blast
      qed (use \<open>\<not> match_at A S i\<close> in simp)
      then have "\<exists>r. find_last_loop (A @ rest) (int (length S) - 1) (int (l - 1)) (S @ srest) cs (int (length S) - 1) (int (length A)) = Some r \<and> last_match A S r"
        using less.IH [of "l - 1"] l less.prems(2) by auto
      moreover have "int (l - 1) = int l - 1" using l(2) by simp
      ultimately show ?thesis by simp
    qed
    have behind: "match_rest_back (A @ rest) (int l - 1) (S @ srest) (int (length S) - 1) =
        Some (if take (length S - 1) (drop i A) = take (length S - 1) S then Some (int i) else None)"
    proof -
      have *: "int l - 1 = int (l - 1)" "l - 1 - (length S - 1) = i" unfolding i_def using l(1,2) n(1) by linarith+
      have "length S - 1 \<le> l - 1" "l - 1 \<le> length A" "length S - 1 \<le> length S" using l less.prems(2) by linarith+
      then show ?thesis unfolding n(2) *(1) by (subst match_rest_back_ok) (simp_all only: *(2))
    qed
    have iok: "isMatchAtCPBoundary (A @ rest) (int i) (int l) (Some (int (length A))) =
        Some (\<not> splits_pair (take i A) (drop i A) \<and> \<not> splits_pair (take l A) (drop l A))"
      by (rule isMatch_ok [OF A i(2) less.prems(2)]) (use i(2) less.prems(2) in simp)
    have m: "match_at A S i \<longleftrightarrow> take (length S) (drop i A) = S \<and> \<not> splits_pair (take i A) (drop i A) \<and> \<not> splits_pair (take l A) (drop l A)"
      using i(1) less.prems(2) by (auto simp: match_at_def)
    have found: "last_match A S (Some (int i))" if "match_at A S i"
      using that less.prems(3) i(1) by (auto simp: last_match_def)
    show ?thesis
    proof (cases "A ! (l - 1) = cs \<and> take (length S - 1) (drop i A) = take (length S - 1) S")
      case True
      then show ?thesis using next_ok found c l(3) behind iok m eq
        by (subst find_last_loop.simps) (cases "match_at A S i"; auto)
    next
      case no: False
      then have "\<not> match_at A S i" using m eq by blast
      then show ?thesis using next_ok no c l(3) behind by (subst find_last_loop.simps) auto
    qed
  qed
qed

definition last_below :: "u16 list \<Rightarrow> u16 list \<Rightarrow> nat \<Rightarrow> int option \<Rightarrow> bool" where
  "last_below A S i r \<longleftrightarrow> (case r of None \<Rightarrow> \<forall>j < i. \<not> match_at A S j
     | Some k \<Rightarrow> \<exists>m. k = int m \<and> m < i \<and> match_at A S m \<and> (\<forall>j. m < j \<and> j < i \<longrightarrow> \<not> match_at A S j))"

lemma strrchr_loop_ok:
  assumes "\<not> U16_IS_SURROGATE c" "c \<noteq> 0" "0 \<notin> set A"
  shows "i \<le> length A \<Longrightarrow> last_below A [c] i r \<Longrightarrow>
    \<exists>r'. strrchr_loop (A @ 0 # rest) (int i) c r = Some r' \<and> last_match A [c] r'"
proof (induction "length A - i" arbitrary: i r rule: less_induct)
  case less
  show ?case
  proof (cases "i < length A")
    case False
    then have i: "i = length A" using less.prems(1) by simp
    have "\<not> match_at A [c] j" if "\<not> j < i" for j using that i match_unit [OF assms(1), of A j] by simp
    then have "last_match A [c] r" using less.prems(2) i by (cases r) (auto simp: last_below_def last_match_def)
    then show ?thesis using i assms(2) by (subst strrchr_loop.simps) (simp add: nth_append Let_def)
  next
    case True
    then have rd: "rd (A @ 0 # rest) (int i) = Some (A ! i)" "A ! i \<noteq> 0" using assms(3) nth_mem [OF True] by (auto simp: nth_append simp del: nth_mem)
    have "last_below A [c] (Suc i) (if A ! i = c then Some (int i) else r)"
      using less.prems(2) True match_unit [OF assms(1), of A i] by (cases r) (auto simp: last_below_def less_Suc_eq)
    then have "\<exists>r'. strrchr_loop (A @ 0 # rest) (int (Suc i)) c (if A ! i = c then Some (int i) else r) = Some r' \<and> last_match A [c] r'"
      using less.hyps [of "Suc i"] True by simp
    then show ?thesis using rd by (subst strrchr_loop.simps) (simp add: Let_def add.commute)
  qed
qed

lemma memrchr_loop_ok:
  assumes "\<not> U16_IS_SURROGATE c"
  shows "0 < l \<Longrightarrow> l \<le> length A \<Longrightarrow> \<forall>j. l \<le> j \<longrightarrow> \<not> match_at A [c] j \<Longrightarrow>
    \<exists>r. memrchr_loop (A @ rest) (int l) c = Some r \<and> last_match A [c] r"
proof (induction l)
  case (Suc l)
  have rd: "rd (A @ rest) (int l) = Some (A ! l)" using Suc.prems(2) by (simp add: nth_append)
  show ?case
  proof (cases "A ! l = c")
    case True
    then have "last_match A [c] (Some (int l))" using Suc.prems match_unit [OF assms(1), of A l] by (auto simp: last_match_def)
    then show ?thesis using rd True by (subst memrchr_loop.simps) simp
  next
    case False
    then have none: "\<forall>j. l \<le> j \<longrightarrow> \<not> match_at A [c] j"
      using Suc.prems(3) match_unit [OF assms(1), of A l] by (metis le_less Suc_leI)
    show ?thesis
    proof (cases "l = 0")
      case True
      then show ?thesis using rd False none by (subst memrchr_loop.simps) (simp add: last_match_def)
    next
      case l: False
      then show ?thesis using rd False none Suc.IH Suc.prems(2) by (subst memrchr_loop.simps) simp
    qed
  qed
qed simp

text \<open>The backward search, under the same conditions.\<close>

lemma u_strFindLast_correct:
  assumes "searchable s len A" "denotes sub subLength False S" "-1 \<le> subLength" "\<not> (len = -1 \<and> S = [0])"
  shows "\<exists>r. u_strFindLast (Some s) len (Some sub) subLength = Some r \<and> (if S = [] then r = Some 0 else last_match A S r)"
proof -
  obtain rest where s: "s = A @ rest" "tail_ok A rest" "len = -1 \<and> 0 \<notin> set A \<and> (\<exists>r. rest = 0 # r) \<or> len = int (length A)"
    using searchableE [OF assms(1)] by blast
  obtain srest where sub: "sub = S @ srest" "subLength = -1 \<and> 0 \<notin> set S \<and> (\<exists>r. srest = 0 # r) \<or> subLength = int (length S)"
    "(if subLength < 0 then u_strlen sub else Some subLength) = Some (int (length S))"
    using substringE [OF assms(2,3)] by blast
  have len: "(len < -1) = False" "(subLength < -1) = False" using s(3) sub(2) by auto
  have slen: "(if len < 0 then u_strlen s else Some len) = Some (int (length A))"
    using denotes_len [of s len A] assms(1) by (simp add: searchable_def)
  show ?thesis
  proof (cases "S = []")
    case True
    have "u_strFindLast (Some s) len (Some sub) subLength = Some (Some 0)"
      using True by (simp only: u_strFindLast_def option.case len if_False sub(3) bind.bind_lunit list.size int_ops(1) simp_thms if_True)
    then show ?thesis using True by simp
  next
    case ne: False
    define cs where "cs = last S"
    have r0: "rd sub (int (length S) - 1) = Some cs" using ne by (cases S rule: rev_cases) (auto simp: sub(1) cs_def rd_def nth_append)
    have zero: "(int (length S) = 0) = False" using ne by simp
    have run: "u_strFindLast (Some s) len (Some sub) subLength =
        (if int (length S) - 1 = 0 \<and> \<not> U16_IS_SURROGATE cs then if len < 0 then strrchr_loop s 0 cs None else memrchr_unit s cs len
         else if int (length A) \<le> int (length S) - 1 then Some None
         else find_last_loop s (int (length S) - 1) (int (length A)) sub cs (int (length S) - 1) (int (length A)))"
      by (simp only: u_strFindLast_def option.case len if_False sub(3) bind.bind_lunit zero r0 slen)
    have "\<exists>r. u_strFindLast (Some s) len (Some sub) subLength = Some r \<and> last_match A S r"
    proof (cases "int (length S) - 1 = 0 \<and> \<not> U16_IS_SURROGATE cs")
      case unit: True
      then have S1: "S = [cs]" using ne by (cases S) (auto simp: cs_def)
      show ?thesis
      proof (cases "len < 0")
        case True
        then obtain r where z: "0 \<notin> set A" "rest = 0 # r" "len = -1" using s(3) by auto
        then have "cs \<noteq> 0" using S1 assms(4) by auto
        moreover have "last_below A [cs] 0 None" by (simp add: last_below_def)
        ultimately show ?thesis using strrchr_loop_ok [of cs A 0 None r] z unit True S1 s(1) unfolding run by simp
      next
        case False
        then have l: "len = int (length A)" using s(3) by auto
        show ?thesis
        proof (cases "A = []")
          case True
          then have "last_match A S None" using match_unit [of cs A] unit S1 by (simp add: last_match_def)
          then show ?thesis using unit False l True unfolding run by (simp add: memrchr_unit_def)
        next
          case A: False
          have "\<forall>j. length A \<le> j \<longrightarrow> \<not> match_at A [cs] j" using match_unit [of cs A] unit by auto
          then show ?thesis using memrchr_loop_ok [of cs "length A" A rest] A unit False l S1 s(1) unfolding run by (simp add: memrchr_unit_def)
        qed
      qed
    next
      case no: False
      show ?thesis
      proof (cases "int (length A) \<le> int (length S) - 1")
        case True
        then have "\<not> match_at A S j" for j using match_at_bound [of A S j] by auto
        then show ?thesis using no True unfolding run by (auto simp: last_match_def)
      next
        case fits: False
        have "\<forall>j. length A < j + length S \<longrightarrow> \<not> match_at A S j" using match_at_bound [of A S] by (meson not_le)
        then have "\<exists>r. find_last_loop s (int (length S) - 1) (int (length A)) sub cs (int (length S) - 1) (int (length A)) = Some r \<and> last_match A S r"
          using find_last_loop_ok [OF ne cs_def s(2), of "length A" srest] fits s(1) sub(1) by simp
        then show ?thesis using no fits unfolding run by auto
      qed
    qed
    then show ?thesis using ne by simp
  qed
qed


text \<open>Both at the text of two letters and a pair.\<close>

lemma example_search: "searchable [0x61, 0xd83d, 0xde00, 0x61, 0] (-1) [0x61, 0xd83d, 0xde00, 0x61]" "denotes [0x61, 7] 1 False [0x61]"
  "denotes [0xde00] 1 False [0xde00]"
  by (simp_all add: searchable_def denotes_def c_string_def)

theorem u_strFindFirst_correct_witness:
  "\<exists>r. u_strFindFirst (Some [0x61, 0xd83d, 0xde00, 0x61, 0]) (-1) (Some [0xde00]) 1 = Some r \<and>
    first_match [0x61, 0xd83d, 0xde00, 0x61] [0xde00] r"
  using u_strFindFirst_correct [OF example_search(1,3)] by simp

lemma u_strFindLast_correct_witness:
  "\<exists>r. u_strFindLast (Some [0x61, 0xd83d, 0xde00, 0x61, 0]) (-1) (Some [0x61, 7]) 1 = Some r \<and>
    last_match [0x61, 0xd83d, 0xde00, 0x61] [0x61] r"
  using u_strFindLast_correct [OF example_search(1,2)] by simp

section \<open>Sets of code points\<close>

lemma bmp_part_ok: "0 \<notin> set xs \<Longrightarrow> bmp_part (pre @ xs @ 0 # r) (int (length pre)) = Some (int (length pre + length (takeWhile U16_IS_SINGLE xs)))"
proof (induction xs arbitrary: pre)
  case Nil
  then show ?case by (subst bmp_part.simps) (simp add: nth_append)
next
  case (Cons x xs)
  have rd: "rd (pre @ (x # xs) @ 0 # r) (int (length pre)) = Some x" "x \<noteq> 0" using Cons.prems by (auto simp: nth_append)
  show ?case using rd Cons.IH [of "pre @ [x]"] Cons.prems by (subst bmp_part.simps) (simp add: add.commute)
qed

lemma in_units_ok: "in_units (pre @ xs @ r) (int (length pre)) (int (length pre + length xs)) c = Some (c \<in> set xs)"
proof (induction xs arbitrary: pre)
  case Nil
  then show ?case by (subst in_units.simps) simp
next
  case (Cons x xs)
  have "rd (pre @ (x # xs) @ r) (int (length pre)) = Some x" by (simp add: nth_append)
  then show ?case using Cons.IH [of "pre @ [x]"] by (subst in_units.simps) (simp add: add.commute)
qed

lemma in_code_points_ok:
  "0 \<le> i \<Longrightarrow> i \<le> n \<Longrightarrow> n \<le> int (length m) \<Longrightarrow> in_code_points m i n c = Some (c \<in> set (code_points (seg m i n)))"
proof (induction "nat (n - i)" arbitrary: i rule: less_induct)
  case less
  show ?case
  proof (cases "i < n")
    case True
    obtain d where d: "U16_NEXT m i n = Some (i + width16 d, d)" "i + width16 d \<le> n"
      "code_points (seg m i n) = d # code_points (seg m (i + width16 d) n)"
      using U16_NEXT_ok [OF less.prems(1) True less.prems(3)] by blast
    have w: "0 < width16 d" by (rule width16_pos)
    have "in_code_points m (i + width16 d) n c = Some (c \<in> set (code_points (seg m (i + width16 d) n)))"
      by (rule less.hyps) (use w d(2) less.prems True in simp_all)
    then show ?thesis using True d(1,3) by (subst in_code_points.simps) simp
  next
    case False
    then show ?thesis by (subst in_code_points.simps) simp
  qed
qed

lemma single_code_point: "U16_IS_SINGLE c \<Longrightarrow> c \<in> set M \<longleftrightarrow> uint c \<in> set (code_points M)"
proof (induction M rule: code_points.induct [case_names step none one])
  case (step u v str)
  have c: "\<not> U16_IS_LEAD c" "\<not> U16_IS_TRAIL c" using step.prems by (auto simp: U16_IS_SINGLE_def surrogate_iff lead_iff)
  show ?case
  proof (cases "U16_IS_LEAD u \<and> U16_IS_TRAIL v")
    case True
    then have "uint c \<noteq> U16_GET_SUPPLEMENTARY u v" using supplementary_bounds [of u v] uint_u16_bounds [of c] by auto
    then show ?thesis using step True c by auto
  next
    case False
    then show ?thesis using step by (auto simp: word_uint_eq_iff)
  qed
qed (auto simp: word_uint_eq_iff)

text \<open>The units in front of the first surrogate of the set need not be looked at for a code point that is none of them.\<close>

lemma rest_of_set:
  assumes "\<forall>u. U16_IS_SINGLE u \<longrightarrow> x \<noteq> uint u"
  shows "x \<in> set (code_points (dropWhile U16_IS_SINGLE M)) \<longleftrightarrow> x \<in> set (code_points M)"
proof -
  define B where "B = takeWhile U16_IS_SINGLE M"
  have single: "\<forall>u \<in> set B. U16_IS_SINGLE u" using set_takeWhileD unfolding B_def by fastforce
  have "\<not> splits_pair xs ys" if "\<forall>u \<in> set xs. U16_IS_SINGLE u" for xs ys
    using that by (cases xs rule: rev_cases) (auto simp: splits_pair_def U16_IS_SINGLE_def surrogate_iff lead_iff)
  then have "code_points M = code_points B @ code_points (dropWhile U16_IS_SINGLE M)"
    using code_points_append [of B "dropWhile U16_IS_SINGLE M"] single by (simp add: B_def)
  moreover have "code_points B = map uint B" using single
  proof (induction B rule: code_points.induct [case_names step none one])
    case (step u v str)
    then have "\<not> U16_IS_LEAD u" by (auto simp: U16_IS_SINGLE_def surrogate_iff lead_iff)
    then show ?case using step by simp
  qed simp_all
  ultimately show ?thesis using assms single by auto
qed

text \<open>The result of the search: the first code point that is in the set, or is not, or the length of the text.\<close>

definition set_result :: "int \<Rightarrow> int list \<Rightarrow> (int \<Rightarrow> bool) \<Rightarrow> int" where
  "set_result start cs P = (if \<exists>c \<in> set cs. P c then start + widths (takeWhile (\<lambda>c. \<not> P c) cs) else - (start + widths cs) - 1)"

lemma set_result_Cons: "set_result start (c # cs) P = (if P c then start else set_result (start + width16 c) cs P)"
  by (auto simp: set_result_def widths_def)

lemma match_loop_ok:
  assumes M: "m = M @ 0 # q" "b = int (length (takeWhile U16_IS_SINGLE M))"
  shows "0 \<notin> set A \<Longrightarrow> match_loop (pre @ A @ 0 # r) (int (length pre)) m b (int (length M)) polarity =
    Some (set_result (int (length pre)) (code_points A) (\<lambda>c. (c \<in> set (code_points M)) = polarity))"
proof (induction A arbitrary: pre rule: length_induct)
  case (1 A)
  let ?P = "\<lambda>c. (c \<in> set (code_points M)) = polarity"
  show ?case
  proof (cases A)
    case Nil
    then show ?thesis by (subst match_loop.simps) (simp add: nth_append set_result_def widths_def)
  next
    case (Cons u A')
    have u: "rd (pre @ A @ 0 # r) (int (length pre)) = Some u" "u \<noteq> 0" using Cons 1(2) by (auto simp: nth_append)
    have nxt: "rd (pre @ A @ 0 # r) (int (length pre) + 1) = Some (hd (A' @ [0]))"
      using Cons by (cases A') (auto simp: rd_def nth_append nat_add_distrib)
    have cps: "in_code_points m b (int (length M)) x = Some (x \<in> set (code_points M))" if "\<forall>u. U16_IS_SINGLE u \<longrightarrow> x \<noteq> uint u" for x
    proof -
      have bM: "b \<le> int (length M)" unfolding M(2) by (simp add: length_takeWhile_le)
      have "seg m b (int (length M)) = dropWhile U16_IS_SINGLE M"
        unfolding M seg_def by (simp add: dropWhile_eq_drop)
      then show ?thesis using in_code_points_ok [of b "int (length M)" m x] bM rest_of_set [OF that, of M] by (simp add: M)
    qed
    show ?thesis
    proof (cases "U16_IS_SINGLE u")
      case True
      then have nl: "\<not> U16_IS_LEAD u" by (auto simp: U16_IS_SINGLE_def surrogate_iff lead_iff)
      then have cp: "code_points A = uint u # code_points A'" "width16 (uint u) = 1"
        using Cons uint_u16_bounds [of u] by (cases A'; simp add: width16_def)+
      have "in_units m 0 (int (length M)) u = Some (uint u \<in> set (code_points M))"
        using in_units_ok [of "[]" M "0 # q" u] single_code_point [OF True, of M] by (simp add: M)
      then have "match_loop (pre @ A @ 0 # r) (int (length pre)) m b (int (length M)) polarity =
          (if ?P (uint u) then Some (int (length pre)) else match_loop ((pre @ [u]) @ A' @ 0 # r) (int (length (pre @ [u]))) m b (int (length M)) polarity)"
        using u True Cons by (subst match_loop.simps) (simp add: Let_def add.commute)
      also have "\<dots> = Some (set_result (int (length pre)) (code_points A) ?P)"
        using 1(1) [rule_format, of A' "pre @ [u]"] 1(2) Cons unfolding cp(1) set_result_Cons cp(2) by (simp add: add.commute)
      finally show ?thesis .
    next
      case False
      then have surr: "U16_IS_SURROGATE u" by (simp add: U16_IS_SINGLE_def)
      show ?thesis
      proof (cases "U16_IS_LEAD u \<and> A' \<noteq> [] \<and> U16_IS_TRAIL (hd A')")
        case True
        then obtain v A'' where v: "A' = v # A''" "U16_IS_LEAD u" "U16_IS_TRAIL v" by (cases A') auto
        define x where "x = U16_GET_SUPPLEMENTARY u v"
        have xb: "0x10000 \<le> x" using supplementary_bounds [OF v(2,3)] by (simp add: x_def)
        then have x: "\<forall>u. U16_IS_SINGLE u \<longrightarrow> x \<noteq> uint u" using uint_u16_bounds by (metis int_one_le_iff_zero_less le_less_trans linorder_not_less numeral_eq_iff order_less_le uint_u16_bounds(2))
        have w: "U16_LENGTH x = 2" "width16 x = 2" using xb by (simp_all add: U16_LENGTH_def width16_def)
        have cp: "code_points A = x # code_points A''" using Cons v by (simp add: x_def)
        have "match_loop (pre @ A @ 0 # r) (int (length pre)) m b (int (length M)) polarity =
            (if ?P x then Some (int (length pre)) else match_loop ((pre @ [u, v]) @ A'' @ 0 # r) (int (length (pre @ [u, v]))) m b (int (length M)) polarity)"
          using u nxt False surrogate_lead(1) [OF surr] v cps [OF x] w(1) Cons
          by (subst match_loop.simps) (simp add: Let_def x_def [symmetric] add.commute)
        also have "\<dots> = Some (set_result (int (length pre)) (code_points A) ?P)"
          using 1(1) [rule_format, of A'' "pre @ [u, v]"] 1(2) Cons v(1) unfolding cp set_result_Cons w(2) by (simp add: add.commute)
        finally show ?thesis .
      next
        case no: False
        have x: "\<forall>w. U16_IS_SINGLE w \<longrightarrow> uint u \<noteq> uint w" using False by (auto simp: word_uint_eq_iff [symmetric])
        have w: "U16_LENGTH (uint u) = 1" "width16 (uint u) = 1" using uint_u16_bounds [of u] by (simp_all add: U16_LENGTH_def width16_def)
        have cp: "code_points A = uint u # code_points A'" using Cons no by (cases A') auto
        have nt: "\<not> (U16_IS_SURROGATE_LEAD u \<and> U16_IS_TRAIL (hd (A' @ [0])))"
          using no surrogate_lead(1) [OF surr] not_trail_0 by (cases A') auto
        have "match_loop (pre @ A @ 0 # r) (int (length pre)) m b (int (length M)) polarity =
            (if ?P (uint u) then Some (int (length pre)) else match_loop ((pre @ [u]) @ A' @ 0 # r) (int (length (pre @ [u]))) m b (int (length M)) polarity)"
          using u nxt False nt cps [OF x] w(1) Cons
          by (subst match_loop.simps) (cases "U16_IS_SURROGATE_LEAD u"; simp add: Let_def add.commute)
        also have "\<dots> = Some (set_result (int (length pre)) (code_points A) ?P)"
          using 1(1) [rule_format, of A' "pre @ [u]"] 1(2) Cons unfolding cp(1) set_result_Cons w(2) by (simp add: add.commute)
        finally show ?thesis .
      qed
    qed
  qed
qed


lemma matchFromSet_ok:
  assumes "0 \<in> set str" "0 \<in> set m"
  shows "matchFromSet str m polarity =
    Some (set_result 0 (code_points (c_string str)) (\<lambda>c. (c \<in> set (code_points (c_string m))) = polarity))"
proof -
  obtain r where r: "str = [] @ c_string str @ 0 # r" "0 \<notin> set (c_string str)" using c_string_split [OF assms(1)] by auto
  obtain q where q: "m = [] @ c_string m @ 0 # q" "0 \<notin> set (c_string m)" using c_string_split [OF assms(2)] by auto
  define b where "b = int (length (takeWhile U16_IS_SINGLE (c_string m)))"
  have "bmp_part m 0 = Some b" using bmp_part_ok [OF q(2), of "[]" q] q(1) by (simp add: b_def)
  moreover have "strlen_from m b = Some (int (length (c_string m)))"
  proof (rule strlen_from_ok)
    have len: "length m = length (c_string m) + Suc (length q)" by (subst q(1)) simp
    then show "int (length (c_string m)) < int (length m)" by simp
    show "m ! nat (int (length (c_string m))) = 0" by (subst q(1)) (simp add: nth_append)
    show "\<forall>k. b \<le> k \<and> k < int (length (c_string m)) \<longrightarrow> m ! nat k \<noteq> 0"
    proof (intro allI impI)
      fix k assume k: "b \<le> k \<and> k < int (length (c_string m))"
      moreover have "0 \<le> b" by (simp add: b_def)
      ultimately have lt: "nat k < length (c_string m)" by linarith
      then have "m ! nat k = c_string m ! nat k" by (subst q(1)) (simp add: nth_append)
      then show "m ! nat k \<noteq> 0" using nth_mem [OF lt] q(2) by metis
    qed
  qed (simp_all add: b_def length_takeWhile_le)
  moreover have "match_loop str 0 m b (int (length (c_string m))) polarity =
      Some (set_result 0 (code_points (c_string str)) (\<lambda>c. (c \<in> set (code_points (c_string m))) = polarity))"
    using match_loop_ok [of m "c_string m" q b "c_string str" "[]" r polarity] q(1) r b_def by simp
  ultimately show ?thesis by (simp add: matchFromSet_def)
qed

lemma widths_nonneg: "0 \<le> widths cs"
  using width16_pos(1) by (induction cs) (auto simp: widths_def intro: add_nonneg_nonneg less_imp_le)

lemma set_result_index: "(if set_result 0 cs P \<ge> 0 then set_result 0 cs P else - set_result 0 cs P - 1) = widths (takeWhile (\<lambda>c. \<not> P c) cs)"
proof (cases "\<exists>c \<in> set cs. P c")
  case False
  then have eq: "takeWhile (\<lambda>c. \<not> P c) cs = cs" unfolding takeWhile_eq_all_conv by blast
  show ?thesis unfolding eq using False widths_nonneg [of cs] by (simp add: set_result_def)
qed (use widths_nonneg in \<open>simp add: set_result_def\<close>)

text \<open>
  C9: \<open>u_strspn\<close> and \<open>u_strcspn\<close> return the number of units of the longest beginning of the text whose code points are all,
  or none, in the set, and \<open>u_strpbrk\<close> the place of the first code point in the set, or NULL.
\<close>
theorem u_strspn_correct:
  assumes "0 \<in> set str" "0 \<in> set m" "M = set (code_points (c_string m))" "cs = code_points (c_string str)"
  shows "u_strspn str m = Some (widths (takeWhile (\<lambda>c. c \<in> M) cs)) \<and>
    u_strcspn str m = Some (widths (takeWhile (\<lambda>c. c \<notin> M) cs)) \<and>
    u_strpbrk str m = Some (if \<exists>c \<in> set cs. c \<in> M then Some (widths (takeWhile (\<lambda>c. c \<notin> M) cs)) else None)"
proof -
  have m: "matchFromSet str m polarity = Some (set_result 0 cs (\<lambda>c. (c \<in> M) = polarity))" for polarity
    using matchFromSet_ok [OF assms(1,2)] by (simp add: assms(3,4))
  have "set_result 0 cs (\<lambda>c. c \<in> M) \<ge> 0 \<longleftrightarrow> (\<exists>c \<in> set cs. c \<in> M)"
    using widths_nonneg [of cs] widths_nonneg [of "takeWhile (\<lambda>c. c \<notin> M) cs"] by (auto simp: set_result_def)
  then have "u_strpbrk str m = Some (if \<exists>c \<in> set cs. c \<in> M then Some (widths (takeWhile (\<lambda>c. c \<notin> M) cs)) else None)"
    using m [of True] by (auto simp: u_strpbrk_def set_result_def)
  then show ?thesis using m [of True] m [of False] set_result_index [of cs "\<lambda>c. c \<in> M"] set_result_index [of cs "\<lambda>c. c \<notin> M"]
    by (simp add: u_strspn_def u_strcspn_def)
qed

theorem u_strspn_correct_witness:
  "u_strspn [0xd83d, 0xde00, 0x61, 0] [0x62, 0xd83d, 0xde00, 0] = Some 2 \<and> u_strcspn [0xd83d, 0xde00, 0x61, 0] [0x62, 0] = Some 3"
  using u_strspn_correct [of "[0xd83d, 0xde00, 0x61, 0]" "[0x62, 0xd83d, 0xde00, 0]", OF _ _ refl refl]
    u_strspn_correct [of "[0xd83d, 0xde00, 0x61, 0]" "[0x62, 0]", OF _ _ refl refl]
  by (simp add: c_string_def U16_IS_LEAD_def U16_IS_TRAIL_def U16_GET_SUPPLEMENTARY_def push_bit_eq_mult widths_def width16_def)

end
